(* ===== verification/Ks_Prelude.thy ===== *)
theory Ks_Prelude
  imports Main "HOL-Library.Word" "HOL-Library.Monad_Syntax"
begin

text \<open>
  Shared vocabulary of the libks development: the machine types of the C sources, the wrap-around
  arithmetic of \<open>size_t\<close>, the memory primitives of the C library that the sources call
  (\<open>malloc\<close>, \<open>realloc\<close>, \<open>memcpy\<close>, \<open>memmove\<close>, byte reads), and the list facts that several
  components use.

  A partial operation returns an \<open>option\<close>: \<^const>\<open>None\<close> is a fault (a failed \<open>ks_assert\<close>, a
  read or a write outside the object), so that the statement \<open>f x = Some y\<close> includes memory safety.
\<close>

unbundle bit_operations_syntax

section \<open>Machine types\<close>

type_synonym byte = "8 word"
type_synonym u16 = "16 word"
type_synonym u32 = "32 word"
type_synonym u64 = "64 word"

text \<open>A block of memory is its list of bytes; a C string is the bytes before its NUL.\<close>

type_synonym mem = "byte list"

section \<open>Bytes\<close>

lemma unat_byte_less: "unat (x :: byte) < 256"
proof -
  have "unat x < 2 ^ LENGTH(8)" by (rule unsigned_less)
  then show ?thesis by simp
qed

text \<open>Plain \<open>char\<close> is signed: below 128 its value is the byte.\<close>

lemma sint_byte_small: "unat (w :: byte) < 128 \<Longrightarrow> sint w = int (unat w)"
proof -
  assume "unat w < 128"
  then have "int (unat w) < 128" by linarith
  then have "uint w < 128" by simp
  moreover have "- 128 \<le> uint w" by (rule order_trans [OF _ uint_ge_0]) simp
  ultimately have "sint w = uint w" by (simp add: sint_uint signed_take_bit_int_eq_self_iff)
  then show ?thesis by simp
qed

lemma sint_byte_neg: "sint (c :: byte) < 0" if "128 \<le> unat c"
proof -
  have "unat c div 2 ^ 7 = 1" using that unat_byte_less [of c] by simp
  then have "bit (unat c) 7" by (simp add: bit_iff_odd)
  then have "bit c 7" by (simp add: bit_unsigned_iff)
  then show ?thesis using bit_last_iff [of c] by simp
qed

section \<open>Collections of rewrite rules\<close>

named_theorems size_simps \<open>unfolding of \<open>size_t\<close> arithmetic when it does not wrap\<close>
named_theorems mem_simps \<open>successful reads and writes of memory blocks\<close>

section \<open>\<open>size_t\<close> arithmetic\<close>

definition SIZE_MOD :: nat where
  "SIZE_MOD = 2 ^ 64"

definition size_add :: "nat \<Rightarrow> nat \<Rightarrow> nat" where
  "size_add a b = (a + b) mod SIZE_MOD"

definition size_sub :: "nat \<Rightarrow> nat \<Rightarrow> nat" where
  "size_sub a b = (if b \<le> a then a - b else SIZE_MOD + a - b)"

definition size_mul :: "nat \<Rightarrow> nat \<Rightarrow> nat" where
  "size_mul a b = (a * b) mod SIZE_MOD"

lemma SIZE_MOD_pos [simp]: "0 < SIZE_MOD"
  by (simp add: SIZE_MOD_def)

lemma size_add_nowrap [size_simps]: "a + b < SIZE_MOD \<Longrightarrow> size_add a b = a + b"
  by (simp add: size_add_def)

lemma size_sub_nowrap [size_simps]: "b \<le> a \<Longrightarrow> size_sub a b = a - b"
  by (simp add: size_sub_def)

lemma size_mul_nowrap [size_simps]: "a * b < SIZE_MOD \<Longrightarrow> size_mul a b = a * b"
  by (simp add: size_mul_def)

lemma size_add_less [simp]: "size_add a b < SIZE_MOD"
  by (simp add: size_add_def)

section \<open>Memory blocks\<close>

text \<open>A read of one byte, and a copy into a block at an offset; both fault outside the block.\<close>

definition mem_rd :: "'a list \<Rightarrow> nat \<Rightarrow> 'a option" where
  "mem_rd m i = (if i < length m then Some (m ! i) else None)"

definition mem_wr :: "'a list \<Rightarrow> nat \<Rightarrow> 'a \<Rightarrow> 'a list option" where
  "mem_wr m i b = (if i < length m then Some (m[i := b]) else None)"

definition mem_cpy :: "'a list \<Rightarrow> nat \<Rightarrow> 'a list \<Rightarrow> 'a list option" where
  "mem_cpy m off xs =
     (if off + length xs \<le> length m
      then Some (take off m @ xs @ drop (off + length xs) m) else None)"

definition mem_sub :: "'a list \<Rightarrow> nat \<Rightarrow> nat \<Rightarrow> 'a list option" where
  "mem_sub m off n = (if off + n \<le> length m then Some (take n (drop off m)) else None)"

text \<open>
  \<open>realloc\<close> keeps the common prefix; the bytes beyond the old block are indeterminate, which is
  what the argument \<open>junk\<close> stands for.
\<close>

definition mem_realloc :: "(nat \<Rightarrow> 'a) \<Rightarrow> 'a list \<Rightarrow> nat \<Rightarrow> 'a list" where
  "mem_realloc junk m n = take n m @ map junk [length m ..< n]"

lemma length_mem_realloc [simp]: "length (mem_realloc junk m n) = n"
  by (simp add: mem_realloc_def)

lemma take_mem_realloc [simp]:
  "k \<le> n \<Longrightarrow> k \<le> length m \<Longrightarrow> take k (mem_realloc junk m n) = take k m"
  by (simp add: mem_realloc_def)

lemma mem_rd_Some [mem_simps]: "i < length m \<Longrightarrow> mem_rd m i = Some (m ! i)"
  by (simp add: mem_rd_def)

lemma mem_rd_None [mem_simps]: "length m \<le> i \<Longrightarrow> mem_rd m i = None"
  by (simp add: mem_rd_def)

lemma mem_wr_Some [mem_simps]: "i < length m \<Longrightarrow> mem_wr m i b = Some (m[i := b])"
  by (simp add: mem_wr_def)

lemma mem_cpy_Some [mem_simps]:
  "off + length xs \<le> length m \<Longrightarrow>
   mem_cpy m off xs = Some (take off m @ xs @ drop (off + length xs) m)"
  by (simp add: mem_cpy_def)

lemma mem_sub_Some [mem_simps]: "off + n \<le> length m \<Longrightarrow> mem_sub m off n = Some (take n (drop off m))"
  by (simp add: mem_sub_def)

lemma mem_cpy_length: "mem_cpy m off xs = Some m' \<Longrightarrow> length m' = length m"
  by (auto simp: mem_cpy_def split: if_splits)

lemma mem_wr_length: "mem_wr m i b = Some m' \<Longrightarrow> length m' = length m"
  by (auto simp: mem_wr_def split: if_splits)

text \<open>The block after the bytes \<open>s\<close> were written at offset \<open>n\<close>.\<close>

definition blit :: "nat \<Rightarrow> 'a list \<Rightarrow> 'a list \<Rightarrow> 'a list" where
  "blit n s out = take n out @ s @ drop (n + length s) out"

lemma blit_Nil [simp]: "blit n [] out = out"
  by (simp add: blit_def)

lemma length_blit [simp]: "n + length s \<le> length out \<Longrightarrow> length (blit n s out) = length out"
  by (simp add: blit_def)

lemma blit_blit: "n + length s + length t \<le> length out \<Longrightarrow> blit (n + length s) t (blit n s out) = blit n (s @ t) out"
  by (simp add: blit_def ac_simps)

lemma blit_Cons: "n + Suc (length t) \<le> length out \<Longrightarrow> blit (Suc n) t (blit n [c] out) = blit n (c # t) out"
  using blit_blit [of n "[c]" t out] by simp

lemma mem_wr_blit: "n < length out \<Longrightarrow> mem_wr out n c = Some (blit n [c] out)"
  by (simp add: mem_wr_def blit_def upd_conv_take_nth_drop)

section \<open>Lists\<close>

text \<open>A scan that reads a block at an offset sees the next element and the rest.\<close>

lemma drop_eq_Cons:
  assumes "drop p m = c # s"
  shows "p < length m" "m ! p = c" "drop (Suc p) m = s"
proof -
  show "p < length m" using assms by (rule contrapos_pp) simp
  then show "m ! p = c" "drop (Suc p) m = s"
    using assms by (simp_all add: Cons_nth_drop_Suc [symmetric])
qed

text \<open>A table filled by updates at distinct indices.\<close>

lemma fold_update_other:
  "j \<notin> f ` set is \<Longrightarrow> fold (\<lambda>i t. t[f i := g i]) is t ! j = t ! j"
  by (induction "is" arbitrary: t) auto

lemma fold_update_nth:
  "inj_on f (set is) \<Longrightarrow> \<forall>i\<in>set is. f i < length t \<Longrightarrow> i \<in> set is \<Longrightarrow> distinct is \<Longrightarrow>
   fold (\<lambda>i t. t[f i := g i]) is t ! f i = g i"
proof (induction "is" arbitrary: t)
  case (Cons k ks)
  show ?case
  proof (cases "i \<in> set ks")
    case False
    with Cons.prems have "i = k" "f k \<notin> f ` set ks" by auto
    with Cons.prems show ?thesis by (simp add: fold_update_other)
  qed (use Cons in auto)
qed simp

lemma length_fold_update [simp]: "length (fold (\<lambda>i t. t[f i := g i]) is t) = length t"
  by (induction "is" arbitrary: t) auto

text \<open>The window of \<open>n\<close> elements at offset \<open>off\<close> of a block.\<close>

lemma take_drop_append_window:
  "off + n \<le> length m \<Longrightarrow> take n (drop off m) @ xs =
   take (n + length xs) (drop off (take (off + n) m @ xs @ ys))"
  by (simp add: drop_take)

lemma drop_window: "k \<le> n \<Longrightarrow> drop k (take n (drop off m)) = take (n - k) (drop (off + k) m)"
  by (simp add: drop_take add.commute)

lemma take_window: "k \<le> n \<Longrightarrow> take k (take n (drop off m)) = take k (drop off m)"
  by (simp add: min_def)

section \<open>Little-endian words\<close>

definition le_bytes :: "nat \<Rightarrow> u64 \<Rightarrow> mem" where
  "le_bytes n x = map (\<lambda>i. ucast (drop_bit (8 * i) x)) [0 ..< n]"

definition le_val :: "mem \<Rightarrow> int" where
  "le_val bs = horner_sum uint 256 bs"

lemma le_val_simps: "le_val [] = 0" "le_val (b # bs) = uint b + 256 * le_val bs"
  by (simp_all add: le_val_def)

text \<open>Reading back the bytes of a word.\<close>

lemma le_val_bytes: "le_val (le_bytes n x) = take_bit (8 * n) (uint x)"
proof -
  have "horner_sum uint 256 (map (\<lambda>i. (ucast (drop_bit (8 * i) x) :: byte)) [m ..< m + n]) =
      take_bit (8 * n) (drop_bit (8 * m) (uint x))" for m
  proof (induction n arbitrary: m)
    case (Suc n)
    have "[m ..< m + Suc n] = m # [Suc m ..< Suc m + n]" by (simp add: upt_rec)
    moreover have "uint (ucast (drop_bit (8 * m) x) :: byte) = take_bit 8 (drop_bit (8 * m) (uint x))"
      by (rule bit_eqI) (auto simp: bit_simps dest: bit_imp_le_length)
    moreover have "take_bit (8 * Suc n) y = take_bit 8 y + 256 * take_bit (8 * n) (drop_bit 8 y)" for y :: int
      by (simp add: take_bit_eq_mod drop_bit_eq_div power_add zmod_zmult2_eq)
    ultimately show ?case using Suc.IH [of "Suc m"] by (simp add: drop_bit_drop_bit add.commute)
  qed simp
  from this [of 0] show ?thesis by (simp add: le_val_def le_bytes_def)
qed

lemma le_val_bounds: "0 \<le> le_val bs" "le_val bs < 256 ^ length bs"
proof (induction bs)
  case (Cons b bs)
  have "0 \<le> uint b" "uint b < 256" using uint_lt2p [of b] by simp_all
  with Cons show "0 \<le> le_val (b # bs)" "le_val (b # bs) < 256 ^ length (b # bs)"
    by (simp_all add: le_val_simps)
qed (simp_all add: le_val_simps)

lemma le_val_inj: "length bs = length cs \<Longrightarrow> le_val bs = le_val cs \<Longrightarrow> bs = cs"
proof (induction bs cs rule: list_induct2)
  case (Cons b bs c cs)
  have b: "0 \<le> uint b" "uint b < 256" "0 \<le> uint c" "uint c < 256"
    using uint_lt2p [of b] uint_lt2p [of c] by simp_all
  have e: "uint b + 256 * le_val bs = uint c + 256 * le_val cs" using Cons.prems by (simp add: le_val_simps)
  have "uint b = uint c" using arg_cong [OF e, of "\<lambda>v. v mod 256"] b by simp
  with e have "uint b = uint c" "le_val bs = le_val cs" by simp_all
  with Cons.IH show ?case by (simp add: word_uint_eq_iff)
qed simp

end
