(* ===== verification/Ks_Types.thy ===== *)
theory Ks_Types
  imports Ks_Prelude
begin

text \<open>
  The status codes of \<open>ks_types.h\<close> and the string conversion functions that \<open>ks.c\<close> instantiates
  from the macro \<open>KS_STR2ENUM\<close>.
\<close>

datatype ks_status =
    KS_STATUS_SUCCESS | KS_STATUS_END | KS_STATUS_FAIL | KS_STATUS_BREAK
  | KS_STATUS_DISCONNECTED | KS_STATUS_GENERR | KS_STATUS_INVALID_ARGUMENT | KS_STATUS_INACTIVE
  | KS_STATUS_TIMEOUT | KS_STATUS_DUPLICATE_OPERATION | KS_STATUS_THREAD_STOP_REQUESTED
  | KS_STATUS_THREAD_ALREADY_STOPPED | KS_STATUS_THREAD_ALREADY_JOINED
  | KS_STATUS_POOL_PREFIX_LOCKED | KS_STATUS_REFS_EXIST | KS_STATUS_ARG_NULL
  | KS_STATUS_ARG_INVALID | KS_STATUS_PNT | KS_STATUS_POOL_OVER | KS_STATUS_PAGE_SIZE
  | KS_STATUS_OPEN_ZERO | KS_STATUS_NO_MEM | KS_STATUS_SIZE | KS_STATUS_TOO_BIG | KS_STATUS_MEM
  | KS_STATUS_MEM_OVER | KS_STATUS_NOT_FOUND | KS_STATUS_IS_FREE | KS_STATUS_BLOCK_STAT
  | KS_STATUS_FREE_ADDR | KS_STATUS_NO_PAGES | KS_STATUS_ALLOC | KS_STATUS_PNT_OVER
  | KS_STATUS_INVALID_POINTER | KS_STATUS_NOT_ALLOWED | KS_STATUS_RETRY | KS_STATUS_COUNT

text \<open>The enumerators in the order of the header: the value of a code is its position.\<close>

definition ks_status_enum :: "ks_status list" where
  "ks_status_enum =
    [KS_STATUS_SUCCESS, KS_STATUS_END, KS_STATUS_FAIL, KS_STATUS_BREAK,
     KS_STATUS_DISCONNECTED, KS_STATUS_GENERR, KS_STATUS_INVALID_ARGUMENT, KS_STATUS_INACTIVE,
     KS_STATUS_TIMEOUT, KS_STATUS_DUPLICATE_OPERATION, KS_STATUS_THREAD_STOP_REQUESTED,
     KS_STATUS_THREAD_ALREADY_STOPPED, KS_STATUS_THREAD_ALREADY_JOINED,
     KS_STATUS_POOL_PREFIX_LOCKED, KS_STATUS_REFS_EXIST, KS_STATUS_ARG_NULL,
     KS_STATUS_ARG_INVALID, KS_STATUS_PNT, KS_STATUS_POOL_OVER, KS_STATUS_PAGE_SIZE,
     KS_STATUS_OPEN_ZERO, KS_STATUS_NO_MEM, KS_STATUS_SIZE, KS_STATUS_TOO_BIG, KS_STATUS_MEM,
     KS_STATUS_MEM_OVER, KS_STATUS_NOT_FOUND, KS_STATUS_IS_FREE, KS_STATUS_BLOCK_STAT,
     KS_STATUS_FREE_ADDR, KS_STATUS_NO_PAGES, KS_STATUS_ALLOC, KS_STATUS_PNT_OVER,
     KS_STATUS_INVALID_POINTER, KS_STATUS_NOT_ALLOWED, KS_STATUS_RETRY, KS_STATUS_COUNT]"

fun index_of :: "'a list \<Rightarrow> 'a \<Rightarrow> nat" where
  "index_of [] x = 0"
| "index_of (y # ys) x = (if x = y then 0 else Suc (index_of ys x))"

definition ks_status_val :: "ks_status \<Rightarrow> nat" where
  "ks_status_val s = index_of ks_status_enum s"

text \<open>
  The array \<open>STATUS_NAMES\<close> (\<open>KS_ENUM_NAMES\<close> in \<open>ks.c\<close>): the strings of \<open>STATUS_STRINGS\<close>
  followed by a NULL pointer.
\<close>

definition STATUS_STRINGS :: "string list" where
  "STATUS_STRINGS =
    [''SUCCESS'', ''FAIL'', ''BREAK'', ''DISCONNECTED'', ''GENERR'', ''INACTIVE'', ''TIMEOUT'',
     ''DUPLICATE_OPERATION'', ''ARG_NULL'', ''ARG_INVALID'', ''PNT'', ''POOL_OVER'', ''PAGE_SIZE'',
     ''OPEN_ZERO'', ''NO_MEM'', ''SIZE'', ''TOO_BIG'', ''MEM'', ''MEM_OVER'', ''NOT_FOUN'',
     ''IS_FREE'', ''BLOCK_STAT'', ''FREE_ADDR'', ''NO_PAGES'', ''ALLOC'', ''PNT_OVER'',
     ''INVALID_POINTER'', ''NOT_ALLOWED'', ''COUNT'']"

definition STATUS_NAMES :: "string option list" where
  "STATUS_NAMES = map Some STATUS_STRINGS @ [None]"

text \<open>\<open>strcasecmp\<close> on ASCII: letters are compared by their lower case.\<close>

definition tolower_char :: "char \<Rightarrow> char" where
  "tolower_char c = (let n = (of_char c :: nat) in
     if 65 \<le> n \<and> n \<le> 90 then char_of (n + 32) else c)"

definition strcaseeq :: "string \<Rightarrow> string \<Rightarrow> bool" where
  "strcaseeq a b = (map tolower_char a = map tolower_char b)"

text \<open>
  \<open>ks_str2ks_status\<close>: the loop over \<open>i < KS_STATUS_COUNT\<close>. Reading a NULL entry (passed to
  \<open>strcasecmp\<close>) or an entry outside the array is a fault.
\<close>

function str2status_loop :: "string \<Rightarrow> nat \<Rightarrow> nat option" where
  "str2status_loop name i =
     (if i < ks_status_val KS_STATUS_COUNT then
        (case mem_rd STATUS_NAMES i of
           None \<Rightarrow> None
         | Some None \<Rightarrow> None
         | Some (Some s) \<Rightarrow> if strcaseeq name s then Some i else str2status_loop name (Suc i))
      else Some (ks_status_val KS_STATUS_COUNT))"
  by pat_completeness auto
termination
  by (relation "measure (\<lambda>(name, i). ks_status_val KS_STATUS_COUNT - i)") auto

declare str2status_loop.simps [simp del]

definition ks_str2ks_status :: "string \<Rightarrow> nat option" where
  "ks_str2ks_status name = str2status_loop name 0"

text \<open>\<open>ks_status2str\<close>: \<^term>\<open>None\<close> is a read outside the array, \<^term>\<open>Some None\<close> a NULL result.\<close>

definition ks_status2str :: "nat \<Rightarrow> string option option" where
  "ks_status2str t =
     (let t = (if ks_status_val KS_STATUS_COUNT < t then ks_status_val KS_STATUS_COUNT else t)
      in mem_rd STATUS_NAMES t)"

text \<open>The stages and the kinds of the pool's clean-up callbacks.\<close>

datatype cleanup_action = KS_MPCL_ANNOUNCE | KS_MPCL_TEARDOWN | KS_MPCL_DESTROY
datatype cleanup_type = KS_MPCL_FREE | KS_MPCL_GLOBAL_FREE

lemma ks_status_enum_distinct: "distinct ks_status_enum"
  by (simp add: ks_status_enum_def)

lemma ks_status_enum_UNIV: "s \<in> set ks_status_enum"
  by (cases s) (simp_all add: ks_status_enum_def)

lemma index_of_nth: "x \<in> set xs \<Longrightarrow> index_of xs x < length xs \<and> xs ! index_of xs x = x"
  by (induction xs) auto

lemma ks_status_val_less: "ks_status_val s < 37"
  using index_of_nth [OF ks_status_enum_UNIV [of s]]
  by (simp add: ks_status_val_def ks_status_enum_def)

lemma ks_status_val_inj: "ks_status_val a = ks_status_val b \<Longrightarrow> a = b"
  unfolding ks_status_val_def
  by (metis index_of_nth ks_status_enum_UNIV)

section \<open>Properties\<close>

lemma STATUS_NAMES_length: "length STATUS_NAMES = 30" "length STATUS_STRINGS = 29"
  by (simp_all add: STATUS_NAMES_def STATUS_STRINGS_def)

lemma KS_STATUS_COUNT_val: "ks_status_val KS_STATUS_COUNT = 36"
  by (simp add: ks_status_val_def ks_status_enum_def)

lemma str2status_loop_unknown:
  assumes "\<forall>s\<in>set STATUS_STRINGS. \<not> strcaseeq name s" and "i \<le> 29"
  shows "str2status_loop name i = None"
  using assms(2)
proof (induction "29 - i" arbitrary: i)
  case 0
  then have "i = 29" by simp
  then show ?case
    by (subst str2status_loop.simps)
      (simp add: mem_rd_def STATUS_NAMES_length KS_STATUS_COUNT_val STATUS_NAMES_def nth_append)
next
  case (Suc k)
  then have "i < 29" "str2status_loop name (Suc i) = None" by simp_all
  with assms(1) show ?case
    by (subst str2status_loop.simps)
      (simp add: mem_rd_def STATUS_NAMES_length KS_STATUS_COUNT_val STATUS_NAMES_def nth_append)
qed

text \<open>
  \<open>STATUS_STRINGS\<close> has fewer entries than the enumeration has codes. A name that is not in the
  table makes \<open>ks_str2ks_status\<close> pass the terminating NULL to \<open>strcasecmp\<close> instead of returning
  \<open>KS_STATUS_COUNT\<close>.
\<close>

lemma ks_str2ks_status_unknown_faults:
  assumes "\<forall>s\<in>set STATUS_STRINGS. \<not> strcaseeq name s"
  shows "ks_str2ks_status name = None"
  unfolding ks_str2ks_status_def by (rule str2status_loop_unknown [OF assms]) simp

text \<open>
  because the table lacks entries in the middle, \<open>ks_status2str\<close> names a code wrongly from the
  second code on, \<open>KS_STATUS_FREE_ADDR\<close> gives the terminating NULL, and the codes behind it are
  read outside the table.
\<close>

lemma ks_status2str_shifted:
  "ks_status2str (ks_status_val KS_STATUS_SUCCESS) = Some (Some ''SUCCESS'') \<and>
   ks_status2str (ks_status_val KS_STATUS_END) = Some (Some ''FAIL'') \<and>
   ks_status2str (ks_status_val KS_STATUS_FAIL) = Some (Some ''BREAK'') \<and>
   ks_status2str (ks_status_val KS_STATUS_TIMEOUT) = Some (Some ''ARG_NULL'') \<and>
   ks_status2str (ks_status_val KS_STATUS_FREE_ADDR) = Some None \<and>
   ks_status2str (ks_status_val KS_STATUS_NO_PAGES) = None \<and>
   ks_status2str (ks_status_val KS_STATUS_COUNT) = None"
  by (simp add: ks_status2str_def ks_status_val_def ks_status_enum_def STATUS_NAMES_def
      STATUS_STRINGS_def mem_rd_def)

end
