(* ===== verification/Ks_Fifo.thy ===== *)
theory Ks_Fifo
  imports Ks_Prelude
begin

text \<open>
  The contract of a first-in first-out channel, which the byte buffer (\<open>ks_buffer.c\<close>) and the
  pointer queue (\<open>ks_q.c\<close>) both promise, and what a client may conclude from it: whatever
  sequence of puts and gets is run, the data comes out in the order it went in, nothing is lost
  and nothing is invented.

  \<open>put\<close> may need a precondition (\<open>may_put\<close>), \<open>emb\<close> is the data one put adds, \<open>get\<close> returns the
  data it removes.
\<close>

datatype ('x, 'n) fifo_op = Put 'x | Get 'n

fun fifo_run ::
  "('s \<Rightarrow> 'x \<Rightarrow> bool) \<Rightarrow> ('s \<Rightarrow> 'x \<Rightarrow> 's option) \<Rightarrow> ('s \<Rightarrow> 'n \<Rightarrow> ('a list \<times> 's) option) \<Rightarrow>
   's \<Rightarrow> ('x, 'n) fifo_op list \<Rightarrow> ('a list \<times> 's) option" where
  "fifo_run may_put put get s [] = Some ([], s)"
| "fifo_run may_put put get s (Put x # ops) =
     (if may_put s x
      then do { s' \<leftarrow> put s x; fifo_run may_put put get s' ops }
      else None)"
| "fifo_run may_put put get s (Get n # ops) =
     do { (out, s') \<leftarrow> get s n;
          (outs, s'') \<leftarrow> fifo_run may_put put get s' ops;
          Some (out @ outs, s'') }"

fun fifo_puts :: "('x \<Rightarrow> 'a list) \<Rightarrow> ('x, 'n) fifo_op list \<Rightarrow> 'a list" where
  "fifo_puts emb [] = []"
| "fifo_puts emb (Put x # ops) = emb x @ fifo_puts emb ops"
| "fifo_puts emb (Get n # ops) = fifo_puts emb ops"

text \<open>The preconditions of the puts hold at every point of the run.\<close>

fun fifo_admissible ::
  "('s \<Rightarrow> 'x \<Rightarrow> bool) \<Rightarrow> ('s \<Rightarrow> 'x \<Rightarrow> 's option) \<Rightarrow> ('s \<Rightarrow> 'n \<Rightarrow> ('a list \<times> 's) option) \<Rightarrow>
   's \<Rightarrow> ('x, 'n) fifo_op list \<Rightarrow> bool" where
  "fifo_admissible may_put put get s [] = True"
| "fifo_admissible may_put put get s (Put x # ops) =
     (may_put s x \<and>
      (case put s x of None \<Rightarrow> True | Some s' \<Rightarrow> fifo_admissible may_put put get s' ops))"
| "fifo_admissible may_put put get s (Get n # ops) =
     (case get s n of None \<Rightarrow> True | Some (out, s') \<Rightarrow> fifo_admissible may_put put get s' ops)"

locale fifo =
  fixes inv :: "'s \<Rightarrow> bool"
    and contents :: "'s \<Rightarrow> 'a list"
    and may_put :: "'s \<Rightarrow> 'x \<Rightarrow> bool"
    and emb :: "'x \<Rightarrow> 'a list"
    and put :: "'s \<Rightarrow> 'x \<Rightarrow> 's option"
    and get :: "'s \<Rightarrow> 'n \<Rightarrow> ('a list \<times> 's) option"
  assumes put_ok: "inv s \<Longrightarrow> may_put s x \<Longrightarrow>
      \<exists>s'. put s x = Some s' \<and> inv s' \<and> contents s' = contents s @ emb x"
    and get_ok: "inv s \<Longrightarrow>
      \<exists>out s'. get s n = Some (out, s') \<and> inv s' \<and> contents s = out @ contents s'"
begin

lemma run_conserves:
  assumes "inv s" and "fifo_admissible may_put put get s ops"
  shows "\<exists>outs s'. fifo_run may_put put get s ops = Some (outs, s') \<and> inv s' \<and>
           contents s @ fifo_puts emb ops = outs @ contents s'"
  using assms
proof (induction ops arbitrary: s)
  case Nil
  then show ?case by simp
next
  case (Cons op ops)
  show ?case
  proof (cases op)
    case (Put x)
    with Cons.prems put_ok [of s x] obtain s1 where
      s1: "put s x = Some s1" "inv s1" "contents s1 = contents s @ emb x" and "may_put s x"
      by auto
    moreover from Cons.prems Put s1 have "fifo_admissible may_put put get s1 ops" by simp
    ultimately show ?thesis using Cons.IH [of s1] Put by auto
  next
    case (Get n)
    from Cons.prems get_ok [of s n] obtain out s1 where
      s1: "get s n = Some (out, s1)" "inv s1" "contents s = out @ contents s1" by auto
    moreover from Cons.prems Get s1 have "fifo_admissible may_put put get s1 ops" by simp
    ultimately show ?thesis using Cons.IH [of s1] Get by auto
  qed
qed

text \<open>From an empty channel, what was read is a prefix of what was written.\<close>

lemma run_prefix:
  assumes "inv s" and "contents s = []" and "fifo_run may_put put get s ops = Some (outs, s')"
    and "fifo_admissible may_put put get s ops"
  shows "\<exists>rest. fifo_puts emb ops = outs @ rest \<and> rest = contents s'"
  using run_conserves [OF assms(1,4)] assms(2,3) by auto

end

end
