(* ===== verification/Ks_Buffer.thy ===== *)
theory Ks_Buffer
  imports Ks_Types Ks_Fifo
begin

text \<open>
  \<open>ks_buffer.c\<close>: a growing byte buffer that is written at the end and read at the front.

  The record mirrors \<open>struct ks_buffer\<close>: \<open>bdata\<close> is the allocation (\<^const>\<open>None\<close> for the NULL
  pointer a buffer of start length 0 has), \<open>bhead\<close> the offset of \<open>head\<close> from \<open>data\<close>. Sizes are
  natural numbers with the wrap-around of \<open>size_t\<close> written out. \<open>malloc\<close> and \<open>realloc\<close> may fail:
  the outcome, and the indeterminate bytes of a grown block, are arguments of the operations.
  An operation returns \<^const>\<open>None\<close> where the C code fails a \<open>ks_assert\<close> or leaves the block.
\<close>

section \<open>State and operations\<close>

record ks_buffer =
  bdata :: "mem option"
  bhead :: nat
  bused :: nat
  actually_used :: nat
  bdatalen :: nat
  max_len :: nat
  blocksize :: nat
  buf_id :: u32
  loops :: int

text \<open>The result of an allocation request, and what a grown block holds beyond the old bytes.\<close>

record alloc_env =
  alloc_ok :: bool
  alloc_junk :: "nat \<Rightarrow> byte"

text \<open>
  \<open>ks_buffer_create\<close>: \<open>hdr_ok\<close> and \<open>data_ok\<close> are the outcomes of the two \<open>malloc\<close> calls; the
  static counter \<open>buffer_id\<close> is passed and returned.
\<close>

definition ks_buffer_create ::
  "bool \<Rightarrow> bool \<Rightarrow> u32 \<Rightarrow> nat \<Rightarrow> nat \<Rightarrow> nat \<Rightarrow> ks_status \<times> ks_buffer option \<times> u32" where
  "ks_buffer_create hdr_ok data_ok buffer_id bsize start_len mlen =
     (if \<not> hdr_ok then (KS_STATUS_FAIL, None, buffer_id)
      else if start_len \<noteq> 0 \<and> \<not> data_ok then (KS_STATUS_FAIL, None, buffer_id)
      else (KS_STATUS_SUCCESS,
            Some \<lparr>bdata = (if start_len \<noteq> 0 then Some (replicate start_len 0) else None),
                  bhead = 0, bused = 0, actually_used = 0, bdatalen = start_len,
                  max_len = mlen, blocksize = bsize, buf_id = buffer_id, loops = 0\<rparr>,
            buffer_id + 1))"

definition ks_buffer_len :: "ks_buffer \<Rightarrow> nat" where
  "ks_buffer_len b = bdatalen b"

definition ks_buffer_freespace :: "ks_buffer \<Rightarrow> nat" where
  "ks_buffer_freespace b = (if max_len b \<noteq> 0 then size_sub (max_len b) (bused b) else 1000000)"

definition ks_buffer_inuse :: "ks_buffer \<Rightarrow> nat" where
  "ks_buffer_inuse b = bused b"

definition ks_buffer_seek :: "ks_buffer \<Rightarrow> nat \<Rightarrow> nat \<times> ks_buffer" where
  "ks_buffer_seek b n =
     (if bused b < 1 then (0, b\<lparr>bused := 0\<rparr>)
      else let reading = (if n \<le> bused b then n else bused b) in
        (reading, b\<lparr>bused := size_sub (actually_used b) reading, bhead := reading\<rparr>))"

definition ks_buffer_toss :: "ks_buffer \<Rightarrow> nat \<Rightarrow> nat \<times> ks_buffer" where
  "ks_buffer_toss b n =
     (if bused b < 1 then (0, b\<lparr>bused := 0\<rparr>)
      else let reading = (if n \<le> bused b then n else bused b);
               b' = b\<lparr>bused := bused b - reading, bhead := bhead b + reading\<rparr> in
        (bused b', b'))"

definition ks_buffer_set_loops :: "ks_buffer \<Rightarrow> int \<Rightarrow> ks_buffer" where
  "ks_buffer_set_loops b n = b\<lparr>loops := n\<rparr>"

text \<open>
  \<open>ks_buffer_read\<close> returns the bytes it copies; the C return value is their number.
\<close>

definition ks_buffer_read :: "ks_buffer \<Rightarrow> nat \<Rightarrow> (mem \<times> ks_buffer) option" where
  "ks_buffer_read b n =
     (case bdata b of None \<Rightarrow> None
      | Some d \<Rightarrow>
         if bused b < 1 then Some ([], b\<lparr>bused := 0\<rparr>)
         else let reading = (if n \<le> bused b then n else bused b) in
           do { out \<leftarrow> mem_sub d (bhead b) reading;
                Some (out, b\<lparr>bused := bused b - reading, bhead := bhead b + reading\<rparr>) })"

text \<open>
  \<open>ks_buffer_read_loop\<close>: the bytes delivered to the caller and the value returned (the length
  of the last read alone).
\<close>

definition ks_buffer_read_loop :: "ks_buffer \<Rightarrow> nat \<Rightarrow> (mem \<times> nat \<times> ks_buffer) option" where
  "ks_buffer_read_loop b n =
     do { (out, b1) \<leftarrow> ks_buffer_read b n;
          if length out < n then
            (if loops b1 = 0 then Some (out, length out, b1)
             else do { (out2, b2) \<leftarrow> ks_buffer_read
                         (b1\<lparr>bhead := 0, bused := actually_used b1\<rparr>) (n - length out);
                       Some (out @ out2, length out2, b2\<lparr>loops := loops b2 - 1\<rparr>) })
          else Some (out, length out, b1) }"

text \<open>
  The two packet scanners. A packet ends at two newlines, with an optional carriage return
  between them; \<open>p\<close> and \<open>e\<close> are offsets into the block, and a read outside it faults.
  \<open>packet_end\<close> is the inner test: the offset of the second newline, if there is one.
\<close>

definition packet_end :: "mem \<Rightarrow> nat \<Rightarrow> nat \<Rightarrow> nat option option" where
  "packet_end d p e =
     do { c1 \<leftarrow> mem_rd d (p + 1);
          let pe = (if c1 = 13 then p + 2 else p + 1);
          if pe \<le> e then do { c2 \<leftarrow> mem_rd d pe; Some (if c2 = 10 then Some pe else None) }
          else Some None }"

lemma packet_end_gt: "packet_end d p e = Some (Some pe) \<Longrightarrow> p < pe \<and> pe \<le> e"
  by (auto simp: packet_end_def Let_def split: option.splits Option.bind_splits if_splits)

function packet_count_loop :: "mem \<Rightarrow> nat \<Rightarrow> nat \<Rightarrow> nat \<Rightarrow> nat option" where
  "packet_count_loop d p e x =
     (if p < e then
        (case mem_rd d p of
           None \<Rightarrow> None
         | Some c \<Rightarrow>
            if c = 0 then Some x
            else if c = 10 then
              (case packet_end d p e of
                 None \<Rightarrow> None
               | Some None \<Rightarrow> packet_count_loop d (p + 1) e x
               | Some (Some pe) \<Rightarrow> packet_count_loop d (pe + 1) e (x + 1))
            else packet_count_loop d (p + 1) e x)
      else Some x)"
  by pat_completeness auto
termination
  by (relation "measure (\<lambda>(d, p, e, x). e - p)") (auto dest: packet_end_gt)

declare packet_count_loop.simps [simp del]

definition ks_buffer_packet_count :: "ks_buffer \<Rightarrow> nat option" where
  "ks_buffer_packet_count b =
     (case bdata b of None \<Rightarrow> Some 0
      | Some d \<Rightarrow> packet_count_loop d (bhead b) (bhead b + bused b) 0)"

function packet_find_loop :: "mem \<Rightarrow> nat \<Rightarrow> nat \<Rightarrow> nat option option" where
  "packet_find_loop d p e =
     (if p < e then
        (case mem_rd d p of
           None \<Rightarrow> None
         | Some c \<Rightarrow>
            if c = 0 then Some None
            else if c = 10 then
              (case packet_end d p e of
                 None \<Rightarrow> None
               | Some None \<Rightarrow> packet_find_loop d (p + 1) e
               | Some (Some pe) \<Rightarrow> Some (Some (pe + 1)))
            else packet_find_loop d (p + 1) e)
      else Some None)"
  by pat_completeness auto
termination
  by (relation "measure (\<lambda>(d, p, e). e - p)") auto

declare packet_find_loop.simps [simp del]

definition ks_buffer_read_packet :: "ks_buffer \<Rightarrow> nat \<Rightarrow> (mem \<times> ks_buffer) option" where
  "ks_buffer_read_packet b maxlen =
     (case bdata b of None \<Rightarrow> None
      | Some d \<Rightarrow>
         do { r \<leftarrow> packet_find_loop d (bhead b) (bhead b + bused b);
              let n = (case r of None \<Rightarrow> 0
                       | Some pe \<Rightarrow> if maxlen < pe - bhead b then maxlen else pe - bhead b);
              ks_buffer_read b n })"

text \<open>
  \<open>ks_buffer_write\<close>, step by step: compaction, growth, copy. The result is the value returned
  and the new state.
\<close>

definition write_compact :: "ks_buffer \<Rightarrow> mem \<Rightarrow> nat \<Rightarrow> ks_buffer option" where
  "write_compact b d n =
     (if size_sub (bdatalen b) (actually_used b) < n \<and>
         (max_len b = 0 \<or> size_add (bused b) n \<le> max_len b) then
        do { src \<leftarrow> mem_sub d (bhead b) (bused b);
             d' \<leftarrow> mem_cpy d 0 src;
             Some (b\<lparr>bdata := Some d', bhead := 0, actually_used := bused b\<rparr>) }
      else Some b)"

definition write_grow :: "alloc_env \<Rightarrow> ks_buffer \<Rightarrow> nat \<Rightarrow> bool \<times> ks_buffer" where
  "write_grow env b n =
     (if size_sub (bdatalen b) (bused b) < n then
        let new_size = size_add (bdatalen b) n;
            new_block_size = size_add (bdatalen b) (blocksize b);
            new_size = (if new_size < new_block_size then new_block_size else new_size) in
        (if \<not> alloc_ok env then (False, b\<lparr>bhead := 0\<rparr>)
         else (True, b\<lparr>bdata := map_option (\<lambda>d. mem_realloc (alloc_junk env) d new_size) (bdata b),
                       bhead := 0, bdatalen := new_size\<rparr>))
      else (True, b))"

definition write_copy :: "ks_buffer \<Rightarrow> mem \<Rightarrow> (nat \<times> ks_buffer) option" where
  "write_copy b xs =
     (if size_sub (bdatalen b) (bused b) < length xs then Some (0, b)
      else do { d \<leftarrow> bdata b;
                d' \<leftarrow> mem_cpy d (bhead b + bused b) xs;
                Some (size_add (bused b) (length xs),
                      b\<lparr>bdata := Some d', bused := size_add (bused b) (length xs),
                        actually_used := size_add (actually_used b) (length xs)\<rparr>) })"

definition ks_buffer_write :: "alloc_env \<Rightarrow> ks_buffer \<Rightarrow> mem \<Rightarrow> (nat \<times> ks_buffer) option" where
  "ks_buffer_write env b xs =
     (case bdata b of None \<Rightarrow> None
      | Some d \<Rightarrow>
         if xs = [] then Some (bused b, b)
         else do { b1 \<leftarrow> write_compact b d (length xs);
                   let (ok, b2) = write_grow env b1 (length xs);
                   if \<not> ok then Some (0, b2) else write_copy b2 xs })"

definition ks_buffer_zero :: "ks_buffer \<Rightarrow> ks_buffer option" where
  "ks_buffer_zero b =
     (case bdata b of None \<Rightarrow> None
      | Some d \<Rightarrow> Some (b\<lparr>bused := 0, actually_used := 0, bhead := 0\<rparr>))"

definition ks_buffer_zwrite ::
  "alloc_env \<Rightarrow> alloc_env \<Rightarrow> ks_buffer \<Rightarrow> mem \<Rightarrow> (nat \<times> ks_buffer) option" where
  "ks_buffer_zwrite env1 env2 b xs =
     do { (w, b1) \<leftarrow> ks_buffer_write env1 b xs;
          if w = 0 then do { b2 \<leftarrow> ks_buffer_zero b1; ks_buffer_write env2 b2 xs }
          else Some (w, b1) }"

text \<open>\<open>ks_buffer_destroy\<close> frees the buffer and clears the caller's pointer.\<close>

definition ks_buffer_destroy :: "ks_buffer option \<Rightarrow> ks_buffer option" where
  "ks_buffer_destroy b = None"

section \<open>Invariant and abstraction\<close>

text \<open>The unread bytes, in order.\<close>

definition buf_contents :: "ks_buffer \<Rightarrow> mem" where
  "buf_contents b = (case bdata b of None \<Rightarrow> [] | Some d \<Rightarrow> take (bused b) (drop (bhead b) d))"

definition buf_inv :: "ks_buffer \<Rightarrow> bool" where
  "buf_inv b =
     (case bdata b of None \<Rightarrow> False
      | Some d \<Rightarrow> length d = bdatalen b \<and> bhead b + bused b = actually_used b \<and>
                 actually_used b \<le> bdatalen b \<and> bdatalen b < SIZE_MOD)"

text \<open>A write stays within \<open>size_t\<close> and, where the buffer has a maximal length, within it.\<close>

definition buf_fits :: "ks_buffer \<Rightarrow> nat \<Rightarrow> bool" where
  "buf_fits b n =
     (bdatalen b + n < SIZE_MOD \<and> bdatalen b + blocksize b < SIZE_MOD \<and>
      (max_len b = 0 \<or> bused b + n \<le> max_len b))"

lemma buf_invE:
  assumes "buf_inv b"
  obtains d where "bdata b = Some d" "length d = bdatalen b" "bhead b + bused b = actually_used b"
    "actually_used b \<le> bdatalen b" "bdatalen b < SIZE_MOD"
  using assms by (auto simp: buf_inv_def split: option.splits)

lemma length_buf_contents [simp]: "buf_inv b \<Longrightarrow> length (buf_contents b) = bused b"
  by (erule buf_invE) (simp add: buf_contents_def)

subsection \<open>Creation\<close>

lemma ks_buffer_create_inv:
  assumes "0 < start_len" and "start_len < SIZE_MOD"
    and "ks_buffer_create True True i bsize start_len mlen = (st, Some b, i')"
  shows "buf_inv b \<and> buf_contents b = [] \<and> st = KS_STATUS_SUCCESS"
  using assms by (auto simp: ks_buffer_create_def buf_inv_def buf_contents_def)

subsection \<open>Reading\<close>

lemma ks_buffer_read_ok:
  assumes "buf_inv b"
  shows "\<exists>b'. ks_buffer_read b n = Some (take n (buf_contents b), b') \<and> buf_inv b' \<and>
           buf_contents b' = drop n (buf_contents b)"
proof -
  from assms obtain d where d: "bdata b = Some d" "length d = bdatalen b"
    "bhead b + bused b = actually_used b" "actually_used b \<le> bdatalen b" "bdatalen b < SIZE_MOD"
    by (rule buf_invE)
  show ?thesis
  proof (cases "n \<le> bused b")
    case True
    with d show ?thesis
      by (cases "bused b < 1")
        (simp_all add: ks_buffer_read_def buf_contents_def buf_inv_def mem_sub_Some drop_window
          take_window)
  next
    case False
    with d show ?thesis
      by (cases "bused b < 1")
        (simp_all add: ks_buffer_read_def buf_contents_def buf_inv_def mem_sub_Some)
  qed
qed

lemma ks_buffer_toss_ok:
  assumes "buf_inv b"
  shows "buf_inv (snd (ks_buffer_toss b n)) \<and>
         buf_contents (snd (ks_buffer_toss b n)) = drop n (buf_contents b) \<and>
         fst (ks_buffer_toss b n) = length (drop n (buf_contents b))"
  using assms
  by (elim buf_invE) (auto simp: ks_buffer_toss_def buf_contents_def buf_inv_def Let_def drop_take
      add.commute)

lemma ks_buffer_seek_inv: "buf_inv b \<Longrightarrow> buf_inv (snd (ks_buffer_seek b n))"
  by (elim buf_invE) (auto simp: ks_buffer_seek_def buf_inv_def size_simps Let_def)

lemma ks_buffer_zero_ok:
  "buf_inv b \<Longrightarrow> \<exists>b'. ks_buffer_zero b = Some b' \<and> buf_inv b' \<and> buf_contents b' = []"
  by (elim buf_invE) (auto simp: ks_buffer_zero_def buf_inv_def buf_contents_def)

subsection \<open>Writing\<close>

lemma write_compact_ok:
  assumes "buf_inv b" and "bdata b = Some d" and "buf_fits b n"
  shows "\<exists>b'. write_compact b d n = Some b' \<and> buf_inv b' \<and> buf_fits b' n \<and>
           buf_contents b' = buf_contents b \<and> bused b' = bused b \<and> bdatalen b' = bdatalen b \<and>
           (bhead b' = 0 \<or> actually_used b' + n \<le> bdatalen b')"
proof -
  from assms(1,2) have d: "length d = bdatalen b" "bhead b + bused b = actually_used b"
    "actually_used b \<le> bdatalen b" "bdatalen b < SIZE_MOD"
    by (auto elim: buf_invE)
  from d assms(3) have add: "size_add (bused b) n = bused b + n"
    by (intro size_add_nowrap) (simp add: buf_fits_def)
  show ?thesis
  proof (cases "bdatalen b - actually_used b < n")
    case True
    with d assms add show ?thesis
      by (auto simp: write_compact_def size_simps mem_simps buf_fits_def buf_inv_def
          buf_contents_def)
  next
    case False
    with d assms add show ?thesis
      by (auto simp: write_compact_def size_simps)
  qed
qed

lemma write_grow_ok:
  assumes inv: "buf_inv b" and fits: "buf_fits b n" and ok: "alloc_ok env"
    and room: "bhead b = 0 \<or> actually_used b + n \<le> bdatalen b"
  shows "\<exists>b'. write_grow env b n = (True, b') \<and> buf_inv b' \<and> bused b' = bused b \<and>
           buf_contents b' = buf_contents b \<and> actually_used b' + n \<le> bdatalen b'"
proof -
  from inv obtain d where d: "bdata b = Some d" "length d = bdatalen b"
    "bhead b + bused b = actually_used b" "actually_used b \<le> bdatalen b" "bdatalen b < SIZE_MOD"
    by (rule buf_invE)
  from fits have sums: "size_add (bdatalen b) n = bdatalen b + n"
    "size_add (bdatalen b) (blocksize b) = bdatalen b + blocksize b"
    by (simp_all add: buf_fits_def size_simps)
  show ?thesis
  proof (cases "bdatalen b - bused b < n")
    case True
    with d room have "bhead b = 0" by auto
    with d ok fits sums True show ?thesis
      by (auto simp: write_grow_def size_simps buf_inv_def buf_contents_def buf_fits_def Let_def)
  next
    case False
    with d room show ?thesis
      by (auto simp: write_grow_def size_simps inv)
  qed
qed

lemma write_copy_ok:
  assumes inv: "buf_inv b" and room: "actually_used b + length xs \<le> bdatalen b"
  shows "\<exists>b'. write_copy b xs = Some (bused b + length xs, b') \<and> buf_inv b' \<and>
           buf_contents b' = buf_contents b @ xs"
proof -
  from inv obtain d where d: "bdata b = Some d" "length d = bdatalen b"
    "bhead b + bused b = actually_used b" "actually_used b \<le> bdatalen b" "bdatalen b < SIZE_MOD"
    by (rule buf_invE)
  from d room have adds: "size_add (bused b) (length xs) = bused b + length xs"
    "size_add (actually_used b) (length xs) = actually_used b + length xs"
    by (simp_all add: size_simps)
  from d have "bused b = actually_used b - bhead b" by simp
  with d room show ?thesis
    by (auto simp: write_copy_def size_simps mem_simps adds buf_inv_def buf_contents_def drop_take)
qed

lemma ks_buffer_write_appends:
  assumes "buf_inv b" and "buf_fits b (length xs)" and "alloc_ok env"
  shows "\<exists>b'. ks_buffer_write env b xs = Some (bused b + length xs, b') \<and> buf_inv b' \<and>
           buf_contents b' = buf_contents b @ xs"
proof (cases "xs = []")
  case True
  from assms(1) obtain d where "bdata b = Some d" by (rule buf_invE)
  with True assms(1) show ?thesis by (simp add: ks_buffer_write_def)
next
  case False
  from assms(1) obtain d where d: "bdata b = Some d" by (rule buf_invE)
  from write_compact_ok [OF assms(1) d assms(2)] obtain b1 where
    b1: "write_compact b d (length xs) = Some b1" "buf_inv b1" "buf_fits b1 (length xs)"
      "buf_contents b1 = buf_contents b" "bused b1 = bused b"
      "bhead b1 = 0 \<or> actually_used b1 + length xs \<le> bdatalen b1" by blast
  from write_grow_ok [OF b1(2,3) assms(3) b1(6)] obtain b2 where
    b2: "write_grow env b1 (length xs) = (True, b2)" "buf_inv b2" "bused b2 = bused b1"
      "buf_contents b2 = buf_contents b1" "actually_used b2 + length xs \<le> bdatalen b2" by blast
  from write_copy_ok [OF b2(2,5)] b1 b2 d False show ?thesis
    by (auto simp: ks_buffer_write_def)
qed

text \<open>When the block has to grow and the allocation fails, the write is refused and nothing is lost.\<close>

lemma ks_buffer_write_no_memory:
  assumes "buf_inv b" and "buf_fits b (length xs)" and "\<not> alloc_ok env"
    and grow: "bdatalen b - bused b < length xs"
  shows "\<exists>b'. ks_buffer_write env b xs = Some (0, b') \<and> buf_inv b' \<and> buf_contents b' = buf_contents b"
proof -
  from assms(1) obtain d where d: "bdata b = Some d" by (rule buf_invE)
  from write_compact_ok [OF assms(1) d assms(2)] obtain b1 where
    b1: "write_compact b d (length xs) = Some b1" "buf_inv b1" "buf_contents b1 = buf_contents b"
      "bused b1 = bused b" "bdatalen b1 = bdatalen b"
      "bhead b1 = 0 \<or> actually_used b1 + length xs \<le> bdatalen b1" by blast
  from b1(2) have u: "bhead b1 + bused b1 = actually_used b1" "actually_used b1 \<le> bdatalen b1" "bdatalen b1 < SIZE_MOD"
    by (auto elim: buf_invE)
  with b1(4-6) grow have h: "bhead b1 = 0" by auto
  have "write_grow env b1 (length xs) = (False, b1)"
    using u b1(4,5) grow h assms(3) by (simp add: write_grow_def size_sub_nowrap Let_def)
  with b1 d grow show ?thesis by (auto simp: ks_buffer_write_def)
qed

subsection \<open>The buffer is a channel of bytes\<close>

text \<open>
  A write comes with the outcome of the allocation it may ask for. An outcome is a failure only where the
  block has to grow; elsewhere it plays no part. A write that was refused adds nothing.
\<close>

definition buf_put :: "ks_buffer \<Rightarrow> alloc_env \<times> mem \<Rightarrow> ks_buffer option" where
  "buf_put b w = map_option snd (ks_buffer_write (fst w) b (snd w))"

definition buf_may_put :: "ks_buffer \<Rightarrow> alloc_env \<times> mem \<Rightarrow> bool" where
  "buf_may_put b w =
     (buf_fits b (length (snd w)) \<and> (alloc_ok (fst w) \<or> bdatalen b - bused b < length (snd w)))"

definition buf_accepted :: "alloc_env \<times> mem \<Rightarrow> mem" where
  "buf_accepted w = (if alloc_ok (fst w) then snd w else [])"

interpretation buf: fifo buf_inv buf_contents buf_may_put buf_accepted buf_put ks_buffer_read
proof unfold_locales
  fix b :: ks_buffer and w :: "alloc_env \<times> mem"
  assume "buf_inv b" "buf_may_put b w"
  then show "\<exists>b'. buf_put b w = Some b' \<and> buf_inv b' \<and>
      buf_contents b' = buf_contents b @ buf_accepted w"
    using ks_buffer_write_appends [of b "snd w" "fst w"] ks_buffer_write_no_memory [of b "snd w" "fst w"]
    by (auto simp: buf_put_def buf_may_put_def buf_accepted_def)
next
  fix b :: ks_buffer and n
  assume "buf_inv b"
  then show "\<exists>out b'. ks_buffer_read b n = Some (out, b') \<and> buf_inv b' \<and>
      buf_contents b = out @ buf_contents b'"
    using ks_buffer_read_ok [of b n] by fastforce
qed

section \<open>Properties\<close>

text \<open>
  C5: any sequence of writes and reads on a well-formed buffer, each write within \<open>size_t\<close> and
  within \<open>max_len\<close> where one is set, runs without a fault, keeps the buffer well formed, and
  delivers the bytes in order: the unread bytes followed by everything written equal the bytes
  read followed by what is still unread. Growing the block may fail at any write; such a write adds
  nothing and loses nothing.
\<close>

theorem ks_buffer_fifo:
  assumes "buf_inv b" and "fifo_admissible buf_may_put buf_put ks_buffer_read b ops"
  shows "\<exists>out b'. fifo_run buf_may_put buf_put ks_buffer_read b ops = Some (out, b') \<and>
           buf_inv b' \<and> buf_contents b @ fifo_puts buf_accepted ops = out @ buf_contents b'"
  using buf.run_conserves [OF assms] .

definition demo_buffer :: ks_buffer where
  "demo_buffer = \<lparr>bdata = Some [0, 0, 0, 0], bhead = 0, bused = 0, actually_used = 0,
     bdatalen = 4, max_len = 0, blocksize = 2, buf_id = 0, loops = 0\<rparr>"

lemma demo_buffer_inv: "buf_inv demo_buffer"
  by (simp add: demo_buffer_def buf_inv_def SIZE_MOD_def)

definition demo_alloc :: "bool \<Rightarrow> alloc_env" where
  "demo_alloc ok = \<lparr>alloc_ok = ok, alloc_junk = (\<lambda>_. 0)\<rparr>"

lemmas buf_eval = demo_buffer_def buf_put_def buf_may_put_def buf_accepted_def demo_alloc_def buf_fits_def
  ks_buffer_write_def ks_buffer_read_def write_compact_def write_grow_def write_copy_def mem_cpy_def mem_sub_def
  mem_realloc_def size_sub_def size_add_def SIZE_MOD_def buf_contents_def buf_inv_def mem_rd_def

theorem ks_buffer_fifo_witness:
  "\<exists>out b'. fifo_run buf_may_put buf_put ks_buffer_read demo_buffer
      [Put (demo_alloc True, [1, 2, 3]), Get 2, Put (demo_alloc False, [9, 9, 9, 9]),
       Put (demo_alloc True, [4, 5, 6, 7]), Get 3] = Some (out, b') \<and> buf_inv b' \<and>
      buf_contents demo_buffer @ [1, 2, 3, 4, 5, 6, 7] = out @ buf_contents b'"
proof -
  let ?ops = "[Put (demo_alloc True, [1, 2, 3]), Get 2, Put (demo_alloc False, [9, 9, 9, 9]),
       Put (demo_alloc True, [4, 5, 6, 7]), Get 3]"
  have "fifo_admissible buf_may_put buf_put ks_buffer_read demo_buffer ?ops"
    by (simp add: buf_eval upt_conv_Cons)
  moreover have "fifo_puts buf_accepted ?ops = [1, 2, 3, 4, 5, 6, 7]" by (simp add: buf_accepted_def demo_alloc_def)
  ultimately show ?thesis using ks_buffer_fifo [OF demo_buffer_inv, of ?ops] by simp
qed

text \<open>
  \<open>max_len\<close> does not bound a buffer. When a write would exceed it and the block has to grow,
  the write is accepted in full, and because the compaction step is skipped while \<open>head\<close> is reset
  to the start of the block, the unread bytes are replaced by the bytes at the start of the old
  block.
\<close>

lemma ks_buffer_write_over_max_len:
  assumes inv: "buf_inv b" and d: "bdata b = Some d" and ok: "alloc_ok env"
    and limit: "max_len b \<noteq> 0" "max_len b < bused b + length xs"
    and grow: "bdatalen b - bused b < length xs"
    and sizes: "bdatalen b + length xs < SIZE_MOD" "bdatalen b + blocksize b < SIZE_MOD"
  shows "\<exists>b'. ks_buffer_write env b xs = Some (bused b + length xs, b') \<and>
           max_len b' < bused b' \<and> buf_contents b' = take (bused b) d @ xs"
proof -
  from inv d have b: "length d = bdatalen b" "bhead b + bused b = actually_used b"
    "actually_used b \<le> bdatalen b" "bdatalen b < SIZE_MOD" by (auto elim: buf_invE)
  from grow have "xs \<noteq> []" by auto
  have adds: "size_add (bused b) (length xs) = bused b + length xs"
    "size_add (bdatalen b) (length xs) = bdatalen b + length xs"
    "size_add (bdatalen b) (blocksize b) = bdatalen b + blocksize b"
    using b sizes by (simp_all add: size_simps)
  have compact: "write_compact b d (length xs) = Some b"
    using limit adds by (simp add: write_compact_def)
  define m where "m = max (bdatalen b + blocksize b) (bdatalen b + length xs)"
  have grown: "write_grow env b (length xs) =
      (True, b\<lparr>bdata := Some (mem_realloc (alloc_junk env) d m), bhead := 0, bdatalen := m\<rparr>)"
    using grow b d ok adds by (simp add: write_grow_def size_sub_nowrap Let_def m_def max_def)
  have "bused b + length xs \<le> m" using b by (simp add: m_def)
  moreover have "actually_used b + length xs < SIZE_MOD" using b sizes by simp
  ultimately show ?thesis
    using b d adds limit \<open>xs \<noteq> []\<close>
    by (simp add: ks_buffer_write_def compact grown write_copy_def size_simps mem_cpy_Some
        buf_contents_def m_def)
qed

definition demo_limited :: ks_buffer where
  "demo_limited = demo_buffer\<lparr>bdata := Some [1, 2, 3, 0], bhead := 2, bused := 1,
     actually_used := 3, max_len := 4\<rparr>"

lemma demo_limited_reached:
  "fifo_run buf_may_put buf_put ks_buffer_read (demo_buffer\<lparr>max_len := 4\<rparr>)
     [Put (demo_alloc True, [1, 2, 3]), Get 2] = Some ([1, 2], demo_limited)"
  by (simp add: buf_eval demo_limited_def upt_conv_Cons)

text \<open>
  C39: the same limit can make a write leave the block. When a write would exceed \<open>max_len\<close>, fits
  into the block by the count of unread bytes but not behind them, no compaction takes place and
  the copy runs past the end of the allocation.
\<close>

theorem ks_buffer_write_overflow:
  assumes "buf_inv b" and "max_len b \<noteq> 0" and "max_len b < bused b + length xs"
    and "length xs \<le> bdatalen b - bused b" and "bdatalen b - actually_used b < length xs"
  shows "ks_buffer_write env b xs = None"
proof -
  from assms(1) obtain d where b: "bdata b = Some d" "length d = bdatalen b"
    "bhead b + bused b = actually_used b" "actually_used b \<le> bdatalen b" "bdatalen b < SIZE_MOD"
    by (rule buf_invE)
  moreover from b assms have "size_add (bused b) (length xs) = bused b + length xs"
    by (intro size_add_nowrap) auto
  ultimately show ?thesis using assms
    by (auto simp: ks_buffer_write_def write_compact_def write_grow_def write_copy_def
        size_simps mem_cpy_def Let_def)
qed

theorem ks_buffer_write_overflow_witness:
  "ks_buffer_write \<lparr>alloc_ok = True, alloc_junk = (\<lambda>_. 0)\<rparr>
     (demo_limited\<lparr>max_len := 2\<rparr>) [8, 9] = None"
  by (rule ks_buffer_write_overflow) (simp_all add: demo_limited_def buf_eval)

text \<open>
  \<open>ks_buffer_read_loop\<close> on a short read delivers the unread bytes and then bytes from the
  start of the recorded data, but reports only the length of the second read.
\<close>

lemma ks_buffer_read_loop_wraps:
  assumes "buf_inv b" and "bdata b = Some d" and "bused b < n" and "loops b \<noteq> 0"
  shows "\<exists>b'. ks_buffer_read_loop b n =
           Some (buf_contents b @ take (n - bused b) (take (actually_used b) d),
                 min (n - bused b) (actually_used b), b') \<and>
         buf_inv b' \<and> loops b' = loops b - 1"
proof -
  from ks_buffer_read_ok [OF assms(1), of n] assms(1,3) obtain b1 where
    b1: "ks_buffer_read b n = Some (buf_contents b, b1)" "buf_inv b1" by auto
  from b1(1) assms(2) have f: "bdata b1 = Some d" "actually_used b1 = actually_used b"
    "bdatalen b1 = bdatalen b" "loops b1 = loops b"
    by (auto simp: ks_buffer_read_def Let_def split: if_splits Option.bind_splits)
  let ?r = "b1\<lparr>bhead := 0, bused := actually_used b1\<rparr>"
  from b1(2) f have r: "buf_inv ?r" "buf_contents ?r = take (actually_used b) d"
    by (auto simp: buf_inv_def buf_contents_def)
  from ks_buffer_read_ok [OF r(1), of "n - bused b"] obtain b2 where
    b2: "ks_buffer_read ?r (n - bused b) =
          Some (take (n - bused b) (take (actually_used b) d), b2)" "buf_inv b2"
    by (auto simp: r(2))
  from b2(1) f have "loops b2 = loops b"
    by (auto simp: ks_buffer_read_def Let_def split: if_splits Option.bind_splits)
  moreover from b2(2) have "buf_inv (b2\<lparr>loops := loops b2 - 1\<rparr>)"
    by (auto simp: buf_inv_def split: option.splits)
  moreover have "length d = bdatalen b" "actually_used b \<le> bdatalen b"
    using assms(1,2) by (auto elim: buf_invE)
  ultimately show ?thesis
    using b1 b2 f assms by (simp add: ks_buffer_read_loop_def)
qed

text \<open>
  The packet scanners accept a byte past the data in use. After a buffer that held a complete
  packet is zeroed and rewritten with an unfinished one, the stale newline behind the data makes
  \<open>ks_buffer_packet_count\<close> report a packet although the data holds a single newline.
\<close>

lemma ks_buffer_packet_count_stale:
  "\<exists>b1 b2 b3. buf_put demo_buffer (demo_alloc True, [97, 10, 10]) = Some b1 \<and>
     ks_buffer_packet_count b1 = Some 1 \<and> ks_buffer_zero b1 = Some b2 \<and>
     buf_put b2 (demo_alloc True, [98, 10]) = Some b3 \<and> buf_contents b3 = [98, 10] \<and>
     ks_buffer_packet_count b3 = Some 1"
proof -
  define b1 where "b1 = demo_buffer\<lparr>bdata := Some [97, 10, 10, 0], bused := 3, actually_used := 3\<rparr>"
  define b2 where "b2 = b1\<lparr>bused := 0, actually_used := 0\<rparr>"
  define b3 where "b3 = b2\<lparr>bdata := Some [98, 10, 10, 0], bused := 2, actually_used := 2\<rparr>"
  have "buf_put demo_buffer (demo_alloc True, [97, 10, 10]) = Some b1"
    by (simp add: buf_eval b1_def upt_conv_Cons)
  moreover have "ks_buffer_packet_count b1 = Some 1"
    by (simp add: ks_buffer_packet_count_def b1_def demo_buffer_def packet_count_loop.simps
        packet_end_def mem_rd_def)
  moreover have "ks_buffer_zero b1 = Some b2"
    by (simp add: ks_buffer_zero_def b1_def b2_def demo_buffer_def)
  moreover have "buf_put b2 (demo_alloc True, [98, 10]) = Some b3" "buf_contents b3 = [98, 10]"
    by (simp_all add: buf_eval b1_def b2_def b3_def upt_conv_Cons)
  moreover have "ks_buffer_packet_count b3 = Some 1"
    by (simp add: ks_buffer_packet_count_def b1_def b2_def b3_def demo_buffer_def
        packet_count_loop.simps packet_end_def mem_rd_def)
  ultimately show ?thesis by blast
qed

end
