(* ===== verification/Ks_Chain.thy ===== *)
theory Ks_Chain
  imports Ks_Prelude
begin

text \<open>
  Linked structures in a store of fields: \<open>chain f p ns\<close> says that following the pointer field
  \<open>f\<close> from \<open>p\<close> visits exactly the nodes \<open>ns\<close> and ends at NULL. A doubly linked list is a chain
  along \<open>next\<close> from the head whose reverse is a chain along \<open>prev\<close> from the tail. The queue
  (\<open>ks_q.c\<close>) and the memory pool (\<open>ks_pool.c\<close>) are both built on it.
\<close>

primrec chain :: "('a \<Rightarrow> 'a option) \<Rightarrow> 'a option \<Rightarrow> 'a list \<Rightarrow> bool" where
  "chain f p [] = (p = None)"
| "chain f p (n # ns) = (p = Some n \<and> chain f (f n) ns)"

definition first_of :: "'a list \<Rightarrow> 'a option" where
  "first_of ns = (case ns of [] \<Rightarrow> None | n # _ \<Rightarrow> Some n)"

definition dlist :: "('a \<Rightarrow> 'a option) \<Rightarrow> ('a \<Rightarrow> 'a option) \<Rightarrow> 'a option \<Rightarrow> 'a option \<Rightarrow> 'a list \<Rightarrow> bool"
  where
  "dlist nxt prv hd' tl' ns = (distinct ns \<and> chain nxt hd' ns \<and> chain prv tl' (rev ns))"

text \<open>A traversal with fuel: the nodes met, or \<^const>\<open>None\<close> when the fuel does not suffice.\<close>

fun chain_walk :: "('a \<Rightarrow> 'a option) \<Rightarrow> nat \<Rightarrow> 'a option \<Rightarrow> 'a list option" where
  "chain_walk f fuel None = Some []"
| "chain_walk f 0 (Some n) = None"
| "chain_walk f (Suc fuel) (Some n) = map_option ((#) n) (chain_walk f fuel (f n))"

lemma first_of_simps [simp]:
  "first_of [] = None" "first_of (n # ns) = Some n"
  by (simp_all add: first_of_def)

lemma first_of_None [simp]: "first_of ns = None \<longleftrightarrow> ns = []" "None = first_of ns \<longleftrightarrow> ns = []"
  by (cases ns; simp)+

lemma first_of_append: "first_of (xs @ ys) = (if xs = [] then first_of ys else first_of xs)"
  by (cases xs) auto

lemma first_of_rev: "ns \<noteq> [] \<Longrightarrow> first_of (rev ns) = Some (last ns)"
  by (cases ns rule: rev_cases) auto

lemma chain_first: "chain f p ns \<Longrightarrow> p = first_of ns"
  by (cases ns) auto

lemma chain_None [simp]: "chain f None ns = (ns = [])"
  by (cases ns) auto

lemma chain_Some: "chain f (Some n) ns = (\<exists>ms. ns = n # ms \<and> chain f (f n) ms)"
  by (cases ns) auto

lemma chain_upd [simp]: "n \<notin> set ns \<Longrightarrow> chain (f(n := x)) p ns = chain f p ns"
  by (induction ns arbitrary: p) auto

lemma chain_cong: "(\<And>n. n \<in> set ns \<Longrightarrow> f n = g n) \<Longrightarrow> chain f p ns = chain g p ns"
  by (induction ns arbitrary: p) auto

lemma chain_link: "chain f p (xs @ n # ys) \<Longrightarrow> f n = first_of ys"
proof (induction xs arbitrary: p)
  case Nil
  then show ?case by (auto dest: chain_first)
next
  case (Cons x xs)
  then show ?case by auto
qed

lemma chain_suffix: "chain f p (xs @ ys) \<Longrightarrow> chain f (first_of ys) ys"
  by (induction xs arbitrary: p) (auto dest: chain_first)

text \<open>Replacing the tail behind the node \<open>l\<close> redirects \<open>l\<close> only.\<close>

lemma chain_relink_gen:
  assumes "chain f p (xs @ l # ys)" and "distinct (xs @ [l])" and "l \<notin> set zs"
    and "chain f (first_of zs) zs" and "g l = first_of zs" and "\<And>n. n \<noteq> l \<Longrightarrow> g n = f n"
  shows "chain g p (xs @ l # zs)"
  using assms
proof (induction xs arbitrary: p)
  case Nil
  then have "chain g (first_of zs) zs"
    using chain_cong [of zs g f "first_of zs"] by metis
  with Nil show ?case by simp
next
  case (Cons x xs)
  then show ?case by simp
qed

lemma chain_relink:
  assumes "chain f p (xs @ l # ys)" and "distinct (xs @ [l])" and "l \<notin> set zs"
    and "chain f (first_of zs) zs"
  shows "chain (f(l := first_of zs)) p (xs @ l # zs)"
  by (rule chain_relink_gen [OF assms]) simp_all

lemma chain_walk_enough: "chain f p ns \<Longrightarrow> length ns \<le> fuel \<Longrightarrow> chain_walk f fuel p = Some ns"
proof (induction ns arbitrary: p fuel)
  case Nil
  then show ?case by (cases fuel) auto
next
  case (Cons n ns)
  then obtain k where "fuel = Suc k" by (cases fuel) auto
  with Cons show ?case by simp
qed

section \<open>Doubly linked lists\<close>

lemma dlist_Nil [simp]: "dlist nxt prv hd' tl' [] = (hd' = None \<and> tl' = None)"
  by (auto simp: dlist_def)

lemma dlist_ends: "dlist nxt prv hd' tl' ns \<Longrightarrow> hd' = first_of ns \<and> tl' = first_of (rev ns)"
  by (auto simp: dlist_def dest: chain_first)

lemma dlist_next: "dlist nxt prv hd' tl' (xs @ n # ys) \<Longrightarrow> nxt n = first_of ys"
  by (auto simp: dlist_def dest: chain_link)

lemma dlist_prev: "dlist nxt prv hd' tl' (xs @ n # ys) \<Longrightarrow> prv n = first_of (rev xs)"
  unfolding dlist_def by (metis append_assoc chain_link rev.simps(2) rev_append append_Cons append_Nil)

lemma dlist_rev: "dlist nxt prv hd' tl' ns = dlist prv nxt tl' hd' (rev ns)"
  by (auto simp: dlist_def)

lemma dlist_cong:
  assumes "\<And>n. n \<in> set ns \<Longrightarrow> nxt n = nxt' n" and "\<And>n. n \<in> set ns \<Longrightarrow> prv n = prv' n"
  shows "dlist nxt prv hd' tl' ns = dlist nxt' prv' hd' tl' ns"
  using assms chain_cong [of ns nxt nxt' hd'] chain_cong [of "rev ns" prv prv' tl']
  by (simp add: dlist_def)

text \<open>Insertion of a fresh node before the head (\<open>alloc_mem\<close>).\<close>

lemma dlist_push_front:
  assumes "dlist nxt prv hd' tl' ns" and "n \<notin> set ns" and "nxt n = hd'" and "prv n = None"
  shows "dlist nxt (case hd' of None \<Rightarrow> prv | Some h \<Rightarrow> prv(h := Some n)) (Some n)
           (case tl' of None \<Rightarrow> Some n | Some t \<Rightarrow> Some t) (n # ns)"
proof (cases ns)
  case Nil
  with assms show ?thesis by (simp add: dlist_def)
next
  case (Cons h ms)
  from assms(1) Cons have c: "distinct (rev ms @ [h])" "chain prv tl' (rev ms @ [h])"
    by (auto simp: dlist_def)
  have "chain (prv(h := first_of [n])) tl' (rev ms @ h # [n])"
    by (rule chain_relink [of _ _ _ _ "[]"]) (use c assms Cons in auto)
  moreover have "tl' \<noteq> None" "hd' = Some h" using assms(1) Cons
    by (cases tl'; simp add: dlist_def)+
  ultimately show ?thesis using assms Cons by (auto simp: dlist_def)
qed

text \<open>Insertion of a fresh node behind the tail (\<open>do_push\<close>) is the mirror image.\<close>

lemma dlist_push_back:
  assumes "dlist nxt prv hd' tl' ns" and "n \<notin> set ns" and "prv n = tl'" and "nxt n = None"
  shows "dlist (case tl' of None \<Rightarrow> nxt | Some t \<Rightarrow> nxt(t := Some n)) prv
           (case hd' of None \<Rightarrow> Some n | Some h \<Rightarrow> Some h) (Some n) (ns @ [n])"
  using dlist_push_front [of prv nxt tl' hd' "rev ns" n] assms by (simp add: dlist_rev [of nxt] dlist_rev
    [of "case tl' of None \<Rightarrow> nxt | Some t \<Rightarrow> nxt(t := Some n)"])

text \<open>Unlinking a node anywhere in the list (\<open>free_mem\<close>, \<open>do_pop\<close>).\<close>

lemma chain_unlink:
  assumes "chain f p (xs @ n # ys)" and "distinct (xs @ n # ys)"
  shows "chain (case first_of (rev xs) of None \<Rightarrow> f | Some l \<Rightarrow> f(l := first_of ys))
           (if xs = [] then first_of ys else p) (xs @ ys)"
proof (cases xs rule: rev_cases)
  case Nil
  with assms chain_suffix [of f p "[n]" ys] show ?thesis by auto
next
  case (snoc us l)
  have "chain (f(l := first_of ys)) p (us @ l # ys)"
    by (rule chain_relink [of _ _ _ _ "n # ys"])
      (use assms snoc chain_suffix [of f p "us @ [l, n]" ys] in auto)
  with snoc show ?thesis by simp
qed

lemma dlist_unlink:
  assumes "dlist nxt prv hd' tl' (xs @ n # ys)"
  shows "dlist (case prv n of None \<Rightarrow> nxt | Some l \<Rightarrow> nxt(l := nxt n))
               (case nxt n of None \<Rightarrow> prv | Some r \<Rightarrow> prv(r := prv n))
               (if prv n = None then nxt n else hd') (if nxt n = None then prv n else tl') (xs @ ys)"
proof -
  from assms have l: "nxt n = first_of ys" "prv n = first_of (rev xs)"
    by (rule dlist_next, rule dlist_prev)
  from assms have d: "distinct (xs @ n # ys)" "chain nxt hd' (xs @ n # ys)"
    "chain prv tl' (rev ys @ n # rev xs)" by (simp_all add: dlist_def)
  from d(1) have "distinct (rev ys @ n # rev xs)" by auto
  with chain_unlink [OF d(2,1)] chain_unlink [OF d(3)] d(1) show ?thesis
    unfolding l by (auto simp: dlist_def)
qed

end
