(* ===== verification/Ks_Q.thy ===== *)
theory Ks_Q
  imports Ks_Types Ks_Fifo Ks_Chain
begin

text \<open>
  \<open>ks_q.c\<close>: the thread-safe queue. The record holds the fields of \<open>struct ks_q_s\<close> and, one
  function per field, the store of the \<open>ks_qnode_t\<close> nodes it owns; \<open>node_brk\<close> counts the nodes
  taken from the pool so far. A value is a \<open>void *\<close>, with \<^const>\<open>None\<close> for NULL.

  The mutex \<open>list_mutex\<close> is held over every operation except while a thread waits on a condition,
  so an operation is one atomic step, and a blocking one is two: up to the wait, and from the
  wake-up on. Signals and broadcasts on the two conditions, calls of the flush function and frees
  of nodes are recorded as events. \<^const>\<open>None\<close> is a dereference of a NULL pointer.
\<close>

section \<open>State\<close>

datatype q_cond = Push_cond | Pop_cond

datatype 'v q_event =
    Cond_signal q_cond
  | Cond_broadcast q_cond
  | Flush_call nat "'v option" nat
  | Free_node nat
  | Cond_destroy q_cond
  | Mutex_destroy

record 'v ks_q =
  flush_fn :: "nat option"
  flush_data :: nat
  qlen :: nat
  qmaxlen :: nat
  pushers :: u32
  poppers :: u32
  qhead :: "nat option"
  qtail :: "nat option"
  qempty :: "nat option"
  qactive :: bool
  node_ptr :: "nat \<Rightarrow> 'v option"
  node_next :: "nat \<Rightarrow> nat option"
  node_prev :: "nat \<Rightarrow> nat option"
  node_brk :: nat
  q_events :: "'v q_event list"

definition q_emit :: "'v q_event list \<Rightarrow> 'v ks_q \<Rightarrow> 'v ks_q" where
  "q_emit es q = q\<lparr>q_events := q_events q @ es\<rparr>"

lemma q_emit_sel [simp]:
  "flush_fn (q_emit es q) = flush_fn q" "flush_data (q_emit es q) = flush_data q"
  "qlen (q_emit es q) = qlen q" "qmaxlen (q_emit es q) = qmaxlen q"
  "pushers (q_emit es q) = pushers q" "poppers (q_emit es q) = poppers q"
  "qhead (q_emit es q) = qhead q" "qtail (q_emit es q) = qtail q" "qempty (q_emit es q) = qempty q"
  "qactive (q_emit es q) = qactive q" "node_ptr (q_emit es q) = node_ptr q"
  "node_next (q_emit es q) = node_next q" "node_prev (q_emit es q) = node_prev q"
  "node_brk (q_emit es q) = node_brk q" "q_events (q_emit es q) = q_events q @ es"
  by (simp_all add: q_emit_def)

definition ks_q_create :: "nat \<Rightarrow> ks_status \<times> 'v ks_q" where
  "ks_q_create maxlen =
     (KS_STATUS_SUCCESS,
      \<lparr>flush_fn = None, flush_data = 0, qlen = 0, qmaxlen = maxlen, pushers = 0, poppers = 0,
       qhead = None, qtail = None, qempty = None, qactive = True,
       node_ptr = (\<lambda>_. None), node_next = (\<lambda>_. None), node_prev = (\<lambda>_. None), node_brk = 0,
       q_events = []\<rparr>)"

section \<open>Operations\<close>

definition ks_q_set_flush_fn :: "'v ks_q \<Rightarrow> nat option \<Rightarrow> nat \<Rightarrow> ks_status \<times> 'v ks_q" where
  "ks_q_set_flush_fn q fn data =
     (if \<not> qactive q then (KS_STATUS_INACTIVE, q)
      else (KS_STATUS_SUCCESS, q\<lparr>flush_fn := fn, flush_data := data\<rparr>))"

definition ks_q_wake :: "'v ks_q \<Rightarrow> ks_status \<times> 'v ks_q" where
  "ks_q_wake q = (KS_STATUS_SUCCESS, q_emit [Cond_broadcast Push_cond, Cond_broadcast Pop_cond] q)"

text \<open>
  \<open>ks_q_term\<close> gives the mutex up between its two halves, the reset of \<open>active\<close> and \<open>ks_q_wake\<close>: the
  whole call is what it does when no other thread comes in between.
\<close>

definition term_reset :: "'v ks_q \<Rightarrow> bool \<times> 'v ks_q" where
  "term_reset q = (qactive q, q\<lparr>qactive := False\<rparr>)"

definition ks_q_term :: "'v ks_q \<Rightarrow> ks_status \<times> 'v ks_q" where
  "ks_q_term q =
     (let (active, q) = term_reset q in
      if active then (KS_STATUS_SUCCESS, snd (ks_q_wake q)) else (KS_STATUS_INACTIVE, q))"

definition ks_q_size :: "'v ks_q \<Rightarrow> nat" where
  "ks_q_size q = qlen q"

definition ks_q_maxlen :: "'v ks_q \<Rightarrow> nat" where
  "ks_q_maxlen q = qmaxlen q"

text \<open>\<open>new_node\<close> takes a node from the free list \<open>empty\<close>, or from the pool.\<close>

definition new_node :: "'v ks_q \<Rightarrow> nat \<times> 'v ks_q" where
  "new_node q =
     (let (np, q) = (case qempty q of
                       Some np \<Rightarrow> (np, q\<lparr>qempty := node_next q np\<rparr>)
                     | None \<Rightarrow> (node_brk q, q\<lparr>node_brk := Suc (node_brk q)\<rparr>)) in
      (np, q\<lparr>node_prev := (node_prev q)(np := None), node_next := (node_next q)(np := None),
             node_ptr := (node_ptr q)(np := None)\<rparr>))"

definition do_push :: "'v ks_q \<Rightarrow> 'v option \<Rightarrow> (ks_status \<times> 'v ks_q) option" where
  "do_push q ptr =
     (if \<not> qactive q then Some (KS_STATUS_INACTIVE, q)
      else
        let (node, q) = new_node q;
            q = q\<lparr>node_ptr := (node_ptr q)(node := ptr)\<rparr> in
        do { q \<leftarrow> (if qhead q = None then Some (q\<lparr>qhead := Some node, qtail := Some node\<rparr>)
                  else do { t \<leftarrow> qtail q;
                            Some (q\<lparr>node_next := (node_next q)(t := Some node),
                                    node_prev := (node_prev q)(node := Some t),
                                    qtail := Some node\<rparr>) });
             Some (KS_STATUS_SUCCESS, q\<lparr>qlen := size_add (qlen q) 1\<rparr>) })"

text \<open>The queue has a limit and is at it.\<close>

definition q_full :: "'v ks_q \<Rightarrow> bool" where
  "q_full q = (qmaxlen q \<noteq> 0 \<and> qlen q = qmaxlen q)"

definition push_signal :: "'v ks_q \<Rightarrow> 'v ks_q" where
  "push_signal q = (if poppers q \<noteq> 0 then q_emit [Cond_signal Pop_cond] q else q)"

definition ks_q_trypush :: "'v ks_q \<Rightarrow> 'v option \<Rightarrow> (ks_status \<times> 'v ks_q) option" where
  "ks_q_trypush q ptr =
     (if \<not> qactive q then Some (KS_STATUS_INACTIVE, q)
      else if q_full q then Some (KS_STATUS_BREAK, q)
      else do { (r, q) \<leftarrow> do_push q ptr; Some (r, push_signal q) })"

text \<open>
  The blocking \<open>ks_q_push\<close>: the part before \<open>ks_cond_wait\<close> returns \<^const>\<open>None\<close> as its status
  when the caller goes to sleep; the second function is the part after the wake-up.
\<close>

definition ks_q_push :: "'v ks_q \<Rightarrow> 'v option \<Rightarrow> (ks_status option \<times> 'v ks_q) option" where
  "ks_q_push q ptr =
     (if \<not> qactive q then Some (Some KS_STATUS_INACTIVE, q)
      else if q_full q then Some (None, q\<lparr>pushers := pushers q + 1\<rparr>)
      else do { (r, q) \<leftarrow> do_push q ptr; Some (Some r, push_signal q) })"

definition ks_q_push_resume :: "'v ks_q \<Rightarrow> 'v option \<Rightarrow> (ks_status \<times> 'v ks_q) option" where
  "ks_q_push_resume q ptr =
     (let q = q\<lparr>pushers := pushers q - 1\<rparr> in
      if q_full q then
        Some (if \<not> qactive q then KS_STATUS_INACTIVE else KS_STATUS_BREAK, q)
      else do { (r, q) \<leftarrow> do_push q ptr; Some (r, push_signal q) })"

text \<open>
  \<open>do_pop\<close> and \<open>do_peek\<close>: the third component is what is stored through the caller's pointer,
  \<^const>\<open>None\<close> where it is left alone.
\<close>

definition do_pop :: "'v ks_q \<Rightarrow> ks_status \<times> 'v ks_q \<times> 'v option option" where
  "do_pop q =
     (if \<not> qactive q then (KS_STATUS_INACTIVE, q, None)
      else
        let (q, out) =
          (case qhead q of
             None \<Rightarrow> (q, None)
           | Some np \<Rightarrow>
               let q = q\<lparr>qhead := node_next q np\<rparr>;
                   q = (case qhead q of
                          Some h \<Rightarrow> q\<lparr>node_prev := (node_prev q)(h := None)\<rparr>
                        | None \<Rightarrow> q\<lparr>qtail := None\<rparr>);
                   out = node_ptr q np in
               (q\<lparr>node_next := (node_next q)(np := qempty q),
                  node_prev := (node_prev q)(np := None),
                  node_ptr := (node_ptr q)(np := None), qempty := Some np\<rparr>, out)) in
        (KS_STATUS_SUCCESS, q\<lparr>qlen := size_sub (qlen q) 1\<rparr>, Some out))"

definition do_peek :: "'v ks_q \<Rightarrow> ks_status \<times> 'v option option" where
  "do_peek q =
     (if \<not> qactive q then (KS_STATUS_INACTIVE, None)
      else (KS_STATUS_SUCCESS,
            Some (case qhead q of None \<Rightarrow> None | Some np \<Rightarrow> node_ptr q np)))"

definition pop_signal :: "'v ks_q \<Rightarrow> 'v ks_q" where
  "pop_signal q = (if pushers q \<noteq> 0 then q_emit [Cond_signal Push_cond] q else q)"

definition ks_q_trypop :: "'v ks_q \<Rightarrow> ks_status \<times> 'v ks_q \<times> 'v option option" where
  "ks_q_trypop q =
     (if \<not> qactive q then (KS_STATUS_INACTIVE, q, None)
      else if qlen q = 0 then (KS_STATUS_BREAK, q, None)
      else let (r, q, out) = do_pop q in (r, pop_signal q, out))"

definition ks_q_trypeek :: "'v ks_q \<Rightarrow> ks_status \<times> 'v option option" where
  "ks_q_trypeek q =
     (if \<not> qactive q then (KS_STATUS_INACTIVE, None)
      else if qlen q = 0 then (KS_STATUS_BREAK, None)
      else do_peek q)"

text \<open>
  The blocking \<open>ks_q_pop_timeout\<close>, again in two parts. \<open>r\<close> is the result of the wait, which counts
  only when a timeout was given.
\<close>

definition ks_q_pop_timeout :: "'v ks_q \<Rightarrow> ks_status option \<times> 'v ks_q \<times> 'v option option" where
  "ks_q_pop_timeout q =
     (if \<not> qactive q then (Some KS_STATUS_INACTIVE, q, None)
      else if qlen q = 0 then (None, q\<lparr>poppers := poppers q + 1\<rparr>, None)
      else let (r, q, out) = do_pop q in (Some r, pop_signal q, out))"

definition ks_q_pop_resume ::
  "'v ks_q \<Rightarrow> u32 \<Rightarrow> ks_status \<Rightarrow> ks_status \<times> 'v ks_q \<times> 'v option option" where
  "ks_q_pop_resume q timeout r =
     (let q = q\<lparr>poppers := poppers q - 1\<rparr> in
      if timeout \<noteq> 0 \<and> r \<noteq> KS_STATUS_SUCCESS then (r, q, None)
      else if qlen q = 0 then
        (if \<not> qactive q then KS_STATUS_INACTIVE else KS_STATUS_BREAK, q, None)
      else let (r, q, out) = do_pop q in (r, pop_signal q, out))"

definition ks_q_pop :: "'v ks_q \<Rightarrow> ks_status option \<times> 'v ks_q \<times> 'v option option" where
  "ks_q_pop q = ks_q_pop_timeout q"

text \<open>
  \<open>ks_q_wait\<close> polls: one iteration per observed state of the queue. \<^const>\<open>None\<close> means it is still
  polling when the observations end. The status of an earlier iteration is kept.
\<close>

fun ks_q_wait :: "'v ks_q list \<Rightarrow> ks_status option" where
  "ks_q_wait [] = None"
| "ks_q_wait (q # qs) =
     (if \<not> qactive q then Some KS_STATUS_INACTIVE
      else if qlen q = 0 then Some KS_STATUS_SUCCESS
      else ks_q_wait qs)"

text \<open>\<open>ks_q_flush\<close>: pop until \<open>ks_q_trypop\<close> fails, passing each value to the flush function.\<close>

lemma ks_q_trypop_len:
  "ks_q_trypop q = (KS_STATUS_SUCCESS, q', out) \<Longrightarrow> qlen q' < qlen q"
  by (auto simp: ks_q_trypop_def do_pop_def pop_signal_def q_emit_def size_sub_def Let_def
      split: if_splits option.splits prod.splits)

function flush_loop :: "nat \<Rightarrow> 'v ks_q \<Rightarrow> 'v ks_q" where
  "flush_loop fn q =
     (case ks_q_trypop q of (r, q', out) \<Rightarrow>
        if r = KS_STATUS_SUCCESS
        then flush_loop fn (q_emit [Flush_call fn (the out) (flush_data q')] q')
        else q')"
  by pat_completeness auto
termination
  by (relation "measure (\<lambda>(fn, q). qlen q)")
    (auto simp: q_emit_def dest!: sym [of "(_, _, _)"] ks_q_trypop_len)

declare flush_loop.simps [simp del]

definition ks_q_flush :: "'v ks_q \<Rightarrow> ks_status \<times> 'v ks_q" where
  "ks_q_flush q =
     (if \<not> qactive q then (KS_STATUS_INACTIVE, q)
      else case flush_fn q of
             None \<Rightarrow> (KS_STATUS_FAIL, q)
           | Some fn \<Rightarrow> (KS_STATUS_SUCCESS, flush_loop fn q))"

text \<open>The pool's cleanup callback of a queue, by action and by type of cleanup.\<close>

definition ks_q_cleanup :: "'v ks_q \<Rightarrow> cleanup_action \<Rightarrow> cleanup_type \<Rightarrow> 'v ks_q option" where
  "ks_q_cleanup q action type =
     (if type = KS_MPCL_GLOBAL_FREE then Some q
      else case action of
        KS_MPCL_ANNOUNCE \<Rightarrow>
          Some (if qactive q then snd (ks_q_term (snd (ks_q_flush q))) else q)
      | KS_MPCL_TEARDOWN \<Rightarrow>
          do { ns \<leftarrow> chain_walk (node_next q) (node_brk q) (qhead q);
               es \<leftarrow> chain_walk (node_next q) (node_brk q) (qempty q);
               Some (q_emit (map Free_node ns @ map Free_node es) q) }
      | KS_MPCL_DESTROY \<Rightarrow>
          Some (q_emit [Cond_destroy Pop_cond, Cond_destroy Push_cond, Mutex_destroy] q))"

text \<open>
  \<open>ks_q_destroy\<close> flushes, terminates, and frees the queue, which makes the pool run the cleanup
  callback with the three actions in order.
\<close>

definition ks_q_destroy :: "'v ks_q option \<Rightarrow> (ks_status \<times> 'v ks_q option) option" where
  "ks_q_destroy qp =
     (case qp of
        None \<Rightarrow> Some (KS_STATUS_FAIL, None)
      | Some q \<Rightarrow>
          let q = snd (ks_q_term (snd (ks_q_flush q))) in
          do { q \<leftarrow> ks_q_cleanup q KS_MPCL_ANNOUNCE KS_MPCL_FREE;
               q \<leftarrow> ks_q_cleanup q KS_MPCL_TEARDOWN KS_MPCL_FREE;
               q \<leftarrow> ks_q_cleanup q KS_MPCL_DESTROY KS_MPCL_FREE;
               Some (KS_STATUS_SUCCESS, Some q) })"

section \<open>Representation invariant\<close>

text \<open>
  \<open>ns\<close> are the nodes in use, in queue order; \<open>es\<close> the free list. Every node ever allocated is in
  exactly one of them, and the counter agrees.
\<close>

definition q_nodes :: "'v ks_q \<Rightarrow> nat list \<Rightarrow> nat list \<Rightarrow> bool" where
  "q_nodes q ns es =
     (dlist (node_next q) (node_prev q) (qhead q) (qtail q) ns \<and>
      chain (node_next q) (qempty q) es \<and> distinct (ns @ es) \<and>
      set (ns @ es) = {..<node_brk q} \<and> qlen q = length ns \<and> length ns < SIZE_MOD)"

definition q_inv :: "'v ks_q \<Rightarrow> bool" where
  "q_inv q = (\<exists>ns es. q_nodes q ns es)"

definition q_contents :: "'v ks_q \<Rightarrow> 'v option list" where
  "q_contents q =
     (case chain_walk (node_next q) (node_brk q) (qhead q) of
        None \<Rightarrow> [] | Some ns \<Rightarrow> map (node_ptr q) ns)"

text \<open>What an operation on the list leaves alone.\<close>

definition q_frame :: "'v ks_q \<Rightarrow> 'v ks_q \<Rightarrow> bool" where
  "q_frame q q' =
     (qactive q' = qactive q \<and> qmaxlen q' = qmaxlen q \<and> pushers q' = pushers q \<and>
      poppers q' = poppers q \<and> flush_fn q' = flush_fn q \<and> flush_data q' = flush_data q \<and>
      q_events q' = q_events q)"

lemma length_distinct_lessThan: "distinct xs \<Longrightarrow> set xs \<subseteq> {..<n} \<Longrightarrow> length xs \<le> n"
  by (metis card_lessThan card_mono distinct_card finite_lessThan)

lemma q_nodes_walk:
  assumes "q_nodes q ns es"
  shows "chain_walk (node_next q) (node_brk q) (qhead q) = Some ns"
    and "chain_walk (node_next q) (node_brk q) (qempty q) = Some es"
proof -
  from assms have "length ns \<le> node_brk q" "length es \<le> node_brk q"
    by (auto simp: q_nodes_def intro!: length_distinct_lessThan)
  with assms show "chain_walk (node_next q) (node_brk q) (qhead q) = Some ns"
    and "chain_walk (node_next q) (node_brk q) (qempty q) = Some es"
    by (auto simp: q_nodes_def dlist_def intro: chain_walk_enough)
qed

lemma q_contents_nodes: "q_nodes q ns es \<Longrightarrow> q_contents q = map (node_ptr q) ns"
  by (simp add: q_contents_def q_nodes_walk)

lemma q_contents_length: "q_inv q \<Longrightarrow> length (q_contents q) = qlen q"
  by (auto simp: q_inv_def q_contents_nodes q_nodes_def)

text \<open>Fields the invariant does not mention may change.\<close>

lemma q_nodes_frame:
  assumes "node_next q' = node_next q" "node_prev q' = node_prev q" "qhead q' = qhead q"
    "qtail q' = qtail q" "qempty q' = qempty q" "node_brk q' = node_brk q" "qlen q' = qlen q"
  shows "q_nodes q' = q_nodes q"
  by (intro ext) (simp add: q_nodes_def assms)

lemma q_inv_emit [simp]: "q_inv (q_emit es q) = q_inv q"
  by (simp add: q_inv_def q_nodes_frame [of "q_emit es q" q])

lemma q_contents_emit [simp]: "q_contents (q_emit es q) = q_contents q"
  by (simp add: q_contents_def q_emit_def split: option.split)

lemma q_inv_counters [simp]:
  "q_inv (q\<lparr>pushers := n\<rparr>) = q_inv q" "q_inv (q\<lparr>poppers := n\<rparr>) = q_inv q"
  "q_inv (q\<lparr>qactive := b\<rparr>) = q_inv q"
  by (simp_all add: q_inv_def q_nodes_def)

lemma q_contents_counters [simp]:
  "q_contents (q\<lparr>pushers := n\<rparr>) = q_contents q" "q_contents (q\<lparr>poppers := n\<rparr>) = q_contents q"
  "q_contents (q\<lparr>qactive := b\<rparr>) = q_contents q"
  by (simp_all add: q_contents_def split: option.split)

lemma ks_q_create_nodes: "q_nodes (snd (ks_q_create m)) [] []"
  by (simp add: q_nodes_def ks_q_create_def)

lemma ks_q_create_inv: "q_inv (snd (ks_q_create m))"
  using ks_q_create_nodes by (auto simp: q_inv_def)

lemma ks_q_create_contents: "q_contents (snd (ks_q_create m)) = []"
  using q_contents_nodes [OF ks_q_create_nodes] by simp

subsection \<open>Pushing\<close>

lemma new_node_ok:
  assumes "q_nodes q ns es" and "new_node q = (n, q')"
  shows "\<exists>es'. dlist (node_next q') (node_prev q') (qhead q') (qtail q') ns \<and>
           chain (node_next q') (qempty q') es' \<and> distinct (ns @ n # es') \<and>
           set (ns @ n # es') = {..<node_brk q'} \<and> qlen q' = length ns \<and>
           node_next q' n = None \<and> node_prev q' n = None \<and> q_frame q q' \<and>
           (\<forall>m. m \<noteq> n \<longrightarrow> node_ptr q' m = node_ptr q m)"
proof (cases "qempty q")
  case None
  with assms have nb: "n = node_brk q" and [simp]: "es = []"
    by (auto simp: new_node_def q_nodes_def)
  from assms(1) have "n \<notin> set ns" by (auto simp: q_nodes_def nb)
  then have "dlist ((node_next q)(n := None)) ((node_prev q)(n := None)) (qhead q) (qtail q) ns"
    using assms(1) by (simp add: q_nodes_def dlist_def)
  moreover from None assms(2) have "q' = q\<lparr>node_brk := Suc n, node_prev := (node_prev q)(n := None),
      node_next := (node_next q)(n := None), node_ptr := (node_ptr q)(n := None)\<rparr>"
    by (simp add: new_node_def nb)
  ultimately show ?thesis
    using None assms(1) nb \<open>n \<notin> set ns\<close>
    by (intro exI [of _ "[]"]) (simp add: q_nodes_def q_frame_def lessThan_Suc)
next
  case (Some m)
  with assms(1) obtain es' where es: "es = m # es'"
    by (auto simp: q_nodes_def chain_Some)
  from Some assms(2) [symmetric] have nm: "n = m" and q': "q' = q\<lparr>qempty := node_next q m,
      node_prev := (node_prev q)(m := None), node_next := (node_next q)(m := None),
      node_ptr := (node_ptr q)(m := None)\<rparr>"
    unfolding new_node_def by (simp_all add: Let_def)
  from assms(1) es have notin: "m \<notin> set ns" "m \<notin> set es'" by (auto simp: q_nodes_def)
  then have "dlist ((node_next q)(m := None)) ((node_prev q)(m := None)) (qhead q) (qtail q) ns"
    using assms(1) by (simp add: q_nodes_def dlist_def)
  moreover have "chain ((node_next q)(m := None)) (node_next q m) es'"
    using assms(1) es notin by (auto simp: q_nodes_def)
  ultimately show ?thesis
    using assms(1) es notin unfolding q' nm
    by (intro exI [of _ es']) (auto simp: q_nodes_def q_frame_def)
qed

lemma do_push_ok:
  assumes "q_inv q" and "qactive q" and "qlen q + 1 < SIZE_MOD"
  shows "\<exists>q'. do_push q v = Some (KS_STATUS_SUCCESS, q') \<and> q_inv q' \<and>
           q_contents q' = q_contents q @ [v] \<and> qlen q' = qlen q + 1 \<and> q_frame q q'"
proof -
  from assms(1) obtain ns es where n: "q_nodes q ns es" by (auto simp: q_inv_def)
  obtain nd q1 where nn: "new_node q = (nd, q1)" by fastforce
  from new_node_ok [OF n nn] obtain es' where
    d: "dlist (node_next q1) (node_prev q1) (qhead q1) (qtail q1) ns" and
    c: "chain (node_next q1) (qempty q1) es'" and
    dist: "distinct (ns @ nd # es')" and sets: "set (ns @ nd # es') = {..<node_brk q1}" and
    len: "qlen q1 = length ns" and nil: "node_next q1 nd = None" "node_prev q1 nd = None" and
    fr: "q_frame q q1" and ptr: "\<forall>m. m \<noteq> nd \<longrightarrow> node_ptr q1 m = node_ptr q m" by blast
  from n have lq: "qlen q = length ns" by (simp add: q_nodes_def)
  define prv where "prv = (node_prev q1)(nd := qtail q1)"
  have d': "dlist (node_next q1) prv (qhead q1) (qtail q1) ns"
    using d dist by (simp add: prv_def dlist_def)
  define nxt where "nxt = (case qtail q1 of None \<Rightarrow> node_next q1
                           | Some t \<Rightarrow> (node_next q1)(t := Some nd))"
  have pb: "dlist nxt prv (case qhead q1 of None \<Rightarrow> Some nd | Some h \<Rightarrow> Some h) (Some nd) (ns @ [nd])"
    unfolding nxt_def by (rule dlist_push_back [OF d']) (use dist nil in \<open>auto simp: prv_def\<close>)
  have ce: "chain nxt (qempty q1) es'"
  proof (cases "qtail q1")
    case (Some t)
    with dlist_ends [OF d] have "t \<in> set ns" by (cases ns rule: rev_cases) auto
    with dist have "t \<notin> set es'" by auto
    with Some c show ?thesis by (simp add: nxt_def)
  qed (simp add: nxt_def c)
  have hd_tl: "qhead q1 = None \<longleftrightarrow> qtail q1 = None"
    using dlist_ends [OF d] by simp
  define q' where "q' = q1\<lparr>node_ptr := (node_ptr q1)(nd := v), node_next := nxt, node_prev := prv,
      qhead := (case qhead q1 of None \<Rightarrow> Some nd | Some h \<Rightarrow> Some h), qtail := Some nd,
      qlen := length ns + 1\<rparr>"
  have prv1: "prv = node_prev q1" if "qtail q1 = None"
    using that nil by (auto simp: prv_def)
  have push: "do_push q v = Some (KS_STATUS_SUCCESS, q')"
  proof (cases "qtail q1")
    case None
    with hd_tl nn len lq assms(2,3) prv1 nil show ?thesis
      by (simp add: do_push_def q'_def nxt_def size_simps)
  next
    case (Some t)
    with hd_tl obtain h where "qhead q1 = Some h" by auto
    with Some nn len lq assms(2,3) show ?thesis
      by (simp add: do_push_def q'_def nxt_def prv_def size_simps)
  qed
  have nodes: "q_nodes q' (ns @ [nd]) es'"
    using pb ce dist sets assms(3) lq by (auto simp: q_nodes_def q'_def)
  have "q_contents q' = q_contents q @ [v]"
    using q_contents_nodes [OF nodes] q_contents_nodes [OF n] ptr dist by (auto simp: q'_def)
  with push nodes fr lq show ?thesis
    by (auto simp: q_inv_def q'_def q_frame_def)
qed

subsection \<open>Popping\<close>

lemma do_pop_ok:
  assumes "q_inv q" and "qactive q" and "qlen q \<noteq> 0"
  shows "\<exists>x q'. do_pop q = (KS_STATUS_SUCCESS, q', Some x) \<and> q_inv q' \<and>
           q_contents q = x # q_contents q' \<and> qlen q' = qlen q - 1 \<and> q_frame q q'"
proof -
  from assms(1) obtain ns es where n: "q_nodes q ns es" by (auto simp: q_inv_def)
  with assms(3) obtain np ms where ns: "ns = np # ms" by (cases ns) (auto simp: q_nodes_def)
  from n ns have d: "dlist (node_next q) (node_prev q) (qhead q) (qtail q) ([] @ np # ms)"
    and c: "chain (node_next q) (qempty q) es"
    and dist: "distinct (np # ms @ es)" and sets: "set (np # ms @ es) = {..<node_brk q}"
    and len: "qlen q = Suc (length ms)" "Suc (length ms) < SIZE_MOD"
    by (auto simp: q_nodes_def)
  from dlist_ends [OF d] dlist_next [OF d] dlist_prev [OF d]
  have ends: "qhead q = Some np" "node_next q np = first_of ms" "node_prev q np = None"
    by simp_all
  define prv where "prv = (case first_of ms of None \<Rightarrow> node_prev q
                           | Some h \<Rightarrow> (node_prev q)(h := None))"
  define tl' where "tl' = (if ms = [] then None else qtail q)"
  define q' where "q' = q\<lparr>qhead := first_of ms, qtail := tl', qempty := Some np,
      node_next := (node_next q)(np := qempty q), node_prev := prv(np := None),
      node_ptr := (node_ptr q)(np := None), qlen := length ms\<rparr>"
  have "dlist (node_next q) prv (first_of ms) tl' ms"
    using dlist_unlink [OF d] unfolding ends prv_def tl'_def by simp
  then have "dlist (node_next q') (node_prev q') (qhead q') (qtail q') ms"
    using dist by (simp add: dlist_def q'_def)
  moreover have "chain (node_next q') (qempty q') (np # es)"
    using c dist by (simp add: q'_def)
  ultimately have nodes: "q_nodes q' ms (np # es)"
    using dist sets len by (auto simp: q_nodes_def q'_def)
  have "do_pop q = (KS_STATUS_SUCCESS, q', Some (node_ptr q np))"
    using assms(2) ends len
    by (cases ms) (simp_all add: do_pop_def q'_def prv_def tl'_def size_simps)
  moreover have "q_contents q = node_ptr q np # q_contents q'"
    using q_contents_nodes [OF nodes] q_contents_nodes [OF n] ns dist by (auto simp: q'_def)
  ultimately show ?thesis
    using nodes len by (auto simp: q_inv_def q_frame_def q'_def)
qed

lemma q_frame_signal [simp]:
  "qactive (push_signal q) = qactive q" "qactive (pop_signal q) = qactive q"
  "qmaxlen (push_signal q) = qmaxlen q" "qmaxlen (pop_signal q) = qmaxlen q"
  "qlen (push_signal q) = qlen q" "qlen (pop_signal q) = qlen q"
  "q_inv (push_signal q) = q_inv q" "q_inv (pop_signal q) = q_inv q"
  "q_contents (push_signal q) = q_contents q" "q_contents (pop_signal q) = q_contents q"
  "flush_fn (pop_signal q) = flush_fn q" "flush_data (pop_signal q) = flush_data q"
  "pushers (pop_signal q) = pushers q"
  by (simp_all add: push_signal_def pop_signal_def)

section \<open>Behaviour of the operations\<close>

lemma ks_q_trypush_ok:
  assumes "q_inv q" and "qactive q" and "\<not> q_full q" and "qlen q + 1 < SIZE_MOD"
  shows "\<exists>q'. ks_q_trypush q v = Some (KS_STATUS_SUCCESS, q') \<and> q_inv q' \<and>
           q_contents q' = q_contents q @ [v] \<and> qactive q' \<and> qmaxlen q' = qmaxlen q \<and>
           qlen q' = qlen q + 1"
  using do_push_ok [OF assms(1,2,4), of v] assms
  by (auto simp: ks_q_trypush_def q_frame_def)

lemma ks_q_trypop_ok:
  assumes "q_inv q" and "qactive q" and "qlen q \<noteq> 0"
  shows "\<exists>x q'. ks_q_trypop q = (KS_STATUS_SUCCESS, q', Some x) \<and> q_inv q' \<and>
           q_contents q = x # q_contents q' \<and> qactive q' \<and> qmaxlen q' = qmaxlen q \<and>
           qlen q' = qlen q - 1 \<and> flush_fn q' = flush_fn q \<and> flush_data q' = flush_data q \<and>
           q_events q' = q_events q @ (if pushers q = 0 then [] else [Cond_signal Push_cond]) \<and>
           pushers q' = pushers q"
  using do_pop_ok [OF assms] assms
  by (auto simp: ks_q_trypop_def q_frame_def pop_signal_def)

subsection \<open>The queue is a channel of pointers\<close>

definition q_may_put :: "'v ks_q \<Rightarrow> 'v option \<Rightarrow> bool" where
  "q_may_put q v = (qactive q \<and> \<not> q_full q \<and> qlen q + 1 < SIZE_MOD)"

definition q_put :: "'v ks_q \<Rightarrow> 'v option \<Rightarrow> 'v ks_q option" where
  "q_put q v = map_option snd (ks_q_trypush q v)"

definition q_get :: "'v ks_q \<Rightarrow> unit \<Rightarrow> ('v option list \<times> 'v ks_q) option" where
  "q_get q u = (case ks_q_trypop q of (r, q', out) \<Rightarrow>
     Some (case out of None \<Rightarrow> [] | Some x \<Rightarrow> [x], q'))"

interpretation q: fifo q_inv q_contents q_may_put "\<lambda>v. [v]" q_put q_get
proof unfold_locales
  fix q :: "'v ks_q" and v
  assume "q_inv q" "q_may_put q v"
  then show "\<exists>q'. q_put q v = Some q' \<and> q_inv q' \<and> q_contents q' = q_contents q @ [v]"
    using ks_q_trypush_ok [of q v] by (auto simp: q_put_def q_may_put_def)
next
  fix q :: "'v ks_q" and u
  assume i: "q_inv q"
  show "\<exists>out q'. q_get q u = Some (out, q') \<and> q_inv q' \<and> q_contents q = out @ q_contents q'"
  proof (cases "qactive q \<and> qlen q \<noteq> 0")
    case True
    with ks_q_trypop_ok [OF i] show ?thesis by (auto simp: q_get_def)
  next
    case False
    with i show ?thesis by (auto simp: q_get_def ks_q_trypop_def)
  qed
qed

subsection \<open>Flushing and destruction\<close>

definition flush_events :: "'v ks_q \<Rightarrow> nat \<Rightarrow> 'v option list \<Rightarrow> 'v q_event list" where
  "flush_events q fn xs = concat (map (\<lambda>x.
     (if pushers q = 0 then [] else [Cond_signal Push_cond]) @ [Flush_call fn x (flush_data q)]) xs)"

lemma node_brk_trypop: "ks_q_trypop q = (r, q', out) \<Longrightarrow> node_brk q' = node_brk q"
  by (auto simp: ks_q_trypop_def do_pop_def pop_signal_def q_emit_def Let_def
      split: if_splits option.splits prod.splits)

lemma flush_loop_ok:
  assumes "q_inv q" and "qactive q"
  shows "q_inv (flush_loop fn q) \<and> q_contents (flush_loop fn q) = [] \<and>
         qactive (flush_loop fn q) \<and> node_brk (flush_loop fn q) = node_brk q \<and>
         q_events (flush_loop fn q) = q_events q @ flush_events q fn (q_contents q)"
  using assms
proof (induction fn q rule: flush_loop.induct)
  case (1 fn q)
  show ?case
  proof (cases "qlen q = 0")
    case True
    then have "ks_q_trypop q = (KS_STATUS_BREAK, q, None)"
      using 1 by (simp add: ks_q_trypop_def)
    moreover have "q_contents q = []" using q_contents_length [of q] 1 True by simp
    ultimately show ?thesis
      using 1 by (simp add: flush_loop.simps [of fn q] flush_events_def)
  next
    case False
    with ks_q_trypop_ok [of q] 1 obtain x q' where q':
      "ks_q_trypop q = (KS_STATUS_SUCCESS, q', Some x)" "q_inv q'" "qactive q'"
      "q_contents q = x # q_contents q'" "flush_data q' = flush_data q" "pushers q' = pushers q"
      "q_events q' = q_events q @ (if pushers q = 0 then [] else [Cond_signal Push_cond])"
      by blast
    let ?q = "q_emit [Flush_call fn x (flush_data q')] q'"
    have "flush_loop fn q = flush_loop fn ?q"
      by (simp add: flush_loop.simps [of fn q] q'(1))
    moreover have "q_inv ?q" "qactive ?q" "q_contents ?q = q_contents q'"
      "q_events ?q = q_events q' @ [Flush_call fn x (flush_data q)]" "flush_data ?q = flush_data q"
      "pushers ?q = pushers q" "node_brk ?q = node_brk q"
      using q' node_brk_trypop [OF q'(1)] by simp_all
    ultimately show ?thesis
      using "1.IH" [OF q'(1) [symmetric] refl refl] q' by (simp add: flush_events_def)
  qed
qed

lemma ks_q_flush_ok:
  assumes "q_inv q" and "qactive q" and "flush_fn q = Some fn"
  shows "\<exists>q'. ks_q_flush q = (KS_STATUS_SUCCESS, q') \<and> q_inv q' \<and> q_contents q' = [] \<and> qactive q' \<and>
           node_brk q' = node_brk q \<and>
           q_events q' = q_events q @ flush_events q fn (q_contents q)"
  using flush_loop_ok [OF assms(1,2), of fn] assms by (simp add: ks_q_flush_def)

lemma ks_q_term_ok:
  "q_inv q \<Longrightarrow> \<exists>q'. snd (ks_q_term q) = q' \<and> q_inv q' \<and> q_contents q' = q_contents q \<and> \<not> qactive q' \<and>
     node_brk q' = node_brk q \<and> q_events q' = q_events q @
       (if qactive q then [Cond_broadcast Push_cond, Cond_broadcast Pop_cond] else [])"
  by (simp add: ks_q_term_def term_reset_def ks_q_wake_def)

text \<open>Teardown frees the nodes of both lists: every node once, none twice.\<close>

lemma ks_q_teardown_ok:
  assumes "q_inv q"
  shows "\<exists>fs. ks_q_cleanup q KS_MPCL_TEARDOWN KS_MPCL_FREE = Some (q_emit (map Free_node fs) q) \<and>
           distinct fs \<and> set fs = {..<node_brk q}"
proof -
  from assms obtain ns es where n: "q_nodes q ns es" by (auto simp: q_inv_def)
  from q_nodes_walk [OF n] n show ?thesis
    by (intro exI [of _ "ns @ es"]) (auto simp: ks_q_cleanup_def q_nodes_def)
qed

lemma ks_q_destroy_ok:
  assumes "q_inv q"
  shows "\<exists>fs q'. ks_q_destroy (Some q) = Some (KS_STATUS_SUCCESS, Some q') \<and>
           distinct fs \<and> set fs = {..<node_brk q} \<and>
           q_events q' = q_events q @
             (if qactive q
              then (case flush_fn q of None \<Rightarrow> [] | Some fn \<Rightarrow> flush_events q fn (q_contents q)) @
                   [Cond_broadcast Push_cond, Cond_broadcast Pop_cond]
              else []) @
             map Free_node fs @ [Cond_destroy Pop_cond, Cond_destroy Push_cond, Mutex_destroy]"
proof -
  define p where "p = snd (ks_q_flush q)"
  have p: "q_inv p" "node_brk p = node_brk q" "qactive p = qactive q"
    "q_events p = q_events q @ (if qactive q
       then (case flush_fn q of None \<Rightarrow> [] | Some fn \<Rightarrow> flush_events q fn (q_contents q)) else [])"
    using ks_q_flush_ok [OF assms] assms
    by (cases "qactive q"; cases "flush_fn q"; auto simp: p_def ks_q_flush_def)+
  define r where "r = snd (ks_q_term p)"
  from ks_q_term_ok [OF p(1)] p(2) have r: "q_inv r" "\<not> qactive r" "node_brk r = node_brk q"
    "q_events r = q_events p @
       (if qactive p then [Cond_broadcast Push_cond, Cond_broadcast Pop_cond] else [])"
    by (auto simp: r_def)
  from ks_q_teardown_ok [OF r(1)] obtain fs where
    "ks_q_cleanup r KS_MPCL_TEARDOWN KS_MPCL_FREE = Some (q_emit (map Free_node fs) r)"
    "distinct fs" "set fs = {..<node_brk q}" using r(3) by auto
  moreover have "ks_q_cleanup r KS_MPCL_ANNOUNCE KS_MPCL_FREE = Some r"
    using r(2) by (simp add: ks_q_cleanup_def)
  moreover have "ks_q_cleanup x KS_MPCL_DESTROY KS_MPCL_FREE =
      Some (q_emit [Cond_destroy Pop_cond, Cond_destroy Push_cond, Mutex_destroy] x)" for x :: "'a ks_q"
    by (simp add: ks_q_cleanup_def)
  ultimately show ?thesis
    by (intro exI [of _ fs])
      (simp add: ks_q_destroy_def p_def [symmetric] r_def [symmetric] p r)
qed

section \<open>Properties\<close>

text \<open>
  C3: any sequence of \<open>ks_q_trypush\<close> and \<open>ks_q_trypop\<close> on a well-formed queue, each push made while
  the queue is active and below its limit, runs without a NULL dereference, keeps both node lists
  well formed, and hands the pointers out in the order they came in.
\<close>

theorem ks_q_fifo:
  assumes "q_inv q" and "fifo_admissible q_may_put q_put q_get q ops"
  shows "\<exists>out q'. fifo_run q_may_put q_put q_get q ops = Some (out, q') \<and> q_inv q' \<and>
           q_contents q @ fifo_puts (\<lambda>v. [v]) ops = out @ q_contents q'"
  using q.run_conserves [OF assms] .

lemmas q_eval = ks_q_create_def q_may_put_def q_put_def q_get_def ks_q_trypush_def ks_q_trypop_def
  do_push_def do_pop_def new_node_def q_full_def push_signal_def pop_signal_def size_add_def
  size_sub_def SIZE_MOD_def

theorem ks_q_fifo_witness:
  "\<exists>out q'. fifo_run q_may_put q_put q_get (snd (ks_q_create 2))
       [Put (Some 7), Put None, Get (), Put (Some (8 :: nat)), Get ()] = Some (out, q') \<and>
     q_inv q' \<and>
     q_contents (snd (ks_q_create 2)) @ fifo_puts (\<lambda>v. [v])
       [Put (Some 7), Put None, Get (), Put (Some 8), Get ()] = out @ q_contents q'"
  by (rule ks_q_fifo [OF ks_q_create_inv]) (simp add: q_eval)

text \<open>
  \<open>ks_q_destroy\<close> on a well-formed queue passes every queued pointer, in order, to the flush
  function (when the queue is active and has one), then wakes all waiters, then frees every node
  the queue ever allocated exactly once, and only then destroys the conditions and the mutex.
\<close>

lemma ks_q_destroy_releases:
  assumes "q_inv q" and "qactive q" and "flush_fn q = Some fn" and "pushers q = 0"
  shows "\<exists>fs q'. ks_q_destroy (Some q) = Some (KS_STATUS_SUCCESS, Some q') \<and>
           distinct fs \<and> set fs = {..<node_brk q} \<and>
           q_events q' = q_events q @ map (\<lambda>x. Flush_call fn x (flush_data q)) (q_contents q) @
             [Cond_broadcast Push_cond, Cond_broadcast Pop_cond] @ map Free_node fs @
             [Cond_destroy Pop_cond, Cond_destroy Push_cond, Mutex_destroy]"
proof -
  have "flush_events q fn xs = map (\<lambda>x. Flush_call fn x (flush_data q)) xs" for xs
    using assms(4) by (simp add: flush_events_def)
  with ks_q_destroy_ok [OF assms(1)] assms(2,3) show ?thesis by simp
qed

definition demo_queue :: "nat ks_q" where
  "demo_queue = snd (ks_q_set_flush_fn
     (snd (the (ks_q_trypush (snd (ks_q_create 0)) (Some 7)))) (Some 1) 0)"

lemma demo_queue_inv: "q_inv demo_queue"
proof -
  have "q_nodes demo_queue [0] []"
    by (simp add: demo_queue_def q_nodes_def q_eval ks_q_set_flush_fn_def dlist_def lessThan_Suc)
  then show ?thesis by (auto simp: q_inv_def)
qed

end
