(* ===== verification/Ks_Q_Conc.thy ===== *)
theory Ks_Q_Conc
  imports Ks_Q Ks_Steps
begin

text \<open>
  The queue of \<open>ks_q.c\<close> under concurrency. Any number of threads (numbered by \<open>nat\<close>) call the
  operations; each operation is atomic because it holds \<open>list_mutex\<close>, except that \<open>ks_q_push\<close> and
  \<open>ks_q_pop_timeout\<close> give the mutex up while they wait, and \<open>ks_q_term\<close> before it wakes the others. A waiting thread may resume at any time, so
  signalled, timed out and spurious wake-ups are all covered. The step rules are the operations of
  theory \<open>Ks_Q\<close>; two ghost lists record the values whose push succeeded and the values handed out
  by pops.

  A push is only taken while \<open>len\<close> is below the range of \<open>size_t\<close> (each queued value occupies a node
  in memory).
\<close>

datatype 'v q_pc = Idle | Push_wait "'v option" | Pop_wait u32 | Term_wake

record 'v q_sys =
  sq :: "'v ks_q"
  spc :: "nat \<Rightarrow> 'v q_pc"
  spushed :: "'v option list"
  spopped :: "'v option list"

definition q_sys_init :: "nat \<Rightarrow> 'v q_sys" where
  "q_sys_init m = \<lparr>sq = snd (ks_q_create m), spc = (\<lambda>_. Idle), spushed = [], spopped = []\<rparr>"

text \<open>Recording the outcome of a push and of a pop.\<close>

definition note_push :: "ks_status \<Rightarrow> 'v option \<Rightarrow> 'v q_sys \<Rightarrow> 'v q_sys" where
  "note_push r v s = (if r = KS_STATUS_SUCCESS then s\<lparr>spushed := spushed s @ [v]\<rparr> else s)"

definition note_pop :: "'v option option \<Rightarrow> 'v q_sys \<Rightarrow> 'v q_sys" where
  "note_pop out s = (case out of None \<Rightarrow> s | Some x \<Rightarrow> s\<lparr>spopped := spopped s @ [x]\<rparr>)"

inductive q_step :: "'v q_sys \<Rightarrow> 'v q_sys \<Rightarrow> bool" where
  trypush: "spc s t = Idle \<Longrightarrow> qlen (sq s) + 1 < SIZE_MOD \<Longrightarrow>
     ks_q_trypush (sq s) v = Some (r, q') \<Longrightarrow> q_step s (note_push r v (s\<lparr>sq := q'\<rparr>))"
| push_now: "spc s t = Idle \<Longrightarrow> qlen (sq s) + 1 < SIZE_MOD \<Longrightarrow>
     ks_q_push (sq s) v = Some (Some r, q') \<Longrightarrow> q_step s (note_push r v (s\<lparr>sq := q'\<rparr>))"
| push_sleep: "spc s t = Idle \<Longrightarrow> ks_q_push (sq s) v = Some (None, q') \<Longrightarrow>
     q_step s (s\<lparr>sq := q', spc := (spc s)(t := Push_wait v)\<rparr>)"
| push_wake: "spc s t = Push_wait v \<Longrightarrow> qlen (sq s) + 1 < SIZE_MOD \<Longrightarrow>
     ks_q_push_resume (sq s) v = Some (r, q') \<Longrightarrow>
     q_step s (note_push r v (s\<lparr>sq := q', spc := (spc s)(t := Idle)\<rparr>))"
| trypop: "spc s t = Idle \<Longrightarrow> ks_q_trypop (sq s) = (r, q', out) \<Longrightarrow>
     q_step s (note_pop out (s\<lparr>sq := q'\<rparr>))"
| pop_now: "spc s t = Idle \<Longrightarrow> ks_q_pop_timeout (sq s) = (Some r, q', out) \<Longrightarrow>
     q_step s (note_pop out (s\<lparr>sq := q'\<rparr>))"
| pop_sleep: "spc s t = Idle \<Longrightarrow> ks_q_pop_timeout (sq s) = (None, q', out) \<Longrightarrow>
     q_step s (s\<lparr>sq := q', spc := (spc s)(t := Pop_wait timeout)\<rparr>)"
| pop_wake: "spc s t = Pop_wait timeout \<Longrightarrow> ks_q_pop_resume (sq s) timeout w = (r, q', out) \<Longrightarrow>
     q_step s (note_pop out (s\<lparr>sq := q', spc := (spc s)(t := Idle)\<rparr>))"
| set_flush: "spc s t = Idle \<Longrightarrow> ks_q_set_flush_fn (sq s) fn d = (r, q') \<Longrightarrow>
     q_step s (s\<lparr>sq := q'\<rparr>)"
| wake_all: "spc s t = Idle \<Longrightarrow> ks_q_wake (sq s) = (r, q') \<Longrightarrow> q_step s (s\<lparr>sq := q'\<rparr>)"
| term_reset: "spc s t = Idle \<Longrightarrow> term_reset (sq s) = (active, q') \<Longrightarrow>
     q_step s (s\<lparr>sq := q', spc := (spc s)(t := if active then Term_wake else Idle)\<rparr>)"
| term_wake: "spc s t = Term_wake \<Longrightarrow> ks_q_wake (sq s) = (r, q') \<Longrightarrow>
     q_step s (s\<lparr>sq := q', spc := (spc s)(t := Idle)\<rparr>)"

inductive q_reachable :: "nat \<Rightarrow> 'v q_sys \<Rightarrow> bool" for m where
  init: "q_reachable m (q_sys_init m)"
| step: "q_reachable m s \<Longrightarrow> q_step s s' \<Longrightarrow> q_reachable m s'"

section \<open>The data invariant\<close>

definition q_data_ok :: "nat \<Rightarrow> 'v q_sys \<Rightarrow> bool" where
  "q_data_ok m s =
     (q_inv (sq s) \<and> qmaxlen (sq s) = m \<and> (m \<noteq> 0 \<longrightarrow> qlen (sq s) \<le> m) \<and>
      spushed s = spopped s @ q_contents (sq s))"

lemma note_sel [simp]:
  "sq (note_push r v s) = sq s" "spc (note_push r v s) = spc s"
  "spopped (note_push r v s) = spopped s"
  "spushed (note_push r v s) = spushed s @ (if r = KS_STATUS_SUCCESS then [v] else [])"
  "sq (note_pop out s) = sq s" "spc (note_pop out s) = spc s" "spushed (note_pop out s) = spushed s"
  "spopped (note_pop out s) = spopped s @ (case out of None \<Rightarrow> [] | Some x \<Rightarrow> [x])"
  by (simp_all add: note_push_def note_pop_def split: option.split)

lemma q_inv_flush [simp]:
  "q_inv (q\<lparr>flush_fn := a, flush_data := b\<rparr>) = q_inv q"
  "q_contents (q\<lparr>flush_fn := a, flush_data := b\<rparr>) = q_contents q"
  by (simp_all add: q_inv_def q_nodes_def q_contents_def split: option.split)

text \<open>Every operation, seen as a change of the queue and of the two recorded lists.\<close>

definition pushes :: "'v ks_q \<Rightarrow> 'v option \<Rightarrow> ks_status \<Rightarrow> 'v ks_q \<Rightarrow> bool" where
  "pushes q v r q' =
     (q_inv q' \<and> qmaxlen q' = qmaxlen q \<and>
      (if r = KS_STATUS_SUCCESS
       then \<not> q_full q \<and> q_contents q' = q_contents q @ [v] \<and> qlen q' = qlen q + 1
       else q_contents q' = q_contents q \<and> qlen q' = qlen q))"

definition pops :: "'v ks_q \<Rightarrow> 'v ks_q \<Rightarrow> 'v option option \<Rightarrow> bool" where
  "pops q q' out =
     (q_inv q' \<and> qmaxlen q' = qmaxlen q \<and> qlen q' \<le> qlen q \<and>
      q_contents q = (case out of None \<Rightarrow> [] | Some x \<Rightarrow> [x]) @ q_contents q')"

lemma do_push_pushes:
  assumes "q_inv q" and "\<not> q_full q" and "qlen q + 1 < SIZE_MOD"
    and "do_push q v = Some (r, q')"
  shows "pushes q v r (push_signal q')"
proof (cases "qactive q")
  case True
  with do_push_ok [OF assms(1) True assms(3), of v] assms show ?thesis
    by (auto simp: pushes_def q_frame_def)
next
  case False
  with assms show ?thesis by (auto simp: pushes_def do_push_def)
qed

lemma do_pop_pops:
  assumes "q_inv q" and "qlen q \<noteq> 0" and "do_pop q = (r, q', out)"
  shows "pops q (pop_signal q') out"
proof (cases "qactive q")
  case True
  with do_pop_ok [OF assms(1) True assms(2)] assms show ?thesis
    by (auto simp: pops_def q_frame_def)
next
  case False
  with assms show ?thesis by (auto simp: pops_def do_pop_def)
qed

lemma trypush_pushes:
  assumes "q_inv q" and "qlen q + 1 < SIZE_MOD" and "ks_q_trypush q v = Some (r, q')"
  shows "pushes q v r q'"
  using assms do_push_pushes [OF assms(1) _ assms(2), of v]
  by (auto simp: ks_q_trypush_def pushes_def split: if_splits Option.bind_splits)

lemma push_now_pushes:
  assumes "q_inv q" and "qlen q + 1 < SIZE_MOD" and "ks_q_push q v = Some (Some r, q')"
  shows "pushes q v r q'"
  using assms do_push_pushes [OF assms(1) _ assms(2), of v]
  by (auto simp: ks_q_push_def pushes_def split: if_splits Option.bind_splits)

lemma pushes_counters:
  "pushes (q\<lparr>pushers := n\<rparr>) v r q' = pushes q v r q'" "pops (q\<lparr>poppers := k\<rparr>) q' out = pops q q' out"
  by (simp_all add: pushes_def pops_def q_full_def)

lemma push_wake_pushes:
  assumes "q_inv q" and "qlen q + 1 < SIZE_MOD" and "ks_q_push_resume q v = Some (r, q')"
  shows "pushes q v r q'"
proof -
  define p where "p = q\<lparr>pushers := pushers q - 1\<rparr>"
  have p: "q_inv p" "qlen p + 1 < SIZE_MOD" and eq: "pushes p v r q' = pushes q v r q'"
    using assms by (simp_all add: p_def pushes_counters)
  show ?thesis
  proof (cases "q_full p")
    case True
    with assms(3) have "q' = p" "r \<noteq> KS_STATUS_SUCCESS"
      by (auto simp: ks_q_push_resume_def p_def [symmetric] split: if_splits)
    with p have "pushes p v r q'" by (simp add: pushes_def)
    with eq show ?thesis by simp
  next
    case False
    with assms(3) obtain q1 where "do_push p v = Some (r, q1)" "q' = push_signal q1"
      by (auto simp: ks_q_push_resume_def p_def [symmetric] split: Option.bind_splits)
    with do_push_pushes [OF p(1) False p(2)] eq show ?thesis by simp
  qed
qed

lemma trypop_pops: "q_inv q \<Longrightarrow> ks_q_trypop q = (r, q', out) \<Longrightarrow> pops q q' out"
  using do_pop_pops [of q]
  by (auto simp: ks_q_trypop_def pops_def split: if_splits prod.splits)

lemma pop_now_pops: "q_inv q \<Longrightarrow> ks_q_pop_timeout q = (r, q', out) \<Longrightarrow> pops q q' out"
  using do_pop_pops [of q]
  by (auto simp: ks_q_pop_timeout_def pops_def split: if_splits prod.splits)

lemma pop_wake_pops:
  assumes "q_inv q" and "ks_q_pop_resume q timeout w = (r, q', out)"
  shows "pops q q' out"
proof -
  define p where "p = q\<lparr>poppers := poppers q - 1\<rparr>"
  have p: "q_inv p" and eq: "pops p q' out = pops q q' out"
    using assms by (simp_all add: p_def pushes_counters)
  show ?thesis
  proof (cases "(timeout \<noteq> 0 \<and> w \<noteq> KS_STATUS_SUCCESS) \<or> qlen p = 0")
    case True
    with assms(2) have "q' = p" "out = None"
      by (auto simp: ks_q_pop_resume_def p_def [symmetric] split: if_splits)
    with p have "pops p q' out" by (simp add: pops_def)
    with eq show ?thesis by simp
  next
    case False
    with assms(2) obtain r1 q1 where "do_pop p = (r1, q1, out)" "q' = pop_signal q1"
      by (auto simp: ks_q_pop_resume_def p_def [symmetric] split: prod.splits)
    with do_pop_pops [OF p] False eq show ?thesis by auto
  qed
qed

lemma data_ok_push:
  assumes "q_data_ok m s" and "pushes (sq s) v r q'"
  shows "q_data_ok m (note_push r v (s\<lparr>sq := q', spc := p\<rparr>))"
  using assms by (auto simp: q_data_ok_def pushes_def q_full_def split: if_splits)

lemma data_ok_pop:
  assumes "q_data_ok m s" and "pops (sq s) q' out"
  shows "q_data_ok m (note_pop out (s\<lparr>sq := q', spc := p\<rparr>))"
  using assms by (auto simp: q_data_ok_def pops_def split: option.splits)

text \<open>Steps that move no data.\<close>

lemma data_ok_same:
  assumes "q_data_ok m s" and "q_inv q'" "q_contents q' = q_contents (sq s)"
    "qmaxlen q' = qmaxlen (sq s)" "qlen q' = qlen (sq s)"
  shows "q_data_ok m (s\<lparr>sq := q', spc := p\<rparr>)"
  using assms by (auto simp: q_data_ok_def)

lemma spc_same: "s\<lparr>sq := q', spc := spc s\<rparr> = s\<lparr>sq := q'\<rparr>"
  by simp

lemma q_step_data_ok: "q_step s s' \<Longrightarrow> q_data_ok m s \<Longrightarrow> q_data_ok m s'"
proof (induction rule: q_step.induct)
  case (trypush s t v r q')
  then show ?case
    using data_ok_push [of m s v r q' "spc s"] trypush_pushes [of "sq s" v r q']
    by (simp add: q_data_ok_def)
next
  case (push_now s t v r q')
  then show ?case
    using data_ok_push [of m s v r q' "spc s"] push_now_pushes [of "sq s" v r q']
    by (simp add: q_data_ok_def)
next
  case (push_sleep s t v q')
  then show ?case
    by (intro data_ok_same) (auto simp: ks_q_push_def q_data_ok_def split: if_splits Option.bind_splits)
next
  case (push_wake s t v r q')
  then show ?case
    by (intro data_ok_push push_wake_pushes) (auto simp: q_data_ok_def)
next
  case (trypop s t r q' out)
  then show ?case
    using data_ok_pop [of m s q' out "spc s"] trypop_pops [of "sq s" r q' out]
    by (simp add: q_data_ok_def)
next
  case (pop_now s t r q' out)
  then show ?case
    using data_ok_pop [of m s q' out "spc s"] pop_now_pops [of "sq s" "Some r" q' out]
    by (simp add: q_data_ok_def)
next
  case (pop_sleep s t q' out timeout)
  then show ?case
    by (intro data_ok_same) (auto simp: ks_q_pop_timeout_def q_data_ok_def split: if_splits prod.splits)
next
  case (pop_wake s t timeout w r q' out)
  then show ?case
    by (intro data_ok_pop pop_wake_pops) (auto simp: q_data_ok_def)
next
  case (set_flush s t fn d r q')
  then show ?case
    using data_ok_same [of m s q' "spc s"]
    by (auto simp: ks_q_set_flush_fn_def q_data_ok_def split: if_splits)
next
  case (wake_all s t r q')
  then show ?case
    using data_ok_same [of m s q' "spc s"] by (auto simp: ks_q_wake_def q_data_ok_def)
next
  case (term_reset s t active q')
  then show ?case
    by (intro data_ok_same) (auto simp: term_reset_def q_data_ok_def)
next
  case (term_wake s t r q')
  then show ?case
    by (intro data_ok_same) (auto simp: ks_q_wake_def q_data_ok_def)
qed

interpretation data: step_system "q_sys_init m" q_step "q_data_ok m"
proof unfold_locales
  show "q_data_ok m (q_sys_init m)"
    by (simp add: q_data_ok_def q_sys_init_def ks_q_create_inv ks_q_create_contents) (simp add: ks_q_create_def)
qed (blast intro: q_step_data_ok)

lemma q_reachable_run: "q_reachable m s \<Longrightarrow> q_step\<^sup>*\<^sup>* (q_sys_init m) s"
  by (induction rule: q_reachable.induct) (auto intro: rtranclp.rtrancl_into_rtrancl)

lemmas q_reachable_data_ok = data.run_inv [OF q_reachable_run]

section \<open>The counters of waiting threads\<close>

definition waiting_push :: "'v q_sys \<Rightarrow> nat set" where
  "waiting_push s = {t. \<exists>v. spc s t = Push_wait v}"

definition waiting_pop :: "'v q_sys \<Rightarrow> nat set" where
  "waiting_pop s = {t. \<exists>timeout. spc s t = Pop_wait timeout}"

definition q_wait_ok :: "'v q_sys \<Rightarrow> bool" where
  "q_wait_ok s =
     (finite (waiting_push s) \<and> finite (waiting_pop s) \<and>
      pushers (sq s) = of_nat (card (waiting_push s)) \<and>
      poppers (sq s) = of_nat (card (waiting_pop s)))"

lemma note_waiting [simp]:
  "waiting_push (note_push r v s) = waiting_push s" "waiting_pop (note_push r v s) = waiting_pop s"
  "waiting_push (note_pop out s) = waiting_push s" "waiting_pop (note_pop out s) = waiting_pop s"
  "waiting_push (s\<lparr>sq := q\<rparr>) = waiting_push s" "waiting_pop (s\<lparr>sq := q\<rparr>) = waiting_pop s"
  by (simp_all add: waiting_push_def waiting_pop_def)

lemma q_wait_ok_note [simp]:
  "q_wait_ok (note_push r v s) = q_wait_ok s" "q_wait_ok (note_pop out s) = q_wait_ok s"
  by (simp_all add: q_wait_ok_def)

lemma waiting_upd:
  "waiting_push (s\<lparr>sq := q, spc := (spc s)(t := p)\<rparr>) =
     (case p of Push_wait v \<Rightarrow> insert t (waiting_push s) | _ \<Rightarrow> waiting_push s - {t})"
  "waiting_pop (s\<lparr>sq := q, spc := (spc s)(t := p)\<rparr>) =
     (case p of Pop_wait v \<Rightarrow> insert t (waiting_pop s) | _ \<Rightarrow> waiting_pop s - {t})"
  by (auto simp: waiting_push_def waiting_pop_def split: q_pc.split)

lemma wait_ok_same:
  assumes "q_wait_ok s" "pushers q' = pushers (sq s)" "poppers q' = poppers (sq s)"
  shows "q_wait_ok (s\<lparr>sq := q'\<rparr>)"
  using assms by (simp add: q_wait_ok_def)

lemma of_nat_card_remove:
  "finite A \<Longrightarrow> t \<in> A \<Longrightarrow> of_nat (card A) - 1 = (of_nat (card (A - {t})) :: u32)"
  by (metis card.remove add_diff_cancel_left' of_nat_Suc)

lemma counters_push:
  "do_push q v = Some (r, q') \<Longrightarrow> pushers q' = pushers q \<and> poppers q' = poppers q"
  by (auto simp: do_push_def new_node_def Let_def split: if_splits option.splits Option.bind_splits)

lemma counters_pop:
  "do_pop q = (r, q', out) \<Longrightarrow> pushers q' = pushers q \<and> poppers q' = poppers q"
  by (auto simp: do_pop_def Let_def split: if_splits option.splits)

lemma counters_signal [simp]:
  "pushers (push_signal q) = pushers q" "poppers (push_signal q) = poppers q"
  "poppers (pop_signal q) = poppers q"
  by (simp_all add: push_signal_def pop_signal_def)

lemmas counters = counters_push counters_pop

lemma q_step_wait_ok: "q_step s s' \<Longrightarrow> q_wait_ok s \<Longrightarrow> q_wait_ok s'"
proof (induction rule: q_step.induct)
  case (trypush s t v r q')
  then show ?case
    by (intro q_wait_ok_note(1) [THEN iffD2] wait_ok_same)
      (auto simp: ks_q_trypush_def dest: counters split: if_splits Option.bind_splits)
next
  case (push_now s t v r q')
  then show ?case
    by (intro q_wait_ok_note(1) [THEN iffD2] wait_ok_same)
      (auto simp: ks_q_push_def dest: counters split: if_splits Option.bind_splits)
next
  case (push_sleep s t v q')
  then have "t \<notin> waiting_push s" "t \<notin> waiting_pop s" by (simp_all add: waiting_push_def waiting_pop_def)
  moreover from push_sleep have "q' = (sq s)\<lparr>pushers := pushers (sq s) + 1\<rparr>"
    by (auto simp: ks_q_push_def split: if_splits Option.bind_splits)
  ultimately show ?case
    using push_sleep by (simp add: q_wait_ok_def waiting_upd)
next
  case (push_wake s t v r q')
  then have t: "t \<in> waiting_push s" "t \<notin> waiting_pop s" by (simp_all add: waiting_push_def waiting_pop_def)
  from push_wake have "pushers q' = pushers (sq s) - 1" "poppers q' = poppers (sq s)"
    by (auto simp: ks_q_push_resume_def Let_def dest: counters split: if_splits Option.bind_splits)
  with t push_wake show ?case by (simp add: q_wait_ok_def waiting_upd of_nat_card_remove)
next
  case (trypop s t r q' out)
  then show ?case
    by (intro q_wait_ok_note(2) [THEN iffD2] wait_ok_same)
      (auto simp: ks_q_trypop_def dest: counters split: if_splits prod.splits)
next
  case (pop_now s t r q' out)
  then show ?case
    by (intro q_wait_ok_note(2) [THEN iffD2] wait_ok_same)
      (auto simp: ks_q_pop_timeout_def dest: counters split: if_splits prod.splits)
next
  case (pop_sleep s t q' out timeout)
  then have "t \<notin> waiting_push s" "t \<notin> waiting_pop s" by (simp_all add: waiting_push_def waiting_pop_def)
  moreover from pop_sleep have "q' = (sq s)\<lparr>poppers := poppers (sq s) + 1\<rparr>"
    by (auto simp: ks_q_pop_timeout_def split: if_splits prod.splits)
  ultimately show ?case
    using pop_sleep by (simp add: q_wait_ok_def waiting_upd)
next
  case (pop_wake s t timeout w r q' out)
  then have t: "t \<in> waiting_pop s" "t \<notin> waiting_push s" by (simp_all add: waiting_push_def waiting_pop_def)
  from pop_wake have "poppers q' = poppers (sq s) - 1" "pushers q' = pushers (sq s)"
    by (auto simp: ks_q_pop_resume_def Let_def dest: counters split: if_splits prod.splits)
  with t pop_wake show ?case by (simp add: q_wait_ok_def waiting_upd of_nat_card_remove)
next
  case (set_flush s t fn d r q')
  then show ?case
    by (intro wait_ok_same) (auto simp: ks_q_set_flush_fn_def split: if_splits)
next
  case (wake_all s t r q')
  then show ?case by (intro wait_ok_same) (auto simp: ks_q_wake_def)
next
  case (term_reset s t active q')
  then have "t \<notin> waiting_push s" "t \<notin> waiting_pop s" by (simp_all add: waiting_push_def waiting_pop_def)
  with term_reset show ?case by (auto simp: term_reset_def q_wait_ok_def waiting_upd)
next
  case (term_wake s t r q')
  then have "t \<notin> waiting_push s" "t \<notin> waiting_pop s" by (simp_all add: waiting_push_def waiting_pop_def)
  with term_wake show ?case by (auto simp: ks_q_wake_def q_wait_ok_def waiting_upd)
qed

interpretation waits: step_system "q_sys_init m" q_step q_wait_ok
proof unfold_locales
  show "q_wait_ok (q_sys_init m)"
    by (simp add: q_wait_ok_def q_sys_init_def ks_q_create_def waiting_push_def waiting_pop_def)
qed (blast intro: q_step_wait_ok)

lemmas q_reachable_wait_ok = waits.run_inv [OF q_reachable_run]

section \<open>Properties\<close>

text \<open>
  C4: in every reachable state of a queue used by any number of threads, with blocking and
  non-blocking calls interleaved in any way, the values pushed so far are the values popped so far
  followed by the values still queued, a limit given at creation is never exceeded, and the two
  node lists are well formed.
\<close>

theorem q_conc_fifo:
  assumes "q_reachable m s"
  shows "spushed s = spopped s @ q_contents (sq s) \<and> (m \<noteq> 0 \<longrightarrow> ks_q_size (sq s) \<le> m) \<and>
         ks_q_maxlen (sq s) = m \<and> q_inv (sq s)"
  using q_reachable_data_ok [OF assms] by (simp add: q_data_ok_def ks_q_size_def ks_q_maxlen_def)

definition demo_sys :: "nat q_sys" where
  "demo_sys = note_push KS_STATUS_SUCCESS (Some 7)
     (q_sys_init 1 \<lparr>sq := snd (the (ks_q_trypush (snd (ks_q_create 1)) (Some 7)))\<rparr>)"

lemma demo_sys_reachable: "q_reachable 1 demo_sys"
  unfolding demo_sys_def
  by (rule q_reachable.step [OF q_reachable.init], rule q_step.trypush [of _ 0])
    (simp_all add: q_sys_init_def q_eval)

theorem q_conc_fifo_witness:
  "spushed demo_sys = spopped demo_sys @ q_contents (sq demo_sys) \<and>
   ks_q_size (sq demo_sys) \<le> 1 \<and> spushed demo_sys = [Some 7]"
  using q_conc_fifo [OF demo_sys_reachable] by (simp add: demo_sys_def q_sys_init_def)

text \<open>What a successful pop or push leaves, whichever call it was made by.\<close>

lemma do_pop_signals:
  assumes "q_inv q" "qlen q \<noteq> 0" "do_pop q = (KS_STATUS_SUCCESS, q', out)" "pushers q \<noteq> 0"
  shows "q_events (pop_signal q') = q_events q @ [Cond_signal Push_cond]"
proof -
  have "qactive q" using assms(3) by (auto simp: do_pop_def split: if_splits)
  from do_pop_ok [OF assms(1) this assms(2)] assms(3,4) show ?thesis
    by (auto simp: q_frame_def pop_signal_def)
qed

lemma do_push_signals:
  assumes "q_inv q" "qlen q + 1 < SIZE_MOD" "do_push q v = Some (KS_STATUS_SUCCESS, q')" "poppers q \<noteq> 0"
  shows "q_events (push_signal q') = q_events q @ [Cond_signal Pop_cond]"
proof -
  have "qactive q" using assms(3) by (auto simp: do_push_def split: if_splits)
  from do_push_ok [OF assms(1) this assms(2), of v] assms(3,4) show ?thesis
    by (auto simp: q_frame_def push_signal_def)
qed

text \<open>The calls that end with a pop, and with a push.\<close>

definition pops_now :: "'v ks_q \<Rightarrow> u32 \<Rightarrow> ks_status \<Rightarrow> 'v ks_q \<Rightarrow> 'v option option \<Rightarrow> bool" where
  "pops_now q timeout w q' out =
     (ks_q_trypop q = (KS_STATUS_SUCCESS, q', out) \<or> ks_q_pop_timeout q = (Some KS_STATUS_SUCCESS, q', out) \<or>
      ks_q_pop_resume q timeout w = (KS_STATUS_SUCCESS, q', out))"

definition pushes_now :: "'v ks_q \<Rightarrow> 'v option \<Rightarrow> 'v ks_q \<Rightarrow> bool" where
  "pushes_now q v q' =
     (ks_q_trypush q v = Some (KS_STATUS_SUCCESS, q') \<or> ks_q_push q v = Some (Some KS_STATUS_SUCCESS, q') \<or>
      ks_q_push_resume q v = Some (KS_STATUS_SUCCESS, q'))"

lemma pop_signals:
  assumes "q_inv q" "pushers q \<noteq> 0" "pops_now q timeout w q' out"
  shows "q_events q' = q_events q @ [Cond_signal Push_cond]"
proof -
  let ?p = "q\<lparr>poppers := poppers q - 1\<rparr>"
  have d: "qlen x \<noteq> 0 \<Longrightarrow> do_pop x = (KS_STATUS_SUCCESS, q1, out) \<Longrightarrow> q' = pop_signal q1 \<Longrightarrow> q_inv x \<Longrightarrow>
      q_events x = q_events q \<Longrightarrow> pushers x = pushers q \<Longrightarrow> ?thesis" for x q1
    using do_pop_signals [of x q1 out] assms(2) by simp
  from assms(3) consider
      q1 where "qlen q \<noteq> 0" "do_pop q = (KS_STATUS_SUCCESS, q1, out)" "q' = pop_signal q1"
    | q1 where "qlen ?p \<noteq> 0" "do_pop ?p = (KS_STATUS_SUCCESS, q1, out)" "q' = pop_signal q1"
    by (auto simp: pops_now_def ks_q_trypop_def ks_q_pop_timeout_def ks_q_pop_resume_def Let_def
        split: if_splits prod.splits)
  then show ?thesis
  proof cases
    case (1 q1)
    show ?thesis by (rule d [OF 1 assms(1)]) simp_all
  next
    case (2 q1)
    show ?thesis by (rule d [OF 2]) (simp_all add: assms(1))
  qed
qed

lemma push_signals:
  assumes "q_inv q" "qlen q + 1 < SIZE_MOD" "poppers q \<noteq> 0" "pushes_now q v q'"
  shows "q_events q' = q_events q @ [Cond_signal Pop_cond]"
proof -
  let ?p = "q\<lparr>pushers := pushers q - 1\<rparr>"
  have d: "do_push x v = Some (KS_STATUS_SUCCESS, q1) \<Longrightarrow> q' = push_signal q1 \<Longrightarrow> q_inv x \<Longrightarrow> qlen x = qlen q \<Longrightarrow>
      q_events x = q_events q \<Longrightarrow> poppers x = poppers q \<Longrightarrow> ?thesis" for x q1
    using do_push_signals [of x v q1] assms(2,3) by simp
  from assms(4) consider
      q1 where "do_push q v = Some (KS_STATUS_SUCCESS, q1)" "q' = push_signal q1"
    | q1 where "do_push ?p v = Some (KS_STATUS_SUCCESS, q1)" "q' = push_signal q1"
    by (auto simp: pushes_now_def ks_q_trypush_def ks_q_push_def ks_q_push_resume_def Let_def
        split: if_splits Option.bind_splits)
  then show ?thesis
  proof cases
    case (1 q1)
    show ?thesis by (rule d [OF 1 assms(1)]) simp_all
  next
    case (2 q1)
    show ?thesis by (rule d [OF 2]) (simp_all add: assms(1))
  qed
qed

lemma of_nat_card_nonzero:
  "finite A \<Longrightarrow> A \<noteq> {} \<Longrightarrow> card A < 2 ^ 32 \<Longrightarrow> of_nat (card A) \<noteq> (0 :: u32)"
  using unat_of_nat [of "card A", where 'a = 32] by auto

lemma unat_of_nat_card: "n < 2 ^ 32 \<Longrightarrow> unat (of_nat n :: u32) = n"
  by (simp add: unat_of_nat)

text \<open>
  C17: Waiting threads are counted and signalled. In every reachable state with fewer than \<open>2^32\<close> waiting
  threads the counters \<open>pushers\<close> and \<open>poppers\<close> are the numbers of the threads that wait in
  \<open>ks_q_push\<close> and in \<open>ks_q_pop_timeout\<close>; every pop that succeeds while pushers wait, be it by
  \<open>ks_q_trypop\<close>, by \<open>ks_q_pop_timeout\<close> at once or after a wait, signals \<open>push_cond\<close>; and every push that
  succeeds while poppers wait, be it by \<open>ks_q_trypush\<close>, by \<open>ks_q_push\<close> at once or after a wait, signals
  \<open>pop_cond\<close>.
\<close>

theorem q_conc_signals:
  assumes "q_reachable m s" and "card (waiting_push s) < 2 ^ 32" and "card (waiting_pop s) < 2 ^ 32"
    and "qlen (sq s) + 1 < SIZE_MOD"
  shows "finite (waiting_push s) \<and> unat (pushers (sq s)) = card (waiting_push s) \<and>
         finite (waiting_pop s) \<and> unat (poppers (sq s)) = card (waiting_pop s) \<and>
         (waiting_push s \<noteq> {} \<and> pops_now (sq s) timeout w q1 out \<longrightarrow>
            q_events q1 = q_events (sq s) @ [Cond_signal Push_cond]) \<and>
         (waiting_pop s \<noteq> {} \<and> pushes_now (sq s) v q2 \<longrightarrow>
            q_events q2 = q_events (sq s) @ [Cond_signal Pop_cond])"
proof -
  have i: "q_inv (sq s)" using q_reachable_data_ok [OF assms(1)] by (simp add: q_data_ok_def)
  have w: "finite (waiting_push s)" "finite (waiting_pop s)"
    "pushers (sq s) = of_nat (card (waiting_push s))" "poppers (sq s) = of_nat (card (waiting_pop s))"
    using q_reachable_wait_ok [OF assms(1)] by (simp_all add: q_wait_ok_def)
  show ?thesis
    using pop_signals [OF i, of timeout w q1 out] push_signals [OF i assms(4), of v q2] w
      of_nat_card_nonzero [OF w(1) _ assms(2)] of_nat_card_nonzero [OF w(2) _ assms(3)]
      unat_of_nat_card [OF assms(2)] unat_of_nat_card [OF assms(3)]
    by auto
qed

text \<open>One thread fills the queue, a second one blocks, a third one pops.\<close>

definition demo_waiting :: "nat q_sys" where
  "demo_waiting = demo_sys\<lparr>sq := (sq demo_sys)\<lparr>pushers := 1\<rparr>,
     spc := (spc demo_sys)(1 := Push_wait (Some 8))\<rparr>"

lemma demo_waiting_reachable: "q_reachable 1 demo_waiting"
proof -
  have "q_step demo_sys demo_waiting"
    unfolding demo_waiting_def
    by (rule q_step.push_sleep)
      (simp_all add: demo_sys_def q_sys_init_def q_eval ks_q_push_def)
  with demo_sys_reachable show ?thesis by (rule q_reachable.step)
qed

lemma demo_waiting_sets: "waiting_push demo_waiting = {1}" "waiting_pop demo_waiting = {}"
  by (auto simp: waiting_push_def waiting_pop_def demo_waiting_def demo_sys_def note_push_def
      q_sys_init_def)

theorem q_conc_signals_witness:
  "unat (pushers (sq demo_waiting)) = 1 \<and>
   (\<exists>q1. ks_q_pop_timeout (sq demo_waiting) = (Some KS_STATUS_SUCCESS, q1, Some (Some 7)) \<and>
     q_events q1 = q_events (sq demo_waiting) @ [Cond_signal Push_cond])"
proof -
  obtain q1 where q1: "ks_q_pop_timeout (sq demo_waiting) = (Some KS_STATUS_SUCCESS, q1, Some (Some 7))"
    by (simp add: demo_waiting_def demo_sys_def q_sys_init_def q_eval ks_q_pop_timeout_def)
  have "qlen (sq demo_waiting) + 1 < SIZE_MOD"
    by (simp add: demo_waiting_def demo_sys_def q_sys_init_def q_eval)
  with q_conc_signals [OF demo_waiting_reachable, of 0 KS_STATUS_SUCCESS q1 "Some (Some 7)"] q1 show ?thesis
    by (simp add: demo_waiting_sets pops_now_def)
qed

end
