(* ===== verification/Ks_Ctype.thy ===== *)
theory Ks_Ctype
  imports Ks_Prelude
begin

text \<open>
  The case conversion tables of \<open>ks_string.c\<close> and the functions \<open>ks_toupper\<close> and \<open>ks_tolower\<close> over
  them, and the C library's string comparison on memory.
\<close>

section \<open>Case conversion\<close>

definition ks_C_toupper :: "int list" where
  "ks_C_toupper = -1 # map int ([0 ..< 97] @ [65 ..< 91] @ [123 ..< 256])"

definition ks_C_tolower :: "int list" where
  "ks_C_tolower = -1 # map int ([0 ..< 65] @ [97 ..< 123] @ [91 ..< 256])"

text \<open>The comparison of \<open>(unsigned int) c\<close> with 255 catches the negative values too.\<close>

definition ks_toupper :: "int \<Rightarrow> int" where
  "ks_toupper c =
     (if 255 < c mod 2 ^ 32 then c
      else if c < -1 then -1
      else ks_C_toupper ! nat (c + 1))"

definition ks_tolower :: "int \<Rightarrow> int" where
  "ks_tolower c =
     (if 255 < c mod 2 ^ 32 then c
      else if c < -1 then -1
      else ks_C_tolower ! nat (c + 1))"

lemma length_ctype_tables: "length ks_C_toupper = 257" "length ks_C_tolower = 257"
  by (simp_all add: ks_C_toupper_def ks_C_tolower_def del: upt_rec_numeral)

lemma nth_ctype_tables:
  "n < 256 \<Longrightarrow> ks_C_tolower ! Suc n = int (if 65 \<le> n \<and> n \<le> 90 then n + 32 else n)"
  "n < 256 \<Longrightarrow> ks_C_toupper ! Suc n = int (if 97 \<le> n \<and> n \<le> 122 then n - 32 else n)"
  by (auto simp: ks_C_toupper_def ks_C_tolower_def nth_append simp del: upt_rec_numeral)

text \<open>On the values of an \<open>int\<close>, the tables map the ASCII letters and nothing else.\<close>

lemma ctype_small:
  assumes "- (2 ^ 31) \<le> c" and "c < 2 ^ 31"
  shows "255 < c mod 2 ^ 32 \<longleftrightarrow> c < 0 \<or> 255 < (c :: int)"
proof (cases "c < 0")
  case True
  have "c mod 2 ^ 32 = (c + 2 ^ 32) mod 2 ^ 32" by simp
  also have "\<dots> = c + 2 ^ 32" using True assms by (intro mod_pos_pos_trivial) auto
  finally show ?thesis using True assms by simp
qed (use assms in \<open>simp add: mod_pos_pos_trivial\<close>)

lemma ks_tolower_int:
  assumes "- (2 ^ 31) \<le> c" and "c < 2 ^ 31"
  shows "ks_tolower c = (if 65 \<le> c \<and> c \<le> 90 then c + 32 else c)"
proof (cases "0 \<le> c \<and> c \<le> 255")
  case True
  then obtain n where n: "c = int n" "n < 256" by (intro that [of "nat c"]) auto
  then have "nat (c + 1) = Suc n" by simp
  with n nth_ctype_tables(1) [of n] show ?thesis by (simp add: ks_tolower_def)
qed (use ctype_small [OF assms] in \<open>auto simp: ks_tolower_def\<close>)

lemma ks_toupper_int:
  assumes "- (2 ^ 31) \<le> c" and "c < 2 ^ 31"
  shows "ks_toupper c = (if 97 \<le> c \<and> c \<le> 122 then c - 32 else c)"
proof (cases "0 \<le> c \<and> c \<le> 255")
  case True
  then obtain n where n: "c = int n" "n < 256" by (intro that [of "nat c"]) auto
  then have "nat (c + 1) = Suc n" by simp
  with n nth_ctype_tables(2) [of n] show ?thesis by (simp add: ks_toupper_def)
qed (use ctype_small [OF assms] in \<open>auto simp: ks_toupper_def\<close>)

section \<open>Strings in memory\<close>

text \<open>The bytes before the first NUL; \<^const>\<open>None\<close> when the block has none.\<close>

fun c_str :: "mem \<Rightarrow> mem option" where
  "c_str [] = None"
| "c_str (b # m) = (if b = 0 then Some [] else map_option ((#) b) (c_str m))"

text \<open>\<open>strcmp\<close> as an equality test: it stops at the first difference or at a common NUL.\<close>

fun strcmp_eq :: "mem \<Rightarrow> mem \<Rightarrow> bool option" where
  "strcmp_eq (a # m) (b # n) =
     (if a \<noteq> b then Some False else if a = 0 then Some True else strcmp_eq m n)"
| "strcmp_eq _ _ = None"

definition tolower_byte :: "byte \<Rightarrow> byte" where
  "tolower_byte b = (if 65 \<le> b \<and> b \<le> 90 then b + 32 else b)"

fun strcasecmp_eq :: "mem \<Rightarrow> mem \<Rightarrow> bool option" where
  "strcasecmp_eq (a # m) (b # n) =
     (if tolower_byte a \<noteq> tolower_byte b then Some False
      else if a = 0 then Some True else strcasecmp_eq m n)"
| "strcasecmp_eq _ _ = None"

text \<open>\<open>memcmp\<close> over \<open>n\<close> bytes of both blocks.\<close>

definition memcmp_eq :: "mem \<Rightarrow> mem \<Rightarrow> nat \<Rightarrow> bool option" where
  "memcmp_eq a b n =
     do { x \<leftarrow> mem_sub a 0 n; y \<leftarrow> mem_sub b 0 n; Some (x = y) }"

lemma strcmp_eq_c_str:
  "c_str m = Some s \<Longrightarrow> c_str n = Some t \<Longrightarrow> strcmp_eq m n = Some (s = t)"
proof (induction m n arbitrary: s t rule: strcmp_eq.induct)
  case (1 a m b n)
  then show ?case by (auto split: if_splits)
qed auto

lemma c_str_append: "0 \<notin> set s \<Longrightarrow> c_str (s @ 0 # m) = Some s"
  by (induction s) auto

lemma c_str_no_nul: "c_str m = Some s \<Longrightarrow> 0 \<notin> set s \<and> (\<exists>r. m = s @ 0 # r)"
proof (induction m arbitrary: s)
  case (Cons b m)
  then show ?case by (cases "b = 0") auto
qed simp

end
