(* ===== verification/Ks_Hash_Fn.thy ===== *)
theory Ks_Hash_Fn
  imports Ks_Ctype
begin

text \<open>
  The hash and equality functions of \<open>ks_hash.h\<close>. A key is a \<open>void *\<close>: its address, the block it
  points to, and the bytes that follow that block in memory (the word-wise hash of arbitrary keys
  reads them and masks them off). The platform is little endian with 64-bit pointers.

  \<^const>\<open>None\<close> is a read outside the block of the key.
\<close>

record hkey =
  kptr :: u64
  kmem :: mem
  kafter :: "nat \<Rightarrow> byte"

section \<open>Little-endian reads\<close>

definition rd_u32 :: "mem \<Rightarrow> nat \<Rightarrow> u32 option" where
  "rd_u32 m off = map_option (\<lambda>bs. word_of_int (le_val bs)) (mem_sub m off 4)"

definition rd_u64 :: "mem \<Rightarrow> nat \<Rightarrow> u64 option" where
  "rd_u64 m off = map_option (\<lambda>bs. word_of_int (le_val bs)) (mem_sub m off 8)"

section \<open>Hashes of fixed-size keys\<close>

definition hash_int64 :: "u64 \<Rightarrow> u32" where
  "hash_int64 key =
     (let key = NOT key + push_bit 18 key;
          key = key XOR signed_drop_bit 31 key;
          key = key * 21;
          key = key XOR signed_drop_bit 11 key;
          key = key + push_bit 6 key;
          key = key XOR signed_drop_bit 22 key in
      ucast key)"

definition ks_hash_default_int64 :: "mem \<Rightarrow> u32 option" where
  "ks_hash_default_int64 ky = map_option hash_int64 (rd_u64 ky 0)"

definition ks_hash_equalkeys_int64 :: "mem \<Rightarrow> mem \<Rightarrow> bool option" where
  "ks_hash_equalkeys_int64 k1 k2 = do { x \<leftarrow> rd_u64 k1 0; y \<leftarrow> rd_u64 k2 0; Some (x = y) }"

definition ks_hash_default_uuid :: "mem \<Rightarrow> u32 option" where
  "ks_hash_default_uuid ky =
     do { a \<leftarrow> rd_u64 ky 0; b \<leftarrow> rd_u64 ky 8; Some (hash_int64 a XOR hash_int64 b) }"

definition ks_hash_equalkeys_uuid :: "mem \<Rightarrow> mem \<Rightarrow> bool option" where
  "ks_hash_equalkeys_uuid k1 k2 = memcmp_eq k1 k2 16"

definition hash_int :: "u32 \<Rightarrow> u32" where
  "hash_int x =
     (let x = (drop_bit 16 x XOR x) * 0x45d9f3b;
          x = (drop_bit 16 x XOR x) * 0x45d9f3b in
      drop_bit 16 x XOR x)"

definition ks_hash_default_int :: "mem \<Rightarrow> u32 option" where
  "ks_hash_default_int ky = map_option hash_int (rd_u32 ky 0)"

definition ks_hash_equalkeys_int :: "mem \<Rightarrow> mem \<Rightarrow> bool option" where
  "ks_hash_equalkeys_int k1 k2 = do { x \<leftarrow> rd_u32 k1 0; y \<leftarrow> rd_u32 k2 0; Some (x = y) }"

definition ks_hash_default_ptr :: "mem \<Rightarrow> u32 option" where
  "ks_hash_default_ptr ky = ks_hash_default_int64 ky"

definition ks_hash_equalkeys_ptr :: "mem \<Rightarrow> mem \<Rightarrow> bool option" where
  "ks_hash_equalkeys_ptr k1 k2 = ks_hash_equalkeys_int64 k1 k2"

section \<open>Hashes of strings\<close>

definition ks_hash_equalkeys :: "mem \<Rightarrow> mem \<Rightarrow> bool option" where
  "ks_hash_equalkeys k1 k2 = strcmp_eq k1 k2"

definition ks_hash_equalkeys_ci :: "mem \<Rightarrow> mem \<Rightarrow> bool option" where
  "ks_hash_equalkeys_ci k1 k2 = strcasecmp_eq k1 k2"

definition str_hash_step :: "int \<Rightarrow> u32 \<Rightarrow> u32" where
  "str_hash_step c h = word_of_int c + push_bit 6 h + push_bit 16 h - h"

fun default_loop :: "u32 \<Rightarrow> mem \<Rightarrow> u32 option" where
  "default_loop h [] = None"
| "default_loop h (b # str) =
     (let c = uint b in if c = 0 then Some h else default_loop (str_hash_step c h) str)"

definition ks_hash_default :: "mem \<Rightarrow> u32 option" where
  "ks_hash_default ky = default_loop 0 ky"

fun default_ci_loop :: "u32 \<Rightarrow> mem \<Rightarrow> u32 option" where
  "default_ci_loop h [] = None"
| "default_ci_loop h (b # str) =
     (let c = ks_tolower (uint b) in
      if c = 0 then Some h else default_ci_loop (str_hash_step c h) str)"

definition ks_hash_default_ci :: "mem \<Rightarrow> u32 option" where
  "ks_hash_default_ci ky = default_ci_loop 0 ky"

section \<open>The hash of arbitrary keys\<close>

type_synonym abc = "u32 \<times> u32 \<times> u32"

definition rot :: "u32 \<Rightarrow> nat \<Rightarrow> u32" where
  "rot x k = push_bit k x OR drop_bit (32 - k) x"

definition mix :: "abc \<Rightarrow> abc" where
  "mix s = (case s of (a, b, c) \<Rightarrow>
     let a = a - c; a = a XOR rot c 4; c = c + b;
         b = b - a; b = b XOR rot a 6; a = a + c;
         c = c - b; c = c XOR rot b 8; b = b + a;
         a = a - c; a = a XOR rot c 16; c = c + b;
         b = b - a; b = b XOR rot a 19; a = a + c;
         c = c - b; c = c XOR rot b 4; b = b + a in (a, b, c))"

definition final_mix :: "abc \<Rightarrow> abc" where
  "final_mix s = (case s of (a, b, c) \<Rightarrow>
     let c = c XOR b; c = c - rot b 14;
         a = a XOR c; a = a - rot c 11;
         b = b XOR a; b = b - rot a 25;
         c = c XOR b; c = c - rot b 16;
         a = a XOR c; a = a - rot c 4;
         b = b XOR a; b = b - rot a 14;
         c = c XOR b; c = c - rot b 24 in (a, b, c))"

text \<open>
  Memory at the key: a byte, a 16-bit and a 32-bit word at a byte offset. Bytes past the block are
  whatever follows it.
\<close>

definition k8 :: "hkey \<Rightarrow> nat \<Rightarrow> byte" where
  "k8 k i = (if i < length (kmem k) then kmem k ! i else kafter k i)"

definition k16 :: "hkey \<Rightarrow> nat \<Rightarrow> u16" where
  "k16 k i = word_of_int (le_val [k8 k i, k8 k (i + 1)])"

definition k32 :: "hkey \<Rightarrow> nat \<Rightarrow> u32" where
  "k32 k i = word_of_int (le_val [k8 k i, k8 k (i + 1), k8 k (i + 2), k8 k (i + 3)])"

text \<open>
  The loop over all blocks but the last: \<open>blk\<close> adds the twelve bytes at an offset to the state. It
  returns the offset and the length of the last block.
\<close>

function arb_loop :: "(nat \<Rightarrow> abc \<Rightarrow> abc) \<Rightarrow> nat \<Rightarrow> nat \<Rightarrow> abc \<Rightarrow> nat \<times> nat \<times> abc" where
  "arb_loop blk off len s =
     (if 12 < len then arb_loop blk (off + 12) (len - 12) (mix (blk off s)) else (off, len, s))"
  by pat_completeness auto
termination
  by (relation "measure (\<lambda>(blk, off, len, s). len)") auto

declare arb_loop.simps [simp del]

text \<open>The three readings of a block, and of the last block: by 32-bit words, \<dots>\<close>

definition blk32 :: "hkey \<Rightarrow> nat \<Rightarrow> abc \<Rightarrow> abc" where
  "blk32 k i s = (case s of (a, b, c) \<Rightarrow> (a + k32 k i, b + k32 k (i + 4), c + k32 k (i + 8)))"

definition tail32 :: "hkey \<Rightarrow> nat \<Rightarrow> nat \<Rightarrow> abc \<Rightarrow> abc" where
  "tail32 k i len s = (case s of (a, b, c) \<Rightarrow>
     if len = 12 then (a + k32 k i, b + k32 k (i + 4), c + k32 k (i + 8))
     else if len = 11 then (a + k32 k i, b + k32 k (i + 4), c + (k32 k (i + 8) AND 0xffffff))
     else if len = 10 then (a + k32 k i, b + k32 k (i + 4), c + (k32 k (i + 8) AND 0xffff))
     else if len = 9 then (a + k32 k i, b + k32 k (i + 4), c + (k32 k (i + 8) AND 0xff))
     else if len = 8 then (a + k32 k i, b + k32 k (i + 4), c)
     else if len = 7 then (a + k32 k i, b + (k32 k (i + 4) AND 0xffffff), c)
     else if len = 6 then (a + k32 k i, b + (k32 k (i + 4) AND 0xffff), c)
     else if len = 5 then (a + k32 k i, b + (k32 k (i + 4) AND 0xff), c)
     else if len = 4 then (a + k32 k i, b, c)
     else if len = 3 then (a + (k32 k i AND 0xffffff), b, c)
     else if len = 2 then (a + (k32 k i AND 0xffff), b, c)
     else if len = 1 then (a + (k32 k i AND 0xff), b, c)
     else (a, b, c))"

text \<open>\<dots> by 16-bit words, \<dots>\<close>

definition pair16 :: "hkey \<Rightarrow> nat \<Rightarrow> u32" where
  "pair16 k i = ucast (k16 k i) + push_bit 16 (ucast (k16 k (i + 2)))"

definition blk16 :: "hkey \<Rightarrow> nat \<Rightarrow> abc \<Rightarrow> abc" where
  "blk16 k i s = (case s of (a, b, c) \<Rightarrow>
     (a + pair16 k i, b + pair16 k (i + 4), c + pair16 k (i + 8)))"

definition tail16 :: "hkey \<Rightarrow> nat \<Rightarrow> nat \<Rightarrow> abc \<Rightarrow> abc" where
  "tail16 k i len s = (case s of (a, b, c) \<Rightarrow>
     if len = 12 then (a + pair16 k i, b + pair16 k (i + 4), c + pair16 k (i + 8))
     else if len = 11 then
       (a + pair16 k i, b + pair16 k (i + 4),
        c + push_bit 16 (ucast (k8 k (i + 10))) + ucast (k16 k (i + 8)))
     else if len = 10 then (a + pair16 k i, b + pair16 k (i + 4), c + ucast (k16 k (i + 8)))
     else if len = 9 then (a + pair16 k i, b + pair16 k (i + 4), c + ucast (k8 k (i + 8)))
     else if len = 8 then (a + pair16 k i, b + pair16 k (i + 4), c)
     else if len = 7 then
       (a + pair16 k i, b + push_bit 16 (ucast (k8 k (i + 6))) + ucast (k16 k (i + 4)), c)
     else if len = 6 then (a + pair16 k i, b + ucast (k16 k (i + 4)), c)
     else if len = 5 then (a + pair16 k i, b + ucast (k8 k (i + 4)), c)
     else if len = 4 then (a + pair16 k i, b, c)
     else if len = 3 then (a + push_bit 16 (ucast (k8 k (i + 2))) + ucast (k16 k i), b, c)
     else if len = 2 then (a + ucast (k16 k i), b, c)
     else if len = 1 then (a + ucast (k8 k i), b, c)
     else (a, b, c))"

text \<open>\<dots> and byte by byte, where the cases of the switch fall through.\<close>

definition blk8 :: "hkey \<Rightarrow> nat \<Rightarrow> abc \<Rightarrow> abc" where
  "blk8 k i s = (case s of (a, b, c) \<Rightarrow>
     (a + ucast (k8 k i) + push_bit 8 (ucast (k8 k (i + 1))) + push_bit 16 (ucast (k8 k (i + 2)))
        + push_bit 24 (ucast (k8 k (i + 3))),
      b + ucast (k8 k (i + 4)) + push_bit 8 (ucast (k8 k (i + 5))) + push_bit 16 (ucast (k8 k (i + 6)))
        + push_bit 24 (ucast (k8 k (i + 7))),
      c + ucast (k8 k (i + 8)) + push_bit 8 (ucast (k8 k (i + 9))) + push_bit 16 (ucast (k8 k (i + 10)))
        + push_bit 24 (ucast (k8 k (i + 11)))))"

definition tail8 :: "hkey \<Rightarrow> nat \<Rightarrow> nat \<Rightarrow> abc \<Rightarrow> abc" where
  "tail8 k i len s = (case s of (a, b, c) \<Rightarrow>
     let c = (if 12 \<le> len then c + push_bit 24 (ucast (k8 k (i + 11))) else c);
         c = (if 11 \<le> len then c + push_bit 16 (ucast (k8 k (i + 10))) else c);
         c = (if 10 \<le> len then c + push_bit 8 (ucast (k8 k (i + 9))) else c);
         c = (if 9 \<le> len then c + ucast (k8 k (i + 8)) else c);
         b = (if 8 \<le> len then b + push_bit 24 (ucast (k8 k (i + 7))) else b);
         b = (if 7 \<le> len then b + push_bit 16 (ucast (k8 k (i + 6))) else b);
         b = (if 6 \<le> len then b + push_bit 8 (ucast (k8 k (i + 5))) else b);
         b = (if 5 \<le> len then b + ucast (k8 k (i + 4)) else b);
         a = (if 4 \<le> len then a + push_bit 24 (ucast (k8 k (i + 3))) else a);
         a = (if 3 \<le> len then a + push_bit 16 (ucast (k8 k (i + 2))) else a);
         a = (if 2 \<le> len then a + push_bit 8 (ucast (k8 k (i + 1))) else a);
         a = (if 1 \<le> len then a + ucast (k8 k i) else a) in (a, b, c))"

definition arb_run ::
  "(nat \<Rightarrow> abc \<Rightarrow> abc) \<Rightarrow> (nat \<Rightarrow> nat \<Rightarrow> abc \<Rightarrow> abc) \<Rightarrow> nat \<Rightarrow> u32 \<Rightarrow> u32" where
  "arb_run blk last_blk keylen initval =
     (let s = 0xdeadbeef + of_nat keylen + initval;
          (i, len, (a, b, c)) = arb_loop blk 0 keylen (s, s, s) in
      if len = 0 then c
      else let (a, b, c) = final_mix (last_blk i len (a, b, c)) in c)"

definition ks_hash_default_arbitrary :: "hkey \<Rightarrow> nat \<Rightarrow> u32 \<Rightarrow> u32" where
  "ks_hash_default_arbitrary key keylen initval =
     (if kptr key AND 3 = 0 then arb_run (blk32 key) (tail32 key) keylen initval
      else if kptr key AND 1 = 0 then arb_run (blk16 key) (tail16 key) keylen initval
      else arb_run (blk8 key) (tail8 key) keylen initval)"

section \<open>The three readings agree\<close>

lemma uint_byte: "0 \<le> uint (b :: byte)" "uint b < 256"
  using uint_bounded [of b] by simp_all

lemma ucast_byte: "(ucast (b :: byte) :: u32) = word_of_int (uint b)"
  by simp

lemma push_of_int: "push_bit n (word_of_int v :: u32) = word_of_int (v * 2 ^ n)"
  by (simp add: push_bit_eq_mult)

lemma k32_val: "k32 k i = word_of_int (uint (k8 k i) + uint (k8 k (i + 1)) * 2 ^ 8 +
    uint (k8 k (i + 2)) * 2 ^ 16 + uint (k8 k (i + 3)) * 2 ^ 24)"
  by (simp add: k32_def le_val_simps algebra_simps)

lemma k16_val: "(ucast (k16 k i) :: u32) = word_of_int (uint (k8 k i) + uint (k8 k (i + 1)) * 2 ^ 8)"
proof -
  let ?v = "uint (k8 k i) + uint (k8 k (i + 1)) * 2 ^ 8"
  have "0 \<le> ?v" "?v < 2 ^ 16" using uint_byte [of "k8 k i"] uint_byte [of "k8 k (i + 1)"] by simp_all
  then have "uint (word_of_int ?v :: u16) = ?v"
    unfolding uint_word_of_int_eq by (subst take_bit_int_eq_self) simp_all
  moreover have "k16 k i = word_of_int ?v" by (simp add: k16_def le_val_simps algebra_simps)
  ultimately show ?thesis by (metis ucast_eq)
qed

lemma word_and_mask: "(word_of_int v :: u32) AND mask n = word_of_int (take_bit n v)" if "n \<le> 32"
  using that by (auto intro!: bit_word_eqI simp: bit_simps)

lemma masks: "(0xff :: u32) = mask 8" "(0xffff :: u32) = mask 16" "(0xffffff :: u32) = mask 24"
  by (simp_all add: mask_eq_exp_minus_1)

lemma take_bit_bytes:
  fixes a b c d :: byte
  shows "take_bit 24 (uint a + uint b * 2 ^ 8 + uint c * 2 ^ 16 + uint d * 2 ^ 24) =
           uint a + uint b * 2 ^ 8 + uint c * 2 ^ 16"
    and "take_bit 16 (uint a + uint b * 2 ^ 8 + uint c * 2 ^ 16 + uint d * 2 ^ 24) =
           uint a + uint b * 2 ^ 8"
    and "take_bit 8 (uint a + uint b * 2 ^ 8 + uint c * 2 ^ 16 + uint d * 2 ^ 24) = uint a"
proof -
  note r = uint_byte [of a] uint_byte [of b] uint_byte [of c]
  have m: "(x + y * m) mod m = x" if "0 \<le> x" "x < m" for x y m :: int
    using that by simp
  show "take_bit 24 (uint a + uint b * 2 ^ 8 + uint c * 2 ^ 16 + uint d * 2 ^ 24) =
      uint a + uint b * 2 ^ 8 + uint c * 2 ^ 16"
    unfolding take_bit_eq_mod by (rule m) (use r in simp_all)
  have "take_bit 16 (uint a + uint b * 2 ^ 8 + (uint c + uint d * 2 ^ 8) * 2 ^ 16) =
      uint a + uint b * 2 ^ 8"
    unfolding take_bit_eq_mod by (rule m) (use r in simp_all)
  then show "take_bit 16 (uint a + uint b * 2 ^ 8 + uint c * 2 ^ 16 + uint d * 2 ^ 24) =
      uint a + uint b * 2 ^ 8" by (simp add: algebra_simps)
  have "take_bit 8 (uint a + (uint b + uint c * 2 ^ 8 + uint d * 2 ^ 16) * 2 ^ 8) = uint a"
    unfolding take_bit_eq_mod by (rule m) (use r in simp_all)
  then show "take_bit 8 (uint a + uint b * 2 ^ 8 + uint c * 2 ^ 16 + uint d * 2 ^ 24) = uint a"
    by (simp add: algebra_simps)
qed

lemma k32_masked:
  "k32 k i AND 0xffffff = word_of_int (uint (k8 k i) + uint (k8 k (i + 1)) * 2 ^ 8 +
     uint (k8 k (i + 2)) * 2 ^ 16)"
  "k32 k i AND 0xffff = word_of_int (uint (k8 k i) + uint (k8 k (i + 1)) * 2 ^ 8)"
  "k32 k i AND 0xff = word_of_int (uint (k8 k i))"
  unfolding k32_val masks
  by (subst word_and_mask, simp, subst take_bit_bytes, rule refl)+

text \<open>The words as sums of shifted bytes.\<close>

lemma k32_bytes: "k32 k i = ucast (k8 k i) + (push_bit 8 (ucast (k8 k (i + 1))) +
    (push_bit 16 (ucast (k8 k (i + 2))) + push_bit 24 (ucast (k8 k (i + 3)))))"
  by (simp only: k32_val push_of_int ucast_byte of_int_add add.assoc)

lemma k32_masked_bytes:
  "k32 k i AND 0xffffff = ucast (k8 k i) + (push_bit 8 (ucast (k8 k (i + 1))) +
     push_bit 16 (ucast (k8 k (i + 2))))"
  "k32 k i AND 0xffff = ucast (k8 k i) + push_bit 8 (ucast (k8 k (i + 1)))"
  "k32 k i AND 0xff = ucast (k8 k i)"
  by (simp_all only: k32_masked push_of_int ucast_byte of_int_add add.assoc)

lemma k16_bytes: "(ucast (k16 k i) :: u32) = ucast (k8 k i) + push_bit 8 (ucast (k8 k (i + 1)))"
  by (simp only: k16_val push_of_int ucast_byte of_int_add)

lemma offsets: "i + 2 + 1 = i + (3 :: nat)" "i + 4 + 1 = i + (5 :: nat)" "i + 4 + 2 = i + (6 :: nat)" "i + 4 + 3 = i + (7 :: nat)"
  "i + 8 + 1 = i + (9 :: nat)" "i + 8 + 2 = i + (10 :: nat)" "i + 8 + 3 = i + (11 :: nat)"
  by simp_all

lemma pair16_bytes: "pair16 k i = ucast (k8 k i) + (push_bit 8 (ucast (k8 k (i + 1))) +
    (push_bit 16 (ucast (k8 k (i + 2))) + push_bit 24 (ucast (k8 k (i + 3)))))"
  by (simp add: pair16_def k16_bytes push_bit_add add.assoc [where 'a = u32] numeral_3_eq_3)

text \<open>Rearranging sums of words only, so that offsets keep their shape.\<close>

lemmas word_ac = add.assoc [where 'a = u32] add.commute [where 'a = u32]
  add.left_commute [where 'a = u32]

lemma blk32_blk8: "blk32 k = blk8 k"
  by (intro ext) (simp only: blk32_def blk8_def k32_bytes offsets word_ac)

lemma blk16_blk8: "blk16 k = blk8 k"
  by (intro ext) (simp only: blk16_def blk8_def pair16_bytes offsets word_ac)

lemma len_cases:
  assumes "len \<le> 12"
  obtains "len = 0" | "len = 1" | "len = 2" | "len = 3" | "len = 4" | "len = 5" | "len = 6"
    | "len = (7 :: nat)" | "len = 8" | "len = 9" | "len = 10" | "len = 11" | "len = 12"
proof -
  have "len = 0 \<or> len = 1 \<or> len = 2 \<or> len = 3 \<or> len = 4 \<or> len = 5 \<or> len = 6 \<or> len = 7 \<or> len = 8 \<or>
    len = 9 \<or> len = 10 \<or> len = 11 \<or> len = 12" using assms by presburger
  with that show ?thesis by blast
qed

lemma tail32_tail8: "len \<le> 12 \<Longrightarrow> tail32 k i len s = tail8 k i len s"
  by (cases s, erule len_cases; simp only: tail32_def k32_masked_bytes;
      simp only: tail8_def k32_bytes offsets word_ac Let_def prod.case; simp)

lemma tail16_tail8: "len \<le> 12 \<Longrightarrow> tail16 k i len s = tail8 k i len s"
  by (cases s, erule len_cases; simp only: tail16_def tail8_def pair16_bytes k16_bytes offsets word_ac Let_def prod.case; simp)

lemma arb_loop_last: "arb_loop blk off len s = (i, n, s') \<Longrightarrow> n \<le> 12"
proof (induction blk off len s rule: arb_loop.induct)
  case (1 blk off len s)
  then show ?case by (simp add: arb_loop.simps [of blk off len] split: if_splits)
qed

lemma arb_run_cong:
  assumes "blk = blk'" and "\<And>i n s. n \<le> 12 \<Longrightarrow> last_blk i n s = last_blk' i n s"
  shows "arb_run blk last_blk n init = arb_run blk' last_blk' n init"
  using assms by (auto simp: arb_run_def Let_def dest: arb_loop_last split: prod.split)

lemma ks_hash_default_arbitrary_bytes:
  "ks_hash_default_arbitrary k n init = arb_run (blk8 k) (tail8 k) n init"
  by (simp add: ks_hash_default_arbitrary_def arb_run_cong [OF blk32_blk8 tail32_tail8]
      arb_run_cong [OF blk16_blk8 tail16_tail8])

text \<open>The byte-wise reading looks at the first \<open>n\<close> bytes only.\<close>

definition same_bytes :: "hkey \<Rightarrow> hkey \<Rightarrow> nat \<Rightarrow> bool" where
  "same_bytes k k' n = (\<forall>i<n. k8 k i = k8 k' i)"

lemma arb_loop_same:
  assumes "same_bytes k k' (off + len)"
  shows "arb_loop (blk8 k) off len s = arb_loop (blk8 k') off len s"
  using assms
proof (induction "blk8 k" off len s rule: arb_loop.induct)
  case (1 off len s)
  show ?case
  proof (cases "12 < len")
    case True
    with 1(2) have "blk8 k off s = blk8 k' off s"
      by (simp add: blk8_def same_bytes_def split: prod.split)
    with 1 True show ?thesis by (simp add: arb_loop.simps [of _ off len])
  qed (simp add: arb_loop.simps [of _ off len])
qed

lemma arb_loop_extent: "arb_loop blk off len s = (i, n, s') \<Longrightarrow> i + n = off + len"
proof (induction blk off len s rule: arb_loop.induct)
  case (1 blk off len s)
  then show ?case by (simp add: arb_loop.simps [of blk off len] split: if_splits)
qed

lemma tail8_same: "same_bytes k k' (i + len) \<Longrightarrow> tail8 k i len s = tail8 k' i len s"
  by (simp add: tail8_def same_bytes_def Let_def split: prod.split)

lemma ks_hash_default_arbitrary_same:
  assumes "same_bytes k k' n"
  shows "ks_hash_default_arbitrary k n init = ks_hash_default_arbitrary k' n init"
proof -
  have "arb_loop (blk8 k) 0 n s = arb_loop (blk8 k') 0 n s" for s
    using assms by (intro arb_loop_same) simp
  moreover have "tail8 k i m s = tail8 k' i m s" if "arb_loop (blk8 k') 0 n s' = (i, m, s)" for i m s s'
    using arb_loop_extent [OF that] assms by (intro tail8_same) simp
  ultimately show ?thesis
    unfolding ks_hash_default_arbitrary_bytes arb_run_def Let_def by (auto split: prod.split)
qed

end
