(* ===== verification/Ks_Hash.thy ===== *)
theory Ks_Hash
  imports Ks_Hash_Fn Ks_Types
begin

text \<open>
  \<open>ks_hash.c\<close>: the chained hash table. A bucket is the list of the entries its chain links, each
  entry carries its address, and the next pointer of an entry is its successor in its bucket. A
  value is a \<open>void *\<close> with \<^const>\<open>None\<close> for NULL; destructors and the callbacks of the pool are
  numbered. Locking, frees and destructor calls are recorded as events.

  \<^const>\<open>None\<close> as the result of an operation is a fault: a failed \<open>ks_assert\<close>, a read outside a key,
  the use of a lock that does not exist or of a freed entry.
\<close>

section \<open>State\<close>

datatype ks_hash_mode =
    KS_HASH_MODE_DEFAULT | KS_HASH_MODE_CASE_SENSITIVE | KS_HASH_MODE_CASE_INSENSITIVE
  | KS_HASH_MODE_INT | KS_HASH_MODE_INT64 | KS_HASH_MODE_UUID | KS_HASH_MODE_PTR
  | KS_HASH_MODE_ARBITRARY

datatype ks_locked = KS_UNLOCKED | KS_READLOCKED

definition KS_HASH_FLAG_MUTEX :: u32 where "KS_HASH_FLAG_MUTEX = 1"
definition KS_HASH_FLAG_FREE_KEY :: u32 where "KS_HASH_FLAG_FREE_KEY = 2"
definition KS_HASH_FLAG_FREE_VALUE :: u32 where "KS_HASH_FLAG_FREE_VALUE = 4"
definition KS_HASH_FLAG_RWLOCK :: u32 where "KS_HASH_FLAG_RWLOCK = 8"
definition KS_HASH_FLAG_DUP_CHECK :: u32 where "KS_HASH_FLAG_DUP_CHECK = 16"
definition KS_HASH_FLAG_NOLOCK :: u32 where "KS_HASH_FLAG_NOLOCK = 32"

definition has_flag :: "u32 \<Rightarrow> u32 \<Rightarrow> bool" where
  "has_flag flags f = (flags AND f \<noteq> 0)"

text \<open>The function pointers \<open>hashfn\<close> and \<open>eqfn\<close>: a function of the library or of the caller.\<close>

datatype hash_fn =
    Hash_default | Hash_ci | Hash_int | Hash_int64 | Hash_uuid | Hash_ptr | Hash_fn "hkey \<Rightarrow> u32 option"

datatype eq_fn =
    Eq_default | Eq_int | Eq_int64 | Eq_uuid | Eq_ptr | Eq_fn "hkey \<Rightarrow> hkey \<Rightarrow> bool option"

datatype 'v hash_event =
    Rwl_create | Mutex_create
  | Rwl_write_lock | Rwl_write_unlock | Rwl_read_lock | Rwl_read_unlock | Mutex_lock | Mutex_unlock
  | Free_key hkey | Free_value "'v option" | Destructor nat "'v option" | Free_entry nat
  | Free_table | Free_rwl | Free_mutex | Free_hash | Free_iterator

record 'v entry =
  eaddr :: nat
  ek :: hkey
  ev :: "'v option"
  eh :: u32
  eflags :: u32
  edestructor :: "nat option"

record 'v ks_hash =
  tablelength :: nat
  htable :: "'v entry list list"
  entrycount :: nat
  loadlimit :: nat
  primeindex :: nat
  hashfn :: hash_fn
  eqfn :: eq_fn
  hflags :: u32
  hdestructor :: "nat option"
  has_rwl :: bool
  has_mutex :: bool
  readers :: u32
  keysize :: nat
  hmode :: ks_hash_mode
  hbrk :: nat
  hevents :: "'v hash_event list"

definition h_emit :: "'v hash_event list \<Rightarrow> 'v ks_hash \<Rightarrow> 'v ks_hash" where
  "h_emit es h = h\<lparr>hevents := hevents h @ es\<rparr>"

section \<open>Hash values\<close>

text \<open>The variable \<open>k\<close> itself, as the block of its eight bytes: the argument \<open>&k\<close>.\<close>

definition addr_of_key :: "hkey \<Rightarrow> hkey" where
  "addr_of_key k = k\<lparr>kmem := le_bytes 8 (kptr k)\<rparr>"

definition call_hashfn :: "hash_fn \<Rightarrow> hkey \<Rightarrow> u32 option" where
  "call_hashfn f k =
     (case f of
        Hash_default \<Rightarrow> ks_hash_default (kmem k)
      | Hash_ci \<Rightarrow> ks_hash_default_ci (kmem k)
      | Hash_int \<Rightarrow> ks_hash_default_int (kmem k)
      | Hash_int64 \<Rightarrow> ks_hash_default_int64 (kmem k)
      | Hash_uuid \<Rightarrow> ks_hash_default_uuid (kmem k)
      | Hash_ptr \<Rightarrow> ks_hash_default_ptr (kmem k)
      | Hash_fn g \<Rightarrow> g k)"

definition call_eqfn :: "eq_fn \<Rightarrow> hkey \<Rightarrow> hkey \<Rightarrow> bool option" where
  "call_eqfn f k1 k2 =
     (case f of
        Eq_default \<Rightarrow> ks_hash_equalkeys (kmem k1) (kmem k2)
      | Eq_int \<Rightarrow> ks_hash_equalkeys_int (kmem k1) (kmem k2)
      | Eq_int64 \<Rightarrow> ks_hash_equalkeys_int64 (kmem k1) (kmem k2)
      | Eq_uuid \<Rightarrow> ks_hash_equalkeys_uuid (kmem k1) (kmem k2)
      | Eq_ptr \<Rightarrow> ks_hash_equalkeys_ptr (kmem k1) (kmem k2)
      | Eq_fn g \<Rightarrow> g k1 k2)"

definition hash_spread :: "u32 \<Rightarrow> u32" where
  "hash_spread i =
     (let i = i + NOT (push_bit 9 i);
          i = i XOR (drop_bit 14 i OR push_bit 18 i);
          i = i + push_bit 4 i in
      i XOR (drop_bit 10 i OR push_bit 22 i))"

definition hash :: "'v ks_hash \<Rightarrow> hkey \<Rightarrow> u32 option" where
  "hash h k =
     map_option hash_spread
       (case hmode h of
          KS_HASH_MODE_ARBITRARY \<Rightarrow>
            if keysize h \<le> length (kmem k)
            then Some (ks_hash_default_arbitrary k (keysize h) 13) else None
        | KS_HASH_MODE_INT \<Rightarrow> call_hashfn (hashfn h) (addr_of_key k)
        | KS_HASH_MODE_INT64 \<Rightarrow> call_hashfn (hashfn h) (addr_of_key k)
        | KS_HASH_MODE_PTR \<Rightarrow> call_hashfn (hashfn h) (addr_of_key k)
        | _ \<Rightarrow> call_hashfn (hashfn h) k)"

definition key_equals :: "'v ks_hash \<Rightarrow> hkey \<Rightarrow> hkey \<Rightarrow> bool option" where
  "key_equals h k1 k2 =
     (case hmode h of
        KS_HASH_MODE_ARBITRARY \<Rightarrow> memcmp_eq (kmem k1) (kmem k2) (keysize h)
      | KS_HASH_MODE_INT \<Rightarrow> call_eqfn (eqfn h) (addr_of_key k1) (addr_of_key k2)
      | KS_HASH_MODE_INT64 \<Rightarrow> call_eqfn (eqfn h) (addr_of_key k1) (addr_of_key k2)
      | KS_HASH_MODE_PTR \<Rightarrow> call_eqfn (eqfn h) (addr_of_key k1) (addr_of_key k2)
      | _ \<Rightarrow> call_eqfn (eqfn h) k1 k2)"

definition indexFor :: "nat \<Rightarrow> u32 \<Rightarrow> nat" where
  "indexFor tablelen hashvalue = unat hashvalue mod tablelen"

definition primes :: "nat list" where
  "primes =
    [53, 97, 193, 389, 769, 1543, 3079, 6151, 12289, 24593, 49157, 98317, 196613, 393241, 786433,
     1572869, 3145739, 6291469, 12582917, 25165843, 50331653, 100663319, 201326611, 402653189,
     805306457, 1610612741]"

text \<open>
  \<open>ceil(size * max_load_factor)\<close> in single precision: \<open>0.65f\<close> is \<open>10905190 / 2^24\<close>, the size is
  converted to \<open>float\<close> and the product rounded to \<open>float\<close>, both to 24 bits, ties to even. The values
  are scaled by \<open>2^24\<close>.
\<close>

function round24 :: "nat \<Rightarrow> nat \<Rightarrow> nat" where
  "round24 e m =
     (if m < 2 ^ 24 * 2 ^ e then
        (let q = m div 2 ^ e; r = m mod 2 ^ e in
         if 2 * r < 2 ^ e \<or> (2 * r = 2 ^ e \<and> even q) then q * 2 ^ e else (q + 1) * 2 ^ e)
      else round24 (Suc e) m)"
  by pat_completeness auto
termination
proof (relation "measure (\<lambda>(e, m). m - e)", goal_cases)
  case (2 e m)
  have "e < 2 ^ e" by (rule less_exp)
  moreover from 2 have "2 ^ e \<le> m" by simp
  ultimately have "e < m" by (rule less_le_trans)
  then show ?case by simp
qed simp

declare round24.simps [simp del]

definition float32 :: "nat \<Rightarrow> nat" where
  "float32 m = (if m < 2 ^ 24 then m else round24 0 m)"

definition load_limit :: "nat \<Rightarrow> nat" where
  "load_limit n = (float32 (float32 n * 10905190) + 2 ^ 24 - 1) div 2 ^ 24"

section \<open>Creation\<close>

fun first_prime :: "nat \<Rightarrow> nat \<Rightarrow> nat list \<Rightarrow> nat \<times> nat" where
  "first_prime minsize i [] = (i, 53)"
| "first_prime minsize i (p # ps) = (if minsize < p then (i, p) else first_prime minsize (Suc i) ps)"

definition mode_fns ::
  "ks_hash_mode \<Rightarrow> hash_fn option \<Rightarrow> eq_fn option \<Rightarrow> (hash_fn option \<times> eq_fn option \<times> nat) option" where
  "mode_fns mode hashf eqf =
     (case mode of
        KS_HASH_MODE_CASE_INSENSITIVE \<Rightarrow> if hashf = None then Some (Some Hash_ci, eqf, 0) else None
      | KS_HASH_MODE_INT \<Rightarrow>
          if hashf = None \<and> eqf = None then Some (Some Hash_int, Some Eq_int, 4) else None
      | KS_HASH_MODE_INT64 \<Rightarrow>
          if hashf = None \<and> eqf = None then Some (Some Hash_int64, Some Eq_int64, 8) else None
      | KS_HASH_MODE_UUID \<Rightarrow>
          if hashf = None \<and> eqf = None then Some (Some Hash_uuid, Some Eq_uuid, 16) else None
      | KS_HASH_MODE_PTR \<Rightarrow>
          if hashf = None \<and> eqf = None then Some (Some Hash_ptr, Some Eq_ptr, 8) else None
      | KS_HASH_MODE_ARBITRARY \<Rightarrow> Some (hashf, eqf, 8)
      | _ \<Rightarrow> Some (hashf, eqf, 0))"

definition ks_hash_create_ex ::
  "nat \<Rightarrow> hash_fn option \<Rightarrow> eq_fn option \<Rightarrow> ks_hash_mode \<Rightarrow> u32 \<Rightarrow> nat option \<Rightarrow>
   (ks_status \<times> 'v ks_hash option) option" where
  "ks_hash_create_ex minsize hashf eqf mode flags destructor =
     (case mode_fns mode hashf eqf of
        None \<Rightarrow> None
      | Some (hashf, eqf, ksize) \<Rightarrow>
          let flags = (if has_flag flags KS_HASH_FLAG_NOLOCK
                       then flags AND NOT KS_HASH_FLAG_RWLOCK else flags);
              hashf = (case hashf of None \<Rightarrow> Hash_default | Some f \<Rightarrow> f);
              eqf = (case eqf of None \<Rightarrow> Eq_default | Some f \<Rightarrow> f);
              minsize = (if minsize = 0 then 16 else minsize) in
          if 2 ^ 30 < minsize then Some (KS_STATUS_FAIL, None)
          else
            let (pindex, tsize) = first_prime minsize 0 primes;
                rwl = has_flag flags KS_HASH_FLAG_RWLOCK;
                mtx = (\<not> has_flag flags KS_HASH_FLAG_NOLOCK) in
            Some (KS_STATUS_SUCCESS, Some
              \<lparr>tablelength = tsize, htable = replicate tsize [], entrycount = 0,
               loadlimit = load_limit tsize, primeindex = pindex, hashfn = hashf, eqfn = eqf,
               hflags = flags, hdestructor = destructor, has_rwl = rwl, has_mutex = mtx,
               readers = 0, keysize = ksize, hmode = mode, hbrk = 0,
               hevents = (if rwl then [Rwl_create] else []) @ (if mtx then [Mutex_create] else [])\<rparr>))"

definition ks_hash_create :: "ks_hash_mode \<Rightarrow> u32 \<Rightarrow> (ks_status \<times> 'v ks_hash option) option" where
  "ks_hash_create mode flags = ks_hash_create_ex 16 None None mode flags None"

definition ks_hash_set_flags :: "'v ks_hash \<Rightarrow> u32 \<Rightarrow> 'v ks_hash" where
  "ks_hash_set_flags h flags = h\<lparr>hflags := flags\<rparr>"

definition ks_hash_set_keysize :: "'v ks_hash \<Rightarrow> nat \<Rightarrow> 'v ks_hash" where
  "ks_hash_set_keysize h n = h\<lparr>keysize := n\<rparr>"

definition ks_hash_set_destructor :: "'v ks_hash \<Rightarrow> nat option \<Rightarrow> 'v ks_hash" where
  "ks_hash_set_destructor h d = h\<lparr>hdestructor := d\<rparr>"

definition ks_hash_count :: "'v ks_hash \<Rightarrow> nat" where
  "ks_hash_count h = entrycount h"

section \<open>Locks\<close>

definition use_rwl :: "'v hash_event \<Rightarrow> 'v ks_hash \<Rightarrow> 'v ks_hash option" where
  "use_rwl e h = (if has_rwl h then Some (h_emit [e] h) else None)"

definition use_mutex :: "'v hash_event \<Rightarrow> 'v ks_hash \<Rightarrow> 'v ks_hash option" where
  "use_mutex e h = (if has_mutex h then Some (h_emit [e] h) else None)"

definition ks_hash_write_lock :: "'v ks_hash \<Rightarrow> 'v ks_hash option" where
  "ks_hash_write_lock h =
     (if has_flag (hflags h) KS_HASH_FLAG_NOLOCK then Some h
      else if has_flag (hflags h) KS_HASH_FLAG_RWLOCK then use_rwl Rwl_write_lock h
      else use_mutex Mutex_lock h)"

definition ks_hash_write_unlock :: "'v ks_hash \<Rightarrow> 'v ks_hash option" where
  "ks_hash_write_unlock h =
     (if has_flag (hflags h) KS_HASH_FLAG_NOLOCK then Some h
      else if has_flag (hflags h) KS_HASH_FLAG_RWLOCK then use_rwl Rwl_write_unlock h
      else use_mutex Mutex_unlock h)"

text \<open>The reader count, kept under the mutex.\<close>

definition add_reader :: "'v ks_hash \<Rightarrow> 'v ks_hash option" where
  "add_reader h =
     do { h \<leftarrow> use_rwl Rwl_read_lock h; h \<leftarrow> use_mutex Mutex_lock h;
          use_mutex Mutex_unlock (h\<lparr>readers := readers h + 1\<rparr>) }"

definition ks_hash_read_lock :: "'v ks_hash \<Rightarrow> (ks_status \<times> 'v ks_hash) option" where
  "ks_hash_read_lock h =
     (if \<not> has_flag (hflags h) KS_HASH_FLAG_RWLOCK then Some (KS_STATUS_INACTIVE, h)
      else do { h \<leftarrow> add_reader h; Some (KS_STATUS_SUCCESS, h) })"

definition ks_hash_read_unlock :: "'v ks_hash \<Rightarrow> (ks_status \<times> 'v ks_hash) option" where
  "ks_hash_read_unlock h =
     (if \<not> has_flag (hflags h) KS_HASH_FLAG_RWLOCK then Some (KS_STATUS_INACTIVE, h)
      else do { h \<leftarrow> use_mutex Mutex_lock h;
                h \<leftarrow> (if readers h = 0 then None else Some (h\<lparr>readers := readers h - 1\<rparr>));
                h \<leftarrow> use_mutex Mutex_unlock h;
                h \<leftarrow> use_rwl Rwl_read_unlock h;
                Some (KS_STATUS_SUCCESS, h) })"

section \<open>Insertion, search and removal\<close>

text \<open>
  What happens to the key and the value of a dropped entry. The table owns what its flags let it free: the
  key pointer stored by the insertion goes back to the pool it came from, and so does the entry. The events
  name these blocks; a caller that keeps one of the pointers (the key it inserted, or one from an
  iterator) must not use it behind the event, which is its duty and not a state of the table. Nothing
  here reads a key or an entry behind its event.
\<close>

definition drop_entry :: "nat option \<Rightarrow> 'v entry \<Rightarrow> 'v option \<times> 'v hash_event list" where
  "drop_entry hdes e =
     (let k = (if has_flag (eflags e) KS_HASH_FLAG_FREE_KEY then [Free_key (ek e)] else []) in
      if has_flag (eflags e) KS_HASH_FLAG_FREE_VALUE then
        (None, k @ [Free_value (ev e), Free_entry (eaddr e)])
      else case edestructor e of
        Some d \<Rightarrow> (None, k @ [Destructor d (ev e), Free_entry (eaddr e)])
      | None \<Rightarrow>
          (case hdes of
             Some d \<Rightarrow> (None, k @ [Destructor d (ev e), Free_entry (eaddr e)])
           | None \<Rightarrow> (ev e, k @ [Free_entry (eaddr e)])))"

text \<open>Walk down a chain to the first entry with the same hash value and an equal key.\<close>

definition entry_matches :: "'v ks_hash \<Rightarrow> hkey \<Rightarrow> u32 \<Rightarrow> 'v entry \<Rightarrow> bool option" where
  "entry_matches h k hashvalue e =
     (if hashvalue = eh e then key_equals h k (ek e) else Some False)"

fun split_chain ::
  "'v ks_hash \<Rightarrow> hkey \<Rightarrow> u32 \<Rightarrow> 'v entry list \<Rightarrow>
   ('v entry list \<times> ('v entry \<times> 'v entry list) option) option" where
  "split_chain h k hv [] = Some ([], None)"
| "split_chain h k hv (e # es) =
     do { m \<leftarrow> entry_matches h k hv e;
          if m then Some ([], Some (e, es))
          else do { (pre, r) \<leftarrow> split_chain h k hv es; Some (e # pre, r) } }"

definition hash_remove_at ::
  "'v ks_hash \<Rightarrow> hkey \<Rightarrow> u32 \<Rightarrow> nat \<Rightarrow> ('v option \<times> 'v ks_hash) option" where
  "hash_remove_at h k hashvalue index =
     do { es \<leftarrow> mem_rd (htable h) index;
          (pre, r) \<leftarrow> split_chain h k hashvalue es;
          Some (case r of
                  None \<Rightarrow> (None, h)
                | Some (e, post) \<Rightarrow>
                    let (v, evs) = drop_entry (hdestructor h) e in
                    (v, h_emit evs (h\<lparr>htable := (htable h)[index := pre @ post],
                                      entrycount := (entrycount h + 2 ^ 32 - 1) mod 2 ^ 32\<rparr>))) }"

text \<open>
  Growing the table. Every entry is taken from the front of its chain and put in front of its new
  chain. \<open>table_ok\<close> and \<open>resize_ok\<close> say whether the two allocations succeed; the fallback writes
  through an uninitialised pointer when it gets its memory.
\<close>

record hash_env =
  table_ok :: bool
  resize_ok :: bool

definition move_entry :: "nat \<Rightarrow> 'v entry \<Rightarrow> 'v entry list list \<Rightarrow> 'v entry list list" where
  "move_entry newsize e t = (let i = indexFor newsize (eh e) in t[i := e # (t ! i)])"

definition rehash :: "nat \<Rightarrow> 'v entry list list \<Rightarrow> 'v entry list list" where
  "rehash newsize t = fold (fold (move_entry newsize)) t (replicate newsize [])"

definition ks_hash_expand :: "hash_env \<Rightarrow> 'v ks_hash \<Rightarrow> (bool \<times> 'v ks_hash) option" where
  "ks_hash_expand env h =
     (if primeindex h = length primes - 1 then Some (False, h)
      else
        do { newsize \<leftarrow> mem_rd primes (primeindex h + 1);
             if table_ok env then
               Some (True, h_emit [Free_table]
                 (h\<lparr>primeindex := primeindex h + 1, htable := rehash newsize (htable h),
                    tablelength := newsize, loadlimit := load_limit newsize\<rparr>))
             else if resize_ok env then None
             else Some (False, h) })"

text \<open>
  \<open>ks_hash_insert_ex\<close> computes the hash value and the index before it takes the write lock; the
  part from the lock on is a definition of its own.
\<close>

definition insert_locked ::
  "hash_env \<Rightarrow> 'v ks_hash \<Rightarrow> hkey \<Rightarrow> 'v option \<Rightarrow> u32 \<Rightarrow> nat option \<Rightarrow> u32 \<Rightarrow> nat \<Rightarrow>
   (ks_status \<times> 'v ks_hash) option" where
  "insert_locked env h k v flags destructor hashvalue index =
     do { h \<leftarrow> ks_hash_write_lock h;
          let flags = (if flags = 0 then hflags h else flags);
          h \<leftarrow> (if has_flag flags KS_HASH_FLAG_DUP_CHECK
                then map_option snd (hash_remove_at h k hashvalue index) else Some h);
          let h = h\<lparr>entrycount := (entrycount h + 1) mod 2 ^ 32\<rparr>;
          (h, index) \<leftarrow>
            (if loadlimit h < entrycount h
             then do { (r, h) \<leftarrow> ks_hash_expand env h; Some (h, indexFor (tablelength h) hashvalue) }
             else Some (h, index));
          let e = \<lparr>eaddr = hbrk h, ek = k, ev = v, eh = hashvalue, eflags = flags,
                   edestructor = destructor\<rparr>;
          es \<leftarrow> mem_rd (htable h) index;
          let h = h\<lparr>hbrk := Suc (hbrk h), htable := (htable h)[index := e # es]\<rparr>;
          h \<leftarrow> ks_hash_write_unlock h;
          Some (KS_STATUS_SUCCESS, h) }"

definition ks_hash_insert_ex ::
  "hash_env \<Rightarrow> 'v ks_hash \<Rightarrow> hkey \<Rightarrow> 'v option \<Rightarrow> u32 \<Rightarrow> nat option \<Rightarrow> (ks_status \<times> 'v ks_hash) option"
  where
  "ks_hash_insert_ex env h k v flags destructor =
     do { hashvalue \<leftarrow> hash h k;
          insert_locked env h k v flags destructor hashvalue (indexFor (tablelength h) hashvalue) }"

definition ks_hash_insert ::
  "hash_env \<Rightarrow> 'v ks_hash \<Rightarrow> hkey \<Rightarrow> 'v option \<Rightarrow> (ks_status \<times> 'v ks_hash) option" where
  "ks_hash_insert env h k v = ks_hash_insert_ex env h k v 0 None"

definition ks_hash_search ::
  "'v ks_hash \<Rightarrow> hkey \<Rightarrow> ks_locked \<Rightarrow> ('v option \<times> 'v ks_hash) option" where
  "ks_hash_search h k locked =
     (if locked = KS_READLOCKED \<and> \<not> has_flag (hflags h) KS_HASH_FLAG_RWLOCK then None
      else
        do { hashvalue \<leftarrow> hash h k;
             let index = indexFor (tablelength h) hashvalue;
             h \<leftarrow> (if locked = KS_READLOCKED then add_reader h else Some h);
             es \<leftarrow> mem_rd (htable h) index;
             (pre, r) \<leftarrow> split_chain h k hashvalue es;
             Some (case r of None \<Rightarrow> None | Some (e, post) \<Rightarrow> ev e, h) })"

definition ks_hash_remove :: "'v ks_hash \<Rightarrow> hkey \<Rightarrow> ('v option \<times> 'v ks_hash) option" where
  "ks_hash_remove h k =
     do { hashvalue \<leftarrow> hash h k;
          h \<leftarrow> ks_hash_write_lock h;
          (v, h) \<leftarrow> hash_remove_at h k hashvalue (indexFor (tablelength h) hashvalue);
          h \<leftarrow> ks_hash_write_unlock h;
          Some (v, h) }"

definition ks_hash_destroy :: "'v ks_hash option \<Rightarrow> 'v hash_event list option" where
  "ks_hash_destroy hp =
     (case hp of
        None \<Rightarrow> Some []
      | Some h \<Rightarrow>
          do { h \<leftarrow> ks_hash_write_lock h;
               let h = h_emit (concat (map (\<lambda>e. snd (drop_entry (hdestructor h) e))
                                 (concat (take (tablelength h) (htable h)))) @ [Free_table]) h;
               h \<leftarrow> ks_hash_write_unlock h;
               Some (hevents h @ (if has_rwl h then [Free_rwl] else []) @
                     (if has_mutex h then [Free_mutex] else []) @ [Free_hash]) })"

section \<open>Iterators\<close>

record hash_iterator =
  ipos :: nat
  ilocked :: ks_locked
  ie :: "nat option"

text \<open>
  \<open>e->next\<close> for the entry at an address: the head of what follows it in its chain. The outer
  \<^const>\<open>None\<close> is the use of an entry that is no longer in the table.
\<close>

fun chain_after :: "nat \<Rightarrow> 'v entry list \<Rightarrow> nat option option" where
  "chain_after a [] = None"
| "chain_after a (e # es) =
     (if eaddr e = a then Some (case es of [] \<Rightarrow> None | f # _ \<Rightarrow> Some (eaddr f))
      else chain_after a es)"

fun table_after :: "nat \<Rightarrow> 'v entry list list \<Rightarrow> nat option option" where
  "table_after a [] = None"
| "table_after a (b # bs) = (case chain_after a b of None \<Rightarrow> table_after a bs | Some r \<Rightarrow> Some r)"

fun skip_empty :: "'v entry list list \<Rightarrow> nat \<Rightarrow> nat" where
  "skip_empty [] pos = pos"
| "skip_empty (b # bs) pos = (if b = [] then skip_empty bs (Suc pos) else pos)"

definition ks_hash_last :: "'v ks_hash \<Rightarrow> hash_iterator \<Rightarrow> 'v ks_hash option" where
  "ks_hash_last h i =
     do { h \<leftarrow> (if ilocked i = KS_READLOCKED
                then do { h \<leftarrow> use_mutex Mutex_lock h;
                          h \<leftarrow> use_mutex Mutex_unlock (h\<lparr>readers := readers h - 1\<rparr>);
                          use_rwl Rwl_read_unlock h }
                else Some h);
          Some (h_emit [Free_iterator] h) }"

definition ks_hash_next ::
  "'v ks_hash \<Rightarrow> hash_iterator \<Rightarrow> (hash_iterator option \<times> 'v ks_hash) option" where
  "ks_hash_next h i =
     do { (i, found) \<leftarrow>
            (case ie i of
               None \<Rightarrow> Some (i, False)
             | Some a \<Rightarrow>
                 do { n \<leftarrow> table_after a (htable h);
                      Some (case n of
                              Some b \<Rightarrow> (i\<lparr>ie := Some b\<rparr>, True)
                            | None \<Rightarrow> (i\<lparr>ie := None, ipos := ipos i + 1\<rparr>, False)) });
          if found then Some (Some i, h)
          else
            let i = i\<lparr>ipos := skip_empty (take (tablelength h - ipos i) (drop (ipos i) (htable h))) (ipos i)\<rparr> in
            if tablelength h \<le> ipos i then do { h \<leftarrow> ks_hash_last h i; Some (None, h) }
            else do { b \<leftarrow> mem_rd (htable h) (ipos i);
                      case b of
                        e # _ \<Rightarrow> Some (Some (i\<lparr>ie := Some (eaddr e)\<rparr>), h)
                      | [] \<Rightarrow> do { h \<leftarrow> ks_hash_last h i; Some (None, h) } } }"

definition ks_hash_first ::
  "'v ks_hash \<Rightarrow> ks_locked \<Rightarrow> (hash_iterator option \<times> 'v ks_hash) option" where
  "ks_hash_first h locked =
     (if locked = KS_READLOCKED \<and> \<not> has_flag (hflags h) KS_HASH_FLAG_RWLOCK then None
      else
        do { let i = \<lparr>ipos = 0, ilocked = KS_UNLOCKED, ie = None\<rparr>;
             (i, h) \<leftarrow> (if locked = KS_READLOCKED
                         then do { h \<leftarrow> add_reader h; Some (i\<lparr>ilocked := locked\<rparr>, h) }
                         else Some (i, h));
             ks_hash_next h i })"

definition find_entry :: "'v ks_hash \<Rightarrow> nat \<Rightarrow> 'v entry option" where
  "find_entry h a = find (\<lambda>e. eaddr e = a) (concat (htable h))"

definition ks_hash_this ::
  "'v ks_hash \<Rightarrow> hash_iterator \<Rightarrow> bool \<Rightarrow> (hkey option \<times> int \<times> 'v option) option" where
  "ks_hash_this h i want_klen =
     (case ie i of
        None \<Rightarrow> Some (None, 0, None)
      | Some a \<Rightarrow>
          do { e \<leftarrow> find_entry h a;
               klen \<leftarrow> (if want_klen then map_option (\<lambda>s. sint (word_of_nat (length s) :: u32)) (c_str (kmem (ek e)))
                        else Some 0);
               Some (Some (ek e), klen, ev e) })"

definition ks_hash_this_val :: "'v ks_hash \<Rightarrow> hash_iterator \<Rightarrow> 'v option \<Rightarrow> 'v ks_hash option" where
  "ks_hash_this_val h i val =
     (case ie i of
        None \<Rightarrow> Some h
      | Some a \<Rightarrow>
          do { e \<leftarrow> find_entry h a;
               Some (h\<lparr>htable := map (map (\<lambda>x. if eaddr x = a then x\<lparr>ev := val\<rparr> else x)) (htable h)\<rparr>) })"

end
