(* ===== verification/Ks_Hash_Inv.thy ===== *)
theory Ks_Hash_Inv
  imports Ks_Hash "HOL-Library.Multiset"
begin

text \<open>
  The invariant of the hash table and what each operation does to the entries. \<open>K\<close> is the set of
  keys a client uses; on it the hash and equality functions must be total and agree with each other.
\<close>

section \<open>Keys\<close>

definition keq :: "'v ks_hash \<Rightarrow> hkey \<Rightarrow> hkey \<Rightarrow> bool" where
  "keq h k k' = (key_equals h k k' = Some True)"

definition hash_lawful :: "hkey set \<Rightarrow> 'v ks_hash \<Rightarrow> bool" where
  "hash_lawful K h =
     ((\<forall>k\<in>K. hash h k \<noteq> None) \<and> (\<forall>k\<in>K. \<forall>k'\<in>K. key_equals h k k' \<noteq> None) \<and>
      (\<forall>k\<in>K. keq h k k) \<and> (\<forall>k\<in>K. \<forall>k'\<in>K. keq h k k' \<longrightarrow> keq h k' k) \<and>
      (\<forall>k\<in>K. \<forall>k'\<in>K. \<forall>k''\<in>K. keq h k k' \<longrightarrow> keq h k' k'' \<longrightarrow> keq h k k'') \<and>
      (\<forall>k\<in>K. \<forall>k'\<in>K. keq h k k' \<longrightarrow> hash h k = hash h k'))"

lemma lawfulD:
  assumes "hash_lawful K h" and "k \<in> K"
  shows "hash h k \<noteq> None" and "k' \<in> K \<Longrightarrow> key_equals h k k' \<noteq> None" and "keq h k k"
    and "k' \<in> K \<Longrightarrow> keq h k k' \<Longrightarrow> keq h k' k"
    and "k' \<in> K \<Longrightarrow> k'' \<in> K \<Longrightarrow> keq h k k' \<Longrightarrow> keq h k' k'' \<Longrightarrow> keq h k k''"
    and "k' \<in> K \<Longrightarrow> keq h k k' \<Longrightarrow> hash h k = hash h k'"
proof -
  note laws = assms(1) [unfolded hash_lawful_def]
  show "hash h k \<noteq> None" by (rule bspec [OF laws [THEN conjunct1] assms(2)])
  note laws = laws [THEN conjunct2]
  from bspec [OF laws [THEN conjunct1] assms(2)]
  show "k' \<in> K \<Longrightarrow> key_equals h k k' \<noteq> None" by (rule bspec)
  note laws = laws [THEN conjunct2]
  show "keq h k k" by (rule bspec [OF laws [THEN conjunct1] assms(2)])
  note laws = laws [THEN conjunct2]
  from bspec [OF laws [THEN conjunct1] assms(2)]
  show "k' \<in> K \<Longrightarrow> keq h k k' \<Longrightarrow> keq h k' k" by simp
  note laws = laws [THEN conjunct2]
  from bspec [OF laws [THEN conjunct1] assms(2)]
  show "k' \<in> K \<Longrightarrow> k'' \<in> K \<Longrightarrow> keq h k k' \<Longrightarrow> keq h k' k'' \<Longrightarrow> keq h k k''" by blast
  from bspec [OF laws [THEN conjunct2] assms(2)]
  show "k' \<in> K \<Longrightarrow> keq h k k' \<Longrightarrow> hash h k = hash h k'" by simp
qed

text \<open>Two tables with the same functions.\<close>

definition same_fns :: "'v ks_hash \<Rightarrow> 'v ks_hash \<Rightarrow> bool" where
  "same_fns h h' =
     (hmode h' = hmode h \<and> keysize h' = keysize h \<and> hashfn h' = hashfn h \<and> eqfn h' = eqfn h)"

lemma same_fns_hash: "same_fns h h' \<Longrightarrow> hash h' = hash h"
  by (intro ext) (auto simp: same_fns_def hash_def split: ks_hash_mode.split)

lemma same_fns_key_equals: "same_fns h h' \<Longrightarrow> key_equals h' = key_equals h"
  by (intro ext) (auto simp: same_fns_def key_equals_def split: ks_hash_mode.split)

lemma same_fns_keq: "same_fns h h' \<Longrightarrow> keq h' = keq h"
  by (intro ext) (simp add: keq_def same_fns_key_equals)

lemma same_fns_lawful: "same_fns h h' \<Longrightarrow> hash_lawful K h' = hash_lawful K h"
  by (simp add: hash_lawful_def same_fns_hash same_fns_key_equals same_fns_keq)

lemma same_fns_trans: "same_fns h h' \<Longrightarrow> same_fns h' h'' \<Longrightarrow> same_fns h h''"
  by (simp add: same_fns_def)

section \<open>Invariant\<close>

definition locks_ok :: "'v ks_hash \<Rightarrow> bool" where
  "locks_ok h =
     ((\<not> has_flag (hflags h) KS_HASH_FLAG_NOLOCK \<longrightarrow> has_mutex h) \<and>
      (has_flag (hflags h) KS_HASH_FLAG_RWLOCK \<longrightarrow> has_rwl h \<and> has_mutex h))"

definition entries :: "'v ks_hash \<Rightarrow> 'v entry list" where
  "entries h = concat (htable h)"

definition chain_ok :: "hkey set \<Rightarrow> 'v ks_hash \<Rightarrow> nat \<Rightarrow> 'v entry \<Rightarrow> bool" where
  "chain_ok K h i e =
     (ek e \<in> K \<and> hash h (ek e) = Some (eh e) \<and> indexFor (tablelength h) (eh e) = i)"

definition hash_inv :: "hkey set \<Rightarrow> 'v ks_hash \<Rightarrow> bool" where
  "hash_inv K h =
     (hash_lawful K h \<and> locks_ok h \<and>
      primeindex h < length primes \<and> tablelength h = primes ! primeindex h \<and>
      loadlimit h = load_limit (tablelength h) \<and>
      length (htable h) = tablelength h \<and>
      entrycount h = length (entries h) \<and> length (entries h) < 2 ^ 32 \<and>
      (\<forall>i<tablelength h. \<forall>e\<in>set (htable h ! i). chain_ok K h i e) \<and>
      distinct (map eaddr (entries h)) \<and> (\<forall>e\<in>set (entries h). eaddr e < hbrk h))"

text \<open>No two entries with equal keys, as \<open>KS_HASH_FLAG_DUP_CHECK\<close> maintains.\<close>

definition hash_unique :: "'v ks_hash \<Rightarrow> bool" where
  "hash_unique h = (\<forall>e\<in>set (entries h). \<forall>f\<in>set (entries h). keq h (ek e) (ek f) \<longrightarrow> e = f)"

lemma primes_pos: "p \<in> set primes \<Longrightarrow> 0 < p"
  by (auto simp: primes_def)

lemma tablelength_pos: "hash_inv K h \<Longrightarrow> 0 < tablelength h"
  by (auto simp: hash_inv_def intro!: primes_pos)

lemma indexFor_less: "0 < n \<Longrightarrow> indexFor n x < n"
  by (simp add: indexFor_def)

section \<open>Chains\<close>

lemma split_chain_total:
  assumes "\<forall>e\<in>set es. entry_matches h k hv e = Some (m e)"
  shows "split_chain h k hv es =
     Some (takeWhile (Not \<circ> m) es,
           case dropWhile (Not \<circ> m) es of [] \<Rightarrow> None | e # r \<Rightarrow> Some (e, r))"
  using assms by (induction es) auto

lemma chain_match:
  assumes "hash_lawful K h" and "k \<in> K" and "hash h k = Some hv" and "chain_ok K h i e"
  shows "entry_matches h k hv e = Some (keq h k (ek e))"
proof (cases "hv = eh e")
  case True
  from assms(4) lawfulD(2) [OF assms(1,2)] obtain b where "key_equals h k (ek e) = Some b"
    by (auto simp: chain_ok_def)
  with True show ?thesis by (simp add: entry_matches_def keq_def)
next
  case False
  then have "\<not> keq h k (ek e)"
    using lawfulD(6) [OF assms(1,2), of "ek e"] assms(3,4) by (auto simp: chain_ok_def)
  with False show ?thesis by (simp add: entry_matches_def)
qed

text \<open>An entry whose key equals \<open>k\<close> sits in the chain of \<open>k\<close>.\<close>

lemma match_index:
  assumes "hash_inv K h" and "k \<in> K" and "hash h k = Some hv"
    and "i < tablelength h" and "e \<in> set (htable h ! i)" and "keq h k (ek e)"
  shows "i = indexFor (tablelength h) hv"
proof -
  from assms have "chain_ok K h i e" "hash_lawful K h" by (auto simp: hash_inv_def)
  with lawfulD(6) [of K h k "ek e"] assms have "hash h k = hash h (ek e)" by (simp add: chain_ok_def)
  with \<open>chain_ok K h i e\<close> assms(3) show ?thesis by (simp add: chain_ok_def)
qed

lemma entries_iff: "e \<in> set (entries h) \<longleftrightarrow> (\<exists>i<length (htable h). e \<in> set (htable h ! i))"
  by (simp add: entries_def) (metis in_set_conv_nth)

text \<open>The result of walking the chain of a key.\<close>

lemma split_chain_key:
  assumes "hash_inv K h" and "k \<in> K" and "hash h k = Some hv"
  shows "split_chain h k hv (htable h ! indexFor (tablelength h) hv) =
     Some (takeWhile (\<lambda>e. \<not> keq h k (ek e)) (htable h ! indexFor (tablelength h) hv),
           case dropWhile (\<lambda>e. \<not> keq h k (ek e)) (htable h ! indexFor (tablelength h) hv) of
             [] \<Rightarrow> None | e # r \<Rightarrow> Some (e, r))"
proof -
  let ?i = "indexFor (tablelength h) hv"
  have "?i < tablelength h" using tablelength_pos [OF assms(1)] by (rule indexFor_less)
  with assms have "\<forall>e\<in>set (htable h ! ?i). entry_matches h k hv e = Some (keq h k (ek e))"
    by (auto simp: hash_inv_def intro!: chain_match)
  from split_chain_total [OF this] show ?thesis by (simp add: comp_def)
qed

section \<open>Rehashing\<close>

lemma length_move [simp]: "length (move_entry n e t) = length t"
  by (simp add: move_entry_def Let_def)

lemma length_fold_move [simp]: "length (fold (move_entry n) es t) = length t"
  by (induction es arbitrary: t) simp_all

lemma rehash_concat: "rehash n t = fold (move_entry n) (concat t) (replicate n [])"
proof -
  have "fold (fold (move_entry n)) t u = fold (move_entry n) (concat t) u" for u
    by (induction t arbitrary: u) simp_all
  then show ?thesis by (simp add: rehash_def)
qed

lemma length_rehash [simp]: "length (rehash n t) = n"
  by (simp add: rehash_concat)

lemma fold_move_nth:
  assumes "0 < n" "length t = n" and "i < n"
  shows "fold (move_entry n) es t ! i = rev (filter (\<lambda>e. indexFor n (eh e) = i) es) @ t ! i"
  using assms(2)
proof (induction es arbitrary: t)
  case (Cons e es)
  from Cons.IH [of "move_entry n e t"] Cons.prems assms indexFor_less [of n "eh e"] show ?case
    by (auto simp: move_entry_def Let_def nth_list_update)
qed simp

lemma rehash_nth:
  assumes "i < n"
  shows "rehash n t ! i = rev (filter (\<lambda>e. indexFor n (eh e) = i) (concat t))"
  using fold_move_nth [of n "replicate n []" i "concat t"] assms by (simp add: rehash_concat)

lemma mset_move: "0 < n \<Longrightarrow> length t = n \<Longrightarrow>
    mset (concat (move_entry n e t)) = add_mset e (mset (concat t))"
proof -
  assume n: "0 < n" "length t = n"
  let ?i = "indexFor n (eh e)"
  have i: "?i < length t" using n indexFor_less by simp
  have "concat (t[?i := e # t ! ?i]) =
      concat (take ?i t) @ (e # t ! ?i) @ concat (drop (Suc ?i) t)"
    using i by (simp add: upd_conv_take_nth_drop)
  moreover have "concat t = concat (take ?i t) @ t ! ?i @ concat (drop (Suc ?i) t)"
    by (subst id_take_nth_drop [OF i]) simp
  ultimately show ?thesis by (simp add: move_entry_def Let_def)
qed

lemma mset_rehash: "0 < n \<Longrightarrow> mset (concat (rehash n t)) = mset (concat t)"
proof -
  assume n: "0 < n"
  have "mset (concat (fold (move_entry n) es u)) = mset es + mset (concat u)" if "length u = n" for es u
    using that by (induction es arbitrary: u) (auto simp: mset_move n)
  from this [of "replicate n []" "concat t"] show ?thesis
    by (simp add: rehash_concat)
qed

lemma concat_update:
  assumes "i < length t"
  shows "mset (concat (t[i := b])) + mset (t ! i) = mset (concat t) + mset b"
proof -
  have "concat (t[i := b]) = concat (take i t) @ b @ concat (drop (Suc i) t)"
    using assms by (simp add: upd_conv_take_nth_drop)
  moreover have "concat t = concat (take i t) @ t ! i @ concat (drop (Suc i) t)"
    by (subst id_take_nth_drop [OF assms]) simp
  ultimately show ?thesis by simp
qed

section \<open>What operations leave alone\<close>

definition hash_frame :: "'v ks_hash \<Rightarrow> 'v ks_hash \<Rightarrow> bool" where
  "hash_frame h h' =
     (same_fns h h' \<and> hflags h' = hflags h \<and> hdestructor h' = hdestructor h \<and>
      has_rwl h' = has_rwl h \<and> has_mutex h' = has_mutex h \<and> readers h' = readers h)"

lemma frame_locks: "hash_frame h h' \<Longrightarrow> locks_ok h' = locks_ok h"
  by (simp add: hash_frame_def locks_ok_def)

lemma frame_trans: "hash_frame h h' \<Longrightarrow> hash_frame h' h'' \<Longrightarrow> hash_frame h h''"
  by (simp add: hash_frame_def same_fns_def)

lemma frame_fns:
  assumes "hash_frame h h'"
  shows "hash h' = hash h" "keq h' = keq h" "hash_lawful K h' = hash_lawful K h"
  using assms by (simp_all add: hash_frame_def same_fns_hash same_fns_keq same_fns_lawful)

lemma h_emit_sel [simp]:
  "htable (h_emit es h) = htable h" "tablelength (h_emit es h) = tablelength h"
  "entrycount (h_emit es h) = entrycount h" "loadlimit (h_emit es h) = loadlimit h"
  "primeindex (h_emit es h) = primeindex h" "hflags (h_emit es h) = hflags h"
  "hdestructor (h_emit es h) = hdestructor h" "has_rwl (h_emit es h) = has_rwl h"
  "has_mutex (h_emit es h) = has_mutex h" "readers (h_emit es h) = readers h"
  "hbrk (h_emit es h) = hbrk h" "hevents (h_emit es h) = hevents h @ es"
  "entries (h_emit es h) = entries h"
  by (simp_all add: h_emit_def entries_def)

lemma frame_emit [simp]: "hash_frame h (h_emit es h)" "hash_frame h h"
  by (simp_all add: hash_frame_def same_fns_def h_emit_def)

lemma inv_emit [simp]: "hash_inv K (h_emit es h) = hash_inv K h"
  using frame_fns [OF frame_emit(1) [of h es]] frame_locks [OF frame_emit(1) [of h es]]
  by (simp add: hash_inv_def chain_ok_def)

lemma unique_emit [simp]: "hash_unique (h_emit es h) = hash_unique h"
  using frame_fns [OF frame_emit(1) [of h es]] by (simp add: hash_unique_def)

section \<open>The search for a key\<close>

definition find_key :: "'v ks_hash \<Rightarrow> hkey \<Rightarrow> 'v entry option" where
  "find_key h k = find (\<lambda>e. keq h k (ek e)) (entries h)"

lemma find_append: "find P (xs @ ys) = (case find P xs of None \<Rightarrow> find P ys | Some x \<Rightarrow> Some x)"
  by (induction xs) auto

lemma find_none_concat: "\<forall>b\<in>set bs. \<forall>e\<in>set b. \<not> P e \<Longrightarrow> find P (concat bs) = None"
  by (auto simp: find_None_iff)

lemma find_concat_at:
  assumes "i < length t" and "\<forall>j<length t. j \<noteq> i \<longrightarrow> (\<forall>e\<in>set (t ! j). \<not> P e)"
  shows "find P (concat t) = find P (t ! i)"
proof -
  have "concat t = concat (take i t) @ t ! i @ concat (drop (Suc i) t)"
    by (subst id_take_nth_drop [OF assms(1)]) simp
  moreover have "find P (concat (take i t)) = None"
  proof (rule find_none_concat, intro ballI)
    fix b e assume "b \<in> set (take i t)" "e \<in> set b"
    then obtain j where "j < i" "e \<in> set (t ! j)" using assms(1) by (auto simp: set_conv_nth [of "take i t"])
    with assms(1) assms(2) [rule_format, of j e] show "\<not> P e" by simp
  qed
  moreover have "find P (concat (drop (Suc i) t)) = None"
  proof (rule find_none_concat, intro ballI)
    fix b e assume "b \<in> set (drop (Suc i) t)" "e \<in> set b"
    then obtain j where "j < length t - Suc i" "e \<in> set (t ! (Suc i + j))"
      using assms(1) by (auto simp: set_conv_nth [of "drop (Suc i) t"])
    with assms(1) assms(2) [rule_format, of "Suc i + j" e] show "\<not> P e" by simp
  qed
  ultimately show ?thesis by (simp add: find_append split: option.split)
qed

lemma find_key_chain:
  assumes "hash_inv K h" and "k \<in> K" and "hash h k = Some hv"
  shows "find_key h k = find (\<lambda>e. keq h k (ek e)) (htable h ! indexFor (tablelength h) hv)"
  unfolding find_key_def entries_def
proof (rule find_concat_at)
  show "indexFor (tablelength h) hv < length (htable h)"
    using assms(1) tablelength_pos [OF assms(1)] indexFor_less by (auto simp: hash_inv_def)
  show "\<forall>j<length (htable h). j \<noteq> indexFor (tablelength h) hv \<longrightarrow>
      (\<forall>e\<in>set (htable h ! j). \<not> keq h k (ek e))"
    using match_index [OF assms] assms(1) by (auto simp: hash_inv_def)
qed

lemma find_dropWhile: "find P xs = (case dropWhile (\<lambda>x. \<not> P x) xs of [] \<Rightarrow> None | x # _ \<Rightarrow> Some x)"
  by (induction xs) auto

lemma find_key_SomeD: "find_key h k = Some e \<Longrightarrow> e \<in> set (entries h) \<and> keq h k (ek e)"
  by (auto simp: find_key_def find_Some_iff)

lemma find_key_NoneD: "find_key h k = None \<Longrightarrow> e \<in> set (entries h) \<Longrightarrow> \<not> keq h k (ek e)"
  by (auto simp: find_key_def find_None_iff)

text \<open>With unique keys, the order of the entries does not matter.\<close>

lemma find_key_unique:
  assumes "hash_inv K h" and "hash_unique h" and "k \<in> K" and "e \<in> set (entries h)" and "keq h k (ek e)"
  shows "find_key h k = Some e"
proof (cases "find_key h k")
  case None
  with assms show ?thesis using find_key_NoneD by blast
next
  case (Some f)
  have l: "hash_lawful K h" using assms(1) by (simp add: hash_inv_def)
  have ok: "ek x \<in> K" if "x \<in> set (entries h)" for x
    using that assms(1) by (auto simp: entries_iff hash_inv_def chain_ok_def)
  from Some have f: "f \<in> set (entries h)" "keq h k (ek f)" using find_key_SomeD by blast+
  have "keq h (ek e) k" using lawfulD(4) [OF l assms(3) ok [OF assms(4)] assms(5)] .
  then have "keq h (ek e) (ek f)"
    using lawfulD(5) [OF l ok [OF assms(4)] assms(3) ok [OF f(1)]] f(2) by blast
  with assms(2,4) f(1) have "e = f" by (auto simp: hash_unique_def)
  with Some show ?thesis by simp
qed

lemma entry_in_K: "hash_inv K h \<Longrightarrow> e \<in> set (entries h) \<Longrightarrow> ek e \<in> K"
  by (auto simp: entries_iff hash_inv_def chain_ok_def)

section \<open>Changing one chain\<close>

lemma distinct_map_mset: "mset xs = mset ys \<Longrightarrow> distinct (map f xs) = distinct (map f ys)"
  by (metis mset_eq_imp_distinct_iff mset_map)

lemma inv_bucket:
  assumes inv: "hash_inv K h" and i: "i < tablelength h"
    and fr: "hash_frame h h'" and t: "htable h' = (htable h)[i := b]"
    and same: "tablelength h' = tablelength h" "primeindex h' = primeindex h"
      "loadlimit h' = loadlimit h"
    and n: "entrycount h' = length (entries h')" "length (entries h') < 2 ^ 32"
    and b: "\<forall>e\<in>set b. chain_ok K h i e"
    and addr: "distinct (map eaddr (entries h'))" "\<forall>e\<in>set (entries h'). eaddr e < hbrk h'"
  shows "hash_inv K h'"
proof -
  have "chain_ok K h' j e" if "j < tablelength h'" "e \<in> set (htable h' ! j)" for j e
    using that inv b i frame_fns(1) [OF fr] same
    by (cases "j = i") (auto simp: t hash_inv_def chain_ok_def)
  then show ?thesis
    using inv fr same n addr frame_fns [OF fr] frame_locks [OF fr] t by (simp add: hash_inv_def)
qed

lemma takeWhile_dropWhile_split:
  "dropWhile P xs = y # ys \<Longrightarrow> xs = takeWhile P xs @ y # ys"
  by (metis takeWhile_dropWhile_id)

section \<open>Removal\<close>

lemma hash_remove_at_ok:
  assumes inv: "hash_inv K h" and k: "k \<in> K" and hv: "hash h k = Some hv"
  shows "\<exists>v h'. hash_remove_at h k hv (indexFor (tablelength h) hv) = Some (v, h') \<and>
           hash_inv K h' \<and> hash_frame h h' \<and> hbrk h' = hbrk h \<and> tablelength h' = tablelength h \<and>
           (case find_key h k of
              None \<Rightarrow> h' = h \<and> v = None
            | Some e \<Rightarrow> mset (entries h) = add_mset e (mset (entries h')) \<and>
                v = fst (drop_entry (hdestructor h) e) \<and>
                hevents h' = hevents h @ snd (drop_entry (hdestructor h) e))"
proof -
  let ?i = "indexFor (tablelength h) hv"
  let ?P = "\<lambda>e. \<not> keq h k (ek e)"
  have i: "?i < tablelength h" using tablelength_pos [OF inv] by (rule indexFor_less)
  have len: "length (htable h) = tablelength h" using inv by (simp add: hash_inv_def)
  with i have rd: "mem_rd (htable h) ?i = Some (htable h ! ?i)" by (simp add: mem_rd_def)
  note sc = split_chain_key [OF inv k hv]
  have fk: "find_key h k = (case dropWhile ?P (htable h ! ?i) of [] \<Rightarrow> None | x # _ \<Rightarrow> Some x)"
    unfolding find_key_chain [OF inv k hv] by (subst find_dropWhile) simp
  show ?thesis
  proof (cases "dropWhile ?P (htable h ! ?i)")
    case Nil
    with rd sc fk inv show ?thesis by (simp add: hash_remove_at_def)
  next
    case (Cons e post)
    define pre where "pre = takeWhile ?P (htable h ! ?i)"
    from Cons have chain: "htable h ! ?i = pre @ e # post"
      unfolding pre_def by (rule takeWhile_dropWhile_split)
    obtain v evs where d: "drop_entry (hdestructor h) e = (v, evs)" by fastforce
    define h' where "h' = h_emit evs (h\<lparr>htable := (htable h)[?i := pre @ post],
        entrycount := (entrycount h + 2 ^ 32 - 1) mod 2 ^ 32\<rparr>)"
    have op: "hash_remove_at h k hv ?i = Some (v, h')"
      using rd sc Cons d by (simp add: hash_remove_at_def h'_def pre_def)
    have fr: "hash_frame h h'" by (simp add: h'_def hash_frame_def same_fns_def h_emit_def)
    have ents: "mset (entries h) = add_mset e (mset (entries h'))"
      using concat_update [of ?i "htable h" "pre @ post"] i len chain
      by (simp add: h'_def entries_def)
    then have sz: "length (entries h) = Suc (length (entries h'))"
      by (metis size_add_mset size_mset)
    have cnt: "entrycount h' = length (entries h')" "length (entries h') < 2 ^ 32"
      using inv sz by (simp_all add: hash_inv_def h'_def entries_def)
    have sub: "set (entries h') \<subseteq> set (entries h)"
      using ents by (metis set_mset_mset set_mset_add_mset_insert subset_insertI)
    from ents have "mset (map eaddr (entries h)) = mset (eaddr e # map eaddr (entries h'))" by simp
    then have dist: "distinct (map eaddr (entries h'))"
      using inv by (metis distinct.simps(2) hash_inv_def mset_eq_imp_distinct_iff)
    have inv': "hash_inv K h'"
    proof (rule inv_bucket [OF inv i fr])
      show "\<forall>e\<in>set (pre @ post). chain_ok K h ?i e"
        using inv i chain by (auto simp: hash_inv_def)
      show "\<forall>e\<in>set (entries h'). eaddr e < hbrk h'"
        using sub inv by (auto simp: hash_inv_def h'_def)
    qed (use cnt dist in \<open>simp_all add: h'_def\<close>)
    show ?thesis
      using op inv' fr ents d fk Cons by (auto simp: h'_def)
  qed
qed

section \<open>Locking\<close>

definition lock_events :: "'v ks_hash \<Rightarrow> 'v hash_event list" where
  "lock_events h = (if has_flag (hflags h) KS_HASH_FLAG_NOLOCK then []
     else if has_flag (hflags h) KS_HASH_FLAG_RWLOCK then [Rwl_write_lock] else [Mutex_lock])"

definition unlock_events :: "'v ks_hash \<Rightarrow> 'v hash_event list" where
  "unlock_events h = (if has_flag (hflags h) KS_HASH_FLAG_NOLOCK then []
     else if has_flag (hflags h) KS_HASH_FLAG_RWLOCK then [Rwl_write_unlock] else [Mutex_unlock])"

lemma emit_Nil [simp]: "h_emit [] h = h"
  by (simp add: h_emit_def)

lemma write_lock_ok:
  assumes "locks_ok h"
  shows "ks_hash_write_lock h = Some (h_emit (lock_events h) h)"
    and "ks_hash_write_unlock h = Some (h_emit (unlock_events h) h)"
  using assms by (simp_all add: ks_hash_write_lock_def ks_hash_write_unlock_def locks_ok_def use_rwl_def
      use_mutex_def lock_events_def unlock_events_def)

section \<open>Growing\<close>

text \<open>The new table is allocated, or neither allocation succeeds.\<close>

definition env_ok :: "hash_env \<Rightarrow> bool" where
  "env_ok env = (table_ok env \<or> \<not> resize_ok env)"

lemma ks_hash_expand_ok:
  assumes inv: "hash_inv K h" and env: "env_ok env"
  shows "\<exists>r h'. ks_hash_expand env h = Some (r, h') \<and> hash_inv K h' \<and> hash_frame h h' \<and>
           hbrk h' = hbrk h \<and> mset (entries h') = mset (entries h)"
proof (cases "primeindex h = length primes - 1 \<or> \<not> table_ok env")
  case True
  have "primeindex h < length primes" using inv by (simp add: hash_inv_def)
  with True env inv show ?thesis
    by (cases "primeindex h = length primes - 1")
      (auto simp: ks_hash_expand_def env_ok_def mem_rd_def)
next
  case False
  then have p: "primeindex h + 1 < length primes" using inv by (auto simp: hash_inv_def)
  define n where "n = primes ! (primeindex h + 1)"
  have n: "0 < n" unfolding n_def using p by (intro primes_pos nth_mem)
  define h' where "h' = h_emit [Free_table] (h\<lparr>primeindex := primeindex h + 1,
      htable := rehash n (htable h), tablelength := n, loadlimit := load_limit n\<rparr>)"
  have op: "ks_hash_expand env h = Some (True, h')"
    using False p by (simp add: ks_hash_expand_def mem_rd_def h'_def n_def)
  have fr: "hash_frame h h'" by (simp add: h'_def hash_frame_def same_fns_def h_emit_def)
  have ents: "mset (entries h') = mset (entries h)"
    using mset_rehash [OF n] by (simp add: h'_def entries_def)
  have sets: "set (entries h') = set (entries h)" using ents by (rule mset_eq_setD)
  have len: "length (entries h') = length (entries h)" using ents by (rule mset_eq_length)
  have "chain_ok K h' i e" if "i < n" "e \<in> set (rehash n (htable h) ! i)" for i e
  proof -
    from that have e: "e \<in> set (entries h)" "indexFor n (eh e) = i"
      by (auto simp: rehash_nth entries_def)
    then obtain j where "j < tablelength h" "chain_ok K h j e"
      using inv by (auto simp: entries_iff hash_inv_def)
    with e show ?thesis using frame_fns(1) [OF fr] by (simp add: chain_ok_def h'_def)
  qed
  then have "hash_inv K h'"
    using inv p frame_fns [OF fr] frame_locks [OF fr] sets len distinct_map_mset [OF ents, of eaddr]
    by (simp add: hash_inv_def) (simp add: h'_def n_def)
  with op fr ents show ?thesis by (auto simp: h'_def)
qed

section \<open>Insertion\<close>

lemma inv_count:
  assumes "hash_inv K h" shows "entrycount h = length (entries h)" "length (entries h) < 2 ^ 32"
  using assms by (simp_all add: hash_inv_def)

text \<open>
  The invariant with the entry count already raised, as it is between the increment and the link of
  the new entry.
\<close>

lemma expand_count:
  assumes "hash_inv K h" and "env_ok env"
  shows "\<exists>r h'. ks_hash_expand env (h\<lparr>entrycount := n\<rparr>) = Some (r, h'\<lparr>entrycount := n\<rparr>) \<and>
           hash_inv K h' \<and> hash_frame h h' \<and> hbrk h' = hbrk h \<and> mset (entries h') = mset (entries h)"
proof -
  from ks_hash_expand_ok [OF assms] obtain r h' where
    h': "ks_hash_expand env h = Some (r, h')" "hash_inv K h'" "hash_frame h h'" "hbrk h' = hbrk h"
    "mset (entries h') = mset (entries h)" by blast
  from h'(1) have "ks_hash_expand env (h\<lparr>entrycount := n\<rparr>) = Some (r, h'\<lparr>entrycount := n\<rparr>)"
    by (auto simp: ks_hash_expand_def h_emit_def split: if_splits Option.bind_splits)
  with h' show ?thesis by blast
qed

lemma link_entry:
  assumes inv: "hash_inv K h" and k: "ek e \<in> K" and hv: "hash h (ek e) = Some (eh e)"
    and a: "eaddr e = hbrk h" and n: "length (entries h) + 1 < 2 ^ 32"
    and i: "i = indexFor (tablelength h) (eh e)"
    and h': "h' = h\<lparr>entrycount := length (entries h) + 1, hbrk := Suc (hbrk h),
                     htable := (htable h)[i := e # htable h ! i]\<rparr>"
  shows "hash_inv K h' \<and> hash_frame h h' \<and> mset (entries h') = add_mset e (mset (entries h))"
proof -
  have il: "i < tablelength h" unfolding i using tablelength_pos [OF inv] by (rule indexFor_less)
  have fr: "hash_frame h h'" by (simp add: h' hash_frame_def same_fns_def)
  have len: "length (htable h) = tablelength h" using inv by (simp add: hash_inv_def)
  have ents: "mset (entries h') = add_mset e (mset (entries h))"
    using concat_update [of i "htable h" "e # htable h ! i"] il len by (simp add: h' entries_def)
  then have sets: "set (entries h') = insert e (set (entries h))"
    by (metis set_mset_add_mset_insert set_mset_mset)
  have sz: "length (entries h') = length (entries h) + 1"
    using ents by (metis Suc_eq_plus1 size_add_mset size_mset)
  have "mset (map eaddr (entries h')) = mset (eaddr e # map eaddr (entries h))" using ents by simp
  then have "distinct (map eaddr (entries h')) = distinct (eaddr e # map eaddr (entries h))"
    by (rule mset_eq_imp_distinct_iff)
  moreover have "eaddr e \<notin> set (map eaddr (entries h))" using inv a by (auto simp: hash_inv_def)
  ultimately have dist: "distinct (map eaddr (entries h'))" using inv by (auto simp: hash_inv_def)
  have "hash_inv K h'"
  proof (rule inv_bucket [OF inv il fr])
    show "\<forall>f\<in>set (e # htable h ! i). chain_ok K h i f"
      using inv il k hv i by (auto simp: hash_inv_def chain_ok_def)
    show "\<forall>f\<in>set (entries h'). eaddr f < hbrk h'"
      using sets inv a by (auto simp: hash_inv_def h' less_SucI)
  qed (use sz n dist in \<open>simp_all add: h'\<close>)
  with fr ents show ?thesis by simp
qed

definition without_key :: "'v ks_hash \<Rightarrow> hkey \<Rightarrow> 'v entry multiset" where
  "without_key h k =
     (case find_key h k of None \<Rightarrow> mset (entries h) | Some e \<Rightarrow> mset (entries h) - {#e#})"

definition effective_flags :: "'v ks_hash \<Rightarrow> u32 \<Rightarrow> u32" where
  "effective_flags h flags = (if flags = 0 then hflags h else flags)"

lemma find_key_emit [simp]: "find_key (h_emit es h) k = find_key h k"
  using frame_fns(2) [OF frame_emit(1) [of h es]] by (simp add: find_key_def)

lemma remove_if_dup:
  assumes "hash_inv K h" and "k \<in> K" and "hash h k = Some hv"
  shows "\<exists>h'. (if d then map_option snd (hash_remove_at h k hv (indexFor (tablelength h) hv)) else Some h)
             = Some h' \<and> hash_inv K h' \<and> hash_frame h h' \<and> hbrk h' = hbrk h \<and>
             tablelength h' = tablelength h \<and>
             mset (entries h') = (if d then without_key h k else mset (entries h))"
proof (cases d)
  case True
  from hash_remove_at_ok [OF assms] obtain v h' where
    "hash_remove_at h k hv (indexFor (tablelength h) hv) = Some (v, h')" "hash_inv K h'"
    "hash_frame h h'" "hbrk h' = hbrk h" "tablelength h' = tablelength h"
    "case find_key h k of None \<Rightarrow> h' = h \<and> v = None
      | Some e \<Rightarrow> mset (entries h) = add_mset e (mset (entries h')) \<and>
          v = fst (drop_entry (hdestructor h) e) \<and>
          hevents h' = hevents h @ snd (drop_entry (hdestructor h) e)" by blast
  with True show ?thesis by (auto simp: without_key_def split: option.splits)
qed (use assms in auto)

lemma insert_locked_ok:
  assumes inv: "hash_inv K h" and k: "k \<in> K" and hv: "hash h k = Some hv" and env: "env_ok env"
    and room: "length (entries h) + 1 < 2 ^ 32"
  shows "\<exists>e h'. insert_locked env h k v flags d hv (indexFor (tablelength h) hv) =
             Some (KS_STATUS_SUCCESS, h') \<and> hash_inv K h' \<and> hash_frame h h' \<and>
           ek e = k \<and> ev e = v \<and> eflags e = effective_flags h flags \<and> edestructor e = d \<and>
           eh e = hv \<and> eaddr e = hbrk h \<and>
           mset (entries h') = add_mset e
             (if has_flag (effective_flags h flags) KS_HASH_FLAG_DUP_CHECK
              then without_key h k else mset (entries h))"
proof -
  let ?dup = "has_flag (effective_flags h flags) KS_HASH_FLAG_DUP_CHECK"
  define h1 where "h1 = h_emit (lock_events h) h"
  have h1: "hash_inv K h1" "hash_frame h h1" "hash h1 k = Some hv" "tablelength h1 = tablelength h"
    "entries h1 = entries h" "find_key h1 k = find_key h k" "hbrk h1 = hbrk h" "hflags h1 = hflags h"
    using inv hv frame_fns(1) [OF frame_emit(1) [of h "lock_events h"]] by (simp_all add: h1_def)
  have without: "without_key h1 k = without_key h k"
    unfolding without_key_def h1(5,6) ..
  have lock: "ks_hash_write_lock h = Some h1"
    using inv by (simp add: h1_def write_lock_ok hash_inv_def)
  obtain h2 where rm: "(if ?dup then map_option snd (hash_remove_at h1 k hv (indexFor (tablelength h) hv))
        else Some h1) = Some h2"
    and h2: "hash_inv K h2" "hash_frame h1 h2" "hbrk h2 = hbrk h" "tablelength h2 = tablelength h"
      "mset (entries h2) = (if ?dup then without_key h k else mset (entries h))"
    using remove_if_dup [OF h1(1) k h1(3), of ?dup] unfolding without h1(4,5,7)
    by (elim exE conjE) (rule that)
  have le: "length (entries h2) \<le> length (entries h)"
    using h2(5) by (auto simp: without_key_def simp flip: size_mset split: if_splits option.splits)
      (metis size_Diff1_le size_mset)+
  define n where "n = length (entries h2) + 1"
  have n: "(entrycount h2 + 1) mod 2 ^ 32 = n"
    using inv_count [OF h2(1)] le room by (simp add: n_def)
  obtain h3 where grow: "(if loadlimit h2 < n
         then do { (r, h) \<leftarrow> ks_hash_expand env (h2\<lparr>entrycount := n\<rparr>); Some (h, indexFor (tablelength h) hv) }
         else Some (h2\<lparr>entrycount := n\<rparr>, indexFor (tablelength h) hv)) =
       Some (h3\<lparr>entrycount := n\<rparr>, indexFor (tablelength h3) hv)"
    and h3: "hash_inv K h3" "hash_frame h2 h3" "hbrk h3 = hbrk h" "mset (entries h3) = mset (entries h2)"
  proof (cases "loadlimit h2 < n")
    case True
    with expand_count [OF h2(1) env, of n] h2(3) that show ?thesis by auto
  next
    case False
    with that [of h2] h2 show ?thesis by simp
  qed
  have len3: "length (entries h3) = length (entries h2)" using h3(4) by (rule mset_eq_length)
  define i where "i = indexFor (tablelength h3) hv"
  have rd: "mem_rd (htable h3) i = Some (htable h3 ! i)"
    using h3(1) tablelength_pos [OF h3(1)] indexFor_less by (simp add: mem_rd_def hash_inv_def i_def)
  define e where "e = \<lparr>eaddr = hbrk h, ek = k, ev = v, eh = hv, eflags = effective_flags h flags,
      edestructor = d\<rparr>"
  define h4 where "h4 = h3\<lparr>entrycount := length (entries h3) + 1, hbrk := Suc (hbrk h3),
      htable := (htable h3)[i := e # htable h3 ! i]\<rparr>"
  have fr3: "hash_frame h h3" using h1(2) h2(2) h3(2) frame_trans by blast
  have h4: "hash_inv K h4" "hash_frame h3 h4" "mset (entries h4) = add_mset e (mset (entries h3))"
    using link_entry [OF h3(1), of e i h4] k hv frame_fns(1) [OF fr3] len3 le room h3(3)
    by (simp_all add: e_def h4_def i_def)
  define h5 where "h5 = h_emit (unlock_events h4) h4"
  have unlock: "ks_hash_write_unlock h4 = Some h5"
    using h4(1) by (simp add: h5_def write_lock_ok hash_inv_def)
  have eff: "(if flags = 0 then hflags h1 else flags) = effective_flags h flags"
    by (simp add: effective_flags_def h1(8))
  have grow': "(if loadlimit (h2\<lparr>entrycount := n\<rparr>) < entrycount (h2\<lparr>entrycount := n\<rparr>)
       then do { (r, h) \<leftarrow> ks_hash_expand env (h2\<lparr>entrycount := n\<rparr>); Some (h, indexFor (tablelength h) hv) }
       else Some (h2\<lparr>entrycount := n\<rparr>, indexFor (tablelength h) hv)) = Some (h3\<lparr>entrycount := n\<rparr>, i)"
    using grow by (simp add: i_def)
  have rd': "mem_rd (htable (h3\<lparr>entrycount := n\<rparr>)) i = Some (htable h3 ! i)" using rd by simp
  have link: "(h3\<lparr>entrycount := n\<rparr>)\<lparr>hbrk := Suc (hbrk (h3\<lparr>entrycount := n\<rparr>)),
      htable := (htable (h3\<lparr>entrycount := n\<rparr>))[i :=
        \<lparr>eaddr = hbrk (h3\<lparr>entrycount := n\<rparr>), ek = k, ev = v, eh = hv,
         eflags = effective_flags h flags, edestructor = d\<rparr> # htable h3 ! i]\<rparr> = h4"
    using h3(3) len3 by (simp add: h4_def e_def n_def)
  have "insert_locked env h k v flags d hv (indexFor (tablelength h) hv) = Some (KS_STATUS_SUCCESS, h5)"
    by (simp only: insert_locked_def Let_def lock bind.bind_lunit eff rm n grow' prod.case rd' link unlock)
  moreover have "hash_inv K h5" "hash_frame h h5" "entries h5 = entries h4"
    using h4 frame_trans [OF fr3 frame_trans [OF h4(2) frame_emit(1)]] by (simp_all add: h5_def)
  ultimately show ?thesis
    using h4(3) h3(4) h2(5) by (intro exI [of _ e] exI [of _ h5]) (simp add: e_def)
qed

end
