(* ===== verification/Ks_Hash_Map.thy ===== *)
theory Ks_Hash_Map
  imports Ks_Hash_Inv
begin

text \<open>
  The hash table as a map. The locale states what a client of a map relies on; the table with
  \<open>KS_HASH_FLAG_DUP_CHECK\<close> is an instance of it.
\<close>

section \<open>The interface\<close>

datatype ('k, 'v) map_op = Map_put 'k "'v option" | Map_del 'k

fun map_run ::
  "('s \<Rightarrow> 'k \<Rightarrow> 'v option \<Rightarrow> 's option) \<Rightarrow> ('s \<Rightarrow> 'k \<Rightarrow> 's option) \<Rightarrow> 's \<Rightarrow> ('k, 'v) map_op list \<Rightarrow> 's option"
  where
  "map_run put del s [] = Some s"
| "map_run put del s (Map_put k v # ops) = do { s' \<leftarrow> put s k v; map_run put del s' ops }"
| "map_run put del s (Map_del k # ops) = do { s' \<leftarrow> del s k; map_run put del s' ops }"

text \<open>The specification: a function from keys to values, with keys compared by \<open>eq\<close>.\<close>

fun map_spec :: "('k \<Rightarrow> 'k \<Rightarrow> bool) \<Rightarrow> ('k \<Rightarrow> 'v option) \<Rightarrow> ('k, 'v) map_op list \<Rightarrow> 'k \<Rightarrow> 'v option" where
  "map_spec eq m [] = m"
| "map_spec eq m (Map_put k v # ops) = map_spec eq (\<lambda>k'. if eq k k' then v else m k') ops"
| "map_spec eq m (Map_del k # ops) = map_spec eq (\<lambda>k'. if eq k k' then None else m k') ops"

fun map_op_key :: "('k, 'v) map_op \<Rightarrow> 'k" where
  "map_op_key (Map_put k v) = k"
| "map_op_key (Map_del k) = k"

text \<open>\<open>size_of\<close> bounds what a put may need: it grows by at most one.\<close>

locale ks_map =
  fixes inv :: "'s \<Rightarrow> bool" and keys :: "'k set" and eq :: "'k \<Rightarrow> 'k \<Rightarrow> bool"
    and limit :: nat and size_of :: "'s \<Rightarrow> nat"
    and lookup :: "'s \<Rightarrow> 'k \<Rightarrow> 'v option"
    and put :: "'s \<Rightarrow> 'k \<Rightarrow> 'v option \<Rightarrow> 's option"
    and del :: "'s \<Rightarrow> 'k \<Rightarrow> 's option"
  assumes put_ok: "inv s \<Longrightarrow> k \<in> keys \<Longrightarrow> size_of s + 1 < limit \<Longrightarrow>
      \<exists>s'. put s k v = Some s' \<and> inv s' \<and> size_of s' \<le> size_of s + 1 \<and>
           (\<forall>k'\<in>keys. lookup s' k' = (if eq k k' then v else lookup s k'))"
    and del_ok: "inv s \<Longrightarrow> k \<in> keys \<Longrightarrow>
      \<exists>s'. del s k = Some s' \<and> inv s' \<and> size_of s' \<le> size_of s \<and>
           (\<forall>k'\<in>keys. lookup s' k' = (if eq k k' then None else lookup s k'))"
begin

lemma run_refines:
  assumes "inv s" and "\<forall>op\<in>set ops. map_op_key op \<in> keys" and "size_of s + length ops < limit"
    and "\<forall>k\<in>keys. lookup s k = m k"
  shows "\<exists>s'. map_run put del s ops = Some s' \<and> inv s' \<and>
           (\<forall>k\<in>keys. lookup s' k = map_spec eq m ops k)"
  using assms
proof (induction ops arbitrary: s m)
  case Nil
  then show ?case by simp
next
  case (Cons op ops)
  show ?case
  proof (cases op)
    case (Map_put k v)
    with Cons.prems put_ok [of s k v] obtain s1 where s1: "put s k v = Some s1" "inv s1"
      "size_of s1 \<le> size_of s + 1" "\<forall>k'\<in>keys. lookup s1 k' = (if eq k k' then v else lookup s k')"
      by auto
    with Cons.IH [of s1 "\<lambda>k'. if eq k k' then v else m k'"] Cons.prems Map_put show ?thesis by auto
  next
    case (Map_del k)
    with Cons.prems del_ok [of s k] obtain s1 where s1: "del s k = Some s1" "inv s1"
      "size_of s1 \<le> size_of s" "\<forall>k'\<in>keys. lookup s1 k' = (if eq k k' then None else lookup s k')"
      by auto
    with Cons.IH [of s1 "\<lambda>k'. if eq k k' then None else m k'"] Cons.prems Map_del show ?thesis by auto
  qed
qed

end

section \<open>The hash table implements it\<close>

definition hash_lookup :: "'v ks_hash \<Rightarrow> hkey \<Rightarrow> 'v option" where
  "hash_lookup h k = (case ks_hash_search h k KS_UNLOCKED of None \<Rightarrow> None | Some (v, h') \<Rightarrow> v)"

definition hash_put :: "hash_env \<Rightarrow> 'v ks_hash \<Rightarrow> hkey \<Rightarrow> 'v option \<Rightarrow> 'v ks_hash option" where
  "hash_put env h k v = map_option snd (ks_hash_insert env h k v)"

definition hash_del :: "'v ks_hash \<Rightarrow> hkey \<Rightarrow> 'v ks_hash option" where
  "hash_del h k = map_option snd (ks_hash_remove h k)"

text \<open>A table that checks for duplicates, whose key functions are those of \<open>h0\<close>.\<close>

definition map_inv :: "hkey set \<Rightarrow> 'v ks_hash \<Rightarrow> hash_env \<Rightarrow> 'v ks_hash \<Rightarrow> bool" where
  "map_inv K h0 env h =
     (hash_inv K h \<and> hash_unique h \<and> same_fns h0 h \<and> env_ok env \<and>
      has_flag (hflags h) KS_HASH_FLAG_DUP_CHECK)"

lemma inv_hash:
  assumes "hash_inv K h" and "k \<in> K"
  obtains hv where "hash h k = Some hv"
proof -
  have "hash_lawful K h" using assms(1) by (simp add: hash_inv_def)
  from lawfulD(1) [OF this assms(2)] that show thesis by blast
qed

lemma search_ok:
  assumes "hash_inv K h" and "k \<in> K"
  shows "ks_hash_search h k KS_UNLOCKED =
     Some (case find_key h k of None \<Rightarrow> None | Some e \<Rightarrow> ev e, h)"
proof -
  obtain hv where hv: "hash h k = Some hv" by (rule inv_hash [OF assms])
  let ?i = "indexFor (tablelength h) hv"
  have "mem_rd (htable h) ?i = Some (htable h ! ?i)"
    using assms(1) tablelength_pos [OF assms(1)] indexFor_less by (simp add: mem_rd_def hash_inv_def)
  moreover have "find_key h k = (case dropWhile (\<lambda>e. \<not> keq h k (ek e)) (htable h ! ?i) of
      [] \<Rightarrow> None | x # _ \<Rightarrow> Some x)"
    unfolding find_key_chain [OF assms hv] by (subst find_dropWhile) simp
  ultimately show ?thesis
    using split_chain_key [OF assms hv] hv
    by (cases "dropWhile (\<lambda>e. \<not> keq h k (ek e)) (htable h ! ?i)")
      (simp_all add: ks_hash_search_def del: dropWhile_eq_Nil_conv)
qed

lemma lookup_find:
  assumes "hash_inv K h" and "k \<in> K"
  shows "hash_lookup h k = (case find_key h k of None \<Rightarrow> None | Some e \<Rightarrow> ev e)"
  unfolding hash_lookup_def search_ok [OF assms] by simp

lemma distinct_entries: "hash_inv K h \<Longrightarrow> distinct (entries h)"
  by (simp add: hash_inv_def distinct_map)

lemma set_without_key:
  assumes "hash_inv K h" and "hash_unique h" and "k \<in> K"
  shows "set_mset (without_key h k) = {e \<in> set (entries h). \<not> keq h k (ek e)}"
proof (cases "find_key h k")
  case None
  with find_key_NoneD [OF None] show ?thesis by (auto simp: without_key_def)
next
  case (Some f)
  then have f: "f \<in> set (entries h)" "keq h k (ek f)" using find_key_SomeD by blast+
  have only: "e = f" if "e \<in> set (entries h)" "keq h k (ek e)" for e
    using find_key_unique [OF assms(1,2,3) that] Some by simp
  have "{e \<in> set (entries h). \<not> keq h k (ek e)} = set (entries h) - {f}"
  proof (intro equalityI subsetI)
    fix e assume "e \<in> set (entries h) - {f}"
    then show "e \<in> {e \<in> set (entries h). \<not> keq h k (ek e)}" using only [of e] by blast
  next
    fix e assume "e \<in> {e \<in> set (entries h). \<not> keq h k (ek e)}"
    then show "e \<in> set (entries h) - {f}" using f(2) by blast
  qed
  moreover have "set_mset (mset (entries h) - {#f#}) = set (entries h) - {f}"
    using distinct_entries [OF assms(1)] by (metis mset_remove1 set_mset_mset set_remove1_eq)
  ultimately show ?thesis using Some by (simp add: without_key_def)
qed

text \<open>Looking a key up in a table that has lost the entries equal to \<open>k\<close>, or got a new one.\<close>

lemma find_key_after:
  assumes inv: "hash_inv K h" and uni: "hash_unique h" and k: "k \<in> K"
    and inv': "hash_inv K h'" and fr: "same_fns h h'"
    and sets: "set (entries h') = {e \<in> set (entries h). \<not> keq h k (ek e)} \<union> N"
    and N: "\<forall>e\<in>N. ek e = k" "\<forall>e\<in>N. \<forall>f\<in>N. e = f"
  shows "hash_unique h'"
    and "k' \<in> K \<Longrightarrow> find_key h' k' =
      (if keq h k k' then (if N = {} then None else Some (THE e. e \<in> N)) else find_key h k')"
proof -
  have l: "hash_lawful K h" using inv by (simp add: hash_inv_def)
  note keq' = same_fns_keq [OF fr]
  have inK: "ek e \<in> K" if "e \<in> set (entries h)" for e using entry_in_K [OF inv that] .
  show uni': "hash_unique h'"
    unfolding hash_unique_def keq'
  proof (intro ballI impI)
    fix e f assume e: "e \<in> set (entries h')" and f: "f \<in> set (entries h')" and q: "keq h (ek e) (ek f)"
    show "e = f"
    proof (cases "e \<in> N"; cases "f \<in> N")
      assume "e \<in> N" "f \<notin> N"
      with N f q sets show ?thesis by auto
    next
      assume "e \<notin> N" "f \<in> N"
      with e sets have e': "e \<in> set (entries h)" "\<not> keq h k (ek e)" by auto
      with lawfulD(4) [OF l inK [OF e'(1)] k] q N(1) \<open>f \<in> N\<close> show ?thesis by auto
    qed (use N e f q uni sets in \<open>auto simp: hash_unique_def\<close>)
  qed
  assume k': "k' \<in> K"
  show "find_key h' k' = (if keq h k k' then (if N = {} then None else Some (THE e. e \<in> N)) else find_key h k')"
  proof (cases "keq h k k'")
    case True
    then have sym: "keq h k' k" using lawfulD(4) [OF l k k'] by simp
    show ?thesis
    proof (cases "N = {}")
      case True
      have "\<not> keq h k' (ek e)" if "e \<in> set (entries h')" for e
        using that sets True lawfulD(5) [OF l k k' inK \<open>keq h k k'\<close>] by auto
      then have "find_key h' k' = None" by (auto simp: find_key_def find_None_iff keq')
      with True \<open>keq h k k'\<close> show ?thesis by simp
    next
      case False
      then obtain e where e: "e \<in> N" by auto
      with N have "(THE e. e \<in> N) = e" by blast
      moreover have "find_key h' k' = Some e"
        by (rule find_key_unique [OF inv' uni' k']) (use e sets N sym keq' in auto)
      ultimately show ?thesis using \<open>keq h k k'\<close> False by simp
    qed
  next
    case False
    show ?thesis
    proof (cases "find_key h k'")
      case None
      have nk: "\<not> keq h k' k" using False lawfulD(4) [OF l k' k] by auto
      have "\<not> keq h k' (ek e)" if "e \<in> set (entries h')" for e
        using that sets N nk find_key_NoneD [OF None] by auto
      then have "find_key h' k' = None" by (auto simp: find_key_def find_None_iff keq')
      with None False show ?thesis by simp
    next
      case (Some e)
      then have e: "e \<in> set (entries h)" "keq h k' (ek e)" using find_key_SomeD by blast+
      have "\<not> keq h k (ek e)"
      proof
        assume "keq h k (ek e)"
        moreover have "keq h (ek e) k'" using lawfulD(4) [OF l k' inK [OF e(1)] e(2)] .
        ultimately show False using False lawfulD(5) [OF l k inK [OF e(1)] k'] by blast
      qed
      with e sets have "find_key h' k' = Some e"
        by (intro find_key_unique [OF inv' uni' k']) (auto simp: keq')
      with Some False show ?thesis by simp
    qed
  qed
qed

lemma lookup_after:
  assumes "hash_inv K h" and "hash_unique h" and "k \<in> K" and "hash_inv K h'" and "same_fns h h'"
    and "set (entries h') = {e \<in> set (entries h). \<not> keq h k (ek e)} \<union> N"
    and "\<forall>e\<in>N. ek e = k" "\<forall>e\<in>N. \<forall>f\<in>N. e = f"
    and "k' \<in> K" and "\<forall>e\<in>N. ev e = v" and "N = {} \<longrightarrow> v = None"
  shows "hash_lookup h' k' = (if keq h k k' then v else hash_lookup h k')"
proof -
  have "find_key h' k' =
      (if keq h k k' then (if N = {} then None else Some (THE e. e \<in> N)) else find_key h k')"
    using assms by (intro find_key_after(2))
  moreover have "ev (THE e. e \<in> N) = v" if "N \<noteq> {}"
  proof -
    from that obtain e where "e \<in> N" by auto
    with assms(8) have "(THE e. e \<in> N) = e" by blast
    with \<open>e \<in> N\<close> assms(10) show ?thesis by simp
  qed
  ultimately show ?thesis
    using assms(11) lookup_find [OF assms(4,9)] lookup_find [OF assms(1,9)] by auto
qed

lemma hash_put_ok:
  assumes m: "map_inv K h0 env h" and k: "k \<in> K" and room: "length (entries h) + 1 < 2 ^ 32"
  shows "\<exists>h'. hash_put env h k v = Some h' \<and> map_inv K h0 env h' \<and>
           length (entries h') \<le> length (entries h) + 1 \<and>
           (\<forall>k'\<in>K. hash_lookup h' k' = (if keq h0 k k' then v else hash_lookup h k'))"
proof -
  from m have inv: "hash_inv K h" and uni: "hash_unique h" and fns: "same_fns h0 h"
    and env: "env_ok env" and dup: "has_flag (hflags h) KS_HASH_FLAG_DUP_CHECK"
    by (simp_all add: map_inv_def)
  obtain hv where hv: "hash h k = Some hv" by (rule inv_hash [OF inv k])
  from insert_locked_ok [OF inv k hv env room, of v 0 None] obtain e h' where
    op: "insert_locked env h k v 0 None hv (indexFor (tablelength h) hv) = Some (KS_STATUS_SUCCESS, h')"
    and inv': "hash_inv K h'" and fr: "hash_frame h h'" and e: "ek e = k" "ev e = v"
    and ms: "mset (entries h') = add_mset e (if has_flag (effective_flags h 0) KS_HASH_FLAG_DUP_CHECK
              then without_key h k else mset (entries h))" by blast
  have ms: "mset (entries h') = add_mset e (without_key h k)"
    using ms dup by (simp add: effective_flags_def)
  have "set (entries h') = insert e (set_mset (without_key h k))"
    using ms by (metis set_mset_add_mset_insert set_mset_mset)
  then have sets: "set (entries h') = {e \<in> set (entries h). \<not> keq h k (ek e)} \<union> {e}"
    using set_without_key [OF inv uni k] by simp
  have sf: "same_fns h h'" using fr by (simp add: hash_frame_def)
  have "hash_unique h'" using find_key_after(1) [OF inv uni k inv' sf sets] e by simp
  moreover have "size (without_key h k) \<le> length (entries h)"
    by (simp add: without_key_def size_Diff1_le [of "mset (entries h)", simplified] split: option.split)
  then have "length (entries h') \<le> length (entries h) + 1"
    using ms by (metis Suc_eq_plus1 add_le_mono1 size_add_mset size_mset)
  moreover have "hash_lookup h' k' = (if keq h0 k k' then v else hash_lookup h k')" if "k' \<in> K" for k'
    using lookup_after [OF inv uni k inv' sf sets _ _ that, of v] e same_fns_keq [OF fns] by simp
  moreover have "map_inv K h0 env h'"
    using m inv' fr same_fns_trans [OF fns sf] \<open>hash_unique h'\<close>
    by (simp add: map_inv_def hash_frame_def)
  ultimately show ?thesis
    using op hv by (simp add: hash_put_def ks_hash_insert_def ks_hash_insert_ex_def)
qed

text \<open>\<open>ks_hash_remove\<close>, on any well-formed table.\<close>

lemma ks_hash_remove_ok:
  assumes inv: "hash_inv K h" and k: "k \<in> K"
  shows "\<exists>h'. ks_hash_remove h k =
             Some (case find_key h k of None \<Rightarrow> None | Some e \<Rightarrow> fst (drop_entry (hdestructor h) e), h') \<and>
           hash_inv K h' \<and> hash_frame h h' \<and> mset (entries h') = without_key h k"
proof -
  obtain hv where hv: "hash h k = Some hv" by (rule inv_hash [OF inv k])
  define h1 where "h1 = h_emit (lock_events h) h"
  have h1: "hash_inv K h1" "hash_frame h h1" "hash h1 k = Some hv" "tablelength h1 = tablelength h"
    "entries h1 = entries h" "find_key h1 k = find_key h k" "hdestructor h1 = hdestructor h"
    using inv hv frame_fns(1) [OF frame_emit(1) [of h "lock_events h"]] by (simp_all add: h1_def)
  have lock: "ks_hash_write_lock h = Some h1"
    using inv by (simp add: h1_def write_lock_ok hash_inv_def)
  from hash_remove_at_ok [OF h1(1) k h1(3)] obtain v h2 where
    rm: "hash_remove_at h1 k hv (indexFor (tablelength h1) hv) = Some (v, h2)"
    and h2: "hash_inv K h2" "hash_frame h1 h2"
      "case find_key h1 k of None \<Rightarrow> h2 = h1 \<and> v = None
       | Some e \<Rightarrow> mset (entries h1) = add_mset e (mset (entries h2)) \<and>
           v = fst (drop_entry (hdestructor h1) e) \<and>
           hevents h2 = hevents h1 @ snd (drop_entry (hdestructor h1) e)" by blast
  define h3 where "h3 = h_emit (unlock_events h2) h2"
  have unlock: "ks_hash_write_unlock h2 = Some h3"
    using h2(1) by (simp add: h3_def write_lock_ok hash_inv_def)
  have op: "ks_hash_remove h k = Some (v, h3)"
    by (simp add: ks_hash_remove_def hv lock rm unlock)
  have h3: "hash_inv K h3" "hash_frame h h3" "entries h3 = entries h2"
    using h2(1) frame_trans [OF h1(2) frame_trans [OF h2(2) frame_emit(1)]] by (simp_all add: h3_def)
  show ?thesis
    using op h3 h2(3) h1(5-7) by (cases "find_key h k") (auto simp: without_key_def)
qed

lemma hash_del_ok:
  assumes m: "map_inv K h0 env h" and k: "k \<in> K"
  shows "\<exists>h'. hash_del h k = Some h' \<and> map_inv K h0 env h' \<and> length (entries h') \<le> length (entries h) \<and>
           (\<forall>k'\<in>K. hash_lookup h' k' = (if keq h0 k k' then None else hash_lookup h k'))"
proof -
  from m have inv: "hash_inv K h" and uni: "hash_unique h" and fns: "same_fns h0 h"
    by (simp_all add: map_inv_def)
  from ks_hash_remove_ok [OF inv k] obtain v h' where
    op: "ks_hash_remove h k = Some (v, h')" and inv': "hash_inv K h'" and fr: "hash_frame h h'"
    and ms: "mset (entries h') = without_key h k" by blast
  have "set (entries h') = set_mset (without_key h k)" using ms by (metis set_mset_mset)
  then have sets: "set (entries h') = {e \<in> set (entries h). \<not> keq h k (ek e)} \<union> {}"
    using set_without_key [OF inv uni k] by simp
  have sf: "same_fns h h'" using fr by (simp add: hash_frame_def)
  have "hash_unique h'" using find_key_after(1) [OF inv uni k inv' sf sets] by simp
  moreover have "size (without_key h k) \<le> length (entries h)"
    by (simp add: without_key_def size_Diff1_le [of "mset (entries h)", simplified] split: option.split)
  then have "length (entries h') \<le> length (entries h)" using ms by (metis size_mset)
  moreover have "hash_lookup h' k' = (if keq h0 k k' then None else hash_lookup h k')" if "k' \<in> K" for k'
    using lookup_after [OF inv uni k inv' sf sets _ _ that, of None] same_fns_keq [OF fns] by simp
  moreover have "map_inv K h0 env h'"
    using m inv' fr same_fns_trans [OF fns sf] \<open>hash_unique h'\<close>
    by (simp add: map_inv_def hash_frame_def)
  ultimately show ?thesis using op by (simp add: hash_del_def)
qed

interpretation hmap: ks_map "map_inv K h0 env" K "keq h0" "2 ^ 32" "\<lambda>h. length (entries h)"
  hash_lookup "hash_put env" hash_del
  for K :: "hkey set" and h0 :: "'v ks_hash" and env
  by unfold_locales (use hash_put_ok hash_del_ok in blast)+

end
