(* ===== verification/Ks_Hash_Props.thy ===== *)
theory Ks_Hash_Props
  imports Ks_Hash_Map
begin

text \<open>
  Which keys each mode of \<open>ks_hash_create\<close> can be used with and which of them it takes for equal,
  the table as a map over these keys, growth, iteration, destruction, and the unlocked computation
  of the bucket index.
\<close>

section \<open>The identity of a key\<close>

datatype key_id = Id_bytes mem | Id_word u64

definition key_ident :: "'v ks_hash \<Rightarrow> hkey \<Rightarrow> key_id option" where
  "key_ident h k =
     (case hmode h of
        KS_HASH_MODE_ARBITRARY \<Rightarrow> map_option Id_bytes (mem_sub (kmem k) 0 (keysize h))
      | KS_HASH_MODE_INT \<Rightarrow> Some (Id_word (take_bit 32 (kptr k)))
      | KS_HASH_MODE_INT64 \<Rightarrow> Some (Id_word (kptr k))
      | KS_HASH_MODE_PTR \<Rightarrow> Some (Id_word (kptr k))
      | KS_HASH_MODE_UUID \<Rightarrow> map_option Id_bytes (mem_sub (kmem k) 0 16)
      | _ \<Rightarrow> map_option Id_bytes (c_str (kmem k)))"

definition valid_keys :: "'v ks_hash \<Rightarrow> hkey set" where
  "valid_keys h = {k. key_ident h k \<noteq> None}"

text \<open>A table whose functions are the ones its mode chooses.\<close>

definition standard_fns :: "'v ks_hash \<Rightarrow> bool" where
  "standard_fns h =
     (case hmode h of
        KS_HASH_MODE_ARBITRARY \<Rightarrow> True
      | KS_HASH_MODE_INT \<Rightarrow> hashfn h = Hash_int \<and> eqfn h = Eq_int
      | KS_HASH_MODE_INT64 \<Rightarrow> hashfn h = Hash_int64 \<and> eqfn h = Eq_int64
      | KS_HASH_MODE_PTR \<Rightarrow> hashfn h = Hash_ptr \<and> eqfn h = Eq_ptr
      | KS_HASH_MODE_UUID \<Rightarrow> hashfn h = Hash_uuid \<and> eqfn h = Eq_uuid
      | KS_HASH_MODE_CASE_INSENSITIVE \<Rightarrow> hashfn h = Hash_ci \<and> eqfn h = Eq_default
      | _ \<Rightarrow> hashfn h = Hash_default \<and> eqfn h = Eq_default)"

lemma rd_u32_ptr: "rd_u32 (le_bytes 8 p) 0 = Some (ucast p)"
proof -
  have "take 4 (le_bytes 8 p) = le_bytes 4 p" by (simp add: le_bytes_def take_map)
  moreover have "length (le_bytes 8 p) = 8" by (simp add: le_bytes_def)
  ultimately show ?thesis by (simp add: rd_u32_def mem_sub_def le_val_bytes wi_bintr)
qed

lemma rd_u64_ptr: "rd_u64 (le_bytes 8 p) 0 = Some p"
proof -
  have "take 8 (le_bytes 8 p) = le_bytes 8 p" by (simp add: le_bytes_def)
  moreover have "length (le_bytes 8 p) = 8" by (simp add: le_bytes_def)
  ultimately show ?thesis by (simp add: rd_u64_def mem_sub_def le_val_bytes wi_bintr)
qed

lemma ucast_eq_take_bit: "(ucast (p :: u64) :: u32) = ucast q \<longleftrightarrow> take_bit 32 p = take_bit 32 q"
proof
  assume e: "(ucast p :: u32) = ucast q"
  have "bit p n = bit q n" if "n < 32" for n
    using arg_cong [OF e, of "\<lambda>w. bit w n"] that by (simp add: bit_simps)
  then show "take_bit 32 p = take_bit 32 q" by (intro bit_word_eqI) (auto simp: bit_simps)
next
  assume e: "take_bit 32 p = take_bit 32 q"
  have "bit p n = bit q n" if "n < 32" for n
    using arg_cong [OF e, of "\<lambda>w. bit w n"] that by (simp add: bit_simps)
  then show "(ucast p :: u32) = ucast q" by (intro bit_word_eqI) (auto simp: bit_simps)
qed

text \<open>The string hashes depend on the bytes before the NUL.\<close>

lemma default_loop_c_str:
  "default_loop x m = map_option (\<lambda>s. fold (\<lambda>b. str_hash_step (uint b)) s x) (c_str m)"
proof (induction m arbitrary: x)
  case (Cons b m)
  have "uint b = 0 \<longleftrightarrow> b = 0" by (simp add: uint_0_iff)
  with Cons show ?case by (cases "c_str m") auto
qed simp

lemma ks_tolower_byte: "ks_tolower (uint (b :: byte)) = 0 \<longleftrightarrow> b = 0"
  using ks_tolower_int [of "uint b"] uint_byte [of b] by (auto simp: uint_0_iff)

lemma default_ci_loop_c_str:
  "default_ci_loop x m = map_option (\<lambda>s. fold (\<lambda>b. str_hash_step (ks_tolower (uint b))) s x) (c_str m)"
proof (induction m arbitrary: x)
  case (Cons b m)
  with ks_tolower_byte [of b] show ?case by (cases "c_str m") auto
qed simp

section \<open>The standard functions are lawful\<close>

lemma call_simps:
  "call_hashfn Hash_default k = ks_hash_default (kmem k)"
  "call_hashfn Hash_ci k = ks_hash_default_ci (kmem k)"
  "call_hashfn Hash_int k = ks_hash_default_int (kmem k)"
  "call_hashfn Hash_int64 k = ks_hash_default_int64 (kmem k)"
  "call_hashfn Hash_uuid k = ks_hash_default_uuid (kmem k)"
  "call_hashfn Hash_ptr k = ks_hash_default_ptr (kmem k)"
  "call_eqfn Eq_default k k' = ks_hash_equalkeys (kmem k) (kmem k')"
  "call_eqfn Eq_int k k' = ks_hash_equalkeys_int (kmem k) (kmem k')"
  "call_eqfn Eq_int64 k k' = ks_hash_equalkeys_int64 (kmem k) (kmem k')"
  "call_eqfn Eq_uuid k k' = ks_hash_equalkeys_uuid (kmem k) (kmem k')"
  "call_eqfn Eq_ptr k k' = ks_hash_equalkeys_ptr (kmem k) (kmem k')"
  "kmem (addr_of_key k) = le_bytes 8 (kptr k)"
  by (simp_all add: call_hashfn_def call_eqfn_def addr_of_key_def)

lemma mem_sub_SomeD: "mem_sub m i n = Some bs \<Longrightarrow> i + n \<le> length m \<and> bs = take n (drop i m)"
  by (auto simp: mem_sub_def split: if_splits)

lemma ident_equals:
  assumes "standard_fns h" and "key_ident h k = Some a" and "key_ident h k' = Some b"
  shows "key_equals h k k' = Some (a = b)"
  using assms
  by (cases "hmode h")
    (auto simp: standard_fns_def key_ident_def key_equals_def call_simps ks_hash_equalkeys_def
      strcmp_eq_c_str ks_hash_equalkeys_int_def ks_hash_equalkeys_int64_def ks_hash_equalkeys_ptr_def
      ks_hash_equalkeys_uuid_def memcmp_eq_def rd_u32_ptr rd_u64_ptr ucast_eq_take_bit)

lemma rd_u64_prefix:
  assumes "mem_sub m 0 16 = Some bs"
  shows "rd_u64 m 0 = Some (word_of_int (le_val (take 8 bs)))"
    and "rd_u64 m 8 = Some (word_of_int (le_val (take 8 (drop 8 bs))))"
  using mem_sub_SomeD [OF assms] by (simp_all add: rd_u64_def mem_sub_def take_drop)

lemma same_bytes_prefix:
  assumes "mem_sub (kmem k) 0 n = Some bs" and "mem_sub (kmem k') 0 n = Some bs"
  shows "same_bytes k k' n"
proof -
  from assms have "n \<le> length (kmem k)" "n \<le> length (kmem k')" "take n (kmem k) = take n (kmem k')"
    by (auto dest!: mem_sub_SomeD)
  then show ?thesis unfolding same_bytes_def k8_def by (metis nth_take order_less_le_trans)
qed

lemma ident_hash:
  assumes "standard_fns h" and "key_ident h k = Some a" and "key_ident h k' = Some a"
  shows "\<exists>x. hash h k = Some x \<and> hash h k' = Some x"
proof (cases "hmode h")
  case KS_HASH_MODE_ARBITRARY
  with assms obtain bs where
    bs: "mem_sub (kmem k) 0 (keysize h) = Some bs" "mem_sub (kmem k') 0 (keysize h) = Some bs"
    by (auto simp: key_ident_def)
  with ks_hash_default_arbitrary_same [OF same_bytes_prefix [OF bs], of 13] mem_sub_SomeD [OF bs(1)]
    mem_sub_SomeD [OF bs(2)] KS_HASH_MODE_ARBITRARY show ?thesis by (simp add: hash_def)
next
  case KS_HASH_MODE_INT
  with assms have "(ucast (kptr k) :: u32) = ucast (kptr k')"
    by (auto simp: key_ident_def ucast_eq_take_bit)
  with KS_HASH_MODE_INT assms(1) show ?thesis
    by (simp add: hash_def standard_fns_def call_simps ks_hash_default_int_def rd_u32_ptr)
next
  case KS_HASH_MODE_UUID
  with assms obtain bs where bs: "mem_sub (kmem k) 0 16 = Some bs" "mem_sub (kmem k') 0 16 = Some bs"
    by (auto simp: key_ident_def)
  with rd_u64_prefix [OF bs(1)] rd_u64_prefix [OF bs(2)] KS_HASH_MODE_UUID assms(1) show ?thesis
    by (simp add: hash_def standard_fns_def call_simps ks_hash_default_uuid_def)
qed (use assms in \<open>auto simp: standard_fns_def key_ident_def hash_def call_simps ks_hash_default_def
      ks_hash_default_ci_def default_loop_c_str default_ci_loop_c_str ks_hash_default_int_def
      ks_hash_default_int64_def ks_hash_default_ptr_def rd_u32_ptr rd_u64_ptr ucast_eq_take_bit\<close>)

lemma ident_keq:
  assumes "standard_fns h" and "k \<in> valid_keys h" and "k' \<in> valid_keys h"
  shows "keq h k k' \<longleftrightarrow> key_ident h k = key_ident h k'"
  using assms ident_equals [OF assms(1)] by (auto simp: valid_keys_def keq_def)

lemma standard_lawful:
  assumes "standard_fns h"
  shows "hash_lawful (valid_keys h) h"
proof -
  have total: "key_equals h k k' \<noteq> None" if "k \<in> valid_keys h" "k' \<in> valid_keys h" for k k'
    using that ident_equals [OF assms] by (auto simp: valid_keys_def)
  have hash: "hash h k = hash h k' \<and> hash h k \<noteq> None"
    if "k \<in> valid_keys h" "k' \<in> valid_keys h" "key_ident h k = key_ident h k'" for k k'
    using that ident_hash [OF assms, of k _ k'] by (auto simp: valid_keys_def)
  show ?thesis
    unfolding hash_lawful_def
    using total hash ident_keq [OF assms] by (intro conjI ballI impI) (metis+)
qed

section \<open>Creation\<close>

lemma first_prime_ok:
  "\<exists>p\<in>set ps. minsize < p \<Longrightarrow> first_prime minsize i ps = (j, p) \<Longrightarrow>
     i \<le> j \<and> j < i + length ps \<and> p = ps ! (j - i)"
proof (induction ps arbitrary: i)
  case (Cons q ps)
  then show ?case
    by (cases "minsize < q") (fastforce simp: nth_Cons' dest: Cons.IH)+
qed simp

lemma load_limit_created: "load_limit 53 = 35"
  by (simp add: load_limit_def float32_def round24.simps)

lemma flag_not_rwlock:
  "has_flag (f AND NOT KS_HASH_FLAG_RWLOCK) KS_HASH_FLAG_RWLOCK = False"
  by (simp add: has_flag_def and.assoc)

lemma flag_and_not:
  "has_flag (f AND NOT KS_HASH_FLAG_RWLOCK) KS_HASH_FLAG_NOLOCK = has_flag f KS_HASH_FLAG_NOLOCK"
  "has_flag (f AND NOT KS_HASH_FLAG_RWLOCK) KS_HASH_FLAG_DUP_CHECK = has_flag f KS_HASH_FLAG_DUP_CHECK"
  by (simp_all add: has_flag_def and.assoc KS_HASH_FLAG_RWLOCK_def KS_HASH_FLAG_NOLOCK_def
      KS_HASH_FLAG_DUP_CHECK_def)

lemma ks_hash_create_ok:
  "\<exists>h :: 'v ks_hash. ks_hash_create mode flags = Some (KS_STATUS_SUCCESS, Some h) \<and> hmode h = mode \<and>
     standard_fns h \<and> hash_inv (valid_keys h) h \<and> entries h = [] \<and> hdestructor h = None \<and>
     has_flag (hflags h) KS_HASH_FLAG_DUP_CHECK = has_flag flags KS_HASH_FLAG_DUP_CHECK"
proof -
  obtain hf ef ks where fns: "mode_fns mode None None = Some (hf, ef, ks)"
    by (cases mode) (auto simp: mode_fns_def)
  define fl where "fl = (if has_flag flags KS_HASH_FLAG_NOLOCK
      then flags AND NOT KS_HASH_FLAG_RWLOCK else flags)"
  define h :: "'v ks_hash" where "h = \<lparr>tablelength = 53, htable = replicate 53 [], entrycount = 0,
      loadlimit = load_limit 53, primeindex = 0,
      hashfn = (case hf of None \<Rightarrow> Hash_default | Some f \<Rightarrow> f),
      eqfn = (case ef of None \<Rightarrow> Eq_default | Some f \<Rightarrow> f), hflags = fl, hdestructor = None,
      has_rwl = has_flag fl KS_HASH_FLAG_RWLOCK, has_mutex = (\<not> has_flag fl KS_HASH_FLAG_NOLOCK),
      readers = 0, keysize = ks, hmode = mode, hbrk = 0,
      hevents = (if has_flag fl KS_HASH_FLAG_RWLOCK then [Rwl_create] else []) @
        (if \<not> has_flag fl KS_HASH_FLAG_NOLOCK then [Mutex_create] else [])\<rparr>"
  have "first_prime 16 0 primes = (0, 53)" by (simp add: primes_def)
  then have create: "ks_hash_create mode flags = Some (KS_STATUS_SUCCESS, Some h)"
    by (simp add: ks_hash_create_def ks_hash_create_ex_def fns h_def fl_def Let_def)
  have std: "standard_fns h"
    using fns by (cases mode) (auto simp: standard_fns_def h_def mode_fns_def)
  have ents: "entries h = []" by (simp add: entries_def h_def)
  have "locks_ok h"
    by (simp add: locks_ok_def h_def fl_def flag_not_rwlock)
  moreover have "primeindex h < length primes" "tablelength h = primes ! primeindex h"
    by (simp_all add: h_def primes_def)
  ultimately have "hash_inv (valid_keys h) h"
    using standard_lawful [OF std] ents by (simp add: hash_inv_def) (simp add: h_def)
  with create std ents show ?thesis
    by (intro exI [of _ h]) (simp add: h_def fl_def flag_and_not)
qed

lemma ks_hash_created:
  fixes h :: "'v ks_hash"
  assumes "ks_hash_create mode flags = Some (KS_STATUS_SUCCESS, Some h)"
  shows "hmode h = mode" "standard_fns h" "hash_inv (valid_keys h) h" "entries h = []"
    "hdestructor h = None"
    "has_flag (hflags h) KS_HASH_FLAG_DUP_CHECK = has_flag flags KS_HASH_FLAG_DUP_CHECK"
proof -
  obtain h' :: "'v ks_hash" where h': "ks_hash_create mode flags = Some (KS_STATUS_SUCCESS, Some h')"
    "hmode h' = mode" "standard_fns h'" "hash_inv (valid_keys h') h'" "entries h' = []"
    "hdestructor h' = None"
    "has_flag (hflags h') KS_HASH_FLAG_DUP_CHECK = has_flag flags KS_HASH_FLAG_DUP_CHECK"
    using ks_hash_create_ok by blast
  from h'(1) assms have "h' = h" by simp
  with h'(2-) show "hmode h = mode" "standard_fns h" "hash_inv (valid_keys h) h" "entries h = []"
    "hdestructor h = None"
    "has_flag (hflags h) KS_HASH_FLAG_DUP_CHECK = has_flag flags KS_HASH_FLAG_DUP_CHECK" by simp_all
qed

section \<open>Properties\<close>

text \<open>
  C19: the hash of an arbitrary key is the same whichever of the three readings its alignment
  selects, and depends on nothing but the first \<open>n\<close> bytes of the key: not on its address and not on
  the bytes behind it that the word-wise reading touches.
\<close>

theorem ks_hash_arbitrary_stable:
  assumes "mem_sub (kmem k) 0 n = Some bs" and "mem_sub (kmem k') 0 n = Some bs"
  shows "ks_hash_default_arbitrary k n init = ks_hash_default_arbitrary k' n init"
  by (rule ks_hash_default_arbitrary_same) (rule same_bytes_prefix [OF assms])

theorem ks_hash_arbitrary_stable_witness:
  "ks_hash_default_arbitrary \<lparr>kptr = 4096, kmem = [1, 2, 3], kafter = (\<lambda>_. 9)\<rparr> 3 13 =
   ks_hash_default_arbitrary \<lparr>kptr = 4099, kmem = [1, 2, 3, 4], kafter = (\<lambda>_. 0)\<rparr> 3 13"
  by (rule ks_hash_arbitrary_stable [of _ _ "[1, 2, 3]"]) (simp_all add: mem_sub_def)

text \<open>
  C18: every table that \<open>ks_hash_create\<close> returns, in every mode, is well formed and empty, its hash
  and equality functions agree on all valid keys, and two valid keys are taken for equal exactly
  when they have the same identity: the same string, the same low 32 bits or 64 bits of the pointer,
  the same 16 bytes, or the same \<open>keysize\<close> bytes.
\<close>

theorem ks_hash_create_lawful:
  "\<exists>h :: 'v ks_hash. ks_hash_create mode flags = Some (KS_STATUS_SUCCESS, Some h) \<and> hmode h = mode \<and>
     hash_inv (valid_keys h) h \<and> ks_hash_count h = 0 \<and>
     (\<forall>k k' a b. key_ident h k = Some a \<and> key_ident h k' = Some b \<longrightarrow>
        key_equals h k k' = Some (a = b) \<and> (a = b \<longrightarrow> hash h k = hash h k'))"
proof -
  from ks_hash_create_ok [of mode flags] obtain h :: "'v ks_hash" where
    h: "ks_hash_create mode flags = Some (KS_STATUS_SUCCESS, Some h)" "hmode h = mode"
    "standard_fns h" "hash_inv (valid_keys h) h" "entries h = []" by blast
  moreover have "key_equals h k k' = Some (a = b) \<and> (a = b \<longrightarrow> hash h k = hash h k')"
    if "key_ident h k = Some a" "key_ident h k' = Some b" for k k' a b
    using ident_equals [OF h(3) that] ident_hash [OF h(3) that(1), of k'] that(2) by auto
  moreover have "ks_hash_count h = 0" using inv_count [OF h(4)] h(5) by (simp add: ks_hash_count_def)
  ultimately show ?thesis by blast
qed

definition int_key :: "u64 \<Rightarrow> hkey" where
  "int_key p = \<lparr>kptr = p, kmem = [], kafter = (\<lambda>_. 0)\<rparr>"

definition str_key :: "byte list \<Rightarrow> hkey" where
  "str_key s = \<lparr>kptr = 4096, kmem = s @ [0], kafter = (\<lambda>_. 0)\<rparr>"

text \<open>The integers 1 and \<open>2^32 + 1\<close> are the same key of an \<open>int\<close> table.\<close>

theorem ks_hash_create_lawful_witness:
  "\<exists>h :: nat ks_hash. ks_hash_create KS_HASH_MODE_INT 0 = Some (KS_STATUS_SUCCESS, Some h) \<and>
     key_equals h (int_key 1) (int_key 4294967297) = Some True"
proof -
  from ks_hash_create_lawful [of KS_HASH_MODE_INT 0] obtain h :: "nat ks_hash" where
    h: "ks_hash_create KS_HASH_MODE_INT 0 = Some (KS_STATUS_SUCCESS, Some h)" "hmode h = KS_HASH_MODE_INT"
    "\<And>k k' a b. key_ident h k = Some a \<and> key_ident h k' = Some b \<Longrightarrow> key_equals h k k' = Some (a = b)"
    by blast
  then have "key_ident h (int_key 1) = Some (Id_word 1)" "key_ident h (int_key 4294967297) = Some (Id_word 1)"
    by (simp_all add: key_ident_def int_key_def)
  with h(1) h(3) [of "int_key 1" "Id_word 1" "int_key 4294967297" "Id_word 1"] show ?thesis by auto
qed

lemma map_spec_cong:
  assumes "\<And>k k'. k \<in> K \<Longrightarrow> k' \<in> K \<Longrightarrow> eq k k' = eq' k k'" and "\<forall>op\<in>set ops. map_op_key op \<in> K"
    and "\<forall>k\<in>K. m k = m' k" and "k \<in> K"
  shows "map_spec eq m ops k = map_spec eq' m' ops k"
  using assms(2,3)
proof (induction ops arbitrary: m m')
  case Nil
  then show ?case using assms(4) by simp
next
  case (Cons op ops)
  then show ?case using assms(1) by (cases op) (simp_all add: Cons.IH)
qed

text \<open>
  C1: a table created with \<open>KS_HASH_FLAG_DUP_CHECK\<close>, in any mode, is a map from key identities to
  values. Any sequence of fewer than \<open>2^32\<close> insertions and removals with valid keys, across any
  number of expansions, runs without a fault, and every search afterwards returns what the map says.
\<close>

theorem ks_hash_refines_map:
  assumes "ks_hash_create mode flags = Some (KS_STATUS_SUCCESS, Some h)"
    and "has_flag flags KS_HASH_FLAG_DUP_CHECK" and "env_ok env"
    and "\<forall>op\<in>set ops. map_op_key op \<in> valid_keys h" and "length ops < 2 ^ 32"
  shows "\<exists>h'. map_run (hash_put env) hash_del h ops = Some h' \<and>
           (\<forall>k\<in>valid_keys h. hash_lookup h' k =
              map_spec (\<lambda>k k'. key_ident h k = key_ident h k') (\<lambda>_. None) ops k)"
proof -
  from ks_hash_created [OF assms(1)] assms(2) have h: "standard_fns h" "hash_inv (valid_keys h) h"
    "entries h = []" "has_flag (hflags h) KS_HASH_FLAG_DUP_CHECK" by simp_all
  then have "map_inv (valid_keys h) h env h"
    using assms(3) by (simp add: map_inv_def hash_unique_def same_fns_def)
  moreover have "\<forall>k\<in>valid_keys h. hash_lookup h k = None"
    using lookup_find [OF h(2)] h(3) by (simp add: find_key_def)
  ultimately obtain h' where "map_run (hash_put env) hash_del h ops = Some h'"
    "\<forall>k\<in>valid_keys h. hash_lookup h' k = map_spec (keq h) (\<lambda>_. None) ops k"
    using hmap.run_refines [of "valid_keys h" h env h ops "\<lambda>_. None"] assms(4,5) h(3) by auto
  then show ?thesis
    using map_spec_cong [OF ident_keq [OF h(1)] assms(4)] by simp
qed

definition demo_env :: hash_env where
  "demo_env = \<lparr>table_ok = True, resize_ok = True\<rparr>"

theorem ks_hash_refines_map_witness:
  "\<exists>h h'. ks_hash_create KS_HASH_MODE_INT KS_HASH_FLAG_DUP_CHECK = Some (KS_STATUS_SUCCESS, Some h) \<and>
     map_run (hash_put demo_env) hash_del h
       [Map_put (int_key 1) (Some (10 :: nat)), Map_put (int_key 2) (Some 20),
        Map_put (int_key 1) (Some 11), Map_del (int_key 2)] = Some h' \<and>
     hash_lookup h' (int_key 1) = Some 11 \<and> hash_lookup h' (int_key 2) = None"
proof -
  obtain h :: "nat ks_hash" where
    h: "ks_hash_create KS_HASH_MODE_INT KS_HASH_FLAG_DUP_CHECK = Some (KS_STATUS_SUCCESS, Some h)"
    "hmode h = KS_HASH_MODE_INT"
    using ks_hash_create_ok [of KS_HASH_MODE_INT KS_HASH_FLAG_DUP_CHECK] by blast
  have id: "key_ident h (int_key p) = Some (Id_word (take_bit 32 p))" for p
    using h(2) by (simp add: key_ident_def int_key_def)
  then have v: "int_key p \<in> valid_keys h" for p by (simp add: valid_keys_def)
  from ks_hash_refines_map [OF h(1), of demo_env
      "[Map_put (int_key 1) (Some (10 :: nat)), Map_put (int_key 2) (Some 20),
        Map_put (int_key 1) (Some 11), Map_del (int_key 2)]"]
  obtain h' where "map_run (hash_put demo_env) hash_del h
       [Map_put (int_key 1) (Some (10 :: nat)), Map_put (int_key 2) (Some 20),
        Map_put (int_key 1) (Some 11), Map_del (int_key 2)] = Some h'"
    "\<forall>k\<in>valid_keys h. hash_lookup h' k = map_spec (\<lambda>k k'. key_ident h k = key_ident h k') (\<lambda>_. None)
       [Map_put (int_key 1) (Some 10), Map_put (int_key 2) (Some 20),
        Map_put (int_key 1) (Some 11), Map_del (int_key 2)] k"
    by (auto simp: v env_ok_def demo_env_def has_flag_def KS_HASH_FLAG_DUP_CHECK_def)
  with h v [of 1] v [of 2] show ?thesis by (auto simp: id)
qed

text \<open>
  growing the table moves every entry to the chain its hash value selects and loses none, but it
  reverses the entries of equal hash value. A table used without the duplicate check therefore
  returns the newest value of a repeated key before the growth and the oldest one after it.
\<close>

lemma ks_hash_expand_reverses:
  assumes "primeindex h + 1 < length primes" and "table_ok env"
  shows "\<exists>h'. ks_hash_expand env h = Some (True, h') \<and> mset (entries h') = mset (entries h) \<and>
           (\<forall>i<tablelength h'. htable h' ! i =
              rev (filter (\<lambda>e. indexFor (tablelength h') (eh e) = i) (entries h)))"
proof -
  have "0 < primes ! (primeindex h + 1)" using assms(1) by (intro primes_pos nth_mem)
  from mset_rehash [OF this] show ?thesis
    using assms by (auto simp: ks_hash_expand_def mem_rd_def entries_def rehash_nth)
qed

text \<open>
  a table in mode \<open>KS_HASH_MODE_CASE_INSENSITIVE\<close> compares its keys case sensitively: the mode
  selects the hash function that ignores case, but leaves the equality function at \<open>strcmp\<close>.
\<close>

lemma ks_hash_ci_compares_case:
  assumes "ks_hash_create KS_HASH_MODE_CASE_INSENSITIVE flags = Some (KS_STATUS_SUCCESS, Some h)"
    and "c_str (kmem k) = Some s" and "c_str (kmem k') = Some s'"
  shows "key_equals h k k' = Some (s = s')"
  using ident_equals [OF ks_hash_created(2) [OF assms(1)], of k "Id_bytes s" k' "Id_bytes s'"]
    ks_hash_created(1) [OF assms(1)] assms(2,3) by (simp add: key_ident_def)

lemma ks_hash_ci_compares_case_witness:
  "\<exists>h :: nat ks_hash. ks_hash_create KS_HASH_MODE_CASE_INSENSITIVE 0 = Some (KS_STATUS_SUCCESS, Some h) \<and>
     hash h (str_key [65]) = hash h (str_key [97]) \<and>
     key_equals h (str_key [65]) (str_key [97]) = Some False"
proof -
  obtain h :: "nat ks_hash" where
    h: "ks_hash_create KS_HASH_MODE_CASE_INSENSITIVE 0 = Some (KS_STATUS_SUCCESS, Some h)"
    "hmode h = KS_HASH_MODE_CASE_INSENSITIVE" "standard_fns h"
    using ks_hash_create_ok [of KS_HASH_MODE_CASE_INSENSITIVE 0] by blast
  have "hash h (str_key [65]) = hash h (str_key [97])"
    using h(2,3) ks_tolower_int [of 65] ks_tolower_int [of 97] ks_tolower_int [of 0]
    by (simp add: hash_def standard_fns_def call_simps ks_hash_default_ci_def str_key_def)
  with h(1) ks_hash_ci_compares_case [OF h(1), of "str_key [65]" "[65]" "str_key [97]" "[97]"]
  show ?thesis by (auto simp: str_key_def)
qed

section \<open>Iteration\<close>

lemma drop_ConsD: "b # bs = drop p t \<Longrightarrow> bs = drop (Suc p) t \<and> p < length t \<and> t ! p = b"
  by (metis drop_Suc drop_tl drop_all linorder_not_less list.distinct(1) list.sel(3) nth_via_drop)

lemma skip_empty_none:
  "bs = drop p t \<Longrightarrow> p \<le> length t \<Longrightarrow> concat bs = [] \<Longrightarrow> length t \<le> skip_empty bs p"
proof (induction bs arbitrary: p)
  case (Cons b bs)
  from drop_ConsD [OF Cons.prems(1)] have d: "bs = drop (Suc p) t" "Suc p \<le> length t" by simp_all
  from Cons.prems(3) have "b = []" "concat bs = []" by auto
  with Cons.IH [OF d] show ?case by simp
qed simp

lemma skip_empty_some:
  "bs = drop p t \<Longrightarrow> concat bs = e # r \<Longrightarrow>
   \<exists>p' post. skip_empty bs p = p' \<and> p' < length t \<and> t ! p' = e # post \<and> r = post @ concat (drop (Suc p') t)"
proof (induction bs arbitrary: p)
  case (Cons b bs)
  from drop_ConsD [OF Cons.prems(1)] have d: "bs = drop (Suc p) t" "p < length t" "t ! p = b" by simp_all
  show ?case
  proof (cases b)
    case Nil
    with Cons.IH [OF d(1)] Cons.prems(2) show ?thesis by simp
  next
    case (Cons f post)
    with \<open>concat (b # bs) = e # r\<close> d show ?thesis by simp
  qed
qed simp

lemma chain_after_split:
  "eaddr e \<notin> eaddr ` set pre \<Longrightarrow>
   chain_after (eaddr e) (pre @ e # post) = Some (case post of [] \<Rightarrow> None | f # _ \<Rightarrow> Some (eaddr f))"
  by (induction pre) auto

lemma chain_after_None: "a \<notin> eaddr ` set b \<Longrightarrow> chain_after a b = None"
  by (induction b) auto

lemma table_after_split:
  assumes "distinct (map eaddr (concat t))" and "p < length t" and "t ! p = pre @ e # post"
  shows "table_after (eaddr e) t = Some (case post of [] \<Rightarrow> None | f # _ \<Rightarrow> Some (eaddr f))"
  using assms
proof (induction t arbitrary: p)
  case (Cons b t)
  show ?case
  proof (cases p)
    case 0
    with Cons.prems show ?thesis by (auto simp: chain_after_split)
  next
    case (Suc q)
    with Cons.prems have q: "q < length t" "t ! q = pre @ e # post" by auto
    then have "e \<in> set (t ! q)" by simp
    moreover from q(1) have "t ! q \<in> set t" by (rule nth_mem)
    ultimately have "e \<in> set (concat t)" by auto
    with Cons.prems(1) have "eaddr e \<notin> eaddr ` set b" by auto
    with Suc Cons show ?thesis by (simp add: chain_after_None)
  qed
qed simp

text \<open>The iterator stands on the entry \<open>e\<close>; \<open>rest\<close> is what follows it in table order.\<close>

definition iter_at :: "'v ks_hash \<Rightarrow> hash_iterator \<Rightarrow> 'v entry \<Rightarrow> 'v entry list \<Rightarrow> bool" where
  "iter_at h i e rest =
     (ie i = Some (eaddr e) \<and> ipos i < length (htable h) \<and>
      (\<exists>pre post. htable h ! ipos i = pre @ e # post \<and>
         rest = post @ concat (drop (Suc (ipos i)) (htable h))))"

lemma next_scan:
  assumes inv: "hash_inv K h" and p: "p \<le> tablelength h"
    and i: "ie i = None" "ipos i = p"
  shows "concat (drop p (htable h)) = [] \<Longrightarrow>
           ks_hash_next h i = map_option (Pair None) (ks_hash_last h (i\<lparr>ipos := skip_empty (drop p (htable h)) p\<rparr>))"
    and "concat (drop p (htable h)) = e # rest \<Longrightarrow>
           \<exists>i'. ks_hash_next h i = Some (Some i', h) \<and> iter_at h i' e rest \<and> ilocked i' = ilocked i"
proof -
  have len: "length (htable h) = tablelength h" using inv by (simp add: hash_inv_def)
  have tk: "take (tablelength h - p) (drop p (htable h)) = drop p (htable h)" using len by simp
  {
    assume "concat (drop p (htable h)) = []"
    with skip_empty_none [OF refl, of p "htable h"] p len i tk show "ks_hash_next h i =
        map_option (Pair None) (ks_hash_last h (i\<lparr>ipos := skip_empty (drop p (htable h)) p\<rparr>))"
      by (simp add: ks_hash_next_def Let_def map_conv_bind_option comp_def)
  next
    assume "concat (drop p (htable h)) = e # rest"
    with skip_empty_some [OF refl, of p "htable h"] p len obtain p' post where
      "skip_empty (drop p (htable h)) p = p'" "p' < tablelength h" "htable h ! p' = e # post"
      "rest = post @ concat (drop (Suc p') (htable h))" by auto
    with i tk len show "\<exists>i'. ks_hash_next h i = Some (Some i', h) \<and> iter_at h i' e rest \<and> ilocked i' = ilocked i"
      by (intro exI [of _ "i\<lparr>ipos := p', ie := Some (eaddr e)\<rparr>"])
        (auto simp: ks_hash_next_def Let_def mem_rd_def iter_at_def intro: exI [of _ "[]"])
  }
qed

lemma next_step:
  assumes inv: "hash_inv K h" and at: "iter_at h i e rest"
  shows "rest = [] \<Longrightarrow> \<exists>p. ks_hash_next h i =
           map_option (Pair None) (ks_hash_last h (i\<lparr>ie := None, ipos := p\<rparr>))"
    and "rest = f # rest' \<Longrightarrow>
           \<exists>i'. ks_hash_next h i = Some (Some i', h) \<and> iter_at h i' f rest' \<and> ilocked i' = ilocked i"
proof -
  from at obtain pre post where
    i: "ie i = Some (eaddr e)" "ipos i < length (htable h)" "htable h ! ipos i = pre @ e # post"
      "rest = post @ concat (drop (Suc (ipos i)) (htable h))" by (auto simp: iter_at_def)
  have len: "length (htable h) = tablelength h" using inv by (simp add: hash_inv_def)
  have ta: "table_after (eaddr e) (htable h) = Some (case post of [] \<Rightarrow> None | f # _ \<Rightarrow> Some (eaddr f))"
    using inv i by (intro table_after_split) (auto simp: hash_inv_def entries_def)
  let ?j = "i\<lparr>ie := None, ipos := Suc (ipos i)\<rparr>"
  have scan: "ks_hash_next h i = ks_hash_next h ?j" if "post = []"
    using that ta i(1) by (simp add: ks_hash_next_def)
  note ns = next_scan [OF inv, of "Suc (ipos i)" ?j]
  {
    assume "rest = []"
    with i(4) scan ns(1) i(2) len show "\<exists>p. ks_hash_next h i =
        map_option (Pair None) (ks_hash_last h (i\<lparr>ie := None, ipos := p\<rparr>))" by auto
  next
    assume r: "rest = f # rest'"
    show "\<exists>i'. ks_hash_next h i = Some (Some i', h) \<and> iter_at h i' f rest' \<and> ilocked i' = ilocked i"
    proof (cases post)
      case Nil
      with scan ns(2) [of f rest'] i r len show ?thesis by simp
    next
      case (Cons g post')
      with r i(4) have "g = f" "rest' = post' @ concat (drop (Suc (ipos i)) (htable h))" by auto
      with Cons ta i show ?thesis
        by (intro exI [of _ "i\<lparr>ie := Some (eaddr f)\<rparr>"])
          (auto simp: ks_hash_next_def iter_at_def intro: exI [of _ "pre @ [e]"])
    qed
  }
qed

text \<open>A client's loop \<open>for (i = ks_hash_first(h, l); i; i = ks_hash_next(&i))\<close>.\<close>

fun hash_walk :: "nat \<Rightarrow> 'v ks_hash \<Rightarrow> hash_iterator option \<Rightarrow> (nat list \<times> 'v ks_hash) option" where
  "hash_walk n h None = Some ([], h)"
| "hash_walk 0 h (Some i) = None"
| "hash_walk (Suc n) h (Some i) =
     do { a \<leftarrow> ie i; (i', h') \<leftarrow> ks_hash_next h i; (as, h'') \<leftarrow> hash_walk n h' i'; Some (a # as, h'') }"

lemma walk_from:
  assumes "hash_inv K h" and "iter_at h i e rest"
    and "\<And>j. ilocked j = ilocked i \<Longrightarrow> ks_hash_last h j = Some h'"
  shows "hash_walk (Suc (length rest)) h (Some i) = Some (map eaddr (e # rest), h')"
  using assms(2,3)
proof (induction rest arbitrary: i e)
  case Nil
  with next_step(1) [OF assms(1) Nil(1)] show ?case
    by (auto simp: iter_at_def)
next
  case (Cons f rest)
  from next_step(2) [OF assms(1) Cons.prems(1) refl] obtain i' where
    i': "ks_hash_next h i = Some (Some i', h)" "iter_at h i' f rest" "ilocked i' = ilocked i" by blast
  from Cons.IH [OF i'(2)] Cons.prems(2) i'(3)
  have "hash_walk (Suc (length rest)) h (Some i') = Some (map eaddr (f # rest), h')" by simp
  moreover have "ie i = Some (eaddr e)" using Cons.prems(1) by (simp add: iter_at_def)
  ultimately show ?case using i'(1) by (simp del: hash_walk.simps(3) add: hash_walk.simps(3) [of "Suc _"])
qed

lemma inv_readers [simp]: "hash_inv K (h\<lparr>readers := r\<rparr>) = hash_inv K h" "entries (h\<lparr>readers := r\<rparr>) = entries h"
proof -
  have "same_fns h (h\<lparr>readers := r\<rparr>)" by (simp add: same_fns_def)
  from same_fns_hash [OF this] same_fns_lawful [OF this]
  show "hash_inv K (h\<lparr>readers := r\<rparr>) = hash_inv K h"
    by (simp add: hash_inv_def chain_ok_def locks_ok_def entries_def)
  show "entries (h\<lparr>readers := r\<rparr>) = entries h" by (simp add: entries_def)
qed

lemma walk_all:
  assumes "hash_inv K h" and "ie i = None" and "ipos i = 0"
    and last: "\<And>j. ilocked j = ilocked i \<Longrightarrow> ks_hash_last h j = Some h'"
  shows "\<exists>i' h1. ks_hash_next h i = Some (i', h1) \<and>
           hash_walk (length (entries h)) h1 i' = Some (map eaddr (entries h), h')"
proof (cases "entries h")
  case Nil
  with next_scan(1) [OF assms(1) _ assms(2,3)] last show ?thesis by (simp add: entries_def)
next
  case (Cons e rest)
  with next_scan(2) [OF assms(1) _ assms(2,3), of e rest] obtain i' where
    i': "ks_hash_next h i = Some (Some i', h)" "iter_at h i' e rest" "ilocked i' = ilocked i"
    by (auto simp: entries_def)
  from walk_from [OF assms(1) i'(2), of h'] last i'(3) i'(1) Cons show ?thesis by simp
qed

text \<open>
  C20: iterating over a well-formed table, with or without the read lock, visits every entry exactly
  once and ends, and at its end the table is unchanged and the reader count is back where it was.
\<close>

theorem ks_hash_iteration:
  assumes inv: "hash_inv K h"
    and lock: "locked = KS_READLOCKED \<longrightarrow> has_flag (hflags h) KS_HASH_FLAG_RWLOCK"
  shows "\<exists>i h1 h'. ks_hash_first h locked = Some (i, h1) \<and>
           hash_walk (length (entries h)) h1 i = Some (map eaddr (entries h), h') \<and>
           distinct (map eaddr (entries h)) \<and> htable h' = htable h \<and> readers h' = readers h"
proof (cases locked)
  case KS_UNLOCKED
  let ?i = "\<lparr>ipos = 0, ilocked = KS_UNLOCKED, ie = None\<rparr>"
  have "\<exists>i' h1. ks_hash_next h ?i = Some (i', h1) \<and>
      hash_walk (length (entries h)) h1 i' = Some (map eaddr (entries h), h_emit [Free_iterator] h)"
    by (rule walk_all [OF inv]) (simp_all add: ks_hash_last_def)
  with KS_UNLOCKED inv show ?thesis
    by (auto simp: ks_hash_first_def hash_inv_def)
next
  case KS_READLOCKED
  with lock inv have l: "has_flag (hflags h) KS_HASH_FLAG_RWLOCK" "has_rwl h" "has_mutex h"
    by (simp_all add: hash_inv_def locks_ok_def)
  let ?i = "\<lparr>ipos = 0, ilocked = KS_READLOCKED, ie = None\<rparr>"
  obtain es where h1: "add_reader h = Some (h_emit es (h\<lparr>readers := readers h + 1\<rparr>))"
    using l by (simp add: add_reader_def use_rwl_def use_mutex_def h_emit_def)
  define h1 where "h1 = h_emit es (h\<lparr>readers := readers h + 1\<rparr>)"
  have inv1: "hash_inv K h1" using inv by (simp add: h1_def)
  have e1: "entries h1 = entries h" by (simp add: h1_def)
  define h' where "h' = h_emit [Mutex_lock, Mutex_unlock, Rwl_read_unlock, Free_iterator]
      (h1\<lparr>readers := readers h\<rparr>)"
  have "\<exists>i' h2. ks_hash_next h1 ?i = Some (i', h2) \<and>
      hash_walk (length (entries h1)) h2 i' = Some (map eaddr (entries h1), h')"
    by (rule walk_all [OF inv1])
      (use l in \<open>simp_all add: ks_hash_last_def use_mutex_def use_rwl_def h1_def h'_def h_emit_def\<close>)
  moreover have "htable h' = htable h" "readers h' = readers h"
    by (simp_all add: h'_def h1_def)
  ultimately show ?thesis
    using KS_READLOCKED l h1 inv by (auto simp: ks_hash_first_def h1_def [symmetric] e1 hash_inv_def)
qed

lemma put_without_check:
  assumes "hash_inv K h" "k \<in> K" "env_ok env" "length (entries h) + 1 < 2 ^ 32"
    and "\<not> has_flag (hflags h) KS_HASH_FLAG_DUP_CHECK"
  obtains h' where "hash_put env h k v = Some h'" "hash_inv K h'" "hash_frame h h'"
    "length (entries h') = length (entries h) + 1"
proof -
  obtain hv where hv: "hash h k = Some hv" by (rule inv_hash [OF assms(1,2)])
  from insert_locked_ok [OF assms(1,2) hv assms(3,4), of v 0 None] assms(5) obtain e h' where
    h': "insert_locked env h k v 0 None hv (indexFor (tablelength h) hv) = Some (KS_STATUS_SUCCESS, h')"
      "hash_inv K h'" "hash_frame h h'" "mset (entries h') = add_mset e (mset (entries h))"
    by (auto simp: effective_flags_def)
  have "length (entries h') = length (entries h) + 1" using h'(4) by (metis Suc_eq_plus1 size_add_mset size_mset)
  then show thesis
    using that [of h'] h' hv by (simp add: hash_put_def ks_hash_insert_def ks_hash_insert_ex_def)
qed

theorem ks_hash_iteration_witness:
  "\<exists>(h0 :: nat ks_hash) h1 h2 i h3 h' xs. ks_hash_create KS_HASH_MODE_INT KS_HASH_FLAG_RWLOCK =
       Some (KS_STATUS_SUCCESS, Some h0) \<and>
     hash_put demo_env h0 (int_key 1) (Some 10) = Some h1 \<and> hash_put demo_env h1 (int_key 2) (Some 20) = Some h2 \<and>
     ks_hash_first h2 KS_READLOCKED = Some (i, h3) \<and> hash_walk 2 h3 i = Some (xs, h') \<and>
     length xs = 2 \<and> distinct xs \<and> readers h' = readers h2"
proof -
  obtain h :: "nat ks_hash" where
    h: "ks_hash_create KS_HASH_MODE_INT KS_HASH_FLAG_RWLOCK = Some (KS_STATUS_SUCCESS, Some h)"
    "hash_inv (valid_keys h) h" "entries h = []" "hmode h = KS_HASH_MODE_INT"
    using ks_hash_create_ok [of KS_HASH_MODE_INT KS_HASH_FLAG_RWLOCK] by blast
  from h(1) have fl: "has_flag (hflags h) KS_HASH_FLAG_RWLOCK" "\<not> has_flag (hflags h) KS_HASH_FLAG_DUP_CHECK"
    by (auto simp: ks_hash_create_def ks_hash_create_ex_def mode_fns_def primes_def has_flag_def
        KS_HASH_FLAG_RWLOCK_def KS_HASH_FLAG_NOLOCK_def KS_HASH_FLAG_DUP_CHECK_def Let_def)
  have v: "int_key p \<in> valid_keys h" for p
    using h(4) by (simp add: valid_keys_def key_ident_def int_key_def)
  have e: "env_ok demo_env" by (simp add: env_ok_def demo_env_def)
  obtain h1 where h1: "hash_put demo_env h (int_key 1) (Some 10) = Some h1" "hash_inv (valid_keys h) h1"
    "hash_frame h h1" "length (entries h1) = 1"
    by (rule put_without_check [OF h(2) v e _ fl(2), of 1 "Some 10"]) (use h(3) in simp_all)
  have fl1: "hflags h1 = hflags h" using h1(3) by (simp add: hash_frame_def)
  obtain h2 where h2: "hash_put demo_env h1 (int_key 2) (Some 20) = Some h2" "hash_inv (valid_keys h) h2"
    "hash_frame h1 h2" "length (entries h2) = 2"
    by (rule put_without_check [OF h1(2) v e, of 2 "Some 20"]) (use h1(4) fl fl1 in simp_all)
  have "has_flag (hflags h2) KS_HASH_FLAG_RWLOCK" using h2(3) fl fl1 by (simp add: hash_frame_def)
  then obtain i h3 h' where "ks_hash_first h2 KS_READLOCKED = Some (i, h3)"
    "hash_walk (length (entries h2)) h3 i = Some (map eaddr (entries h2), h')"
    "distinct (map eaddr (entries h2))" "readers h' = readers h2"
    using ks_hash_iteration [OF h2(2), of KS_READLOCKED] by auto
  with h(1) h1(1) h2(1,4) show ?thesis by (metis length_map)
qed

section \<open>Destruction\<close>

text \<open>
  destroying a well-formed table frees every entry exactly once, runs for each entry the release
  its flags and destructors ask for, and frees the table, the locks and the hash itself after them.
\<close>

lemma ks_hash_destroy_releases:
  assumes "hash_inv K h"
  shows "ks_hash_destroy (Some h) = Some (hevents h @ lock_events h @
           concat (map (\<lambda>e. snd (drop_entry (hdestructor h) e)) (entries h)) @ [Free_table] @
           unlock_events h @ (if has_rwl h then [Free_rwl] else []) @
           (if has_mutex h then [Free_mutex] else []) @ [Free_hash]) \<and>
         distinct (map eaddr (entries h))"
proof -
  have l: "locks_ok h" "length (htable h) = tablelength h" "distinct (map eaddr (entries h))"
    using assms by (simp_all add: hash_inv_def)
  have u: "ks_hash_write_unlock (h_emit es h) = Some (h_emit (unlock_events h) (h_emit es h))" for es
    using l(1) frame_locks [OF frame_emit(1) [of h es]] write_lock_ok(2) [of "h_emit es h"]
    by (simp add: unlock_events_def)
  have ee: "h_emit as (h_emit bs h) = h_emit (bs @ as) h" for as bs by (simp add: h_emit_def)
  show ?thesis
    using l by (simp add: ks_hash_destroy_def write_lock_ok(1) Let_def ee u entries_def)
qed

section \<open>The index is computed outside the lock\<close>

lemma split_chain_fns: "same_fns h h' \<Longrightarrow> split_chain h' k hv es = split_chain h k hv es"
  by (induction es) (simp_all add: entry_matches_def same_fns_key_equals cong: if_cong)

lemma no_match_chain:
  assumes "hash_inv K h" and "k \<in> K" and "hash h k = Some hv" and "find_key h k = None"
  shows "\<exists>pre. split_chain h k hv (htable h ! indexFor (tablelength h) hv) = Some (pre, None)"
proof -
  have "indexFor (tablelength h) hv < length (htable h)"
    using assms(1) tablelength_pos [OF assms(1)] indexFor_less by (simp add: hash_inv_def)
  then have "\<forall>e\<in>set (htable h ! indexFor (tablelength h) hv). e \<in> set (entries h)"
    by (auto simp: entries_iff)
  then have "dropWhile (\<lambda>e. \<not> keq h k (ek e)) (htable h ! indexFor (tablelength h) hv) = []"
    using find_key_NoneD [OF assms(4)] by (simp add: dropWhile_eq_Nil_conv)
  with split_chain_key [OF assms(1-3)] show ?thesis by simp
qed

text \<open>
  C38: \<open>ks_hash_insert_ex\<close> computes the bucket index before it takes the write lock. When another
  thread grows the table in between, so that the index is no longer that of the key, the insertion
  reports success, the entry goes into a chain that is not the key's, and the key is not found.
\<close>

theorem ks_hash_insert_stale_index:
  assumes inv: "hash_inv K h" and k: "k \<in> K" and hv: "hash h k = Some hv"
    and stale: "i < tablelength h" "i \<noteq> indexFor (tablelength h) hv"
    and absent: "find_key h k = None"
    and flags: "\<not> has_flag (effective_flags h flags) KS_HASH_FLAG_DUP_CHECK"
    and room: "entrycount h + 1 \<le> loadlimit h" "entrycount h + 1 < 2 ^ 32"
  shows "\<exists>h'. insert_locked env h k v flags d hv i = Some (KS_STATUS_SUCCESS, h') \<and>
           ks_hash_count h' = ks_hash_count h + 1 \<and> ks_hash_search h' k KS_UNLOCKED = Some (None, h')"
proof -
  define h1 where "h1 = h_emit (lock_events h) h"
  have lock: "ks_hash_write_lock h = Some h1"
    using inv by (simp add: h1_def write_lock_ok hash_inv_def)
  have len: "length (htable h) = tablelength h" using inv by (simp add: hash_inv_def)
  define e where "e = \<lparr>eaddr = hbrk h, ek = k, ev = v, eh = hv, eflags = effective_flags h flags,
      edestructor = d\<rparr>"
  define h2 where "h2 = h1\<lparr>entrycount := entrycount h + 1, hbrk := Suc (hbrk h),
      htable := (htable h)[i := e # htable h ! i]\<rparr>"
  define h3 where "h3 = h_emit (unlock_events h2) h2"
  have fr: "hash_frame h h2"
    using frame_emit(1) [of h "lock_events h"] by (simp add: h2_def h1_def hash_frame_def same_fns_def)
  then have "locks_ok h2" using inv frame_locks by (auto simp: hash_inv_def)
  then have unlock: "ks_hash_write_unlock h2 = Some h3" by (simp add: h3_def write_lock_ok)
  have eff: "(if flags = 0 then hflags h1 else flags) = effective_flags h flags"
    by (simp add: effective_flags_def h1_def)
  have cnt: "(entrycount h1 + 1) mod 2 ^ 32 = entrycount h + 1" using room by (simp add: h1_def)
  have full: "(loadlimit (h1\<lparr>entrycount := entrycount h + 1\<rparr>) < entrycount (h1\<lparr>entrycount := entrycount h + 1\<rparr>)) = False"
    using room by (simp add: h1_def)
  have rd: "mem_rd (htable (h1\<lparr>entrycount := entrycount h + 1\<rparr>)) i = Some (htable h ! i)"
    using stale len by (simp add: h1_def mem_rd_def)
  have link: "(h1\<lparr>entrycount := entrycount h + 1\<rparr>)\<lparr>hbrk := Suc (hbrk (h1\<lparr>entrycount := entrycount h + 1\<rparr>)),
      htable := (htable (h1\<lparr>entrycount := entrycount h + 1\<rparr>))[i :=
        \<lparr>eaddr = hbrk (h1\<lparr>entrycount := entrycount h + 1\<rparr>), ek = k, ev = v, eh = hv,
         eflags = effective_flags h flags, edestructor = d\<rparr> # htable h ! i]\<rparr> = h2"
    by (simp add: h2_def e_def h1_def)
  have "insert_locked env h k v flags d hv i = Some (KS_STATUS_SUCCESS, h3)"
    by (simp only: insert_locked_def Let_def lock bind.bind_lunit eff flags if_False cnt full prod.case rd
        link unlock)
  moreover have "ks_hash_count h3 = ks_hash_count h + 1" by (simp add: ks_hash_count_def h3_def h2_def)
  moreover have "ks_hash_search h3 k KS_UNLOCKED = Some (None, h3)"
  proof -
    have sf: "same_fns h h3"
      using fr frame_trans [OF fr frame_emit(1) [of h2 "unlock_events h2"]]
      by (simp add: hash_frame_def h3_def)
    let ?j = "indexFor (tablelength h) hv"
    have "htable h3 ! ?j = htable h ! ?j" "tablelength h3 = tablelength h" "length (htable h3) = tablelength h"
      using stale len by (simp_all add: h3_def h2_def h1_def)
    moreover have "?j < tablelength h" using tablelength_pos [OF inv] by (rule indexFor_less)
    moreover obtain pre where "split_chain h3 k hv (htable h ! ?j) = Some (pre, None)"
      using no_match_chain [OF inv k hv absent] split_chain_fns [OF sf] by metis
    ultimately show ?thesis
      using hv same_fns_hash [OF sf] by (simp add: ks_hash_search_def mem_rd_def)
  qed
  ultimately show ?thesis by blast
qed

text \<open>The table grows from 53 to 97 chains while a thread holds the old index 18 of the key 1.\<close>

lemma hash_int_1: "hash_spread (hash_int 1) = 531513804"
  by (simp add: hash_spread_def hash_int_def Let_def)

theorem ks_hash_insert_stale_index_witness:
  "\<exists>(h :: nat ks_hash) h1 h2. ks_hash_create KS_HASH_MODE_INT 0 = Some (KS_STATUS_SUCCESS, Some h) \<and>
     hash h (int_key 1) = Some 531513804 \<and> indexFor (tablelength h) 531513804 = 18 \<and>
     ks_hash_expand demo_env h = Some (True, h1) \<and>
     insert_locked demo_env h1 (int_key 1) (Some 7) 0 None 531513804 18 = Some (KS_STATUS_SUCCESS, h2) \<and>
     ks_hash_search h2 (int_key 1) KS_UNLOCKED = Some (None, h2)"
proof -
  obtain h :: "nat ks_hash" where
    h: "ks_hash_create KS_HASH_MODE_INT 0 = Some (KS_STATUS_SUCCESS, Some h)"
    using ks_hash_create_ok [of KS_HASH_MODE_INT 0] by blast
  note hc = ks_hash_created [OF h]
  from h have f: "hflags h = 0" "primeindex h = 0" "tablelength h = 53"
    by (auto simp: ks_hash_create_def ks_hash_create_ex_def mode_fns_def primes_def has_flag_def
        Let_def)
  have hv: "hash h (int_key 1) = Some 531513804"
    using hc(1,2) by (simp add: hash_def standard_fns_def call_simps ks_hash_default_int_def rd_u32_ptr
        int_key_def hash_int_1)
  obtain h1 where h1: "ks_hash_expand demo_env h = Some (True, h1)" "tablelength h1 = 97"
    using f by (simp add: ks_hash_expand_def demo_env_def mem_rd_def primes_def)
  from ks_hash_expand_ok [OF hc(3), of demo_env] h1(1) have i1: "hash_inv (valid_keys h) h1"
    "hash_frame h h1" "entries h1 = []" using hc(4) by (auto simp: env_ok_def demo_env_def)
  have k: "int_key 1 \<in> valid_keys h" using hc(1) by (simp add: valid_keys_def key_ident_def)
  have "load_limit 97 = 64" by (simp add: load_limit_def float32_def round24.simps)
  then have "loadlimit h1 = 64" "entrycount h1 = 0"
    using i1(1,3) h1(2) by (simp_all add: hash_inv_def)
  moreover have "effective_flags h1 0 = 0" using i1(2) f(1) by (simp add: effective_flags_def hash_frame_def)
  ultimately obtain h2 where
    "insert_locked demo_env h1 (int_key 1) (Some 7) 0 None 531513804 18 = Some (KS_STATUS_SUCCESS, h2)"
    "ks_hash_search h2 (int_key 1) KS_UNLOCKED = Some (None, h2)"
    using ks_hash_insert_stale_index [OF i1(1) k, of 531513804 18 0 demo_env "Some 7" None] hv h1(2)
      frame_fns(1) [OF i1(2)] i1(3)
    by (auto simp: indexFor_def find_key_def has_flag_def)
  with h hv f(3) h1(1) show ?thesis by (auto simp: indexFor_def)
qed

end
