(* ===== verification/Ks_Pool.thy ===== *)
theory Ks_Pool
  imports Ks_Types Ks_Chain Ks_Ctype
begin

text \<open>
  \<open>ks_pool.c\<close>: the reference counting memory pool. One pool is modelled; the block of an allocation
  is identified by the address handed to the user, its header \<open>ks_pool_prefix_t\<close> and the bytes behind
  the header (the user's bytes and the two fence bytes) are kept in \<open>pheap\<close>, and the links of the
  headers in \<open>pr_next\<close> and \<open>pr_prev\<close>. A block that was freed is not in \<open>pheap\<close>. What \<open>malloc\<close> and
  \<open>realloc\<close> return is an argument, \<^const>\<open>None\<close> for NULL.

  Calls of the log function and of clean-up callbacks are recorded as events, as are the frees. The
  callbacks that \<open>ks_pool_clear\<close> runs are an argument, functions on the pool, because those of the library
  (queue, condition, string builder) release other blocks of it; a callback that runs because its block is
  released (\<open>ks_pool_free\<close>) is recorded only. \<^const>\<open>None\<close> as the result of an operation is a fault: a failed
  \<open>ks_assert\<close>, the use of a block that is not live, a write outside a block.
\<close>

section \<open>State\<close>

definition KS_POOL_MAGIC :: nat where "KS_POOL_MAGIC = 0xDEADBEEF"
definition KS_POOL_PREFIX_MAGIC :: nat where "KS_POOL_PREFIX_MAGIC = 0xDEADBEEF"
definition KS_POOL_FENCE_MAGIC0 :: byte where "KS_POOL_FENCE_MAGIC0 = 0xFA"
definition KS_POOL_FENCE_MAGIC1 :: byte where "KS_POOL_FENCE_MAGIC1 = 0xD3"
definition KS_POOL_FENCE_SIZE :: nat where "KS_POOL_FENCE_SIZE = 2"

text \<open>Twelve fields of eight bytes.\<close>

definition KS_POOL_PREFIX_SIZE :: nat where "KS_POOL_PREFIX_SIZE = 96"

datatype pool_func =
    KS_POOL_FUNC_CLOSE | KS_POOL_FUNC_CLEAR | KS_POOL_FUNC_ALLOC | KS_POOL_FUNC_CALLOC
  | KS_POOL_FUNC_FREE | KS_POOL_FUNC_RESIZE | KS_POOL_FUNC_INCREF | KS_POOL_FUNC_DECREF

datatype pool_event =
    Log pool_func nat nat "nat option" "nat option" nat
  | Callback nat nat nat cleanup_action cleanup_type
  | Log_unreleased nat
  | Free_block nat
  | Free_pool

record prefix =
  magic1 :: nat
  psize :: nat
  magic2 :: nat
  prefs :: nat
  magic3 :: nat
  cleanup_callback :: "nat option"
  cleanup_arg :: nat
  magic4 :: nat
  magic5 :: nat
  pdata :: mem

record ks_pool =
  pool_magic1 :: nat
  pool_flags :: nat
  alloc_c :: nat
  user_alloc :: nat
  max_alloc :: nat
  log_func :: "nat option"
  pfirst :: "nat option"
  plast :: "nat option"
  log_on_close :: bool
  pool_magic2 :: nat
  cleaning_up :: bool
  pheap :: "nat \<Rightarrow> prefix option"
  pr_next :: "nat \<Rightarrow> nat option"
  pr_prev :: "nat \<Rightarrow> nat option"
  pevents :: "pool_event list"

definition p_emit :: "pool_event list \<Rightarrow> ks_pool \<Rightarrow> ks_pool" where
  "p_emit es p = p\<lparr>pevents := pevents p @ es\<rparr>"

text \<open>A call of the log function, when there is one.\<close>

definition p_log :: "pool_func \<Rightarrow> nat \<Rightarrow> nat \<Rightarrow> nat option \<Rightarrow> nat option \<Rightarrow> nat \<Rightarrow> ks_pool \<Rightarrow> ks_pool" where
  "p_log f sz refs old new osz p = (if log_func p \<noteq> None then p_emit [Log f sz refs old new osz] p else p)"

section \<open>Checks\<close>

definition CHECK_PREFIX :: "prefix \<Rightarrow> bool" where
  "CHECK_PREFIX x =
     (magic1 x = KS_POOL_PREFIX_MAGIC \<and> magic2 x = KS_POOL_PREFIX_MAGIC \<and>
      magic3 x = KS_POOL_PREFIX_MAGIC \<and> magic4 x = KS_POOL_PREFIX_MAGIC \<and>
      magic5 x = KS_POOL_PREFIX_MAGIC)"

text \<open>The header in front of a live user address, after \<open>CHECK_PREFIX\<close>.\<close>

definition get_prefix :: "ks_pool \<Rightarrow> nat \<Rightarrow> prefix option" where
  "get_prefix p addr =
     (case pheap p addr of None \<Rightarrow> None | Some x \<Rightarrow> if CHECK_PREFIX x then Some x else None)"

definition put_prefix :: "nat \<Rightarrow> prefix \<Rightarrow> ks_pool \<Rightarrow> ks_pool" where
  "put_prefix addr x p = p\<lparr>pheap := (pheap p)(addr := Some x)\<rparr>"

definition check_pool :: "ks_pool \<Rightarrow> ks_status" where
  "check_pool p =
     (if pool_magic1 p \<noteq> KS_POOL_MAGIC then KS_STATUS_PNT
      else if pool_magic2 p \<noteq> KS_POOL_MAGIC then KS_STATUS_POOL_OVER
      else KS_STATUS_SUCCESS)"

definition check_fence :: "prefix \<Rightarrow> ks_status option" where
  "check_fence x =
     do { a \<leftarrow> mem_rd (pdata x) (psize x); b \<leftarrow> mem_rd (pdata x) (psize x + 1);
          Some (if a = KS_POOL_FENCE_MAGIC0 \<and> b = KS_POOL_FENCE_MAGIC1
                then KS_STATUS_SUCCESS else KS_STATUS_PNT_OVER) }"

definition write_fence :: "mem \<Rightarrow> nat \<Rightarrow> mem option" where
  "write_fence m off =
     do { m \<leftarrow> mem_wr m off KS_POOL_FENCE_MAGIC0; mem_wr m (off + 1) KS_POOL_FENCE_MAGIC1 }"

section \<open>Allocation\<close>

definition pool_block :: "nat \<Rightarrow> mem \<Rightarrow> prefix" where
  "pool_block sz m =
     \<lparr>magic1 = KS_POOL_PREFIX_MAGIC, psize = sz, magic2 = KS_POOL_PREFIX_MAGIC, prefs = 1,
      magic3 = KS_POOL_PREFIX_MAGIC, cleanup_callback = None, cleanup_arg = 0,
      magic4 = KS_POOL_PREFIX_MAGIC, magic5 = KS_POOL_PREFIX_MAGIC, pdata = m\<rparr>"

definition alloc_mem :: "nat option \<Rightarrow> ks_pool \<Rightarrow> nat \<Rightarrow> (nat \<times> ks_pool) option" where
  "alloc_mem start p sz =
     (if sz = 0 then None
      else case start of
        None \<Rightarrow> None
      | Some a \<Rightarrow>
          let required = size_add (size_add KS_POOL_PREFIX_SIZE sz) KS_POOL_FENCE_SIZE in
          if required < KS_POOL_PREFIX_SIZE then None
          else
            do { m \<leftarrow> write_fence (replicate (required - KS_POOL_PREFIX_SIZE) 0) sz;
                 let p = put_prefix a (pool_block sz m) p;
                 let p = p\<lparr>pr_next := (pr_next p)(a := pfirst p), pr_prev := (pr_prev p)(a := None)\<rparr>;
                 let p = (case pfirst p of
                            None \<Rightarrow> p
                          | Some f \<Rightarrow> p\<lparr>pr_prev := (pr_prev p)(f := Some a)\<rparr>);
                 let p = p\<lparr>pfirst := Some a\<rparr>;
                 let p = (if plast p = None then p\<lparr>plast := Some a\<rparr> else p);
                 let p = p_log KS_POOL_FUNC_INCREF sz 1 None (Some a) 0 p;
                 let p = p\<lparr>alloc_c := size_add (alloc_c p) 1, user_alloc := size_add (user_alloc p) sz\<rparr>;
                 let p = (if max_alloc p < user_alloc p then p\<lparr>max_alloc := user_alloc p\<rparr> else p);
                 Some (a, p) })"

definition perform_pool_cleanup_on_free :: "nat \<Rightarrow> prefix \<Rightarrow> ks_pool \<Rightarrow> ks_pool" where
  "perform_pool_cleanup_on_free addr x p =
     (if cleaning_up p then p
      else case cleanup_callback x of
        None \<Rightarrow> p
      | Some cb \<Rightarrow>
          p_emit [Callback cb addr (cleanup_arg x) KS_MPCL_ANNOUNCE KS_MPCL_FREE,
                  Callback cb addr (cleanup_arg x) KS_MPCL_TEARDOWN KS_MPCL_FREE,
                  Callback cb addr (cleanup_arg x) KS_MPCL_DESTROY KS_MPCL_FREE] p)"

text \<open>Taking a header out of the list, by the four cases of the code.\<close>

definition unlink_prefix :: "nat \<Rightarrow> ks_pool \<Rightarrow> ks_pool" where
  "unlink_prefix a p =
     (case (pr_prev p a, pr_next p a) of
        (None, None) \<Rightarrow> p\<lparr>pfirst := None, plast := None\<rparr>
      | (None, Some n) \<Rightarrow> p\<lparr>pfirst := Some n, pr_prev := (pr_prev p)(n := None)\<rparr>
      | (Some l, None) \<Rightarrow> p\<lparr>plast := Some l, pr_next := (pr_next p)(l := None)\<rparr>
      | (Some l, Some n) \<Rightarrow>
          p\<lparr>pr_next := (pr_next p)(l := Some n), pr_prev := (pr_prev p)(n := Some l)\<rparr>)"

definition free_mem :: "ks_pool \<Rightarrow> nat \<Rightarrow> (ks_status \<times> ks_pool) option" where
  "free_mem p addr =
     do { x \<leftarrow> get_prefix p addr;
          let (x, p) = (if 0 < prefs x
                        then let x = x\<lparr>prefs := prefs x - 1\<rparr> in
                             (x, p_log KS_POOL_FUNC_DECREF (psize x) (prefs x) (Some addr) None 0
                                   (put_prefix addr x p))
                        else (x, p));
          if 0 < prefs x then Some (KS_STATUS_REFS_EXIST, p)
          else
            do { ret \<leftarrow> check_fence x;
                 let p = perform_pool_cleanup_on_free addr x p;
                 let p = unlink_prefix addr p;
                 let p = p\<lparr>alloc_c := size_sub (alloc_c p) 1,
                           user_alloc := size_sub (user_alloc p) (psize x)\<rparr>;
                 Some (ret, p_emit [Free_block addr] (p\<lparr>pheap := (pheap p)(addr := None)\<rparr>)) } }"

section \<open>Exported routines\<close>

definition ks_pool_raw_open :: "nat \<Rightarrow> ks_pool" where
  "ks_pool_raw_open flags =
     \<lparr>pool_magic1 = KS_POOL_MAGIC, pool_flags = flags, alloc_c = 0, user_alloc = 0, max_alloc = 0,
      log_func = None, pfirst = None, plast = None, log_on_close = False,
      pool_magic2 = KS_POOL_MAGIC, cleaning_up = False, pheap = (\<lambda>_. None),
      pr_next = (\<lambda>_. None), pr_prev = (\<lambda>_. None), pevents = []\<rparr>"

definition ks_pool_tagged_open :: "ks_status \<times> ks_pool" where
  "ks_pool_tagged_open = (KS_STATUS_SUCCESS, ks_pool_raw_open 0)"

text \<open>
  A user's callback: the number stored in the block, the address, the argument, the stage. \<^const>\<open>None\<close> is a
  callback that faults or does not return.
\<close>

type_synonym callbacks = "nat \<Rightarrow> nat \<Rightarrow> nat \<Rightarrow> cleanup_action \<Rightarrow> cleanup_type \<Rightarrow> ks_pool \<Rightarrow> ks_pool option"

text \<open>
  One pass over the headers from \<open>prefix\<close> on. \<open>next\<close> is read before the callback runs, and used after it: when
  the callback released the next block the pass goes on with a block that is not live. A pass that never
  ends is \<^const>\<open>None\<close> as well.
\<close>

partial_function (option) cleanup_pass :: "callbacks \<Rightarrow> cleanup_action \<Rightarrow> nat option \<Rightarrow> ks_pool \<Rightarrow> ks_pool option" where
  [code]: "cleanup_pass run action prefix p =
     (case prefix of
        None \<Rightarrow> Some p
      | Some a \<Rightarrow>
          do { x \<leftarrow> pheap p a;
               let next = pr_next p a;
               let p = (if action = KS_MPCL_ANNOUNCE \<and> log_on_close p then p_emit [Log_unreleased (psize x)] p else p);
               p \<leftarrow> (case cleanup_callback x of
                       None \<Rightarrow> Some p
                     | Some cb \<Rightarrow> run cb a (cleanup_arg x) action KS_MPCL_GLOBAL_FREE
                         (p_emit [Callback cb a (cleanup_arg x) action KS_MPCL_GLOBAL_FREE] p));
               cleanup_pass run action next p })"

definition perform_pool_cleanup :: "callbacks \<Rightarrow> ks_pool \<Rightarrow> ks_pool option" where
  "perform_pool_cleanup run p =
     (if cleaning_up p then Some p
      else
        do { let p = p\<lparr>cleaning_up := True\<rparr>;
             p \<leftarrow> cleanup_pass run KS_MPCL_ANNOUNCE (pfirst p) p;
             p \<leftarrow> cleanup_pass run KS_MPCL_TEARDOWN (pfirst p) p;
             cleanup_pass run KS_MPCL_DESTROY (pfirst p) p })"

text \<open>\<open>ks_pool_clear\<close>: the stages of the clean-up, then the blocks that are left.\<close>

partial_function (option) free_blocks :: "nat option \<Rightarrow> ks_pool \<Rightarrow> ks_pool option" where
  [code]: "free_blocks prefix p =
     (case prefix of
        None \<Rightarrow> Some p
      | Some a \<Rightarrow>
          do { _ \<leftarrow> pheap p a;
               free_blocks (pr_next p a) (p_emit [Free_block a] (p\<lparr>pheap := (pheap p)(a := None)\<rparr>)) })"

definition ks_pool_clear :: "callbacks \<Rightarrow> ks_pool \<Rightarrow> (ks_status \<times> ks_pool) option" where
  "ks_pool_clear run p =
     (if check_pool p \<noteq> KS_STATUS_SUCCESS then None
      else
        do { let p = p_log KS_POOL_FUNC_CLEAR 0 0 None None 0 p;
             p \<leftarrow> perform_pool_cleanup run p;
             p \<leftarrow> free_blocks (pfirst p) p;
             Some (KS_STATUS_SUCCESS, p\<lparr>pfirst := None, plast := None\<rparr>) })"

definition ks_pool_raw_close :: "callbacks \<Rightarrow> ks_pool \<Rightarrow> (ks_status \<times> ks_pool) option" where
  "ks_pool_raw_close run p =
     do { (ret, p) \<leftarrow> ks_pool_clear run p;
          let p = p_log KS_POOL_FUNC_CLOSE 0 0 None None 0 p;
          Some (ret, p_emit [Free_pool] p) }"

definition ks_pool_close :: "callbacks \<Rightarrow> ks_pool option \<Rightarrow> (ks_status \<times> ks_pool option \<times> pool_event list) option" where
  "ks_pool_close run pp =
     (case pp of
        None \<Rightarrow> Some (KS_STATUS_SUCCESS, None, [])
      | Some p \<Rightarrow> do { (ret, p) \<leftarrow> ks_pool_raw_close run p;
                       Some (ret, if ret = KS_STATUS_SUCCESS then None else Some p, pevents p) })"

definition ks_pool_verify :: "ks_pool \<Rightarrow> nat option \<Rightarrow> bool option" where
  "ks_pool_verify p addr =
     (case addr of
        None \<Rightarrow> Some False
      | Some a \<Rightarrow> do { x \<leftarrow> get_prefix p a; r \<leftarrow> check_fence x; Some (r = KS_STATUS_SUCCESS) })"

partial_function (option) verify_blocks :: "nat option \<Rightarrow> ks_pool \<Rightarrow> unit option" where
  [code]: "verify_blocks prefix p =
     (case prefix of
        None \<Rightarrow> Some ()
      | Some a \<Rightarrow>
          do { ok \<leftarrow> ks_pool_verify p (Some a);
               if ok then verify_blocks (pr_next p a) p else None })"

definition ks_pool_pool_verify :: "ks_pool \<Rightarrow> unit option" where
  "ks_pool_pool_verify p = verify_blocks (pfirst p) p"

definition ks_pool_alloc_ex :: "nat option \<Rightarrow> ks_pool \<Rightarrow> nat \<Rightarrow> (nat \<times> ks_pool) option" where
  "ks_pool_alloc_ex start p sz =
     (if sz = 0 \<or> check_pool p \<noteq> KS_STATUS_SUCCESS then None
      else do { (a, p) \<leftarrow> alloc_mem start p sz;
                let p = p_log KS_POOL_FUNC_ALLOC sz 0 (Some a) None 0 p;
                x \<leftarrow> get_prefix p a;
                Some (a, p) })"

definition ks_pool_alloc :: "nat option \<Rightarrow> ks_pool \<Rightarrow> nat \<Rightarrow> (nat \<times> ks_pool) option" where
  "ks_pool_alloc start p sz = ks_pool_alloc_ex start p sz"

definition ks_pool_calloc_ex :: "nat option \<Rightarrow> ks_pool \<Rightarrow> nat \<Rightarrow> nat \<Rightarrow> (nat \<times> ks_pool) option" where
  "ks_pool_calloc_ex start p ele_n ele_size =
     (if ele_n = 0 \<or> ele_size = 0 \<or> check_pool p \<noteq> KS_STATUS_SUCCESS then None
      else do { (a, p) \<leftarrow> alloc_mem start p (size_mul ele_n ele_size);
                Some (a, p_log KS_POOL_FUNC_CALLOC ele_size ele_n (Some a) None 0 p) })"

definition ks_pool_calloc :: "nat option \<Rightarrow> ks_pool \<Rightarrow> nat \<Rightarrow> nat \<Rightarrow> (nat \<times> ks_pool) option" where
  "ks_pool_calloc start p ele_n ele_size = ks_pool_calloc_ex start p ele_n ele_size"

text \<open>\<open>ks_pool_free_ex\<close>: the second component is the caller's pointer afterwards.\<close>

definition ks_pool_free_ex :: "ks_pool \<Rightarrow> nat option \<Rightarrow> (ks_status \<times> nat option \<times> ks_pool) option" where
  "ks_pool_free_ex p addr =
     (case addr of
        None \<Rightarrow> Some (KS_STATUS_SUCCESS, None, p)
      | Some a \<Rightarrow>
          do { x \<leftarrow> get_prefix p a;
               if check_pool p \<noteq> KS_STATUS_SUCCESS then None
               else
                 do { let p = p_log (if prefs x = 1 then KS_POOL_FUNC_FREE else KS_POOL_FUNC_DECREF)
                                (psize x) (size_sub (prefs x) 1) (Some a) None 0 p;
                      (ret, p) \<leftarrow> free_mem p a;
                      if ret = KS_STATUS_REFS_EXIST then Some (ret, Some a, p)
                      else if ret = KS_STATUS_SUCCESS then Some (ret, None, p)
                      else None } })"

definition ks_pool_ref_ex :: "ks_pool \<Rightarrow> nat \<Rightarrow> (nat \<times> ks_pool) option" where
  "ks_pool_ref_ex p addr =
     do { x \<leftarrow> get_prefix p addr;
          if check_pool p \<noteq> KS_STATUS_SUCCESS then None
          else let x = x\<lparr>prefs := size_add (prefs x) 1\<rparr> in
               Some (addr, p_log KS_POOL_FUNC_INCREF (psize x) (prefs x) (Some addr) None 0
                             (put_prefix addr x p)) }"

text \<open>
  \<open>ks_pool_resize_ex\<close>: \<open>realloc\<close> moves the header and the bytes to the address it returns; the
  neighbours in the list are redirected. \<open>junk\<close> are the bytes the block gains.
\<close>

definition move_block :: "nat \<Rightarrow> nat \<Rightarrow> ks_pool \<Rightarrow> ks_pool" where
  "move_block a b p =
     p\<lparr>pheap := (pheap p)(a := None, b := pheap p a),
       pr_next := (pr_next p)(b := pr_next p a), pr_prev := (pr_prev p)(b := pr_prev p a)\<rparr>"

definition relink_block :: "nat \<Rightarrow> ks_pool \<Rightarrow> ks_pool" where
  "relink_block b p =
     (let p = (case pr_prev p b of
                 Some l \<Rightarrow> p\<lparr>pr_next := (pr_next p)(l := Some b)\<rparr>
               | None \<Rightarrow> p\<lparr>pfirst := Some b\<rparr>) in
      case pr_next p b of
        Some n \<Rightarrow> p\<lparr>pr_prev := (pr_prev p)(n := Some b)\<rparr>
      | None \<Rightarrow> p\<lparr>plast := Some b\<rparr>)"

definition ks_pool_resize_ex ::
  "nat option \<Rightarrow> (nat \<Rightarrow> byte) \<Rightarrow> ks_pool \<Rightarrow> nat \<Rightarrow> nat \<Rightarrow> (nat \<times> ks_pool) option" where
  "ks_pool_resize_ex new junk p old_addr new_size =
     (if new_size = 0 then None
      else
        do { x \<leftarrow> get_prefix p old_addr;
             if check_pool p \<noteq> KS_STATUS_SUCCESS \<or> 1 < prefs x then None
             else if new_size = psize x then Some (old_addr, p)
             else
               do { b \<leftarrow> new;
                    let required = size_add (size_add KS_POOL_PREFIX_SIZE new_size) KS_POOL_FENCE_SIZE;
                    if required < KS_POOL_PREFIX_SIZE then None
                    else
                      do { m \<leftarrow> write_fence
                             (mem_realloc junk (pdata x) (required - KS_POOL_PREFIX_SIZE)) new_size;
                           let p = put_prefix b (x\<lparr>psize := new_size, pdata := m\<rparr>) (move_block old_addr b p);
                           let p = relink_block b p;
                           Some (b, p_log KS_POOL_FUNC_RESIZE new_size 0 (Some old_addr) (Some b) (psize x) p) } } })"

definition ks_pool_resize ::
  "nat option \<Rightarrow> (nat \<Rightarrow> byte) \<Rightarrow> ks_pool \<Rightarrow> nat \<Rightarrow> nat \<Rightarrow> (nat \<times> ks_pool) option" where
  "ks_pool_resize new junk p old_addr new_size = ks_pool_resize_ex new junk p old_addr new_size"

definition ks_pool_stats :: "ks_pool \<Rightarrow> (nat \<times> nat \<times> nat \<times> nat) option" where
  "ks_pool_stats p =
     (if check_pool p \<noteq> KS_STATUS_SUCCESS then None
      else Some (alloc_c p, user_alloc p, max_alloc p,
                 size_add (user_alloc p)
                   (size_mul (alloc_c p) (KS_POOL_PREFIX_SIZE + KS_POOL_FENCE_SIZE))))"

definition ks_pool_set_log_func :: "ks_pool \<Rightarrow> nat \<Rightarrow> (ks_status \<times> ks_pool) option" where
  "ks_pool_set_log_func p f =
     (if check_pool p \<noteq> KS_STATUS_SUCCESS then None
      else Some (KS_STATUS_SUCCESS, p\<lparr>log_func := Some f\<rparr>))"

definition ks_pool_log_on_close :: "ks_pool \<Rightarrow> ks_pool" where
  "ks_pool_log_on_close p = p\<lparr>log_on_close := True\<rparr>"

definition ks_pool_set_cleanup :: "ks_pool \<Rightarrow> nat \<Rightarrow> nat \<Rightarrow> nat \<Rightarrow> (ks_status \<times> ks_pool) option" where
  "ks_pool_set_cleanup p addr arg cb =
     do { x \<leftarrow> get_prefix p addr;
          Some (KS_STATUS_SUCCESS, put_prefix addr (x\<lparr>cleanup_arg := arg, cleanup_callback := Some cb\<rparr>) p) }"

definition ks_pool_remove_cleanup :: "ks_pool \<Rightarrow> nat \<Rightarrow> (ks_status \<times> ks_pool) option" where
  "ks_pool_remove_cleanup p addr =
     do { x \<leftarrow> get_prefix p addr;
          Some (KS_STATUS_SUCCESS, put_prefix addr (x\<lparr>cleanup_arg := 0, cleanup_callback := None\<rparr>) p) }"

definition ks_pool_strerror :: "ks_status \<Rightarrow> string" where
  "ks_pool_strerror e =
     (case e of
        KS_STATUS_SUCCESS \<Rightarrow> ''no error''
      | KS_STATUS_ARG_NULL \<Rightarrow> ''function argument is null''
      | KS_STATUS_ARG_INVALID \<Rightarrow> ''function argument is invalid''
      | KS_STATUS_PNT \<Rightarrow> ''invalid ks_pool pointer''
      | KS_STATUS_POOL_OVER \<Rightarrow> ''ks_pool structure was overwritten''
      | KS_STATUS_PAGE_SIZE \<Rightarrow> ''could not get system page-size''
      | KS_STATUS_OPEN_ZERO \<Rightarrow> ''could not open /dev/zero''
      | KS_STATUS_NO_MEM \<Rightarrow> ''no memory available''
      | KS_STATUS_SIZE \<Rightarrow> ''error processing requested size''
      | KS_STATUS_TOO_BIG \<Rightarrow> ''allocation exceeds pool max size''
      | KS_STATUS_MEM \<Rightarrow> ''invalid memory address''
      | KS_STATUS_MEM_OVER \<Rightarrow> ''memory lower bounds overwritten''
      | KS_STATUS_NOT_FOUND \<Rightarrow> ''memory block not found in pool''
      | KS_STATUS_IS_FREE \<Rightarrow> ''memory address has already been freed''
      | KS_STATUS_BLOCK_STAT \<Rightarrow> ''invalid internal block status''
      | KS_STATUS_FREE_ADDR \<Rightarrow> ''invalid internal free address''
      | KS_STATUS_NO_PAGES \<Rightarrow> ''no available pages left in pool''
      | KS_STATUS_ALLOC \<Rightarrow> ''system alloc function failed''
      | KS_STATUS_PNT_OVER \<Rightarrow> ''user pointer admin space overwritten''
      | KS_STATUS_INVALID_POINTER \<Rightarrow> ''pointer is not valid''
      | _ \<Rightarrow> ''invalid error code'')"

section \<open>Strings and blocks\<close>

text \<open>Copying bytes to the start of a live block; the fence is not part of the object.\<close>

definition pool_store :: "ks_pool \<Rightarrow> nat \<Rightarrow> nat \<Rightarrow> mem \<Rightarrow> ks_pool option" where
  "pool_store p a off bs =
     do { x \<leftarrow> pheap p a;
          if off + length bs \<le> psize x
          then do { m \<leftarrow> mem_cpy (pdata x) off bs; Some (put_prefix a (x\<lparr>pdata := m\<rparr>) p) }
          else None }"

definition ks_pstrdup :: "nat option \<Rightarrow> ks_pool \<Rightarrow> mem option \<Rightarrow> (nat option \<times> ks_pool) option" where
  "ks_pstrdup start p str =
     (case str of
        None \<Rightarrow> Some (None, p)
      | Some s \<Rightarrow>
          do { t \<leftarrow> c_str s;
               let len = size_add (length t) 1;
               (a, p) \<leftarrow> ks_pool_alloc start p len;
               bs \<leftarrow> mem_sub s 0 len;
               p \<leftarrow> pool_store p a 0 bs;
               Some (Some a, p) })"

text \<open>
  \<open>ks_pstrndup\<close>, with the address of the string: when \<open>memchr\<close> finds no NUL, the length becomes the
  difference of NULL and that address.
\<close>

definition ks_pstrndup ::
  "nat option \<Rightarrow> ks_pool \<Rightarrow> (nat \<times> mem) option \<Rightarrow> nat \<Rightarrow> (nat option \<times> ks_pool) option" where
  "ks_pstrndup start p str len =
     (case str of
        None \<Rightarrow> Some (None, p)
      | Some (sa, s) \<Rightarrow>
          do { found \<leftarrow> (if 0 \<in> set (take len s) then Some True
                          else if len \<le> length s then Some False else None);
               let len = (if \<not> found then size_sub 0 sa else len);
               (a, p) \<leftarrow> ks_pool_alloc start p (size_add len 1);
               bs \<leftarrow> mem_sub s 0 len;
               p \<leftarrow> pool_store p a 0 bs;
               p \<leftarrow> pool_store p a len [0];
               Some (Some a, p) })"

definition ks_pstrmemdup :: "nat option \<Rightarrow> ks_pool \<Rightarrow> mem option \<Rightarrow> nat \<Rightarrow> (nat option \<times> ks_pool) option" where
  "ks_pstrmemdup start p str len =
     (case str of
        None \<Rightarrow> Some (None, p)
      | Some s \<Rightarrow>
          do { (a, p) \<leftarrow> ks_pool_alloc start p (size_add len 1);
               bs \<leftarrow> mem_sub s 0 len;
               p \<leftarrow> pool_store p a 0 bs;
               p \<leftarrow> pool_store p a len [0];
               Some (Some a, p) })"

definition ks_pmemdup :: "nat option \<Rightarrow> ks_pool \<Rightarrow> mem option \<Rightarrow> nat \<Rightarrow> (nat option \<times> ks_pool) option" where
  "ks_pmemdup start p buf len =
     (case buf of
        None \<Rightarrow> Some (None, p)
      | Some s \<Rightarrow>
          do { (a, p) \<leftarrow> ks_pool_alloc start p len;
               bs \<leftarrow> mem_sub s 0 len;
               p \<leftarrow> pool_store p a 0 bs;
               Some (Some a, p) })"

text \<open>\<open>ks_pstrcat\<close> over its arguments up to the NULL that ends them; ten lengths are cached.\<close>

fun strcat_lengths :: "nat list \<Rightarrow> nat \<Rightarrow> mem list \<Rightarrow> (nat list \<times> nat) option" where
  "strcat_lengths cache len [] = Some (cache, len)"
| "strcat_lengths cache len (s # ss) =
     do { t \<leftarrow> c_str s;
          strcat_lengths (if length cache < 10 then cache @ [length t] else cache)
            (size_add len (length t)) ss }"

fun strcat_copy :: "ks_pool \<Rightarrow> nat \<Rightarrow> nat \<Rightarrow> nat list \<Rightarrow> nat \<Rightarrow> mem list \<Rightarrow> (nat \<times> ks_pool) option" where
  "strcat_copy p a off cache i [] = Some (off, p)"
| "strcat_copy p a off cache i (s # ss) =
     do { len \<leftarrow> (if i < 10 then mem_rd cache i else map_option length (c_str s));
          bs \<leftarrow> mem_sub s 0 len;
          p \<leftarrow> pool_store p a off bs;
          strcat_copy p a (off + len) cache (if i < 10 then i + 1 else i) ss }"

definition ks_pstrcat :: "nat option \<Rightarrow> ks_pool \<Rightarrow> mem list \<Rightarrow> (nat \<times> ks_pool) option" where
  "ks_pstrcat start p ss =
     do { (cache, len) \<leftarrow> strcat_lengths [] 0 ss;
          (a, p) \<leftarrow> ks_pool_alloc start p (size_add len 1);
          (off, p) \<leftarrow> strcat_copy p a 0 cache 0 ss;
          p \<leftarrow> pool_store p a off [0];
          Some (a, p) }"

text \<open>The C library names, on the global pool.\<close>

definition ks_malloc :: "nat option \<Rightarrow> ks_pool \<Rightarrow> nat \<Rightarrow> (nat \<times> ks_pool) option" where
  "ks_malloc start global_pool sz = ks_pool_alloc start global_pool sz"

definition ks_realloc ::
  "nat option \<Rightarrow> (nat \<Rightarrow> byte) \<Rightarrow> ks_pool \<Rightarrow> nat \<Rightarrow> nat \<Rightarrow> (nat \<times> ks_pool) option" where
  "ks_realloc new junk p a new_size = ks_pool_resize new junk p a new_size"

definition ks_calloc :: "nat option \<Rightarrow> ks_pool \<Rightarrow> nat \<Rightarrow> nat \<Rightarrow> (nat \<times> ks_pool) option" where
  "ks_calloc start global_pool count elem_size = ks_pool_calloc start global_pool count elem_size"

definition ks_free :: "ks_pool \<Rightarrow> nat option \<Rightarrow> (ks_status \<times> nat option \<times> ks_pool) option" where
  "ks_free p a = ks_pool_free_ex p a"

end
