(* ===== verification/Ks_Pool_Inv.thy ===== *)
theory Ks_Pool_Inv
  imports Ks_Pool
begin

text \<open>
  The invariant of the pool, the map of live blocks it implements, and the effect of every routine
  on both.
\<close>

section \<open>Fields that routines leave alone\<close>

lemma p_emit_sel [simp]:
  "pheap (p_emit es p) = pheap p" "pr_next (p_emit es p) = pr_next p" "pr_prev (p_emit es p) = pr_prev p"
  "pfirst (p_emit es p) = pfirst p" "plast (p_emit es p) = plast p" "alloc_c (p_emit es p) = alloc_c p"
  "user_alloc (p_emit es p) = user_alloc p" "max_alloc (p_emit es p) = max_alloc p"
  "log_func (p_emit es p) = log_func p" "cleaning_up (p_emit es p) = cleaning_up p"
  "log_on_close (p_emit es p) = log_on_close p"
  "pool_magic1 (p_emit es p) = pool_magic1 p" "pool_magic2 (p_emit es p) = pool_magic2 p"
  "pevents (p_emit es p) = pevents p @ es"
  by (simp_all add: p_emit_def)

lemma p_log_sel [simp]:
  "pheap (p_log f s r d n z p) = pheap p" "pr_next (p_log f s r d n z p) = pr_next p"
  "pr_prev (p_log f s r d n z p) = pr_prev p" "pfirst (p_log f s r d n z p) = pfirst p"
  "plast (p_log f s r d n z p) = plast p" "alloc_c (p_log f s r d n z p) = alloc_c p"
  "user_alloc (p_log f s r d n z p) = user_alloc p" "max_alloc (p_log f s r d n z p) = max_alloc p"
  "log_func (p_log f s r d n z p) = log_func p" "cleaning_up (p_log f s r d n z p) = cleaning_up p"
  "log_on_close (p_log f s r d n z p) = log_on_close p"
  "pool_magic1 (p_log f s r d n z p) = pool_magic1 p" "pool_magic2 (p_log f s r d n z p) = pool_magic2 p"
  by (simp_all add: p_log_def)

lemma put_prefix_sel [simp]:
  "pheap (put_prefix a x p) = (pheap p)(a := Some x)" "pr_next (put_prefix a x p) = pr_next p"
  "pr_prev (put_prefix a x p) = pr_prev p" "pfirst (put_prefix a x p) = pfirst p"
  "plast (put_prefix a x p) = plast p" "alloc_c (put_prefix a x p) = alloc_c p"
  "user_alloc (put_prefix a x p) = user_alloc p" "max_alloc (put_prefix a x p) = max_alloc p"
  "log_func (put_prefix a x p) = log_func p" "cleaning_up (put_prefix a x p) = cleaning_up p"
  "log_on_close (put_prefix a x p) = log_on_close p" "pevents (put_prefix a x p) = pevents p"
  "pool_magic1 (put_prefix a x p) = pool_magic1 p" "pool_magic2 (put_prefix a x p) = pool_magic2 p"
  by (simp_all add: put_prefix_def)

lemma cleanup_on_free_sel [simp]:
  "pheap (perform_pool_cleanup_on_free a x p) = pheap p"
  "pr_next (perform_pool_cleanup_on_free a x p) = pr_next p"
  "pr_prev (perform_pool_cleanup_on_free a x p) = pr_prev p"
  "pfirst (perform_pool_cleanup_on_free a x p) = pfirst p"
  "plast (perform_pool_cleanup_on_free a x p) = plast p"
  "alloc_c (perform_pool_cleanup_on_free a x p) = alloc_c p"
  "user_alloc (perform_pool_cleanup_on_free a x p) = user_alloc p"
  "max_alloc (perform_pool_cleanup_on_free a x p) = max_alloc p"
  "pool_magic1 (perform_pool_cleanup_on_free a x p) = pool_magic1 p"
  "pool_magic2 (perform_pool_cleanup_on_free a x p) = pool_magic2 p"
  "cleaning_up (perform_pool_cleanup_on_free a x p) = cleaning_up p"
  "log_on_close (perform_pool_cleanup_on_free a x p) = log_on_close p"
  "log_func (perform_pool_cleanup_on_free a x p) = log_func p"
  by (simp_all add: perform_pool_cleanup_on_free_def split: option.split)

lemma unlink_sel [simp]:
  "pheap (unlink_prefix a p) = pheap p" "alloc_c (unlink_prefix a p) = alloc_c p"
  "user_alloc (unlink_prefix a p) = user_alloc p" "max_alloc (unlink_prefix a p) = max_alloc p"
  "pool_magic1 (unlink_prefix a p) = pool_magic1 p" "pool_magic2 (unlink_prefix a p) = pool_magic2 p"
  "cleaning_up (unlink_prefix a p) = cleaning_up p" "pevents (unlink_prefix a p) = pevents p"
  by (simp_all add: unlink_prefix_def split: option.split)

section \<open>Invariant\<close>

definition block_ok :: "prefix \<Rightarrow> bool" where
  "block_ok x =
     (CHECK_PREFIX x \<and> 0 < psize x \<and> psize x + 98 < SIZE_MOD \<and> 1 \<le> prefs x \<and>
      length (pdata x) = psize x + 2 \<and> pdata x ! psize x = KS_POOL_FENCE_MAGIC0 \<and>
      pdata x ! (psize x + 1) = KS_POOL_FENCE_MAGIC1)"

definition pool_list :: "ks_pool \<Rightarrow> nat list \<Rightarrow> bool" where
  "pool_list p ns =
     (dlist (pr_next p) (pr_prev p) (pfirst p) (plast p) ns \<and> set ns = dom (pheap p))"

definition pool_inv :: "ks_pool \<Rightarrow> bool" where
  "pool_inv p =
     (check_pool p = KS_STATUS_SUCCESS \<and> (\<forall>a x. pheap p a = Some x \<longrightarrow> block_ok x) \<and>
      (\<exists>ns. pool_list p ns \<and> alloc_c p = length ns \<and> length ns < SIZE_MOD))"

text \<open>The live blocks: the user's bytes and the reference count.\<close>

type_synonym live = "nat \<Rightarrow> (mem \<times> nat) option"

definition pool_live :: "ks_pool \<Rightarrow> live" where
  "pool_live p a = map_option (\<lambda>x. (take (psize x) (pdata x), prefs x)) (pheap p a)"

text \<open>The byte count that \<open>ks_pool_stats\<close> reports is that of the live blocks.\<close>

definition pool_counts :: "ks_pool \<Rightarrow> bool" where
  "pool_counts p =
     (user_alloc p = (\<Sum>a \<in> dom (pheap p). psize (the (pheap p a))) \<and> user_alloc p < SIZE_MOD \<and>
      user_alloc p \<le> max_alloc p)"

lemma check_pool_iff:
  "check_pool p = KS_STATUS_SUCCESS \<longleftrightarrow> pool_magic1 p = KS_POOL_MAGIC \<and> pool_magic2 p = KS_POOL_MAGIC"
  by (simp add: check_pool_def)

lemma pool_live_dom: "pool_live p a = None \<longleftrightarrow> pheap p a = None"
  by (simp add: pool_live_def)

lemma pool_inv_block: "pool_inv p \<Longrightarrow> pheap p a = Some x \<Longrightarrow> block_ok x"
  by (simp add: pool_inv_def)

lemma get_prefix_ok: "pool_inv p \<Longrightarrow> pheap p a = Some x \<Longrightarrow> get_prefix p a = Some x"
  by (simp add: pool_inv_def get_prefix_def block_ok_def)

lemma check_fence_ok: "block_ok x \<Longrightarrow> check_fence x = Some KS_STATUS_SUCCESS"
  by (simp add: check_fence_def block_ok_def mem_rd_def)

lemma pool_inv_finite: "pool_inv p \<Longrightarrow> finite (dom (pheap p))"
  by (auto simp: pool_inv_def pool_list_def) (metis List.finite_set)

text \<open>Changing events or the contents of a block.\<close>

lemma pool_inv_same:
  assumes "pool_inv p" and "pr_next p' = pr_next p" "pr_prev p' = pr_prev p" "pfirst p' = pfirst p"
    "plast p' = plast p" "alloc_c p' = alloc_c p" "pool_magic1 p' = pool_magic1 p"
    "pool_magic2 p' = pool_magic2 p" and "dom (pheap p') = dom (pheap p)"
    and "\<forall>a x. pheap p' a = Some x \<longrightarrow> block_ok x"
  shows "pool_inv p'"
  using assms by (simp add: pool_inv_def pool_list_def check_pool_iff)

lemma write_fence_ok:
  assumes "length m = n + 2"
  shows "write_fence m n = Some (take n m @ [KS_POOL_FENCE_MAGIC0, KS_POOL_FENCE_MAGIC1])"
proof -
  have "m[n := x, n + 1 := y] = take n m @ [x, y]" for x y
    using assms by (intro nth_equalityI) (auto simp: nth_append nth_list_update less_Suc_eq)
  with assms show ?thesis by (simp add: write_fence_def mem_wr_def)
qed

lemma required_ok:
  assumes "sz + 98 < SIZE_MOD"
  shows "size_add (size_add KS_POOL_PREFIX_SIZE sz) KS_POOL_FENCE_SIZE = sz + 98"
  using assms by (simp add: size_add_def KS_POOL_PREFIX_SIZE_def KS_POOL_FENCE_SIZE_def)

lemma block_ok_intro:
  assumes "0 < sz" and "sz + 98 < SIZE_MOD" and "length m = sz"
  shows "block_ok (pool_block sz (m @ [KS_POOL_FENCE_MAGIC0, KS_POOL_FENCE_MAGIC1]))"
  using assms by (simp add: block_ok_def pool_block_def CHECK_PREFIX_def nth_append)

section \<open>Allocation\<close>

lemma alloc_mem_ok:
  assumes inv: "pool_inv p" and fresh: "pheap p a = None" and sz: "0 < sz" "sz + 98 < SIZE_MOD"
    and room: "alloc_c p + 1 < SIZE_MOD"
  shows "\<exists>p'. alloc_mem (Some a) p sz = Some (a, p') \<and> pool_inv p' \<and>
           pheap p' = (pheap p)(a \<mapsto> pool_block sz (replicate sz 0 @ [KS_POOL_FENCE_MAGIC0, KS_POOL_FENCE_MAGIC1])) \<and>
           alloc_c p' = alloc_c p + 1 \<and> user_alloc p' = size_add (user_alloc p) sz \<and>
           max_alloc p' = max (max_alloc p) (user_alloc p') \<and> cleaning_up p' = cleaning_up p"
proof -
  define x where "x = pool_block sz (replicate sz 0 @ [KS_POOL_FENCE_MAGIC0, KS_POOL_FENCE_MAGIC1])"
  obtain ns where ns: "dlist (pr_next p) (pr_prev p) (pfirst p) (plast p) ns" "set ns = dom (pheap p)"
    "alloc_c p = length ns" "length ns < SIZE_MOD" using inv by (auto simp: pool_inv_def pool_list_def)
  have a: "a \<notin> set ns" using fresh ns(2) by auto
  define nxt where "nxt = (pr_next p)(a := pfirst p)"
  define prv where "prv = (pr_prev p)(a := None)"
  have d: "dlist nxt prv (pfirst p) (plast p) ns"
    using ns(1) a by (simp add: nxt_def prv_def dlist_def)
  have d': "dlist nxt (case pfirst p of None \<Rightarrow> prv | Some h \<Rightarrow> prv(h := Some a)) (Some a)
      (case plast p of None \<Rightarrow> Some a | Some t \<Rightarrow> Some t) (a # ns)"
    by (rule dlist_push_front [OF d a]) (simp_all add: nxt_def prv_def)
  have fence: "write_fence (replicate (sz + 2) (0 :: byte)) sz =
      Some (replicate sz 0 @ [KS_POOL_FENCE_MAGIC0, KS_POOL_FENCE_MAGIC1])"
    using write_fence_ok [of "replicate (sz + 2) 0" sz] by (simp only: length_replicate take_replicate) simp
  define b where "b = p\<lparr>pheap := (pheap p)(a \<mapsto> x), pr_next := nxt,
      pr_prev := (case pfirst p of None \<Rightarrow> prv | Some h \<Rightarrow> prv(h := Some a)), pfirst := Some a\<rparr>"
  define q where "q = (p_log KS_POOL_FUNC_INCREF sz 1 None (Some a) 0
      (if plast p = None then b\<lparr>plast := Some a\<rparr> else b))\<lparr>alloc_c := alloc_c p + 1, user_alloc := size_add (user_alloc p) sz\<rparr>"
  define p' where "p' = (if max_alloc p < size_add (user_alloc p) sz
      then q\<lparr>max_alloc := size_add (user_alloc p) sz\<rparr> else q)"
  have req: "size_add (size_add KS_POOL_PREFIX_SIZE sz) KS_POOL_FENCE_SIZE - KS_POOL_PREFIX_SIZE = sz + 2"
    "\<not> size_add (size_add KS_POOL_PREFIX_SIZE sz) KS_POOL_FENCE_SIZE < KS_POOL_PREFIX_SIZE"
    using required_ok [OF sz(2)] by (simp_all add: KS_POOL_PREFIX_SIZE_def)
  have op: "alloc_mem (Some a) p sz = Some (a, p')"
    using sz room req fence
    by (cases "pfirst p"; cases "plast p")
      (simp_all add: alloc_mem_def Let_def p'_def q_def b_def nxt_def prv_def x_def size_simps put_prefix_def)
  have x: "block_ok x" unfolding x_def using sz by (intro block_ok_intro) simp_all
  have "pool_list p' (a # ns)"
    using d' ns(2) by (cases "plast p") (simp_all add: pool_list_def p'_def q_def b_def)
  moreover have "check_pool p' = KS_STATUS_SUCCESS"
    using inv by (simp add: pool_inv_def check_pool_iff p'_def q_def b_def)
  moreover have "\<forall>c y. pheap p' c = Some y \<longrightarrow> block_ok y"
    using inv x by (simp add: pool_inv_def p'_def q_def b_def)
  ultimately have "pool_inv p'"
    using ns(3) room unfolding pool_inv_def by (intro conjI exI [of _ "a # ns"]) (simp_all add: p'_def q_def)
  with op show ?thesis
    by (intro exI [of _ p']) (auto simp: p'_def q_def b_def x_def max_def)
qed

lemma pool_live_upd:
  "pheap p' = (pheap p)(a \<mapsto> x) \<Longrightarrow> pool_live p' = (pool_live p)(a \<mapsto> (take (psize x) (pdata x), prefs x))"
  by (rule ext) (simp add: pool_live_def)

lemma ks_pool_alloc_ok:
  assumes "pool_inv p" and "pheap p a = None" and "0 < sz" "sz + 98 < SIZE_MOD" and "alloc_c p + 1 < SIZE_MOD"
  shows "\<exists>p'. ks_pool_alloc (Some a) p sz = Some (a, p') \<and> pool_inv p' \<and>
           pheap p' = (pheap p)(a \<mapsto> pool_block sz (replicate sz 0 @ [KS_POOL_FENCE_MAGIC0, KS_POOL_FENCE_MAGIC1])) \<and>
           pool_live p' = (pool_live p)(a \<mapsto> (replicate sz 0, 1)) \<and>
           alloc_c p' = alloc_c p + 1 \<and> user_alloc p' = size_add (user_alloc p) sz \<and>
           max_alloc p' = max (max_alloc p) (user_alloc p')"
proof -
  from alloc_mem_ok [OF assms] obtain q where q: "alloc_mem (Some a) p sz = Some (a, q)" "pool_inv q"
    "pheap q = (pheap p)(a \<mapsto> pool_block sz (replicate sz 0 @ [KS_POOL_FENCE_MAGIC0, KS_POOL_FENCE_MAGIC1]))"
    "alloc_c q = alloc_c p + 1" "user_alloc q = size_add (user_alloc p) sz"
    "max_alloc q = max (max_alloc p) (user_alloc q)" by blast
  define p' where "p' = p_log KS_POOL_FUNC_ALLOC sz 0 (Some a) None 0 q"
  have inv': "pool_inv p'" by (rule pool_inv_same [OF q(2)]) (use q(2) in \<open>simp_all add: p'_def pool_inv_def\<close>)
  have "get_prefix p' a = Some (pool_block sz (replicate sz 0 @ [KS_POOL_FENCE_MAGIC0, KS_POOL_FENCE_MAGIC1]))"
    by (rule get_prefix_ok [OF inv']) (simp add: p'_def q(3))
  moreover have "check_pool p = KS_STATUS_SUCCESS" using assms(1) by (simp add: pool_inv_def)
  ultimately have op: "ks_pool_alloc (Some a) p sz = Some (a, p')"
    using q(1) assms(3) by (simp add: ks_pool_alloc_def ks_pool_alloc_ex_def p'_def)
  have "pool_live p' = (pool_live p)(a \<mapsto> (replicate sz 0, 1))"
    using pool_live_upd [of p' p a] q(3) by (simp add: p'_def pool_block_def)
  with op inv' q(3-6) show ?thesis by (simp add: p'_def)
qed

section \<open>Releasing and referencing\<close>

lemma unlink_ok:
  assumes "dlist (pr_next p) (pr_prev p) (pfirst p) (plast p) (xs @ a # ys)"
  shows "dlist (pr_next (unlink_prefix a p)) (pr_prev (unlink_prefix a p)) (pfirst (unlink_prefix a p))
           (plast (unlink_prefix a p)) (xs @ ys)"
  using dlist_unlink [OF assms]
  by (cases "pr_prev p a"; cases "pr_next p a") (simp_all add: unlink_prefix_def)

lemma free_last_ok:
  assumes inv: "pool_inv p" and x: "pheap p a = Some x" and r: "prefs x = 1"
  shows "\<exists>p' es. free_mem p a = Some (KS_STATUS_SUCCESS, p') \<and> pool_inv p' \<and>
           pheap p' = (pheap p)(a := None) \<and> alloc_c p' = alloc_c p - 1 \<and>
           user_alloc p' = size_sub (user_alloc p) (psize x) \<and> max_alloc p' = max_alloc p \<and>
           cleaning_up p' = cleaning_up p \<and>
           pevents p' = pevents p @ es @ (if cleaning_up p then [] else
             (case cleanup_callback x of None \<Rightarrow> [] | Some cb \<Rightarrow>
                [Callback cb a (cleanup_arg x) KS_MPCL_ANNOUNCE KS_MPCL_FREE,
                 Callback cb a (cleanup_arg x) KS_MPCL_TEARDOWN KS_MPCL_FREE,
                 Callback cb a (cleanup_arg x) KS_MPCL_DESTROY KS_MPCL_FREE])) @ [Free_block a] \<and>
           es = (if log_func p = None then [] else [Log KS_POOL_FUNC_DECREF (psize x) 0 (Some a) None 0])"
proof -
  obtain ns where ns: "dlist (pr_next p) (pr_prev p) (pfirst p) (plast p) ns" "set ns = dom (pheap p)"
    "alloc_c p = length ns" "length ns < SIZE_MOD" using inv by (auto simp: pool_inv_def pool_list_def)
  from x ns(2) have "a \<in> set ns" by auto
  then obtain xs ys where split: "ns = xs @ a # ys" by (meson split_list)
  have dist: "distinct ns" using ns(1) by (simp add: dlist_def)
  define y where "y = x\<lparr>prefs := 0\<rparr>"
  define q where "q = perform_pool_cleanup_on_free a y
      (p_log KS_POOL_FUNC_DECREF (psize y) 0 (Some a) None 0 (put_prefix a y p))"
  define u where "u = unlink_prefix a q"
  define p' where "p' = p_emit [Free_block a] (u\<lparr>alloc_c := size_sub (alloc_c u) 1,
      user_alloc := size_sub (user_alloc u) (psize x), pheap := (pheap u)(a := None)\<rparr>)"
  have fence: "check_fence y = Some KS_STATUS_SUCCESS"
    using check_fence_ok [OF pool_inv_block [OF inv x]] by (simp add: y_def check_fence_def)
  have op: "free_mem p a = Some (KS_STATUS_SUCCESS, p')"
    using get_prefix_ok [OF inv x] r fence
    by (simp add: free_mem_def Let_def y_def q_def u_def p'_def)
  have "dlist (pr_next q) (pr_prev q) (pfirst q) (plast q) (xs @ a # ys)"
    using ns(1) split by (simp add: q_def)
  from unlink_ok [OF this] have d: "dlist (pr_next p') (pr_prev p') (pfirst p') (plast p') (xs @ ys)"
    by (simp add: p'_def u_def)
  have heap: "pheap p' = (pheap p)(a := None)" by (simp add: p'_def u_def q_def)
  have "set (xs @ ys) = dom (pheap p')" using ns(2) split dist unfolding heap by auto
  with d have l: "pool_list p' (xs @ ys)" by (simp add: pool_list_def)
  have c: "alloc_c p' = length (xs @ ys)"
    using ns(3) split by (simp add: p'_def u_def q_def size_simps)
  have "pool_inv p'"
    unfolding pool_inv_def
  proof (intro conjI exI [of _ "xs @ ys"])
    show "check_pool p' = KS_STATUS_SUCCESS"
      using inv by (simp add: pool_inv_def check_pool_iff p'_def u_def q_def)
    show "\<forall>b z. pheap p' b = Some z \<longrightarrow> block_ok z"
      using inv heap by (simp add: pool_inv_def)
    show "length (xs @ ys) < SIZE_MOD" using ns(4) split by simp
  qed (use l c in auto)
  with op heap c ns(3) split show ?thesis
    by (auto simp: p'_def u_def q_def y_def p_log_def perform_pool_cleanup_on_free_def split: option.split)
qed

lemma free_shared_ok:
  assumes inv: "pool_inv p" and x: "pheap p a = Some x" and r: "1 < prefs x"
  shows "\<exists>p'. free_mem p a = Some (KS_STATUS_REFS_EXIST, p') \<and> pool_inv p' \<and>
           pheap p' = (pheap p)(a \<mapsto> x\<lparr>prefs := prefs x - 1\<rparr>) \<and> alloc_c p' = alloc_c p \<and>
           user_alloc p' = user_alloc p \<and> max_alloc p' = max_alloc p"
proof -
  define y where "y = x\<lparr>prefs := prefs x - 1\<rparr>"
  define p' where "p' = p_log KS_POOL_FUNC_DECREF (psize y) (prefs y) (Some a) None 0 (put_prefix a y p)"
  have "free_mem p a = Some (KS_STATUS_REFS_EXIST, p')"
    using get_prefix_ok [OF inv x] r by (simp add: free_mem_def Let_def y_def p'_def)
  moreover have y: "block_ok y"
    using pool_inv_block [OF inv x] r by (simp add: block_ok_def y_def CHECK_PREFIX_def)
  have "pool_inv p'"
    by (rule pool_inv_same [OF inv]) (use x y inv in \<open>auto simp: p'_def pool_inv_def\<close>)
  ultimately show ?thesis by (auto simp: p'_def y_def)
qed

lemma p_log_inv [simp]: "pool_inv (p_log f s r d n z p) = pool_inv p"
  by (simp add: pool_inv_def pool_list_def check_pool_iff)

lemma ks_pool_free_last:
  assumes "pool_inv p" and "pheap p a = Some x" and "prefs x = 1"
  shows "\<exists>p'. ks_pool_free_ex p (Some a) = Some (KS_STATUS_SUCCESS, None, p') \<and> pool_inv p' \<and>
           pheap p' = (pheap p)(a := None) \<and> pool_live p' = (pool_live p)(a := None) \<and>
           alloc_c p' = alloc_c p - 1 \<and> user_alloc p' = size_sub (user_alloc p) (psize x) \<and>
           max_alloc p' = max_alloc p"
proof -
  let ?q = "p_log KS_POOL_FUNC_FREE (psize x) (size_sub (prefs x) 1) (Some a) None 0 p"
  from free_last_ok [of ?q a x] assms obtain p' where "free_mem ?q a = Some (KS_STATUS_SUCCESS, p')"
    "pool_inv p'" "pheap p' = (pheap p)(a := None)" "alloc_c p' = alloc_c p - 1"
    "user_alloc p' = size_sub (user_alloc p) (psize x)" "max_alloc p' = max_alloc p" by auto
  moreover from this(3) have "pool_live p' = (pool_live p)(a := None)"
    by (intro ext) (simp add: pool_live_def)
  moreover have "check_pool p = KS_STATUS_SUCCESS" using assms(1) by (simp add: pool_inv_def)
  ultimately show ?thesis
    using get_prefix_ok [OF assms(1,2)] assms(3) by (simp add: ks_pool_free_ex_def Let_def)
qed

lemma ks_pool_free_shared:
  assumes "pool_inv p" and "pheap p a = Some x" and "1 < prefs x"
  shows "\<exists>p'. ks_pool_free_ex p (Some a) = Some (KS_STATUS_REFS_EXIST, Some a, p') \<and> pool_inv p' \<and>
           pool_live p' = (pool_live p)(a \<mapsto> (take (psize x) (pdata x), prefs x - 1)) \<and>
           alloc_c p' = alloc_c p"
proof -
  let ?q = "p_log KS_POOL_FUNC_DECREF (psize x) (size_sub (prefs x) 1) (Some a) None 0 p"
  from free_shared_ok [of ?q a x] assms obtain p' where p': "free_mem ?q a = Some (KS_STATUS_REFS_EXIST, p')"
    "pool_inv p'" "pheap p' = (pheap p)(a \<mapsto> x\<lparr>prefs := prefs x - 1\<rparr>)" "alloc_c p' = alloc_c p" by auto
  have "check_pool p = KS_STATUS_SUCCESS" using assms(1) by (simp add: pool_inv_def)
  with p' get_prefix_ok [OF assms(1,2)] assms(3) pool_live_upd [OF p'(3)] show ?thesis
    by (simp add: ks_pool_free_ex_def Let_def)
qed

lemma ks_pool_ref_ok:
  assumes inv: "pool_inv p" and x: "pheap p a = Some x" and r: "prefs x + 1 < SIZE_MOD"
  shows "\<exists>p'. ks_pool_ref_ex p a = Some (a, p') \<and> pool_inv p' \<and>
           pool_live p' = (pool_live p)(a \<mapsto> (take (psize x) (pdata x), prefs x + 1)) \<and> alloc_c p' = alloc_c p"
proof -
  define y where "y = x\<lparr>prefs := prefs x + 1\<rparr>"
  define p' where "p' = p_log KS_POOL_FUNC_INCREF (psize y) (prefs y) (Some a) None 0 (put_prefix a y p)"
  have "check_pool p = KS_STATUS_SUCCESS" using inv by (simp add: pool_inv_def)
  then have "ks_pool_ref_ex p a = Some (a, p')"
    using get_prefix_ok [OF inv x] r by (simp add: ks_pool_ref_ex_def Let_def y_def p'_def size_simps)
  moreover have y: "block_ok y"
    using pool_inv_block [OF inv x] by (simp add: block_ok_def y_def CHECK_PREFIX_def)
  have "pool_inv p'"
    by (rule pool_inv_same [OF inv]) (use x y inv in \<open>auto simp: p'_def pool_inv_def\<close>)
  moreover have "pool_live p' = (pool_live p)(a \<mapsto> (take (psize x) (pdata x), prefs x + 1))"
    using pool_live_upd [of p' p a y] by (simp add: p'_def y_def)
  ultimately show ?thesis by (auto simp: p'_def)
qed

section \<open>Resizing\<close>

text \<open>Replacing a node of a chain by the node \<open>b\<close>, which may be the same.\<close>

lemma chain_replace:
  assumes c: "chain f p (xs @ a # ys)" and d: "distinct (xs @ a # ys)" and b: "b \<notin> set (xs @ ys)"
  shows "chain (case first_of (rev xs) of None \<Rightarrow> f(b := f a) | Some l \<Rightarrow> (f(b := f a))(l := Some b))
           (if xs = [] then Some b else p) (xs @ b # ys)"
proof -
  let ?f = "f(b := f a)"
  have fa: "f a = first_of ys" using chain_link [OF c] .
  have ys: "chain ?f (first_of ys) ys"
    using chain_suffix [of f p "xs @ [a]" ys] c b by simp
  have cb: "chain ?f (Some b) (b # ys)" using fa ys by simp
  show ?thesis
  proof (cases xs rule: rev_cases)
    case Nil
    with cb show ?thesis by simp
  next
    case (snoc us l)
    have "chain ?f p (us @ l # a # ys)"
      using c snoc b d by (cases "b = a") simp_all
    then have "chain (?f(l := first_of (b # ys))) p (us @ l # b # ys)"
      by (rule chain_relink) (use d b snoc cb in auto)
    with snoc show ?thesis by simp
  qed
qed

lemma relink_ok:
  assumes d: "dlist (pr_next p) (pr_prev p) (pfirst p) (plast p) (xs @ a # ys)" and b: "b \<notin> set (xs @ ys)"
    and q_def: "q = relink_block b (put_prefix b y (move_block a b p))"
  shows "dlist (pr_next q) (pr_prev q) (pfirst q) (plast q) (xs @ b # ys) \<and>
         pheap q = (pheap p)(a := None, b \<mapsto> y) \<and> alloc_c q = alloc_c p \<and> user_alloc q = user_alloc p \<and>
         max_alloc q = max_alloc p \<and> pool_magic1 q = pool_magic1 p \<and> pool_magic2 q = pool_magic2 p"
proof -
  have l: "pr_next p a = first_of ys" "pr_prev p a = first_of (rev xs)"
    using dlist_next [OF d] dlist_prev [OF d] .
  from d have dist: "distinct (xs @ a # ys)" by (simp add: dlist_def)
  have c1: "chain (case first_of (rev xs) of None \<Rightarrow> (pr_next p)(b := pr_next p a)
        | Some l \<Rightarrow> ((pr_next p)(b := pr_next p a))(l := Some b)) (if xs = [] then Some b else pfirst p) (xs @ b # ys)"
    using d b dist by (intro chain_replace) (auto simp: dlist_def)
  have c2: "chain (case first_of ys of None \<Rightarrow> (pr_prev p)(b := pr_prev p a)
        | Some l \<Rightarrow> ((pr_prev p)(b := pr_prev p a))(l := Some b)) (if ys = [] then Some b else plast p)
        (rev ys @ b # rev xs)"
  proof -
    have "distinct (rev ys @ a # rev xs)" using dist by auto
    with chain_replace [of "pr_prev p" "plast p" "rev ys" a "rev xs" b] d b show ?thesis
      by (simp add: dlist_def)
  qed
  have "l \<noteq> b" if "first_of (rev xs) = Some l" for l
    using that b by (cases xs rule: rev_cases) auto
  with c1 c2 dist b l show ?thesis
    by (cases "first_of (rev xs)"; cases "first_of ys")
      (auto simp: q_def relink_block_def move_block_def dlist_def put_prefix_def first_of_rev split: if_splits)
qed

lemma ks_pool_resize_ok:
  assumes inv: "pool_inv p" and x: "pheap p a = Some x" and r: "prefs x = 1"
    and b: "b = a \<or> pheap p b = None" and n: "0 < n" "n + 98 < SIZE_MOD" "n \<noteq> psize x"
  shows "\<exists>p' y. ks_pool_resize (Some b) junk p a n = Some (b, p') \<and> pool_inv p' \<and>
           pheap p' = (pheap p)(a := None, b \<mapsto> y) \<and> psize y = n \<and> prefs y = 1 \<and>
           take (min n (psize x)) (pdata y) = take (min n (psize x)) (pdata x) \<and>
           cleanup_callback y = cleanup_callback x \<and> cleanup_arg y = cleanup_arg x \<and>
           alloc_c p' = alloc_c p \<and> user_alloc p' = user_alloc p \<and> max_alloc p' = max_alloc p"
proof -
  obtain ns where ns: "dlist (pr_next p) (pr_prev p) (pfirst p) (plast p) ns" "set ns = dom (pheap p)"
    "alloc_c p = length ns" "length ns < SIZE_MOD" using inv by (auto simp: pool_inv_def pool_list_def)
  from x ns(2) have "a \<in> set ns" by auto
  then obtain xs ys where split: "ns = xs @ a # ys" by (meson split_list)
  have dist: "distinct ns" using ns(1) by (simp add: dlist_def)
  have bn: "b \<notin> set (xs @ ys)"
  proof (cases "b = a")
    case True
    with dist split show ?thesis by auto
  next
    case False
    with b have "b \<notin> dom (pheap p)" by auto
    with ns(2) split show ?thesis by auto
  qed
  have bx: "block_ok x" using inv x by (rule pool_inv_block)
  define m where "m = mem_realloc junk (pdata x) (n + 2)"
  define y where "y = x\<lparr>psize := n, pdata := take n m @ [KS_POOL_FENCE_MAGIC0, KS_POOL_FENCE_MAGIC1]\<rparr>"
  have wf: "write_fence m n = Some (pdata y)"
    using write_fence_ok [of m n] by (simp add: m_def y_def)
  have by': "block_ok y" using bx n by (simp add: block_ok_def y_def CHECK_PREFIX_def nth_append m_def)
  define q where "q = relink_block b (put_prefix b y (move_block a b p))"
  have q: "dlist (pr_next q) (pr_prev q) (pfirst q) (plast q) (xs @ b # ys)"
    "pheap q = (pheap p)(a := None, b \<mapsto> y)" "alloc_c q = alloc_c p" "user_alloc q = user_alloc p"
    "max_alloc q = max_alloc p" "pool_magic1 q = pool_magic1 p" "pool_magic2 q = pool_magic2 p"
    unfolding q_def using relink_ok [OF ns(1) [unfolded split] bn refl] by blast+
  define p' where "p' = p_log KS_POOL_FUNC_RESIZE n 0 (Some a) (Some b) (psize x) q"
  have cp: "check_pool p = KS_STATUS_SUCCESS" using inv by (simp add: pool_inv_def)
  have req: "size_add (size_add KS_POOL_PREFIX_SIZE n) KS_POOL_FENCE_SIZE - KS_POOL_PREFIX_SIZE = n + 2"
    "\<not> size_add (size_add KS_POOL_PREFIX_SIZE n) KS_POOL_FENCE_SIZE < KS_POOL_PREFIX_SIZE"
    using required_ok [OF n(2)] by (simp_all add: KS_POOL_PREFIX_SIZE_def)
  have yx: "x\<lparr>psize := n, pdata := pdata y\<rparr> = y" by (simp add: y_def)
  have op: "ks_pool_resize (Some b) junk p a n = Some (b, p')"
    unfolding ks_pool_resize_def ks_pool_resize_ex_def Let_def req(1)
    using get_prefix_ok [OF inv x] cp r n req(2) wf yx by (simp add: p'_def q_def m_def)
  have "pool_list q (xs @ b # ys)"
    using q(1,2) ns(2) split x dist by (auto simp: pool_list_def)
  then have "pool_inv q"
    unfolding pool_inv_def check_pool_iff q(2,3,6,7)
    using inv by' ns(3,4) split by (auto simp: pool_inv_def check_pool_iff intro!: exI [of _ "xs @ b # ys"])
  moreover have "take (min n (psize x)) (pdata y) = take (min n (psize x)) (pdata x)"
    using bx by (simp add: y_def m_def block_ok_def min_def)
  ultimately show ?thesis
    using op q by (intro exI [of _ p'] exI [of _ y]) (simp add: p'_def y_def r)
qed

end
