(* ===== verification/Ks_Pool_Props.thy ===== *)
theory Ks_Pool_Props
  imports Ks_Pool_Inv
begin

text \<open>
  The pool as a heap of reference counted blocks (a locale and its interpretation), the statistics,
  and the string copies.
\<close>

section \<open>A reference counted heap\<close>

datatype heap_op = H_alloc nat nat | H_ref nat | H_free nat

text \<open>The specification on the live blocks; \<^const>\<open>None\<close> is a call its caller must not make.\<close>

fun heap_step :: "live \<Rightarrow> heap_op \<Rightarrow> live option" where
  "heap_step m (H_alloc a n) =
     (if m a = None \<and> 0 < n \<and> n + 98 < SIZE_MOD then Some (m(a \<mapsto> (replicate n 0, 1))) else None)"
| "heap_step m (H_ref a) =
     (case m a of
        None \<Rightarrow> None
      | Some (d, r) \<Rightarrow> if r + 1 < SIZE_MOD then Some (m(a \<mapsto> (d, r + 1))) else None)"
| "heap_step m (H_free a) =
     (case m a of
        None \<Rightarrow> None
      | Some (d, r) \<Rightarrow> Some (if r \<le> 1 then m(a := None) else m(a \<mapsto> (d, r - 1))))"

fun ops_run :: "('s \<Rightarrow> 'o \<Rightarrow> 's option) \<Rightarrow> 's \<Rightarrow> 'o list \<Rightarrow> 's option" where
  "ops_run step s [] = Some s"
| "ops_run step s (op # ops) = do { s' \<leftarrow> step s op; ops_run step s' ops }"

lemma ops_run_append: "ops_run step s (xs @ ys) = ops_run step s xs \<bind> (\<lambda>s'. ops_run step s' ys)"
  by (induction xs arbitrary: s) simp_all

locale refcount_heap =
  fixes inv :: "'s \<Rightarrow> bool" and live_of :: "'s \<Rightarrow> live" and used :: "'s \<Rightarrow> nat"
    and step :: "'s \<Rightarrow> heap_op \<Rightarrow> 's option"
  assumes step_ok: "inv s \<Longrightarrow> used s + 1 < SIZE_MOD \<Longrightarrow> heap_step (live_of s) op = Some m \<Longrightarrow>
      \<exists>s'. step s op = Some s' \<and> inv s' \<and> live_of s' = m \<and> used s' \<le> used s + 1"
begin

lemma run_refines:
  assumes "inv s" and "used s + length ops < SIZE_MOD" and "ops_run heap_step (live_of s) ops = Some m"
  shows "\<exists>s'. ops_run step s ops = Some s' \<and> inv s' \<and> live_of s' = m"
  using assms
proof (induction ops arbitrary: s)
  case Nil
  then show ?case by simp
next
  case (Cons op ops)
  then obtain m1 where m1: "heap_step (live_of s) op = Some m1" "ops_run heap_step m1 ops = Some m"
    by (auto split: Option.bind_splits)
  with step_ok [of s op m1] Cons.prems obtain s1 where
    s1: "step s op = Some s1" "inv s1" "live_of s1 = m1" "used s1 \<le> used s + 1" by auto
  with Cons.IH [of s1] Cons.prems m1(2) show ?case by auto
qed

end

text \<open>A block with one reference survives \<open>n\<close> references and \<open>n\<close> releases and goes with one more.\<close>

lemma heap_refs: "m a = Some (d, r) \<Longrightarrow> r + n < SIZE_MOD \<Longrightarrow>
    ops_run heap_step m (replicate n (H_ref a)) = Some (m(a \<mapsto> (d, r + n)))"
proof (induction n arbitrary: m r)
  case 0
  then show ?case by (simp add: fun_upd_idem)
next
  case (Suc n)
  from Suc.IH [of "m(a \<mapsto> (d, r + 1))" "r + 1"] Suc.prems show ?case by (simp add: fun_upd_def cong: if_cong)
qed

lemma heap_frees: "m a = Some (d, Suc n) \<Longrightarrow>
    ops_run heap_step m (replicate n (H_free a)) = Some (m(a \<mapsto> (d, 1)))"
proof (induction n arbitrary: m)
  case 0
  then show ?case by (simp add: fun_upd_idem)
next
  case (Suc n)
  from Suc.IH [of "m(a \<mapsto> (d, Suc n))"] Suc.prems show ?case by (simp add: fun_upd_def cong: if_cong)
qed

definition pool_op :: "ks_pool \<Rightarrow> heap_op \<Rightarrow> ks_pool option" where
  "pool_op p op =
     (case op of
        H_alloc a n \<Rightarrow> map_option snd (ks_pool_alloc (Some a) p n)
      | H_ref a \<Rightarrow> map_option snd (ks_pool_ref_ex p a)
      | H_free a \<Rightarrow> map_option (snd \<circ> snd) (ks_pool_free_ex p (Some a)))"

lemma pool_live_SomeD:
  "pool_live p a = Some (d, r) \<Longrightarrow> \<exists>x. pheap p a = Some x \<and> d = take (psize x) (pdata x) \<and> r = prefs x"
  by (auto simp: pool_live_def)

interpretation pool: refcount_heap pool_inv pool_live alloc_c pool_op
proof unfold_locales
  fix p op m
  assume inv: "pool_inv p" and room: "alloc_c p + 1 < SIZE_MOD" and st: "heap_step (pool_live p) op = Some m"
  show "\<exists>p'. pool_op p op = Some p' \<and> pool_inv p' \<and> pool_live p' = m \<and> alloc_c p' \<le> alloc_c p + 1"
  proof (cases op)
    case (H_alloc a n)
    with st have h: "pheap p a = None" "0 < n" "n + 98 < SIZE_MOD" "m = (pool_live p)(a \<mapsto> (replicate n 0, 1))"
      by (auto simp: pool_live_dom split: if_splits)
    with ks_pool_alloc_ok [OF inv h(1-3) room] H_alloc show ?thesis by (auto simp: pool_op_def)
  next
    case (H_ref a)
    with st obtain x where x: "pheap p a = Some x" "prefs x + 1 < SIZE_MOD"
      "m = (pool_live p)(a \<mapsto> (take (psize x) (pdata x), prefs x + 1))"
      by (auto split: option.splits if_splits dest!: pool_live_SomeD)
    with ks_pool_ref_ok [OF inv x(1,2)] H_ref show ?thesis by (auto simp: pool_op_def)
  next
    case (H_free a)
    with st obtain x where x: "pheap p a = Some x" "m = (if prefs x \<le> 1 then (pool_live p)(a := None)
        else (pool_live p)(a \<mapsto> (take (psize x) (pdata x), prefs x - 1)))"
      by (auto split: option.splits dest!: pool_live_SomeD)
    have r: "1 \<le> prefs x" using pool_inv_block [OF inv x(1)] by (simp add: block_ok_def)
    show ?thesis
    proof (cases "prefs x = 1")
      case True
      with ks_pool_free_last [OF inv x(1)] x(2) H_free show ?thesis by (auto simp: pool_op_def)
    next
      case False
      with ks_pool_free_shared [OF inv x(1)] r x(2) H_free show ?thesis by (auto simp: pool_op_def)
    qed
  qed
qed

lemma pool_open_inv: "pool_inv (ks_pool_raw_open flags)" "pool_live (ks_pool_raw_open flags) = (\<lambda>_. None)"
  by (auto simp: pool_inv_def ks_pool_raw_open_def check_pool_iff pool_list_def pool_live_def
      intro!: exI [of _ "[]"])

section \<open>Properties\<close>

text \<open>
  C2: on a well-formed pool, any sequence of allocations, references and releases that the
  specification of a reference counted heap admits runs without a fault, keeps the doubly linked
  list of headers, the magic numbers and the fences intact, and leaves exactly the live blocks, with
  their bytes and reference counts, that the specification says.
\<close>

theorem ks_pool_refines_heap:
  assumes "pool_inv p" and "ops_run heap_step (pool_live p) ops = Some m"
    and "alloc_c p + length ops < SIZE_MOD"
  shows "\<exists>p'. ops_run pool_op p ops = Some p' \<and> pool_inv p' \<and> pool_live p' = m"
  using pool.run_refines [OF assms(1,3,2)] .

lemma demo_heap_run:
  "ops_run heap_step (\<lambda>_. None) [H_alloc 100 8, H_alloc 500 4, H_ref 100, H_free 100, H_free 500] =
     Some ((\<lambda>_. None)(100 := Some (replicate 8 0, 1)))"
  by (simp add: SIZE_MOD_def fun_eq_iff)

theorem ks_pool_refines_heap_witness:
  "\<exists>p'. ops_run pool_op (ks_pool_raw_open 0)
       [H_alloc 100 8, H_alloc 500 4, H_ref 100, H_free 100, H_free 500] = Some p' \<and>
     pool_inv p' \<and> pool_live p' = (\<lambda>_. None)(100 := Some (replicate 8 0, 1))"
  by (rule ks_pool_refines_heap [OF pool_open_inv(1)])
    (simp_all only: pool_open_inv(2) demo_heap_run, simp add: SIZE_MOD_def ks_pool_raw_open_def)

text \<open>
  a block that is referenced \<open>n\<close> times more keeps its bytes through \<open>n\<close> releases and is freed by
  the next one.
\<close>

lemma ks_pool_refcount:
  assumes "pool_inv p" and "pool_live p a = Some (d, 1)" and "alloc_c p + (2 * n + 1) < SIZE_MOD"
  shows "\<exists>q p'. ops_run pool_op p (replicate n (H_ref a) @ replicate n (H_free a)) = Some q \<and>
           pool_live q = pool_live p \<and>
           ops_run pool_op p (replicate n (H_ref a) @ replicate n (H_free a) @ [H_free a]) = Some p' \<and>
           pool_inv p' \<and> pool_live p' = (pool_live p)(a := None)"
proof -
  have r: "ops_run heap_step (pool_live p) (replicate n (H_ref a)) = Some ((pool_live p)(a \<mapsto> (d, 1 + n)))"
    using assms by (intro heap_refs) simp_all
  have f: "ops_run heap_step ((pool_live p)(a \<mapsto> (d, 1 + n))) (replicate n (H_free a)) =
      Some ((pool_live p)(a \<mapsto> (d, 1)))"
    using heap_frees [of "(pool_live p)(a \<mapsto> (d, 1 + n))" a d n] by simp
  have s1: "ops_run heap_step (pool_live p) (replicate n (H_ref a) @ replicate n (H_free a)) =
      Some (pool_live p)"
    using r f assms(2) by (simp add: ops_run_append fun_upd_idem)
  have s2: "ops_run heap_step (pool_live p) (replicate n (H_ref a) @ replicate n (H_free a) @ [H_free a]) =
      Some ((pool_live p)(a := None))"
    using r f assms(2) by (simp add: ops_run_append)
  from pool.run_refines [OF assms(1) _ s1] assms(3) obtain q where
    q: "ops_run pool_op p (replicate n (H_ref a) @ replicate n (H_free a)) = Some q" "pool_live q = pool_live p"
    by auto
  from pool.run_refines [OF assms(1) _ s2] assms(3) obtain p' where
    "ops_run pool_op p (replicate n (H_ref a) @ replicate n (H_free a) @ [H_free a]) = Some p'"
    "pool_inv p'" "pool_live p' = (pool_live p)(a := None)" by auto
  with q show ?thesis by blast
qed

definition demo_pool :: ks_pool where
  "demo_pool = snd (the (ks_pool_alloc (Some 100) (ks_pool_raw_open 0) 8))"

lemma demo_pool_ok:
  "pool_inv demo_pool" "pool_live demo_pool = (\<lambda>_. None)(100 \<mapsto> (replicate 8 0, 1))" "alloc_c demo_pool = 1"
  "user_alloc demo_pool = 8" "max_alloc demo_pool = 8"
  "pheap demo_pool = (\<lambda>_. None)(100 \<mapsto> pool_block 8 (replicate 8 0 @ [KS_POOL_FENCE_MAGIC0, KS_POOL_FENCE_MAGIC1]))"
proof -
  have "pheap (ks_pool_raw_open 0) 100 = None" "alloc_c (ks_pool_raw_open 0) = 0"
    "user_alloc (ks_pool_raw_open 0) = 0" "max_alloc (ks_pool_raw_open 0) = 0"
    "pheap (ks_pool_raw_open 0) = (\<lambda>_. None)"
    by (simp_all add: ks_pool_raw_open_def)
  with ks_pool_alloc_ok [OF pool_open_inv(1), of 0 100 8] pool_open_inv(2) [of 0]
  obtain p' where "ks_pool_alloc (Some 100) (ks_pool_raw_open 0) 8 = Some (100, p')" "pool_inv p'"
    "pool_live p' = (\<lambda>_. None)(100 \<mapsto> (replicate 8 0, 1))" "alloc_c p' = 1" "user_alloc p' = 8" "max_alloc p' = 8"
    "pheap p' = (\<lambda>_. None)(100 \<mapsto> pool_block 8 (replicate 8 0 @ [KS_POOL_FENCE_MAGIC0, KS_POOL_FENCE_MAGIC1]))"
    by (auto simp: SIZE_MOD_def size_add_def)
  then show "pool_inv demo_pool" "pool_live demo_pool = (\<lambda>_. None)(100 \<mapsto> (replicate 8 0, 1))"
    "alloc_c demo_pool = 1" "user_alloc demo_pool = 8" "max_alloc demo_pool = 8"
    "pheap demo_pool = (\<lambda>_. None)(100 \<mapsto> pool_block 8 (replicate 8 0 @ [KS_POOL_FENCE_MAGIC0, KS_POOL_FENCE_MAGIC1]))"
    by (simp_all add: demo_pool_def)
qed

section \<open>Statistics\<close>

lemma counts_alloc:
  assumes inv: "pool_inv p" and c: "pool_counts p" and h: "pheap p a = None" "0 < sz" "sz + 98 < SIZE_MOD"
    and room: "alloc_c p + 1 < SIZE_MOD" "user_alloc p + sz < SIZE_MOD"
  shows "\<exists>p'. ks_pool_alloc (Some a) p sz = Some (a, p') \<and> pool_counts p'"
proof -
  from ks_pool_alloc_ok [OF inv h room(1)] obtain p' where
    p': "ks_pool_alloc (Some a) p sz = Some (a, p')"
    "pheap p' = (pheap p)(a \<mapsto> pool_block sz (replicate sz 0 @ [KS_POOL_FENCE_MAGIC0, KS_POOL_FENCE_MAGIC1]))"
    "user_alloc p' = size_add (user_alloc p) sz" "max_alloc p' = max (max_alloc p) (user_alloc p')" by blast
  have "(\<Sum>b \<in> dom (pheap p'). psize (the (pheap p' b))) =
      sz + (\<Sum>b \<in> dom (pheap p). psize (the (pheap p' b)))"
    using pool_inv_finite [OF inv] h(1) by (simp add: p'(2) pool_block_def domIff)
  also have "(\<Sum>b \<in> dom (pheap p). psize (the (pheap p' b))) = (\<Sum>b \<in> dom (pheap p). psize (the (pheap p b)))"
    using h(1) by (intro sum.cong) (auto simp: p'(2))
  finally have "pool_counts p'" using c room p'(3,4) by (simp add: pool_counts_def size_simps)
  with p'(1) show ?thesis by blast
qed

lemma counts_free:
  assumes inv: "pool_inv p" and c: "pool_counts p" and x: "pheap p a = Some x" "prefs x = 1"
  shows "\<exists>p'. ks_pool_free_ex p (Some a) = Some (KS_STATUS_SUCCESS, None, p') \<and> pool_counts p'"
proof -
  from ks_pool_free_last [OF inv x] obtain p' where
    p': "ks_pool_free_ex p (Some a) = Some (KS_STATUS_SUCCESS, None, p')" "pheap p' = (pheap p)(a := None)"
    "user_alloc p' = size_sub (user_alloc p) (psize x)" "max_alloc p' = max_alloc p" by blast
  have fin: "finite (dom (pheap p))" by (rule pool_inv_finite [OF inv])
  have "(\<Sum>b \<in> dom (pheap p). psize (the (pheap p b))) =
      psize x + (\<Sum>b \<in> dom (pheap p) - {a}. psize (the (pheap p b)))"
    using sum.remove [OF fin, of a "\<lambda>b. psize (the (pheap p b))"] x(1) by (simp add: domIff)
  also have "(\<Sum>b \<in> dom (pheap p) - {a}. psize (the (pheap p b))) = (\<Sum>b \<in> dom (pheap p'). psize (the (pheap p' b)))"
    by (intro sum.cong) (auto simp: p'(2))
  finally have "pool_counts p'" using c p'(3,4) by (simp add: pool_counts_def size_simps)
  with p'(1) show ?thesis by blast
qed

text \<open>
  \<open>user_alloc\<close> is exact under allocation and release: when it is the number of bytes of the live
  blocks, it still is after \<open>ks_pool_alloc\<close> and after the last \<open>ks_pool_free\<close> of a block.
\<close>

lemma ks_pool_stats_exact:
  assumes "pool_inv p" and "pool_counts p" and "pheap p a = None" "0 < sz" "sz + 98 < SIZE_MOD"
    and "alloc_c p + 1 < SIZE_MOD" "user_alloc p + sz < SIZE_MOD" and "pheap p b = Some x" "prefs x = 1"
  shows "\<exists>p1 p2. ks_pool_alloc (Some a) p sz = Some (a, p1) \<and> pool_counts p1 \<and>
           ks_pool_free_ex p (Some b) = Some (KS_STATUS_SUCCESS, None, p2) \<and> pool_counts p2"
  using counts_alloc [OF assms(1-7)] counts_free [OF assms(1,2,8,9)] by blast

lemma demo_pool_counts: "pool_counts demo_pool"
  using demo_pool_ok(4-6) by (simp add: pool_counts_def SIZE_MOD_def pool_block_def)

text \<open>
  \<open>ks_pool_resize\<close> keeps the common bytes of the block and its place in the list, but not
  \<open>user_alloc\<close>. When the only block of a pool is enlarged and then freed, no block is live and
  \<open>ks_pool_stats\<close> reports a byte count that has wrapped below zero.
\<close>

lemma ks_pool_resize_stale_stats:
  assumes inv: "pool_inv p" and c: "pool_counts p" and only: "dom (pheap p) = {a}" "pheap p a = Some x"
    and r: "prefs x = 1" and b: "b = a \<or> pheap p b = None" and n: "psize x < n" "n + 98 < SIZE_MOD"
  shows "\<exists>p1 p2 y. ks_pool_resize (Some b) junk p a n = Some (b, p1) \<and> pheap p1 b = Some y \<and>
           psize y = n \<and> take (psize x) (pdata y) = take (psize x) (pdata x) \<and>
           ks_pool_free_ex p1 (Some b) = Some (KS_STATUS_SUCCESS, None, p2) \<and>
           pool_live p2 = (\<lambda>_. None) \<and> user_alloc p2 = SIZE_MOD + psize x - n"
proof -
  from ks_pool_resize_ok [OF inv only(2) r b _ n(2), of junk] n(1) obtain p1 y where
    p1: "ks_pool_resize (Some b) junk p a n = Some (b, p1)" "pool_inv p1"
      "pheap p1 = (pheap p)(a := None, b \<mapsto> y)" "psize y = n" "prefs y = 1"
      "take (min n (psize x)) (pdata y) = take (min n (psize x)) (pdata x)" "user_alloc p1 = user_alloc p"
    by auto
  have y: "pheap p1 b = Some y" using p1(3) by simp
  from ks_pool_free_last [OF p1(2) y p1(5)] obtain p2 where
    p2: "ks_pool_free_ex p1 (Some b) = Some (KS_STATUS_SUCCESS, None, p2)"
      "pool_live p2 = (pool_live p1)(b := None)" "user_alloc p2 = size_sub (user_alloc p1) (psize y)" by blast
  have "user_alloc p = psize x" using c only by (simp add: pool_counts_def)
  then have "user_alloc p2 = SIZE_MOD + psize x - n"
    using p2(3) p1(4,7) n(1) by (simp add: size_sub_def)
  moreover have "pool_live p2 = (\<lambda>_. None)"
  proof
    fix c
    have "pheap p c = None" if "c \<noteq> a" using only(1) that by blast
    then show "pool_live p2 c = None"
      by (cases "c = a"; cases "c = b") (simp_all add: p2(2) p1(3) pool_live_def)
  qed
  moreover have "take (psize x) (pdata y) = take (psize x) (pdata x)" using p1(6) n(1) by (simp add: min_def)
  ultimately show ?thesis using p1(1,4) p2(1) y by blast
qed

section \<open>Allocation of arrays\<close>

text \<open>
  \<open>ks_pool_calloc\<close> does not check the product of its arguments: when it wraps around, the call
  succeeds with a block smaller than asked for.
\<close>

lemma ks_pool_calloc_wraps:
  assumes "pool_inv p" and "pheap p a = None" and "alloc_c p + 1 < SIZE_MOD"
    and "SIZE_MOD \<le> n * sz" and "0 < n * sz mod SIZE_MOD" "n * sz mod SIZE_MOD + 98 < SIZE_MOD"
  shows "\<exists>p' x. ks_pool_calloc (Some a) p n sz = Some (a, p') \<and> pheap p' a = Some x \<and> psize x < n * sz"
proof -
  from alloc_mem_ok [OF assms(1,2,5,6,3)] obtain q where
    q: "alloc_mem (Some a) p (n * sz mod SIZE_MOD) = Some (a, q)"
    "pheap q a = Some (pool_block (n * sz mod SIZE_MOD)
       (replicate (n * sz mod SIZE_MOD) 0 @ [KS_POOL_FENCE_MAGIC0, KS_POOL_FENCE_MAGIC1]))" by auto
  have "n \<noteq> 0" "sz \<noteq> 0" using assms(4) SIZE_MOD_pos by (metis mult_0 not_le, metis mult_0_right not_le)
  moreover have "check_pool p = KS_STATUS_SUCCESS" using assms(1) by (simp add: pool_inv_def)
  moreover have "n * sz mod SIZE_MOD < n * sz"
    using assms(4) by (meson SIZE_MOD_pos mod_less_divisor order_less_le_trans)
  ultimately show ?thesis
    using q by (simp add: ks_pool_calloc_def ks_pool_calloc_ex_def size_mul_def pool_block_def)
qed

section \<open>String copies\<close>

lemma pool_store_ok:
  assumes "pheap p a = Some x" and "off + length bs \<le> psize x" and "psize x \<le> length (pdata x)"
  shows "pool_store p a off bs =
     Some (put_prefix a (x\<lparr>pdata := take off (pdata x) @ bs @ drop (off + length bs) (pdata x)\<rparr>) p)"
  using assms by (simp add: pool_store_def mem_cpy_def)

lemma c_str_sub: "c_str s = Some t \<Longrightarrow> mem_sub s 0 (length t) = Some t"
  "c_str s = Some t \<Longrightarrow> mem_sub s 0 (Suc (length t)) = Some (t @ [0])"
  by (auto dest!: c_str_no_nul simp: mem_sub_def)

lemma alloc_block:
  assumes "pool_inv p" and "pheap p a = None" and "0 < n" "n + 98 < SIZE_MOD" and "alloc_c p + 1 < SIZE_MOD"
  shows "\<exists>q x. ks_pool_alloc (Some a) p n = Some (a, q) \<and> pheap q a = Some x \<and> psize x = n \<and> prefs x = 1 \<and>
           n \<le> length (pdata x) \<and> (\<forall>b. b \<noteq> a \<longrightarrow> pheap q b = pheap p b)"
  using ks_pool_alloc_ok [OF assms] by (auto simp: pool_block_def)

lemma strcat_lengths_ok:
  assumes "list_all2 (\<lambda>s t. c_str s = Some t) ss ts" and "length cache \<le> 10"
    and "len + length (concat ts) < SIZE_MOD"
  shows "strcat_lengths cache len ss = Some (take 10 (cache @ map length ts), len + length (concat ts))"
  using assms
proof (induction arbitrary: cache len rule: list_all2_induct)
  case Nil
  then show ?case by simp
next
  case (Cons s ss t ts)
  show ?case
  proof (cases "length cache < 10")
    case True
    have "strcat_lengths (cache @ [length t]) (len + length t) ss =
        Some (take 10 ((cache @ [length t]) @ map length ts), len + length t + length (concat ts))"
      using Cons.prems True by (intro Cons.IH) simp_all
    with True Cons.hyps(1) Cons.prems(2) show ?thesis by (simp del: take_append add: size_simps)
  next
    case False
    with Cons show ?thesis by (simp add: size_simps)
  qed
qed

lemma strcat_copy_ok:
  assumes "list_all2 (\<lambda>s t. c_str s = Some t) ss ts"
    and "pheap p a = Some x" and "off + length (concat ts) \<le> psize x" and "psize x \<le> length (pdata x)"
    and "cache = take 10 (map length (us @ ts))" and "i = min 10 (length us)"
  shows "\<exists>q d. strcat_copy p a off cache i ss = Some (off + length (concat ts), q) \<and>
           pheap q = (pheap p)(a \<mapsto> x\<lparr>pdata := d\<rparr>) \<and> length d = length (pdata x) \<and>
           take (off + length (concat ts)) d = take off (pdata x) @ concat ts"
  using assms
proof (induction arbitrary: p x off us i rule: list_all2_induct)
  case Nil
  then show ?case by (auto simp: fun_upd_idem intro!: exI [of _ "pdata x"])
next
  case (Cons s ss t ts)
  have len: "(if i < 10 then mem_rd cache i else map_option length (c_str s)) = Some (length t)"
  proof (cases "length us < 10")
    case True
    with Cons.prems(4,5) show ?thesis by (simp add: mem_rd_def nth_append)
  next
    case False
    with Cons.prems(5) Cons.hyps(1) show ?thesis by simp
  qed
  define y where "y = x\<lparr>pdata := take off (pdata x) @ t @ drop (off + length t) (pdata x)\<rparr>"
  have st: "pool_store p a off t = Some (put_prefix a y p)"
    unfolding y_def using Cons.prems by (intro pool_store_ok) simp_all
  have lens: "length (pdata y) = length (pdata x)" using Cons.prems(2,3) by (simp add: y_def)
  have "\<exists>q d. strcat_copy (put_prefix a y p) a (off + length t) cache (if i < 10 then i + 1 else i) ss =
        Some (off + length t + length (concat ts), q) \<and>
      pheap q = (pheap (put_prefix a y p))(a \<mapsto> y\<lparr>pdata := d\<rparr>) \<and> length d = length (pdata y) \<and>
      take (off + length t + length (concat ts)) d = take (off + length t) (pdata y) @ concat ts"
  proof (rule Cons.IH [where us = "us @ [t]"])
    show "cache = take 10 (map length ((us @ [t]) @ ts))" using Cons.prems(4) by simp
    show "off + length t + length (concat ts) \<le> psize y" using Cons.prems(2) by (simp add: y_def)
    show "psize y \<le> length (pdata y)" using Cons.prems(3) lens by (simp add: y_def)
  qed (use Cons.prems(5) in auto)
  then obtain q d where q: "strcat_copy (put_prefix a y p) a (off + length t) cache (if i < 10 then i + 1 else i) ss =
        Some (off + length t + length (concat ts), q)"
    "pheap q = (pheap p)(a \<mapsto> x\<lparr>pdata := d\<rparr>)" "length d = length (pdata x)"
    "take (off + length t + length (concat ts)) d = take (off + length t) (pdata y) @ concat ts"
    using lens by (auto simp: y_def)
  have "take (off + length t) (pdata y) = take off (pdata x) @ t"
    using Cons.prems(2,3) by (simp add: y_def)
  with q len st c_str_sub(1) [OF Cons.hyps(1)] show ?case
    by (intro exI [of _ q] exI [of _ d]) (simp add: add.assoc)
qed

text \<open>
  \<open>ks_pstrcat\<close> of any number of strings, also of more than the ten whose lengths it caches,
  returns a block that holds their concatenation and the terminating NUL, and leaves every other
  block alone.
\<close>

lemma ks_pstrcat_concat:
  assumes "pool_inv p" and "pheap p a = None" and "list_all2 (\<lambda>s t. c_str s = Some t) ss ts"
    and "length (concat ts) + 99 < SIZE_MOD" and "alloc_c p + 1 < SIZE_MOD"
  shows "\<exists>q. ks_pstrcat (Some a) p ss = Some (a, q) \<and> pool_live q a = Some (concat ts @ [0], 1) \<and>
           (\<forall>b. b \<noteq> a \<longrightarrow> pool_live q b = pool_live p b)"
proof -
  let ?n = "length (concat ts)"
  have lens: "strcat_lengths [] 0 ss = Some (take 10 (map length ts), ?n)"
    using strcat_lengths_ok [OF assms(3), of "[]" 0] assms(4) by simp
  have sz: "size_add ?n 1 = ?n + 1" using assms(4) by (simp add: size_simps)
  from alloc_block [OF assms(1,2), of "?n + 1"] assms(4,5) obtain q x where
    q: "ks_pool_alloc (Some a) p (?n + 1) = Some (a, q)" "pheap q a = Some x" "psize x = ?n + 1"
      "prefs x = 1" "?n + 1 \<le> length (pdata x)" "\<forall>b. b \<noteq> a \<longrightarrow> pheap q b = pheap p b" by auto
  from strcat_copy_ok [OF assms(3) q(2), of 0 "take 10 (map length ts)" "[]" 0] q(3,5) obtain r d where
    r: "strcat_copy q a 0 (take 10 (map length ts)) 0 ss = Some (?n, r)"
      "pheap r = (pheap q)(a \<mapsto> x\<lparr>pdata := d\<rparr>)" "length d = length (pdata x)" "take ?n d = concat ts" by auto
  have st: "pool_store r a ?n [0] =
      Some (put_prefix a (x\<lparr>pdata := take ?n d @ [0] @ drop (?n + 1) d\<rparr>) r)"
    using pool_store_ok [of r a "x\<lparr>pdata := d\<rparr>" ?n "[0]"] r(2,3) q(3,5) by simp
  have "ks_pstrcat (Some a) p ss = Some (a, put_prefix a (x\<lparr>pdata := concat ts @ [0] @ drop (?n + 1) d\<rparr>) r)"
    using lens q(1) r(1) st r(4) sz by (simp add: ks_pstrcat_def)
  then show ?thesis using q(3,4,6) r(2) by (auto simp: pool_live_def)
qed

text \<open>
  the test of \<open>ks_pstrndup\<close> for a missing NUL is inverted. On a string with no NUL in its first
  \<open>len\<close> bytes it never returns a copy: the length becomes the difference of NULL and the string's
  address, and the copy leaves the string. On a string that ends before \<open>len\<close>, the copy of \<open>len\<close> bytes
  reads past its block.
\<close>

lemma ks_pstrndup_faults:
  assumes "pool_inv p" and "0 < sa" "sa + length s < SIZE_MOD"
    and "len \<le> length s \<and> 0 \<notin> set (take len s) \<or> length s < len \<and> 0 \<in> set s"
  shows "ks_pstrndup start p (Some (sa, s)) len = None"
proof (cases "0 \<in> set (take len s)")
  case True
  with assms(4) have "length s < len" by (auto dest: in_set_takeD)
  then have "mem_sub s 0 len = None" by (simp add: mem_sub_def)
  with True show ?thesis by (auto simp: ks_pstrndup_def split: Option.bind_split prod.split)
next
  case False
  with assms(4) have "len \<le> length s" by (auto simp: take_all)
  moreover have "length s < size_sub 0 sa" using assms(2,3) by (simp add: size_sub_def)
  then have "mem_sub s 0 (size_sub 0 sa) = None" by (simp add: mem_sub_def)
  ultimately show ?thesis using False by (auto simp: ks_pstrndup_def split: Option.bind_split prod.split)
qed

end
