(* ===== verification/Ks_Pool_Clear.thy ===== *)
theory Ks_Pool_Clear
  imports Ks_Pool_Props "HOL-Library.Sublist"
begin

text \<open>
  \<open>ks_pool_clear\<close> with clean-up callbacks that release other blocks of the pool: the contract of such a
  callback, what the passes of \<open>perform_pool_cleanup\<close> do under it, and what is left.
\<close>

section \<open>Traces\<close>

text \<open>The addresses freed and the callbacks run by a sequence of events.\<close>

fun freed :: "pool_event \<Rightarrow> nat list" where
  "freed (Free_block a) = [a]"
| "freed e = []"

fun called :: "pool_event \<Rightarrow> (nat \<times> nat \<times> nat \<times> cleanup_action) list" where
  "called (Callback cb a arg act ty) = [(cb, a, arg, act)]"
| "called e = []"

definition frees :: "pool_event list \<Rightarrow> nat list" where
  "frees es = concat (map freed es)"

definition calls :: "pool_event list \<Rightarrow> (nat \<times> nat \<times> nat \<times> cleanup_action) list" where
  "calls es = concat (map called es)"

text \<open>No callback runs on a block that is not live, and only live blocks are freed.\<close>

fun trace_ok :: "nat set \<Rightarrow> pool_event list \<Rightarrow> bool" where
  "trace_ok L [] = True"
| "trace_ok L (e # es) = (set (freed e) \<subseteq> L \<and> (\<forall>(cb, a, arg, act)\<in>set (called e). a \<in> L) \<and> trace_ok (L - set (freed e)) es)"

lemma trace_simps [simp]:
  "frees [] = []" "calls [] = []" "frees (e # es) = freed e @ frees es" "calls (e # es) = called e @ calls es"
  "frees (es @ fs) = frees es @ frees fs" "calls (es @ fs) = calls es @ calls fs"
  by (simp_all add: frees_def calls_def)

lemma trace_ok_append:
  "trace_ok L (es @ fs) \<longleftrightarrow> trace_ok L es \<and> trace_ok (L - set (frees es)) fs"
  by (induction es arbitrary: L) (auto simp: set_diff_eq Diff_eq ac_simps)

lemma trace_ok_frees: "trace_ok L es \<Longrightarrow> set (frees es) \<subseteq> L"
  by (induction es arbitrary: L) auto

lemma frees_map [simp]: "frees (map Free_block ns) = ns" "calls (map Free_block ns) = []"
  by (induction ns) simp_all

section \<open>Callbacks that release newer blocks\<close>

text \<open>
  The state of a pool that is being cleared: \<open>ms\<close> are the blocks left, with the headers \<open>h\<close> they had at the
  beginning. New blocks are put in front of the list, so the blocks before \<open>a\<close> are newer than \<open>a\<close>.
\<close>

definition clearing :: "(nat \<Rightarrow> prefix option) \<Rightarrow> ks_pool \<Rightarrow> nat list \<Rightarrow> bool" where
  "clearing h p ms = (pool_inv p \<and> pool_list p ms \<and> cleaning_up p \<and> pheap p = h |` set ms)"

definition newer :: "nat list \<Rightarrow> nat \<Rightarrow> nat set" where
  "newer ms a = set (takeWhile (\<lambda>b. b \<noteq> a) ms)"

definition without :: "nat list \<Rightarrow> nat list \<Rightarrow> nat list" where
  "without rs ms = filter (\<lambda>b. b \<notin> set rs) ms"

text \<open>
  The contract: while the pool is cleared, the callback of a block releases nothing but the block itself and
  blocks allocated after it, as the callbacks of the library do with the parts of their objects.
\<close>

definition releases_newer :: "callbacks \<Rightarrow> (nat \<Rightarrow> prefix option) \<Rightarrow> nat list \<Rightarrow> bool" where
  "releases_newer run h ns =
     (\<forall>p ms a x cb act. clearing h p ms \<and> subseq ms ns \<and> a \<in> set ms \<and> h a = Some x \<and> cleanup_callback x = Some cb \<longrightarrow>
      (\<exists>p' es. run cb a (cleanup_arg x) act KS_MPCL_GLOBAL_FREE p = Some p' \<and> pevents p' = pevents p @ es \<and>
         trace_ok (set ms) es \<and> calls es = [] \<and> set (frees es) \<subseteq> insert a (newer ms a) \<and>
         clearing h p' (without (frees es) ms)))"

lemma clearing_emit [simp]: "clearing h (p_emit es p) ms = clearing h p ms"
  by (simp add: clearing_def pool_inv_def pool_list_def check_pool_iff)

lemma without_simps [simp]:
  "without [] ms = ms" "set (without rs ms) = set ms - set rs" "without (rs @ qs) ms = without qs (without rs ms)"
  by (auto simp: without_def intro: filter_cong)

lemma without_disjoint: "set rs \<inter> set ms = {} \<Longrightarrow> without rs ms = ms"
  by (auto simp: without_def filter_id_conv)

lemma without_subseq: "subseq ms ns \<Longrightarrow> subseq (without rs ms) ns"
  unfolding without_def using subseq_filter_left subseq_order.trans by blast

lemma newer_split: "a \<notin> set pre \<Longrightarrow> newer (pre @ a # post) a = set pre"
  by (auto simp: newer_def takeWhile_append)

lemma clearing_next:
  assumes "clearing h p (pre @ a # post)"
  shows "pr_next p a = first_of post" "pheap p a = h a" "distinct (pre @ a # post)" "\<exists>x. h a = Some x"
proof -
  have l: "pool_list p (pre @ a # post)" and d3: "pheap p = h |` set (pre @ a # post)"
    using assms unfolding clearing_def by blast+
  have d1: "dlist (pr_next p) (pr_prev p) (pfirst p) (plast p) (pre @ a # post)" and s: "set (pre @ a # post) = dom (pheap p)"
    using l unfolding pool_list_def by blast+
  show "pr_next p a = first_of post" by (rule dlist_next [OF d1])
  show "distinct (pre @ a # post)" using d1 by (simp add: dlist_def)
  show "pheap p a = h a" using d3 by simp
  then show "\<exists>x. h a = Some x" using s by (metis domD in_set_conv_decomp)
qed

text \<open>The callbacks of the blocks of a list, in order.\<close>

definition callees :: "(nat \<Rightarrow> prefix option) \<Rightarrow> nat list \<Rightarrow> cleanup_action \<Rightarrow> (nat \<times> nat \<times> nat \<times> cleanup_action) list" where
  "callees h ns act = concat (map (\<lambda>a. case h a of None \<Rightarrow> [] | Some x \<Rightarrow>
     (case cleanup_callback x of None \<Rightarrow> [] | Some cb \<Rightarrow> [(cb, a, cleanup_arg x, act)])) ns)"

lemma cleanup_pass_ok:
  assumes rel: "releases_newer run h ns"
  shows "clearing h p (pre @ post) \<Longrightarrow> subseq (pre @ post) ns \<Longrightarrow>
    \<exists>p' es. cleanup_pass run act (first_of post) p = Some p' \<and> pevents p' = pevents p @ es \<and>
      trace_ok (set (pre @ post)) es \<and> calls es = callees h post act \<and> clearing h p' (without (frees es) (pre @ post))"
proof (induction post arbitrary: pre p)
  case Nil
  then show ?case by (intro exI [of _ p] exI [of _ "[]"]) (simp add: cleanup_pass.simps callees_def)
next
  case (Cons a post)
  note nx = clearing_next [OF Cons.prems(1)]
  obtain x where x: "h a = Some x" using nx(4) by blast
  define logs where "logs = (if act = KS_MPCL_ANNOUNCE \<and> log_on_close p then [Log_unreleased (psize x)] else [])"
  have l: "frees logs = []" "calls logs = []" "trace_ok L logs" for L by (simp_all add: logs_def)
  define p1 where "p1 = p_emit logs p"
  have p1: "(if act = KS_MPCL_ANNOUNCE \<and> log_on_close p then p_emit [Log_unreleased (psize x)] p else p) = p1"
    by (simp add: p1_def logs_def p_emit_def)
  have c1: "clearing h p1 (pre @ a # post)" using Cons.prems(1) by (simp add: p1_def)
  show ?case
  proof (cases "cleanup_callback x")
    case None
    have "clearing h p1 ((pre @ [a]) @ post)" "subseq ((pre @ [a]) @ post) ns" using c1 Cons.prems(2) by simp_all
    from Cons.IH [OF this] obtain p' es where ih: "cleanup_pass run act (first_of post) p1 = Some p'" "pevents p' = pevents p1 @ es"
      "trace_ok (set (pre @ a # post)) es" "calls es = callees h post act" "clearing h p' (without (frees es) (pre @ a # post))"
      by auto
    have "cleanup_pass run act (first_of (a # post)) p = Some p'"
      using x nx(1,2) None ih(1) by (subst cleanup_pass.simps) (simp add: p1 Let_def)
    then show ?thesis
      using ih l None x by (intro exI [of _ p'] exI [of _ "logs @ es"]) (simp add: p1_def trace_ok_append callees_def)
  next
    case (Some cb)
    define ev where "ev = Callback cb a (cleanup_arg x) act KS_MPCL_GLOBAL_FREE"
    have c2: "clearing h (p_emit [ev] p1) (pre @ a # post)" using c1 by simp
    obtain p3 es where 3: "run cb a (cleanup_arg x) act KS_MPCL_GLOBAL_FREE (p_emit [ev] p1) = Some p3"
      "pevents p3 = pevents p1 @ ev # es" "trace_ok (set (pre @ a # post)) es" "calls es = []"
      "set (frees es) \<subseteq> insert a (set pre)" "clearing h p3 (without (frees es) (pre @ a # post))"
      using rel [unfolded releases_newer_def, rule_format, of "p_emit [ev] p1" "pre @ a # post" a x cb act]
        c2 Cons.prems(2) x Some nx(3) by (auto simp: newer_split)
    have w: "without (frees es) (pre @ a # post) = without (frees es) (pre @ [a]) @ post"
      using 3(5) nx(3) without_disjoint [of "frees es" post] by (auto simp: without_def)
    have c3: "clearing h p3 (without (frees es) (pre @ [a]) @ post)" "subseq (without (frees es) (pre @ [a]) @ post) ns"
      using 3(6) without_subseq [OF Cons.prems(2), of "frees es"] by (simp_all add: w)
    from Cons.IH [OF this] obtain p' fs where ih: "cleanup_pass run act (first_of post) p3 = Some p'"
      "pevents p' = pevents p3 @ fs" "trace_ok (set (without (frees es) (pre @ [a]) @ post)) fs"
      "calls fs = callees h post act" "clearing h p' (without (frees fs) (without (frees es) (pre @ [a]) @ post))"
      by blast
    have "cleanup_pass run act (first_of (a # post)) p = Some p'"
      using x nx(1,2) Some ih(1) 3(1) by (subst cleanup_pass.simps) (simp add: p1 ev_def Let_def)
    moreover have "set (without (frees es) (pre @ [a]) @ post) = set (pre @ a # post) - set (frees es)"
      using arg_cong [OF w, of set] by simp
    ultimately show ?thesis
      using ih 3 l Some x
      by (intro exI [of _ p'] exI [of _ "logs @ ev # es @ fs"])
        (simp add: p1_def trace_ok_append callees_def ev_def w)
  qed
qed

text \<open>
  \<open>next\<close> is read before the callback, so that the callback may release the block itself. One that releases
  the next block, which is older, makes the pass use a block that is not live.
\<close>

lemma cleanup_pass_next_released:
  assumes "pheap p a = Some x" "cleanup_callback x = Some cb" "pr_next p a = Some b" "act \<noteq> KS_MPCL_ANNOUNCE"
    and "run cb a (cleanup_arg x) act KS_MPCL_GLOBAL_FREE
           (p_emit [Callback cb a (cleanup_arg x) act KS_MPCL_GLOBAL_FREE] p) = Some p'" "pheap p' b = None"
  shows "cleanup_pass run act (Some a) p = None"
proof -
  have "cleanup_pass run act (Some b) p' = None" using assms(6) by (simp add: cleanup_pass.simps)
  then show ?thesis using assms(1-5) by (subst cleanup_pass.simps) (simp add: Let_def)
qed

lemma free_blocks_ok:
  "chain (pr_next p) q ms \<Longrightarrow> distinct ms \<Longrightarrow> set ms \<subseteq> dom (pheap p) \<Longrightarrow>
   free_blocks q p = Some (p_emit (map Free_block ms) (p\<lparr>pheap := pheap p |` (- set ms)\<rparr>))"
proof (induction ms arbitrary: q p)
  case Nil
  then show ?case by (simp add: free_blocks.simps p_emit_def)
next
  case (Cons a ms)
  define p1 where "p1 = p_emit [Free_block a] (p\<lparr>pheap := (pheap p)(a := None)\<rparr>)"
  have q: "q = Some a" "chain (pr_next p) (pr_next p a) ms" using Cons.prems(1) by (auto dest: chain_first)
  have "free_blocks q p = free_blocks (pr_next p a) p1"
    using q(1) Cons.prems(3) by (subst free_blocks.simps) (auto simp: p1_def)
  also have "\<dots> = Some (p_emit (map Free_block ms) (p1\<lparr>pheap := pheap p1 |` (- set ms)\<rparr>))"
    by (rule Cons.IH) (use q(2) Cons.prems(2,3) in \<open>auto simp: p1_def\<close>)
  also have "pheap p1 |` (- set ms) = pheap p |` (- set (a # ms))"
    by (rule ext) (auto simp: p1_def restrict_map_def)
  finally show ?case by (simp add: p1_def p_emit_def)
qed

lemma perform_pool_cleanup_ok:
  assumes "releases_newer run (pheap p) ns" "pool_inv p" "pool_list p ns" "\<not> cleaning_up p"
  shows "\<exists>p' e1 e2 e3. perform_pool_cleanup run p = Some p' \<and> pevents p' = pevents p @ e1 @ e2 @ e3 \<and>
    trace_ok (set ns) (e1 @ e2 @ e3) \<and> calls e1 = callees (pheap p) ns KS_MPCL_ANNOUNCE \<and>
    calls e2 = callees (pheap p) (without (frees e1) ns) KS_MPCL_TEARDOWN \<and>
    calls e3 = callees (pheap p) (without (frees (e1 @ e2)) ns) KS_MPCL_DESTROY \<and>
    clearing (pheap p) p' (without (frees (e1 @ e2 @ e3)) ns)"
proof -
  let ?h = "pheap p"
  define p0 where "p0 = p\<lparr>cleaning_up := True\<rparr>"
  have ends: "clearing ?h q ms \<Longrightarrow> pfirst q = first_of ms" for q ms
    unfolding clearing_def pool_list_def using dlist_ends by metis
  have "dom ?h = set ns" using assms(3) by (simp add: pool_list_def)
  then have "?h = ?h |` set ns" by (auto simp: restrict_map_def fun_eq_iff domIff)
  then have c0: "clearing ?h p0 ([] @ ns)"
    using assms(2,3) pool_inv_same [of p p0] by (simp add: clearing_def p0_def pool_list_def pool_inv_def)
  note pass = cleanup_pass_ok [OF assms(1), where pre = "[]", simplified]
  obtain p1 e1 where 1: "cleanup_pass run KS_MPCL_ANNOUNCE (pfirst p0) p0 = Some p1" "pevents p1 = pevents p @ e1"
    "trace_ok (set ns) e1" "calls e1 = callees ?h ns KS_MPCL_ANNOUNCE" "clearing ?h p1 (without (frees e1) ns)"
    using pass [of p0 ns KS_MPCL_ANNOUNCE] c0 ends [of p0 ns] by (auto simp: p0_def)
  let ?n1 = "without (frees e1) ns"
  have s1: "subseq ?n1 ns" by (simp add: without_subseq)
  obtain p2 e2 where 2: "cleanup_pass run KS_MPCL_TEARDOWN (pfirst p1) p1 = Some p2" "pevents p2 = pevents p1 @ e2"
    "trace_ok (set ?n1) e2" "calls e2 = callees ?h ?n1 KS_MPCL_TEARDOWN" "clearing ?h p2 (without (frees e2) ?n1)"
    using pass [OF 1(5) s1, of KS_MPCL_TEARDOWN] ends [OF 1(5)] by auto
  let ?n2 = "without (frees e2) ?n1"
  have s2: "subseq ?n2 ns" using without_subseq [OF s1] by simp
  obtain p3 e3 where 3: "cleanup_pass run KS_MPCL_DESTROY (pfirst p2) p2 = Some p3" "pevents p3 = pevents p2 @ e3"
    "trace_ok (set ?n2) e3" "calls e3 = callees ?h ?n2 KS_MPCL_DESTROY" "clearing ?h p3 (without (frees e3) ?n2)"
    using pass [OF 2(5) s2, of KS_MPCL_DESTROY] ends [OF 2(5)] by auto
  have "perform_pool_cleanup run p = Some p3"
    using assms(4) 1(1) 2(1) 3(1) by (simp add: perform_pool_cleanup_def p0_def [symmetric] Let_def)
  then show ?thesis
    using 1 2 3 by (intro exI [of _ p3] exI [of _ e1] exI [of _ e2] exI [of _ e3])
      (simp add: trace_ok_append)
qed

section \<open>Properties\<close>

text \<open>
  C36: Clearing a pool whose clean-up callbacks release parts of their objects. When every callback releases
  nothing but its own block and blocks allocated after it, \<open>ks_pool_clear\<close> ends without a fault: it
  announces every block that has a callback, in list order, tears down those that are left and destroys
  those that are left then; no callback runs on a block that was released, and every block of the pool is
  freed exactly once, by a callback or at the end. The flag \<open>cleaning_up\<close> stays set, so the pool runs no
  callback any more, although its clearing is documented as a fresh start.
\<close>

theorem ks_pool_clear_releases:
  assumes "pool_inv p" "pool_list p ns" "\<not> cleaning_up p" "releases_newer run (pheap p) ns"
  shows "\<exists>p' e0 e1 e2 e3 e4. ks_pool_clear run p = Some (KS_STATUS_SUCCESS, p') \<and> pheap p' = (\<lambda>_. None) \<and>
    pfirst p' = None \<and> plast p' = None \<and> cleaning_up p' \<and> pevents p' = pevents p @ e0 @ e1 @ e2 @ e3 @ e4 \<and>
    trace_ok (dom (pheap p)) (e0 @ e1 @ e2 @ e3 @ e4) \<and> set (frees (e0 @ e1 @ e2 @ e3 @ e4)) = dom (pheap p) \<and>
    calls e0 = [] \<and> calls e1 = callees (pheap p) ns KS_MPCL_ANNOUNCE \<and>
    calls e2 = callees (pheap p) (without (frees e1) ns) KS_MPCL_TEARDOWN \<and>
    calls e3 = callees (pheap p) (without (frees (e1 @ e2)) ns) KS_MPCL_DESTROY \<and> calls e4 = []"
proof -
  define e0 where "e0 = (if log_func p \<noteq> None then [Log KS_POOL_FUNC_CLEAR 0 0 None None 0] else [])"
  define q where "q = p_log KS_POOL_FUNC_CLEAR 0 0 None None 0 p"
  have q: "pool_inv q" "pool_list q ns" "\<not> cleaning_up q" "pheap q = pheap p" "pevents q = pevents p @ e0"
    using assms(1-3) by (simp_all add: q_def p_log_def e0_def pool_inv_def pool_list_def check_pool_iff)
  obtain r e1 e2 e3 where r: "perform_pool_cleanup run q = Some r" "pevents r = pevents q @ e1 @ e2 @ e3"
    "trace_ok (set ns) (e1 @ e2 @ e3)" "calls e1 = callees (pheap p) ns KS_MPCL_ANNOUNCE"
    "calls e2 = callees (pheap p) (without (frees e1) ns) KS_MPCL_TEARDOWN"
    "calls e3 = callees (pheap p) (without (frees (e1 @ e2)) ns) KS_MPCL_DESTROY"
    "clearing (pheap p) r (without (frees (e1 @ e2 @ e3)) ns)"
    using perform_pool_cleanup_ok [OF _ q(1-3)] assms(4) unfolding q(4) by blast
  let ?ms = "without (frees (e1 @ e2 @ e3)) ns"
  have l: "dlist (pr_next r) (pr_prev r) (pfirst r) (plast r) ?ms" "set ?ms = dom (pheap r)"
    using r(7) unfolding clearing_def pool_list_def by blast+
  have fb: "free_blocks (pfirst r) r = Some (p_emit (map Free_block ?ms) (r\<lparr>pheap := pheap r |` (- set ?ms)\<rparr>))"
    by (rule free_blocks_ok) (use l in \<open>auto simp: dlist_def\<close>)
  have h: "pheap r |` (- set ?ms) = (\<lambda>_. None)"
    unfolding l(2) by (rule ext) (auto simp: restrict_map_def)
  have sub: "set (frees (e1 @ e2 @ e3)) \<subseteq> set ns" by (rule trace_ok_frees [OF r(3)])
  have dm: "set ns = dom (pheap p)" using assms(2) by (simp add: pool_list_def)
  have t0: "trace_ok L e0" "frees e0 = []" "calls e0 = []" for L by (simp_all add: e0_def)
  have t4: "distinct ms \<Longrightarrow> set ms \<subseteq> L \<Longrightarrow> trace_ok L (map Free_block ms)" for ms L
    by (induction ms arbitrary: L) (auto simp: subset_Diff_insert)
  have "distinct ?ms" using l(1) by (simp add: dlist_def)
  then have tr: "trace_ok (set ns) (e0 @ e1 @ e2 @ e3 @ map Free_block ?ms)"
    using r(3) t0 t4 [of ?ms "set ?ms"] by (simp add: trace_ok_append set_diff_eq)
  define p' where "p' = (p_emit (map Free_block ?ms) (r\<lparr>pheap := \<lambda>_. None\<rparr>))\<lparr>pfirst := None, plast := None\<rparr>"
  have cp: "\<not> check_pool p \<noteq> KS_STATUS_SUCCESS" using assms(1) by (simp add: pool_inv_def)
  have "ks_pool_clear run p = Some (KS_STATUS_SUCCESS, p')"
    unfolding ks_pool_clear_def Let_def q_def [symmetric] if_not_P [OF cp] r(1) bind.bind_lunit fb h p'_def by (rule refl)
  moreover have "pevents p' = pevents p @ e0 @ e1 @ e2 @ e3 @ map Free_block ?ms" "pheap p' = (\<lambda>_. None)"
    "pfirst p' = None" "plast p' = None" "cleaning_up p'"
    using r(2,7) q(5) by (simp_all add: p'_def clearing_def)
  moreover have "set (frees (e0 @ e1 @ e2 @ e3 @ map Free_block ?ms)) = dom (pheap p)"
    using sub dm t0(2) by auto
  moreover have "calls (map Free_block ?ms) = []" by simp
  ultimately show ?thesis using tr t0(3) r(4-6) unfolding dm by blast
qed

text \<open>
  An object in block 100 with a part in block 500, allocated later; the callback of the object releases the
  part when it is torn down, as \<open>ks_cond_cleanup\<close> does with the mutex.
\<close>

lemma free_mem_list:
  assumes "pool_list p (xs @ a # ys)" "pheap p a = Some x" "block_ok x" "prefs x = 1" "free_mem p a = Some (st, p')"
  shows "pool_list p' (xs @ ys)"
proof -
  define q where "q = perform_pool_cleanup_on_free a (x\<lparr>prefs := 0\<rparr>)
      (p_log KS_POOL_FUNC_DECREF (psize x) 0 (Some a) None 0 (put_prefix a (x\<lparr>prefs := 0\<rparr>) p))"
  have g: "get_prefix p a = Some x" "check_fence (x\<lparr>prefs := 0\<rparr>) = Some KS_STATUS_SUCCESS"
    using assms(2,3) check_fence_ok [OF assms(3)] by (simp_all add: get_prefix_def block_ok_def check_fence_def)
  have p': "p' = p_emit [Free_block a] ((unlink_prefix a q)\<lparr>alloc_c := size_sub (alloc_c (unlink_prefix a q)) 1,
      user_alloc := size_sub (user_alloc (unlink_prefix a q)) (psize x), pheap := (pheap (unlink_prefix a q))(a := None)\<rparr>)"
    using assms(4,5) g by (simp add: free_mem_def Let_def q_def)
  have d: "dlist (pr_next q) (pr_prev q) (pfirst q) (plast q) (xs @ a # ys)" and s: "set (xs @ a # ys) = dom (pheap p)"
    using assms(1) by (simp_all add: pool_list_def q_def)
  have "distinct (xs @ a # ys)" using d by (simp add: dlist_def)
  then have "set (xs @ ys) = dom ((pheap p)(a := None))" unfolding dom_fun_upd s [symmetric] by auto
  moreover have "(pheap q)(a := None) = (pheap p)(a := None)" by (simp add: q_def)
  ultimately show ?thesis using unlink_ok [OF d] by (simp add: pool_list_def p')
qed

definition demo_object :: ks_pool where
  "demo_object = snd (the (ks_pool_set_cleanup
     (snd (the (ks_pool_alloc (Some 500) (snd (the (ks_pool_alloc (Some 100) (ks_pool_raw_open 0) 8))) 4))) 100 500 1))"

definition demo_cleanup :: callbacks where
  "demo_cleanup cb a arg act ty p =
     (if act = KS_MPCL_TEARDOWN \<and> pheap p arg \<noteq> None then map_option snd (free_mem p arg) else Some p)"

definition demo_block :: "nat \<Rightarrow> prefix" where
  "demo_block n = pool_block n (replicate n 0 @ [KS_POOL_FENCE_MAGIC0, KS_POOL_FENCE_MAGIC1])"

lemma demo_block_ok: "CHECK_PREFIX (demo_block n)" "0 < n \<Longrightarrow> n + 98 < SIZE_MOD \<Longrightarrow> block_ok (demo_block n)"
  using block_ok_intro [of n "replicate n 0"] by (simp_all add: demo_block_def pool_block_def CHECK_PREFIX_def)

lemma demo_object_eq:
  "demo_object = (ks_pool_raw_open 0)\<lparr>alloc_c := 2, user_alloc := 12, max_alloc := 12, pfirst := Some 500, plast := Some 100,
     pheap := (\<lambda>_. None)(100 := Some ((demo_block 8)\<lparr>cleanup_arg := 500, cleanup_callback := Some 1\<rparr>), 500 := Some (demo_block 4)),
     pr_next := (\<lambda>_. None)(500 := Some 100), pr_prev := (\<lambda>_. None)(100 := Some 500)\<rparr>"
proof -
  have f: "write_fence (replicate 10 0) 8 = Some (replicate 8 0 @ [KS_POOL_FENCE_MAGIC0, KS_POOL_FENCE_MAGIC1])"
    "write_fence (replicate 6 0) 4 = Some (replicate 4 0 @ [KS_POOL_FENCE_MAGIC0, KS_POOL_FENCE_MAGIC1])"
    using write_fence_ok [of "replicate 10 0" 8] write_fence_ok [of "replicate 6 0" 4] by simp_all
  have q: "size_add (size_add KS_POOL_PREFIX_SIZE 8) KS_POOL_FENCE_SIZE = 106"
    "size_add (size_add KS_POOL_PREFIX_SIZE 4) KS_POOL_FENCE_SIZE = 102"
    by (simp_all add: size_add_def SIZE_MOD_def KS_POOL_PREFIX_SIZE_def KS_POOL_FENCE_SIZE_def)
  define p0 where "p0 = ks_pool_raw_open 0"
  define p1 where "p1 = p0\<lparr>alloc_c := 1, user_alloc := 8, max_alloc := 8, pfirst := Some 100, plast := Some 100,
     pheap := (\<lambda>_. None)(100 := Some (demo_block 8))\<rparr>"
  define p2 where "p2 = p0\<lparr>alloc_c := 2, user_alloc := 12, max_alloc := 12, pfirst := Some 500, plast := Some 100,
     pheap := (\<lambda>_. None)(100 := Some (demo_block 8), 500 := Some (demo_block 4)),
     pr_next := (\<lambda>_. None)(500 := Some 100), pr_prev := (\<lambda>_. None)(100 := Some 500)\<rparr>"
  note ev = KS_POOL_PREFIX_SIZE_def put_prefix_def p_log_def ks_pool_raw_open_def size_add_def SIZE_MOD_def demo_block_def
  have a1: "alloc_mem (Some 100) p0 8 = Some (100, p1)"
    unfolding alloc_mem_def q option.case(2) Let_def by (simp add: f ev p0_def p1_def)
  have a2: "alloc_mem (Some 500) p1 4 = Some (500, p2)"
    unfolding alloc_mem_def q option.case(2) Let_def by (simp add: f ev p0_def p1_def p2_def fun_upd_twist)
  have c: "check_pool p0 = KS_STATUS_SUCCESS" "check_pool p1 = KS_STATUS_SUCCESS"
    by (simp_all add: check_pool_iff p0_def p1_def ks_pool_raw_open_def)
  have l: "p_log f s r d n z p1 = p1" "p_log f s r d n z p2 = p2" for f s r d n z
    by (simp_all add: p_log_def p1_def p2_def p0_def ks_pool_raw_open_def)
  have g: "get_prefix p1 100 = Some (demo_block 8)" "get_prefix p2 500 = Some (demo_block 4)" "get_prefix p2 100 = Some (demo_block 8)"
    by (simp_all add: get_prefix_def demo_block_ok p1_def p2_def)
  have k1: "ks_pool_alloc (Some 100) p0 8 = Some (100, p1)" by (simp add: ks_pool_alloc_def ks_pool_alloc_ex_def c a1 l g)
  have k2: "ks_pool_alloc (Some 500) p1 4 = Some (500, p2)" by (simp add: ks_pool_alloc_def ks_pool_alloc_ex_def c a2 l g)
  have k3: "snd (the (ks_pool_set_cleanup p2 100 500 1)) =
      put_prefix 100 ((demo_block 8)\<lparr>cleanup_arg := 500, cleanup_callback := Some 1\<rparr>) p2"
    by (simp add: ks_pool_set_cleanup_def g)
  show ?thesis
    unfolding demo_object_def p0_def [symmetric] k1 option.sel prod.sel k2 k3
    by (simp add: put_prefix_def p2_def fun_upd_twist)
qed

lemma demo_object_ok:
  "pool_inv demo_object" "pool_list demo_object [500, 100]" "\<not> cleaning_up demo_object"
  "pheap demo_object = (\<lambda>_. None)(100 := Some ((demo_block 8)\<lparr>cleanup_arg := 500, cleanup_callback := Some 1\<rparr>), 500 := Some (demo_block 4))"
proof -
  show h: "pheap demo_object = (\<lambda>_. None)(100 := Some ((demo_block 8)\<lparr>cleanup_arg := 500, cleanup_callback := Some 1\<rparr>), 500 := Some (demo_block 4))"
    by (simp add: demo_object_eq)
  show c: "\<not> cleaning_up demo_object" by (simp add: demo_object_eq ks_pool_raw_open_def)
  show l: "pool_list demo_object [500, 100]"
    by (auto simp: pool_list_def dlist_def demo_object_eq)
  have b: "block_ok (demo_block 4)" "block_ok ((demo_block 8)\<lparr>cleanup_arg := 500, cleanup_callback := Some 1\<rparr>)"
    using demo_block_ok(2) [of 4] demo_block_ok(2) [of 8] by (simp_all add: SIZE_MOD_def block_ok_def CHECK_PREFIX_def)
  show "pool_inv demo_object"
    unfolding pool_inv_def
  proof (intro conjI exI)
    show "check_pool demo_object = KS_STATUS_SUCCESS" by (simp add: check_pool_iff demo_object_eq ks_pool_raw_open_def)
    show "\<forall>a x. pheap demo_object a = Some x \<longrightarrow> block_ok x" using b unfolding h by simp
    show "pool_list demo_object [500, 100]" by (rule l)
  qed (simp_all add: demo_object_eq SIZE_MOD_def)
qed

lemma demo_cleanup_ok: "releases_newer demo_cleanup (pheap demo_object) [500, 100]"
  unfolding releases_newer_def
proof (intro allI impI, elim conjE)
  fix p ms a x cb act
  assume c: "clearing (pheap demo_object) p ms" and s: "subseq ms [500, 100]" and a: "a \<in> set ms"
    and x: "pheap demo_object a = Some x" "cleanup_callback x = Some cb"
  have ax: "a = 100" "cleanup_arg x = 500"
    using x unfolding demo_object_ok(4) by (auto simp: demo_block_def pool_block_def split: if_splits)
  have inv: "pool_inv p" "pool_list p ms" "cleaning_up p" "pheap p = pheap demo_object |` set ms"
    using c unfolding clearing_def by blast+
  show "\<exists>p' es. demo_cleanup cb a (cleanup_arg x) act KS_MPCL_GLOBAL_FREE p = Some p' \<and> pevents p' = pevents p @ es \<and>
         trace_ok (set ms) es \<and> calls es = [] \<and> set (frees es) \<subseteq> insert a (newer ms a) \<and>
         clearing (pheap demo_object) p' (without (frees es) ms)"
  proof (cases "act = KS_MPCL_TEARDOWN \<and> pheap p 500 \<noteq> None")
    case False
    then have "demo_cleanup cb a (cleanup_arg x) act KS_MPCL_GLOBAL_FREE p = Some p"
      unfolding demo_cleanup_def ax by (rule if_not_P)
    then show ?thesis using c by (intro exI [of _ p] exI [of _ "[]"]) simp
  next
    case True
    then have "500 \<in> set ms" using inv(4) by (auto simp: restrict_map_def split: if_splits)
    moreover have "ms \<in> set (subseqs [500, 100])" unfolding in_set_subseqs by (rule s)
    ultimately have ms: "ms = [500, 100]" using a ax(1) by (auto simp: Let_def)
    have b: "pheap p 500 = Some (demo_block 4)" "prefs (demo_block 4) = 1" "cleanup_callback (demo_block 4) = None"
      using inv(4) unfolding ms demo_object_ok(4) by (simp_all add: demo_block_def pool_block_def)
    obtain p' es where f: "free_mem p 500 = Some (KS_STATUS_SUCCESS, p')" "pool_inv p'" "pheap p' = (pheap p)(500 := None)"
      "cleaning_up p'" "pevents p' = pevents p @ es @ [Free_block 500]" "frees es = []" "calls es = []" "\<And>L. trace_ok L es"
      using free_last_ok [OF inv(1) b(1,2)] inv(3) by auto
    have "pool_list p' ([] @ [100])"
      by (rule free_mem_list [where xs = "[]", OF _ b(1) pool_inv_block [OF inv(1) b(1)] b(2) f(1)]) (use inv(2) ms in simp)
    moreover have "pheap p' = pheap demo_object |` {100}"
      using f(3) inv(4) ms by (auto simp: restrict_map_def)
    ultimately have "clearing (pheap demo_object) p' (without [500] ms)"
      using f(2,4) ms by (simp add: clearing_def without_def)
    moreover have "demo_cleanup cb a (cleanup_arg x) act KS_MPCL_GLOBAL_FREE p = Some p'"
      using True ax f(1) by (simp add: demo_cleanup_def)
    ultimately show ?thesis
      using f ms ax by (intro exI [of _ p'] exI [of _ "es @ [Free_block 500]"]) (simp add: trace_ok_append newer_def)
  qed
qed

theorem ks_pool_clear_releases_witness:
  "\<exists>p' es. ks_pool_clear demo_cleanup demo_object = Some (KS_STATUS_SUCCESS, p') \<and> pheap p' = (\<lambda>_. None) \<and>
     pevents p' = pevents demo_object @ es \<and> set (frees es) = {100, 500} \<and> trace_ok {100, 500} es \<and>
     (1, 100, 500, KS_MPCL_ANNOUNCE) \<in> set (calls es)"
proof -
  have d: "dom (pheap demo_object) = {100, 500}" unfolding demo_object_ok(4) by auto
  have "callees (pheap demo_object) [500, 100] KS_MPCL_ANNOUNCE = [(1, 100, 500, KS_MPCL_ANNOUNCE)]"
    unfolding demo_object_ok(4) by (simp add: callees_def demo_block_def pool_block_def)
  then show ?thesis
    using ks_pool_clear_releases [OF demo_object_ok(1-3) demo_cleanup_ok] unfolding d by fastforce
qed

end
