(* ===== verification/Ks_Base64.thy ===== *)
theory Ks_Base64
  imports Ks_Ctype "HOL-Library.Signed_Division"
begin

text \<open>
  \<open>ks_base64.c\<close>: encoding into and decoding from base64, with output buffers of bounded length.

  \<open>out\<close> is the caller's block, which may be longer or shorter than the length \<open>olen\<close> that is passed
  beside it; a write outside the block is a fault (\<^const>\<open>None\<close>). The accumulators \<open>b\<close> are 32-bit
  words: the encoder's is unsigned, the decoder's is a signed \<open>int\<close> whose left shift wraps as in
  two's complement. The counter \<open>y\<close> of the encoder drives only a line break that is commented out,
  so it is left out.
\<close>

section \<open>The encoder\<close>

definition ks_b64_table :: mem where
  "ks_b64_table =
     map of_char ''ABCDEFGHIJKLMNOPQRSTUVWXYZabcdefghijklmnopqrstuvwxyz0123456789+/'' @ [0]"

text \<open>\<open>(int)olen - 1\<close>: the conversion keeps the low 32 bits, the subtraction must not overflow.\<close>

definition enc_limit :: "nat \<Rightarrow> int option" where
  "enc_limit olen =
     (let i = sint (word_of_nat olen :: u32) in if i = - (2 ^ 31) then None else Some (i - 1))"

text \<open>
  The inner loop: writes the complete groups of six bits. The first component of the result tells
  whether the output limit was reached (\<open>goto end\<close>).
\<close>

fun enc_emit :: "int \<Rightarrow> u32 \<Rightarrow> nat \<Rightarrow> nat \<Rightarrow> mem \<Rightarrow> (bool \<times> nat \<times> nat \<times> mem) option" where
  "enc_emit lim b l n out =
     (if 6 \<le> l then
        do { out' \<leftarrow> mem_wr out n (ks_b64_table ! unat (drop_bit (l - 6) b mod 64));
             if lim \<le> int (n + 1) then Some (True, l - 6, n + 1, out')
             else enc_emit lim b (l - 6) (n + 1) out' }
      else Some (False, l, n, out))"

declare enc_emit.simps [simp del]

function enc_loop ::
  "int \<Rightarrow> mem \<Rightarrow> nat \<Rightarrow> nat \<Rightarrow> u32 \<Rightarrow> nat \<Rightarrow> nat \<Rightarrow> mem \<Rightarrow> (bool \<times> u32 \<times> nat \<times> nat \<times> mem) option" where
  "enc_loop lim inp ilen x b l n out =
     (if x < ilen then
        do { c \<leftarrow> mem_rd inp x;
             let b' = push_bit 8 b + ucast c;
             (stop, l', n', out') \<leftarrow> enc_emit lim b' (l + 8) n out;
             if stop then Some (True, b', l', n', out')
             else enc_loop lim inp ilen (x + 1) b' l' n' out' }
      else Some (False, b, l, n, out))"
  by pat_completeness auto
termination by (relation "measure (\<lambda>(_, _, ilen, x, _). ilen - x)") auto

declare enc_loop.simps [simp del]

text \<open>The padding loop writes \<open>=\<close> until the group is full or the limit is reached.\<close>

function enc_pad :: "int \<Rightarrow> nat \<Rightarrow> nat \<Rightarrow> mem \<Rightarrow> (nat \<times> mem) option" where
  "enc_pad lim l n out =
     (if l < 6 \<and> int n < lim then do { out' \<leftarrow> mem_wr out n 61; enc_pad lim (l + 2) (n + 1) out' }
      else Some (n, out))"
  by pat_completeness auto
termination by (relation "measure (\<lambda>(_, l, _). 6 - l)") auto

declare enc_pad.simps [simp del]

definition enc_finish :: "int \<Rightarrow> u32 \<Rightarrow> nat \<Rightarrow> nat \<Rightarrow> mem \<Rightarrow> (nat \<times> mem) option" where
  "enc_finish lim b l n out =
     (if 0 < l then
        do { out' \<leftarrow> mem_wr out n (ks_b64_table ! unat (push_bit (6 - l) (b mod 16) mod 64));
             enc_pad lim l (n + 1) out' }
      else Some (n, out))"

definition ks_b64_encode :: "mem \<Rightarrow> nat \<Rightarrow> mem \<Rightarrow> nat \<Rightarrow> mem option" where
  "ks_b64_encode inp ilen out olen =
     do { lim \<leftarrow> enc_limit olen;
          (stop, b, l, n, out1) \<leftarrow> enc_loop lim inp ilen 0 0 0 0 out;
          (n', out2) \<leftarrow> (if stop then Some (n, out1) else enc_finish lim b l n out1);
          mem_wr out2 n' 0 }"

section \<open>The decoder\<close>

text \<open>The reverse table, filled as the code fills it; unused entries are -1.\<close>

definition l64 :: "int list" where
  "l64 = fold (\<lambda>i t. t[unat (ks_b64_table ! i) := int i]) [0 ..< 64] (replicate 256 (-1))"

text \<open>\<open>l64[(int) *ip]\<close>: \<open>char\<close> is signed, so a byte from 128 on is a negative index, outside the table.\<close>

definition l64_at :: "byte \<Rightarrow> int option" where
  "l64_at ch = (if sint ch < 0 then None else mem_rd l64 (nat (sint ch)))"

text \<open>\<open>(char) ((b >> l) % 256)\<close> with the arithmetic shift and the truncating remainder of \<open>int\<close>.\<close>

definition dec_byte :: "u32 \<Rightarrow> nat \<Rightarrow> byte" where
  "dec_byte b l = word_of_int (sint (signed_drop_bit l b) smod 256)"

fun dec_emit :: "nat \<Rightarrow> u32 \<Rightarrow> nat \<Rightarrow> nat \<Rightarrow> mem \<Rightarrow> (bool \<times> nat \<times> nat \<times> mem) option" where
  "dec_emit lim b l n out =
     (if 8 \<le> l then
        do { out' \<leftarrow> mem_wr out n (dec_byte b (l - 8));
             if lim \<le> n + 1 then Some (True, l - 8, n + 1, out')
             else dec_emit lim b (l - 8) (n + 1) out' }
      else Some (False, l, n, out))"

declare dec_emit.simps [simp del]

function dec_loop :: "nat \<Rightarrow> mem \<Rightarrow> nat \<Rightarrow> u32 \<Rightarrow> nat \<Rightarrow> nat \<Rightarrow> mem \<Rightarrow> (nat \<times> mem) option" where
  "dec_loop lim inp p b l n out =
     (if length inp \<le> p then None
      else if inp ! p = 0 then Some (n, out)
      else do { c \<leftarrow> l64_at (inp ! p);
                if c = -1 then dec_loop lim inp (p + 1) b l n out
                else do { let b' = push_bit 6 b + word_of_int c;
                          (stop, l', n', out') \<leftarrow> dec_emit lim b' (l + 6) n out;
                          if stop then Some (n', out')
                          else dec_loop lim inp (p + 1) b' l' n' out' } })"
  by pat_completeness auto
termination by (relation "measure (\<lambda>(_, inp, p, _). length inp - p)") auto

declare dec_loop.simps [simp del]

text \<open>
  The result is the value returned (the number of bytes written, with the NUL) and the block;
  \<open>inp\<close> is \<^const>\<open>None\<close> for a NULL pointer.
\<close>

definition ks_b64_decode :: "mem option \<Rightarrow> mem \<Rightarrow> nat \<Rightarrow> (nat \<times> mem) option" where
  "ks_b64_decode inp out olen =
     do { (n, out1) \<leftarrow> (case inp of None \<Rightarrow> Some (0, out)
                         | Some s \<Rightarrow> dec_loop (size_sub olen 2) s 0 0 0 0 out);
          out2 \<leftarrow> mem_wr out1 n 0;
          Some (n + 1, out2) }"

end
