(* ===== verification/Ks_Base64_Props.thy ===== *)
theory Ks_Base64_Props
  imports Ks_Base64
begin

text \<open>
  Correctness of \<open>ks_base64.c\<close>. The loops of the encoder and of the decoder are first described by
  the stream of bytes they would produce without a limit (\<open>enc_stream\<close>, \<open>dec_stream\<close>) and a cut of
  that stream at the limit; the streams are then related to RFC 4648 (\<open>b64_spec\<close>) by arithmetic on
  the accumulators.
\<close>

section \<open>The alphabet\<close>

definition b64_digit :: "nat \<Rightarrow> byte" where
  "b64_digit k =
     word_of_nat (if k < 26 then 65 + k else if k < 52 then 71 + k else if k < 62 then k - 4
                  else if k = 62 then 43 else 47)"

lemma ks_b64_table_upt:
  "ks_b64_table = map word_of_nat ([65 ..< 91] @ [97 ..< 123] @ [48 ..< 58] @ [43, 47, 0])"
  by (simp add: ks_b64_table_def upt_rec)

lemma ks_b64_table_nth: "k < 64 \<Longrightarrow> ks_b64_table ! k = b64_digit k"
  by (auto simp: ks_b64_table_upt b64_digit_def nth_append less_Suc_eq_le le_less_Suc_eq nth_Cons'
      simp del: upt_rec_numeral)

lemma unat_b64_digit:
  "k < 64 \<Longrightarrow> unat (b64_digit k) =
     (if k < 26 then 65 + k else if k < 52 then 71 + k else if k < 62 then k - 4
      else if k = 62 then 43 else 47)"
  unfolding b64_digit_def unat_of_nat by (simp add: take_bit_nat_eq_self)

lemma unat_b64_digit_inj: "i < 64 \<Longrightarrow> j < 64 \<Longrightarrow> unat (b64_digit i) = unat (b64_digit j) \<Longrightarrow> i = j"
  by (auto simp: unat_b64_digit split: if_splits)

lemma length_l64 [simp]: "length l64 = 256"
  by (simp add: l64_def del: upt_rec_numeral)

lemma l64_fold: "l64 = fold (\<lambda>i t. t[unat (b64_digit i) := int i]) [0 ..< 64] (replicate 256 (-1))"
  unfolding l64_def by (rule List.fold_cong) (auto simp: ks_b64_table_nth)

lemma l64_digit: "k < 64 \<Longrightarrow> l64 ! unat (b64_digit k) = int k"
  unfolding l64_fold
proof (rule fold_update_nth [where f = "\<lambda>i. unat (b64_digit i)"])
  show "inj_on (\<lambda>i. unat (b64_digit i)) (set [0 ..< 64])"
    by (rule inj_onI) (simp add: unat_b64_digit_inj del: upt_rec_numeral)
qed (auto simp: unat_b64_digit simp del: upt_rec_numeral)

lemma l64_at_digit: "k < 64 \<Longrightarrow> l64_at (b64_digit k) = Some (int k)"
proof -
  assume k: "k < 64"
  then have "unat (b64_digit k) < 128" by (auto simp: unat_b64_digit)
  with l64_digit [OF k] show ?thesis by (simp add: l64_at_def sint_byte_small mem_rd_def)
qed

lemma l64_at_pad: "l64_at 61 = Some (-1)"
proof -
  have "61 \<notin> (\<lambda>i. unat (b64_digit i)) ` set [0 ..< 64]"
    by (auto simp: unat_b64_digit simp del: upt_rec_numeral split: if_splits)
  then have "l64 ! 61 = -1" unfolding l64_fold by (simp add: fold_update_other del: upt_rec_numeral)
  then show ?thesis by (simp add: l64_at_def mem_rd_def)
qed

section \<open>Groups of six bits\<close>

text \<open>A group taken from an accumulator sees only the last bytes that were shifted in.\<close>

lemma window:
  assumes "y < c * p" and "0 < c"
  shows "(a * (c * p) + y) div c mod (p * q) = a mod q * p + y div (c :: nat)"
proof -
  have "a * (c * p) + y = y + c * (a * p)" by simp
  then have "(a * (c * p) + y) div c = y div c + a * p"
    using assms by (metis add.commute div_mult_self2 less_not_refl)
  moreover have "y div c < p" using assms by (simp add: less_mult_imp_div_less mult.commute)
  ultimately show ?thesis by (simp add: mod_mult2_eq)
qed

lemma high_mod: "m dvd k \<Longrightarrow> (b * k + x) mod m = x mod (m :: nat)"
  by (metis add.commute dvd_mult dvd_imp_mod_0 mod_add_right_eq add_0_right)

lemma unat_ucast_byte: "unat (ucast (x :: byte) :: u32) = unat x"
  by transfer (simp add: take_bit_int_eq_self)

lemma unat_shift_in:
  "unat (push_bit 8 b + ucast (x :: byte) :: u32) = (unat b * 256 + unat x) mod 2 ^ 32"
  by (simp add: unat_word_ariths push_bit_eq_mult unat_ucast_byte mult.commute mod_simps)

lemma mod_div_mod:
  "k + j \<le> 32 \<Longrightarrow> (a mod 2 ^ 32) div 2 ^ k mod 2 ^ j = (a :: nat) div 2 ^ k mod 2 ^ j"
proof -
  assume k: "k + j \<le> 32"
  then have "take_bit j (drop_bit k (take_bit 32 a)) = take_bit j (drop_bit k a)"
    by (simp add: drop_bit_take_bit min_def le_diff_conv2)
  then show ?thesis by (simp add: take_bit_eq_mod drop_bit_eq_div)
qed

lemma unat_group: "unat (drop_bit k (w :: u32) mod 64) = unat w div 2 ^ k mod 64"
  by (simp only: unat_mod_distrib unat_drop_bit_eq drop_bit_eq_div [where 'a = nat]) simp

lemma unat_mod64_less [simp]: "unat (w mod 64 :: u32) < 64"
  by (simp add: unat_mod_distrib)

lemma shift_group:
  "k + 6 \<le> 32 \<Longrightarrow> unat (drop_bit k (push_bit 8 b + ucast (x :: byte) :: u32) mod 64) =
     (unat b * 256 + unat x) div 2 ^ k mod 64"
  using mod_div_mod [of k 6 "unat b * 256 + unat x"] by (simp add: unat_group unat_shift_in)

lemma group_bits:
  fixes x y z :: byte and b :: u32
  defines "b1 \<equiv> push_bit 8 b + ucast x :: u32"
  defines "b2 \<equiv> push_bit 8 b1 + ucast y :: u32"
  defines "b3 \<equiv> push_bit 8 b2 + ucast z :: u32"
  shows "unat (drop_bit 2 b1 mod 64) = unat x div 4"
    and "unat (drop_bit 4 b2 mod 64) = unat x mod 4 * 16 + unat y div 16"
    and "unat (drop_bit 6 b3 mod 64) = unat y mod 16 * 4 + unat z div 64"
    and "unat (b3 mod 64) = unat z mod 64"
proof -
  have mods: "unat b1 mod 4 = unat x mod 4" "unat b2 mod 16 = unat y mod 16"
    by (simp_all add: b1_def b2_def unat_shift_in mod_mod_cancel high_mod)
  show "unat (drop_bit 2 b1 mod 64) = unat x div 4"
    using window [of "unat x" 4 64 "unat b" 1] unat_byte_less [of x]
    by (simp add: b1_def shift_group)
  show "unat (drop_bit 4 b2 mod 64) = unat x mod 4 * 16 + unat y div 16"
    using window [of "unat y" 16 16 "unat b1" 4] unat_byte_less [of y]
    by (simp add: b2_def shift_group mods)
  show "unat (drop_bit 6 b3 mod 64) = unat y mod 16 * 4 + unat z div 64"
    using window [of "unat z" 64 4 "unat b2" 16] unat_byte_less [of z]
    by (simp add: b3_def shift_group mods)
  show "unat (b3 mod 64) = unat z mod 64"
    by (simp add: b3_def unat_mod_distrib unat_shift_in mod_mod_cancel high_mod)
qed

lemma pad_bits:
  fixes w :: u32
  shows "unat (push_bit 4 (w mod 16) mod 64) = unat w mod 4 * 16"
    and "unat (push_bit 2 (w mod 16) mod 64) = unat w mod 16 * 4"
proof -
  have r: "unat w mod 16 < 16" by simp
  show "unat (push_bit 4 (w mod 16) mod 64) = unat w mod 4 * 16"
    using mult_mod_left [of "unat w mod 16" 4 16] r
    by (simp add: push_bit_eq_mult unat_word_ariths mod_mod_cancel mult.commute)
  show "unat (push_bit 2 (w mod 16) mod 64) = unat w mod 16 * 4"
    using r by (simp add: push_bit_eq_mult unat_word_ariths mult.commute)
qed

section \<open>The encoder is RFC 4648, cut at the limit\<close>

text \<open>The reference: groups of three bytes, padded with \<open>=\<close>.\<close>

fun b64_spec :: "mem \<Rightarrow> mem" where
  "b64_spec (x # y # z # r) =
     map b64_digit [unat x div 4, unat x mod 4 * 16 + unat y div 16,
                    unat y mod 16 * 4 + unat z div 64, unat z mod 64] @ b64_spec r"
| "b64_spec [x, y] =
     map b64_digit [unat x div 4, unat x mod 4 * 16 + unat y div 16, unat y mod 16 * 4] @ [61]"
| "b64_spec [x] = map b64_digit [unat x div 4, unat x mod 4 * 16] @ [61, 61]"
| "b64_spec [] = []"

text \<open>The characters the loops produce without a limit, and the accumulator they leave.\<close>

fun enc_chars :: "u32 \<Rightarrow> nat \<Rightarrow> mem" where
  "enc_chars b l =
     (if 6 \<le> l then b64_digit (unat (drop_bit (l - 6) b mod 64)) # enc_chars b (l - 6) else [])"

declare enc_chars.simps [simp del]

fun enc_stream :: "mem \<Rightarrow> u32 \<Rightarrow> nat \<Rightarrow> mem \<times> u32 \<times> nat" where
  "enc_stream [] b l = ([], b, l)"
| "enc_stream (c # cs) b l =
     (let b' = push_bit 8 b + ucast c; (s, r) = enc_stream cs b' ((l + 8) mod 6)
      in (enc_chars b' (l + 8) @ s, r))"

definition enc_tail :: "u32 \<Rightarrow> nat \<Rightarrow> mem" where
  "enc_tail b l =
     (if l = 0 then [] else
      b64_digit (unat (push_bit (6 - l) (b mod 16) mod 64)) # replicate ((6 - l) div 2) 61)"

lemma replicate_2: "replicate 2 x = [x, x]"
  by (simp add: numeral_2_eq_2)

lemma enc_chars_sizes:
  "enc_chars b 8 = [b64_digit (unat (drop_bit 2 b mod 64))]"
  "enc_chars b 10 = [b64_digit (unat (drop_bit 4 b mod 64))]"
  "enc_chars b 12 = [b64_digit (unat (drop_bit 6 b mod 64)), b64_digit (unat (b mod 64))]"
  by (simp_all add: enc_chars.simps)

lemma enc_stream_l: "even l \<Longrightarrow> l < 6 \<Longrightarrow> snd (snd (enc_stream cs b l)) \<in> {0, 2, 4}"
proof (induction cs arbitrary: b l)
  case Nil
  then have "l = 0 \<or> l = 2 \<or> l = 4" by presburger
  then show ?case by auto
next
  case (Cons c cs)
  have "even ((l + 8) mod 6)" using Cons.prems(1) by presburger
  with Cons.IH [of "(l + 8) mod 6" "push_bit 8 b + ucast c"] show ?case
    by (cases "enc_stream cs (push_bit 8 b + ucast c) ((l + 8) mod 6)") (simp add: Let_def)
qed

lemma enc_stream_spec:
  "enc_stream xs b 0 = (s, b', l') \<Longrightarrow> s @ enc_tail b' l' = b64_spec xs"
proof (induction xs arbitrary: b s rule: b64_spec.induct)
  case (1 x y z r)
  obtain t where t: "enc_stream r (push_bit 8 (push_bit 8 (push_bit 8 b + ucast x) + ucast y) + ucast z) 0
      = (t, b', l')"
    and s: "s = map b64_digit [unat x div 4, unat x mod 4 * 16 + unat y div 16,
                    unat y mod 16 * 4 + unat z div 64, unat z mod 64] @ t"
    using "1.prems" by (auto simp: Let_def enc_chars_sizes group_bits split: prod.splits)
  from "1.IH" [OF t] s show ?case by simp
next
  case (2 x y)
  then show ?case
    by (auto simp: Let_def enc_chars_sizes group_bits enc_tail_def pad_bits unat_shift_in high_mod mod_mod_cancel)
next
  case (3 x)
  then show ?case
    by (auto simp: Let_def enc_chars_sizes group_bits(1) enc_tail_def pad_bits unat_shift_in high_mod
        mod_mod_cancel replicate_2)
qed (simp add: enc_tail_def)

section \<open>The loops write the stream, cut at the limit\<close>

lemma enc_emit_stream:
  "n < L \<Longrightarrow> L < length out \<Longrightarrow>
   (if L \<le> n + length (enc_chars b l)
    then \<exists>l'. enc_emit (int L) b l n out = Some (True, l', L, blit n (take (L - n) (enc_chars b l)) out)
    else enc_emit (int L) b l n out
           = Some (False, l mod 6, n + length (enc_chars b l), blit n (enc_chars b l) out))"
proof (induction l arbitrary: n out rule: less_induct)
  case (less l)
  show ?case
  proof (cases "6 \<le> l")
    case False
    with less.prems show ?thesis by (simp add: enc_emit.simps enc_chars.simps)
  next
    case True
    define c where "c = b64_digit (unat (drop_bit (l - 6) b mod 64))"
    define r where "r = enc_chars b (l - 6)"
    have cs: "enc_chars b l = c # r" using True by (simp add: enc_chars.simps [of b l] c_def r_def)
    have e: "enc_emit (int L) b l n out =
        (if L \<le> n + 1 then Some (True, l - 6, n + 1, blit n [c] out)
         else enc_emit (int L) b (l - 6) (n + 1) (blit n [c] out))"
      using True less.prems
      by (simp add: enc_emit.simps [of _ b l] mem_wr_blit ks_b64_table_nth c_def)
    show ?thesis
    proof (cases "L \<le> n + 1")
      case True
      with less.prems have "L = n + 1" by simp
      with e show ?thesis by (simp add: cs)
    next
      case False
      have m: "l mod 6 = (l - 6) mod 6" using True by (simp add: le_mod_geq)
      have t: "take (L - n) (c # r) = c # take (L - Suc n) r" using False by (simp add: take_Cons')
      have len: "length (take (L - Suc n) r) \<le> L - Suc n" by simp
      show ?thesis
      proof (cases "L \<le> Suc n + length r")
        case True
        then show ?thesis using less.IH [of "l - 6" "Suc n" "blit n [c] out"] less.prems False \<open>6 \<le> l\<close> len
          by (auto simp: cs e t r_def [symmetric] blit_Cons)
      next
        case l2: False
        then show ?thesis using less.IH [of "l - 6" "Suc n" "blit n [c] out"] less.prems False \<open>6 \<le> l\<close>
          by (auto simp: cs e m r_def [symmetric] blit_Cons)
      qed
    qed
  qed
qed


lemma enc_loop_stream:
  "n < L \<Longrightarrow> L < length out \<Longrightarrow> ilen \<le> length inp \<Longrightarrow>
   enc_stream (drop x (take ilen inp)) b l = (s, b', l') \<Longrightarrow>
   (if L \<le> n + length s
    then \<exists>b2 l2. enc_loop (int L) inp ilen x b l n out = Some (True, b2, l2, L, blit n (take (L - n) s) out)
    else enc_loop (int L) inp ilen x b l n out = Some (False, b', l', n + length s, blit n s out))"
proof (induction "ilen - x" arbitrary: x b l n out s)
  case 0
  then show ?case by (simp add: enc_loop.simps)
next
  case (Suc k)
  then have x: "x < ilen" "x < length inp" by auto
  define b1 :: u32 where "b1 = push_bit 8 b + ucast (inp ! x)"
  define e where "e = enc_chars b1 (l + 8)"
  obtain t where t: "enc_stream (drop (Suc x) (take ilen inp)) b1 ((l + 8) mod 6) = (t, b', l')"
    and s: "s = e @ t"
    using Suc.prems(4) x by (auto simp: Cons_nth_drop_Suc [symmetric] b1_def e_def Let_def split: prod.splits)
  have unf: "enc_loop (int L) inp ilen x b l n out =
      do { (stop, l2, n2, out2) \<leftarrow> enc_emit (int L) b1 (l + 8) n out;
           if stop then Some (True, b1, l2, n2, out2)
           else enc_loop (int L) inp ilen (Suc x) b1 l2 n2 out2 }"
    using x unfolding b1_def Suc_eq_plus1 by (subst enc_loop.simps) (simp add: mem_rd_def Let_def)
  note emit = enc_emit_stream [OF Suc.prems(1,2), of b1 "l + 8", folded e_def]
  show ?case
  proof (cases "L \<le> n + length e")
    case True
    then show ?thesis using emit by (auto simp: unf s)
  next
    case False
    let ?out = "blit n e out"
    have step: "enc_loop (int L) inp ilen x b l n out =
        enc_loop (int L) inp ilen (Suc x) b1 ((l + 8) mod 6) (n + length e) ?out"
      using emit False by (simp add: unf)
    have IH: "if L \<le> n + length e + length t
      then \<exists>b2 l2. enc_loop (int L) inp ilen (Suc x) b1 ((l + 8) mod 6) (n + length e) ?out
             = Some (True, b2, l2, L, blit (n + length e) (take (L - (n + length e)) t) ?out)
      else enc_loop (int L) inp ilen (Suc x) b1 ((l + 8) mod 6) (n + length e) ?out
             = Some (False, b', l', n + length e + length t, blit (n + length e) t ?out)"
      using Suc.hyps(2) Suc.prems(2,3) t False by (intro Suc.hyps(1)) auto
    have pp: "blit (n + length e) (take (L - (n + length e)) t) ?out = blit n (take (L - n) s) out"
      using False Suc.prems(2) by (subst blit_blit) (auto simp: s)
    show ?thesis
    proof (cases "L \<le> n + length e + length t")
      case True
      then show ?thesis using IH pp by (simp add: step s add.assoc)
    next
      case l2: False
      then have "blit (n + length e) t ?out = blit n s out"
        using Suc.prems(2) by (simp add: blit_blit s)
      with IH l2 show ?thesis by (simp add: step s add.assoc)
    qed
  qed
qed

lemma enc_pad_stream:
  "l \<in> {2, 4, 6} \<Longrightarrow> n \<le> L \<Longrightarrow> L < length out \<Longrightarrow>
   enc_pad (int L) l n out =
     Some (min L (n + (6 - l) div 2), blit n (take (L - n) (replicate ((6 - l) div 2) 61)) out)"
proof (induction "6 - l" arbitrary: l n out rule: less_induct)
  case less
  show ?case
  proof (cases "l < 6 \<and> n < L")
    case False
    with less.prems show ?thesis by (auto simp: enc_pad.simps)
  next
    case True
    have h: "(6 - l) div 2 = Suc ((6 - (l + 2)) div 2)" using less.prems(1) True by auto
    have t: "take (L - n) (replicate ((6 - l) div 2) (61 :: byte)) =
        61 # take (L - Suc n) (replicate ((6 - (l + 2)) div 2) 61)"
      using True unfolding h by (simp add: take_Cons')
    show ?thesis
      using less.hyps [of "l + 2" "Suc n" "blit n [61] out"] less.prems True
      unfolding t by (subst enc_pad.simps) (auto simp: mem_wr_blit blit_Cons h)
  qed
qed

lemma enc_finish_stream:
  assumes "l \<in> {0, 2, 4}" "n < L" "L < length out"
  shows "enc_finish (int L) b l n out =
     Some (min L (n + length (enc_tail b l)), blit n (take (L - n) (enc_tail b l)) out)"
proof (cases "l = 0")
  case False
  define c where "c = b64_digit (unat (push_bit (6 - l) (b mod 16) mod 64))"
  have "take (L - n) (enc_tail b l) = c # take (L - Suc n) (replicate ((6 - l) div 2) 61)"
    using False assms by (simp add: enc_tail_def take_Cons' c_def)
  moreover have "enc_finish (int L) b l n out = enc_pad (int L) l (Suc n) (blit n [c] out)"
    using False assms by (simp add: enc_finish_def mem_wr_blit ks_b64_table_nth c_def)
  moreover have "enc_pad (int L) l (Suc n) (blit n [c] out) =
      Some (min L (Suc n + (6 - l) div 2),
            blit (Suc n) (take (L - Suc n) (replicate ((6 - l) div 2) 61)) (blit n [c] out))"
    using assms False by (intro enc_pad_stream) auto
  moreover have "blit (Suc n) (take (L - Suc n) (replicate ((6 - l) div 2) 61)) (blit n [c] out)
      = blit n (c # take (L - Suc n) (replicate ((6 - l) div 2) 61)) out"
    using assms by (intro blit_Cons) auto
  ultimately show ?thesis using False by (simp add: enc_tail_def)
qed (use assms in \<open>simp add: enc_finish_def enc_tail_def\<close>)

lemma ks_b64_encode_spec:
  assumes len: "ilen \<le> length inp" and o: "2 \<le> olen" "olen < 2 ^ 31" "olen \<le> length out"
  shows "ks_b64_encode inp ilen out olen =
    Some (blit 0 (take (olen - 1) (b64_spec (take ilen inp)) @ [0]) out)"
proof -
  define L where "L = olen - 1"
  have L: "0 < L" "L < length out" "olen = Suc L" using o by (auto simp: L_def)
  have "sint (word_of_nat olen :: u32) = int olen"
    using o by (simp add: signed_of_nat signed_take_bit_int_eq_self_iff)
  then have lim: "enc_limit olen = Some (int L)" by (simp add: enc_limit_def L)
  obtain s b l where str: "enc_stream (take ilen inp) 0 0 = (s, b, l)" by (metis prod_cases3)
  have spec: "b64_spec (take ilen inp) = s @ enc_tail b l" using enc_stream_spec [OF str] by simp
  have l: "l \<in> {0, 2, 4}" using enc_stream_l [of 0 "take ilen inp" 0] str by simp
  note loop = enc_loop_stream [of 0 L out ilen inp 0 0 0 s b l]
  show ?thesis
  proof (cases "L \<le> length s")
    case True
    then have "ks_b64_encode inp ilen out olen = mem_wr (blit 0 (take L s) out) L 0"
      using loop L(1,2) len str by (auto simp: ks_b64_encode_def lim)
    also have "\<dots> = Some (blit 0 (take L s @ [0]) out)"
      using True L blit_blit [of 0 "take L s" "[0]" out] by (simp add: mem_wr_blit min_absorb2)
    finally show ?thesis using True by (simp add: spec L)
  next
    case False
    define t where "t = take (L - length s) (enc_tail b l)"
    have n: "min L (length s + length (enc_tail b l)) = length (s @ t)" using False by (simp add: t_def)
    have "ks_b64_encode inp ilen out olen = mem_wr (blit (length s) t (blit 0 s out)) (length (s @ t)) 0"
      using loop L(1,2) len str False l unfolding n [symmetric] 
      by (simp add: ks_b64_encode_def lim enc_finish_stream t_def)
    also have "blit (length s) t (blit 0 s out) = blit 0 (s @ t) out"
      using False L blit_blit [of 0 s t out] by (simp add: t_def)
    also have "mem_wr \<dots> (length (s @ t)) 0 = Some (blit 0 (s @ t @ [0]) out)"
      using False L blit_blit [of 0 "s @ t" "[0]" out] n by (simp add: mem_wr_blit t_def)
    finally show ?thesis using False by (simp add: spec L t_def)
  qed
qed


section \<open>The decoder\<close>

lemma word_smod_256: "(word_of_int (x smod 256) :: byte) = word_of_int x"
proof -
  have "x smod 256 = x - 256 * (x sdiv 256)" by (metis add_diff_cancel_left' mult_sdiv_smod_eq)
  then have "(word_of_int (x smod 256) :: byte) = word_of_int x - word_of_int 256 * word_of_int (x sdiv 256)"
    by (simp only: of_int_diff of_int_mult)
  moreover have "(256 :: byte) = 0" by code_simp
  ultimately show ?thesis by simp
qed

lemma dec_byte_nat:
  assumes "k + 8 \<le> 32"
  shows "dec_byte b k = word_of_nat (unat b div 2 ^ k)"
proof -
  have "dec_byte b k = scast (signed_drop_bit k b)"
    by (simp add: dec_byte_def word_smod_256)
  also have "\<dots> = ucast (drop_bit k b)"
  proof (rule bit_word_eqI)
    fix n assume "n < LENGTH(8)"
    then show "bit (scast (signed_drop_bit k b) :: byte) n = bit (ucast (drop_bit k b) :: byte) n"
      using assms by (auto simp: bit_simps)
  qed
  also have "\<dots> = word_of_nat (unat (drop_bit k b))" by simp
  also have "\<dots> = word_of_nat (unat b div 2 ^ k)"
    by (simp only: unat_drop_bit_eq drop_bit_eq_div [where 'a = nat])
  finally show ?thesis .
qed

lemma unat_code_in:
  "c < 64 \<Longrightarrow> unat (push_bit 6 b + word_of_nat c :: u32) = (unat b * 64 + c) mod 2 ^ 32"
  by (simp add: unat_word_ariths push_bit_eq_mult unat_of_nat take_bit_eq_mod mult.commute mod_simps)

lemma unat_dec_byte:
  assumes "c < 64" and "k + 8 \<le> 32"
  shows "unat (dec_byte (push_bit 6 b + word_of_nat c) k) = (unat b * 64 + c) div 2 ^ k mod 256"
  using assms mod_div_mod [of k 8 "unat b * 64 + c"]
  by (simp add: dec_byte_nat unat_of_nat unat_code_in take_bit_eq_mod)

lemma dec_byte_bits:
  assumes c: "c < 64"
  shows "unat (dec_byte (push_bit 6 b + word_of_nat c) 4) = unat b mod 64 * 4 + c div 16"
    and "unat (dec_byte (push_bit 6 b + word_of_nat c) 2) = unat b mod 16 * 16 + c div 4"
    and "unat (dec_byte (push_bit 6 b + word_of_nat c) 0) = unat b mod 4 * 64 + c"
  using window [of c 16 4 "unat b" 64] window [of c 4 16 "unat b" 16] window [of c 1 64 "unat b" 4] c
  by (simp_all add: unat_dec_byte)

text \<open>The bytes the decoder produces without a limit.\<close>

fun dec_stream :: "mem \<Rightarrow> u32 \<Rightarrow> nat \<Rightarrow> mem" where
  "dec_stream [] b l = []"
| "dec_stream (ch # s) b l =
     (let c = the (l64_at ch) in
      if c = -1 then dec_stream s b l
      else let b' = push_bit 6 b + word_of_int c in
        if 8 \<le> l + 6 then dec_byte b' (l + 6 - 8) # dec_stream s b' (l + 6 - 8)
        else dec_stream s b' (l + 6))"

lemma dec_stream_digit:
  "k < 64 \<Longrightarrow> dec_stream (b64_digit k # s) b l =
     (let b' = push_bit 6 b + word_of_nat k in
      if 8 \<le> l + 6 then dec_byte b' (l + 6 - 8) # dec_stream s b' (l + 6 - 8)
      else dec_stream s b' (l + 6))"
  by (simp add: l64_at_digit)

lemma dec_stream_pad: "dec_stream (61 # s) b l = dec_stream s b l"
  by (simp add: l64_at_pad)

lemma dec_byte_words:
  assumes "c < 64"
  shows "dec_byte (push_bit 6 b + word_of_nat c) 4 = word_of_nat (unat b mod 64 * 4 + c div 16)"
    and "dec_byte (push_bit 6 b + word_of_nat c) 2 = word_of_nat (unat b mod 16 * 16 + c div 4)"
    and "dec_byte (push_bit 6 b + word_of_nat c) 0 = word_of_nat (unat b mod 4 * 64 + c)"
  unfolding dec_byte_bits [OF assms, symmetric] by simp_all

lemma dec_stream_quad:
  assumes "c1 < 64" "c2 < 64" "c3 < 64" "c4 < 64"
  shows "\<exists>b'. dec_stream (b64_digit c1 # b64_digit c2 # b64_digit c3 # b64_digit c4 # s) b 0 =
    word_of_nat (c1 * 4 + c2 div 16) # word_of_nat (c2 mod 16 * 16 + c3 div 4)
      # word_of_nat (c3 mod 4 * 64 + c4) # dec_stream s b' 0"
  unfolding dec_stream_digit [OF assms(1)] dec_stream_digit [OF assms(2)] dec_stream_digit [OF assms(3)]
     dec_stream_digit [OF assms(4)] Let_def
  using assms by (simp add: dec_byte_words unat_code_in mod_mod_cancel high_mod del: of_nat_add of_nat_mult) blast

lemma dec_stream_rest:
  assumes "c1 < 64" "c2 < 64" "c3 < 64"
  shows "dec_stream [b64_digit c1, b64_digit c2, 61, 61] b 0 = [word_of_nat (c1 * 4 + c2 div 16)]"
    and "dec_stream [b64_digit c1, b64_digit c2, b64_digit c3, 61] b 0 =
      [word_of_nat (c1 * 4 + c2 div 16), word_of_nat (c2 mod 16 * 16 + c3 div 4)]"
  unfolding dec_stream_digit [OF assms(1)] dec_stream_digit [OF assms(2)] dec_stream_digit [OF assms(3)]
     dec_stream_pad Let_def
  using assms by (simp_all add: dec_byte_words unat_code_in mod_mod_cancel high_mod del: of_nat_add of_nat_mult)

lemma regroup:
  assumes "y < 256" "z < (256 :: nat)"
  shows "x div 4 * 4 + (x mod 4 * 16 + y div 16) div 16 = x"
    and "(x mod 4 * 16 + y div 16) mod 16 * 16 + (y mod 16 * 4 + z div 64) div 4 = y"
    and "(y mod 16 * 4 + z div 64) mod 4 * 64 + z mod 64 = z"
  using assms by simp_all

lemma dec_stream_spec: "dec_stream (b64_spec xs) b 0 = xs"
proof (induction xs arbitrary: b rule: b64_spec.induct)
  case (1 x y z r)
  have u: "unat x < 256" "unat y < 256" "unat z < 256" by (rule unat_byte_less)+
  then have c: "unat x div 4 < 64" "unat x mod 4 * 16 + unat y div 16 < 64"
     "unat y mod 16 * 4 + unat z div 64 < 64" "unat z mod 64 < 64" by linarith+
  from dec_stream_quad [OF c, of "b64_spec r" b] show ?case
    unfolding regroup [OF u(2,3)] 1 by (simp del: dec_stream.simps(2) of_nat_add of_nat_mult)
next
  case (2 x y)
  have u: "unat x < 256" "unat y < 256" by (rule unat_byte_less)+
  then have c: "unat x div 4 < 64" "unat x mod 4 * 16 + unat y div 16 < 64" "unat y mod 16 * 4 < 64"
    by linarith+
  from dec_stream_rest(2) [OF c] show ?case
    using regroup(1,2) [of "unat y" 0 "unat x"] u by (simp del: dec_stream.simps(2) of_nat_add of_nat_mult)
next
  case (3 x)
  have u: "unat x < 256" by (rule unat_byte_less)
  then have c: "unat x div 4 < 64" "unat x mod 4 * 16 < 64" by linarith+
  from dec_stream_rest(1) [OF c c(1)] regroup(1) [of 0 0 "unat x"] show ?case
    by (simp del: dec_stream.simps(2) of_nat_add of_nat_mult)
qed simp

lemma dec_emit_one:
  assumes "8 \<le> l" "l < 16" "n < length out"
  shows "dec_emit L b l n out =
    Some (L \<le> Suc n, l - 8, Suc n, blit n [dec_byte b (l - 8)] out)"
proof -
  have "\<not> 8 \<le> l - 8" using assms by simp
  then show ?thesis using assms by (simp add: dec_emit.simps mem_wr_blit)
qed

lemma dec_loop_stream:
  "l < 8 \<Longrightarrow> n < L \<Longrightarrow> min L (n + length (dec_stream s b l)) < length out \<Longrightarrow>
   drop p inp = s @ 0 # junk \<Longrightarrow> 0 \<notin> set s \<Longrightarrow> \<forall>ch\<in>set s. l64_at ch \<noteq> None \<Longrightarrow>
   dec_loop L inp p b l n out =
     Some (min L (n + length (dec_stream s b l)), blit n (take (L - n) (dec_stream s b l)) out)"
proof (induction s arbitrary: p b l n out)
  case Nil
  then have "p < length inp" "inp ! p = 0" by (auto simp: nth_via_drop intro: ccontr)
  with Nil.prems show ?case by (simp add: dec_loop.simps)
next
  case (Cons ch s)
  then have p: "p < length inp" "inp ! p = ch" "ch \<noteq> 0"
    by (auto simp: nth_via_drop intro: ccontr)
  have d: "drop (Suc p) inp = s @ 0 # junk" using Cons.prems(4) by (metis append_Cons drop_Suc list.sel(3) tl_drop)
  obtain c where c: "l64_at ch = Some c" using Cons.prems(6) by auto
  define b' :: u32 where "b' = push_bit 6 b + word_of_int c"
  have unf: "dec_loop L inp p b l n out =
      (if c = -1 then dec_loop L inp (Suc p) b l n out
       else dec_emit L b' (l + 6) n out \<bind> (\<lambda>(stop, l', n', out').
              if stop then Some (n', out') else dec_loop L inp (Suc p) b' l' n' out'))"
    using p c unfolding b'_def Suc_eq_plus1 by (subst dec_loop.simps) (simp add: Let_def)
  show ?case
  proof (cases "c = -1 \<or> l + 6 < 8")
    case True
    then show ?thesis
      using Cons.IH [OF _ Cons.prems(2) _ d] Cons.prems c
      by (auto simp: unf dec_emit.simps b'_def)
  next
    case False
    define x where "x = dec_byte b' (l + 6 - 8)"
    define D where "D = dec_stream s b' (l + 6 - 8)"
    have D: "dec_stream (ch # s) b l = x # D" using False c by (simp add: x_def D_def b'_def Let_def)
    have lt: "min L (Suc n + length D) < length out" "n < length out"
      using Cons.prems(2,3) unfolding D by auto
    have e: "dec_loop L inp p b l n out =
       (if L \<le> Suc n then Some (Suc n, blit n [x] out)
        else dec_loop L inp (Suc p) b' (l + 6 - 8) (Suc n) (blit n [x] out))"
      using False Cons.prems(1) lt(2) by (simp add: unf dec_emit_one x_def)
    show ?thesis
    proof (cases "L \<le> Suc n")
      case True
      with Cons.prems(2) have "L = Suc n" by simp
      then show ?thesis unfolding D e by simp
    next
      case l2: False
      have t: "take (L - n) (x # D) = x # take (L - Suc n) D" using l2 by (simp add: take_Cons')
      have "dec_loop L inp (Suc p) b' (l + 6 - 8) (Suc n) (blit n [x] out) =
         Some (min L (Suc n + length D), blit (Suc n) (take (L - Suc n) D) (blit n [x] out))"
        unfolding D_def using l2 Cons.prems d lt
        by (intro Cons.IH) (auto simp: D_def)
      moreover have "blit (Suc n) (take (L - Suc n) D) (blit n [x] out) = blit n (x # take (L - Suc n) D) out"
        using l2 lt by (intro blit_Cons) auto
      ultimately show ?thesis unfolding D t e using l2 by simp
    qed
  qed
qed

text \<open>
  What \<open>ks_b64_decode\<close> does with any string of characters below 128: it decodes it up to the limit
  \<open>olen - 2\<close>, computed in \<open>size_t\<close>.
\<close>

lemma ks_b64_decode_stream:
  fixes str :: mem
  defines "D \<equiv> dec_stream str 0 0"
  assumes L: "L = size_sub olen 2" "0 < L" "min L (length D) < length out"
    and str: "c_str s = Some str" "\<forall>ch\<in>set str. l64_at ch \<noteq> None"
  shows "ks_b64_decode (Some s) out olen =
    Some (Suc (length (take L D)), blit 0 (take L D @ [0]) out)"
proof -
  obtain junk where s: "s = str @ 0 # junk" "0 \<notin> set str" using c_str_no_nul [OF str(1)] by blast
  have "dec_loop L s 0 0 0 0 out = Some (min L (length D), blit 0 (take L D) out)"
    using dec_loop_stream [of 0 0 L str 0 out 0 s junk] L(2,3) str(2) s by (simp add: D_def)
  moreover have "min L (length D) = length (take L D)" by (simp add: min.commute)
  moreover have "mem_wr (blit 0 (take L D) out) (length (take L D)) 0 = Some (blit 0 (take L D @ [0]) out)"
    using L(3) blit_blit [of 0 "take L D" "[0]" out] by (simp add: mem_wr_blit min.commute)
  ultimately show ?thesis by (simp add: ks_b64_decode_def L(1) [symmetric])
qed

lemma b64_spec_chars: "\<forall>ch\<in>set (b64_spec xs). ch \<noteq> 0 \<and> l64_at ch \<noteq> None"
proof -
  have d: "b64_digit k \<noteq> 0 \<and> l64_at (b64_digit k) \<noteq> None" if "k < 64" for k
    using unat_b64_digit [OF that] that by (auto simp: l64_at_digit split: if_splits)
  show ?thesis
  proof (induction xs rule: b64_spec.induct)
    case (1 x y z r)
    have "unat x < 256" "unat y < 256" "unat z < 256" by (rule unat_byte_less)+
    then have "unat x div 4 < 64" "unat x mod 4 * 16 + unat y div 16 < 64"
     "unat y mod 16 * 4 + unat z div 64 < 64" "unat z mod 64 < 64" by linarith+
    with d 1 show ?case by simp
  next
    case (2 x y)
    have "unat x < 256" "unat y < 256" by (rule unat_byte_less)+
    then have "unat x div 4 < 64" "unat x mod 4 * 16 + unat y div 16 < 64" "unat y mod 16 * 4 < 64"
      by linarith+
    with d show ?case by (simp add: l64_at_pad)
  next
    case (3 x)
    have "unat x < 256" by (rule unat_byte_less)
    then have "unat x div 4 < 64" "unat x mod 4 * 16 < 64" by linarith+
    with d show ?case by (simp add: l64_at_pad)
  qed simp
qed

lemma length_b64_spec: "length (b64_spec xs) = (length xs + 2) div 3 * 4"
proof (induction xs rule: b64_spec.induct)
  case (1 x y z r)
  have "(length r + 5) div 3 = Suc ((length r + 2) div 3)" by presburger
  with 1 show ?case by (simp add: add.commute)
qed auto


section \<open>Properties\<close>

text \<open>
  C25: With a buffer of at least two bytes, \<open>ks_b64_encode\<close> writes the base64 text of RFC 4648 of the
  first \<open>ilen\<close> input bytes, cut to \<open>olen - 1\<close> characters, followed by a NUL, and leaves the bytes of
  the block beyond it as they were; it never writes outside the first \<open>olen\<close> bytes.
\<close>

theorem ks_b64_encode_rfc4648:
  assumes "ilen \<le> length inp" and "2 \<le> olen" "olen < 2 ^ 31" "olen \<le> length out"
  shows "ks_b64_encode inp ilen out olen =
    Some (blit 0 (take (olen - 1) (b64_spec (take ilen inp)) @ [0]) out)"
  using assms by (rule ks_b64_encode_spec)

theorem ks_b64_encode_rfc4648_witness:
  "ks_b64_encode [102, 111, 111, 98] 4 [1, 1, 1, 1, 1, 1, 1, 1, 1, 1, 1, 1] 10 =
     Some (map of_char ''Zm9vYg=='' @ [0, 1, 1, 1])
   \<and> ks_b64_encode [102, 111, 111, 98] 4 [1, 1, 1, 1, 1, 1, 1, 1, 1, 1, 1, 1] 4 =
     Some (map of_char ''Zm9'' @ [0] @ [1, 1, 1, 1, 1, 1, 1, 1])"
  using ks_b64_encode_rfc4648 [of 4 "[102, 111, 111, 98]" 10 "[1, 1, 1, 1, 1, 1, 1, 1, 1, 1, 1, 1]"]
    ks_b64_encode_rfc4648 [of 4 "[102, 111, 111, 98]" 4 "[1, 1, 1, 1, 1, 1, 1, 1, 1, 1, 1, 1]"]
  by (simp add: blit_def b64_digit_def)

text \<open>
  C24: Decoding what \<open>ks_b64_encode\<close> wrote gives back the input bytes: when the text buffer holds the
  whole encoding with its NUL and the result buffer has two bytes more than the input (one more
  than needed), \<open>ks_b64_decode\<close> returns the length of the input plus one and leaves the input,
  followed by a NUL, at the start of the result buffer.
\<close>

theorem ks_b64_round_trip:
  assumes "(length inp + 2) div 3 * 4 + 1 \<le> tlen" "2 \<le> tlen" "tlen < 2 ^ 31" "tlen \<le> length tbuf"
    and "length inp + 2 \<le> olen" "3 \<le> olen" "olen \<le> length out"
  shows "\<exists>t. ks_b64_encode inp (length inp) tbuf tlen = Some t \<and>
    ks_b64_decode (Some t) out olen = Some (length inp + 1, blit 0 (inp @ [0]) out)"
proof -
  let ?e = "b64_spec inp"
  have "take (tlen - 1) ?e = ?e" using assms(1) by (simp add: length_b64_spec)
  then have e: "ks_b64_encode inp (length inp) tbuf tlen = Some (blit 0 (?e @ [0]) tbuf)"
    using ks_b64_encode_spec [of "length inp" inp tlen tbuf] assms by simp
  have "c_str (blit 0 (?e @ [0]) tbuf) = Some ?e"
    using b64_spec_chars [of inp] by (auto simp: blit_def intro: c_str_append)
  moreover have "size_sub olen 2 = olen - 2" using assms by (simp add: size_simps)
  ultimately have "ks_b64_decode (Some (blit 0 (?e @ [0]) tbuf)) out olen =
      Some (Suc (length inp), blit 0 (inp @ [0]) out)"
    using ks_b64_decode_stream [of "olen - 2" olen ?e out] assms(5-7) b64_spec_chars [of inp]
    by (simp add: dec_stream_spec)
  with e show ?thesis by auto
qed

theorem ks_b64_round_trip_witness:
  "\<exists>t. ks_b64_encode [0, 200, 7, 255] 4 [1, 1, 1, 1, 1, 1, 1, 1, 1] 9 = Some t \<and>
     ks_b64_decode (Some t) [1, 1, 1, 1, 1, 1, 1] 6 = Some (5, [0, 200, 7, 255, 0, 1, 1])"
proof -
  have l: "length [0, 200, 7, 255 :: byte] = 4" by simp
  have p: "blit 0 ([0, 200, 7, 255] @ [0]) [1, 1, 1, 1, 1, 1, 1 :: byte] = [0, 200, 7, 255, 0, 1, 1]"
    by (simp add: blit_def)
  show ?thesis
    using ks_b64_round_trip [of "[0, 200, 7, 255]" 9 "[1, 1, 1, 1, 1, 1, 1, 1, 1]" 6
        "[1, 1, 1, 1, 1, 1, 1]", unfolded l p] by simp
qed

text \<open>
  A buffer length below two is not respected. For \<open>olen\<close> 0 or 1 \<open>ks_b64_encode\<close> writes a
  character and a NUL, two bytes; \<open>ks_b64_decode\<close> computes \<open>olen - 2\<close> in \<open>size_t\<close>, which wraps
  around, so it decodes the whole text whatever its length.
\<close>

lemma ks_b64_tiny_buffer:
  assumes olen: "olen \<le> 1" and enc: "0 < ilen" "ilen \<le> length inp" "2 \<le> length out"
    and dec: "length (dec_stream str 0 0) < length out" "length (dec_stream str 0 0) + 2 < SIZE_MOD"
      "c_str s = Some str" "\<forall>ch\<in>set str. l64_at ch \<noteq> None"
  shows "ks_b64_encode inp ilen out olen = Some (blit 0 [b64_digit (unat (inp ! 0) div 4), 0] out)
    \<and> ks_b64_decode (Some s) out olen =
        Some (length (dec_stream str 0 0) + 1, blit 0 (dec_stream str 0 0 @ [0]) out)"
proof (rule conjI)
  have lim: "\<exists>i. enc_limit olen = Some i \<and> i \<le> 1"
    using olen by (cases olen) (auto simp: enc_limit_def)
  have g: "unat (drop_bit 2 (ucast (inp ! 0) :: u32) mod 64) = unat (inp ! 0) div 4"
    using group_bits(1) [of 0 "inp ! 0"] by simp
  have i: "inp \<noteq> []" "out \<noteq> []" using enc by auto
  then have "enc_loop i inp ilen 0 0 0 0 out =
      Some (True, ucast (inp ! 0), 2, 1, blit 0 [b64_digit (unat (inp ! 0) div 4)] out)" if "i \<le> 1" for i
    using enc that by (simp add: enc_loop.simps [of i inp ilen 0] enc_emit.simps [of i _ 8] mem_rd_def
        mem_wr_blit ks_b64_table_nth g)
  then show "ks_b64_encode inp ilen out olen = Some (blit 0 [b64_digit (unat (inp ! 0) div 4), 0] out)"
    using lim enc i blit_Cons [of 0 "[0]" out] by (auto simp: ks_b64_encode_def mem_wr_blit)
  have "size_sub olen 2 = SIZE_MOD + olen - 2" using olen by (simp add: size_sub_def)
  then show "ks_b64_decode (Some s) out olen =
        Some (length (dec_stream str 0 0) + 1, blit 0 (dec_stream str 0 0 @ [0]) out)"
    using ks_b64_decode_stream [of "SIZE_MOD + olen - 2" olen str out s] dec by simp
qed

end
