(* ===== verification/Ks_String.thy ===== *)
theory Ks_String
  imports Ks_Ctype
begin

text \<open>
  \<open>ks_string.c\<close>: the string utilities. A buffer is its block of bytes, NULs included, and a \<open>char *\<close>
  into it is an offset; a read or write outside the block is a fault (\<^const>\<open>None\<close>). Plain \<open>char\<close> is
  signed. The functions that work in place (\<open>ks_separate_string\<close>, \<open>ks_url_decode\<close>) return the
  changed buffer.
\<close>

abbreviation QUOTE :: byte where "QUOTE \<equiv> 39"
abbreviation DQUOTE :: byte where "DQUOTE \<equiv> 34"
abbreviation SPACE :: byte where "SPACE \<equiv> 32"
abbreviation PERCENT :: byte where "PERCENT \<equiv> 37"
abbreviation CARET :: byte where "CARET \<equiv> 94"

definition ESCAPE_META :: byte where
  "ESCAPE_META = 92"

section \<open>Reading strings\<close>

text \<open>The string at an offset of a buffer, up to its NUL.\<close>

definition str_at :: "mem \<Rightarrow> nat \<Rightarrow> mem option" where
  "str_at buf p = (if p \<le> length buf then c_str (drop p buf) else None)"

text \<open>\<open>strchr\<close> as a test on the string at an offset.\<close>

definition has_chr :: "mem \<Rightarrow> nat \<Rightarrow> byte \<Rightarrow> bool option" where
  "has_chr buf p c = map_option (\<lambda>s. c \<in> set s) (str_at buf p)"

text \<open>\<open>strchr\<close>: the offset of the character in the string at \<open>p\<close>, if it has it.\<close>

definition strchr_at :: "mem \<Rightarrow> nat \<Rightarrow> byte \<Rightarrow> nat option option" where
  "strchr_at buf p c =
     map_option (\<lambda>s. if c \<in> set s then Some (p + length (takeWhile (\<lambda>x. x \<noteq> c) s)) else None) (str_at buf p)"

section \<open>\<open>ks_stristr\<close>\<close>

definition up :: "byte \<Rightarrow> int" where
  "up c = ks_toupper (sint c)"

text \<open>The inner \<open>for\<close>: the next position whose character agrees with the first one of the pattern.\<close>

function stristr_find :: "mem \<Rightarrow> byte \<Rightarrow> nat \<Rightarrow> nat option" where
  "stristr_find str c start =
     (if length str \<le> start then None
      else if str ! start \<noteq> 0 \<and> up (str ! start) \<noteq> up c then stristr_find str c (start + 1)
      else Some start)"
  by pat_completeness auto
termination by (relation "measure (\<lambda>(str, _, start). length str - start)") auto

datatype match_end = Found | Exhausted | Mismatch

function stristr_match :: "mem \<Rightarrow> mem \<Rightarrow> nat \<Rightarrow> nat \<Rightarrow> match_end option" where
  "stristr_match instr str p s =
     (if length str \<le> s \<or> length instr \<le> p then None
      else if up (str ! s) = up (instr ! p) then
        do { pc \<leftarrow> mem_rd instr (p + 1);
             if pc = 0 then Some Found
             else do { sc \<leftarrow> mem_rd str (s + 1);
                       if sc = 0 then Some Exhausted
                       else stristr_match instr str (p + 1) (s + 1) } }
      else Some Mismatch)"
  by pat_completeness auto
termination by (relation "measure (\<lambda>(_, str, _, s). length str - s)") auto

declare stristr_find.simps [simp del] stristr_match.simps [simp del]

lemma stristr_find_ge: "stristr_find str c start = Some q \<Longrightarrow> start \<le> q \<and> q < length str"
proof (induction str c start rule: stristr_find.induct)
  case (1 str c start)
  then show ?case by (auto simp: stristr_find.simps [of str c start] split: if_splits)
qed

text \<open>The outer loop; the result is the offset of the match, if there is one.\<close>

function stristr_loop :: "mem \<Rightarrow> mem \<Rightarrow> nat \<Rightarrow> nat option option" where
  "stristr_loop instr str start =
     (if length str \<le> start then None
      else if str ! start = 0 then Some None
      else do { c \<leftarrow> mem_rd instr 0;
                q \<leftarrow> stristr_find str c start;
                if str ! q = 0 then Some None
                else do { m \<leftarrow> stristr_match instr str 0 q;
                          case m of Found \<Rightarrow> Some (Some q) | Exhausted \<Rightarrow> Some None
                          | Mismatch \<Rightarrow> stristr_loop instr str (q + 1) } })"
  by pat_completeness auto
termination
  by (relation "measure (\<lambda>(_, str, start). length str - start)") (auto dest: stristr_find_ge)

declare stristr_loop.simps [simp del]

definition ks_stristr :: "mem option \<Rightarrow> mem option \<Rightarrow> nat option option" where
  "ks_stristr instr str =
     (case (str, instr) of (Some s, Some i) \<Rightarrow> stristr_loop i s 0 | _ \<Rightarrow> Some None)"

section \<open>\<open>ks_copy_string\<close>\<close>

text \<open>
  \<open>from_str\<close> is the destination. The end \<open>e = from_str + from_str_len - 1\<close> is compared as an
  integer, so a length of 0 copies nothing and still stores the NUL.
\<close>

function copy_loop :: "mem \<Rightarrow> mem \<Rightarrow> nat \<Rightarrow> nat \<Rightarrow> (nat \<times> mem) option" where
  "copy_loop dst src p len =
     (if p + 1 < len then
        do { c \<leftarrow> mem_rd src p;
             dst' \<leftarrow> mem_wr dst p c;
             if c = 0 then Some (p, dst') else copy_loop dst' src (p + 1) len }
      else do { dst' \<leftarrow> mem_wr dst p 0; Some (p, dst') })"
  by pat_completeness auto
termination by (relation "measure (\<lambda>(_, _, p, len). len - p)") auto

declare copy_loop.simps [simp del]

definition ks_copy_string :: "mem option \<Rightarrow> mem option \<Rightarrow> nat \<Rightarrow> (nat \<times> mem) option option" where
  "ks_copy_string from_str to_str len =
     (case from_str of None \<Rightarrow> Some None
      | Some dst \<Rightarrow>
          (case to_str of None \<Rightarrow> map_option (\<lambda>d. Some (0, d)) (mem_wr dst 0 0)
           | Some src \<Rightarrow> map_option Some (copy_loop dst src 0 len)))"

section \<open>Separating strings\<close>

definition unescape_char :: "byte \<Rightarrow> byte" where
  "unescape_char escaped =
     (if escaped = 110 then 10 else if escaped = 114 then 13 else if escaped = 116 then 9
      else if escaped = 115 then SPACE else escaped)"

function skip_spaces :: "mem \<Rightarrow> nat \<Rightarrow> nat option" where
  "skip_spaces buf p =
     (if length buf \<le> p then None else if buf ! p = SPACE then skip_spaces buf (p + 1) else Some p)"
  by pat_completeness auto
termination by (relation "measure (\<lambda>(buf, p). length buf - p)") auto

declare skip_spaces.simps [simp del]

text \<open>
  One pass of the main loop of \<open>cleanup_separated_string\<close>. \<open>unesc buf delim p\<close> is the character an
  escape at \<open>p\<close> stands for, if the code takes it as one.
\<close>

definition unesc :: "mem \<Rightarrow> byte \<Rightarrow> nat \<Rightarrow> byte option option" where
  "unesc buf delim p =
     (if buf ! p \<noteq> ESCAPE_META then Some None
      else do { e \<leftarrow> mem_rd buf (p + 1);
                if e = QUOTE \<or> e = DQUOTE \<or> (delim \<noteq> 0 \<and> e = delim) \<or> e = ESCAPE_META
                then Some (Some e)
                else if unescape_char e \<noteq> e then Some (Some (unescape_char e)) else Some None })"

text \<open>\<open>*ptr == '\'' && (inside_quotes || strchr(ptr+1, '\''))\<close>\<close>

definition is_quote :: "mem \<Rightarrow> bool \<Rightarrow> nat \<Rightarrow> bool option" where
  "is_quote buf inside p =
     (if buf ! p \<noteq> QUOTE then Some False else if inside then Some True else has_chr buf (p + 1) QUOTE)"

function cleanup_loop ::
  "byte \<Rightarrow> nat \<Rightarrow> nat \<Rightarrow> nat option \<Rightarrow> bool \<Rightarrow> mem \<Rightarrow> (nat option \<times> mem) option" where
  "cleanup_loop delim p dest fin inside buf =
     (if length buf \<le> p then None
      else if buf ! p = 0 then Some (fin, buf)
      else do { u \<leftarrow> unesc buf delim p;
                case u of
                  Some e \<Rightarrow> do { buf' \<leftarrow> mem_wr buf dest e;
                                 cleanup_loop delim (p + 2) (dest + 1) (Some (dest + 1)) inside buf' }
                | None \<Rightarrow>
                    do { q \<leftarrow> is_quote buf inside p;
                         if q then
                           cleanup_loop delim (p + 1) dest (if inside then fin else Some dest) (\<not> inside) buf
                         else do { buf' \<leftarrow> mem_wr buf dest (buf ! p);
                                   cleanup_loop delim (p + 1) (dest + 1)
                                     (if buf ! p \<noteq> SPACE \<or> inside then Some (dest + 1) else fin)
                                     inside buf' } } })"
  by pat_completeness auto
termination
  by (relation "measure (\<lambda>(_, p, _, _, _, buf). length buf - p)") (auto dest: mem_wr_length)

declare cleanup_loop.simps [simp del]

text \<open>The start of the cleaned string and the buffer.\<close>

definition cleanup_separated_string :: "mem \<Rightarrow> nat \<Rightarrow> byte \<Rightarrow> (nat \<times> mem) option" where
  "cleanup_separated_string buf str delim =
     do { start \<leftarrow> skip_spaces buf str;
          (fin, buf') \<leftarrow> cleanup_loop delim start start None False buf;
          case fin of None \<Rightarrow> Some (start, buf')
          | Some e \<Rightarrow> do { buf'' \<leftarrow> mem_wr buf' e 0; Some (start, buf'') } }"

fun cleanup_all :: "byte \<Rightarrow> mem \<Rightarrow> nat list \<Rightarrow> (nat list \<times> mem) option" where
  "cleanup_all delim buf [] = Some ([], buf)"
| "cleanup_all delim buf (a # as) =
     do { (a', buf') \<leftarrow> cleanup_separated_string buf a delim;
          (as', buf'') \<leftarrow> cleanup_all delim buf' as;
          Some (a' # as', buf'') }"

datatype tokenizer_state = START | SKIP_INITIAL_SPACE | FIND_DELIM | SKIP_ENDING_SPACE

text \<open>
  The tokenizer loops; \<open>arr\<close> holds the offsets stored in \<open>array\<close> so far. The step past an escape
  character is not checked against the NUL, so \<open>p\<close> can leave the buffer.
\<close>

function sep_char_loop ::
  "byte \<Rightarrow> nat \<Rightarrow> tokenizer_state \<Rightarrow> nat \<Rightarrow> bool \<Rightarrow> nat list \<Rightarrow> mem \<Rightarrow> (nat list \<times> mem) option" where
  "sep_char_loop delim arraylen st p inside arr buf =
     (if length buf \<le> p then None
      else if buf ! p = 0 \<or> arraylen \<le> length arr then Some (arr, buf)
      else if st = START then
        sep_char_loop delim arraylen FIND_DELIM p inside (arr @ [p]) buf
      else if buf ! p = ESCAPE_META then sep_char_loop delim arraylen st (p + 2) inside arr buf
      else do { q \<leftarrow> is_quote buf inside p;
                if q then sep_char_loop delim arraylen st (p + 1) (\<not> inside) arr buf
                else if buf ! p = delim \<and> \<not> inside then
                  do { buf' \<leftarrow> mem_wr buf p 0; sep_char_loop delim arraylen START (p + 1) inside arr buf' }
                else sep_char_loop delim arraylen st (p + 1) inside arr buf })"
  by pat_completeness auto
termination
  by (relation "measure (\<lambda>(_, _, st, p, _, _, buf). 2 * (length buf - p) + (if st = START then 1 else 0))")
     (auto dest: mem_wr_length)

declare sep_char_loop.simps [simp del]

definition separate_string_char_delim :: "mem \<Rightarrow> nat \<Rightarrow> byte \<Rightarrow> nat \<Rightarrow> (nat list \<times> mem) option" where
  "separate_string_char_delim buf p delim arraylen =
     do { (arr, buf') \<leftarrow> sep_char_loop delim arraylen START p False [] buf;
          cleanup_all delim buf' arr }"

text \<open>The rank of a state makes the moves that do not advance \<open>ptr\<close> terminate.\<close>

fun tok_rank :: "tokenizer_state \<Rightarrow> nat" where
  "tok_rank SKIP_ENDING_SPACE = 3"
| "tok_rank START = 2"
| "tok_rank SKIP_INITIAL_SPACE = 1"
| "tok_rank FIND_DELIM = 0"

function sep_blank_loop ::
  "nat \<Rightarrow> tokenizer_state \<Rightarrow> nat \<Rightarrow> bool \<Rightarrow> nat list \<Rightarrow> mem \<Rightarrow> (nat list \<times> mem) option" where
  "sep_blank_loop arraylen st p inside arr buf =
     (if length buf \<le> p then None
      else if buf ! p = 0 \<or> arraylen \<le> length arr then Some (arr, buf)
      else (case st of
          START \<Rightarrow> sep_blank_loop arraylen SKIP_INITIAL_SPACE p inside (arr @ [p]) buf
        | SKIP_INITIAL_SPACE \<Rightarrow>
            if buf ! p = SPACE then sep_blank_loop arraylen st (p + 1) inside arr buf
            else sep_blank_loop arraylen FIND_DELIM p inside arr buf
        | FIND_DELIM \<Rightarrow>
            if buf ! p = ESCAPE_META then sep_blank_loop arraylen st (p + 2) inside arr buf
            else if buf ! p = QUOTE then sep_blank_loop arraylen st (p + 1) (\<not> inside) arr buf
            else if buf ! p = SPACE \<and> \<not> inside then
              do { buf' \<leftarrow> mem_wr buf p 0;
                   sep_blank_loop arraylen SKIP_ENDING_SPACE (p + 1) inside arr buf' }
            else sep_blank_loop arraylen st (p + 1) inside arr buf
        | SKIP_ENDING_SPACE \<Rightarrow>
            if buf ! p = SPACE then sep_blank_loop arraylen st (p + 1) inside arr buf
            else sep_blank_loop arraylen START p inside arr buf))"
  by pat_completeness auto
termination
  by (relation "measure (\<lambda>(_, st, p, _, _, buf). 4 * (length buf - p) + tok_rank st)")
     (auto dest: mem_wr_length)

declare sep_blank_loop.simps [simp del]

definition separate_string_blank_delim :: "mem \<Rightarrow> nat \<Rightarrow> nat \<Rightarrow> (nat list \<times> mem) option" where
  "separate_string_blank_delim buf p arraylen =
     do { (arr, buf') \<leftarrow> sep_blank_loop arraylen START p False [] buf;
          cleanup_all 0 buf' arr }"

text \<open>
  \<open>ks_separate_string\<close>: a text that starts with \<open>^^\<close> and a character names its own delimiter. The
  result is the list of offsets stored in \<open>array\<close> (its length is the value returned) and the buffer.
\<close>

definition ks_separate_string :: "mem option \<Rightarrow> byte \<Rightarrow> nat \<Rightarrow> (nat list \<times> mem option) option" where
  "ks_separate_string buf delim arraylen =
     (case buf of None \<Rightarrow> Some ([], None)
      | Some b \<Rightarrow>
         if arraylen = 0 then Some ([], Some b)
         else do { c0 \<leftarrow> mem_rd b 0;
                   own \<leftarrow> (if c0 = CARET then
                       do { c1 \<leftarrow> mem_rd b 1;
                            if c1 = CARET then
                              do { c2 \<leftarrow> mem_rd b 2;
                                   if c2 \<noteq> 0 then do { c3 \<leftarrow> mem_rd b 3; Some (c3 \<noteq> 0) } else Some False }
                            else Some False }
                     else Some False);
                   let p = (if own then 3 else 0);
                   let d = (if own then b ! 2 else delim);
                   map_option (map_prod id Some)
                     (if d = SPACE then separate_string_blank_delim b p arraylen
                      else separate_string_char_delim b p d arraylen) })"

text \<open>\<open>ks_separate_string_string\<close>: \<open>strstr\<close> finds the first occurrence of the delimiter.\<close>

function strstr_at :: "mem \<Rightarrow> mem \<Rightarrow> nat \<Rightarrow> nat option" where
  "strstr_at s d i =
     (if length s < i + length d then None
      else if take (length d) (drop i s) = d then Some i else strstr_at s d (i + 1))"
  by pat_completeness auto
termination by (relation "measure (\<lambda>(s, _, i). Suc (length s) - i)") auto

declare strstr_at.simps [simp del]

function sep_string_loop :: "mem \<Rightarrow> nat \<Rightarrow> nat list \<Rightarrow> nat \<Rightarrow> mem \<Rightarrow> (nat list \<times> mem) option" where
  "sep_string_loop delim arraylen arr lst buf =
     (if length arr < arraylen then
        do { s \<leftarrow> str_at buf lst;
             case strstr_at s delim 0 of None \<Rightarrow> Some (arr, buf)
             | Some i \<Rightarrow> do { buf' \<leftarrow> mem_wr buf (lst + i) 0;
                              let d = lst + i + length delim;
                              sep_string_loop delim arraylen (arr @ [d]) d buf' } }
      else Some (arr, buf))"
  by pat_completeness auto
termination by (relation "measure (\<lambda>(_, n, arr, _). n - length arr)") auto

declare sep_string_loop.simps [simp del]

definition ks_separate_string_string :: "mem \<Rightarrow> mem \<Rightarrow> nat \<Rightarrow> (nat list \<times> mem) option" where
  "ks_separate_string_string buf delim arraylen =
     (if arraylen = 0 then None else sep_string_loop delim arraylen [0] 0 buf)"

section \<open>Hexadecimal and URL encoding\<close>

definition hex_lower :: mem where
  "hex_lower = map of_char ''0123456789abcdef''"

fun hex_loop :: "mem \<Rightarrow> nat \<Rightarrow> mem \<Rightarrow> (nat \<times> mem) option" where
  "hex_loop [] q buf = Some (q, buf)"
| "hex_loop (c # cs) q buf =
     do { b1 \<leftarrow> mem_wr buf q (hex_lower ! unat (drop_bit 4 c AND 15));
          b2 \<leftarrow> mem_wr b1 (q + 1) (hex_lower ! unat (c AND 15));
          hex_loop cs (q + 2) b2 }"

definition ks_hex_string :: "mem \<Rightarrow> nat \<Rightarrow> mem \<Rightarrow> mem option" where
  "ks_hex_string data len buf =
     do { d \<leftarrow> mem_sub data 0 len; (n, b) \<leftarrow> hex_loop d 0 buf; mem_wr b n 0 }"

definition urlunsafe :: mem where
  "urlunsafe = [13, 10] @ map of_char '' \"#%&+:;<=>?@['' @ [92] @ map of_char '']^`{|}''"

definition url_hex :: mem where
  "url_hex = map of_char ''0123456789ABCDEF'' @ [0]"

text \<open>\<open>*p < ' ' || *p > '~' || strchr(urlunsafe, *p)\<close> with the signed \<open>char\<close>.\<close>

definition url_unsafe :: "byte \<Rightarrow> bool" where
  "url_unsafe c = (sint c < 32 \<or> 126 < sint c \<or> c \<in> set urlunsafe)"

text \<open>\<open>hex[*p >> 4]\<close>: the index of a byte from 128 on is negative, outside the array.\<close>

definition url_digit :: "int \<Rightarrow> byte option" where
  "url_digit i = (if i < 0 then None else mem_rd url_hex (nat i))"

function url_encode_loop :: "mem \<Rightarrow> nat \<Rightarrow> nat \<Rightarrow> nat \<Rightarrow> mem \<Rightarrow> (nat \<times> mem) option" where
  "url_encode_loop url len p x buf =
     (if length url \<le> p then None
      else if url ! p = 0 \<or> len \<le> x then Some (x, buf)
      else if url_unsafe (url ! p) then
        (if len \<le> x + 3 then Some (x, buf)
         else do { b1 \<leftarrow> mem_wr buf x PERCENT;
                   h \<leftarrow> url_digit (drop_bit 4 (sint (url ! p)));
                   b2 \<leftarrow> mem_wr b1 (x + 1) h;
                   l \<leftarrow> url_digit (sint (url ! p) AND 15);
                   b3 \<leftarrow> mem_wr b2 (x + 2) l;
                   url_encode_loop url len (p + 1) (x + 3) b3 })
      else do { b1 \<leftarrow> mem_wr buf x (url ! p); url_encode_loop url len (p + 1) (x + 1) b1 })"
  by pat_completeness auto
termination by (relation "measure (\<lambda>(url, _, p, _). length url - p)") auto

declare url_encode_loop.simps [simp del]

definition ks_url_encode :: "mem option \<Rightarrow> mem option \<Rightarrow> nat \<Rightarrow> (nat \<times> mem option) option" where
  "ks_url_encode url buf len =
     (case (buf, url) of
        (Some b, Some u) \<Rightarrow>
          do { (x, b') \<leftarrow> url_encode_loop u (size_sub len 1) 0 0 b;
               b'' \<leftarrow> mem_wr b' x 0;
               Some (x, Some b'') }
      | _ \<Rightarrow> Some (0, buf))"

text \<open>
  \<open>sscanf(s, "%2x", &tmp)\<close> of the C standard: white space is skipped, then at most two characters are
  read as a hexadecimal number with an optional sign; \<open>0x\<close> alone is not a number.
\<close>

definition is_space :: "byte \<Rightarrow> bool" where
  "is_space c = (c = 32 \<or> (9 \<le> c \<and> c \<le> 13))"

definition hex_val :: "byte \<Rightarrow> nat option" where
  "hex_val c =
     (if 48 \<le> c \<and> c \<le> 57 then Some (unat c - 48)
      else if 65 \<le> c \<and> c \<le> 70 then Some (unat c - 55)
      else if 97 \<le> c \<and> c \<le> 102 then Some (unat c - 87) else None)"

definition scan_2x :: "mem \<Rightarrow> u32 option" where
  "scan_2x s =
     (case dropWhile is_space s of
        [] \<Rightarrow> None
      | a # r \<Rightarrow>
          if a = 43 \<or> a = 45 then
            (case r of [] \<Rightarrow> None
             | d # _ \<Rightarrow> map_option (\<lambda>v. if a = 45 then - word_of_nat v else word_of_nat v) (hex_val d))
          else (case hex_val a of None \<Rightarrow> None
             | Some h \<Rightarrow>
                (case r of [] \<Rightarrow> Some (word_of_nat h)
                 | d # _ \<Rightarrow>
                     if a = 48 \<and> (d = 120 \<or> d = 88) then None
                     else (case hex_val d of None \<Rightarrow> Some (word_of_nat h)
                           | Some l \<Rightarrow> Some (word_of_nat (16 * h + l))))))"

function url_decode_loop :: "nat \<Rightarrow> nat \<Rightarrow> mem \<Rightarrow> (nat \<times> nat \<times> mem) option" where
  "url_decode_loop s q buf =
     (if length buf \<le> s then None
      else if buf ! s = 0 then Some (s, q, buf)
      else do { t \<leftarrow> str_at buf s;
                case (if buf ! s = PERCENT \<and> 2 < length t then scan_2x (tl t) else None) of
                  Some v \<Rightarrow> do { buf' \<leftarrow> mem_wr buf q (ucast v); url_decode_loop (s + 3) (q + 1) buf' }
                | None \<Rightarrow> do { buf' \<leftarrow> mem_wr buf q (buf ! s);
                               url_decode_loop (s + 1) (q + 1) buf' } })"
  by pat_completeness auto
termination
  by (relation "measure (\<lambda>(s, _, buf). length buf - s)") (auto dest: mem_wr_length)

declare url_decode_loop.simps [simp del]

text \<open>The value returned is the end of the encoded text, not of the decoded one.\<close>

definition ks_url_decode :: "mem \<Rightarrow> (nat \<times> mem) option" where
  "ks_url_decode buf =
     do { (s, q, b) \<leftarrow> url_decode_loop 0 0 buf; b' \<leftarrow> mem_wr b q 0; Some (s, b') }"

section \<open>Sizes for people\<close>

definition units :: "string list" where
  "units = [''B'', ''kB'', ''MB'', ''GB'', ''TB'', ''PB'', ''EB'', ''ZB'', ''YB'']"

function scale :: "nat \<Rightarrow> nat \<Rightarrow> nat \<times> nat" where
  "scale sz i = (if 1024 \<le> sz \<and> i < length units then scale (sz div 1024) (i + 1) else (sz, i))"
  by pat_completeness auto
termination by (relation "measure fst") auto

declare scale.simps [simp del]

text \<open>\<open>%zu\<close> and the cut of \<open>snprintf\<close>.\<close>

fun dec_string :: "nat \<Rightarrow> string" where
  "dec_string n =
     (if n < 10 then [char_of (48 + n)] else dec_string (n div 10) @ [char_of (48 + n mod 10)])"

declare dec_string.simps [simp del]

definition snprintf_mem :: "mem \<Rightarrow> nat \<Rightarrow> string \<Rightarrow> mem option" where
  "snprintf_mem buf n s =
     (if n = 0 then Some buf else mem_cpy buf 0 (take (n - 1) (map of_char s) @ [0]))"

text \<open>
  \<open>ks_human_readable_size\<close>: the printed number has no point, so \<open>max_precision\<close> has no effect.
\<close>

definition ks_human_readable_size :: "nat \<Rightarrow> nat \<Rightarrow> mem \<Rightarrow> mem option" where
  "ks_human_readable_size sz buffer_len buffer =
     (let (n, i) = scale sz 0 in
      if i < length units then snprintf_mem buffer buffer_len (dec_string n @ units ! i) else None)"

end
