(* ===== verification/Ks_String_Props.thy ===== *)
theory Ks_String_Props
  imports Ks_String
begin

text \<open>
  Correctness of the string utilities: search up to case against a reference search, separation of
  joined fields, and URL encoding and decoding as inverses. The tokenizer and the URL decoder work in
  place; their invariants say that a write stays behind the read position.
\<close>

lemma str_at_prefix: "drop p buf = s @ 0 # r \<Longrightarrow> 0 \<notin> set s \<Longrightarrow> str_at buf p = Some s"
  by (auto simp: str_at_def c_str_append intro: ccontr)

lemma strchr_at_Some: "str_at buf p = Some (a @ c # b) \<Longrightarrow> c \<notin> set a \<Longrightarrow> strchr_at buf p c = Some (Some (p + length a))"
  by (subgoal_tac "takeWhile (\<lambda>x. x \<noteq> c) (a @ c # b) = a") (auto simp: strchr_at_def takeWhile_append)

lemma strchr_at_None: "str_at buf p = Some s \<Longrightarrow> c \<notin> set s \<Longrightarrow> strchr_at buf p c = Some None"
  by (simp add: strchr_at_def)

lemma str_at_end: "str_at buf a = Some s \<Longrightarrow> a + length s < length buf"
  by (auto simp: str_at_def dest!: c_str_no_nul split: if_splits) (metis add_diff_inverse_nat drop_eq_Nil length_append
    length_drop less_add_Suc1 list.size(4) not_le append_is_Nil_conv list.distinct(1) nat_add_left_cancel_less add_Suc_right)

text \<open>A string is not changed by what happens behind it.\<close>

lemma str_at_take:
  assumes "str_at b p = Some s" "take n b' = take n b" "p + length s < n"
  shows "str_at b' p = Some s"
proof -
  obtain r where r: "drop p b = s @ 0 # r" "0 \<notin> set s" "p \<le> length b"
    using assms(1) c_str_no_nul by (fastforce simp: str_at_def split: if_splits)
  have "take (n - p) (drop p b') = take (n - p) (drop p b)" using arg_cong [OF assms(2), of "drop p"] by (simp add: drop_take)
  moreover have "take (n - p) (s @ 0 # r) = s @ 0 # take (n - p - length s - 1) r"
  proof -
    obtain k where k: "n - p = length s + Suc k" using assms(3) by (intro that [of "n - p - length s - 1"]) simp
    then show ?thesis by simp
  qed
  ultimately have "drop p b' = s @ 0 # (take (n - p - length s - 1) r @ drop (n - p) (drop p b'))"
    using r(1) by (metis append_Cons append.assoc append_take_drop_id)
  then show ?thesis using r(2) by (rule str_at_prefix)
qed

lemma mem_wr_mid: "mem_wr (a @ x # b) (length a) y = Some (a @ y # b)"
  by (simp add: mem_wr_def)

section \<open>Copying\<close>

lemma copy_loop_copies:
  "drop p src = s @ 0 # r \<Longrightarrow> 0 \<notin> set s \<Longrightarrow> p < len \<Longrightarrow> len \<le> length dst \<Longrightarrow>
   copy_loop dst src p len =
     Some (p + length (take (len - 1 - p) s), blit p (take (len - 1 - p) s @ [0]) dst)"
proof (induction s arbitrary: p dst)
  case Nil
  then show ?case using drop_eq_Cons [of p src 0 r]
    by (auto simp: copy_loop.simps [of dst] mem_rd_def mem_wr_blit)
next
  case (Cons c s)
  have c: "p < length src" "src ! p = c" "drop (Suc p) src = s @ 0 # r" "c \<noteq> 0"
    using Cons.prems drop_eq_Cons [of p src c "s @ 0 # r"] by auto
  show ?case
  proof (cases "Suc p < len")
    case True
    then have t: "take (len - 1 - p) (c # s) = c # take (len - 1 - Suc p) s"
      by (simp add: take_Cons')
    have "copy_loop dst src p len = copy_loop (blit p [c] dst) src (Suc p) len"
      using True c Cons.prems by (simp add: copy_loop.simps [of dst] mem_rd_def mem_wr_blit)
    also have "\<dots> = Some (Suc p + length (take (len - 1 - Suc p) s),
        blit (Suc p) (take (len - 1 - Suc p) s @ [0]) (blit p [c] dst))"
      using Cons.prems c True by (intro Cons.IH) auto
    also have "blit (Suc p) (take (len - 1 - Suc p) s @ [0]) (blit p [c] dst) =
        blit p (c # take (len - 1 - Suc p) s @ [0]) dst"
      using True Cons.prems(4) by (intro blit_Cons) auto
    finally show ?thesis unfolding t by simp
  next
    case False
    then show ?thesis using Cons.prems c by (simp add: copy_loop.simps [of dst] mem_wr_blit)
  qed
qed

lemma ks_copy_string_copies:
  assumes "c_str src = Some s" "0 < len" "len \<le> length dst"
  shows "\<exists>e buf. ks_copy_string (Some dst) (Some src) len = Some (Some (e, buf))
    \<and> c_str buf = Some (take (len - 1) s) \<and> length buf = length dst"
proof -
  obtain r where s: "src = s @ 0 # r" "0 \<notin> set s" using assms(1) c_str_no_nul by blast
  then have "0 \<notin> set (take (len - 1) s)" by (meson in_set_takeD)
  then show ?thesis
    using copy_loop_copies [of 0 src s r len dst] assms s
    by (auto simp: ks_copy_string_def blit_def c_str_append min_def)
qed

section \<open>Case-insensitive search\<close>

text \<open>The reference: the first position at which the pattern occurs, up to case.\<close>

fun find_ci :: "mem \<Rightarrow> mem \<Rightarrow> nat option" where
  "find_ci P [] = None"
| "find_ci P (c # S) =
     (if map up (take (length P) (c # S)) = map up P then Some 0 else map_option Suc (find_ci P S))"

lemma find_ci_short: "length S < length P \<Longrightarrow> find_ci P S = None"
proof (induction S)
  case (Cons c S)
  have "length (map up (take (length P) (c # S))) < length (map up P)" using Cons.prems by simp
  then have "map up (take (length P) (c # S)) \<noteq> map up P" by (metis less_not_refl)
  with Cons show ?case by simp
qed simp

lemma find_ci_skip:
  "\<forall>c\<in>set A. up c \<noteq> up p \<Longrightarrow> find_ci (p # P) (A @ B) = map_option (\<lambda>i. i + length A) (find_ci (p # P) B)"
  by (induction A) (auto simp: option.map_comp comp_def option.map_ident)

lemma stristr_find_split:
  "drop start str = S @ 0 # r \<Longrightarrow> 0 \<notin> set S \<Longrightarrow>
   \<exists>A B. S = A @ B \<and> (\<forall>c\<in>set A. up c \<noteq> up p) \<and> (B = [] \<or> up (hd B) = up p)
     \<and> stristr_find str p start = Some (start + length A)"
proof (induction S arbitrary: start)
  case Nil
  then show ?case using drop_eq_Cons [of start str 0 r] by (auto simp: stristr_find.simps)
next
  case (Cons c S)
  have c: "start < length str" "str ! start = c" "drop (Suc start) str = S @ 0 # r" "c \<noteq> 0"
    using Cons.prems drop_eq_Cons [of start str c "S @ 0 # r"] by auto
  show ?case
  proof (cases "up c = up p")
    case True
    then have "stristr_find str p start = Some start" using c by (simp add: stristr_find.simps)
    with True show ?thesis by (intro exI [of _ "[]"] exI [of _ "c # S"]) simp
  next
    case False
    obtain A B where "S = A @ B" "\<forall>c\<in>set A. up c \<noteq> up p" "B = [] \<or> up (hd B) = up p"
      "stristr_find str p (Suc start) = Some (Suc start + length A)"
      using Cons.IH [OF c(3)] Cons.prems(2) by auto
    with False c show ?thesis
      by (intro exI [of _ "c # A"] exI [of _ B]) (simp add: stristr_find.simps [of str p start])
  qed
qed

lemma stristr_match_spec:
  "drop p instr = P @ 0 # r1 \<Longrightarrow> drop s str = S @ 0 # r2 \<Longrightarrow> P \<noteq> [] \<Longrightarrow> S \<noteq> [] \<Longrightarrow>
   0 \<notin> set P \<Longrightarrow> 0 \<notin> set S \<Longrightarrow>
   stristr_match instr str p s = Some (
     if map up (take (length P) S) = map up P then Found
     else if map up S = map up (take (length S) P) then Exhausted else Mismatch)"
proof (induction P arbitrary: p s S)
  case (Cons a P)
  obtain b S' where S: "S = b # S'" using Cons.prems(4) by (cases S) auto
  have a: "p < length instr" "instr ! p = a" "drop (Suc p) instr = P @ 0 # r1"
    using Cons.prems(1) drop_eq_Cons [of p instr a "P @ 0 # r1"] by auto
  have b: "s < length str" "str ! s = b" "drop (Suc s) str = S' @ 0 # r2"
    using Cons.prems(2) drop_eq_Cons [of s str b "S' @ 0 # r2"] S by auto
  obtain c P' where c: "P @ 0 # r1 = c # P'" "c = 0 \<longleftrightarrow> P = []"
    using Cons.prems(5) by (cases P) auto
  obtain d Q' where d: "S' @ 0 # r2 = d # Q'" "d = 0 \<longleftrightarrow> S' = []"
    using Cons.prems(6) S by (cases S') auto
  have rd: "mem_rd instr (Suc p) = Some c" "mem_rd str (Suc s) = Some d"
    using drop_eq_Cons [of "Suc p" instr c P'] drop_eq_Cons [of "Suc s" str d Q'] a(3) b(3) c(1) d(1)
    by (auto simp: mem_rd_def)
  show ?case
  proof (cases "up b = up a \<and> P \<noteq> [] \<and> S' \<noteq> []")
    case True
    then show ?thesis using Cons.IH [OF a(3) b(3)] Cons.prems(5,6) a b rd c(2) d(2) S
      by (simp add: stristr_match.simps [of instr str p s])
  next
    case False
    then show ?thesis using a b rd c(2) d(2) S
      by (auto simp: stristr_match.simps [of instr str p s])
  qed
qed simp

lemma stristr_loop_spec:
  assumes i: "instr = (a # P) @ 0 # r1" "0 \<notin> set (a # P)"
  shows "drop start str = S @ 0 # r2 \<Longrightarrow> 0 \<notin> set S \<Longrightarrow>
    stristr_loop instr str start = Some (map_option (\<lambda>i. i + start) (find_ci (a # P) S))"
proof (induction "length S" arbitrary: start S rule: less_induct)
  case less
  obtain A B where AB: "S = A @ B" "\<forall>c\<in>set A. up c \<noteq> up a" "B = [] \<or> up (hd B) = up a"
    "stristr_find str a start = Some (start + length A)"
    using stristr_find_split [OF less.prems, of a] by auto
  let ?q = "start + length A"
  have q: "drop ?q str = B @ 0 # r2"
    using arg_cong [OF less.prems(1), of "drop (length A)"] AB(1) by (simp add: add.commute)
  have skip: "find_ci (a # P) S = map_option (\<lambda>i. i + length A) (find_ci (a # P) B)"
    unfolding AB(1) by (rule find_ci_skip [OF AB(2)])
  have i0: "mem_rd instr 0 = Some a" by (simp add: i(1) mem_rd_def)
  obtain c S' where c: "S @ 0 # r2 = c # S'" "c = 0 \<longleftrightarrow> S = []" using less.prems(2) by (cases S) auto
  have st: "start < length str" "str ! start = c"
    using drop_eq_Cons [of start str c S'] less.prems(1) c(1) by auto
  show ?case
  proof (cases B)
    case Nil
    have "str ! ?q = 0" using drop_eq_Cons [of ?q str 0 r2] q Nil by auto
    then show ?thesis using st c(2) AB(4) Nil skip
      by (simp add: stristr_loop.simps [of instr str start] i0)
  next
    case (Cons b B')
    have b: "str ! ?q = b" "drop (Suc ?q) str = B' @ 0 # r2" "b \<noteq> 0"
      using drop_eq_Cons [of ?q str b "B' @ 0 # r2"] q Cons less.prems(2) AB(1) by auto
    have S: "S \<noteq> []" using AB(1) Cons by simp
    have m: "stristr_match instr str 0 ?q = Some (
       if map up (take (length (a # P)) B) = map up (a # P) then Found
       else if map up B = map up (take (length B) (a # P)) then Exhausted else Mismatch)"
      using i q Cons less.prems(2) AB(1) by (intro stristr_match_spec) auto
    have loop: "stristr_loop instr str start = do { m \<leftarrow> stristr_match instr str 0 ?q;
        case m of Found \<Rightarrow> Some (Some ?q) | Exhausted \<Rightarrow> Some None | Mismatch \<Rightarrow> stristr_loop instr str (Suc ?q) }"
      using st c(2) S AB(4) b by (simp add: stristr_loop.simps [of instr str start] i0)
    have IH: "stristr_loop instr str (Suc ?q) = Some (map_option (\<lambda>i. i + Suc ?q) (find_ci (a # P) B'))"
      using less.hyps [of B' "Suc ?q"] b(2) less.prems(2) AB(1) Cons by simp
    consider (f) "map up (take (length (a # P)) B) = map up (a # P)"
      | (e) "map up (take (length (a # P)) B) \<noteq> map up (a # P)" "map up B = map up (take (length B) (a # P))"
      | (m) "map up (take (length (a # P)) B) \<noteq> map up (a # P)" "map up B \<noteq> map up (take (length B) (a # P))"
      by blast
    then show ?thesis
    proof cases
      case f
      then show ?thesis using m loop skip Cons by simp
    next
      case e
      have "length B < length (a # P)"
      proof (rule ccontr)
        assume "\<not> ?thesis"
        then have "take (length B) (a # P) = a # P" by simp
        with e show False by (metis length_map take_all order_refl)
      qed
      then show ?thesis using m loop skip e by (simp add: find_ci_short)
    next
      case m2: m
      have "find_ci (a # P) B = map_option Suc (find_ci (a # P) B')" using m2(1) Cons by auto
      then show ?thesis using m loop skip m2 IH by (simp add: option.map_comp comp_def ac_simps)
    qed
  qed
qed

text \<open>
  C28: \<open>ks_stristr\<close> returns the first position of the text at which the pattern occurs up to the case of
  ASCII letters, and NULL when there is none; it ends and reads inside the two strings only.
\<close>

theorem ks_stristr_first_match:
  assumes "P \<noteq> []" "0 \<notin> set P" "0 \<notin> set S"
  shows "ks_stristr (Some (P @ 0 # r1)) (Some (S @ 0 # r2)) = Some (find_ci P S)"
proof -
  obtain a Q where "P = a # Q" using assms(1) by (cases P) auto
  then show ?thesis
    using stristr_loop_spec [of "P @ 0 # r1" a Q r1 0 "S @ 0 # r2" S r2] assms
    by (simp add: ks_stristr_def option.map_ident)
qed

theorem ks_stristr_first_match_witness:
  "ks_stristr (Some [119, 79, 0]) (Some [97, 87, 119, 111, 0]) = Some (Some 2)"
  using ks_stristr_first_match [of "[119, 79]" "[97, 87, 119, 111]" "[]" "[]"]
  by (simp add: up_def ks_toupper_int)

section \<open>Separating strings\<close>

text \<open>Fields joined by a delimiter, and the offsets at which they start.\<close>

fun joinb :: "byte \<Rightarrow> mem list \<Rightarrow> mem" where
  "joinb d [] = []"
| "joinb d [f] = f"
| "joinb d (f # g # fs) = f @ d # joinb d (g # fs)"

lemma joinb_not_Nil: "fs \<noteq> [] \<Longrightarrow> last fs \<noteq> [] \<Longrightarrow> joinb d fs \<noteq> []"
  by (cases "(d, fs)" rule: joinb.cases) auto

fun field_offs :: "nat \<Rightarrow> mem list \<Rightarrow> nat list" where
  "field_offs p [] = []"
| "field_offs p (f # fs) = p # field_offs (p + length f + 1) fs"

definition plain :: "byte \<Rightarrow> mem \<Rightarrow> bool" where
  "plain d f = (\<forall>c\<in>set f. c \<noteq> 0 \<and> c \<noteq> ESCAPE_META \<and> c \<noteq> QUOTE \<and> c \<noteq> d)"

definition trimmed :: "mem \<Rightarrow> bool" where
  "trimmed f = (f = [] \<or> hd f \<noteq> SPACE \<and> last f \<noteq> SPACE)"

lemma find_delim_plain:
  "drop p buf = f @ r \<Longrightarrow> plain d f \<Longrightarrow> length arr < n \<Longrightarrow>
   sep_char_loop d n FIND_DELIM p False arr buf = sep_char_loop d n FIND_DELIM (p + length f) False arr buf"
proof (induction f arbitrary: p)
  case (Cons c f)
  then show ?case using drop_eq_Cons [of p buf c "f @ r"]
    by (simp add: sep_char_loop.simps [of d n FIND_DELIM p] plain_def is_quote_def)
qed simp

text \<open>
  Texts without escapes and quotes, which may contain the delimiter: what the last entry of a full array
  holds. An empty field behind the last delimiter is not stored.
\<close>

definition unquoted :: "mem \<Rightarrow> bool" where
  "unquoted f = (\<forall>c\<in>set f. c \<noteq> 0 \<and> c \<noteq> ESCAPE_META \<and> c \<noteq> QUOTE)"

definition stored :: "mem list \<Rightarrow> mem list" where
  "stored fs = (if last fs = [] then butlast fs else fs)"

lemma plain_unquoted: "plain d f \<Longrightarrow> unquoted f"
  by (auto simp: plain_def unquoted_def)

lemma stored_Cons [simp]: "stored (f # g # fs) = f # stored (g # fs)"
  by (auto simp: stored_def)

lemma sep_char_fields:
  assumes d: "d \<noteq> 0" "d \<noteq> ESCAPE_META" "d \<noteq> QUOTE"
  shows "fs \<noteq> [] \<Longrightarrow> \<forall>f\<in>set (butlast fs). plain d f \<Longrightarrow> unquoted (last fs) \<Longrightarrow>
    plain d (last fs) \<and> length arr + length fs \<le> n \<or> length arr + length fs = n \<Longrightarrow>
    drop p buf = joinb d fs @ 0 # r \<Longrightarrow>
    sep_char_loop d n START p False arr buf =
      Some (arr @ field_offs p (stored fs), take p buf @ joinb 0 fs @ 0 # r)"
proof (induction fs arbitrary: p arr buf rule: induct_list012)
  case (2 f)
  note prems = "2.prems"
  have buf: "buf = take p buf @ f @ 0 # r" using prems(5) by (metis append_take_drop_id joinb.simps(2))
  show ?case
  proof (cases f)
    case Nil
    then show ?thesis using drop_eq_Cons [of p buf 0 r] prems(5) buf
      by (simp add: sep_char_loop.simps [of d n START p] stored_def)
  next
    case (Cons c f')
    have p: "p < length buf" "buf ! p \<noteq> 0"
      using prems drop_eq_Cons [of p buf c "f' @ 0 # r"] by (auto simp: Cons unquoted_def)
    have e: "p + length f < length buf" "buf ! (p + length f) = 0"
      using drop_eq_Cons [of "p + length f" buf 0 r] arg_cong [OF prems(5), of "drop (length f)"]
      by (auto simp: add.commute)
    have "sep_char_loop d n START p False arr buf = sep_char_loop d n FIND_DELIM p False (arr @ [p]) buf"
      using p prems(4) by (auto simp: sep_char_loop.simps [of d n START p])
    also have "\<dots> = Some (arr @ [p], buf)"
    proof (cases "Suc (length arr) < n")
      case True
      then show ?thesis using find_delim_plain [of p buf f "0 # r" d "arr @ [p]" n] prems e
        by (simp add: sep_char_loop.simps [of d n FIND_DELIM "p + length f"])
    next
      case False
      then show ?thesis using p by (simp add: sep_char_loop.simps [of d n FIND_DELIM p])
    qed
    finally show ?thesis using buf Cons by (simp add: stored_def)
  qed
next
  case (3 f g fs)
  note prems = "3.prems"
  let ?q = "p + length f" and ?r = "joinb d (g # fs) @ 0 # r"
  have f: "plain d f" using prems(2) by simp
  have drp: "drop p buf = f @ d # ?r" using prems(5) by simp
  obtain c s where cs: "f @ d # ?r = c # s" "c \<noteq> 0" using d(1) f by (cases f) (auto simp: plain_def)
  have nz: "p < length buf" "buf ! p \<noteq> 0" using drop_eq_Cons [of p buf c s] drp cs by auto
  have q: "?q < length buf" "buf ! ?q = d" "drop (Suc ?q) buf = ?r"
    using drop_eq_Cons [of ?q buf d ?r] arg_cong [OF drp, of "drop (length f)"] by (auto simp: add.commute)
  have n: "length arr + 1 < n" using prems(4) by auto
  have "sep_char_loop d n START p False arr buf = sep_char_loop d n FIND_DELIM p False (arr @ [p]) buf"
    using nz n by (simp add: sep_char_loop.simps [of d n START p])
  also have "\<dots> = sep_char_loop d n FIND_DELIM ?q False (arr @ [p]) buf"
    using f drp n by (intro find_delim_plain) auto
  also have "\<dots> = sep_char_loop d n START (Suc ?q) False (arr @ [p]) (buf[?q := 0])"
    using q d n by (simp add: sep_char_loop.simps [of d n FIND_DELIM ?q] is_quote_def mem_wr_def)
  also have "\<dots> = Some ((arr @ [p]) @ field_offs (Suc ?q) (stored (g # fs)),
      take (Suc ?q) (buf[?q := 0]) @ joinb 0 (g # fs) @ 0 # r)"
    using prems q d by (intro "3.IH"(2)) auto
  also have "take (Suc ?q) (buf[?q := 0]) = take p buf @ f @ [0]"
  proof -
    have "take ?q buf = take p buf @ f" using drp by (simp add: take_add)
    with q(1) show ?thesis by (simp add: take_Suc_conv_app_nth)
  qed
  finally show ?case by simp
qed simp

lemma skip_spaces_trimmed:
  "drop p buf = replicate k SPACE @ f @ 0 # r \<Longrightarrow> trimmed f \<Longrightarrow> skip_spaces buf p = Some (p + k)"
proof (induction k arbitrary: p)
  case 0
  obtain c s where c: "f @ 0 # r = c # s" "c \<noteq> SPACE"
    using 0(2) by (cases f) (auto simp: trimmed_def)
  then show ?case
    using drop_eq_Cons [of p buf c s] 0(1) by (simp add: skip_spaces.simps [of buf p])
next
  case (Suc k)
  then show ?case using drop_eq_Cons [of p buf SPACE "replicate k SPACE @ f @ 0 # r"]
    by (simp add: skip_spaces.simps [of buf p])
qed

lemma cleanup_loop_unquoted:
  "drop p buf = f @ 0 # r \<Longrightarrow> unquoted f \<Longrightarrow> f = [] \<or> last f \<noteq> SPACE \<Longrightarrow>
   cleanup_loop d p p fin False buf = Some (if f = [] then fin else Some (p + length f), buf)"
proof (induction f arbitrary: p fin)
  case Nil
  then show ?case using drop_eq_Cons [of p buf 0 r] by (simp add: cleanup_loop.simps)
next
  case (Cons c f)
  have c: "p < length buf" "buf ! p = c" "drop (Suc p) buf = f @ 0 # r"
    using Cons.prems(1) drop_eq_Cons [of p buf c "f @ 0 # r"] by auto
  have "buf[p := c] = buf" using c(2) by (metis list_update_id)
  then have "cleanup_loop d p p fin False buf =
      cleanup_loop d (Suc p) (Suc p) (if c \<noteq> SPACE then Some (Suc p) else fin) False buf"
    using c Cons.prems(2)
    by (simp add: cleanup_loop.simps [of d p] unquoted_def unesc_def is_quote_def mem_wr_def)
  with Cons.IH [OF c(3)] Cons.prems show ?case by (auto simp: unquoted_def split: if_splits)
qed

lemma cleanup_unquoted:
  assumes "drop p buf = replicate k SPACE @ f @ 0 # r" "unquoted f" "trimmed f"
  shows "cleanup_separated_string buf p d = Some (p + k, buf)"
proof -
  have f: "drop (p + k) buf = f @ 0 # r" using arg_cong [OF assms(1), of "drop k"] by (simp add: add.commute)
  then have "drop (length f) (drop (p + k) buf) = 0 # r" by simp
  then have e: "p + k + length f < length buf" "buf ! (p + k + length f) = 0"
    using drop_eq_Cons [of "p + k + length f" buf 0 r] by (auto simp: add.commute add.left_commute)
  then have "buf[p + k + length f := 0] = buf" by (metis list_update_id)
  with e show ?thesis
    using skip_spaces_trimmed [OF assms(1,3)] cleanup_loop_unquoted [OF f assms(2), of d None] assms(3)
    by (auto simp: cleanup_separated_string_def trimmed_def mem_wr_def)
qed

lemma cleanup_all_Cons:
  assumes "drop p buf = f @ 0 # r" "unquoted f" "trimmed f"
    and "cleanup_all d buf offs = Some (offs, buf) \<and> map (str_at buf) offs = map Some fs"
  shows "cleanup_all d buf (p # offs) = Some (p # offs, buf)
    \<and> map (str_at buf) (p # offs) = map Some (f # fs)"
  using cleanup_unquoted [of p buf 0 f r d] assms(1-3) str_at_prefix [OF assms(1)] assms(2,4) by (auto simp: unquoted_def)

lemma cleanup_all_fields:
  "\<forall>f\<in>set fs. unquoted f \<and> trimmed f \<Longrightarrow> drop p buf = joinb 0 fs @ 0 # r \<Longrightarrow>
   cleanup_all d buf (field_offs p (stored fs)) = Some (field_offs p (stored fs), buf)
   \<and> map (str_at buf) (field_offs p (stored fs)) = map Some (stored fs)"
proof (induction "0 :: byte" fs arbitrary: p rule: joinb.induct)
  case (2 f)
  then show ?case using cleanup_all_Cons [of p buf f r d "[]" "[]"] by (simp add: stored_def)
next
  case (3 f g fs)
  have drp: "drop p buf = f @ 0 # (joinb 0 (g # fs) @ 0 # r)" using 3(3) by simp
  have "drop (p + length f + 1) buf = joinb 0 (g # fs) @ 0 # r"
    using arg_cong [OF drp, of "drop (Suc (length f))"] by (simp add: add.commute)
  then have "cleanup_all d buf (field_offs (p + length f + 1) (stored (g # fs))) =
      Some (field_offs (p + length f + 1) (stored (g # fs)), buf)
    \<and> map (str_at buf) (field_offs (p + length f + 1) (stored (g # fs))) = map Some (stored (g # fs))"
    using 3(2) by (intro 3(1)) auto
  then show ?case unfolding stored_Cons field_offs.simps(2) [of p f] using 3(2)
    by (intro cleanup_all_Cons [OF drp]) auto
qed (simp add: stored_def)

text \<open>
  The separation of fields, for a text that does not name its own delimiter: the last field may be empty
  and is then not stored, or it may be the rest of the text when the array is full.
\<close>

lemma no_own_delim:
  assumes "take 2 t \<noteq> [CARET, CARET]"
  shows "(if (t @ 0 # r) ! 0 = CARET then do { c1 \<leftarrow> mem_rd (t @ 0 # r) 1;
      if c1 = CARET then do { c2 \<leftarrow> mem_rd (t @ 0 # r) 2;
         if c2 \<noteq> 0 then do { c3 \<leftarrow> mem_rd (t @ 0 # r) 3; Some (c3 \<noteq> 0) } else Some False } else Some False }
      else Some False) = Some False"
proof (cases t)
  case (Cons c u)
  then show ?thesis using assms by (cases u) (auto simp: mem_rd_def)
qed simp

lemma separate_char:
  assumes "d \<noteq> SPACE" "0 < n" "take 2 t \<noteq> [CARET, CARET]"
  shows "ks_separate_string (Some (t @ 0 # r)) d n = map_option (map_prod id Some) (separate_string_char_delim (t @ 0 # r) 0 d n)"
proof -
  have "mem_rd (t @ 0 # r) 0 = Some ((t @ 0 # r) ! 0)" by (simp add: mem_rd_def)
  with no_own_delim [OF assms(3), of r] assms(1,2) show ?thesis by (simp add: ks_separate_string_def)
qed

lemma separate_fields:
  assumes d: "d \<noteq> 0" "d \<noteq> ESCAPE_META" "d \<noteq> QUOTE" "d \<noteq> SPACE"
    and fs: "fs \<noteq> []" "\<forall>f\<in>set (butlast fs). plain d f \<and> trimmed f" "unquoted (last fs)" "trimmed (last fs)"
    and n: "plain d (last fs) \<and> length fs \<le> n \<or> length fs = n"
    and own: "take 2 (joinb d fs) \<noteq> [CARET, CARET]"
  shows "ks_separate_string (Some (joinb d fs @ 0 # r)) d n = Some (field_offs 0 (stored fs), Some (joinb 0 fs @ 0 # r))"
    "map (str_at (joinb 0 fs @ 0 # r)) (field_offs 0 (stored fs)) = map Some (stored fs)"
proof -
  let ?t = "joinb d fs @ 0 # r" and ?u = "joinb 0 fs @ 0 # r"
  have "\<forall>f\<in>set (butlast fs @ [last fs]). unquoted f \<and> trimmed f" using fs(2-4) plain_unquoted by auto
  then have all: "\<forall>f\<in>set fs. unquoted f \<and> trimmed f" using fs(1) by simp
  have "sep_char_loop d n START 0 False [] ?t = Some (field_offs 0 (stored fs), ?u)"
    using sep_char_fields [OF d(1-3) fs(1) _ fs(3), of "[]" n 0 ?t r] fs(2) n by simp
  moreover have c: "cleanup_all d ?u (field_offs 0 (stored fs)) = Some (field_offs 0 (stored fs), ?u)"
     "map (str_at ?u) (field_offs 0 (stored fs)) = map Some (stored fs)"
    using cleanup_all_fields [OF all, of 0 ?u r d] by auto
  moreover have "0 < n" using n fs(1) by (cases fs) auto
  ultimately show "ks_separate_string (Some ?t) d n = Some (field_offs 0 (stored fs), Some ?u)"
    using separate_char [OF d(4) _ own] by (simp add: separate_string_char_delim_def)
  show "map (str_at ?u) (field_offs 0 (stored fs)) = map Some (stored fs)" by (rule c(2))
qed

text \<open>
  \<open>ks_separate_string\<close> splits a text at its delimiter: for fields without delimiters, quotes and
  escapes and without spaces at their ends, the text of the fields joined by the delimiter is
  separated into exactly these fields, in order, the buffer then holding them as strings.
\<close>

lemma ks_separate_string_fields:
  assumes d: "d \<noteq> 0" "d \<noteq> ESCAPE_META" "d \<noteq> QUOTE" "d \<noteq> SPACE"
    and fs: "fs \<noteq> []" "last fs \<noteq> []" "\<forall>f\<in>set fs. plain d f \<and> trimmed f" "length fs \<le> n"
    and own: "take 2 (joinb d fs) \<noteq> [CARET, CARET]"
  shows "\<exists>offs buf. ks_separate_string (Some (joinb d fs @ 0 # r)) d n = Some (offs, Some buf)
    \<and> map (str_at buf) offs = map Some fs"
proof -
  have l: "last fs \<in> set fs" "set (butlast fs) \<subseteq> set fs" using fs(1) by (auto dest: in_set_butlastD)
  then have "plain d (last fs)" "trimmed (last fs)" "\<forall>f\<in>set (butlast fs). plain d f \<and> trimmed f" using fs(3) by blast+
  then show ?thesis using separate_fields [OF d fs(1) _ _ _ _ own, of n r] plain_unquoted fs(2,4) by (auto simp: stored_def)
qed

text \<open>
  A text that ends with an unquoted backslash makes \<open>ks_separate_string\<close> step over the NUL and read
  past the end of the text: the backslash advances the scan by two characters without a test.
\<close>

lemma ks_separate_string_trailing_escape:
  assumes d: "d \<noteq> SPACE" and s: "plain d s" "s \<noteq> []" "1 < n" "s ! 0 \<noteq> CARET"
  shows "ks_separate_string (Some (s @ [ESCAPE_META, 0])) d n = None"
proof -
  let ?t = "s @ [ESCAPE_META, 0]"
  have "sep_char_loop d n START 0 False [] ?t = sep_char_loop d n FIND_DELIM 0 False [0] ?t"
    using s by (cases s) (auto simp: sep_char_loop.simps [of d n START 0] plain_def)
  also have "\<dots> = sep_char_loop d n FIND_DELIM (length s) False [0] ?t"
    using find_delim_plain [of 0 ?t s "[ESCAPE_META, 0]" d "[0]" n] s by simp
  also have "\<dots> = sep_char_loop d n FIND_DELIM (length s + 2) False [0] ?t"
    using s by (simp add: sep_char_loop.simps [of d n FIND_DELIM "length s"] nth_append ESCAPE_META_def)
  also have "\<dots> = None"
    by (simp add: sep_char_loop.simps)
  finally show ?thesis using s d by (cases s) (auto simp: ks_separate_string_def mem_rd_def separate_string_char_delim_def)
qed

section \<open>URL encoding\<close>

lemma hex_val_url_hex:
  assumes "k < 16"
  shows "hex_val (url_hex ! k) = Some k" "\<not> is_space (url_hex ! k)" "url_hex ! k \<noteq> 43" "url_hex ! k \<noteq> 45"
    "url_hex ! k \<noteq> 120" "url_hex ! k \<noteq> 88" "url_hex ! k \<noteq> 0" "url_hex ! k \<noteq> PERCENT"
proof -
  have "k = 0 \<or> k = 1 \<or> k = 2 \<or> k = 3 \<or> k = 4 \<or> k = 5 \<or> k = 6 \<or> k = 7 \<or> k = 8 \<or> k = 9 \<or> k = 10
    \<or> k = 11 \<or> k = 12 \<or> k = 13 \<or> k = 14 \<or> k = 15" using assms by presburger
  then show "hex_val (url_hex ! k) = Some k" "\<not> is_space (url_hex ! k)" "url_hex ! k \<noteq> 43" "url_hex ! k \<noteq> 45"
    "url_hex ! k \<noteq> 120" "url_hex ! k \<noteq> 88" "url_hex ! k \<noteq> 0" "url_hex ! k \<noteq> PERCENT"
    by (elim disjE; simp add: url_hex_def hex_val_def is_space_def)+
qed

lemma scan_2x_digits:
  assumes "h < 16" "l < 16"
  shows "scan_2x (url_hex ! h # url_hex ! l # r) = Some (word_of_nat (16 * h + l))"
  using hex_val_url_hex [OF assms(1)] hex_val_url_hex [OF assms(2)] by (simp add: scan_2x_def)

text \<open>The text of a byte string without the limits of the buffer.\<close>

definition url_char :: "byte \<Rightarrow> mem" where
  "url_char c = (if url_unsafe c then [PERCENT, url_hex ! (unat c div 16), url_hex ! (unat c mod 16)] else [c])"

definition url_text :: "mem \<Rightarrow> mem" where
  "url_text s = concat (map url_char s)"

lemma url_digits:
  fixes c :: byte
  assumes "unat c < 128"
  shows "url_digit (drop_bit 4 (sint c)) = Some (url_hex ! (unat c div 16))"
    "url_digit (sint c AND 15) = Some (url_hex ! (unat c mod 16))"
proof -
  have "sint c = int (unat c)" by (rule sint_byte_small [OF assms])
  moreover have "drop_bit 4 (int (unat c)) = int (unat c div 16)"
    by (simp add: drop_bit_eq_div zdiv_int)
  moreover have "int (unat c) AND 15 = int (unat c mod 16)"
    using take_bit_eq_mask [of 4 "int (unat c)"] by (simp add: take_bit_eq_mod mask_eq_exp_minus_1 zmod_int)
  moreover have "length url_hex = 17" by (simp add: url_hex_def)
  ultimately show "url_digit (drop_bit 4 (sint c)) = Some (url_hex ! (unat c div 16))"
    "url_digit (sint c AND 15) = Some (url_hex ! (unat c mod 16))"
    using assms by (simp_all add: url_digit_def mem_rd_def)
qed

lemma url_text_simps [simp]: "url_text [] = []" "url_text (c # s) = url_char c @ url_text s"
  by (simp_all add: url_text_def)

lemma length_url_text: "length (url_text s) \<le> 3 * length s"
  by (induction s) (auto simp: url_char_def)

text \<open>The encoder turns the characters of a prefix into their text, while the buffer has room.\<close>

lemma url_encode_loop_prefix:
  "drop p url = s @ r \<Longrightarrow> 0 \<notin> set s \<Longrightarrow> \<forall>c\<in>set s. unat c < 128 \<Longrightarrow>
   x + 3 * length s < len \<Longrightarrow> len \<le> length buf \<Longrightarrow>
   url_encode_loop url len p x buf =
     url_encode_loop url len (p + length s) (x + length (url_text s)) (blit x (url_text s) buf)"
proof (induction s arbitrary: p x buf)
  case Nil
  then show ?case by simp
next
  case (Cons c s)
  then have p: "p < length url" "url ! p = c" "c \<noteq> 0" and d: "drop (p + 1) url = s @ r"
    using drop_eq_Cons [of p url c "s @ r"] by auto
  have c: "unat c < 128" using Cons.prems(3) by simp
  have x: "x < len" "x < length buf" using Cons.prems by auto
  note l = length_url_text [of s]
  show ?case
  proof (cases "url_unsafe c")
    case False
    then show ?thesis using Cons.IH [OF d, of "Suc x" "blit x [c] buf"] Cons.prems p x l
      by (subst url_encode_loop.simps) (simp add: mem_wr_blit blit_Cons url_char_def)
  next
    case True
    let ?h = "url_hex ! (unat c div 16)" and ?l = "url_hex ! (unat c mod 16)"
    have "mem_wr buf x PERCENT = Some (blit x [PERCENT] buf)"
      "mem_wr (blit x [PERCENT] buf) (x + 1) ?h = Some (blit x [PERCENT, ?h] buf)"
      "mem_wr (blit x [PERCENT, ?h] buf) (x + 2) ?l = Some (blit x [PERCENT, ?h, ?l] buf)"
      using Cons.prems x blit_blit [of x "[PERCENT]" "[?h]" buf] blit_blit [of x "[PERCENT, ?h]" "[?l]" buf]
      by (simp_all add: mem_wr_blit numeral_2_eq_2)
    then have "url_encode_loop url len p x buf =
        url_encode_loop url len (p + 1) (x + 3) (blit x [PERCENT, ?h, ?l] buf)"
      using p x True Cons.prems by (subst url_encode_loop.simps) (simp add: url_digits [OF c])
    also have "\<dots> = url_encode_loop url len (p + 1 + length s) (x + 3 + length (url_text s))
        (blit (x + 3) (url_text s) (blit x [PERCENT, ?h, ?l] buf))"
      using Cons.prems d by (intro Cons.IH) auto
    also have "blit (x + 3) (url_text s) (blit x [PERCENT, ?h, ?l] buf) =
        blit x ([PERCENT, ?h, ?l] @ url_text s) buf"
      using blit_blit [of x "[PERCENT, ?h, ?l]" "url_text s" buf] Cons.prems l by (simp add: numeral_3_eq_3)
    finally show ?thesis using True by (simp add: url_char_def numeral_3_eq_3)
  qed
qed

lemma ucast_ucast_byte: "(ucast (ucast (c :: byte) :: u32) :: byte) = c"
  by (rule bit_word_eqI) (simp add: bit_simps)

lemma url_text_no_nul: "0 \<notin> set s \<Longrightarrow> \<forall>c\<in>set s. unat c < 128 \<Longrightarrow> 0 \<notin> set (url_text s)"
proof (induction s)
  case (Cons c s)
  then have "unat c div 16 < 16" by auto
  then have "url_hex ! (unat c div 16) \<noteq> 0" "url_hex ! (unat c mod 16) \<noteq> 0"
    by (simp_all add: hex_val_url_hex)
  with Cons show ?case by (auto simp: url_char_def)
qed simp

text \<open>A write behind the read position does not change what is read next.\<close>

lemma drop_blit_behind: "q + length xs \<le> p \<Longrightarrow> p \<le> length buf \<Longrightarrow> drop p (blit q xs buf) = drop p buf"
  by (auto simp: blit_def)

lemma take_blit_step: "q < length buf \<Longrightarrow> take (Suc q) (blit q [c] buf) = take q buf @ [c]"
  by (simp add: blit_def)

lemma url_decode_loop_prefix:
  "drop p buf = url_text s @ u @ 0 # r \<Longrightarrow> q \<le> p \<Longrightarrow> 0 \<notin> set s \<Longrightarrow> 0 \<notin> set u \<Longrightarrow> \<forall>c\<in>set s. unat c < 128 \<Longrightarrow>
   \<exists>buf'. url_decode_loop p q buf = url_decode_loop (p + length (url_text s)) (q + length s) buf'
     \<and> take (q + length s) buf' = take q buf @ s \<and> length buf' = length buf
     \<and> drop (p + length (url_text s)) buf' = u @ 0 # r"
proof (induction s arbitrary: p q buf)
  case Nil
  then show ?case by auto
next
  case (Cons c s)
  let ?t = "url_text (c # s)"
  have str: "str_at buf p = Some (?t @ u)"
    using Cons.prems url_text_no_nul [of "c # s"] by (intro str_at_prefix) auto
  have c: "unat c < 128" "c \<noteq> 0" using Cons.prems by auto
  obtain b0 t where bt: "?t = b0 # t" by (cases ?t) (auto simp: url_char_def split: if_splits)
  have p: "p < length buf" "buf ! p = b0" "q < length buf"
    using Cons.prems(1,2) drop_eq_Cons [of p buf b0 "t @ u @ 0 # r"] unfolding bt by auto
  have "url_decode_loop p q buf = url_decode_loop (p + length (url_char c)) (q + 1) (blit q [c] buf)"
  proof (cases "url_unsafe c")
    case True
    have h: "unat c div 16 < 16" "unat c mod 16 < 16" using c by simp_all
    have v: "ucast (word_of_nat (16 * (unat c div 16) + unat c mod 16) :: u32) = c" 
      by (simp only: mult_div_mod_eq) (simp add: ucast_ucast_byte)
    have b0: "b0 = PERCENT" using True bt by (simp add: url_char_def)
    show ?thesis using True p c str v unfolding b0
      by (subst url_decode_loop.simps)
         (simp add: url_char_def scan_2x_digits [OF h] mem_wr_blit numeral_3_eq_3)
  next
    case False
    then have "c \<noteq> PERCENT" by (auto simp: url_unsafe_def urlunsafe_def)
    with False show ?thesis using p c str bt
      by (subst url_decode_loop.simps) (auto simp: url_char_def mem_wr_blit)
  qed
  moreover have behind: "q + length [c] \<le> p + length (url_char c)"
  proof -
    obtain k where "length (url_char c) = Suc k"
      by (cases "url_char c") (auto simp: url_char_def split: if_splits)
    then show ?thesis using Cons.prems(2) by simp
  qed
  moreover have "drop (p + length (url_char c)) (blit q [c] buf) = url_text s @ u @ 0 # r"
  proof -
    have d: "drop (p + length (url_char c)) buf = url_text s @ u @ 0 # r"
      using arg_cong [OF Cons.prems(1), of "drop (length (url_char c))"] by (simp add: add.commute)
    moreover have "p + length (url_char c) \<le> length buf"
      using d by (rule contrapos_pp) simp
    ultimately show ?thesis by (simp only: drop_blit_behind [OF behind])
  qed
  ultimately show ?case
    using Cons.IH [of "p + length (url_char c)" "blit q [c] buf" "q + 1"] Cons.prems p
    by (auto simp: take_blit_step add.assoc)
qed

lemma url_decode_loop_text:
  assumes "drop p buf = url_text s @ 0 # r" "q \<le> p" "0 \<notin> set s" "\<forall>c\<in>set s. unat c < 128"
  shows "\<exists>buf'. url_decode_loop p q buf = Some (p + length (url_text s), q + length s, buf')
     \<and> take (q + length s) buf' = take q buf @ s \<and> length buf' = length buf"
proof -
  obtain b where b: "url_decode_loop p q buf = url_decode_loop (p + length (url_text s)) (q + length s) b"
    "take (q + length s) b = take q buf @ s" "length b = length buf" "drop (p + length (url_text s)) b = 0 # r"
    using url_decode_loop_prefix [of p buf s "[]" r q] assms by auto
  then have "url_decode_loop p q buf = Some (p + length (url_text s), q + length s, b)"
    using drop_eq_Cons [OF b(4)] by (simp add: url_decode_loop.simps [of "p + length (url_text s)"])
  with b(2,3) show ?thesis by blast
qed

lemma url_text_chars: "\<forall>c\<in>set s. unat c < 128 \<Longrightarrow> c \<in> set (url_text s) \<Longrightarrow> c \<notin> set urlunsafe - {PERCENT}"
proof (induction s)
  case (Cons x s)
  have "url_hex ! k \<notin> set urlunsafe" if "k < 16" for k
  proof -
    have "k \<in> set [0..<16]" using that by simp
    then show ?thesis by (simp add: upt_rec url_hex_def urlunsafe_def) (elim disjE; simp)
  qed
  moreover have "unat x div 16 < 16" "unat x mod 16 < 16" using Cons.prems(1) by auto
  ultimately show ?case using Cons by (auto simp: url_char_def url_unsafe_def split: if_splits)
qed simp

text \<open>
  C27: URL encoding a string of \<open>n\<close> characters from 1 to 127 with a length limit of at least \<open>3 * n + 2\<close>
  and decoding the buffer in place gives the string back: \<open>ks_url_decode\<close> inverts \<open>ks_url_encode\<close>.
\<close>

theorem ks_url_round_trip:
  assumes "0 \<notin> set s" "\<forall>c\<in>set s. unat c < 128" "3 * length s + 2 \<le> len" "len \<le> length buf"
  shows "\<exists>x enc e out. ks_url_encode (Some (s @ 0 # junk)) (Some buf) len = Some (x, Some enc)
    \<and> ks_url_decode enc = Some (e, out) \<and> c_str out = Some s"
proof -
  let ?t = "url_text s"
  note l = length_url_text [of s]
  have L: "size_sub len 1 = len - 1" using assms by (simp add: size_simps)
  have "url_encode_loop (s @ 0 # junk) (len - 1) 0 0 buf = Some (length ?t, blit 0 ?t buf)"
    using url_encode_loop_prefix [of 0 "s @ 0 # junk" s "0 # junk" 0 "len - 1" buf] assms
    by (simp add: url_encode_loop.simps [of _ _ "length s"])
  moreover have "mem_wr (blit 0 ?t buf) (length ?t) 0 = Some (blit 0 (?t @ [0]) buf)"
    using blit_blit [of 0 ?t "[0]" buf] assms l by (simp add: mem_wr_blit)
  ultimately have e: "ks_url_encode (Some (s @ 0 # junk)) (Some buf) len
      = Some (length ?t, Some (blit 0 (?t @ [0]) buf))"
    by (simp add: ks_url_encode_def L [unfolded One_nat_def])
  have d: "drop 0 (blit 0 (?t @ [0]) buf) = ?t @ 0 # drop (Suc (length ?t)) buf"
    by (simp add: blit_def)
  obtain b where b: "url_decode_loop 0 0 (blit 0 (?t @ [0]) buf) = Some (length ?t, length s, b)"
      "take (length s) b = s" "length b = length (blit 0 (?t @ [0]) buf)"
    using url_decode_loop_text [OF d, of 0] assms(1,2) by auto
  have "length b = length buf" "length s < length b" using b(3) assms l by auto
  then have "ks_url_decode (blit 0 (?t @ [0]) buf) = Some (length ?t, b[length s := 0])"
    using b(1) by (simp add: ks_url_decode_def mem_wr_def)
  moreover have "b[length s := 0] = s @ 0 # drop (Suc (length s)) b"
    using b(2) \<open>length s < length b\<close> by (simp add: upd_conv_take_nth_drop)
  ultimately show ?thesis using e assms(1) by (auto simp: c_str_append)
qed

theorem ks_url_round_trip_witness:
  "\<exists>x enc e out. ks_url_encode (Some [97, 32, 37, 0]) (Some (replicate 12 1)) 12 = Some (x, Some enc)
    \<and> ks_url_decode enc = Some (e, out) \<and> c_str out = Some [97, 32, 37]"
  using ks_url_round_trip [of "[97, 32, 37]" 12 "replicate 12 1" "[]"] by simp

text \<open>
  \<open>ks_url_encode\<close> cannot encode a byte from 128 on: \<open>*p >> 4\<close> of the signed \<open>char\<close> is negative and
  the digit is read before the start of the table, whatever precedes the byte in the string.
\<close>

lemma ks_url_encode_high_byte_faults:
  assumes "0 \<notin> set s" "\<forall>c\<in>set s. unat c < 128" "128 \<le> unat c"
    and "3 * length s + 5 \<le> len" "len \<le> length buf"
  shows "ks_url_encode (Some (s @ c # rest)) (Some buf) len = None"
proof -
  let ?t = "url_text s" and ?url = "s @ c # rest"
  have L: "size_sub len 1 = len - 1" using assms by (simp add: size_simps)
  have "sint c < 0" by (rule sint_byte_neg [OF assms(3)])
  then have "url_unsafe c" "c \<noteq> 0" "url_digit (drop_bit 4 (sint c)) = None"
    by (auto simp: url_unsafe_def url_digit_def)
  moreover have "url_encode_loop ?url (len - 1) 0 0 buf =
      url_encode_loop ?url (len - 1) (length s) (length ?t) (blit 0 ?t buf)"
    using url_encode_loop_prefix [of 0 ?url s "c # rest" 0 "len - 1" buf] assms by simp
  ultimately have "url_encode_loop ?url (len - 1) 0 0 buf = None"
    using assms length_url_text [of s]
    by (simp add: url_encode_loop.simps [of _ _ "length s"] mem_wr_blit)
  then show ?thesis by (simp add: ks_url_encode_def L [unfolded One_nat_def])
qed

end
