(* ===== verification/Ks_Acl.thy ===== *)
theory Ks_Acl
  imports Ks_String Ks_Types
begin

text \<open>
  \<open>ks_acl.c\<close>: lists of networks with an allow or deny decision, and the check of an address against a
  list or against a single network in CIDR notation.

  A \<open>ks_ip_t\<close> is the union of a 32-bit IPv4 address and the 16 bytes of an IPv6 address; it is
  modelled by its 16 bytes, \<open>v4\<close> being their first four read in the machine's (little-endian) order.
  Strings are given by their bytes without the NUL. \<open>inet_pton\<close> is an argument (\<open>pton4\<close>, \<open>pton6\<close>):
  it returns the address bytes in network order, or \<^const>\<open>None\<close> for a text it rejects, in which case
  the code goes on with what the union held. The bytes of an uninitialised union are arguments
  (\<open>junk\<close>), and so is \<open>sh32\<close>, the value the machine gives \<open>0xFFFFFFFF >> 32\<close>, which C leaves undefined.
  Allocations succeed, memory of the pool is zeroed.
\<close>

record net_env =
  pton4 :: "mem \<Rightarrow> mem option"
  pton6 :: "mem \<Rightarrow> mem option"
  sh32 :: u32

section \<open>Addresses\<close>

type_synonym ks_ip = mem

definition v4 :: "ks_ip \<Rightarrow> u32" where
  "v4 ip = word_of_int (le_val (take 4 ip))"

definition set_v4 :: "u32 \<Rightarrow> ks_ip \<Rightarrow> ks_ip" where
  "set_v4 w ip = le_bytes 4 (ucast w) @ drop 4 ip"

text \<open>\<open>htonl\<close> and \<open>ntohl\<close> both reverse the four bytes.\<close>

definition htonl :: "u32 \<Rightarrow> u32" where
  "htonl w = word_of_int (le_val (rev (le_bytes 4 (ucast w))))"

definition inet_pton4 :: "net_env \<Rightarrow> mem \<Rightarrow> ks_ip \<Rightarrow> ks_ip" where
  "inet_pton4 env s ip = (case pton4 env s of None \<Rightarrow> ip | Some b \<Rightarrow> blit 0 b ip)"

definition inet_pton6 :: "net_env \<Rightarrow> mem \<Rightarrow> ks_ip \<Rightarrow> ks_ip" where
  "inet_pton6 env s ip = (case pton6 env s of None \<Rightarrow> ip | Some b \<Rightarrow> blit 0 b ip)"

text \<open>The macro \<open>ks_test_subnet\<close> and the function \<open>ks_testv6_subnet\<close>.\<close>

definition ks_test_subnet :: "u32 \<Rightarrow> u32 \<Rightarrow> u32 \<Rightarrow> bool" where
  "ks_test_subnet ip net msk =
     (if msk \<noteq> 0 then (net AND msk) = (ip AND msk) else if net \<noteq> 0 then net = ip else True)"

definition v6_and :: "ks_ip \<Rightarrow> ks_ip \<Rightarrow> ks_ip" where
  "v6_and ip msk = map2 (AND) ip msk"

definition v6_unspecified :: "ks_ip \<Rightarrow> bool" where
  "v6_unspecified ip = (\<forall>b\<in>set ip. b = 0)"

definition ks_testv6_subnet :: "ks_ip \<Rightarrow> ks_ip \<Rightarrow> ks_ip \<Rightarrow> bool" where
  "ks_testv6_subnet ip net msk =
     (if \<not> v6_unspecified msk then v6_and net msk = v6_and ip msk
      else if \<not> v6_unspecified net then net = ip else True)"

section \<open>Networks in CIDR notation\<close>

text \<open>
  \<open>atoi\<close>: white space, a sign, decimal digits; the value is cut to \<open>long\<close> as \<open>strtol\<close> does and then
  converted to \<open>int\<close>.
\<close>

fun dec_digits :: "int \<Rightarrow> mem \<Rightarrow> int" where
  "dec_digits acc [] = acc"
| "dec_digits acc (c # s) =
     (if 48 \<le> c \<and> c \<le> 57 then dec_digits (acc * 10 + (uint c - 48)) s else acc)"

definition atoi :: "mem \<Rightarrow> int" where
  "atoi s =
     (let t = dropWhile is_space s;
          v = (case t of [] \<Rightarrow> 0
               | c # r \<Rightarrow> if c = 45 then - dec_digits 0 r else if c = 43 then dec_digits 0 r
                          else dec_digits 0 t)
      in sint (word_of_int (max (- (2 ^ 63)) (min (2 ^ 63 - 1) v)) :: u32))"

text \<open>The mask bytes of an IPv6 network: \<open>k\<close> bytes to fill, \<open>n\<close> bits left.\<close>

fun v6_mask :: "nat \<Rightarrow> nat \<Rightarrow> mem" where
  "v6_mask 0 n = []"
| "v6_mask (Suc k) n =
     (if 8 \<le> n then 255 # v6_mask k (n - 8) else (255 AND NOT (drop_bit n 255)) # v6_mask k 0)"

text \<open>\<open>0xFFFFFFFF >> bits\<close>: undefined in C for 32 bits.\<close>

definition shr_ones :: "net_env \<Rightarrow> nat \<Rightarrow> u32" where
  "shr_ones env n = (if n < 32 then drop_bit n 0xFFFFFFFF else sh32 env)"

text \<open>
  \<open>ks_parse_cidr\<close> returns the code 0 with the address, the mask and the bits stored, or a negative
  code with the targets unchanged. \<open>host\<close> is a buffer of 128 bytes.
\<close>

definition ks_parse_cidr ::
  "net_env \<Rightarrow> mem \<Rightarrow> mem \<Rightarrow> ks_ip \<Rightarrow> ks_ip \<Rightarrow> u32 \<Rightarrow> (int \<times> ks_ip \<times> ks_ip \<times> u32) option" where
  "ks_parse_cidr env hostbuf s ip msk bitp =
     do { copied \<leftarrow> ks_copy_string (Some hostbuf) (Some (s @ [0])) (128 - 1);
          (e, buf) \<leftarrow> copied;
          host0 \<leftarrow> c_str buf;
          if 47 \<notin> set host0 then Some (-1, ip, msk, bitp)
          else do {
            let host = takeWhile (\<lambda>c. c \<noteq> 47) host0;
            let bit_str = drop (length host + 1) host0;
            let bits = atoi bit_str;
            if 58 \<in> set s then
              (if bits < 0 \<or> 128 < bits then Some (-2, ip, msk, bitp)
               else Some (0, inet_pton6 env host ip, v6_mask 16 (nat bits), word_of_int bits))
            else
              (if bits < 0 \<or> 32 < bits then Some (-2, ip, msk, bitp)
               else let ip' = inet_pton4 env host ip in
                 Some (0, set_v4 (htonl (v4 ip')) ip',
                       set_v4 (0xFFFFFFFF AND NOT (shr_ones env (nat bits))) msk, word_of_int bits)) } }"

definition mapped_prefix :: mem where
  "mapped_prefix = map of_char ''::ffff:''"

definition ks_network_ipv4_mapped_ipv6_addr :: "mem \<Rightarrow> mem option" where
  "ks_network_ipv4_mapped_ipv6_addr s =
     (if map tolower_byte (take 7 s) \<noteq> mapped_prefix then None else Some (drop 7 s))"

section \<open>Network lists\<close>

datatype family = AF_UNSPEC | AF_INET | AF_INET6

record ks_network_node =
  nip :: ks_ip
  nmask :: ks_ip
  nbits :: u32
  nfamily :: family
  nok :: bool
  ntoken :: "mem option"
  nstr :: mem

text \<open>The chain of nodes from \<open>node_head\<close> on is a list.\<close>

record ks_network_list =
  node_head :: "ks_network_node list"
  default_type :: bool
  list_name :: mem

definition ks_network_list_create :: "mem \<Rightarrow> bool \<Rightarrow> ks_status \<times> ks_network_list" where
  "ks_network_list_create name dflt =
     (KS_STATUS_SUCCESS, \<lparr>node_head = [], default_type = dflt, list_name = name\<rparr>)"

text \<open>
  The loop over the nodes: \<open>hit\<close> tells whether a node is looked at and matches, \<open>tok\<close> is what the
  token argument points to (\<^const>\<open>None\<close> when it is NULL).
\<close>

fun validate_loop ::
  "(ks_network_node \<Rightarrow> bool) \<Rightarrow> ks_network_node list \<Rightarrow> bool \<Rightarrow> u32 \<Rightarrow> mem option option
    \<Rightarrow> bool \<times> mem option option" where
  "validate_loop hit [] ok bits tok = (ok, tok)"
| "validate_loop hit (n # ns) ok bits tok =
     (if bits \<le> nbits n \<and> hit n
      then validate_loop hit ns (nok n) (nbits n) (map_option (\<lambda>_. ntoken n) tok)
      else validate_loop hit ns ok bits tok)"

definition ks_network_list_validate_ip6_token ::
  "ks_network_list \<Rightarrow> ks_ip \<Rightarrow> mem option option \<Rightarrow> bool \<times> mem option option" where
  "ks_network_list_validate_ip6_token l ip tok =
     validate_loop (\<lambda>n. nfamily n \<noteq> AF_INET \<and> ks_testv6_subnet ip (nip n) (nmask n))
       (node_head l) (default_type l) 0 tok"

definition ks_network_list_validate_ip_token ::
  "ks_network_list \<Rightarrow> u32 \<Rightarrow> mem option option \<Rightarrow> bool \<times> mem option option" where
  "ks_network_list_validate_ip_token l ip tok =
     validate_loop (\<lambda>n. nfamily n \<noteq> AF_INET6 \<and> ks_test_subnet ip (v4 (nip n)) (v4 (nmask n)))
       (node_head l) (default_type l) 0 tok"

text \<open>
  \<open>ks_network_list_perform_add_cidr_token\<close>: \<open>uninit\<close> holds the uninitialised \<open>host\<close> buffer, \<open>ip\<close> and
  \<open>mask\<close>.
\<close>

definition ks_network_list_perform_add_cidr_token ::
  "net_env \<Rightarrow> mem \<times> ks_ip \<times> ks_ip \<Rightarrow> ks_network_list \<Rightarrow> mem \<Rightarrow> bool \<Rightarrow> mem option
    \<Rightarrow> (ks_status \<times> ks_network_list) option" where
  "ks_network_list_perform_add_cidr_token env uninit l cidr_str0 ok token =
     (let (hostbuf, ip0, mask0) = uninit;
          cidr_str = (case ks_network_ipv4_mapped_ipv6_addr cidr_str0 of
                        None \<Rightarrow> cidr_str0 | Some s \<Rightarrow> s)
      in do { (rc, ip, msk, bits) \<leftarrow> ks_parse_cidr env hostbuf cidr_str ip0 mask0 0;
              if rc \<noteq> 0 then Some (KS_STATUS_GENERR, l)
              else do {
                let node = \<lparr>nip = ip, nmask = msk, nbits = bits,
                            nfamily = (if 58 \<in> set cidr_str then AF_INET6 else AF_INET), nok = ok,
                            ntoken = (if token = None \<or> token = Some [] then None else token),
                            nstr = cidr_str\<rparr>;
                Some (KS_STATUS_SUCCESS, l\<lparr>node_head := node # node_head l\<rparr>) } })"

fun add_cidr_loop ::
  "net_env \<Rightarrow> mem \<times> ks_ip \<times> ks_ip \<Rightarrow> mem list \<Rightarrow> bool \<Rightarrow> mem option \<Rightarrow> ks_status \<Rightarrow> ks_network_list
    \<Rightarrow> (ks_status \<times> ks_network_list) option" where
  "add_cidr_loop env uninit [] ok token status l = Some (status, l)"
| "add_cidr_loop env uninit (a # as) ok token status l =
     do { (this_status, l') \<leftarrow> ks_network_list_perform_add_cidr_token env uninit l a ok token;
          add_cidr_loop env uninit as ok token
            (if this_status \<noteq> KS_STATUS_SUCCESS then this_status else status) l' }"

fun strings_at :: "mem \<Rightarrow> nat list \<Rightarrow> mem list option" where
  "strings_at buf [] = Some []"
| "strings_at buf (p # ps) = do { s \<leftarrow> str_at buf p; ss \<leftarrow> strings_at buf ps; Some (s # ss) }"

definition ks_network_list_add_cidr_token ::
  "net_env \<Rightarrow> mem \<times> ks_ip \<times> ks_ip \<Rightarrow> ks_network_list \<Rightarrow> mem \<Rightarrow> bool \<Rightarrow> mem option
    \<Rightarrow> (ks_status \<times> ks_network_list) option" where
  "ks_network_list_add_cidr_token env uninit l cidr_str ok token =
     (if 44 \<in> set cidr_str then
        do { (argv, buf) \<leftarrow> ks_separate_string (Some (cidr_str @ [0])) 44 32;
             args \<leftarrow> strings_at (the buf) argv;
             add_cidr_loop env uninit args ok token KS_STATUS_SUCCESS l }
      else ks_network_list_perform_add_cidr_token env uninit l cidr_str ok token)"

text \<open>The bit count of \<open>ks_network_list_add_host_mask\<close>, on the mask in network order.\<close>

definition count_bits :: "u32 \<Rightarrow> u32" where
  "count_bits w =
     (let m = w - (drop_bit 1 w AND 0x55555555);
          m = (m AND 0x33333333) + (drop_bit 2 m AND 0x33333333)
      in drop_bit 24 (((m + drop_bit 4 m) AND 0xF0F0F0F) * 0x1010101))"

text \<open>The node of a host mask comes zeroed from the pool; its family is not set.\<close>

definition ks_network_list_add_host_mask ::
  "net_env \<Rightarrow> ks_ip \<times> ks_ip \<Rightarrow> ks_network_list \<Rightarrow> mem \<Rightarrow> mem \<Rightarrow> bool \<Rightarrow> ks_status \<times> ks_network_list" where
  "ks_network_list_add_host_mask env uninit l host mask_str ok =
     (let ip = inet_pton4 env host (fst uninit);
          msk = inet_pton4 env mask_str (snd uninit);
          zero = replicate 16 0;
          node = \<lparr>nip = set_v4 (htonl (v4 ip)) zero, nmask = set_v4 (htonl (v4 msk)) zero,
                  nbits = count_bits (v4 msk), nfamily = AF_UNSPEC, nok = ok, ntoken = None,
                  nstr = host @ [58] @ mask_str\<rparr>
      in (KS_STATUS_SUCCESS, l\<lparr>node_head := node # node_head l\<rparr>))"

section \<open>Checks\<close>

text \<open>The address of a text: \<open>True\<close> with the IPv6 bytes, or \<open>False\<close> with \<open>v4\<close> in host order.\<close>

definition check_ip :: "net_env \<Rightarrow> ks_ip \<Rightarrow> mem \<Rightarrow> bool \<times> ks_ip" where
  "check_ip env ip0 s =
     (let (s', v6) = (case ks_network_ipv4_mapped_ipv6_addr s of
                        Some t \<Rightarrow> (t, False) | None \<Rightarrow> (s, 58 \<in> set s))
      in if v6 then (True, inet_pton6 env s' ip0)
         else let ip = inet_pton4 env s' ip0 in (False, set_v4 (htonl (v4 ip)) ip))"

definition ks_check_network_list_ip_cidr ::
  "net_env \<Rightarrow> mem \<times> ks_ip \<times> ks_ip \<times> ks_ip \<Rightarrow> mem \<Rightarrow> mem \<Rightarrow> bool option" where
  "ks_check_network_list_ip_cidr env uninit ip_str cidr_str =
     (let (hostbuf, ip0, net0, mask0) = uninit;
          (v6, ip) = check_ip env ip0 ip_str
      in do { (rc, net, msk, bits) \<leftarrow> ks_parse_cidr env hostbuf cidr_str net0 mask0 0;
              Some (if rc \<noteq> 0 then False
                    else if v6 then ks_testv6_subnet ip net msk
                    else ks_test_subnet (v4 ip) (v4 net) (v4 msk)) })"

definition ks_check_network_list_ip_token ::
  "net_env \<Rightarrow> ks_ip \<Rightarrow> mem \<Rightarrow> ks_network_list \<Rightarrow> mem option option \<Rightarrow> bool \<times> mem option option" where
  "ks_check_network_list_ip_token env ip0 ip_str l tok =
     (let (v6, ip) = check_ip env ip0 ip_str
      in if v6 then ks_network_list_validate_ip6_token l ip tok
         else ks_network_list_validate_ip_token l (v4 ip) tok)"

end
