(* ===== verification/Ks_Acl_Props.thy ===== *)
theory Ks_Acl_Props
  imports Ks_Acl Ks_String_Props
begin

text \<open>
  Correctness of the access lists: the CIDR text is parsed as written, the masks select the upper bits,
  so that a check compares prefixes, and a list decides by its most specific matching network.
\<close>

section \<open>Parsing\<close>

lemma dec_digits_append:
  "\<forall>c\<in>set s. 48 \<le> c \<and> c \<le> 57 \<Longrightarrow> dec_digits acc (s @ t) = dec_digits (dec_digits acc s) t"
  by (induction s arbitrary: acc) auto

lemma dec_char:
  assumes "k < 10"
  shows "of_char (char_of (48 + k) :: char) = (word_of_nat (48 + k) :: byte)"
    and "48 \<le> (word_of_nat (48 + k) :: byte)" "(word_of_nat (48 + k) :: byte) \<le> 57"
    and "uint (word_of_nat (48 + k) :: byte) - 48 = int k"
proof -
  have "(of_char (char_of (48 + k) :: char) :: byte) = of_nat (of_char (char_of (48 + k) :: char))"
    by (simp only: of_nat_of_char)
  also have "(of_char (char_of (48 + k) :: char) :: nat) = 48 + k"
    using assms by (simp only: of_char_of) simp
  finally show "of_char (char_of (48 + k) :: char) = (word_of_nat (48 + k) :: byte)" .
  have u: "unat (word_of_nat (48 + k) :: byte) = 48 + k"
    using assms unfolding unat_of_nat by (simp add: take_bit_nat_eq_self)
  then show "48 \<le> (word_of_nat (48 + k) :: byte)" "(word_of_nat (48 + k) :: byte) \<le> 57"
    using assms unfolding word_le_nat_alt by simp_all
  have "uint (word_of_nat (48 + k) :: byte) = int (unat (word_of_nat (48 + k) :: byte))" by (rule uint_nat)
  then have "uint (word_of_nat (48 + k) :: byte) = int (48 + k)" unfolding u .
  then show "uint (word_of_nat (48 + k) :: byte) - 48 = int k" by linarith
qed

lemma dec_string_digits:
  "(\<forall>c\<in>set (map of_char (dec_string n) :: mem). 48 \<le> c \<and> c \<le> 57)
   \<and> dec_digits 0 (map of_char (dec_string n)) = int n \<and> dec_string n \<noteq> []"
proof (induction n rule: dec_string.induct)
  case (1 n)
  show ?case
  proof (cases "n < 10")
    case True
    then show ?thesis by (simp add: dec_string.simps [of n] dec_char del: of_nat_add)
  next
    case False
    have m: "n mod 10 < 10" by simp
    have "int n = int (n div 10) * 10 + int (n mod 10)"
      by (metis div_mult_mod_eq of_nat_add of_nat_mult of_nat_numeral)
    with False 1 show ?thesis
      by (simp add: dec_string.simps [of n] dec_char [OF m] dec_digits_append ball_Un del: of_nat_add of_nat_mod)
  qed
qed

lemma atoi_dec_string: "n < 2 ^ 31 \<Longrightarrow> atoi (map of_char (dec_string n)) = int n"
proof -
  assume n: "n < 2 ^ 31"
  let ?s = "map of_char (dec_string n) :: mem"
  obtain c r where s: "?s = c # r" using dec_string_digits [of n] by (cases ?s) auto
  then have c: "48 \<le> c" "c \<le> 57" using dec_string_digits [of n] by auto
  then have "\<not> is_space c" "c \<noteq> 45" "c \<noteq> 43"
    by (auto simp: is_space_def word_le_nat_alt)
  then have "dropWhile is_space ?s = ?s" unfolding s by simp
  moreover have "dec_digits 0 ?s = int n" using dec_string_digits [of n] by simp
  moreover have "sint (word_of_int (int n) :: u32) = int n"
    using n by (simp add: signed_of_nat signed_take_bit_int_eq_self_iff)
  ultimately show ?thesis using s n \<open>c \<noteq> 45\<close> \<open>c \<noteq> 43\<close> by (simp add: atoi_def min_def max_def)
qed

section \<open>Addresses and masks\<close>

definition be32 :: "mem \<Rightarrow> u32" where
  "be32 b = word_of_int (le_val (rev b))"

lemma le_bytes_word: "length b = 4 \<Longrightarrow> le_bytes 4 (ucast (word_of_int (le_val b) :: u32)) = b"
proof -
  assume b: "length b = 4"
  have v: "0 \<le> le_val b" "le_val b < 2 ^ 32" using le_val_bounds [of b] b by simp_all
  then have "uint (ucast (word_of_int (le_val b) :: u32) :: u64) = le_val b"
    by (simp add: unsigned_ucast_eq uint_word_of_int take_bit_int_eq_self)
  then have "le_val (le_bytes 4 (ucast (word_of_int (le_val b) :: u32))) = le_val b"
    using v by (simp add: le_val_bytes take_bit_int_eq_self)
  moreover have "length (le_bytes 4 x) = length b" for x using b by (simp add: le_bytes_def)
  ultimately show ?thesis by (intro le_val_inj) auto
qed

lemma v4_set_v4 [simp]: "v4 (set_v4 w ip) = w"
proof -
  have "uint (ucast w :: u64) = uint w" by transfer simp
  then have "le_val (le_bytes 4 (ucast w)) = uint w"
    using uint_lt2p [of w] by (simp add: le_val_bytes take_bit_int_eq_self)
  then show ?thesis by (simp add: v4_def set_v4_def le_bytes_def)
qed

lemma v4_pton4:
  assumes "pton4 env s = Some b" "length b = 4"
  shows "htonl (v4 (inet_pton4 env s ip)) = be32 b"
  using assms by (simp add: inet_pton4_def v4_def blit_def htonl_def le_bytes_word be32_def)

lemma and_mask_eq:
  fixes x y m :: "'a :: len word"
  assumes "\<And>i. i < LENGTH('a) \<Longrightarrow> bit m i \<longleftrightarrow> LENGTH('a) - n \<le> i"
  shows "x AND m = y AND m \<longleftrightarrow> drop_bit (LENGTH('a) - n) x = drop_bit (LENGTH('a) - n) y"
proof
  assume e: "x AND m = y AND m"
  show "drop_bit (LENGTH('a) - n) x = drop_bit (LENGTH('a) - n) y"
  proof (rule bit_word_eqI)
    fix i assume "i < LENGTH('a)"
    have "bit (x AND m) (LENGTH('a) - n + i) = bit (y AND m) (LENGTH('a) - n + i)" by (simp add: e)
    then show "bit (drop_bit (LENGTH('a) - n) x) i = bit (drop_bit (LENGTH('a) - n) y) i"
      using assms [of "LENGTH('a) - n + i"] by (auto simp: bit_simps dest: bit_imp_le_length)
  qed
next
  assume e: "drop_bit (LENGTH('a) - n) x = drop_bit (LENGTH('a) - n) y"
  show "x AND m = y AND m"
  proof (rule bit_word_eqI)
    fix i assume i: "i < LENGTH('a)"
    have "bit x i = bit y i" if "LENGTH('a) - n \<le> i"
      using arg_cong [OF e, of "\<lambda>w. bit w (i - (LENGTH('a) - n))"] that by (simp add: bit_simps)
    then show "bit (x AND m) i = bit (y AND m) i" using assms [OF i] by (auto simp: bit_simps)
  qed
qed

text \<open>The mask of \<open>n\<close> bits: its set bits are the upper \<open>n\<close>.\<close>

lemma mask32_bits:
  assumes "i < 32" "n < 32"
  shows "bit (0xFFFFFFFF AND NOT (drop_bit n 0xFFFFFFFF) :: u32) i \<longleftrightarrow> 32 - n \<le> i"
proof -
  have e: "(0xFFFFFFFF :: u32) = - 1" by simp
  show ?thesis unfolding e using assms by (auto simp: bit_simps)
qed

lemma mask8_bits:
  assumes "i < 8" "n < 8"
  shows "bit (255 AND NOT (drop_bit n 255) :: byte) i \<longleftrightarrow> 8 - n \<le> i"
proof -
  have e: "(255 :: byte) = - 1" by simp
  show ?thesis unfolding e using assms by (auto simp: bit_simps)
qed

lemma test_subnet_prefix:
  assumes "1 \<le> n" "n \<le> 32" "n = 32 \<Longrightarrow> net \<noteq> 0" "sh32 env = 0 \<or> sh32 env = 0xFFFFFFFF"
  shows "ks_test_subnet ip net (0xFFFFFFFF AND NOT (shr_ones env n)) \<longleftrightarrow>
    drop_bit (32 - n) ip = drop_bit (32 - n) net"
proof (cases "n = 32")
  case True
  have "(0xFFFFFFFF :: u32) AND NOT 0 = 0xFFFFFFFF" "(0xFFFFFFFF :: u32) AND NOT 0xFFFFFFFF = 0" by simp_all
  moreover have "w AND 0xFFFFFFFF = (w :: u32)" for w
  proof -
    have e: "(0xFFFFFFFF :: u32) = - 1" by simp
    show ?thesis unfolding e by simp
  qed
  ultimately show ?thesis using True assms by (auto simp: ks_test_subnet_def shr_ones_def)
next
  case False
  let ?m = "0xFFFFFFFF AND NOT (drop_bit n 0xFFFFFFFF) :: u32"
  have n: "n < 32" using False assms(2) by simp
  have "bit ?m 31" using mask32_bits [of 31 n] n assms(1) by auto
  then have "?m \<noteq> 0" by (metis bit_0_eq bot_apply bot_bool_def)
  then show ?thesis using and_mask_eq [of ?m n net ip] mask32_bits n
    by (auto simp: ks_test_subnet_def shr_ones_def)
qed


text \<open>The bits of an IPv6 address, the most significant one first.\<close>

definition byte_bits :: "byte \<Rightarrow> bool list" where
  "byte_bits b = map (\<lambda>i. bit b (7 - i)) [0 ..< 8]"

definition ip_bits :: "ks_ip \<Rightarrow> bool list" where
  "ip_bits ip = concat (map byte_bits ip)"

lemma length_byte_bits [simp]: "length (byte_bits b) = 8"
  by (simp add: byte_bits_def)

lemma take_byte_bits:
  assumes "n \<le> 8"
  shows "take n (byte_bits a) = take n (byte_bits b) \<longleftrightarrow> drop_bit (8 - n) a = drop_bit (8 - n) b"
proof -
  have "take n (byte_bits a) = take n (byte_bits b) \<longleftrightarrow> (\<forall>i<n. bit a (7 - i) = bit b (7 - i))"
    using assms by (auto simp: list_eq_iff_nth_eq byte_bits_def simp del: upt_rec_numeral)
  also have "\<dots> \<longleftrightarrow> (\<forall>j<8. 8 - n \<le> j \<longrightarrow> bit a j = bit b j)"
  proof safe
    fix j assume "\<forall>i<n. bit a (7 - i) = bit b (7 - i)" and j: "j < 8" "8 - n \<le> j" 
    moreover have "7 - j < n" "7 - (7 - j) = j" using j assms by linarith+
    ultimately have "bit a j = bit b j" by metis
    then show "bit a j \<Longrightarrow> bit b j" "bit b j \<Longrightarrow> bit a j" by simp_all
  next
    fix i assume "\<forall>j<8. 8 - n \<le> j \<longrightarrow> bit a j = bit b j" and i: "i < n"
    moreover have "7 - i < 8" "8 - n \<le> 7 - i" using i by linarith+
    ultimately have "bit a (7 - i) = bit b (7 - i)" by metis
    then show "bit a (7 - i) \<Longrightarrow> bit b (7 - i)" "bit b (7 - i) \<Longrightarrow> bit a (7 - i)" by simp_all
  qed
  also have "\<dots> \<longleftrightarrow> drop_bit (8 - n) a = drop_bit (8 - n) b"
  proof
    assume e: "\<forall>j<8. 8 - n \<le> j \<longrightarrow> bit a j = bit b j"
    show "drop_bit (8 - n) a = drop_bit (8 - n) b"
    proof (rule bit_word_eqI)
      fix i assume "i < LENGTH(8)"
      show "bit (drop_bit (8 - n) a) i = bit (drop_bit (8 - n) b) i"
        using e [rule_format, of "8 - n + i"] by (cases "8 - n + i < 8") (auto simp: bit_simps dest: bit_imp_le_length)
    qed
  next
    assume e: "drop_bit (8 - n) a = drop_bit (8 - n) b"
    show "\<forall>j<8. 8 - n \<le> j \<longrightarrow> bit a j = bit b j"
    proof (intro allI impI)
      fix j assume "j < 8" "8 - n \<le> j"
      then show "bit a j = bit b j"
        using arg_cong [OF e, of "\<lambda>w. bit w (j - (8 - n))"] by (simp add: bit_simps)
    qed
  qed
  finally show ?thesis .
qed

lemma v6_mask_prefix:
  "length x = k \<Longrightarrow> length y = k \<Longrightarrow>
   v6_and x (v6_mask k n) = v6_and y (v6_mask k n) \<longleftrightarrow> take n (ip_bits x) = take n (ip_bits y)"
proof (induction k arbitrary: n x y)
  case 0
  then show ?case by simp
next
  case (Suc k)
  obtain a x' b y' where xy: "x = a # x'" "y = b # y'" "length x' = k" "length y' = k"
    using Suc.prems by (cases x; cases y) auto
  show ?case
  proof (cases "8 \<le> n")
    case True
    have e: "w AND 255 = w" for w :: byte
    proof -
      have e: "(255 :: byte) = - 1" by simp
      show ?thesis unfolding e by simp
    qed
    have "byte_bits a = byte_bits b \<longleftrightarrow> a = b" using take_byte_bits [of 8 a b] by simp
    then show ?thesis using True Suc.IH [OF xy(3,4), of "n - 8"]
      by (auto simp: v6_and_def ip_bits_def xy e)
  next
    case False
    let ?m = "255 AND NOT (drop_bit n 255) :: byte"
    have "a AND ?m = b AND ?m \<longleftrightarrow> take n (byte_bits a) = take n (byte_bits b)"
      using and_mask_eq [of ?m n a b] mask8_bits [of _ n] take_byte_bits [of n a b] False by simp
    then show ?thesis using False Suc.IH [OF xy(3,4), of 0]
      by (auto simp: v6_and_def ip_bits_def xy)
  qed
qed

lemma testv6_prefix:
  assumes "1 \<le> n" "length ip = 16" "length net = 16"
  shows "ks_testv6_subnet ip net (v6_mask 16 n) \<longleftrightarrow> take n (ip_bits ip) = take n (ip_bits net)"
proof -
  note m = v6_mask.simps(2) [of 15 n]
  have "\<not> v6_unspecified (v6_mask 16 n)"
  proof (cases "8 \<le> n")
    case True
    with m show ?thesis by (simp add: v6_unspecified_def)
  next
    case False
    then have "bit (255 AND NOT (drop_bit n 255) :: byte) 7" using assms(1) mask8_bits [of 7 n] by auto
    then have "(255 AND NOT (drop_bit n 255) :: byte) \<noteq> 0" by (metis bit_0_eq bot_apply bot_bool_def)
    with False m show ?thesis by (simp add: v6_unspecified_def)
  qed
  then have "ks_testv6_subnet ip net (v6_mask 16 n) \<longleftrightarrow> v6_and net (v6_mask 16 n) = v6_and ip (v6_mask 16 n)"
    by (simp add: ks_testv6_subnet_def)
  also have "\<dots> \<longleftrightarrow> take n (ip_bits net) = take n (ip_bits ip)" by (rule v6_mask_prefix [OF assms(3,2)])
  finally show ?thesis by (simp only: eq_commute)
qed

section \<open>Networks in CIDR notation\<close>

definition cidr_text :: "mem \<Rightarrow> nat \<Rightarrow> mem" where
  "cidr_text host n = host @ 47 # map of_char (dec_string n)"

lemma ks_parse_cidr_text:
  assumes host: "0 \<notin> set host" "47 \<notin> set host" "length (cidr_text host n) \<le> 126" "length hostbuf = 128"
    and n: "n \<le> 128"
  shows "ks_parse_cidr env hostbuf (cidr_text host n) ip msk bitp = Some (
    if 58 \<in> set host then (0, inet_pton6 env host ip, v6_mask 16 n, word_of_nat n)
    else if 32 < n then (-2, ip, msk, bitp)
    else (0, set_v4 (htonl (v4 (inet_pton4 env host ip))) (inet_pton4 env host ip),
          set_v4 (0xFFFFFFFF AND NOT (shr_ones env n)) msk, word_of_nat n))"
proof -
  let ?s = "cidr_text host n" and ?d = "map of_char (dec_string n) :: mem"
  have dig: "\<forall>c\<in>set ?d. 48 \<le> c \<and> c \<le> 57" using dec_string_digits [of n] by blast
  then have no: "0 \<notin> set ?d" "58 \<notin> set ?d" by (auto simp: word_le_nat_alt)
  obtain e buf where cp: "ks_copy_string (Some hostbuf) (Some (?s @ [0])) (128 - 1) = Some (Some (e, buf))"
      "c_str buf = Some (take 126 ?s)"
    using ks_copy_string_copies [of "?s @ [0]" ?s 127 hostbuf] c_str_append [of ?s "[]"] host no
    by (auto simp: cidr_text_def)
  have "take 126 ?s = ?s" using host(3) by simp
  moreover have "takeWhile (\<lambda>c. c \<noteq> 47) ?s = host" using host(2) by (auto simp: cidr_text_def takeWhile_append)
  moreover have "drop (length host + 1) ?s = ?d" by (simp add: cidr_text_def)
  moreover have "atoi ?d = int n" using n by (intro atoi_dec_string) simp
  moreover have "58 \<in> set ?s \<longleftrightarrow> 58 \<in> set host" "47 \<in> set ?s" using no by (simp_all add: cidr_text_def)
  ultimately show ?thesis using cp n by (simp add: ks_parse_cidr_def Let_def)
qed

lemma check_ip_v4:
  assumes "58 \<notin> set s" "pton4 env s = Some a" "length a = 4"
  shows "\<exists>ip. check_ip env ip0 s = (False, ip) \<and> v4 ip = be32 a"
proof -
  have "58 \<in> set mapped_prefix" by (simp add: mapped_prefix_def)
  moreover have "58 \<notin> set (map tolower_byte (take 7 s))"
  proof
    assume "58 \<in> set (map tolower_byte (take 7 s))"
    then obtain c where c: "c \<in> set s" "tolower_byte c = 58" by (auto dest: in_set_takeD)
    have "c = 58"
    proof (cases "65 \<le> c \<and> c \<le> 90")
      case True
      then have "c + 32 = 58" "65 \<le> unat c" "unat c \<le> 90" using c(2) by (simp_all add: tolower_byte_def word_le_nat_alt)
      moreover have "unat (c + 32) = unat c + 32" using \<open>unat c \<le> 90\<close> by (simp add: unat_word_ariths)
      ultimately show ?thesis by simp
    qed (use c in \<open>auto simp: tolower_byte_def split: if_splits\<close>)
    with c assms(1) show False by simp
  qed
  ultimately have "map tolower_byte (take 7 s) \<noteq> mapped_prefix" by metis
  then have "ks_network_ipv4_mapped_ipv6_addr s = None"
    by (simp add: ks_network_ipv4_mapped_ipv6_addr_def)
  then show ?thesis using assms v4_pton4 [OF assms(2,3)] by (simp add: check_ip_def Let_def)
qed

text \<open>
  C30: An IPv4 address matches a network \<open>a.b.c.d/n\<close> with \<open>n\<close> from 1 to 32 exactly when its upper \<open>n\<close> bits
  are those of the network, whatever the uninitialised locals held, with three provisos: the shift of
  \<open>0xFFFFFFFF\<close> by 32, which C leaves undefined and \<open>n = 32\<close> needs, gives 0 or \<open>0xFFFFFFFF\<close> (\<open>sh32\<close>), the
  network is not 0.0.0.0/32, and its text has at most 126 characters, the size of the copy.
\<close>

theorem ks_acl_cidr_v4:
  assumes "58 \<notin> set ip_s" "pton4 env ip_s = Some a" "length a = 4"
    and "58 \<notin> set net_s" "pton4 env net_s = Some b" "length b = 4"
    and "0 \<notin> set net_s" "47 \<notin> set net_s" "length (cidr_text net_s n) \<le> 126" "length hostbuf = 128"
    and "1 \<le> n" "n \<le> 32" "n = 32 \<Longrightarrow> be32 b \<noteq> 0" "sh32 env = 0 \<or> sh32 env = 0xFFFFFFFF"
  shows "ks_check_network_list_ip_cidr env (hostbuf, ip0, net0, msk0) ip_s (cidr_text net_s n) =
    Some (drop_bit (32 - n) (be32 a) = drop_bit (32 - n) (be32 b))"
proof -
  obtain ip where ip: "check_ip env ip0 ip_s = (False, ip)" "v4 ip = be32 a"
    using check_ip_v4 [OF assms(1-3)] by blast
  show ?thesis
    using ip ks_parse_cidr_text [of net_s n hostbuf env net0 msk0 0] assms(4-12)
      test_subnet_prefix [OF assms(11-14), of "be32 a"] v4_pton4 [OF assms(5,6)]
    by (simp add: ks_check_network_list_ip_cidr_def)
qed

definition demo_net :: net_env where
  "demo_net = \<lparr>pton4 = (\<lambda>s. if length s = 4 then Some s else None),
               pton6 = (\<lambda>s. if length s = 17 then Some (take 16 s) else None), sh32 = 0xFFFFFFFF\<rparr>"

theorem ks_acl_cidr_v4_witness:
  "ks_check_network_list_ip_cidr demo_net (replicate 128 0, replicate 16 0, replicate 16 0, replicate 16 0)
     [10, 1, 9, 9] (cidr_text [10, 1, 2, 3] 16) = Some True
   \<and> ks_check_network_list_ip_cidr demo_net (replicate 128 0, replicate 16 0, replicate 16 0, replicate 16 0)
     [10, 3, 9, 9] (cidr_text [10, 1, 2, 3] 16) = Some False
   \<and> ks_check_network_list_ip_cidr demo_net (replicate 128 0, replicate 16 0, replicate 16 0, replicate 16 0)
     [10, 1, 2, 3] (cidr_text [10, 1, 2, 3] 32) = Some True
   \<and> ks_check_network_list_ip_cidr (demo_net\<lparr>sh32 := 0\<rparr>) (replicate 128 0, replicate 16 0, replicate 16 0, replicate 16 0)
     [10, 1, 2, 4] (cidr_text [10, 1, 2, 3] 32) = Some False"
  using ks_acl_cidr_v4 [of "[10, 1, 9, 9]" demo_net "[10, 1, 9, 9]" "[10, 1, 2, 3]" "[10, 1, 2, 3]" 16
      "replicate 128 0" "replicate 16 0" "replicate 16 0" "replicate 16 0"]
    ks_acl_cidr_v4 [of "[10, 3, 9, 9]" demo_net "[10, 3, 9, 9]" "[10, 1, 2, 3]" "[10, 1, 2, 3]" 16
      "replicate 128 0" "replicate 16 0" "replicate 16 0" "replicate 16 0"]
    ks_acl_cidr_v4 [of "[10, 1, 2, 3]" demo_net "[10, 1, 2, 3]" "[10, 1, 2, 3]" "[10, 1, 2, 3]" 32
      "replicate 128 0" "replicate 16 0" "replicate 16 0" "replicate 16 0"]
    ks_acl_cidr_v4 [of "[10, 1, 2, 4]" "demo_net\<lparr>sh32 := 0\<rparr>" "[10, 1, 2, 4]" "[10, 1, 2, 3]" "[10, 1, 2, 3]" 32
      "replicate 128 0" "replicate 16 0" "replicate 16 0" "replicate 16 0"]
  by (simp add: demo_net_def cidr_text_def dec_string.simps be32_def le_val_simps)

text \<open>
  C31: An IPv6 address that is not an IPv4 address mapped into IPv6 (\<open>::ffff:a.b.c.d\<close>, which the code checks as
  IPv4) matches a network with \<open>n\<close> from 1 to 128, written in at most 126 characters, exactly when its first
  \<open>n\<close> bits are those of the network.
\<close>

theorem ks_acl_cidr_v6:
  assumes "58 \<in> set ip_s" "ks_network_ipv4_mapped_ipv6_addr ip_s = None" "pton6 env ip_s = Some a" "length a = 16"
    and "58 \<in> set net_s" "pton6 env net_s = Some b" "length b = 16"
    and "0 \<notin> set net_s" "47 \<notin> set net_s" "length (cidr_text net_s n) \<le> 126" "length hostbuf = 128"
    and "1 \<le> n" "n \<le> 128" "length ip0 = 16" "length net0 = 16"
  shows "ks_check_network_list_ip_cidr env (hostbuf, ip0, net0, msk0) ip_s (cidr_text net_s n) =
    Some (take n (ip_bits a) = take n (ip_bits b))"
proof -
  have "inet_pton6 env ip_s ip0 = a" "inet_pton6 env net_s net0 = b"
    using assms by (simp_all add: inet_pton6_def blit_def)
  then show ?thesis
    using ks_parse_cidr_text [of net_s n hostbuf env net0 msk0 0] assms testv6_prefix [of n a b]
    by (simp add: ks_check_network_list_ip_cidr_def check_ip_def)
qed

theorem ks_acl_cidr_v6_witness:
  "ks_check_network_list_ip_cidr demo_net (replicate 128 0, replicate 16 0, replicate 16 0, replicate 16 0)
     (58 # 6 # replicate 15 6) (cidr_text (58 # replicate 16 7) 8) = Some True
   \<and> ks_check_network_list_ip_cidr demo_net (replicate 128 0, replicate 16 0, replicate 16 0, replicate 16 0)
     (58 # 6 # replicate 15 6) (cidr_text (58 # replicate 16 7) 16) = Some False"
proof -
  have "byte_bits 6 \<noteq> take 8 (concat (replicate 15 (byte_bits 7)))" by code_simp
  moreover have "ks_network_ipv4_mapped_ipv6_addr (58 # 6 # replicate 15 6) = None"
    by (simp add: ks_network_ipv4_mapped_ipv6_addr_def mapped_prefix_def take_Cons' tolower_byte_def)
  ultimately show ?thesis
    using ks_acl_cidr_v6 [of "58 # 6 # replicate 15 6" demo_net "58 # 6 # replicate 14 6" "58 # replicate 16 7"
        "58 # replicate 15 7" 8 "replicate 128 0" "replicate 16 0" "replicate 16 0" "replicate 16 0"]
      ks_acl_cidr_v6 [of "58 # 6 # replicate 15 6" demo_net "58 # 6 # replicate 14 6" "58 # replicate 16 7"
        "58 # replicate 15 7" 16 "replicate 128 0" "replicate 16 0" "replicate 16 0" "replicate 16 0"]
    by (simp add: demo_net_def cidr_text_def dec_string.simps ip_bits_def)
qed

section \<open>Lists\<close>

text \<open>
  The decision the list makes: that of a node that matches with the largest number of bits, the last
  one of the chain among equals, and the default when no node matches.
\<close>

definition best_match ::
  "(ks_network_node \<Rightarrow> bool) \<Rightarrow> ks_network_node list \<Rightarrow> bool \<Rightarrow> mem option option
    \<Rightarrow> bool \<times> mem option option \<Rightarrow> bool" where
  "best_match hit ns dflt tok res =
     (if \<forall>n\<in>set ns. \<not> hit n then res = (dflt, tok)
      else \<exists>pre n post. ns = pre @ n # post \<and> hit n
        \<and> (\<forall>m\<in>set pre. hit m \<longrightarrow> nbits m \<le> nbits n) \<and> (\<forall>m\<in>set post. hit m \<longrightarrow> nbits m < nbits n)
        \<and> res = (nok n, map_option (\<lambda>_. ntoken n) tok))"

lemma validate_loop_best:
  "(\<forall>m\<in>set ns. hit m \<longrightarrow> nbits m < bits) \<and> validate_loop hit ns ok bits tok = (ok, tok)
   \<or> (\<exists>pre n post. ns = pre @ n # post \<and> hit n \<and> bits \<le> nbits n
        \<and> (\<forall>m\<in>set pre. hit m \<longrightarrow> nbits m \<le> nbits n) \<and> (\<forall>m\<in>set post. hit m \<longrightarrow> nbits m < nbits n)
        \<and> validate_loop hit ns ok bits tok = (nok n, map_option (\<lambda>_. ntoken n) tok))"
proof (induction ns arbitrary: ok bits tok)
  case (Cons k ns)
  show ?case
  proof (cases "bits \<le> nbits k \<and> hit k")
    case True
    then have v: "validate_loop hit (k # ns) ok bits tok =
        validate_loop hit ns (nok k) (nbits k) (map_option (\<lambda>_. ntoken k) tok)" by simp
    from Cons [of "nbits k" "nok k" "map_option (\<lambda>_. ntoken k) tok"] show ?thesis
    proof
      assume none: "(\<forall>m\<in>set ns. hit m \<longrightarrow> nbits m < nbits k) \<and>
        validate_loop hit ns (nok k) (nbits k) (map_option (\<lambda>_. ntoken k) tok)
          = (nok k, map_option (\<lambda>_. ntoken k) tok)"
      with True v show ?thesis by (intro disjI2 exI [of _ "[]"] exI [of _ k] exI [of _ ns]) simp
    next
      assume "\<exists>pre n post. ns = pre @ n # post \<and> hit n \<and> nbits k \<le> nbits n
        \<and> (\<forall>m\<in>set pre. hit m \<longrightarrow> nbits m \<le> nbits n) \<and> (\<forall>m\<in>set post. hit m \<longrightarrow> nbits m < nbits n)
        \<and> validate_loop hit ns (nok k) (nbits k) (map_option (\<lambda>_. ntoken k) tok)
            = (nok n, map_option (\<lambda>_. ntoken n) (map_option (\<lambda>_. ntoken k) tok))"
      then obtain pre n post where e: "ns = pre @ n # post" "hit n" "nbits k \<le> nbits n"
        "\<forall>m\<in>set pre. hit m \<longrightarrow> nbits m \<le> nbits n" "\<forall>m\<in>set post. hit m \<longrightarrow> nbits m < nbits n"
        "validate_loop hit ns (nok k) (nbits k) (map_option (\<lambda>_. ntoken k) tok) = (nok n, map_option (\<lambda>_. ntoken n) tok)"
        by (auto simp: option.map_comp comp_def)
      moreover have "bits \<le> nbits n" using True e(3) by (meson order_trans)
      ultimately show ?thesis using v
        by (intro disjI2 exI [of _ "k # pre"] exI [of _ n] exI [of _ post]) simp
    qed
  next
    case False
    then have v: "validate_loop hit (k # ns) ok bits tok = validate_loop hit ns ok bits tok" by auto
    have k: "hit k \<Longrightarrow> nbits k < bits" using False by (simp add: not_le)
    from Cons [of bits ok tok] show ?thesis
    proof
      assume "(\<forall>m\<in>set ns. hit m \<longrightarrow> nbits m < bits) \<and> validate_loop hit ns ok bits tok = (ok, tok)"
      with k v show ?thesis by simp
    next
      assume "\<exists>pre n post. ns = pre @ n # post \<and> hit n \<and> bits \<le> nbits n
        \<and> (\<forall>m\<in>set pre. hit m \<longrightarrow> nbits m \<le> nbits n) \<and> (\<forall>m\<in>set post. hit m \<longrightarrow> nbits m < nbits n)
        \<and> validate_loop hit ns ok bits tok = (nok n, map_option (\<lambda>_. ntoken n) tok)"
      then obtain pre n post where e: "ns = pre @ n # post" "hit n" "bits \<le> nbits n"
        "\<forall>m\<in>set pre. hit m \<longrightarrow> nbits m \<le> nbits n" "\<forall>m\<in>set post. hit m \<longrightarrow> nbits m < nbits n"
        "validate_loop hit ns ok bits tok = (nok n, map_option (\<lambda>_. ntoken n) tok)" by blast
      moreover have "hit k \<Longrightarrow> nbits k \<le> nbits n" using k e(3) by (meson less_imp_le order_trans)
      ultimately show ?thesis using v
        by (intro disjI2 exI [of _ "k # pre"] exI [of _ n] exI [of _ post]) simp
    qed
  qed
qed simp

lemma validate_loop_best_match:
  "best_match hit ns ok tok (validate_loop hit ns ok 0 tok)"
proof (cases "\<forall>n\<in>set ns. \<not> hit n")
  case True
  then show ?thesis using validate_loop_best [of ns hit 0 ok tok] by (auto simp: best_match_def)
next
  case False
  then have "\<not> (\<forall>m\<in>set ns. hit m \<longrightarrow> nbits m < 0)" by auto
  then show ?thesis using validate_loop_best [of ns hit 0 ok tok] False unfolding best_match_def by auto
qed

text \<open>
  C32: The decision for an address is that of the most specific network of the list that matches it (the
  one that was added first among networks of equal length), and the default of the list when none
  matches; the token of the same network is returned. This holds for IPv4 and IPv6 addresses.
\<close>

theorem ks_acl_most_specific_decides:
  "best_match (\<lambda>n. nfamily n \<noteq> AF_INET6 \<and> ks_test_subnet ip (v4 (nip n)) (v4 (nmask n)))
      (node_head l) (default_type l) tok (ks_network_list_validate_ip_token l ip tok)
   \<and> best_match (\<lambda>n. nfamily n \<noteq> AF_INET \<and> ks_testv6_subnet ip6 (nip n) (nmask n))
      (node_head l) (default_type l) tok (ks_network_list_validate_ip6_token l ip6 tok)"
  unfolding ks_network_list_validate_ip_token_def ks_network_list_validate_ip6_token_def
  by (intro conjI validate_loop_best_match)

text \<open>
  A host and mask pair is stored without a family, so its node also takes part in the decision for
  IPv6 addresses: a pair with the mask 0.0.0.0 and the host 0.0.0.0 decides for all of them.
\<close>

lemma ks_acl_host_mask_hits_v6:
  assumes "pton4 env host = Some [0, 0, 0, 0]" "node_head l = []"
  shows "fst (ks_network_list_validate_ip6_token
    (snd (ks_network_list_add_host_mask env uninit l host host ok)) ip tok) = ok"
proof -
  have z: "htonl (v4 (inet_pton4 env host x)) = 0" for x
    using assms(1) by (simp add: inet_pton4_def v4_def blit_def le_val_simps htonl_def le_bytes_def upt_rec)
  have "v6_unspecified (set_v4 0 (replicate 16 0))"
    by (auto simp: v6_unspecified_def set_v4_def le_bytes_def)
  then show ?thesis
    by (simp add: ks_network_list_add_host_mask_def ks_network_list_validate_ip6_token_def Let_def z assms(2)
        ks_testv6_subnet_def)
qed

end
