(* ===== verification/Ks_Utf8.thy ===== *)
theory Ks_Utf8
  imports Ks_String
begin

text \<open>
  \<open>ks_utf8.c\<close>: conversion between UTF-8 and code points, movement in UTF-8 strings, escape sequences.
  Strings are blocks of bytes with their NUL, wide strings are lists of 32-bit words, pointers are
  offsets; a read or write outside a block, or outside the table of offsets, is a fault
  (\<^const>\<open>None\<close>). Plain \<open>char\<close> is signed.
\<close>

section \<open>Tables\<close>

definition offsetsFromUTF8 :: "u32 list" where
  "offsetsFromUTF8 = [0x00000000, 0x00003080, 0x000E2080, 0x03C82080, 0xFA082080, 0x82082080]"

definition trailingBytesForUTF8 :: "nat list" where
  "trailingBytesForUTF8 =
     replicate 192 0 @ replicate 32 1 @ replicate 16 2 @ replicate 8 3 @ replicate 4 4 @ replicate 4 5"

definition isutf :: "byte \<Rightarrow> bool" where
  "isutf c = (c AND 0xC0 \<noteq> 0x80)"

definition trailing :: "byte \<Rightarrow> nat" where
  "trailing c = trailingBytesForUTF8 ! unat c"

definition ks_u8_seqlen :: "mem \<Rightarrow> nat option" where
  "ks_u8_seqlen s = map_option (\<lambda>c. trailing c + 1) (mem_rd s 0)"

section \<open>UTF-8 to code points\<close>

text \<open>
  The \<open>switch\<close> on the number of trailing bytes: for 4 and 5 no case applies, nothing is read and the
  source pointer stays.
\<close>

fun u8_gather :: "mem \<Rightarrow> nat \<Rightarrow> nat \<Rightarrow> u32 \<Rightarrow> u32 option" where
  "u8_gather src 0 p ch = map_option (\<lambda>c. ch + ucast c) (mem_rd src p)"
| "u8_gather src (Suc k) p ch =
     do { c \<leftarrow> mem_rd src p; u8_gather src k (p + 1) (push_bit 6 (ch + ucast c)) }"

definition toucs_char :: "mem \<Rightarrow> nat \<Rightarrow> nat \<Rightarrow> (u32 \<times> nat) option" where
  "toucs_char src p nb =
     do { (ch, p') \<leftarrow> (if nb \<le> 3 then map_option (\<lambda>ch. (ch, p + nb + 1)) (u8_gather src nb p 0)
                        else Some (0, p));
          Some (ch - offsetsFromUTF8 ! nb, p') }"

function toucs_loop :: "int \<Rightarrow> mem \<Rightarrow> int \<Rightarrow> nat \<Rightarrow> nat \<Rightarrow> u32 list \<Rightarrow> (nat \<times> u32 list) option" where
  "toucs_loop sz src srcsz p i dest =
     (if int i < sz - 1 then
        do { c \<leftarrow> mem_rd src p;
             let nb = trailing c;
             if (if srcsz = -1 then c = 0 else srcsz \<le> int (p + nb)) then Some (i, dest)
             else do { (ch, p') \<leftarrow> toucs_char src p nb;
                       dest' \<leftarrow> mem_wr dest i ch;
                       toucs_loop sz src srcsz p' (i + 1) dest' } }
      else Some (i, dest))"
  by pat_completeness auto
termination by (relation "measure (\<lambda>(sz, _, _, _, i, _). nat (sz - int i))") auto

declare toucs_loop.simps [simp del]

definition ks_u8_toucs :: "u32 list \<Rightarrow> int \<Rightarrow> mem \<Rightarrow> int \<Rightarrow> (nat \<times> u32 list) option" where
  "ks_u8_toucs dest sz src srcsz =
     do { (i, d) \<leftarrow> toucs_loop sz src srcsz 0 0 dest; d' \<leftarrow> mem_wr d i 0; Some (i, d') }"

section \<open>Code points to UTF-8\<close>

text \<open>The bytes \<open>ks_u8_wc_toutf8\<close> stores; the value it returns is their number.\<close>

definition ks_u8_wc_toutf8 :: "u32 \<Rightarrow> mem" where
  "ks_u8_wc_toutf8 ch =
     (if ch < 0x80 then [ucast ch]
      else if ch < 0x800 then [ucast (drop_bit 6 ch OR 0xC0), ucast ((ch AND 0x3F) OR 0x80)]
      else if ch < 0x10000 then
        [ucast (drop_bit 12 ch OR 0xE0), ucast ((drop_bit 6 ch AND 0x3F) OR 0x80),
         ucast ((ch AND 0x3F) OR 0x80)]
      else if ch < 0x110000 then
        [ucast (drop_bit 18 ch OR 0xF0), ucast ((drop_bit 12 ch AND 0x3F) OR 0x80),
         ucast ((drop_bit 6 ch AND 0x3F) OR 0x80), ucast ((ch AND 0x3F) OR 0x80)]
      else [])"

text \<open>
  \<open>ks_u8_toutf8\<close> stores the same bytes, after a test that they fit (\<open>dest >= dest_end - k\<close>).
\<close>

function toutf8_loop :: "int \<Rightarrow> u32 list \<Rightarrow> int \<Rightarrow> nat \<Rightarrow> nat \<Rightarrow> mem \<Rightarrow> (bool \<times> nat \<times> nat \<times> mem) option" where
  "toutf8_loop sz src srcsz i d dest =
     (if length src \<le> i then (if srcsz < 0 \<or> int i < srcsz then None else Some (True, i, d, dest))
      else if (if srcsz < 0 then src ! i = 0 else srcsz \<le> int i) then Some (True, i, d, dest)
      else
        let bs = ks_u8_wc_toutf8 (src ! i) in
        if bs \<noteq> [] \<and> sz - int (length bs - 1) \<le> int d then Some (False, i, d, dest)
        else do { dest' \<leftarrow> (if bs = [] then Some dest else mem_cpy dest d bs);
                  toutf8_loop sz src srcsz (i + 1) (d + length bs) dest' })"
  by pat_completeness auto
termination by (relation "measure (\<lambda>(_, src, _, i, _). length src - i)") auto

declare toutf8_loop.simps [simp del]

definition ks_u8_toutf8 :: "mem \<Rightarrow> int \<Rightarrow> u32 list \<Rightarrow> int \<Rightarrow> (nat \<times> mem) option" where
  "ks_u8_toutf8 dest sz src srcsz =
     do { (fin, i, d, dest') \<leftarrow> toutf8_loop sz src srcsz 0 0 dest;
          if fin \<and> int d < sz then map_option (Pair i) (mem_wr dest' d 0) else Some (i, dest') }"

section \<open>Moving in a string\<close>

text \<open>\<open>isutf(s[++i]) || isutf(s[++i]) || isutf(s[++i]) || ++i\<close>\<close>

definition ks_u8_inc :: "mem \<Rightarrow> nat \<Rightarrow> nat option" where
  "ks_u8_inc s i =
     do { a \<leftarrow> mem_rd s (i + 1);
          if isutf a then Some (i + 1)
          else do { b \<leftarrow> mem_rd s (i + 2);
                    if isutf b then Some (i + 2)
                    else do { c \<leftarrow> mem_rd s (i + 3);
                              if isutf c then Some (i + 3) else Some (i + 4) } } }"

text \<open>Downwards an index below 0 is outside the string.\<close>

definition rd_before :: "mem \<Rightarrow> nat \<Rightarrow> nat \<Rightarrow> byte option" where
  "rd_before s i k = (if i < k then None else mem_rd s (i - k))"

definition ks_u8_dec :: "mem \<Rightarrow> nat \<Rightarrow> int option" where
  "ks_u8_dec s i =
     do { a \<leftarrow> rd_before s i 1;
          if isutf a then Some (int i - 1)
          else do { b \<leftarrow> rd_before s i 2;
                    if isutf b then Some (int i - 2)
                    else do { c \<leftarrow> rd_before s i 3;
                              if isutf c then Some (int i - 3) else Some (int i - 4) } } }"

fun ks_u8_offset :: "mem \<Rightarrow> nat \<Rightarrow> nat \<Rightarrow> nat option" where
  "ks_u8_offset s 0 offs = Some offs"
| "ks_u8_offset s (Suc charnum) offs =
     do { c \<leftarrow> mem_rd s offs;
          if c = 0 then Some offs
          else do { offs' \<leftarrow> ks_u8_inc s offs; ks_u8_offset s charnum offs' } }"

lemma ks_u8_inc_gt: "ks_u8_inc s i = Some j \<Longrightarrow> i < j"
  by (auto simp: ks_u8_inc_def bind_eq_Some_conv split: if_splits)

function u8_charnum_loop :: "mem \<Rightarrow> nat \<Rightarrow> nat \<Rightarrow> nat \<Rightarrow> nat option" where
  "u8_charnum_loop s offset charnum offs =
     (if offs < offset then
        do { c \<leftarrow> mem_rd s offs;
             if c = 0 then Some charnum
             else do { offs' \<leftarrow> ks_u8_inc s offs; u8_charnum_loop s offset (charnum + 1) offs' } }
      else Some charnum)"
  by pat_completeness auto
termination
  by (relation "measure (\<lambda>(_, offset, _, offs). offset - offs)") (auto dest: ks_u8_inc_gt)

declare u8_charnum_loop.simps [simp del]

definition ks_u8_charnum :: "mem \<Rightarrow> nat \<Rightarrow> nat option" where
  "ks_u8_charnum s offset = u8_charnum_loop s offset 0 0"

text \<open>
  \<open>ks_u8_nextchar\<close> (and \<open>ks_u8_get_char\<close>, which has the same body): the character at \<open>i\<close> and the index
  behind it. After each byte the next one is read, also behind a NUL.
\<close>

function nextchar_loop :: "mem \<Rightarrow> nat \<Rightarrow> u32 \<Rightarrow> nat \<Rightarrow> (u32 \<times> nat \<times> nat) option" where
  "nextchar_loop s i ch sz =
     (if length s \<le> i then None
      else let ch' = push_bit 6 ch + ucast (s ! i) in
        do { c \<leftarrow> mem_rd s (i + 1);
             if c \<noteq> 0 \<and> \<not> isutf c then nextchar_loop s (i + 1) ch' (sz + 1)
             else Some (ch', i + 1, sz + 1) })"
  by pat_completeness auto
termination by (relation "measure (\<lambda>(s, i, _). length s - i)") auto

declare nextchar_loop.simps [simp del]

definition ks_u8_nextchar :: "mem \<Rightarrow> nat \<Rightarrow> (u32 \<times> nat) option" where
  "ks_u8_nextchar s i =
     do { (ch, i', sz) \<leftarrow> nextchar_loop s i 0 0;
          off \<leftarrow> mem_rd offsetsFromUTF8 (sz - 1);
          Some (ch - off, i') }"

definition ks_u8_get_char :: "mem \<Rightarrow> nat \<Rightarrow> (u32 \<times> nat) option" where
  "ks_u8_get_char s i = ks_u8_nextchar s i"

lemma nextchar_loop_gt: "nextchar_loop s i ch sz = Some (c, j, k) \<Longrightarrow> i < j \<and> i < length s \<and> sz < k"
proof (induction s i ch sz rule: nextchar_loop.induct)
  case (1 s i ch sz)
  then show ?case
    by (fastforce simp: nextchar_loop.simps [of s i] Let_def bind_eq_Some_conv split: if_splits)
qed

lemma ks_u8_nextchar_gt: "ks_u8_nextchar s i = Some (c, j) \<Longrightarrow> i < j \<and> i < length s"
  by (auto simp: ks_u8_nextchar_def bind_eq_Some_conv dest: nextchar_loop_gt)

function u8_strlen_loop :: "mem \<Rightarrow> nat \<Rightarrow> nat \<Rightarrow> nat option" where
  "u8_strlen_loop s count i =
     do { (ch, i') \<leftarrow> ks_u8_nextchar s i;
          if ch \<noteq> 0 then u8_strlen_loop s (count + 1) i' else Some count }"
  by pat_completeness auto
termination
  by (relation "measure (\<lambda>(s, _, i). length s - i)") (auto dest!: ks_u8_nextchar_gt)

declare u8_strlen_loop.simps [simp del]

definition ks_u8_strlen :: "mem \<Rightarrow> nat option" where
  "ks_u8_strlen s = u8_strlen_loop s 0 0"

text \<open>\<open>ks_u8_strchr\<close>: the offset of the character, if found, and its number.\<close>

function u8_strchr_loop :: "mem \<Rightarrow> u32 \<Rightarrow> nat \<Rightarrow> nat \<Rightarrow> (nat option \<times> nat) option" where
  "u8_strchr_loop s ch i charn =
     do { c0 \<leftarrow> mem_rd s i;
          if c0 = 0 then Some (None, charn)
          else do { (c, i') \<leftarrow> ks_u8_nextchar s i;
                    if c = ch then Some (Some i, charn) else u8_strchr_loop s ch i' (charn + 1) } }"
  by pat_completeness auto
termination
  by (relation "measure (\<lambda>(s, _, i, _). length s - i)") (auto dest!: ks_u8_nextchar_gt)

declare u8_strchr_loop.simps [simp del]

definition ks_u8_strchr :: "mem \<Rightarrow> u32 \<Rightarrow> (nat option \<times> nat) option" where
  "ks_u8_strchr s ch = u8_strchr_loop s ch 0 0"

text \<open>\<open>ks_u8_memchr\<close> stops at the size (below \<open>2^31\<close>) instead of the NUL.\<close>

function memchr_char :: "mem \<Rightarrow> nat \<Rightarrow> nat \<Rightarrow> u32 \<Rightarrow> nat \<Rightarrow> (u32 \<times> nat \<times> nat) option" where
  "memchr_char s sz i c csz =
     do { b \<leftarrow> mem_rd s i;
          let c' = push_bit 6 c + ucast b;
          if i + 1 < sz then
            do { n \<leftarrow> mem_rd s (i + 1);
                 if \<not> isutf n then memchr_char s sz (i + 1) c' (csz + 1) else Some (c', i + 1, csz + 1) }
          else Some (c', i + 1, csz + 1) }"
  by pat_completeness auto
termination by (relation "measure (\<lambda>(_, sz, i, _). sz - i)") auto

declare memchr_char.simps [simp del]

lemma memchr_char_gt: "memchr_char s sz i c csz = Some (ch, j, k) \<Longrightarrow> i < j"
proof (induction s sz i c csz rule: memchr_char.induct)
  case (1 s sz i c csz)
  then show ?case
    by (fastforce simp: memchr_char.simps [of s sz i] Let_def bind_eq_Some_conv split: if_splits)
qed

function u8_memchr_loop :: "mem \<Rightarrow> u32 \<Rightarrow> nat \<Rightarrow> nat \<Rightarrow> nat \<Rightarrow> (nat option \<times> nat) option" where
  "u8_memchr_loop s ch sz i charn =
     (if i < sz then
        do { (c, i', csz) \<leftarrow> memchr_char s sz i 0 0;
             off \<leftarrow> mem_rd offsetsFromUTF8 (csz - 1);
             if c - off = ch then Some (Some i, charn) else u8_memchr_loop s ch sz i' (charn + 1) }
      else Some (None, charn))"
  by pat_completeness auto
termination
  by (relation "measure (\<lambda>(_, _, sz, i, _). sz - i)") (auto dest!: memchr_char_gt)

declare u8_memchr_loop.simps [simp del]

definition ks_u8_memchr :: "mem \<Rightarrow> u32 \<Rightarrow> nat \<Rightarrow> (nat option \<times> nat) option" where
  "ks_u8_memchr s ch sz = u8_memchr_loop s ch sz 0 0"

section \<open>Escape sequences\<close>

definition octal_digit :: "byte \<Rightarrow> bool" where
  "octal_digit c = (48 \<le> c \<and> c \<le> 55)"

definition hex_digit :: "byte \<Rightarrow> bool" where
  "hex_digit c = ((48 \<le> c \<and> c \<le> 57) \<or> (65 \<le> c \<and> c \<le> 70) \<or> (97 \<le> c \<and> c \<le> 102))"

text \<open>The digit loops: the next character is read before the number of digits is tested.\<close>

fun take_digits :: "(byte \<Rightarrow> bool) \<Rightarrow> mem \<Rightarrow> nat \<Rightarrow> nat \<Rightarrow> mem option" where
  "take_digits P s i 0 = map_option (\<lambda>_. []) (mem_rd s i)"
| "take_digits P s i (Suc n) =
     do { c \<leftarrow> mem_rd s i;
          if P c then map_option ((#) c) (take_digits P s (i + 1) n) else Some [] }"

definition digits_num :: "nat \<Rightarrow> mem \<Rightarrow> u32" where
  "digits_num base ds = word_of_nat (foldl (\<lambda>v d. v * base + the (hex_val d)) 0 ds)"

text \<open>
  \<open>ks_u8_read_escape_sequence\<close> at offset \<open>p\<close>: the character and the number of bytes consumed. A
  character that starts no escape is converted from the signed \<open>char\<close>.
\<close>

definition ks_u8_read_escape_sequence :: "mem \<Rightarrow> nat \<Rightarrow> (u32 \<times> nat) option" where
  "ks_u8_read_escape_sequence s p =
     do { c \<leftarrow> mem_rd s p;
          let hex = (\<lambda>n. do { ds \<leftarrow> take_digits hex_digit s (p + 1) n;
                             Some (if ds = [] then scast c else digits_num 16 ds, 1 + length ds) });
          if c = 110 then Some (10, 1) else if c = 116 then Some (9, 1)
          else if c = 114 then Some (13, 1) else if c = 98 then Some (8, 1)
          else if c = 102 then Some (12, 1) else if c = 118 then Some (11, 1)
          else if c = 97 then Some (7, 1)
          else if octal_digit c then
            do { ds \<leftarrow> take_digits octal_digit s (p + 1) 2;
                 Some (digits_num 8 (c # ds), 1 + length ds) }
          else if c = 120 then hex 2 else if c = 117 then hex 4 else if c = 85 then hex 8
          else Some (scast c, 1) }"

lemma ks_u8_read_escape_sequence_pos: "ks_u8_read_escape_sequence s p = Some (ch, n) \<Longrightarrow> 0 < n"
  by (auto simp: ks_u8_read_escape_sequence_def bind_eq_Some_conv Let_def split: if_splits)

function u8_unescape_loop :: "mem \<Rightarrow> int \<Rightarrow> nat \<Rightarrow> nat \<Rightarrow> mem \<Rightarrow> (nat \<times> mem) option" where
  "u8_unescape_loop src sz p c buf =
     (if length src \<le> p then None
      else if src ! p = 0 \<or> sz \<le> int c then Some (c, buf)
      else do { (ch, p') \<leftarrow> (if src ! p = ESCAPE_META
                    then map_option (\<lambda>(ch, amt). (ch, p + 1 + amt)) (ks_u8_read_escape_sequence src (p + 1))
                    else Some (scast (src ! p), p + 1));
                let bs = ks_u8_wc_toutf8 ch;
                if sz - int c < int (length bs) then Some (c, buf)
                else do { buf' \<leftarrow> mem_cpy buf c bs;
                          u8_unescape_loop src sz p' (c + length bs) buf' } })"
  by pat_completeness auto
termination
  by (relation "measure (\<lambda>(src, _, p, _). length src - p)") (auto split: if_splits)

declare u8_unescape_loop.simps [simp del]

definition ks_u8_unescape :: "mem \<Rightarrow> int \<Rightarrow> mem \<Rightarrow> (nat \<times> mem) option" where
  "ks_u8_unescape buf sz src =
     do { (c, buf') \<leftarrow> u8_unescape_loop src sz 0 0 buf;
          if int c < sz then map_option (Pair c) (mem_wr buf' c 0) else Some (c, buf') }"

text \<open>Upper case hexadecimal with at least \<open>w\<close> digits, as \<open>%X\<close> and \<open>%.wX\<close> print it.\<close>

fun hex_upper :: "nat \<Rightarrow> mem" where
  "hex_upper n = (if n < 16 then [url_hex ! n] else hex_upper (n div 16) @ [url_hex ! (n mod 16)])"

declare hex_upper.simps [simp del]

definition hex_padded :: "nat \<Rightarrow> nat \<Rightarrow> mem" where
  "hex_padded w n = replicate (w - length (hex_upper n)) 48 @ hex_upper n"

text \<open>The text \<open>ks_u8_escape_wchar\<close> formats; \<open>snprintf\<close> cuts it at the size and returns its length.\<close>

definition escape_wchar_text :: "u32 \<Rightarrow> mem" where
  "escape_wchar_text ch =
     (if ch = 10 then [92, 110] else if ch = 9 then [92, 116] else if ch = 13 then [92, 114]
      else if ch = 8 then [92, 98] else if ch = 12 then [92, 102] else if ch = 11 then [92, 118]
      else if ch = 7 then [92, 97] else if ch = 92 then [92, 92]
      else if ch < 32 \<or> ch = 0x7f then [92, 120] @ hex_upper (unat (ucast ch :: byte))
      else if 0xFFFF < ch then [92, 85] @ hex_padded 8 (unat ch)
      else if 0x80 \<le> ch \<and> ch \<le> 0xFFFF then [92, 117] @ hex_padded 4 (unat (ucast ch :: u16))
      else [ucast ch])"

definition snprintf_at :: "mem \<Rightarrow> nat \<Rightarrow> int \<Rightarrow> mem \<Rightarrow> mem option" where
  "snprintf_at buf p sz t =
     (if sz \<le> 0 then Some buf else mem_cpy buf p (take (nat sz - 1) t @ [0]))"

definition ks_u8_escape_wchar :: "mem \<Rightarrow> nat \<Rightarrow> int \<Rightarrow> u32 \<Rightarrow> (nat \<times> mem) option" where
  "ks_u8_escape_wchar buf p sz ch =
     map_option (Pair (length (escape_wchar_text ch))) (snprintf_at buf p sz (escape_wchar_text ch))"

function u8_escape_loop :: "mem \<Rightarrow> int \<Rightarrow> bool \<Rightarrow> nat \<Rightarrow> nat \<Rightarrow> mem \<Rightarrow> (nat \<times> mem) option" where
  "u8_escape_loop src sz escape_quotes i c buf =
     (if length src \<le> i then None
      else if src ! i = 0 \<or> sz \<le> int c then Some (c, buf)
      else if escape_quotes \<and> src ! i = DQUOTE then
        do { buf' \<leftarrow> snprintf_at buf c (sz - int c) [92, DQUOTE];
             u8_escape_loop src sz escape_quotes (i + 1) (c + 2) buf' }
      else do { (ch, i') \<leftarrow> ks_u8_nextchar src i;
                (amt, buf') \<leftarrow> ks_u8_escape_wchar buf c (sz - int c) ch;
                u8_escape_loop src sz escape_quotes i' (c + amt) buf' })"
  by pat_completeness auto
termination
  by (relation "measure (\<lambda>(src, _, _, i, _). length src - i)") (auto dest!: ks_u8_nextchar_gt)

declare u8_escape_loop.simps [simp del]

definition ks_u8_escape :: "mem \<Rightarrow> int \<Rightarrow> mem \<Rightarrow> bool \<Rightarrow> (nat \<times> mem) option" where
  "ks_u8_escape buf sz src escape_quotes =
     do { (c, buf') \<leftarrow> u8_escape_loop src sz escape_quotes 0 0 buf;
          if int c < sz then map_option (Pair c) (mem_wr buf' c 0) else Some (c, buf') }"

section \<open>Locale names\<close>

text \<open>The encoding is what follows the first dot, up to \<open>@\<close>, \<open>+\<close>, \<open>,\<close> or the end.\<close>

definition locale_stop :: "byte \<Rightarrow> bool" where
  "locale_stop c = (c = 64 \<or> c = 43 \<or> c = 44)"

definition ks_u8_is_locale_utf8 :: "mem \<Rightarrow> bool option" where
  "ks_u8_is_locale_utf8 loc =
     do { s \<leftarrow> c_str loc;
          Some (case dropWhile (\<lambda>c. c \<noteq> 46) (takeWhile (\<lambda>c. \<not> locale_stop c) s) of
                  [] \<Rightarrow> False
                | _ # enc \<Rightarrow> enc = map of_char ''UTF-8'' \<or> enc = map of_char ''utf8'') }"

end
