(* ===== verification/Ks_Utf8_Props.thy ===== *)
theory Ks_Utf8_Props
  imports Ks_Utf8
begin

text \<open>
  Properties of \<open>ks_utf8.c\<close>: the bytes \<open>ks_u8_wc_toutf8\<close> stores against the arithmetic definition of
  UTF-8, conversion to UTF-8 and back, and the routines that move in UTF-8 text.
\<close>

section \<open>Encoding one character\<close>

lemma unat_or_disjoint:
  assumes "unat w < 2 ^ k" "unat c = 2 ^ k * a"
  shows "unat (w OR c :: u32) = unat w + unat c"
proof -
  have "unat w = take_bit k (unat w)" using assms(1) by (simp add: take_bit_nat_eq_self)
  moreover have "unat c = push_bit k a" using assms(2) by (simp add: push_bit_eq_mult)
  ultimately have "unat w OR unat c = unat w + unat c"
    by (metis disjunctive_add bit_take_bit_iff bit_push_bit_iff not_le)
  then show ?thesis by (simp add: unsigned_or_eq)
qed

lemma unat_lead:
  assumes "unat w < 2 ^ k" "unat c = 2 ^ k * a" "unat w + unat c < 256"
  shows "unat (ucast (w OR c :: u32) :: byte) = unat c + unat w"
  using assms unat_or_disjoint [OF assms(1,2)]
  by (simp add: unsigned_ucast_eq take_bit_nat_eq_self)

lemma and_3F: "unat (w AND 0x3F :: u32) = unat w mod 64"
proof -
  have "w AND 0x3F = take_bit 6 w" by (simp add: take_bit_eq_mask mask_eq_exp_minus_1)
  then show ?thesis by (simp add: unat_mod_distrib take_bit_eq_mod)
qed

lemma unat_continuation: "unat (ucast ((w AND 0x3F) OR 0x80 :: u32) :: byte) = 128 + unat w mod 64"
proof -
  have "unat (w AND 0x3F) < 2 ^ 6" by (simp add: and_3F)
  from unat_lead [OF this, of "0x80" 2] show ?thesis by (simp add: and_3F)
qed

lemma unat_drop_bit32: "unat (drop_bit k w :: u32) = unat w div 2 ^ k"
  by (simp only: unat_drop_bit_eq drop_bit_eq_div [where 'a = nat])

text \<open>The bytes of a character, by arithmetic on its code.\<close>

fun utf8_nat :: "nat \<Rightarrow> nat list" where
  "utf8_nat n =
    (if n < 0x80 then [n]
     else if n < 0x800 then [0xC0 + n div 64, 0x80 + n mod 64]
     else if n < 0x10000 then [0xE0 + n div 4096, 0x80 + n div 64 mod 64, 0x80 + n mod 64]
     else if n < 0x110000 then
       [0xF0 + n div 262144, 0x80 + n div 4096 mod 64, 0x80 + n div 64 mod 64, 0x80 + n mod 64]
     else [])"

declare utf8_nat.simps [simp del]

lemma map_unat_wc: "map unat (ks_u8_wc_toutf8 ch) = utf8_nat (unat ch)"
proof -
  have t: "ch < 0x80 \<longleftrightarrow> unat ch < 0x80" "ch < 0x800 \<longleftrightarrow> unat ch < 0x800"
     "ch < 0x10000 \<longleftrightarrow> unat ch < 0x10000" "ch < 0x110000 \<longleftrightarrow> unat ch < 0x110000"
    by (simp_all add: word_less_nat_alt)
  have 1: "unat (ucast ch :: byte) = unat ch" if "unat ch < 0x80"
    using that by (simp add: unsigned_ucast_eq take_bit_nat_eq_self)
  have 2: "unat (ucast (drop_bit 6 ch OR 0xC0) :: byte) = 0xC0 + unat ch div 64" if "unat ch < 0x800"
    using unat_lead [of "drop_bit 6 ch" 5 "0xC0" 6] that by (simp add: unat_drop_bit32 div_less_iff_less_mult)
  have 3: "unat (ucast (drop_bit 12 ch OR 0xE0) :: byte) = 0xE0 + unat ch div 4096" if "unat ch < 0x10000"
    using unat_lead [of "drop_bit 12 ch" 4 "0xE0" 14] that by (simp add: unat_drop_bit32 div_less_iff_less_mult)
  have 4: "unat (ucast (drop_bit 18 ch OR 0xF0) :: byte) = 0xF0 + unat ch div 262144" if "unat ch < 0x110000"
    using unat_lead [of "drop_bit 18 ch" 4 "0xF0" 15] that by (simp add: unat_drop_bit32 div_less_iff_less_mult)
  show ?thesis
    unfolding ks_u8_wc_toutf8_def utf8_nat.simps [of "unat ch"] t
    using 1 2 3 4 by (simp add: unat_continuation unat_drop_bit32 add.commute)
qed


section \<open>Decoding one character\<close>

text \<open>The accumulation step that all readers share.\<close>

definition u8_acc :: "u32 \<Rightarrow> byte \<Rightarrow> u32" where
  "u8_acc ch b = push_bit 6 ch + ucast b"

lemma u8_acc_nat: "u8_acc (word_of_nat m) b = word_of_nat (64 * m + unat b)"
proof -
  have "ucast b = (word_of_nat (unat b) :: u32)" by (simp add: unsigned_of_nat)
  then show ?thesis by (simp add: u8_acc_def push_bit_eq_mult)
qed

lemma foldl_u8_acc: "foldl u8_acc (word_of_nat m) bs = word_of_nat (foldl (\<lambda>m k. 64 * m + k) m (map unat bs))"
  by (induction bs arbitrary: m) (simp_all add: u8_acc_nat del: of_nat_add of_nat_mult)

lemma foldl_u8_acc_wc:
  assumes "unat c < 0x110000"
  shows "foldl u8_acc 0 (ks_u8_wc_toutf8 c) - offsetsFromUTF8 ! (length (ks_u8_wc_toutf8 c) - 1) = c"
proof -
  define n where "n = unat c"
  have l: "length (ks_u8_wc_toutf8 c) = length (utf8_nat n)"
    using arg_cong [OF map_unat_wc, of length c] by (simp add: n_def)
  have 1: "n = 64 * (n div 64) + n mod 64" by simp
  have 2: "n div 64 = 64 * (n div 4096) + n div 64 mod 64"
    using mult_div_mod_eq [of 64 "n div 64"] by (simp add: div_mult2_eq [symmetric])
  have 3: "n div 4096 = 64 * (n div 262144) + n div 4096 mod 64"
    using mult_div_mod_eq [of 64 "n div 4096"] by (simp add: div_mult2_eq [symmetric])
  have "foldl (\<lambda>m k. 64 * m + k) 0 (utf8_nat n) = n + unat (offsetsFromUTF8 ! (length (utf8_nat n) - 1))"
    using assms 1 2 3 unfolding n_def [symmetric] utf8_nat.simps [of n]
    by (simp add: offsetsFromUTF8_def)
  then have "foldl u8_acc 0 (ks_u8_wc_toutf8 c) = c + offsetsFromUTF8 ! (length (utf8_nat n) - 1)"
    using foldl_u8_acc [of 0 "ks_u8_wc_toutf8 c"] by (simp add: map_unat_wc n_def)
  then show ?thesis by (simp add: l)
qed

lemma isutf_nat: "isutf b \<longleftrightarrow> \<not> (128 \<le> unat b \<and> unat b < 192)"
proof -
  have c: "b AND 0xC0 = push_bit 6 (drop_bit 6 b)"
  proof (rule bit_eqI)
    fix n assume "possible_bit TYPE(byte) n"
    then have "n \<in> {0, 1, 2, 3, 4, 5, 6, 7}" by (auto simp: possible_bit_def)
    then show "bit (b AND 0xC0) n = bit (push_bit 6 (drop_bit 6 b)) n"
      by (auto simp: bit_simps)
  qed
  have "unat (push_bit 6 (drop_bit 6 b)) = 64 * (unat b div 64)"
  proof -
    have "64 * (unat b div 64) < 256" using unat_byte_less [of b] by simp
    then show ?thesis
      by (simp only: unsigned_push_bit_eq unat_drop_bit_eq drop_bit_eq_div [where 'a = nat])
        (simp add: push_bit_eq_mult take_bit_nat_eq_self)
  qed
  then have "unat (b AND 0xC0) = 128 \<longleftrightarrow> unat b div 64 = 2" by (simp add: c)
  then show ?thesis by (auto simp: isutf_def word_unat_eq_iff)
qed

lemma trailing_nat: 
   "unat b < 192 \<Longrightarrow> trailing b = 0"
   "192 \<le> unat b \<Longrightarrow> unat b < 224 \<Longrightarrow> trailing b = 1"
   "224 \<le> unat b \<Longrightarrow> unat b < 240 \<Longrightarrow> trailing b = 2"
   "240 \<le> unat b \<Longrightarrow> unat b < 248 \<Longrightarrow> trailing b = 3"
  by (auto simp: trailing_def trailingBytesForUTF8_def nth_append)


section \<open>The shape of one character\<close>

text \<open>
  A lead byte whose table entry counts the continuation bytes, then those.
\<close>

lemma wc_shape:
  assumes "0 < c" "c < 0x110000"
  shows "\<exists>b bs. ks_u8_wc_toutf8 c = b # bs \<and> b \<noteq> 0 \<and> isutf b \<and> trailing b = length bs \<and>
     length bs \<le> 3 \<and> (\<forall>x\<in>set bs. \<not> isutf x)"
proof -
  have c: "0 < unat c" "unat c < 0x110000" using assms by (simp_all add: word_less_nat_alt)
  let ?W = "ks_u8_wc_toutf8 c"
  obtain b bs where w: "?W = b # bs" and u: "unat b # map unat bs = utf8_nat (unat c)"
    using map_unat_wc [of c] c by (cases ?W) (auto simp: utf8_nat.simps split: if_splits)
  have 2: "unat c div 64 < 32" if "unat c < 0x800" using that by (simp add: div_less_iff_less_mult)
  have 3: "unat c div 4096 < 16" if "unat c < 0x10000" using that by (simp add: div_less_iff_less_mult)
  have 4: "unat c div 262144 < 8" using c by (simp add: div_less_iff_less_mult)
  have l: "b \<noteq> 0 \<and> isutf b \<and> trailing b = length (map unat bs) \<and> length (map unat bs) \<le> 3 \<and> (\<forall>x\<in>set (map unat bs). 128 \<le> x \<and> x < 192)"
    using u c 2 3 4 trailing_nat [of b] unfolding utf8_nat.simps [of "unat c"] isutf_nat 
    by (auto simp: unat_eq_0 [symmetric] split: if_splits)
  then show ?thesis using w by (auto simp: isutf_nat)
qed

lemma u8_gather_foldl:
  "drop p src = bs @ r \<Longrightarrow> length bs = Suc k \<Longrightarrow> u8_gather src k p (push_bit 6 a) = Some (foldl u8_acc a bs)"
proof (induction k arbitrary: p a bs)
  case 0
  then obtain b where "bs = [b]" by (auto simp: length_Suc_conv)
  with 0 show ?case by (auto simp: mem_rd_def u8_acc_def dest: drop_eq_Cons)
next
  case (Suc k)
  then obtain b bs' where b: "bs = b # bs'" "length bs' = Suc k" by (auto simp: length_Suc_conv)
  with Suc.prems have d: "drop p src = b # bs' @ r" by simp
  from Suc.IH [OF _ b(2), of "Suc p" "u8_acc a b"] show ?case
    using drop_eq_Cons [OF d] by (simp add: b mem_rd_def u8_acc_def)
qed

lemma toucs_char_wc:
  assumes "0 < c" "c < 0x110000" "drop p src = ks_u8_wc_toutf8 c @ r"
  shows "\<exists>b. mem_rd src p = Some b \<and> b \<noteq> 0 \<and>
     toucs_char src p (trailing b) = Some (c, p + length (ks_u8_wc_toutf8 c))"
proof -
  from wc_shape [OF assms(1,2)] obtain b bs where b: "ks_u8_wc_toutf8 c = b # bs" "b \<noteq> 0"
    "trailing b = length bs" "length bs \<le> 3" by blast
  have "u8_gather src (length bs) p 0 = Some (foldl u8_acc 0 (b # bs))"
    using u8_gather_foldl [of p src "b # bs" r "length bs" 0] assms(3) b by simp
  moreover have "unat c < 0x110000" using assms(2) by (simp add: word_less_nat_alt)
  ultimately show ?thesis
    using foldl_u8_acc_wc [of c] b drop_eq_Cons [of p src b "bs @ r"] assms(3)
    by (simp add: toucs_char_def mem_rd_def)
qed

text \<open>The encoding of a text.\<close>

definition utf8_text :: "u32 list \<Rightarrow> mem" where
  "utf8_text cs = concat (map ks_u8_wc_toutf8 cs)"

lemma utf8_text_simps [simp]: "utf8_text [] = []" "utf8_text (c # cs) = ks_u8_wc_toutf8 c @ utf8_text cs"
  by (simp_all add: utf8_text_def)

lemma drop_behind: "drop p s = xs @ ys \<Longrightarrow> drop (p + length xs) s = ys"
  by (metis add.commute append_eq_conv_conj drop_drop)

lemma toucs_loop_text:
  assumes "\<forall>c\<in>set cs. 0 < c \<and> c < 0x110000" "drop p src = utf8_text cs @ 0 # r"
    "i + length cs < length dest" "int (i + length cs) < sz"
  shows "toucs_loop sz src (-1) p i dest = Some (i + length cs, blit i cs dest)"
  using assms
proof (induction cs arbitrary: p i dest)
  case Nil
  then show ?case
    using drop_eq_Cons [of p src 0 r] by (subst toucs_loop.simps) (simp add: mem_rd_def)
next
  case (Cons c cs)
  then obtain b where b: "mem_rd src p = Some b" "b \<noteq> 0"
     "toucs_char src p (trailing b) = Some (c, p + length (ks_u8_wc_toutf8 c))"
    using toucs_char_wc [of c p src "utf8_text cs @ 0 # r"] by auto
  have "toucs_loop sz src (-1) p i dest =
      toucs_loop sz src (-1) (p + length (ks_u8_wc_toutf8 c)) (i + 1) (blit i [c] dest)"
    using Cons.prems b by (subst toucs_loop.simps) (simp add: mem_wr_blit)
  also have "\<dots> = Some (i + 1 + length cs, blit (i + 1) cs (blit i [c] dest))"
    by (rule Cons.IH) (use Cons.prems in \<open>auto intro: drop_behind\<close>)
  finally show ?case using Cons.prems by (simp add: blit_Cons)
qed

lemma toutf8_loop_text:
  assumes "\<forall>c\<in>set cs. 0 < c \<and> c < 0x110000" "drop i src = cs @ 0 # r"
    "d + length (utf8_text cs) < length dest" "int (d + length (utf8_text cs)) < sz"
  shows "toutf8_loop sz src (-1) i d dest =
     Some (True, i + length cs, d + length (utf8_text cs), blit d (utf8_text cs) dest)"
  using assms
proof (induction cs arbitrary: i d dest)
  case Nil
  then show ?case
    using drop_eq_Cons [of i src 0 r] by (subst toutf8_loop.simps) simp
next
  case (Cons c cs)
  let ?w = "ks_u8_wc_toutf8 c"
  have n: "?w \<noteq> []" using wc_shape [of c] Cons.prems by auto
  have s: "i < length src" "src ! i = c" "drop (Suc i) src = cs @ 0 # r"
    using drop_eq_Cons [of i src c "cs @ 0 # r"] Cons.prems by simp_all
  have "toutf8_loop sz src (-1) i d dest =
      toutf8_loop sz src (-1) (Suc i) (d + length ?w) (blit d ?w dest)"
    using Cons.prems s n by (subst toutf8_loop.simps) (auto simp: Let_def mem_cpy_Some blit_def)
  also have "\<dots> = Some (True, Suc i + length cs, d + length ?w + length (utf8_text cs),
      blit (d + length ?w) (utf8_text cs) (blit d ?w dest))"
    by (rule Cons.IH) (use Cons.prems s in auto)
  finally show ?case using Cons.prems by (simp add: blit_blit)
qed


section \<open>Round trip\<close>

text \<open>
  C26: The code points of a NUL-terminated wide string, all below 0x110000, survive the conversion to
  UTF-8 and back: with room for the text and its NUL, \<open>ks_u8_toutf8\<close> stores the concatenated
  encodings and the NUL, \<open>ks_u8_toucs\<close> reads that string back to the same code points, and both
  return their number.\<close>

theorem ks_u8_roundtrip:
  assumes "\<forall>c\<in>set cs. 0 < c \<and> c < 0x110000"
    and "length (utf8_text cs) < length buf" "int (length (utf8_text cs)) < sz"
    and "length cs < length dest" "int (length cs) < n"
  shows "\<exists>m. ks_u8_toutf8 buf sz (cs @ [0]) (-1) = Some (length cs, m) \<and>
      take (length (utf8_text cs) + 1) m = utf8_text cs @ [0] \<and>
      ks_u8_toucs dest n m (-1) = Some (length cs, blit 0 (cs @ [0]) dest)"
proof -
  let ?t = "utf8_text cs"
  define m where "m = blit 0 (?t @ [0]) buf"
  have "mem_wr (blit 0 ?t buf) (length ?t) 0 = Some m"
    using assms(2) blit_blit [of 0 ?t "[0]" buf] by (simp add: mem_wr_blit m_def)
  then have 1: "ks_u8_toutf8 buf sz (cs @ [0]) (-1) = Some (length cs, m)"
    using toutf8_loop_text [of cs 0 "cs @ [0]" "[]" 0 buf sz] assms by (simp add: ks_u8_toutf8_def)
  have m: "m = ?t @ 0 # drop (Suc (length ?t)) buf" by (simp add: m_def blit_def)
  have "mem_wr (blit 0 cs dest) (length cs) 0 = Some (blit 0 (cs @ [0]) dest)"
    using assms(4) blit_blit [of 0 cs "[0]" dest] by (simp add: mem_wr_blit)
  then have "ks_u8_toucs dest n m (-1) = Some (length cs, blit 0 (cs @ [0]) dest)"
    using toucs_loop_text [of cs 0 m "drop (Suc (length ?t)) buf" 0 dest n] assms m
    by (simp add: ks_u8_toucs_def)
  with 1 m show ?thesis by simp
qed

theorem ks_u8_roundtrip_witness:
  "\<exists>m. ks_u8_toutf8 (replicate 12 0) 12 [0x41, 0xE9, 0x20AC, 0x1F600, 0] (-1) = Some (4, m) \<and>
     take 11 m = [0x41, 0xC3, 0xA9, 0xE2, 0x82, 0xAC, 0xF0, 0x9F, 0x98, 0x80, 0] \<and>
     ks_u8_toucs (replicate 6 7) 6 m (-1) = Some (4, [0x41, 0xE9, 0x20AC, 0x1F600, 0, 7])"
proof -
  have t: "utf8_text [0x41, 0xE9, 0x20AC, 0x1F600] = [0x41, 0xC3, 0xA9, 0xE2, 0x82, 0xAC, 0xF0, 0x9F, 0x98, 0x80]"
    by code_simp
  have d: "blit 0 [0x41, 0xE9, 0x20AC, 0x1F600, 0] (replicate 6 7) = [0x41, 0xE9, 0x20AC, 0x1F600, 0, 7 :: u32]"
    by code_simp
  have l: "length [0x41, 0xE9, 0x20AC, 0x1F600 :: u32] = 4"
    "length [0x41, 0xC3, 0xA9, 0xE2, 0x82, 0xAC, 0xF0, 0x9F, 0x98, 0x80 :: byte] = 10" by simp_all
  have "\<forall>c\<in>set [0x41, 0xE9, 0x20AC, 0x1F600 :: u32]. 0 < c \<and> c < 0x110000" by simp
  from ks_u8_roundtrip [OF this, of "replicate 12 0" 12 "replicate 6 7" 6] show ?thesis
    unfolding t l by (simp only: d l t append_Cons append_Nil) simp
qed

section \<open>Positions\<close>

lemma isutf_0 [simp]: "isutf 0"
  by (simp add: isutf_def)

lemma text_next:
  assumes "\<forall>c\<in>set cs. 0 < c \<and> c < 0x110000"
  obtains x t where "utf8_text cs @ 0 # r = x # t" "isutf x"
proof (cases cs)
  case (Cons c cs')
  with assms wc_shape [of c] obtain b bs where "ks_u8_wc_toutf8 c = b # bs" "isutf b" by auto
  with Cons that show thesis by simp
qed (use that in simp)

lemma ks_u8_inc_wc:
  assumes "0 < c" "c < 0x110000" "drop p s = ks_u8_wc_toutf8 c @ x # t" "isutf x"
  shows "ks_u8_inc s p = Some (p + length (ks_u8_wc_toutf8 c))"
proof -
  from wc_shape [OF assms(1,2)] obtain b bs where b: "ks_u8_wc_toutf8 c = b # bs"
    "length bs \<le> 3" "\<forall>x\<in>set bs. \<not> isutf x" by blast
  have r: "mem_rd s (p + k) = Some ((b # bs @ x # t) ! k)" if "k < length (b # bs @ x # t)" for k
  proof -
    have l: "length s - p = length (b # bs @ x # t)" using arg_cong [OF assms(3), of length] b by simp
    with that show ?thesis using nth_drop [of p s k] assms(3) b by (simp add: mem_rd_def)
  qed
  from b(2) consider "bs = []" | y where "bs = [y]" | y z where "bs = [y, z]"
    | y z w where "bs = [y, z, w]"
    by (auto simp: le_Suc_eq length_Suc_conv numeral_3_eq_3)
  then show ?thesis
    using r [of 1] r [of 2] r [of 3] b assms(4) by cases (simp_all add: ks_u8_inc_def b(1))
qed

lemma ks_u8_offset_text:
  "\<forall>c\<in>set cs. 0 < c \<and> c < 0x110000 \<Longrightarrow> drop p s = utf8_text cs @ 0 # r \<Longrightarrow>
   ks_u8_offset s k p = Some (p + length (utf8_text (take k cs)))"
proof (induction k arbitrary: cs p)
  case (Suc k)
  show ?case
  proof (cases cs)
    case Nil
    with Suc.prems show ?thesis using drop_eq_Cons [of p s 0 r] by (simp add: mem_rd_def)
  next
    case (Cons c cs')
    obtain x t where x: "utf8_text cs' @ 0 # r = x # t" "isutf x"
      using text_next [of cs' r] Suc.prems(1) Cons by auto
    obtain b where b: "mem_rd s p = Some b" "b \<noteq> 0"
      using toucs_char_wc [of c p s "x # t"] Suc.prems Cons x(1) by auto
    have i: "ks_u8_inc s p = Some (p + length (ks_u8_wc_toutf8 c))"
      using ks_u8_inc_wc [of c p s x t] Suc.prems Cons x by simp
    have "drop (p + length (ks_u8_wc_toutf8 c)) s = utf8_text cs' @ 0 # r"
      using Suc.prems Cons by (intro drop_behind) simp
    from Suc.IH [OF _ this] Suc.prems Cons b i show ?thesis by simp
  qed
qed simp

lemma u8_charnum_text:
  "\<forall>c\<in>set cs. 0 < c \<and> c < 0x110000 \<Longrightarrow> drop p s = utf8_text cs @ 0 # r \<Longrightarrow> k \<le> length cs \<Longrightarrow>
   u8_charnum_loop s (p + length (utf8_text (take k cs))) n p = Some (n + k)"
proof (induction k arbitrary: cs p n)
  case 0
  then show ?case by (simp add: u8_charnum_loop.simps)
next
  case (Suc k)
  then obtain c cs' where c: "cs = c # cs'" by (cases cs) auto
  obtain x t where x: "utf8_text cs' @ 0 # r = x # t" "isutf x"
    using text_next [of cs' r] Suc.prems(1) c by auto
  obtain b where b: "mem_rd s p = Some b" "b \<noteq> 0"
    using toucs_char_wc [of c p s "x # t"] Suc.prems c x(1) by auto
  have i: "ks_u8_inc s p = Some (p + length (ks_u8_wc_toutf8 c))"
    using ks_u8_inc_wc [of c p s x t] Suc.prems c x by simp
  have "ks_u8_wc_toutf8 c \<noteq> []" using wc_shape [of c] Suc.prems c by auto
  moreover have "drop (p + length (ks_u8_wc_toutf8 c)) s = utf8_text cs' @ 0 # r"
    using Suc.prems c by (intro drop_behind) simp
  from Suc.IH [OF _ this] Suc.prems c
  have "u8_charnum_loop s (p + length (ks_u8_wc_toutf8 c) + length (utf8_text (take k cs'))) (Suc n)
      (p + length (ks_u8_wc_toutf8 c)) = Some (Suc n + k)" by simp
  ultimately show ?case
    using b i c by (subst u8_charnum_loop.simps) (simp add: add.assoc)
qed

lemma nextchar_loop_foldl:
  assumes "drop p s = bs @ x # t" "isutf x" "bs \<noteq> []" "\<forall>b\<in>set (tl bs). \<not> isutf b"
  shows "nextchar_loop s p a n = Some (foldl u8_acc a bs, p + length bs, n + length bs)"
  using assms
proof (induction bs arbitrary: p a n)
  case (Cons b bs)
  have p: "p < length s" "s ! p = b" "drop (Suc p) s = bs @ x # t"
    using drop_eq_Cons [of p s b "bs @ x # t"] Cons.prems by simp_all
  obtain y u where y: "bs @ x # t = y # u" by (cases bs) auto
  have q: "Suc p < length s" "s ! Suc p = y" using drop_eq_Cons [of "Suc p" s y u] p(3) y by simp_all
  show ?case
  proof (cases bs)
    case Nil
    with Cons.prems p q y show ?thesis
      by (subst nextchar_loop.simps) (simp add: mem_rd_def u8_acc_def)
  next
    case (Cons y' bs')
    with y Cons.prems have "\<not> isutf y" "y \<noteq> 0" using isutf_0 by auto
    moreover have "nextchar_loop s (Suc p) (u8_acc a b) (Suc n) =
        Some (foldl u8_acc (u8_acc a b) bs, Suc p + length bs, Suc n + length bs)"
      using Cons Cons.prems p(3) by (intro Cons.IH) auto
    ultimately show ?thesis
      using p q by (subst nextchar_loop.simps) (simp add: mem_rd_def u8_acc_def)
  qed
qed simp

lemma ks_u8_nextchar_wc:
  assumes "0 < c" "c < 0x110000" "drop p s = ks_u8_wc_toutf8 c @ x # t" "isutf x"
  shows "ks_u8_nextchar s p = Some (c, p + length (ks_u8_wc_toutf8 c))"
proof -
  from wc_shape [OF assms(1,2)] obtain b bs where b: "ks_u8_wc_toutf8 c = b # bs"
    "length bs \<le> 3" "\<forall>x\<in>set bs. \<not> isutf x" by blast
  have "nextchar_loop s p 0 0 = Some (foldl u8_acc 0 (b # bs), p + length (b # bs), length (b # bs))"
    using nextchar_loop_foldl [of p s "b # bs" x t 0 0] assms b by simp
  moreover have "unat c < 0x110000" using assms(2) by (simp add: word_less_nat_alt)
  ultimately show ?thesis
    using foldl_u8_acc_wc [of c] b by (simp add: ks_u8_nextchar_def mem_rd_def offsetsFromUTF8_def)
qed


lemma u8_strchr_text:
  "\<forall>c\<in>set cs. 0 < c \<and> c < 0x110000 \<Longrightarrow> drop p s = utf8_text cs @ 0 # r \<Longrightarrow>
   u8_strchr_loop s ch p n =
     Some (if ch \<in> set cs then Some (p + length (utf8_text (takeWhile (\<lambda>c. c \<noteq> ch) cs))) else None,
       n + length (takeWhile (\<lambda>c. c \<noteq> ch) cs))"
proof (induction cs arbitrary: p n)
  case Nil
  then show ?case using drop_eq_Cons [of p s 0 r] by (simp add: u8_strchr_loop.simps mem_rd_def)
next
  case (Cons c cs)
  obtain x t where x: "utf8_text cs @ 0 # r = x # t" "isutf x"
    using text_next [of cs r] Cons.prems(1) by auto
  obtain b where b: "mem_rd s p = Some b" "b \<noteq> 0"
    using toucs_char_wc [of c p s "x # t"] Cons.prems x(1) by auto
  have i: "ks_u8_nextchar s p = Some (c, p + length (ks_u8_wc_toutf8 c))"
    using ks_u8_nextchar_wc [of c p s x t] Cons.prems x by simp
  have "drop (p + length (ks_u8_wc_toutf8 c)) s = utf8_text cs @ 0 # r"
    using Cons.prems by (intro drop_behind) simp
  from Cons.IH [OF _ this, of "n + 1"] Cons.prems(1) b i show ?case
    by (subst u8_strchr_loop.simps) auto
qed

lemma u8_strlen_text:
  "\<forall>c\<in>set cs. 0 < c \<and> c < 0x110000 \<Longrightarrow> drop p s = utf8_text cs @ 0 # r \<Longrightarrow>
   u8_strlen_loop s n p = u8_strlen_loop s (n + length cs) (p + length (utf8_text cs))"
proof (induction cs arbitrary: p n)
  case (Cons c cs)
  obtain x t where x: "utf8_text cs @ 0 # r = x # t" "isutf x"
    using text_next [of cs r] Cons.prems(1) by auto
  have i: "ks_u8_nextchar s p = Some (c, p + length (ks_u8_wc_toutf8 c))"
    using ks_u8_nextchar_wc [of c p s x t] Cons.prems x by simp
  have "drop (p + length (ks_u8_wc_toutf8 c)) s = utf8_text cs @ 0 # r"
    using Cons.prems by (intro drop_behind) simp
  from Cons.IH [OF _ this, of "n + 1"] Cons.prems(1) i show ?case
    by (subst u8_strlen_loop.simps) (auto simp: add.assoc)
qed simp

text \<open>
  Character positions and byte offsets of UTF-8 text correspond: \<open>ks_u8_offset\<close> of the character
  number \<open>k\<close> is the length of the encodings of the first \<open>k\<close> characters, \<open>ks_u8_charnum\<close> of that offset
  is \<open>k\<close> again, and \<open>ks_u8_strchr\<close> finds the first occurrence of a character, with its offset and its
  number, or reports its absence with the number of characters; none of them reads behind the NUL.\<close>

lemma ks_u8_positions:
  assumes "\<forall>c\<in>set cs. 0 < c \<and> c < 0x110000" "k \<le> length cs"
  shows "ks_u8_offset (utf8_text cs @ [0]) k 0 = Some (length (utf8_text (take k cs))) \<and>
     ks_u8_charnum (utf8_text cs @ [0]) (length (utf8_text (take k cs))) = Some k \<and>
     ks_u8_strchr (utf8_text cs @ [0]) ch =
       Some (if ch \<in> set cs then Some (length (utf8_text (takeWhile (\<lambda>c. c \<noteq> ch) cs))) else None,
         length (takeWhile (\<lambda>c. c \<noteq> ch) cs))"
  using ks_u8_offset_text [of cs 0 "utf8_text cs @ [0]" "[]" k]
    u8_charnum_text [of cs 0 "utf8_text cs @ [0]" "[]" k 0]
    u8_strchr_text [of cs 0 "utf8_text cs @ [0]" "[]" ch 0] assms
  by (simp_all add: ks_u8_charnum_def ks_u8_strchr_def)

text \<open>
  \<open>ks_u8_strlen\<close> counts the characters of the text, but only when the byte behind the NUL may be
  read and is no continuation byte: the loop that gathers a character looks at the next byte also
  after the NUL, so on a block that ends with the NUL it reads out of bounds.\<close>

lemma ks_u8_strlen_needs_next_byte:
  assumes "\<forall>c\<in>set cs. 0 < c \<and> c < 0x110000"
    and "isutf x"
  shows "ks_u8_strlen (utf8_text cs @ 0 # x # r) = Some (length cs) \<and>
     ks_u8_strlen (utf8_text cs @ [0]) = None"
proof -
  let ?l = "length (utf8_text cs)"
  have s: "ks_u8_strlen (utf8_text cs @ 0 # r') = u8_strlen_loop (utf8_text cs @ 0 # r') (length cs) ?l" for r'
    using u8_strlen_text [of cs 0 "utf8_text cs @ 0 # r'" r' 0] assms by (simp add: ks_u8_strlen_def)
  have "ks_u8_nextchar (utf8_text cs @ 0 # x # r) ?l = Some (0, Suc ?l)"
    using assms(2) by (simp add: ks_u8_nextchar_def nextchar_loop.simps mem_rd_def nth_append offsetsFromUTF8_def)
  moreover have "ks_u8_nextchar (utf8_text cs @ [0]) ?l = None"
    by (simp add: ks_u8_nextchar_def nextchar_loop.simps mem_rd_def nth_append)
  ultimately show ?thesis by (simp add: s u8_strlen_loop.simps)
qed

end
