(* ===== verification/Ks_Kws.thy ===== *)
theory Ks_Kws
  imports Ks_String
begin

text \<open>
  \<open>kws.c\<close>, the transport of a WebSocket connection without TLS (\<open>kws->ssl\<close> is NULL, \<open>kws->secure\<close>
  is 0): reading from and writing to the socket, with the bytes left over from the handshake, and
  closing.

  The socket is what the operating system answers: a list of answers for \<open>recv\<close> (a segment of bytes,
  from which a call takes at most what it asks for; an error that means \<open>try again\<close>; another error;
  at the end the peer has closed), a list of answers for \<open>send\<close>, and the bytes sent. The pool, the
  random numbers and SHA-1 are arguments, in the record \<open>kws_env\<close>. \<^const>\<open>None\<close> is a fault or \<open>abort\<close>.
  Sleeping and logging are left out.
\<close>

section \<open>State\<close>

datatype kws_type = KWS_CLIENT | KWS_SERVER

definition WS_BLOCK :: int where "WS_BLOCK = 10000"
definition WS_INIT_SANITY :: int where "WS_INIT_SANITY = 5000"
definition WS_WRITE_SANITY :: nat where "WS_WRITE_SANITY = 200"

definition WS_NONE :: int where "WS_NONE = 0"
definition WS_RECV_CLOSE :: int where "WS_RECV_CLOSE = 1000"
definition WS_PROTO_ERR :: int where "WS_PROTO_ERR = 1002"
definition WS_NORMAL_CLOSE :: int where "WS_NORMAL_CLOSE = 1000"

definition WSOC_CONTINUATION :: byte where "WSOC_CONTINUATION = 0"
definition WSOC_TEXT :: byte where "WSOC_TEXT = 1"
definition WSOC_BINARY :: byte where "WSOC_BINARY = 2"
definition WSOC_CLOSE :: byte where "WSOC_CLOSE = 8"
definition WSOC_PING :: byte where "WSOC_PING = 9"
definition WSOC_PONG :: byte where "WSOC_PONG = 10"
definition WSOC_INVALID :: byte where "WSOC_INVALID = 15"

definition KWS_CLOSE_SOCK :: u32 where "KWS_CLOSE_SOCK = 1"
definition KWS_BLOCK :: u32 where "KWS_BLOCK = 2"
definition KWS_STAY_OPEN :: u32 where "KWS_STAY_OPEN = 4"
definition KWS_FLAG_DONTMASK :: u32 where "KWS_FLAG_DONTMASK = 8"
definition KWS_HTTP :: u32 where "KWS_HTTP = 16"

record kws_env =
  ksha1 :: "mem \<Rightarrow> mem"
  krand :: "nat \<Rightarrow> byte"
  kjunk :: "nat \<Rightarrow> byte"
  kpool :: "nat \<Rightarrow> bool"

datatype sock_ev = Segment mem | Again | Broken
datatype send_ev = Accepts nat | Full | Refused

text \<open>
  \<open>struct kws_s\<close>: \<open>body\<close> is an offset into \<open>bbuffer\<close>, \<open>payload\<close> and \<open>unprocessed_position\<close> are offsets
  into \<open>buffer\<close>. The last five fields are the socket and the number of random bytes used so far.
\<close>

record kws =
  ksock :: bool
  ktype :: kws_type
  kbuffer :: mem
  bbuffer :: mem
  body :: nat
  kuri :: "mem option"
  buflen :: nat
  bbuflen :: nat
  datalen :: int
  payload :: nat
  plen :: int
  rplen :: int
  packetlen :: int
  handshake :: bool
  down :: nat
  kblock :: int
  sanity :: int
  logical_established :: bool
  kflags :: u32
  kx :: int
  write_buffer :: "mem option"
  write_buffer_len :: nat
  req_uri :: mem
  req_host :: "mem option"
  req_proto :: "mem option"
  req_headers :: "(mem option \<times> mem option) list"
  unprocessed_buffer_len :: nat
  unprocessed_position :: nat
  payload_size_max :: int
  kin :: "sock_ev list"
  ksend :: "send_ev list"
  kout :: mem
  kclosed :: bool
  kdrawn :: nat

definition kws_test_flag :: "kws \<Rightarrow> u32 \<Rightarrow> u32" where
  "kws_test_flag k flag = kflags k AND flag"

definition kws_set_flag :: "kws \<Rightarrow> u32 \<Rightarrow> u32 \<times> kws" where
  "kws_set_flag k flag = (kflags k OR flag, k\<lparr>kflags := kflags k OR flag\<rparr>)"

definition kws_clear_flag :: "kws \<Rightarrow> u32 \<Rightarrow> u32 \<times> kws" where
  "kws_clear_flag k flag = (kflags k AND NOT flag, k\<lparr>kflags := kflags k AND NOT flag\<rparr>)"

abbreviation kws_has :: "kws \<Rightarrow> u32 \<Rightarrow> bool" where
  "kws_has k flag \<equiv> kws_test_flag k flag \<noteq> 0"

text \<open>The two blocks that data is read into.\<close>

datatype kws_block = BUFFER | BBUFFER

fun blk :: "kws_block \<Rightarrow> kws \<Rightarrow> mem" where
  "blk BUFFER k = kbuffer k"
| "blk BBUFFER k = bbuffer k"

fun set_blk :: "kws_block \<Rightarrow> mem \<Rightarrow> kws \<Rightarrow> kws" where
  "set_blk BUFFER m k = k\<lparr>kbuffer := m\<rparr>"
| "set_blk BBUFFER m k = k\<lparr>bbuffer := m\<rparr>"

definition kws_store :: "kws_block \<Rightarrow> nat \<Rightarrow> mem \<Rightarrow> kws \<Rightarrow> kws option" where
  "kws_store w off s k = map_option (\<lambda>m. set_blk w m k) (mem_cpy (blk w k) off s)"

text \<open>\<open>gen_nonce\<close>\<close>

definition gen_nonce :: "kws_env \<Rightarrow> nat \<Rightarrow> kws \<Rightarrow> mem \<times> kws" where
  "gen_nonce E len k =
     (map (\<lambda>i. krand E (kdrawn k + i)) [0 ..< len], k\<lparr>kdrawn := kdrawn k + len\<rparr>)"

section \<open>Reading\<close>

datatype recv_res = Got mem | WouldBlock | Failed

fun sock_recv :: "nat \<Rightarrow> sock_ev list \<Rightarrow> recv_res \<times> sock_ev list" where
  "sock_recv n [] = (Got [], [])"
| "sock_recv n (Segment s # es) =
     (if length s \<le> n then (Got s, es) else (Got (take n s), Segment (drop n s) # es))"
| "sock_recv n (Again # es) = (WouldBlock, es)"
| "sock_recv n (Broken # es) = (Failed, es)"

text \<open>\<open>(int)bytes\<close>, converted to the \<open>size_t\<close> parameter of \<open>recv\<close> and \<open>send\<close>.\<close>

definition io_len :: "nat \<Rightarrow> nat" where
  "io_len bytes = nat (sint (word_of_nat bytes :: u32) mod 2 ^ 64)"

lemma sock_recv_block: "sock_recv n es = (WouldBlock, es') \<Longrightarrow> length es' < length es"
  by (cases "(n, es)" rule: sock_recv.cases) (auto split: if_splits)

text \<open>The loop around \<open>recv\<close>: the value \<open>r\<close> and the bytes stored at \<open>data\<close>.\<close>

function recv_loop :: "nat \<Rightarrow> int \<Rightarrow> kws \<Rightarrow> int \<times> mem \<times> kws" where
  "recv_loop n block k =
     (case sock_recv n (kin k) of
        (Got s, es) \<Rightarrow> (int (length s), s, k\<lparr>kin := es\<rparr>)
      | (Failed, es) \<Rightarrow> (-1, [], k\<lparr>kin := es, kx := kx k + (if block \<noteq> 0 then 1 else 0)\<rparr>)
      | (WouldBlock, es) \<Rightarrow>
          if block = 0 then (-2, [], k\<lparr>kin := es\<rparr>)
          else let k' = k\<lparr>kin := es, kx := kx k + 1\<rparr> in
            if kx k' < block div 10 then recv_loop n block k' else (-1, [], k'))"
  by pat_completeness auto

termination
  by (relation "measure (\<lambda>(_, _, k). length (kin k))") (auto dest!: sock_recv_block [OF sym])

declare recv_loop.simps [simp del]

text \<open>
  \<open>kws_raw_read\<close>: the value returned, the bytes stored at \<open>data\<close> (with the NUL behind a short read),
  and the state. Bytes left over from the handshake come first.
\<close>

definition kws_raw_read :: "nat \<Rightarrow> int \<Rightarrow> kws \<Rightarrow> (int \<times> mem \<times> kws) option" where
  "kws_raw_read bytes block k =
     (if 0 < unprocessed_buffer_len k then
        (if bytes < unprocessed_buffer_len k then
           do { s \<leftarrow> mem_sub (kbuffer k) (unprocessed_position k) bytes;
                Some (int bytes, s, k\<lparr>unprocessed_position := unprocessed_position k + bytes,
                                      unprocessed_buffer_len := unprocessed_buffer_len k - bytes\<rparr>) }
         else
           do { s \<leftarrow> mem_sub (kbuffer k) (unprocessed_position k) (unprocessed_buffer_len k);
                Some (int (unprocessed_buffer_len k), s,
                      k\<lparr>unprocessed_buffer_len := 0, unprocessed_position := 0\<rparr>) })
      else
        let (r, s, k) = recv_loop (io_len bytes) block (k\<lparr>kx := kx k + 1\<rparr>);
            r = (if 10000 \<le> kx k \<or> (block \<noteq> 0 \<and> block div 10 \<le> kx k) then -1 else r);
            s = (if 0 < r \<and> r < int bytes then s @ [0] else s)
        in Some (r, s, if 0 \<le> r then k\<lparr>kx := 0\<rparr> else k))"

text \<open>The input that is still to come.\<close>

fun ev_bytes :: "sock_ev \<Rightarrow> mem" where
  "ev_bytes (Segment s) = s"
| "ev_bytes Again = []"
| "ev_bytes Broken = []"

definition input_len :: "kws \<Rightarrow> nat" where
  "input_len k = unprocessed_buffer_len k + length (concat (map ev_bytes (kin k)))"

function raw_read_blocking_loop ::
  "kws_block \<Rightarrow> nat \<Rightarrow> nat \<Rightarrow> nat \<Rightarrow> nat \<Rightarrow> nat \<Rightarrow> kws \<Rightarrow> (nat \<times> kws) option" where
  "raw_read_blocking_loop w off max_bytes max_retries got zero k =
     (if got < max_bytes \<and> zero < max_retries then
        do { (r, s, k1) \<leftarrow> kws_raw_read (max_bytes - got) WS_BLOCK k;
             k2 \<leftarrow> kws_store w (off + got) s k1;
             if r = 0 then raw_read_blocking_loop w off max_bytes max_retries got (zero + 1) k2
             else if r < 0 then Some (got, k2)
             else raw_read_blocking_loop w off max_bytes max_retries (got + nat r) 0 k2 }
      else Some (got, k))"
  by pat_completeness auto
termination
  by (relation "(\<lambda>(_, _, m, _, t, _, _). m - t) <*mlex*> measure (\<lambda>(_, _, _, r, _, z, _). r - z)")
     (auto simp: mlex_prod_def)

declare raw_read_blocking_loop.simps [simp del]

definition kws_raw_read_blocking ::
  "kws_block \<Rightarrow> nat \<Rightarrow> nat \<Rightarrow> nat \<Rightarrow> kws \<Rightarrow> (int \<times> kws) option" where
  "kws_raw_read_blocking w off max_bytes max_retries k =
     map_option (map_prod int id) (raw_read_blocking_loop w off max_bytes max_retries 0 0 k)"

definition kws_string_read :: "kws_block \<Rightarrow> nat \<Rightarrow> nat \<Rightarrow> int \<Rightarrow> kws \<Rightarrow> (int \<times> kws) option" where
  "kws_string_read w off buffer_size block k =
     (if buffer_size < 1 then Some (-1, k)
      else do { k1 \<leftarrow> kws_store w (off + buffer_size - 1) [0] k;
                if buffer_size < 2 then Some (0, k1)
                else do { (r, s, k2) \<leftarrow> kws_raw_read (buffer_size - 1) block k1;
                          k3 \<leftarrow> kws_store w off s k2;
                          Some (r, k3) } })"

definition kws_string_read_blocking ::
  "kws_block \<Rightarrow> nat \<Rightarrow> nat \<Rightarrow> nat \<Rightarrow> kws \<Rightarrow> (int \<times> kws) option" where
  "kws_string_read_blocking w off buffer_size max_retries k =
     (if buffer_size < 1 then Some (-1, k)
      else do { k1 \<leftarrow> kws_store w (off + buffer_size - 1) [0] k;
                if buffer_size < 2 then Some (0, k1)
                else kws_raw_read_blocking w off (buffer_size - 1) max_retries k1 })"

text \<open>\<open>kws_read_buffer\<close>: the data pointer it sets is \<open>kws->buffer\<close>.\<close>

definition kws_read_buffer :: "nat \<Rightarrow> int \<Rightarrow> kws \<Rightarrow> (int \<times> kws) option" where
  "kws_read_buffer bytes block k = kws_string_read BUFFER 0 (min bytes (buflen k)) block k"

section \<open>Writing\<close>

fun sock_send :: "mem \<Rightarrow> send_ev list \<Rightarrow> nat option \<times> bool \<times> send_ev list" where
  "sock_send d [] = (Some (length d), True, [])"
| "sock_send d (Accepts n # es) = (Some (min n (length d)), True, es)"
| "sock_send d (Full # es) = (None, True, es)"
| "sock_send d (Refused # es) = (None, False, es)"

text \<open>
  The loop around \<open>send\<close>: the last result is \<^const>\<open>None\<close> for -1. A length that \<open>(int)\<close> changes makes
  \<open>send\<close> read behind the data.
\<close>

fun send_loop :: "mem \<Rightarrow> nat \<Rightarrow> nat \<Rightarrow> kws \<Rightarrow> (int \<times> kws) option" where
  "send_loop d wrote tries k =
     (let rest = drop wrote d in
      if io_len (length rest) \<noteq> length rest then None
      else
        let (r, again, es) = sock_send rest (ksend k);
            n = (case r of None \<Rightarrow> 0 | Some n \<Rightarrow> n);
            k = k\<lparr>ksend := es, kout := kout k @ take n rest\<rparr>
        in if again \<and> 1 < tries \<and> wrote + n < length d then send_loop d (wrote + n) (tries - 1) k
           else Some (if r = None then -1 else int (wrote + n), k))"

declare send_loop.simps [simp del]

definition kws_raw_write :: "mem \<Rightarrow> kws \<Rightarrow> (int \<times> kws) option" where
  "kws_raw_write d k = send_loop d 0 WS_WRITE_SANITY k"

section \<open>Closing\<close>

text \<open>Network byte order.\<close>

definition be_bytes :: "nat \<Rightarrow> nat \<Rightarrow> mem" where
  "be_bytes n v = rev (le_bytes n (word_of_nat v))"

definition be_val :: "mem \<Rightarrow> int" where
  "be_val bs = le_val (rev bs)"

definition mask_bytes :: "mem \<Rightarrow> mem \<Rightarrow> mem" where
  "mask_bytes key d = map (\<lambda>i. d ! i XOR key ! (i mod 4)) [0 ..< length d]"

text \<open>The bytes of the close frame; \<open>reason\<close> is an \<open>int16_t\<close>, 0 stands for a normal close.\<close>

definition close_reason :: "int \<Rightarrow> mem" where
  "close_reason reason = be_bytes 2 (nat ((if reason \<noteq> 0 then reason else WS_NORMAL_CLOSE) mod 2 ^ 16))"

definition close_frame :: "kws_env \<Rightarrow> int \<Rightarrow> kws \<Rightarrow> mem \<times> kws" where
  "close_frame E reason k =
     (case ktype k of
        KWS_CLIENT \<Rightarrow>
          (let (key, k) = gen_nonce E 4 k in
           ([WSOC_CLOSE OR 0x80, 2 OR 0x80] @ key @ mask_bytes key (close_reason reason), k))
      | KWS_SERVER \<Rightarrow> ([WSOC_CLOSE OR 0x80, 2] @ close_reason reason, k))"

definition kws_close :: "kws_env \<Rightarrow> int \<Rightarrow> kws \<Rightarrow> (int \<times> kws) option" where
  "kws_close E reason k =
     (if down k \<noteq> 0 then Some (-1, k)
      else do { let k = k\<lparr>down := 1, kuri := None\<rparr>;
                k \<leftarrow> (if handshake k \<and> ksock k
                      then (let (fr, k) = close_frame E reason k in map_option snd (kws_raw_write fr k))
                      else Some k);
                Some (- reason, k\<lparr>ksock := False,
                                  kclosed := kclosed k \<or> (kws_has k KWS_CLOSE_SOCK \<and> ksock k)\<rparr>) })"

end
