(* ===== verification/Ks_Kws_Hs.thy ===== *)
theory Ks_Kws_Hs
  imports Ks_Kws Ks_Base64 Ks_Types
begin

text \<open>
  \<open>kws.c\<close>, the opening handshake: header lookup, the base64 encoder of the file, the client's and the
  server's half, and the logical layer that runs them. C strings are the bytes before the NUL; texts
  printed into the fixed arrays of the code are cut at the sizes of these arrays.
\<close>

section \<open>Header lookup\<close>

text \<open>The search for the line: the name, up to case, and a colon behind it.\<close>

definition header_here :: "mem \<Rightarrow> mem \<Rightarrow> bool" where
  "header_here name p =
     (map tolower_byte (take (length name) p) = map tolower_byte name \<and>
      take 1 (drop (length name) p) = [58])"

function cheezy_find :: "mem \<Rightarrow> mem \<Rightarrow> mem option" where
  "cheezy_find name p =
     (if header_here name p then Some p
      else case dropWhile (\<lambda>c. c \<noteq> 10) p of [] \<Rightarrow> None | _ # q \<Rightarrow> cheezy_find name q)"
  by pat_completeness auto
termination
proof (relation "measure (\<lambda>(_, p). length p)")
  fix name p c q assume "dropWhile (\<lambda>c. c \<noteq> 10) p = (c :: byte) # q"
  then have "length (c # q) \<le> length p" using length_dropWhile_le [of "\<lambda>c. c \<noteq> 10" p] by simp
  then show "((name, q), name :: mem, p) \<in> measure (\<lambda>(_, p). length p)" by simp
qed simp

declare cheezy_find.simps [simp del]

text \<open>The value: \<^const>\<open>None\<close> when the function returns 0 and leaves the buffer.\<close>

definition cheezy_get_var :: "mem \<Rightarrow> mem \<Rightarrow> nat \<Rightarrow> mem option option" where
  "cheezy_get_var data name len =
     (if len = 0 then None
      else Some (do {
        p \<leftarrow> cheezy_find name data;
        v \<leftarrow> (case dropWhile (\<lambda>c. c \<noteq> 58) p of [] \<Rightarrow> None | _ # v \<Rightarrow> Some (dropWhile (\<lambda>c. c = SPACE) v));
        map_option (take (len - 1))
          (if 13 \<in> set v then Some (takeWhile (\<lambda>c. c \<noteq> 13) v)
           else if 10 \<in> set v then Some (takeWhile (\<lambda>c. c \<noteq> 10) v) else None) }))"

section \<open>Base64\<close>

text \<open>\<open>b64encode\<close> has no output limit: its loops are those of \<open>ks_b64_encode\<close> without the tests.\<close>

fun b64_group :: "u32 \<Rightarrow> nat \<Rightarrow> nat \<Rightarrow> mem \<Rightarrow> (nat \<times> nat \<times> mem) option" where
  "b64_group b l n out =
     (if 6 \<le> l then
        do { out' \<leftarrow> mem_wr out n (ks_b64_table ! unat (drop_bit (l - 6) b mod 64));
             b64_group b (l - 6) (n + 1) out' }
      else Some (l, n, out))"

declare b64_group.simps [simp del]

fun b64_loop :: "mem \<Rightarrow> u32 \<Rightarrow> nat \<Rightarrow> nat \<Rightarrow> mem \<Rightarrow> (u32 \<times> nat \<times> nat \<times> mem) option" where
  "b64_loop [] b l n out = Some (b, l, n, out)"
| "b64_loop (c # cs) b l n out =
     do { let b' = push_bit 8 b + ucast c;
          (l', n', out') \<leftarrow> b64_group b' (l + 8) n out;
          b64_loop cs b' l' n' out' }"

function b64_pad :: "nat \<Rightarrow> nat \<Rightarrow> mem \<Rightarrow> mem option" where
  "b64_pad l n out =
     (if l < 6 then do { out' \<leftarrow> mem_wr out n 61; b64_pad (l + 2) (n + 1) out' } else Some out)"
  by pat_completeness auto
termination by (relation "measure (\<lambda>(l, _). 6 - l)") auto

declare b64_pad.simps [simp del]

definition b64encode :: "mem \<Rightarrow> mem \<Rightarrow> mem option" where
  "b64encode inp out =
     do { (b, l, n, out') \<leftarrow> b64_loop inp 0 0 0 out;
          if 0 < l then do { out'' \<leftarrow> mem_wr out' n (ks_b64_table ! unat (push_bit (6 - l) (b mod 16) mod 64));
                             b64_pad l (n + 1) out'' }
          else Some out' }"

text \<open>\<open>b64encode\<close> into a zeroed array, read as a string.\<close>

definition b64_text :: "nat \<Rightarrow> mem \<Rightarrow> mem option" where
  "b64_text len inp = do { out \<leftarrow> b64encode inp (replicate len 0); c_str out }"

section \<open>Texts\<close>

definition ascii :: "string \<Rightarrow> mem" where
  "ascii s = map of_char s"

definition CRLF :: mem where "CRLF = [13, 10]"

definition WEBSOCKET_GUID :: mem where
  "WEBSOCKET_GUID = ascii ''258EAFA5-E914-47DA-95CA-C5AB0DC85B11''"

text \<open>\<open>snprintf(buf, size, \<dots>)\<close>: the string that \<open>buf\<close> holds afterwards.\<close>

definition printed :: "nat \<Rightarrow> mem \<Rightarrow> mem" where
  "printed len t = take (len - 1) t"

definition accept_key :: "kws_env \<Rightarrow> nat \<Rightarrow> mem \<Rightarrow> mem option" where
  "accept_key E len key = b64_text 256 (ksha1 E (printed len (key @ WEBSOCKET_GUID)))"

definition verify_accept :: "kws_env \<Rightarrow> mem \<Rightarrow> mem \<Rightarrow> bool option" where
  "verify_accept E enonce accept = map_option (\<lambda>b. b = accept) (accept_key E 256 enonce)"

definition has_text :: "mem \<Rightarrow> mem \<Rightarrow> bool" where
  "has_text t s = (strstr_at s t 0 \<noteq> None)"

definition header_end :: "mem \<Rightarrow> bool" where
  "header_end s = (has_text (CRLF @ CRLF) s \<or> has_text [10, 10] s)"

section \<open>Progress of reads\<close>

lemma sock_recv_input:
  "sock_recv n es = (Got s, es') \<Longrightarrow>
   length (concat (map ev_bytes es)) = length s + length (concat (map ev_bytes es'))"
  by (cases "(n, es)" rule: sock_recv.cases) (auto split: if_splits)

lemma sock_recv_input_other:
  "sock_recv n es = (r, es') \<Longrightarrow> r = WouldBlock \<or> r = Failed \<Longrightarrow>
   concat (map ev_bytes es') = concat (map ev_bytes es)"
  by (cases "(n, es)" rule: sock_recv.cases) (auto split: if_splits)

lemma recv_loop_input:
  "recv_loop n block k = (r, s, k') \<Longrightarrow>
   input_len k = nat r + input_len k' \<and> unprocessed_buffer_len k' = unprocessed_buffer_len k"
proof (induction n block k arbitrary: r s k' rule: recv_loop.induct)
  case (1 n block k)
  obtain res es where e: "sock_recv n (kin k) = (res, es)" by fastforce
  show ?case
  proof (cases res)
    case (Got d)
    with "1.prems" e sock_recv_input [of n "kin k" d es] show ?thesis
      by (auto simp: recv_loop.simps [of n block k] input_len_def)
  next
    case Failed
    with "1.prems" e sock_recv_input_other [of n "kin k" res es] show ?thesis
      by (auto simp: recv_loop.simps [of n block k] input_len_def)
  next
    case WouldBlock
    define k1 where "k1 = k\<lparr>kin := es, kx := kx k + 1\<rparr>"
    have i: "input_len k1 = input_len k" "unprocessed_buffer_len k1 = unprocessed_buffer_len k"
      using sock_recv_input_other [of n "kin k" res es] e WouldBlock by (simp_all add: k1_def input_len_def)
    have i0: "input_len (k\<lparr>kin := es\<rparr>) = input_len k"
      using sock_recv_input_other [of n "kin k" res es] e WouldBlock by (simp add: input_len_def)
    show ?thesis
    proof (cases "block \<noteq> 0 \<and> kx k1 < block div 10")
      case True
      with "1.prems" e WouldBlock have "recv_loop n block k1 = (r, s, k')"
        by (simp add: recv_loop.simps [of n block k] k1_def Let_def)
      from "1.IH" [OF e [symmetric] WouldBlock _ k1_def _ this] True i show ?thesis by simp
    next
      case False
      with "1.prems" e WouldBlock i i0 show ?thesis
        by (auto simp: recv_loop.simps [of n block k] k1_def Let_def split: if_splits)
    qed
  qed
qed

lemma kws_raw_read_input:
  assumes "kws_raw_read n block k = Some (r, s, k')"
  shows "nat r + input_len k' \<le> input_len k"
proof (cases "0 < unprocessed_buffer_len k")
  case True
  with assms show ?thesis by (auto simp: kws_raw_read_def input_len_def bind_eq_Some_conv split: if_splits)
next
  case False
  obtain r1 s1 k1 where e: "recv_loop (io_len n) block (k\<lparr>kx := kx k + 1\<rparr>) = (r1, s1, k1)"
    by (metis prod_cases3)
  have "input_len (k1\<lparr>kx := y\<rparr>) = input_len k1" "input_len (k\<lparr>kx := y\<rparr>) = input_len k" for y
    by (simp_all add: input_len_def)
  with assms False recv_loop_input [OF e] show ?thesis
    by (auto simp: kws_raw_read_def e Let_def split: if_splits)
qed

lemma kws_store_input: "kws_store w off s k = Some k' \<Longrightarrow> input_len k' = input_len k"
  by (cases w) (auto simp: kws_store_def input_len_def)

lemma kws_string_read_input:
  "kws_string_read w off n block k = Some (r, k') \<Longrightarrow> nat r + input_len k' \<le> input_len k"
  by (auto simp: kws_string_read_def bind_eq_Some_conv split: if_splits
      dest!: kws_store_input kws_raw_read_input)

section \<open>The client's half\<close>

definition opt_text :: "mem option \<Rightarrow> mem" where
  "opt_text t = (case t of None \<Rightarrow> [] | Some s \<Rightarrow> s)"

fun extra_headers :: "(mem option \<times> mem option) list \<Rightarrow> mem" where
  "extra_headers [] = []"
| "extra_headers ((Some k, Some v) # hs) = k @ ascii '': '' @ v @ CRLF @ extra_headers hs"
| "extra_headers (_ # hs) = extra_headers hs"

definition client_request :: "kws \<Rightarrow> mem \<Rightarrow> mem" where
  "client_request k enonce =
     ascii ''GET '' @ req_uri k @ ascii '' HTTP/1.1'' @ CRLF @
     ascii ''Host: '' @ opt_text (req_host k) @ CRLF @
     ascii ''Upgrade: websocket'' @ CRLF @
     ascii ''Connection: Upgrade'' @ CRLF @
     ascii ''Sec-WebSocket-Key: '' @ enonce @ CRLF @
     ascii ''Sec-WebSocket-Version: 13'' @ CRLF @
     (case req_proto k of None \<Rightarrow> [] | Some p \<Rightarrow> ascii ''Sec-WebSocket-Protocol: '' @ p @ CRLF) @
     extra_headers (req_headers k) @ CRLF"

text \<open>The read loop of the client never advances \<open>kws->datalen\<close>.\<close>

function client_read :: "kws \<Rightarrow> (int \<times> kws) option" where
  "client_read k =
     do { _ \<leftarrow> (if 0 \<le> datalen k \<and> datalen k \<le> int (buflen k) then Some () else None);
          (bytes, k') \<leftarrow> kws_string_read BUFFER (nat (datalen k)) (buflen k - nat (datalen k)) WS_BLOCK k;
          if 0 < bytes then
            do { s \<leftarrow> c_str (kbuffer k');
                 if has_text (CRLF @ CRLF) s then Some (bytes, k') else client_read k' }
          else Some (bytes, k') }"
  by pat_completeness auto
termination
  by (relation "measure input_len") (auto split: if_splits dest!: kws_string_read_input)

declare client_read.simps [simp del]

text \<open>The check of the response, and the bytes behind it, which are kept for the first frame.\<close>

definition client_accept :: "kws_env \<Rightarrow> mem \<Rightarrow> mem \<Rightarrow> bool option" where
  "client_accept E enonce s =
     do { accept \<leftarrow> cheezy_get_var s (ascii ''Sec-WebSocket-Accept'') 128;
          case accept of None \<Rightarrow> Some False
          | Some a \<Rightarrow> if a = [] then Some False else verify_accept E enonce a }"

definition keep_rest :: "mem \<Rightarrow> nat \<Rightarrow> kws \<Rightarrow> kws" where
  "keep_rest s bytes k =
     (case strstr_at s (CRLF @ CRLF) 0 of None \<Rightarrow> k
      | Some e \<Rightarrow> if e + 4 < bytes
          then k\<lparr>unprocessed_buffer_len := bytes - (e + 4), unprocessed_position := e + 4\<rparr> else k)"

definition ws_client_handshake :: "kws_env \<Rightarrow> kws \<Rightarrow> (int \<times> kws) option" where
  "ws_client_handshake E k =
     do { let (nonce, k) = gen_nonce E 16 k;
          enonce \<leftarrow> b64_text 128 nonce;
          (_, k) \<leftarrow> kws_raw_write (client_request k enonce) k;
          (bytes, k) \<leftarrow> client_read k;
          if 0 < bytes then
            do { s \<leftarrow> c_str (kbuffer k);
                 ok \<leftarrow> client_accept E enonce s;
                 if ok then Some (0, (keep_rest s (nat bytes) k)\<lparr>handshake := True\<rparr>) else Some (-1, k) }
          else Some (-1, k) }"

section \<open>The server's half\<close>

lemma input_len_datalen [simp]: "input_len (k\<lparr>datalen := n\<rparr>) = input_len k"
  by (simp add: input_len_def)

text \<open>The read loop, also of \<open>kws_keepalive\<close>: the last count and the state.\<close>

function server_read :: "kws \<Rightarrow> (int \<times> kws) option" where
  "server_read k =
     do { _ \<leftarrow> (if 0 \<le> datalen k \<and> datalen k \<le> int (buflen k) then Some () else None);
          (bytes, k') \<leftarrow> kws_string_read BUFFER (nat (datalen k)) (buflen k - nat (datalen k)) WS_BLOCK k;
          if 0 < bytes then
            do { let k' = k'\<lparr>datalen := datalen k + bytes\<rparr>;
                 s \<leftarrow> c_str (kbuffer k');
                 if header_end s then Some (bytes, k') else server_read k' }
          else Some (bytes, k') }"
  by pat_completeness auto

termination
  by (relation "measure input_len") (auto split: if_splits dest!: kws_string_read_input)

declare server_read.simps [simp del]

definition kws_keepalive :: "kws \<Rightarrow> (ks_status \<times> kws) option" where
  "kws_keepalive k =
     map_option (\<lambda>(bytes, k). (if 0 < bytes then KS_STATUS_SUCCESS else KS_STATUS_FAIL, k))
       (server_read (k\<lparr>datalen := 0\<rparr>))"

definition server_response :: "mem \<Rightarrow> mem option \<Rightarrow> mem" where
  "server_response b64 proto =
     ascii ''HTTP/1.1 101 Switching Protocols'' @ CRLF @
     ascii ''Upgrade: websocket'' @ CRLF @
     ascii ''Connection: Upgrade'' @ CRLF @
     ascii ''Sec-WebSocket-Accept: '' @ b64 @ CRLF @
     (case proto of None \<Rightarrow> []
      | Some p \<Rightarrow> printed 384 (ascii ''Sec-WebSocket-Protocol: '' @ p @ CRLF)) @ CRLF"

definition bad_request :: mem where
  "bad_request = ascii ''HTTP/1.1 400 Bad Request'' @ CRLF @ ascii ''Sec-WebSocket-Version: 13'' @ CRLF @ CRLF"

text \<open>A header that is absent leaves the empty string of its array.\<close>

definition header_var :: "mem \<Rightarrow> string \<Rightarrow> nat \<Rightarrow> mem option" where
  "header_var s name len = map_option opt_text (cheezy_get_var s (ascii name) len)"

text \<open>What the request asks for: the URI, if the line is one of a GET request, the key and the protocol.\<close>

definition request_uri :: "mem \<Rightarrow> mem option" where
  "request_uri s =
     (if map tolower_byte (take 4 s) = ascii ''get '' \<and> SPACE \<in> set (drop 4 s)
      then Some (takeWhile (\<lambda>c. c \<noteq> SPACE) (drop 4 s)) else None)"

definition server_reply :: "kws_env \<Rightarrow> mem \<Rightarrow> kws \<Rightarrow> (bool \<times> kws) option" where
  "server_reply E s k =
     (case request_uri s of None \<Rightarrow> Some (False, k)
      | Some uri \<Rightarrow>
        do { let k = k\<lparr>kuri := Some uri\<rparr>;
             key \<leftarrow> header_var s ''Sec-WebSocket-Key'' 256;
             version \<leftarrow> header_var s ''Sec-WebSocket-Version'' 5;
             proto \<leftarrow> header_var s ''Sec-WebSocket-Protocol'' 256;
             if key = [] then Some (False, k)
             else do { b64 \<leftarrow> accept_key E 512 key;
                       let respond = take 511 (printed 1024
                             (server_response b64 (if proto = [] then None else Some proto)));
                       (r, k) \<leftarrow> kws_raw_write respond k;
                       Some (r = int (length respond), k) } })"

definition server_refuse :: "kws_env \<Rightarrow> int \<Rightarrow> kws \<Rightarrow> (int \<times> kws) option" where
  "server_refuse E bytes k =
     (if \<not> kws_has k KWS_STAY_OPEN then
        do { k \<leftarrow> (if 0 < bytes then map_option snd (kws_raw_write bad_request k) else Some k);
             (_, k) \<leftarrow> kws_close E WS_NONE k;
             Some (-1, k) }
      else if kws_has k KWS_HTTP then Some (0, k\<lparr>handshake := True\<rparr>)
      else Some (-1, k))"

definition ws_server_handshake :: "kws_env \<Rightarrow> kws \<Rightarrow> (int \<times> kws) option" where
  "ws_server_handshake E k =
     (if \<not> ksock k then Some (-3, k)
      else do { (bytes, k) \<leftarrow> server_read k;
                if bytes < 0 \<or> int (buflen k) - 1 < bytes then server_refuse E bytes k
                else do { k \<leftarrow> kws_store BUFFER (nat (datalen k)) [0] k;
                          s \<leftarrow> c_str (kbuffer k);
                          (ok, k) \<leftarrow> server_reply E s k;
                          if ok then Some (0, k\<lparr>handshake := True, kflags := kflags k AND NOT KWS_HTTP\<rparr>)
                          else server_refuse E bytes k } })"

section \<open>The logical layer\<close>

text \<open>
  Without TLS the layer is the handshake. The loop \<open>while (!down && !handshake)\<close> runs at most once,
  because both halves set \<open>handshake\<close> whenever they do not fail.
\<close>

lemma server_refuse_handshake: "server_refuse E bytes k = Some (r, k') \<Longrightarrow> 0 \<le> r \<Longrightarrow> handshake k'"
  by (auto simp: server_refuse_def bind_eq_Some_conv split: if_splits)

lemma ws_server_handshake_sets:
  "ws_server_handshake E k = Some (r, k') \<Longrightarrow> 0 \<le> r \<Longrightarrow> handshake k'"
  by (auto simp: ws_server_handshake_def bind_eq_Some_conv split: if_splits dest: server_refuse_handshake)

lemma ws_client_handshake_sets:
  "ws_client_handshake E k = Some (r, k') \<Longrightarrow> 0 \<le> r \<Longrightarrow> handshake k'"
  by (auto simp: ws_client_handshake_def bind_eq_Some_conv Let_def split: if_splits prod.splits)

definition establish_logical_layer :: "kws_env \<Rightarrow> kws \<Rightarrow> (int \<times> kws) option" where
  "establish_logical_layer E k =
     (if sanity k = 0 then Some (-1, k)
      else if logical_established k then Some (0, k)
      else if down k = 0 \<and> \<not> handshake k then
        do { (r, k) \<leftarrow> (case ktype k of KWS_CLIENT \<Rightarrow> ws_client_handshake E k
                         | KWS_SERVER \<Rightarrow> ws_server_handshake E k);
             if r < 0 then Some (-1, k\<lparr>down := 1\<rparr>)
             else if \<not> handshake k \<and> kblock k = 0 then Some (-2, k)
             else Some (0, k\<lparr>logical_established := True\<rparr>) }
      else Some (0, k\<lparr>logical_established := True\<rparr>))"

end
