(* ===== verification/Ks_Kws_Frame.thy ===== *)
theory Ks_Kws_Frame
  imports Ks_Kws_Hs
begin

text \<open>
  \<open>kws.c\<close>, WebSocket frames: \<open>kws_write_frame\<close>, and \<open>kws_read_frame\<close> as one pass per frame
  (\<open>frame_pass\<close>) and the loop over the fragments of a message (\<open>goto again\<close>).
\<close>

section \<open>Writing a frame\<close>

text \<open>The header before masking: opcode, length in 7, 16 or 64 bits.\<close>

definition frame_header :: "byte \<Rightarrow> nat \<Rightarrow> mem" where
  "frame_header oc bytes =
     (oc OR 0x80) # (if bytes < 126 then [word_of_nat bytes]
        else if bytes < 0x10000 then 126 # be_bytes 2 bytes
        else 127 # be_bytes 8 bytes)"

text \<open>The write buffer is enlarged to the frame and one byte; a failing pool aborts.\<close>

definition grow_write_buffer :: "kws_env \<Rightarrow> nat \<Rightarrow> kws \<Rightarrow> kws option" where
  "grow_write_buffer E need k =
     (if write_buffer_len k < need then
        (if kpool E need then
           Some (k\<lparr>write_buffer_len := need,
                   write_buffer := Some (mem_realloc (kjunk E)
                     (case write_buffer k of None \<Rightarrow> [] | Some m \<Rightarrow> m) need)\<rparr>)
         else None)
      else Some k)"

definition kws_write_frame :: "kws_env \<Rightarrow> byte \<Rightarrow> mem \<Rightarrow> kws \<Rightarrow> (int \<times> kws) option" where
  "kws_write_frame E oc d k =
     (if down k \<noteq> 0 then Some (-1, k)
      else do {
        let bytes = length d;
        let msk = \<not> kws_has k KWS_FLAG_DONTMASK;
        let hdr = frame_header oc bytes;
        k \<leftarrow> grow_write_buffer E (length hdr + bytes + 1 + (if msk then 4 else 0)) k;
        bp \<leftarrow> write_buffer k;
        bp \<leftarrow> mem_cpy bp 0 hdr;
        (bp, hlen, k) \<leftarrow>
          (if msk then
             (let (key, k) = gen_nonce E 4 k in
              do { bp \<leftarrow> mem_wr bp 1 (bp ! 1 OR 0x80);
                   bp \<leftarrow> mem_cpy bp (length hdr) key;
                   bp \<leftarrow> mem_cpy bp (length hdr + 4) (mask_bytes key d);
                   Some (bp, length hdr + 4, k) })
           else do { bp \<leftarrow> mem_cpy bp (length hdr) d; Some (bp, length hdr, k) });
        (r, k) \<leftarrow> kws_raw_write (take (hlen + bytes) bp) (k\<lparr>write_buffer := Some bp\<rparr>);
        Some (if r \<le> 0 \<or> r \<noteq> int (hlen + bytes) then r else int bytes, k) })"

section \<open>Reading a frame\<close>

text \<open>Where \<open>*data\<close> points.\<close>

datatype data_ref = NoData | AtBuffer nat | AtBody

text \<open>\<open>return kws_close(\<dots>)\<close>: the end of a pass with a value, the opcode and the data pointer.\<close>

type_synonym pass_end = "(int \<times> byte \<times> data_ref) + (bool \<times> byte)"

definition close_pass :: "kws_env \<Rightarrow> int \<Rightarrow> byte \<Rightarrow> data_ref \<Rightarrow> kws \<Rightarrow> (pass_end \<times> kws) option" where
  "close_pass E reason oc dr k =
     map_option (\<lambda>(r, k). (Inl (r, oc, dr), k)) (kws_close E reason k)"

text \<open>\<open>if (need > kws->datalen) { ... }\<close>: the rest of the header; \<^const>\<open>False\<close> when it does not come.\<close>

definition fill_header :: "int \<Rightarrow> kws \<Rightarrow> (bool \<times> kws) option" where
  "fill_header need k =
     (if datalen k < need then
        do { (bytes, k') \<leftarrow> kws_string_read_blocking BUFFER (nat (datalen k)) (nat (need - datalen k + 1)) 10 k;
             if bytes < 0 then Some (False, k')
             else Some (need \<le> datalen k' + bytes, k'\<lparr>datalen := datalen k' + bytes\<rparr>) }
      else Some (True, k))"

text \<open>The length field: the number of header bytes with it, and whether they came.\<close>

definition read_length :: "int \<Rightarrow> kws \<Rightarrow> (bool \<times> int \<times> kws) option" where
  "read_length need k =
     do { c1 \<leftarrow> mem_rd (kbuffer k) 1;
          let k = k\<lparr>plen := uint (c1 AND 0x7f), payload := 2\<rparr>;
          if plen k = 127 then
            do { (ok, k) \<leftarrow> fill_header (need + 8) k;
                 if \<not> ok then Some (False, need + 8, k)
                 else do { b \<leftarrow> mem_sub (kbuffer k) 2 8;
                           Some (True, need + 8, k\<lparr>payload := 10,
                                                  plen := sint (word_of_int (be_val b) :: u64)\<rparr>) } }
          else if plen k = 126 then
            do { (ok, k) \<leftarrow> fill_header (need + 2) k;
                 if \<not> ok then Some (False, need + 2, k)
                 else do { b \<leftarrow> mem_sub (kbuffer k) 2 2;
                           Some (True, need + 2, k\<lparr>payload := 4, plen := be_val b\<rparr>) } }
          else Some (True, need, k) }"

text \<open>
  Room for the payload and a NUL behind what the body holds already; \<^const>\<open>False\<close> when the size limit is
  exceeded, which leaves \<open>bbuflen\<close> at the refused size. \<open>blen\<close> is an \<open>int\<close>: a body of \<open>2^31\<close> bytes and
  more wraps, and a negative offset is a fault. The sum \<open>blen + plen\<close> is a \<open>ks_ssize_t\<close>: when it passes
  \<open>2^63\<close> it is negative, and neither the limit nor the size of the buffer is looked at.
\<close>

definition grow_body :: "kws_env \<Rightarrow> kws \<Rightarrow> (bool \<times> kws) option" where
  "grow_body E k =
     (let blen = sint (word_of_nat (body k) :: u32);
          total = sint (word_of_int (blen + plen k) :: u64) in
      if sint (word_of_nat (bbuflen k) :: u64) \<le> total then
        let n = nat ((total + 1) mod 2 ^ 64);
            k = k\<lparr>bbuflen := n\<rparr>
        in if payload_size_max k \<noteq> 0 \<and> payload_size_max k mod 2 ^ 64 < int n then Some (False, k)
           else if kpool E n \<and> 0 \<le> blen
           then Some (True, k\<lparr>bbuffer := mem_realloc (kjunk E) (bbuffer k) n, body := nat blen\<rparr>)
           else None
      else Some (True, k))"

text \<open>
  \<open>while (need)\<close>. A read returns at most \<open>need\<close> bytes, so \<open>need\<close> never passes 0.
\<close>

function body_loop :: "int \<Rightarrow> kws \<Rightarrow> (bool \<times> kws) option" where
  "body_loop need k =
     (if 0 < need then
        do { (r, k) \<leftarrow> kws_string_read BBUFFER (body k + nat (rplen k)) (nat need + 1) WS_BLOCK k;
             if r < 1 then Some (False, k)
             else body_loop (need - r) (k\<lparr>datalen := datalen k + r, rplen := rplen k + r\<rparr>) }
      else Some (True, k))"
  by pat_completeness auto
termination by (relation "measure (\<lambda>(need, _). nat need)") auto

declare body_loop.simps [simp del]

definition unmask_body :: "nat \<Rightarrow> kws \<Rightarrow> kws option" where
  "unmask_body maskp k =
     do { key \<leftarrow> mem_sub (kbuffer k) maskp 4;
          d \<leftarrow> mem_sub (bbuffer k) (body k) (nat (plen k));
          kws_store BBUFFER (body k) (mask_bytes key d) k }"

text \<open>
  The payload: what was read with the header is copied, the rest is read; \<^const>\<open>False\<close> when the limit is
  exceeded or the rest does not come.
\<close>

definition fill_body :: "kws_env \<Rightarrow> int \<Rightarrow> kws \<Rightarrow> (bool \<times> kws) option" where
  "fill_body E need k =
     do { (ok, k) \<leftarrow> grow_body E k;
          if \<not> ok then Some (False, k)
          else do { let k = k\<lparr>rplen := plen k - need\<rparr>;
                    _ \<leftarrow> (if body k + nat (plen k) \<le> bbuflen k then Some () else None);
                    s \<leftarrow> mem_sub (kbuffer k) (payload k) (nat (rplen k));
                    k \<leftarrow> kws_store BBUFFER (body k) s k;
                    body_loop need k } }"

definition finish_payload :: "bool \<Rightarrow> bool \<Rightarrow> byte \<Rightarrow> nat \<Rightarrow> kws \<Rightarrow> (pass_end \<times> kws) option" where
  "finish_payload frag msk oc maskp k =
     do { k \<leftarrow> (if msk then unmask_body maskp k else Some k);
          k \<leftarrow> (if oc = WSOC_TEXT then kws_store BBUFFER (body k + nat (rplen k)) [0] k else Some k);
          let k = k\<lparr>packetlen := packetlen k + rplen k, body := body k + nat (rplen k)\<rparr>;
          Some (if frag then Inr (True, oc) else Inl (packetlen k, oc, AtBody), k) }"

text \<open>A data frame: the code from the switch to the end of its case.\<close>

definition read_payload ::
  "kws_env \<Rightarrow> bool \<Rightarrow> bool \<Rightarrow> byte \<Rightarrow> int \<Rightarrow> kws \<Rightarrow> (pass_end \<times> kws) option" where
  "read_payload E frag msk oc hdr k =
     do { let k1 = (if msk then k\<lparr>payload := payload k + 4\<rparr> else k);
          let need = plen k - (datalen k - hdr);
          if need < 0 then close_pass E WS_NONE WSOC_CLOSE NoData k1
          else do { (ok, k2) \<leftarrow> fill_body E need k1;
                    if \<not> ok then close_pass E WS_NONE WSOC_CLOSE NoData k2
                    else finish_payload frag msk oc (payload k) k2 } }"

definition read_data :: "kws_env \<Rightarrow> bool \<Rightarrow> byte \<Rightarrow> byte \<Rightarrow> byte \<Rightarrow> kws \<Rightarrow> (pass_end \<times> kws) option" where
  "read_data E frag oc c0 c1 k =
     do { let fin = bit c0 7;
          let msk = bit c1 7;
          let frag = (if \<not> fin \<and> oc \<noteq> WSOC_CONTINUATION then True
                      else if fin \<and> oc = WSOC_CONTINUATION then False else frag);
          (ok, k) \<leftarrow> (if msk then fill_header 6 k else Some (True, k));
          if \<not> ok then close_pass E WS_NONE WSOC_CLOSE NoData k
          else do { (ok, hdr, k) \<leftarrow> read_length (if msk then 6 else 2) k;
                    if \<not> ok then close_pass E WS_NONE WSOC_CLOSE NoData k
                    else read_payload E frag msk oc hdr k } }"

text \<open>The first two bytes: the value returned, or \<^const>\<open>None\<close> inside when the pass goes on.\<close>

definition read_start :: "kws_env \<Rightarrow> kws \<Rightarrow> (int option \<times> kws) option" where
  "read_start E k =
     do { (n, k) \<leftarrow> kws_string_read BUFFER 0 10 (kblock k) k;
          let k = k\<lparr>datalen := n\<rparr>;
          if n < 0 then
            (if n = -2 then Some (Some (-2), k) else map_option (map_prod Some id) (kws_close E WS_NONE k))
          else if n < 2 then
            do { (b, k) \<leftarrow> kws_string_read BUFFER (nat n) (9 - nat n) WS_BLOCK k;
                 let k = (if b < 0 then k else k\<lparr>datalen := n + b\<rparr>);
                 if b < 0 \<or> datalen k < 2
                 then map_option (map_prod Some id) (kws_close E WS_NONE k)
                 else Some (None, k) }
          else Some (None, k) }"

definition frame_pass :: "kws_env \<Rightarrow> bool \<Rightarrow> byte \<Rightarrow> kws \<Rightarrow> (pass_end \<times> kws) option" where
  "frame_pass E frag oc k =
     do { (ll, k) \<leftarrow> establish_logical_layer E k;
          if ll < 0 then Some (Inl (ll, oc, NoData), k)
          else if down k \<noteq> 0 then Some (Inl (-1, oc, NoData), k)
          else if \<not> handshake k then close_pass E WS_NONE oc NoData k
          else do {
            (stop, k) \<leftarrow> read_start E k;
            case stop of Some r \<Rightarrow> Some (Inl (r, oc, NoData), k)
            | None \<Rightarrow>
              do { c0 \<leftarrow> mem_rd (kbuffer k) 0;
                   c1 \<leftarrow> mem_rd (kbuffer k) 1;
                   let oc = c0 AND 0xf;
                   if oc = WSOC_CLOSE then
                     close_pass E WS_RECV_CLOSE oc (AtBuffer 2) (k\<lparr>plen := uint (c1 AND 0x7f)\<rparr>)
                   else if oc \<in> {WSOC_CONTINUATION, WSOC_TEXT, WSOC_BINARY, WSOC_PING, WSOC_PONG} then
                     read_data E frag oc c0 c1 k
                   else close_pass E WS_PROTO_ERR WSOC_CLOSE NoData k } } }"

section \<open>A pass consumes input\<close>

lemma input_len_updates [simp]:
  "input_len (k\<lparr>plen := a\<rparr>) = input_len k" "input_len (k\<lparr>payload := b\<rparr>) = input_len k"
  "input_len (k\<lparr>rplen := c\<rparr>) = input_len k" "input_len (k\<lparr>packetlen := c\<rparr>) = input_len k"
  "input_len (k\<lparr>body := b\<rparr>) = input_len k" "input_len (k\<lparr>bbuflen := b\<rparr>) = input_len k"
  "input_len (k\<lparr>bbuffer := m\<rparr>) = input_len k" "input_len (k\<lparr>logical_established := l\<rparr>) = input_len k"
  by (simp_all add: input_len_def)

lemma raw_read_blocking_loop_input:
  "raw_read_blocking_loop w off m rt got zero k = Some (n, k') \<Longrightarrow> input_len k' \<le> input_len k"
proof (induction w off m rt got zero k arbitrary: n k' rule: raw_read_blocking_loop.induct)
  case (1 w off m rt got zero k)
  show ?case
  proof (cases "got < m \<and> zero < rt")
    case False
    with "1.prems" show ?thesis by (simp add: raw_read_blocking_loop.simps [of w off m rt got zero k])
  next
    case True
    with "1.prems" obtain r s k1 k2 where r: "kws_raw_read (m - got) WS_BLOCK k = Some (r, s, k1)"
      "kws_store w (off + got) s k1 = Some k2"
      by (auto simp: raw_read_blocking_loop.simps [of w off m rt got zero k] bind_eq_Some_conv)
    have i: "input_len k2 \<le> input_len k" using kws_raw_read_input [OF r(1)] kws_store_input [OF r(2)] by simp
    consider "r = 0" | "r < 0" | "0 < r" by linarith
    then show ?thesis
    proof cases
      case 1
      with "1.prems" True r i "1.IH"(1) [OF True r(1) refl refl r(2) 1, of n k'] show ?thesis
        by (simp add: raw_read_blocking_loop.simps [of w off m rt got zero k])
    next
      case 2
      with "1.prems" True r i show ?thesis
        by (simp add: raw_read_blocking_loop.simps [of w off m rt got zero k])
    next
      case 3
      with "1.prems" True r i "1.IH"(2) [OF True r(1) refl refl r(2), of n k'] show ?thesis
        by (simp add: raw_read_blocking_loop.simps [of w off m rt got zero k])
    qed
  qed
qed

lemma send_loop_input: "send_loop d n t k = Some (r, k') \<Longrightarrow> input_len k' = input_len k"
proof (induction d n t k arbitrary: r k' rule: send_loop.induct)
  case (1 d n t k)
  show ?case
  proof (cases "io_len (length (drop n d)) = length (drop n d)")
    case False
    with "1.prems" show ?thesis by (simp add: send_loop.simps [of d n t k])
  next
    case True
    obtain a b es where e: "sock_send (drop n d) (ksend k) = (a, b, es)" by (metis prod_cases3)
    define m where "m = (case a of None \<Rightarrow> 0 | Some n \<Rightarrow> n)"
    define k1 where "k1 = k\<lparr>ksend := es, kout := kout k @ take m (drop n d)\<rparr>"
    have i: "input_len k1 = input_len k" by (simp add: k1_def input_len_def)
    have ih: "b \<and> 1 < t \<and> n + m < length d \<Longrightarrow> send_loop d (n + m) (t - 1) k1 = Some (r, k') \<Longrightarrow>
        input_len k' = input_len k1"
      using "1.IH" [OF refl] True e by (simp add: m_def k1_def)
    have "send_loop d n t k = (if b \<and> 1 < t \<and> n + m < length d then send_loop d (n + m) (t - 1) k1
        else Some (if a = None then -1 else int (n + m), k1))"
      using True by (subst send_loop.simps) (simp add: e m_def k1_def Let_def)
    with "1.prems" i ih show ?thesis by (auto split: if_splits)
  qed
qed

lemma kws_raw_write_input: "kws_raw_write d k = Some (r, k') \<Longrightarrow> input_len k' = input_len k"
  by (simp add: kws_raw_write_def send_loop_input)

lemma gen_nonce_input: "gen_nonce E n k = (s, k') \<Longrightarrow> input_len k' = input_len k"
  by (auto simp: gen_nonce_def input_len_def)

lemma close_frame_input: "close_frame E reason k = (s, k') \<Longrightarrow> input_len k' = input_len k"
  by (auto simp: close_frame_def split: kws_type.splits prod.splits dest: gen_nonce_input)

lemma input_len_other [simp]:
  "input_len (k\<lparr>down := a\<rparr>) = input_len k" "input_len (k\<lparr>kuri := u\<rparr>) = input_len k"
  "input_len (k\<lparr>ksock := c\<rparr>) = input_len k" "input_len (k\<lparr>kclosed := c\<rparr>) = input_len k"
  "input_len (k\<lparr>handshake := c\<rparr>) = input_len k" "input_len (k\<lparr>kflags := f\<rparr>) = input_len k"
  by (simp_all add: input_len_def)

lemma kws_close_input: "kws_close E reason k = Some (r, k') \<Longrightarrow> input_len k' = input_len k"
  by (auto simp: kws_close_def bind_eq_Some_conv Let_def split: if_splits prod.splits
      dest!: kws_raw_write_input close_frame_input)

lemma server_read_input: "server_read k = Some (r, k') \<Longrightarrow> input_len k' \<le> input_len k"
proof (induction k arbitrary: r k' rule: server_read.induct)
  case (1 k)
  have d: "0 \<le> datalen k \<and> datalen k \<le> int (buflen k)"
    using "1.prems" by (subst (asm) server_read.simps) (auto split: if_splits)
  then obtain b k1 where b: "kws_string_read BUFFER (nat (datalen k)) (buflen k - nat (datalen k)) WS_BLOCK k = Some (b, k1)"
    using "1.prems" by (subst (asm) server_read.simps) (auto simp: bind_eq_Some_conv)
  define k2 where "k2 = k1\<lparr>datalen := datalen k + b\<rparr>"
  have i: "nat b + input_len k1 \<le> input_len k" by (rule kws_string_read_input [OF b])
  have e: "server_read k = (if 0 < b then do { s \<leftarrow> c_str (kbuffer k2);
      if header_end s then Some (b, k2) else server_read k2 } else Some (b, k1))"
    unfolding k2_def using d b by (subst server_read.simps) (simp add: Let_def)
  have ih: "0 < b \<Longrightarrow> c_str (kbuffer k2) = Some t \<Longrightarrow> \<not> header_end t \<Longrightarrow> server_read k2 = Some (r, k') \<Longrightarrow>
      input_len k' \<le> input_len k2" for t
    using "1.IH" [of "()" "(b, k1)" b k1 k2 t] b d by (simp add: k2_def)
  have "input_len k2 = input_len k1" by (simp add: k2_def)
  with "1.prems" i ih show ?case by (auto simp: e bind_eq_Some_conv split: if_splits)
qed

lemma client_read_input: "client_read k = Some (r, k') \<Longrightarrow> nat r + input_len k' \<le> input_len k"
proof (induction k arbitrary: r k' rule: client_read.induct)
  case (1 k)
  have d: "0 \<le> datalen k \<and> datalen k \<le> int (buflen k)"
    using "1.prems" by (subst (asm) client_read.simps) (auto split: if_splits)
  then obtain b k1 where b: "kws_string_read BUFFER (nat (datalen k)) (buflen k - nat (datalen k)) WS_BLOCK k = Some (b, k1)"
    using "1.prems" by (subst (asm) client_read.simps) (auto simp: bind_eq_Some_conv)
  have i: "nat b + input_len k1 \<le> input_len k" by (rule kws_string_read_input [OF b])
  have e: "client_read k = (if 0 < b then do { s \<leftarrow> c_str (kbuffer k1);
      if has_text (CRLF @ CRLF) s then Some (b, k1) else client_read k1 } else Some (b, k1))"
    using d b by (subst client_read.simps) simp
  have ih: "0 < b \<Longrightarrow> c_str (kbuffer k1) = Some t \<Longrightarrow> \<not> has_text (CRLF @ CRLF) t \<Longrightarrow>
      client_read k1 = Some (r, k') \<Longrightarrow> nat r + input_len k' \<le> input_len k1" for t
    using "1.IH" [of "()" "(b, k1)" b k1 t] b d by simp
  with "1.prems" i show ?case by (auto simp: e bind_eq_Some_conv split: if_splits)
qed

lemma server_reply_input: "server_reply E s k = Some (ok, k') \<Longrightarrow> input_len k' \<le> input_len k"
  by (auto simp: server_reply_def bind_eq_Some_conv Let_def split: if_splits option.splits
      dest!: kws_raw_write_input)

lemma server_refuse_input: "server_refuse E b k = Some (r, k') \<Longrightarrow> input_len k' \<le> input_len k"
  by (auto simp: server_refuse_def bind_eq_Some_conv split: if_splits
      dest!: kws_raw_write_input kws_close_input)

lemma ws_server_handshake_input: "ws_server_handshake E k = Some (r, k') \<Longrightarrow> input_len k' \<le> input_len k"
  by (fastforce simp: ws_server_handshake_def bind_eq_Some_conv split: if_splits
      dest!: server_read_input server_refuse_input server_reply_input kws_store_input)

lemma keep_rest_input: "input_len (keep_rest s n k) \<le> n + input_len k"
  by (auto simp: keep_rest_def input_len_def split: option.split)

lemma ws_client_handshake_input:
  assumes "ws_client_handshake E k = Some (r, k')"
  shows "input_len k' \<le> input_len k"
proof -
  obtain nonce k1 where 1: "gen_nonce E 16 k = (nonce, k1)" by fastforce
  from assms obtain en r2 k2 b k3 where 2: "kws_raw_write (client_request k1 en) k1 = Some (r2, k2)"
    and 3: "client_read k2 = Some (b, k3)"
    and k: "k' = k3 \<or> (\<exists>s. k' = (keep_rest s (nat b) k3)\<lparr>handshake := True\<rparr>)"
    by (auto simp: ws_client_handshake_def 1 bind_eq_Some_conv split: if_splits) blast+
  have "nat b + input_len k3 \<le> input_len k"
    using client_read_input [OF 3] kws_raw_write_input [OF 2] gen_nonce_input [OF 1] by simp
  with k show ?thesis
    by (metis add_leD2 input_len_other(5) keep_rest_input le_trans)
qed

lemma establish_logical_layer_input:
  assumes "establish_logical_layer E k = Some (r, k')"
  shows "input_len k' \<le> input_len k"
proof -
  define hs where "hs = (case ktype k of KWS_CLIENT \<Rightarrow> ws_client_handshake E k | KWS_SERVER \<Rightarrow> ws_server_handshake E k)"
  have h: "input_len k1 \<le> input_len k" if "hs = Some (a, k1)" for a k1
    using that by (cases "ktype k") (simp_all add: hs_def ws_client_handshake_input ws_server_handshake_input)
  have "k' \<in> {k, k\<lparr>logical_established := True\<rparr>} \<or> (\<exists>a k1. hs = Some (a, k1) \<and>
      k' \<in> {k1\<lparr>down := 1\<rparr>, k1, k1\<lparr>logical_established := True\<rparr>})"
    using assms unfolding establish_logical_layer_def hs_def [symmetric]
    by (cases hs) (auto split: if_splits)
  then show ?thesis using h by force
qed

lemma kws_string_read_blocking_input:
  "kws_string_read_blocking w off n rt k = Some (r, k') \<Longrightarrow> input_len k' \<le> input_len k"
  by (auto simp: kws_string_read_blocking_def kws_raw_read_blocking_def bind_eq_Some_conv split: if_splits
      dest!: kws_store_input raw_read_blocking_loop_input)

lemma fill_header_input: "fill_header need k = Some (ok, k') \<Longrightarrow> input_len k' \<le> input_len k"
  by (auto simp: fill_header_def bind_eq_Some_conv split: if_splits dest!: kws_string_read_blocking_input)

lemma read_length_input: "read_length need k = Some (ok, h, k') \<Longrightarrow> input_len k' \<le> input_len k"
  by (auto simp: read_length_def bind_eq_Some_conv Let_def split: if_splits dest!: fill_header_input)

lemma grow_body_input: "grow_body E k = Some (ok, k') \<Longrightarrow> input_len k' = input_len k"
  by (auto simp: grow_body_def Let_def split: if_splits)

lemma body_loop_input: "body_loop need k = Some (ok, k') \<Longrightarrow> input_len k' \<le> input_len k"
proof (induction need k arbitrary: k' rule: body_loop.induct)
  case (1 need k)
  show ?case
  proof (cases "0 < need")
    case False
    with "1.prems" show ?thesis by (simp add: body_loop.simps [of need k])
  next
    case True
    then obtain r k1 where r: "kws_string_read BBUFFER (body k + nat (rplen k)) (nat need + 1) WS_BLOCK k = Some (r, k1)"
      using "1.prems" by (auto simp: body_loop.simps [of need k] bind_eq_Some_conv)
    have i: "input_len k1 \<le> input_len k" using kws_string_read_input [OF r] by simp
    show ?thesis
    proof (cases "r < 1")
      case True
      with \<open>0 < need\<close> "1.prems" r i show ?thesis by (simp add: body_loop.simps [of need k])
    next
      case False
      with \<open>0 < need\<close> "1.prems" r have "body_loop (need - r) (k1\<lparr>datalen := datalen k1 + r, rplen := rplen k1 + r\<rparr>) = Some (ok, k')"
        by (simp add: body_loop.simps [of need k])
      from "1.IH" [OF True r refl False this] i show ?thesis by simp
    qed
  qed
qed

lemma unmask_body_input: "unmask_body p k = Some k' \<Longrightarrow> input_len k' = input_len k"
  by (auto simp: unmask_body_def bind_eq_Some_conv dest!: kws_store_input)

lemma fill_body_input: "fill_body E need k = Some (ok, k') \<Longrightarrow> input_len k' \<le> input_len k"
  by (auto simp: fill_body_def bind_eq_Some_conv Let_def split: if_splits
      dest!: kws_store_input body_loop_input grow_body_input)

lemma finish_payload_input: "finish_payload frag msk oc p k = Some (e, k') \<Longrightarrow> input_len k' = input_len k"
  by (auto simp: finish_payload_def bind_eq_Some_conv Let_def split: if_splits
      dest!: kws_store_input unmask_body_input)

lemma read_payload_input:
  assumes "read_payload E frag msk oc hdr k = Some (Inr x, k')"
  shows "input_len k' \<le> input_len k"
proof -
  define k1 where "k1 = (if msk then k\<lparr>payload := payload k + 4\<rparr> else k)"
  obtain need ok k2 where 2: "fill_body E need k1 = Some (ok, k2)"
    "finish_payload frag msk oc (payload k) k2 = Some (Inr x, k')"
    using assms by (auto simp: read_payload_def close_pass_def bind_eq_Some_conv k1_def [symmetric]
      split: if_splits)
  have "input_len k1 = input_len k" by (simp add: k1_def)
  with fill_body_input [OF 2(1)] finish_payload_input [OF 2(2)] show ?thesis by simp
qed

lemma read_data_input:
  "read_data E frag oc c0 c1 k = Some (Inr x, k') \<Longrightarrow> input_len k' \<le> input_len k"
  by (fastforce simp: read_data_def close_pass_def bind_eq_Some_conv Let_def split: if_splits
      dest!: read_payload_input read_length_input fill_header_input)

lemma read_start_input: "read_start E k = Some (None, k') \<Longrightarrow> input_len k' < input_len k"
  by (fastforce simp: read_start_def close_pass_def bind_eq_Some_conv Let_def split: if_splits
      dest!: kws_string_read_input)

lemma frame_pass_input:
  assumes "frame_pass E frag oc k = Some (Inr x, k')"
  shows "input_len k' < input_len k"
proof -
  obtain ll k1 where 1: "establish_logical_layer E k = Some (ll, k1)"
    using assms by (auto simp: frame_pass_def bind_eq_Some_conv)
  then obtain k2 oc' c0 c1 where 2: "read_start E k1 = Some (None, k2)"
    and 3: "read_data E frag oc' c0 c1 k2 = Some (Inr x, k')"
    using assms by (auto simp: frame_pass_def bind_eq_Some_conv close_pass_def Let_def
      split: if_splits option.splits)
  show ?thesis
    using establish_logical_layer_input [OF 1] read_start_input [OF 2] read_data_input [OF 3] by simp
qed

section \<open>Reading a message\<close>

function read_loop :: "kws_env \<Rightarrow> bool \<Rightarrow> byte \<Rightarrow> kws \<Rightarrow> ((int \<times> byte \<times> data_ref) \<times> kws) option" where
  "read_loop E frag oc k =
     (case frame_pass E frag oc k of None \<Rightarrow> None
      | Some (Inl res, k') \<Rightarrow> Some (res, k')
      | Some (Inr (frag', oc'), k') \<Rightarrow> read_loop E frag' oc' k')"
  by pat_completeness auto
termination
  by (relation "measure (\<lambda>(_, _, _, k). input_len k)") (auto dest: frame_pass_input)

declare read_loop.simps [simp del]

text \<open>The value returned, the opcode and the data pointer, and the state.\<close>

definition kws_read_frame :: "kws_env \<Rightarrow> kws \<Rightarrow> ((int \<times> byte \<times> data_ref) \<times> kws) option" where
  "kws_read_frame E k = read_loop E False WSOC_INVALID (k\<lparr>body := 0, packetlen := 0\<rparr>)"

definition kws_get_buffer :: "kws \<Rightarrow> ks_status \<times> mem \<times> int" where
  "kws_get_buffer k = (KS_STATUS_SUCCESS, kbuffer k, datalen k)"

end
