(* ===== verification/Ks_Kws_Safe.thy ===== *)
theory Ks_Kws_Safe
  imports Ks_Kws_Frame
begin

text \<open>
  \<open>kws.c\<close>: every read of a connection stays inside its buffers. One totality lemma per function: with the
  state a connection has between two calls (\<open>kws_open\<close>, \<open>body_ok\<close>) it returns a value, and keeps that state
  unless it closes the connection.
\<close>

section \<open>What a read keeps\<close>

definition kept :: "kws \<Rightarrow> _" where
  "kept k = ((ksock k, ktype k, body k, kuri k, buflen k, bbuflen k, datalen k, payload k, plen k, rplen k, packetlen k),
     (handshake k, down k, kblock k, sanity k, logical_established k, kflags k, payload_size_max k),
     (write_buffer k, write_buffer_len k, ksend k, kout k, kclosed k, kdrawn k),
     (length (kbuffer k), length (bbuffer k)))"

text \<open>The bytes left over from the handshake lie in the buffer.\<close>

definition rest_ok :: "kws \<Rightarrow> bool" where
  "rest_ok k = (unprocessed_position k + unprocessed_buffer_len k \<le> length (kbuffer k))"

lemma io_len_small: "n < 2 ^ 31 \<Longrightarrow> io_len n = n"
proof -
  assume n: "n < 2 ^ 31"
  then have "uint (word_of_nat n :: u32) = int n" by (simp add: unsigned_of_nat take_bit_nat_eq_self)
  moreover have "sint (word_of_nat n :: u32) = signed_take_bit 31 (uint (word_of_nat n :: u32))"
    by (simp add: sint_uint)
  moreover have "signed_take_bit 31 (int n) = int n"
    using n by (intro signed_take_bit_int_eq_self) auto
  ultimately show ?thesis using n by (simp add: io_len_def)
qed

lemma sock_recv_got: "sock_recv n es = (Got s, es') \<Longrightarrow> length s \<le> n"
  by (cases "(n, es)" rule: sock_recv.cases) (auto split: if_splits)

lemma recv_loop_keeps:
  "recv_loop n block k = (r, s, k') \<Longrightarrow>
   kept k' = kept k \<and> kbuffer k' = kbuffer k \<and> bbuffer k' = bbuffer k \<and>
   unprocessed_position k' = unprocessed_position k \<and>
   unprocessed_buffer_len k' = unprocessed_buffer_len k \<and> length s = nat r \<and> nat r \<le> n"
proof (induction n block k arbitrary: r s k' rule: recv_loop.induct)
  case (1 n block k)
  obtain res es where e: "sock_recv n (kin k) = (res, es)" by fastforce
  show ?case
  proof (cases res)
    case (Got d)
    with "1.prems" e sock_recv_got [of n "kin k" d es] show ?thesis
      by (auto simp: recv_loop.simps [of n block k] kept_def)
  next
    case Failed
    with "1.prems" e show ?thesis by (auto simp: recv_loop.simps [of n block k] kept_def)
  next
    case WouldBlock
    define k1 where "k1 = k\<lparr>kin := es, kx := kx k + 1\<rparr>"
    show ?thesis
    proof (cases "block \<noteq> 0 \<and> kx k1 < block div 10")
      case True
      with "1.prems" e WouldBlock have "recv_loop n block k1 = (r, s, k')"
        by (simp add: recv_loop.simps [of n block k] k1_def Let_def)
      from "1.IH" [OF e [symmetric] WouldBlock _ k1_def _ this] True show ?thesis
        by (simp add: k1_def kept_def)
    next
      case False
      with "1.prems" e WouldBlock show ?thesis
        by (auto simp: recv_loop.simps [of n block k] k1_def Let_def kept_def split: if_splits)
    qed
  qed
qed

lemma kws_raw_read_total:
  assumes "rest_ok k" "0 < n" "n < 2 ^ 31"
  obtains r s k' where "kws_raw_read n block k = Some (r, s, k')" "r \<le> int n" "length s \<le> n"
    "kept k' = kept k" "rest_ok k'" "kbuffer k' = kbuffer k" "bbuffer k' = bbuffer k"
proof (cases "0 < unprocessed_buffer_len k")
  case True
  let ?p = "unprocessed_position k"
  show thesis
  proof (cases "n < unprocessed_buffer_len k")
    case less: True
    let ?k = "k\<lparr>unprocessed_position := ?p + n, unprocessed_buffer_len := unprocessed_buffer_len k - n\<rparr>"
    have "kws_raw_read n block k = Some (int n, take n (drop ?p (kbuffer k)), ?k)"
      using True less assms(1) by (simp add: kws_raw_read_def rest_ok_def mem_sub_def)
    moreover have "rest_ok ?k" "kept ?k = kept k" using assms(1) less by (simp_all add: rest_ok_def kept_def)
    ultimately show thesis by (intro that [of "int n" "take n (drop ?p (kbuffer k))" ?k]) simp_all
  next
    case False
    let ?n = "unprocessed_buffer_len k"
    let ?k = "k\<lparr>unprocessed_buffer_len := 0, unprocessed_position := 0\<rparr>"
    have "kws_raw_read n block k = Some (int ?n, take ?n (drop ?p (kbuffer k)), ?k)"
      using True False assms(1) by (simp add: kws_raw_read_def rest_ok_def mem_sub_def)
    moreover have "rest_ok ?k" "kept ?k = kept k" by (simp_all add: rest_ok_def kept_def)
    ultimately show thesis using False by (intro that [of "int ?n" "take ?n (drop ?p (kbuffer k))" ?k]) simp_all
  qed
next
  case False
  obtain r s k1 where e: "recv_loop n block (k\<lparr>kx := kx k + 1\<rparr>) = (r, s, k1)" by (metis prod_cases3)
  define r' where "r' = (if 10000 \<le> kx k1 \<or> (block \<noteq> 0 \<and> block div 10 \<le> kx k1) then -1 else r)"
  define s' where "s' = (if 0 < r' \<and> r' < int n then s @ [0] else s)"
  define k' where "k' = (if 0 \<le> r' then k1\<lparr>kx := 0\<rparr> else k1)"
  have "kws_raw_read n block k = Some (r', s', k')"
    using False assms by (simp add: kws_raw_read_def io_len_small e Let_def r'_def s'_def k'_def)
  moreover have "r' \<le> int n" "length s' \<le> n" "kept k' = kept k" "rest_ok k'" "kbuffer k' = kbuffer k"
      "bbuffer k' = bbuffer k"
  proof -
    note e' = recv_loop_keeps [OF e]
    have "nat r \<le> n" "length s \<le> n" using e' by simp_all
    then have "r \<le> int n" "length s \<le> n" by linarith+
    then show "r' \<le> int n" "length s' \<le> n" using e' assms(2) by (auto simp: r'_def s'_def)
    have "kept k1 = kept k" using e' by (simp add: kept_def)
    moreover have "kept (k1\<lparr>kx := 0\<rparr>) = kept k1" by (simp add: kept_def)
    ultimately show "kept k' = kept k" by (simp add: k'_def)
    show "rest_ok k'" using e' assms(1) by (simp add: k'_def rest_ok_def)
    show "kbuffer k' = kbuffer k" "bbuffer k' = bbuffer k" using e' by (simp_all add: k'_def)
  qed
  ultimately show thesis by (rule that)
qed

lemma kws_store_total:
  assumes "off + length s \<le> length (blk w k)"
  obtains k' where "kws_store w off s k = Some k'" "kept k' = kept k" "rest_ok k' = rest_ok k"
    "k' = set_blk w (blit off s (blk w k)) k"
  using assms that by (cases w) (auto simp: kws_store_def mem_cpy_def kept_def rest_ok_def blit_def)

lemma kws_string_read_total:
  assumes "rest_ok k" "off + n \<le> length (blk w k)" "0 < n" "n \<le> 2 ^ 31"
  obtains r k' where "kws_string_read w off n block k = Some (r, k')" "r < int n" "kept k' = kept k" "rest_ok k'"
proof -
  obtain k1 where 1: "kws_store w (off + n - 1) [0] k = Some k1" "kept k1 = kept k" "rest_ok k1"
    using kws_store_total [of "off + n - 1" "[0]" w k] assms by auto
  have l: "length (blk w k1) = length (blk w k)" using 1(2) by (cases w) (auto simp: kept_def)
  show thesis
  proof (cases "n < 2")
    case True
    with 1 assms that [of 0 k1] show thesis by (simp add: kws_string_read_def)
  next
    case False
    obtain r s k2 where 2: "kws_raw_read (n - 1) block k1 = Some (r, s, k2)" "r \<le> int (n - 1)" "length s \<le> n - 1"
      "kept k2 = kept k1" "rest_ok k2" "kbuffer k2 = kbuffer k1" "bbuffer k2 = bbuffer k1"
    proof (rule kws_raw_read_total [of k1 "n - 1" block])
      show "n - 1 < 2 ^ 31" using assms(3,4) by linarith
    qed (use 1 False in auto)
    have "off + length s \<le> length (blk w k2)" using 2 l assms False by (cases w) auto
    then obtain k3 where 3: "kws_store w off s k2 = Some k3" "kept k3 = kept k2" "rest_ok k3"
      using kws_store_total [of off s w k2] 2(5) by auto
    show thesis
      using that [of r k3] 1 2 3 assms False by (simp add: kws_string_read_def)
  qed
qed

lemma raw_read_blocking_total:
  "rest_ok k \<Longrightarrow> off + m \<le> length (blk w k) \<Longrightarrow> m < 2 ^ 31 \<Longrightarrow> got \<le> m \<Longrightarrow>
   \<exists>n k'. raw_read_blocking_loop w off m rt got zero k = Some (n, k') \<and> n \<le> m \<and> kept k' = kept k \<and> rest_ok k'"
proof (induction w off m rt got zero k rule: raw_read_blocking_loop.induct)
  case (1 w off m rt got zero k)
  show ?case
  proof (cases "got < m \<and> zero < rt")
    case False
    then have "raw_read_blocking_loop w off m rt got zero k = Some (got, k)"
      by (subst raw_read_blocking_loop.simps) auto
    with "1.prems" show ?thesis by simp
  next
    case True
    obtain r s k1 where r: "kws_raw_read (m - got) WS_BLOCK k = Some (r, s, k1)" "r \<le> int (m - got)"
      "length s \<le> m - got" "kept k1 = kept k" "rest_ok k1" "kbuffer k1 = kbuffer k" "bbuffer k1 = bbuffer k"
    proof (rule kws_raw_read_total [of k "m - got" WS_BLOCK])
      show "m - got < 2 ^ 31" using "1.prems"(3) by linarith
    qed (use "1.prems"(1) True in auto)
    have b: "blk w k1 = blk w k" using r(6,7) by (cases w) simp_all
    have "off + got + length s \<le> length (blk w k1)" using r(3) b "1.prems" True by auto
    then obtain k2 where k2: "kws_store w (off + got) s k1 = Some k2" "kept k2 = kept k1" "rest_ok k2"
      using kws_store_total [of "off + got" s w k1] r(5) by auto
    have l: "off + m \<le> length (blk w k2)"
      using k2(2) b r(4) "1.prems" by (cases w) (auto simp: kept_def)
    have e: "raw_read_blocking_loop w off m rt got zero k =
       (if r = 0 then raw_read_blocking_loop w off m rt got (zero + 1) k2
        else if r < 0 then Some (got, k2) else raw_read_blocking_loop w off m rt (got + nat r) 0 k2)"
      using True r(1) k2(1) by (subst raw_read_blocking_loop.simps) simp
    consider "r = 0" | "r < 0" | "0 < r" by linarith
    then show ?thesis
    proof cases
      case 1
      show ?thesis
        using "1.IH"(1) [OF True r(1) refl refl k2(1) 1 k2(3) l] "1.prems" 1 e k2 r by simp
    next
      case 2
      then show ?thesis using e k2 r "1.prems" by simp
    next
      case 3
      then show ?thesis
        using "1.IH"(2) [OF True r(1) refl refl k2(1) _ _ k2(3) l] "1.prems" e k2 r True by simp
    qed
  qed
qed

lemma kws_string_read_blocking_total:
  assumes "rest_ok k" "off + n \<le> length (blk w k)" "0 < n" "n \<le> 2 ^ 31"
  obtains r k' where "kws_string_read_blocking w off n rt k = Some (r, k')" "0 \<le> r" "r < int n"
    "kept k' = kept k" "rest_ok k'"
proof -
  obtain k1 where 1: "kws_store w (off + n - 1) [0] k = Some k1" "kept k1 = kept k" "rest_ok k1"
    using kws_store_total [of "off + n - 1" "[0]" w k] assms by auto
  have l: "length (blk w k1) = length (blk w k)" using 1(2) by (cases w) (auto simp: kept_def)
  show thesis
  proof (cases "n < 2")
    case True
    with 1 assms that [of 0 k1] show thesis by (simp add: kws_string_read_blocking_def)
  next
    case False
    obtain g k2 where "raw_read_blocking_loop w off (n - 1) rt 0 0 k1 = Some (g, k2)" "g \<le> n - 1"
      "kept k2 = kept k1" "rest_ok k2"
    proof -
      have "n - 1 < 2 ^ 31" using assms(3,4) by linarith
      then show thesis
        using raw_read_blocking_total [of k1 off "n - 1" w 0 rt 0] 1(3) l assms(2) that by fastforce
    qed
    with that [of "int g" k2] 1 assms False show thesis
      by (simp add: kws_string_read_blocking_def kws_raw_read_blocking_def)
  qed
qed


section \<open>Reading never faults\<close>

text \<open>
  An open connection: the handshake is done, the header fits into the buffer, reads block not at all or for
  20 ms and more (the code sets 0 or \<open>WS_BLOCK\<close>), and the size limit is set, below \<open>2^31\<close>.
\<close>

definition kws_open :: "kws \<Rightarrow> bool" where
  "kws_open k = (sanity k \<noteq> 0 \<and> logical_established k \<and> handshake k \<and> 15 \<le> length (kbuffer k) \<and> rest_ok k \<and>
     (kblock k = 0 \<or> 20 \<le> kblock k) \<and> 0 < payload_size_max k \<and> payload_size_max k < 2 ^ 31)"

definition body_ok :: "kws \<Rightarrow> bool" where
  "body_ok k = (length (bbuffer k) = bbuflen k \<and> int (bbuflen k) < 2 ^ 31 \<and> body k < bbuflen k \<and>
     packetlen k = int (body k))"

definition pool_ok :: "kws_env \<Rightarrow> kws \<Rightarrow> bool" where
  "pool_ok E k = (\<forall>n. int n \<le> payload_size_max k \<longrightarrow> kpool E n)"

lemma length_mask_bytes [simp]: "length (mask_bytes key d) = length d"
  by (simp add: mask_bytes_def)

lemma send_loop_total:
  "length d < 2 ^ 31 \<Longrightarrow> \<exists>r es s. send_loop d n t k = Some (r, k\<lparr>ksend := es, kout := s\<rparr>)"
proof (induction d n t k rule: send_loop.induct)
  case (1 d n t k)
  have io: "io_len (length (drop n d)) = length (drop n d)" using 1 by (simp add: io_len_small)
  obtain a b es where e: "sock_send (drop n d) (ksend k) = (a, b, es)" by (metis prod_cases3)
  define m where "m = (case a of None \<Rightarrow> 0 | Some n \<Rightarrow> n)"
  define k1 where "k1 = k\<lparr>ksend := es, kout := kout k @ take m (drop n d)\<rparr>"
  have ih: "b \<and> 1 < t \<and> n + m < length d \<Longrightarrow> \<exists>r es s. send_loop d (n + m) (t - 1) k1 = Some (r, k1\<lparr>ksend := es, kout := s\<rparr>)"
    using "1.IH" [OF refl] "1.prems" io e by (simp add: m_def k1_def)
  have "send_loop d n t k = (if b \<and> 1 < t \<and> n + m < length d then send_loop d (n + m) (t - 1) k1
      else Some (if a = None then -1 else int (n + m), k1))"
    using io by (subst send_loop.simps) (simp add: e m_def k1_def Let_def)
  with ih show ?case by (fastforce simp: k1_def)
qed

lemma length_be_bytes [simp]: "length (be_bytes n v) = n"
  by (simp add: be_bytes_def le_bytes_def)

text \<open>Closing sets \<open>down\<close>, keeps the buffers, and never faults.\<close>

lemma kws_close_total:
  obtains k' where "kws_close E reason k = Some (if down k \<noteq> 0 then -1 else - reason, k')" "down k' \<noteq> 0"
    "kbuffer k' = kbuffer k" "bbuffer k' = bbuffer k" "rest_ok k' = rest_ok k" "kws_open k' = kws_open k"
    "payload_size_max k' = payload_size_max k"
proof (cases "down k \<noteq> 0")
  case True
  then show thesis using that [of k] by (simp add: kws_close_def)
next
  case False
  obtain fr k1 where c: "close_frame E reason (k\<lparr>down := 1, kuri := None\<rparr>) = (fr, k1)" by fastforce
  have l: "length fr \<le> 8"
    using c by (cases "ktype k") (auto simp: close_frame_def close_reason_def gen_nonce_def)
  have n: "k1 = k\<lparr>down := 1, kuri := None, kdrawn := (if ktype k = KWS_CLIENT then kdrawn k + 4 else kdrawn k)\<rparr>"
    using c by (cases "ktype k") (auto simp: close_frame_def gen_nonce_def)
  obtain r es s where w: "kws_raw_write fr k1 = Some (r, k1\<lparr>ksend := es, kout := s\<rparr>)"
    using send_loop_total [of fr 0 WS_WRITE_SANITY k1] l by (auto simp: kws_raw_write_def)
  define k3 where "k3 = (if handshake k \<and> ksock k then k1\<lparr>ksend := es, kout := s\<rparr> else k\<lparr>down := 1, kuri := None\<rparr>)"
  define k' where "k' = k3\<lparr>ksock := False, kclosed := kclosed k3 \<or> (kws_has k3 KWS_CLOSE_SOCK \<and> ksock k3)\<rparr>"
  have "kws_close E reason k = Some (if down k \<noteq> 0 then -1 else - reason, k')"
    using False c w by (cases "handshake k \<and> ksock k") (auto simp: kws_close_def k3_def k'_def Let_def)
  moreover have "down k' = 1" "kbuffer k' = kbuffer k" "bbuffer k' = bbuffer k" "rest_ok k' = rest_ok k"
      "kws_open k' = kws_open k" "payload_size_max k' = payload_size_max k"
    by (simp_all add: k'_def k3_def n rest_ok_def kws_open_def)
  ultimately show thesis by (intro that [of k']) simp_all
qed


lemma keptD:
  "kept k' = kept k \<Longrightarrow> body k' = body k \<and> bbuflen k' = bbuflen k \<and> datalen k' = datalen k \<and>
     payload k' = payload k \<and> plen k' = plen k \<and> rplen k' = rplen k \<and> packetlen k' = packetlen k \<and>
     down k' = down k \<and> length (kbuffer k') = length (kbuffer k) \<and> length (bbuffer k') = length (bbuffer k) \<and>
     payload_size_max k' = payload_size_max k"
  by (simp add: kept_def)

lemma kept_open: "kept k' = kept k \<Longrightarrow> rest_ok k' \<Longrightarrow> kws_open k \<Longrightarrow> kws_open k'"
  by (simp add: kept_def kws_open_def)

lemma kept_body: "kept k' = kept k \<Longrightarrow> body_ok k' = body_ok k"
  by (simp add: kept_def body_ok_def)

lemma kws_open_rest: "kws_open k \<Longrightarrow> rest_ok k" "kws_open k \<Longrightarrow> 15 \<le> length (kbuffer k)"
  by (simp_all add: kws_open_def)

lemma kws_open_upd [simp]:
  "kws_open (k\<lparr>datalen := a\<rparr>) = kws_open k" "kws_open (k\<lparr>plen := a\<rparr>) = kws_open k"
  "kws_open (k\<lparr>payload := p\<rparr>) = kws_open k" "kws_open (k\<lparr>rplen := a\<rparr>) = kws_open k"
  "kws_open (k\<lparr>packetlen := a\<rparr>) = kws_open k" "kws_open (k\<lparr>body := p\<rparr>) = kws_open k"
  "kws_open (k\<lparr>bbuflen := p\<rparr>) = kws_open k" "kws_open (k\<lparr>bbuffer := m\<rparr>) = kws_open k"
  by (simp_all add: kws_open_def rest_ok_def)

lemma body_ok_upd [simp]:
  "body_ok (k\<lparr>datalen := a\<rparr>) = body_ok k" "body_ok (k\<lparr>plen := a\<rparr>) = body_ok k"
  "body_ok (k\<lparr>payload := p\<rparr>) = body_ok k" "body_ok (k\<lparr>rplen := a\<rparr>) = body_ok k"
  by (simp_all add: body_ok_def)

text \<open>The state between two reads of a pass: open, with room in the body.\<close>

definition mid_ok :: "kws \<Rightarrow> kws \<Rightarrow> bool" where
  "mid_ok k k' = (kws_open k' \<and> body_ok k' \<and> down k' = down k \<and> payload_size_max k' = payload_size_max k)"

lemma mid_ok_kept:
  "kept k' = kept k \<Longrightarrow> rest_ok k' \<Longrightarrow> kws_open k \<Longrightarrow> body_ok k \<Longrightarrow> mid_ok k k'"
  using keptD [of k' k] kept_body [of k' k] kept_open [of k' k] by (simp add: mid_ok_def)

lemma read_start_total:
  assumes "kws_open k" "body_ok k"
  obtains st k' where "read_start E k = Some (st, k')" "kws_open k'" "payload_size_max k' = payload_size_max k"
    "st \<noteq> None \<and> down k' \<noteq> 0 \<or> mid_ok k k'" "st = None \<Longrightarrow> 2 \<le> datalen k' \<and> datalen k' \<le> 9" "st = None \<Longrightarrow> body k' = body k"
proof -
  note o = kws_open_rest [OF assms(1)]
  obtain n k1 where 1: "kws_string_read BUFFER 0 10 (kblock k) k = Some (n, k1)" "n < 10" "kept k1 = kept k" "rest_ok k1"
    using kws_string_read_total [of k 0 10 BUFFER "kblock k"] o by auto
  note k1 = keptD [OF 1(3)] kept_open [OF 1(3,4) assms(1)]
  have m1: "mid_ok k (k1\<lparr>datalen := a\<rparr>)" for a
    using k1 kept_body [OF 1(3)] assms(2) by (simp add: mid_ok_def)
  consider "n = -2" | "n < 0" "n \<noteq> -2" | "0 \<le> n" "n < 2" | "2 \<le> n" by linarith
  then show thesis
  proof cases
    case 1
    show thesis
      by (rule that [of "Some (-2)" "k1\<lparr>datalen := n\<rparr>"]) (use 1 \<open>kws_string_read _ _ _ _ _ = _\<close> m1 in \<open>simp_all add: read_start_def mid_ok_def\<close>)
  next
    case 2
    obtain k' where c: "kws_close E WS_NONE (k1\<lparr>datalen := n\<rparr>) = Some (if down k1 \<noteq> 0 then -1 else - WS_NONE, k')"
      "down k' \<noteq> 0" "kws_open k' = kws_open (k1\<lparr>datalen := n\<rparr>)"
      "payload_size_max k' = payload_size_max (k1\<lparr>datalen := n\<rparr>)"
      using kws_close_total [of E WS_NONE "k1\<lparr>datalen := n\<rparr>"] by auto
    show thesis
      by (rule that [of "Some (if down k1 \<noteq> 0 then -1 else - WS_NONE)" k']) (use 2 1(1) c k1 in \<open>simp_all add: read_start_def\<close>)
  next
    case 4
    show thesis
      by (rule that [of None "k1\<lparr>datalen := n\<rparr>"]) (use 4 1(1,2) m1 k1 in \<open>simp_all add: read_start_def\<close>)
  next
    case 3
    define k2 where "k2 = k1\<lparr>datalen := n\<rparr>"
    have "rest_ok k2" "nat n + (9 - nat n) \<le> length (blk BUFFER k2)" "0 < 9 - nat n" "9 - nat n \<le> 2 ^ 31"
      using 3 1(4) k1 o by (auto simp: k2_def rest_ok_def)
    then obtain b k3 where b: "kws_string_read BUFFER (nat n) (9 - nat n) WS_BLOCK k2 = Some (b, k3)" "b < int (9 - nat n)"
      "kept k3 = kept k2" "rest_ok k3"
      by (rule kws_string_read_total [of k2 "nat n" "9 - nat n" BUFFER WS_BLOCK])
    define k4 where "k4 = (if b < 0 then k3 else k3\<lparr>datalen := n + b\<rparr>)"
    note k3 = keptD [OF b(3)] kept_open [OF b(3,4)] kept_body [OF b(3)]
    have m4: "mid_ok k k4" using k3 m1 [of n] by (auto simp: mid_ok_def k4_def k2_def)
    show thesis
    proof (cases "b < 0 \<or> datalen k4 < 2")
      case True
      obtain k' where c: "kws_close E WS_NONE k4 = Some (if down k4 \<noteq> 0 then -1 else - WS_NONE, k')"
        "down k' \<noteq> 0" "kws_open k' = kws_open k4" "payload_size_max k' = payload_size_max k4"
        using kws_close_total [of E WS_NONE k4] by auto
      show thesis
        by (rule that [of "Some (if down k4 \<noteq> 0 then -1 else - WS_NONE)" k'])
          (use 3 1(1) b(1) True c m4 in \<open>auto simp: read_start_def mid_ok_def k4_def k2_def Let_def\<close>)
    next
      case False
      show thesis
        by (rule that [of None k4])
          (use 3 1(1) b(1,2) False m4 k1(1) k3(1) in \<open>auto simp: read_start_def mid_ok_def k4_def k2_def Let_def\<close>)
    qed
  qed
qed

lemma fill_header_total:
  assumes "kws_open k" "body_ok k" "0 \<le> datalen k" "datalen k \<le> 14" "need \<le> 14"
  obtains ok k' where "fill_header need k = Some (ok, k')" "mid_ok k k'" "payload k' = payload k" "plen k' = plen k"
    "datalen k' \<le> 14" "datalen k \<le> datalen k'" "ok \<Longrightarrow> need \<le> datalen k'" "packetlen k' = packetlen k" "body k' = body k"
proof (cases "datalen k < need")
  case True
  let ?n = "nat (need - datalen k + 1)"
  have "nat (datalen k) + ?n \<le> 15" using True assms by linarith
  then have l: "nat (datalen k) + ?n \<le> length (blk BUFFER k)" "0 < ?n" "?n \<le> 2 ^ 31"
    using kws_open_rest(2) [OF assms(1)] True by auto
  obtain r k1 where r: "kws_string_read_blocking BUFFER (nat (datalen k)) ?n 10 k = Some (r, k1)" "0 \<le> r" "r < int ?n"
    "kept k1 = kept k" "rest_ok k1"
    by (rule kws_string_read_blocking_total [OF kws_open_rest(1) [OF assms(1)] l])
  note k1 = keptD [OF r(4)] mid_ok_kept [OF r(4,5) assms(1,2)]
  show thesis
  proof (rule that [of "need \<le> datalen k1 + r" "k1\<lparr>datalen := datalen k1 + r\<rparr>"])
    show "fill_header need k = Some (need \<le> datalen k1 + r, k1\<lparr>datalen := datalen k1 + r\<rparr>)"
      using True r by (simp add: fill_header_def)
    show "mid_ok k (k1\<lparr>datalen := datalen k1 + r\<rparr>)" using k1 by (simp add: mid_ok_def)
  qed (use k1 r True assms in auto)
next
  case False
  then show thesis using assms by (intro that [of True k]) (simp_all add: fill_header_def mid_ok_def)
qed

lemma mid_ok_trans: "mid_ok k k1 \<Longrightarrow> mid_ok k1 k2 \<Longrightarrow> mid_ok k k2"
  by (simp add: mid_ok_def)

lemma mid_ok_upd [simp]:
  "mid_ok k (k'\<lparr>datalen := a\<rparr>) = mid_ok k k'" "mid_ok k (k'\<lparr>plen := a\<rparr>) = mid_ok k k'"
  "mid_ok k (k'\<lparr>payload := p\<rparr>) = mid_ok k k'" "mid_ok k (k'\<lparr>rplen := a\<rparr>) = mid_ok k k'"
  by (simp_all add: mid_ok_def)

lemma mid_ok_refl: "kws_open k \<Longrightarrow> body_ok k \<Longrightarrow> mid_ok k k"
  by (simp add: mid_ok_def)

text \<open>The length: the header has \<open>hdr\<close> bytes with it, of which the payload starts four earlier if masked.\<close>

lemma read_length_total:
  assumes "kws_open k" "body_ok k" "2 \<le> need" "need \<le> 6" "need \<le> datalen k" "datalen k \<le> 14"
  obtains ok hdr k' where "read_length need k = Some (ok, hdr, k')" "mid_ok k k'" "datalen k' \<le> 14"
    "ok \<Longrightarrow> hdr \<le> datalen k' \<and> int (payload k') = hdr - (need - 2) \<and> 2 \<le> hdr \<and> hdr \<le> 14 \<and> plen k' < 2 ^ 63"
    "body k' = body k" "packetlen k' = packetlen k"
proof -
  have o: "15 \<le> length (kbuffer k)" by (rule kws_open_rest(2) [OF assms(1)])
  define c1 where "c1 = kbuffer k ! 1"
  define k1 where "k1 = k\<lparr>plen := uint (c1 AND 0x7f), payload := 2\<rparr>"
  have k1: "kws_open k1" "body_ok k1" "mid_ok k k1" using assms by (simp_all add: k1_def mid_ok_refl)
  have rl: "read_length need k =
      (if plen k1 = 127 then
            do { (ok, k) \<leftarrow> fill_header (need + 8) k1;
                 if \<not> ok then Some (False, need + 8, k)
                 else do { b \<leftarrow> mem_sub (kbuffer k) 2 8;
                           Some (True, need + 8, k\<lparr>payload := 10,
                                                  plen := sint (word_of_int (be_val b) :: u64)\<rparr>) } }
       else if plen k1 = 126 then
            do { (ok, k) \<leftarrow> fill_header (need + 2) k1;
                 if \<not> ok then Some (False, need + 2, k)
                 else do { b \<leftarrow> mem_sub (kbuffer k) 2 2;
                           Some (True, need + 2, k\<lparr>payload := 4, plen := be_val b\<rparr>) } }
          else Some (True, need, k1))"
    using o by (simp add: read_length_def mem_rd_def k1_def c1_def)
  consider "plen k1 = 127" | "plen k1 = 126" | "plen k1 \<noteq> 127" "plen k1 \<noteq> 126" by blast
  then show thesis
  proof cases
    case 1
    obtain ok k2 where f: "fill_header (need + 8) k1 = Some (ok, k2)" "mid_ok k1 k2" "datalen k2 \<le> 14"
      "ok \<Longrightarrow> need + 8 \<le> datalen k2" "packetlen k2 = packetlen k1" "body k2 = body k1"
      by (rule fill_header_total [of k1 "need + 8"]) (use assms k1 in \<open>auto simp: k1_def\<close>)
    have m: "mid_ok k k2" by (rule mid_ok_trans [OF k1(3) f(2)])
    then have o2: "15 \<le> length (kbuffer k2)" by (simp add: mid_ok_def kws_open_def)
    define b where "b = take 8 (drop 2 (kbuffer k2))"
    have b: "mem_sub (kbuffer k2) 2 8 = Some b" using o2 by (simp add: mem_sub_def b_def)
    have s: "sint (word_of_int (be_val b) :: u64) < 2 ^ 63"
      using sint_lt [of "word_of_int (be_val b) :: u64"] by simp
    define k3 where "k3 = (if ok then k2\<lparr>payload := 10, plen := sint (word_of_int (be_val b) :: u64)\<rparr> else k2)"
    show thesis
      by (rule that [of ok "need + 8" k3])
        (use f m b s assms 1 in \<open>auto simp: rl k3_def k1_def\<close>)
  next
    case 2
    obtain ok k2 where f: "fill_header (need + 2) k1 = Some (ok, k2)" "mid_ok k1 k2" "datalen k2 \<le> 14"
      "ok \<Longrightarrow> need + 2 \<le> datalen k2" "packetlen k2 = packetlen k1" "body k2 = body k1"
      by (rule fill_header_total [of k1 "need + 2"]) (use assms k1 in \<open>auto simp: k1_def\<close>)
    have m: "mid_ok k k2" by (rule mid_ok_trans [OF k1(3) f(2)])
    then have o2: "15 \<le> length (kbuffer k2)" by (simp add: mid_ok_def kws_open_def)
    define b where "b = take 2 (drop 2 (kbuffer k2))"
    have b: "mem_sub (kbuffer k2) 2 2 = Some b" using o2 by (simp add: mem_sub_def b_def)
    have "length b = 2" using o2 by (simp add: b_def)
    then have s: "be_val b < 2 ^ 63" using le_val_bounds(2) [of "rev b"] by (simp add: be_val_def)
    define k3 where "k3 = (if ok then k2\<lparr>payload := 4, plen := be_val b\<rparr> else k2)"
    show thesis
      by (rule that [of ok "need + 2" k3])
        (use f m b s assms 2 in \<open>auto simp: rl k3_def k1_def\<close>)
  next
    case 3
    have "plen k1 < 2 ^ 63" using uint_lt2p [of "c1 AND 0x7f"] by (simp add: k1_def)
    then show thesis
      by (intro that [of True need k1]) (use assms 3 k1 in \<open>auto simp: rl k1_def\<close>)
  qed
qed

text \<open>
  The body grows as it should as long as \<open>blen + plen\<close> is below \<open>2^63\<close>; beyond, the sum is negative, nothing
  is checked and nothing is enlarged.
\<close>

lemma sint_u64_small: "- (2 ^ 63) \<le> i \<Longrightarrow> i < 2 ^ 63 \<Longrightarrow> sint (word_of_int i :: u64) = i"
  by (simp add: signed_take_bit_int_eq_self sint_sbintrunc')

lemma sint_u64_nat: "int n < 2 ^ 63 \<Longrightarrow> sint (word_of_nat n :: u64) = int n"
  using sint_u64_small [of "int n"] by simp

lemma body_offset:
  assumes "body_ok k"
  shows "sint (word_of_nat (body k) :: u32) = int (body k)" "sint (word_of_nat (bbuflen k) :: u64) = int (bbuflen k)"
proof -
  have "int (body k) < 2 ^ 31" "int (bbuflen k) < 2 ^ 63" using assms by (auto simp: body_ok_def)
  then show "sint (word_of_nat (body k) :: u32) = int (body k)" "sint (word_of_nat (bbuflen k) :: u64) = int (bbuflen k)"
    by (simp_all add: signed_of_nat signed_take_bit_int_eq_self)
qed

lemma grow_body_small:
  assumes "kws_open k" "body_ok k" "0 \<le> plen k" "int (body k) + plen k < 2 ^ 63"
  defines "n \<equiv> nat (int (body k) + plen k) + 1"
  shows "grow_body E k =
     (if int (bbuflen k) \<le> int (body k) + plen k then
        if payload_size_max k < int n then Some (False, k\<lparr>bbuflen := n\<rparr>)
        else if kpool E n then Some (True, k\<lparr>bbuflen := n, bbuffer := mem_realloc (kjunk E) (bbuffer k) n, body := body k\<rparr>)
        else None
      else Some (True, k))"
proof -
  have m: "0 < payload_size_max k" "payload_size_max k mod 18446744073709551616 = payload_size_max k"
    using assms(1) by (simp_all add: kws_open_def)
  have t: "sint (word_of_int (int (body k) + plen k) :: u64) = int (body k) + plen k"
    using assms(3,4) by (intro sint_u64_small) auto
  have "(int (body k) + plen k + 1) mod 2 ^ 64 = int (body k) + plen k + 1"
    using assms(3,4) by (intro mod_pos_pos_trivial) auto
  then have n: "nat ((int (body k) + plen k + 1) mod 2 ^ 64) = n" using assms(3) by (simp add: n_def nat_add_distrib)
  show ?thesis
    unfolding grow_body_def Let_def body_offset [OF assms(2)] t n using m by simp
qed

lemma grow_body_wraps:
  assumes "body_ok k" "plen k < 2 ^ 63" "2 ^ 63 \<le> int (body k) + plen k"
  shows "grow_body E k = Some (True, k)"
proof -
  have b: "int (body k) < 2 ^ 31" using assms(1) by (auto simp: body_ok_def)
  have "(word_of_int (int (body k) + plen k) :: u64) = word_of_int (int (body k) + plen k - 2 ^ 64)"
    by (simp add: word_of_int_eq_iff take_bit_eq_mod)
  moreover have "sint (word_of_int (int (body k) + plen k - 2 ^ 64) :: u64) = int (body k) + plen k - 2 ^ 64"
    using assms(2,3) b by (intro sint_u64_small) auto
  ultimately have v: "sint (word_of_int (int (body k) + plen k) :: u64) = int (body k) + plen k - 2 ^ 64" by metis
  have "sint (word_of_int (int (body k) + plen k) :: u64) < 0" unfolding v using assms(2) b by simp
  then show ?thesis unfolding grow_body_def Let_def body_offset [OF assms(1)] by simp
qed

lemma grow_body_total:
  assumes "kws_open k" "body_ok k" "pool_ok E k" "0 \<le> plen k" "int (body k) + plen k < 2 ^ 63"
  obtains ok k' where "grow_body E k = Some (ok, k')" "kws_open k'" "payload_size_max k' = payload_size_max k"
    "down k' = down k" "datalen k' = datalen k" "kbuffer k' = kbuffer k" "plen k' = plen k" "payload k' = payload k"
    "packetlen k' = packetlen k"
    "ok \<Longrightarrow> body_ok k' \<and> body k' = body k \<and> int (body k) + plen k < int (bbuflen k') \<and>
       take (body k) (bbuffer k') = take (body k) (bbuffer k)"
proof -
  have b: "body k < bbuflen k" "int (bbuflen k) < 2 ^ 31" "length (bbuffer k) = bbuflen k"
    using assms(2) by (simp_all add: body_ok_def)
  have m: "0 < payload_size_max k" "payload_size_max k < 2 ^ 31" using assms(1) by (simp_all add: kws_open_def)
  define n where "n = nat (int (body k) + plen k) + 1"
  note g = grow_body_small [OF assms(1,2,4,5), of E, folded n_def]
  show thesis
  proof (cases "int (bbuflen k) \<le> int (body k) + plen k")
    case False
    show thesis
      by (rule that [of True k]) (use False assms g in auto)
  next
    case True
    show thesis
    proof (cases "payload_size_max k < int n")
      case no: True
      show thesis
        by (rule that [of False "k\<lparr>bbuflen := n\<rparr>"]) (use True no g assms in auto)
    next
      case False
      define k' where "k' = k\<lparr>bbuflen := n, bbuffer := mem_realloc (kjunk E) (bbuffer k) n, body := body k\<rparr>"
      have "grow_body E k = Some (True, k')" using False True g assms(3) by (simp add: pool_ok_def k'_def)
      moreover have "body_ok k'" using False m True b assms(2) by (auto simp: body_ok_def k'_def n_def)
      moreover have "take (body k) (bbuffer k') = take (body k) (bbuffer k)"
        using True b by (auto simp: k'_def n_def)
      moreover have "int (body k) + plen k < int (bbuflen k')" by (auto simp: k'_def n_def)
      ultimately show thesis using assms by (intro that [of True k']) (auto simp: k'_def)
    qed
  qed
qed


lemma body_loop_total:
  assumes "kws_open k" "body_ok k" "0 \<le> need" "0 \<le> rplen k" "int (body k) + rplen k + need < int (bbuflen k)"
  shows "\<exists>ok k'. body_loop need k = Some (ok, k') \<and> mid_ok k k' \<and> plen k' = plen k \<and> payload k' = payload k \<and>
     packetlen k' = packetlen k \<and> body k' = body k \<and> bbuflen k' = bbuflen k \<and>
     (ok \<longrightarrow> rplen k' = rplen k + need)"
  using assms
proof (induction need k rule: body_loop.induct)
  case (1 need k)
  show ?case
  proof (cases "0 < need")
    case False
    then have "body_loop need k = Some (True, k)" by (simp add: body_loop.simps)
    with False "1.prems" show ?thesis by (auto simp: mid_ok_def)
  next
    case True
    have b: "length (bbuffer k) = bbuflen k" "int (bbuflen k) < 2 ^ 31" using "1.prems" by (simp_all add: body_ok_def)
    have "body k + nat (rplen k) + (nat need + 1) \<le> length (blk BBUFFER k)" "0 < nat need + 1"
        "nat need + 1 \<le> 2 ^ 31"
      using "1.prems" True b by auto
    then obtain r k1 where r: "kws_string_read BBUFFER (body k + nat (rplen k)) (nat need + 1) WS_BLOCK k = Some (r, k1)"
      "r < int (nat need + 1)" "kept k1 = kept k" "rest_ok k1"
      by (rule kws_string_read_total [OF kws_open_rest(1) [OF "1.prems"(1)]])
    note k1 = keptD [OF r(3)] mid_ok_kept [OF r(3,4) "1.prems"(1,2)]
    show ?thesis
    proof (cases "r < 1")
      case True
      then have "body_loop need k = Some (False, k1)" using r(1) \<open>0 < need\<close> by (simp add: body_loop.simps)
      with k1 show ?thesis by auto
    next
      case False
      define k2 where "k2 = k1\<lparr>datalen := datalen k1 + r, rplen := rplen k1 + r\<rparr>"
      have e: "body_loop need k = body_loop (need - r) k2"
        using r(1) \<open>0 < need\<close> False by (subst body_loop.simps) (simp add: k2_def)
      have "kws_open k2" "body_ok k2" "0 \<le> need - r" "0 \<le> rplen k2"
          "int (body k2) + rplen k2 + (need - r) < int (bbuflen k2)"
        using k1 r(2) False "1.prems" by (auto simp: k2_def mid_ok_def)
      from "1.IH" [OF True r(1) refl False, folded k2_def, OF this] k1 show ?thesis
        unfolding e by (auto simp: k2_def mid_ok_def)
    qed
  qed
qed

lemma unmask_body_total:
  assumes "maskp + 4 \<le> length (kbuffer k)" "body k + nat (plen k) \<le> length (bbuffer k)"
  obtains k' where "unmask_body maskp k = Some k'" "kept k' = kept k" "rest_ok k' = rest_ok k"
proof -
  define key where "key = take 4 (drop maskp (kbuffer k))"
  define d where "d = take (nat (plen k)) (drop (body k) (bbuffer k))"
  have s: "body k + length (mask_bytes key d) \<le> length (blk BBUFFER k)" using assms(2) by (simp add: d_def)
  show thesis
    by (rule kws_store_total [OF s])
      (use that assms in \<open>simp add: unmask_body_def mem_sub_def key_def d_def\<close>)
qed

lemma close_pass_total:
  obtains r k' where "close_pass E reason oc dr k = Some (Inl (r, oc, dr), k')" "down k' \<noteq> 0"
    "kws_open k' = kws_open k" "payload_size_max k' = payload_size_max k"
  by (rule kws_close_total [of E reason k]) (use that in \<open>simp add: close_pass_def\<close>)

text \<open>What a pass leaves: an open connection with its body in order, or a closed one.\<close>

definition pass_ok :: "kws \<Rightarrow> pass_end \<times> kws \<Rightarrow> bool" where
  "pass_ok k p = (case p of (e, k') \<Rightarrow> kws_open k' \<and> payload_size_max k' = payload_size_max k \<and>
     (down k' \<noteq> 0 \<and> (\<exists>x. e = Inl x) \<or> body_ok k' \<and> down k' = down k) \<and>
     (\<forall>r oc. e = Inl (r, oc, AtBody) \<longrightarrow> body_ok k' \<and> down k' = down k \<and> r = int (body k')))"

lemma close_pass_ok:
  "kws_open k1 \<Longrightarrow> payload_size_max k1 = payload_size_max k \<Longrightarrow> dr \<noteq> AtBody \<Longrightarrow>
   \<exists>p. close_pass E reason oc dr k1 = Some p \<and> pass_ok k p"
  by (rule close_pass_total [of E reason oc dr k1]) (auto simp: pass_ok_def)

lemma fill_body_total:
  assumes "kws_open k" "body_ok k" "pool_ok E k" "0 \<le> need" "need \<le> plen k" "int (body k) + plen k < 2 ^ 63"
    "int (payload k) + (plen k - need) \<le> 14"
  obtains ok k' where "fill_body E need k = Some (ok, k')" "kws_open k'" "payload_size_max k' = payload_size_max k"
    "down k' = down k" "plen k' = plen k" "ok \<Longrightarrow> body_ok k' \<and> rplen k' = plen k \<and> int (body k') + plen k < int (bbuflen k')"
proof -
  obtain ok k2 where g: "grow_body E k = Some (ok, k2)" "kws_open k2" "payload_size_max k2 = payload_size_max k"
    "down k2 = down k" "datalen k2 = datalen k" "kbuffer k2 = kbuffer k" "plen k2 = plen k" "payload k2 = payload k"
    "ok \<Longrightarrow> body_ok k2 \<and> body k2 = body k \<and> int (body k) + plen k < int (bbuflen k2)"
    by (rule grow_body_total [of k E]) (use assms in auto)
  show thesis
  proof (cases ok)
    case False
    then show thesis using g by (intro that [of False k2]) (simp_all add: fill_body_def)
  next
    case True
    note g' = g(9) [OF True]
    define k3 where "k3 = k2\<lparr>rplen := plen k2 - need\<rparr>"
    define s where "s = take (nat (rplen k3)) (drop (payload k3) (kbuffer k3))"
    have r3: "0 \<le> rplen k3" "rplen k3 + need = plen k" "rplen k3 \<le> plen k"
      using assms(4,5) g(7) by (simp_all add: k3_def)
    have o3: "kws_open k3" "body_ok k3" "15 \<le> length (kbuffer k3)" "length (bbuffer k3) = bbuflen k3"
      using g g' kws_open_rest(2) [OF g(2)] by (simp_all add: k3_def body_ok_def)
    have s: "mem_sub (kbuffer k3) (payload k3) (nat (rplen k3)) = Some s"
      using r3 o3(3) assms(7) g(7,8) by (auto simp: mem_sub_def s_def k3_def)
    have b3: "int (body k3) + plen k < int (bbuflen k3)" using g' by (simp add: k3_def)
    have "body k3 + length s \<le> length (blk BBUFFER k3)" using b3 r3 o3(4) by (auto simp: s_def)
    then obtain k4 where k4: "kws_store BBUFFER (body k3) s k3 = Some k4" "kept k4 = kept k3" "rest_ok k4"
      using kws_store_total [of "body k3" s BBUFFER k3] kws_open_rest(1) [OF o3(1)] by auto
    note m4 = keptD [OF k4(2)] mid_ok_kept [OF k4(2,3) o3(1,2)]
    obtain okb k5 where k5: "body_loop need k4 = Some (okb, k5)" "mid_ok k4 k5" "plen k5 = plen k4" "body k5 = body k4"
       "bbuflen k5 = bbuflen k4" "okb \<longrightarrow> rplen k5 = rplen k4 + need"
      using body_loop_total [of k4 need] m4 r3 b3 assms(4) by (auto simp: mid_ok_def)
    have "body k3 + nat (plen k3) \<le> bbuflen k3" using b3 assms(4,5) g(7) by (simp add: k3_def)
    then have "fill_body E need k = Some (okb, k5)"
      using g(1) True s k4(1) k5(1) unfolding fill_body_def k3_def by (simp add: Let_def)
    then show thesis
    proof (rule that)
      show "body_ok k5 \<and> rplen k5 = plen k \<and> int (body k5) + plen k < int (bbuflen k5)" if okb
        using that k5 m4 r3 b3 by (auto simp: mid_ok_def)
    qed (use k5 m4 g in \<open>auto simp: mid_ok_def k3_def\<close>)
  qed
qed

lemma fill_body_faults:
  assumes "body_ok k" "plen k < 2 ^ 63" "2 ^ 63 \<le> int (body k) + plen k"
  shows "fill_body E need k = None"
proof -
  have "\<not> body k + nat (plen k) \<le> bbuflen k" using assms by (auto simp: body_ok_def)
  then show ?thesis by (simp add: fill_body_def grow_body_wraps [OF assms] Let_def)
qed

lemma finish_payload_total:
  assumes "kws_open k" "body_ok k" "rplen k = plen k" "0 \<le> plen k" "int (body k) + plen k < int (bbuflen k)"
    "msk \<Longrightarrow> maskp + 4 \<le> 14"
  shows "\<exists>p. finish_payload frag msk oc maskp k = Some p \<and> pass_ok k p"
proof -
  have p: "length (bbuffer k) = bbuflen k" "15 \<le> length (kbuffer k)" "rest_ok k"
    using assms(1,2) by (simp_all add: body_ok_def kws_open_def)
  obtain k6 where k6: "(if msk then unmask_body maskp k else Some k) = Some k6" "kept k6 = kept k" "rest_ok k6"
  proof (cases msk)
    case True
    have "maskp + 4 \<le> length (kbuffer k)" "body k + nat (plen k) \<le> length (bbuffer k)"
      using assms(4,5,6) True p by auto
    from unmask_body_total [OF this] show thesis using that True p(3) by auto
  next
    case False
    then show thesis using that [of k] p(3) by auto
  qed
  note m6 = keptD [OF k6(2)] mid_ok_kept [OF k6(2,3) assms(1,2)]
  have b6: "body k6 + nat (rplen k6) + 1 \<le> length (blk BBUFFER k6)" using m6(1) p assms by auto
  obtain k7 where k7: "(if oc = WSOC_TEXT then kws_store BBUFFER (body k6 + nat (rplen k6)) [0] k6 else Some k6) = Some k7"
      "kept k7 = kept k6" "rest_ok k7"
  proof (cases "oc = WSOC_TEXT")
    case True
    show thesis
      by (rule kws_store_total [of "body k6 + nat (rplen k6)" "[0]" BBUFFER k6])
        (use b6 k6(3) True that in auto)
  next
    case False
    then show thesis using that [of k6] k6(3) by auto
  qed
  have m7: "mid_ok k k7" "bbuflen k7 = bbuflen k" "body k7 = body k" "rplen k7 = plen k"
    using m6 keptD [OF k7(2)] mid_ok_kept [OF k7(2,3)] assms(3) by (auto simp: mid_ok_def)
  define k8 where "k8 = k7\<lparr>packetlen := packetlen k7 + rplen k7, body := body k7 + nat (rplen k7)\<rparr>"
  have "finish_payload frag msk oc maskp k =
      Some (if frag then Inr (True, oc) else Inl (packetlen k8, oc, AtBody), k8)"
    using k6(1) k7(1) unfolding finish_payload_def k8_def by (simp add: Let_def)
  moreover have "kws_open k8" "body_ok k8" "down k8 = down k" "payload_size_max k8 = payload_size_max k"
    using m7 assms(4,5) p by (auto simp: k8_def mid_ok_def body_ok_def)
  ultimately show ?thesis by (simp add: pass_ok_def body_ok_def)
qed

lemma pass_ok_trans:
  "pass_ok k1 p \<Longrightarrow> payload_size_max k1 = payload_size_max k \<Longrightarrow> down k1 = down k \<Longrightarrow> pass_ok k p"
  by (auto simp: pass_ok_def)

lemma read_payload_total:
  assumes "kws_open k" "body_ok k" "pool_ok E k" "hdr \<le> datalen k" "datalen k \<le> 14" "2 \<le> hdr"
    "int (payload k) = hdr - (if msk then 4 else 0)" "int (body k) + plen k < 2 ^ 63"
  shows "\<exists>p. read_payload E frag msk oc hdr k = Some p \<and> pass_ok k p"
proof -
  define k1 where "k1 = (if msk then k\<lparr>payload := payload k + 4\<rparr> else k)"
  define need where "need = plen k - (datalen k - hdr)"
  have k1: "kws_open k1" "body_ok k1" "pool_ok E k1" "plen k1 = plen k" "datalen k1 = datalen k"
    "int (payload k1) = hdr" "body k1 = body k" "payload_size_max k1 = payload_size_max k" "down k1 = down k"
    using assms by (auto simp: k1_def pool_ok_def)
  have rp: "read_payload E frag msk oc hdr k = (if need < 0 then close_pass E WS_NONE WSOC_CLOSE NoData k1
      else do { (ok, k2) \<leftarrow> fill_body E need k1; if \<not> ok then close_pass E WS_NONE WSOC_CLOSE NoData k2
                else finish_payload frag msk oc (payload k) k2 })"
    unfolding read_payload_def k1_def [symmetric] need_def [symmetric] Let_def by (rule refl)
  show ?thesis
  proof (cases "need < 0")
    case True
    then show ?thesis using rp close_pass_ok [of k1 k NoData] k1 by simp
  next
    case False
    obtain ok k2 where f: "fill_body E need k1 = Some (ok, k2)" "kws_open k2" "payload_size_max k2 = payload_size_max k1"
      "down k2 = down k1" "plen k2 = plen k1"
      "ok \<Longrightarrow> body_ok k2 \<and> rplen k2 = plen k1 \<and> int (body k2) + plen k1 < int (bbuflen k2)"
      by (rule fill_body_total [of k1 E need]) (use k1 assms False in \<open>auto simp: need_def\<close>)
    show ?thesis
    proof (cases ok)
      case no: False
      then show ?thesis using rp f False close_pass_ok [of k2 k NoData] k1 by simp
    next
      case True
      have "\<exists>p. finish_payload frag msk oc (payload k) k2 = Some p \<and> pass_ok k2 p"
        by (rule finish_payload_total) (use f True k1 assms False in \<open>auto simp: need_def\<close>)
      then show ?thesis using rp f True False k1 pass_ok_trans [of k2 _ k] by auto
    qed
  qed
qed

lemma read_payload_faults:
  assumes "body_ok k" "plen k < 2 ^ 63" "2 ^ 63 \<le> int (body k) + plen k" "hdr \<le> datalen k" "datalen k \<le> 14" "2 \<le> hdr"
  shows "read_payload E frag msk oc hdr k = None"
proof -
  define k1 where "k1 = (if msk then k\<lparr>payload := payload k + 4\<rparr> else k)"
  have "body k < 2 ^ 31" using assms(1) by (auto simp: body_ok_def)
  then have "\<not> plen k - (datalen k - hdr) < 0" using assms(3-6) by simp
  moreover have "fill_body E need k1 = None" for need
    by (rule fill_body_faults) (use assms(1-3) in \<open>auto simp: k1_def\<close>)
  ultimately show ?thesis unfolding read_payload_def k1_def [symmetric] Let_def by simp
qed

text \<open>
  The length a frame announces: what \<open>kws_read_frame\<close> reads of the next frame before it touches the body.
  There is none when the header does not come, the connection closes or the opcode carries no data.
\<close>

definition data_length :: "byte \<Rightarrow> kws \<Rightarrow> int option" where
  "data_length c1 k =
     do { (ok, k) \<leftarrow> (if bit c1 7 then fill_header 6 k else Some (True, k));
          if \<not> ok then None
          else do { (ok, hdr, k) \<leftarrow> read_length (if bit c1 7 then 6 else 2) k;
                    if ok then Some (plen k) else None } }"

definition announced :: "kws_env \<Rightarrow> kws \<Rightarrow> int option" where
  "announced E k =
     do { (stop, k) \<leftarrow> (if down k = 0 then read_start E k else None);
          c0 \<leftarrow> mem_rd (kbuffer k) 0;
          c1 \<leftarrow> mem_rd (kbuffer k) 1;
          if stop = None \<and> c0 AND 0xf \<in> {WSOC_CONTINUATION, WSOC_TEXT, WSOC_BINARY, WSOC_PING, WSOC_PONG}
          then data_length c1 k else None }"

text \<open>The announced length and what the body holds already do not fit into a \<open>ks_ssize_t\<close>.\<close>

definition too_long :: "int option \<Rightarrow> kws \<Rightarrow> bool" where
  "too_long l k = (case l of None \<Rightarrow> False | Some n \<Rightarrow> 2 ^ 63 \<le> int (body k) + n)"

lemma too_long_simps [simp]: "\<not> too_long None k" "too_long (Some n) k = (2 ^ 63 \<le> int (body k) + n)"
  by (simp_all add: too_long_def)

lemma read_data_total:
  assumes "kws_open k" "body_ok k" "pool_ok E k" "2 \<le> datalen k" "datalen k \<le> 9"
  shows "if too_long (data_length c1 k) k then read_data E frag oc c0 c1 k = None
    else \<exists>p. read_data E frag oc c0 c1 k = Some p \<and> pass_ok k p"
proof -
  define frag' where "frag' = (if \<not> bit c0 7 \<and> oc \<noteq> WSOC_CONTINUATION then True
                      else if bit c0 7 \<and> oc = WSOC_CONTINUATION then False else frag)"
  define need where "need = (if bit c1 7 then 6 else (2 :: int))"
  obtain ok k1 where 1: "(if bit c1 7 then fill_header 6 k else Some (True, k)) = Some (ok, k1)" "mid_ok k k1"
    "datalen k1 \<le> 14" "ok \<Longrightarrow> need \<le> datalen k1" "body k1 = body k"
  proof (cases "bit c1 7")
    case True
    show thesis
      by (rule fill_header_total [of k 6]) (use that assms True in \<open>auto simp: need_def\<close>)
  next
    case False
    then show thesis using that [of True k] assms by (simp add: mid_ok_def need_def)
  qed
  have rd: "read_data E frag oc c0 c1 k = (if \<not> ok then close_pass E WS_NONE WSOC_CLOSE NoData k1
      else do { (ok, hdr, k2) \<leftarrow> read_length need k1; if \<not> ok then close_pass E WS_NONE WSOC_CLOSE NoData k2
                else read_payload E frag' (bit c1 7) oc hdr k2 })"
    using 1(1) unfolding read_data_def frag'_def [symmetric] need_def [symmetric] Let_def by simp
  have dl: "data_length c1 k = (if \<not> ok then None
      else do { (ok, hdr, k2) \<leftarrow> read_length need k1; if ok then Some (plen k2) else None })"
    using 1(1) unfolding data_length_def need_def [symmetric] by simp
  show ?thesis
  proof (cases ok)
    case False
    then show ?thesis using rd dl close_pass_ok [of k1 k NoData] 1(2) by (simp add: mid_ok_def)
  next
    case True
    obtain ok2 hdr k2 where 2: "read_length need k1 = Some (ok2, hdr, k2)" "mid_ok k1 k2" "datalen k2 \<le> 14"
      "ok2 \<Longrightarrow> hdr \<le> datalen k2 \<and> int (payload k2) = hdr - (need - 2) \<and> 2 \<le> hdr \<and> hdr \<le> 14 \<and> plen k2 < 2 ^ 63"
      "body k2 = body k1"
      by (rule read_length_total [of k1 need]) (use 1 True in \<open>auto simp: mid_ok_def need_def\<close>)
    have m2: "kws_open k2" "body_ok k2" "pool_ok E k2" "body k2 = body k" "payload_size_max k2 = payload_size_max k" "down k2 = down k"
      using 1(2,5) 2(2,5) assms(3) by (auto simp: mid_ok_def pool_ok_def)
    show ?thesis
    proof (cases ok2)
      case False
      then show ?thesis using rd dl True 2 m2 close_pass_ok [of k2 k NoData] by simp
    next
      case ok2: True
      have r: "read_data E frag oc c0 c1 k = read_payload E frag' (bit c1 7) oc hdr k2" "data_length c1 k = Some (plen k2)"
        using rd dl True ok2 2(1) by simp_all
      show ?thesis
      proof (cases "2 ^ 63 \<le> int (body k) + plen k2")
        case True
        have "read_payload E frag' (bit c1 7) oc hdr k2 = None"
          by (rule read_payload_faults) (use True m2 2(3) 2(4) [OF ok2] in auto)
        then show ?thesis using True r by simp
      next
        case False
        have "\<exists>p. read_payload E frag' (bit c1 7) oc hdr k2 = Some p \<and> pass_ok k2 p"
          by (rule read_payload_total)
            (use False m2 2(3) 2(4) [OF ok2] in \<open>auto simp: need_def\<close>)
        then show ?thesis using False r m2 pass_ok_trans [of k2 _ k] by auto
      qed
    qed
  qed
qed

lemma frame_pass_total:
  assumes "kws_open k" "body_ok k" "pool_ok E k"
  shows "if too_long (announced E k) k then frame_pass E frag oc k = None
    else \<exists>p. frame_pass E frag oc k = Some p \<and> pass_ok k p"
proof -
  have e: "establish_logical_layer E k = Some (0, k)" "handshake k"
    using assms(1) by (simp_all add: establish_logical_layer_def kws_open_def)
  show ?thesis
  proof (cases "down k \<noteq> 0")
    case True
    then show ?thesis using assms e by (simp add: frame_pass_def pass_ok_def announced_def)
  next
    case False
    obtain st k1 where 1: "read_start E k = Some (st, k1)" "kws_open k1" "payload_size_max k1 = payload_size_max k"
      "st \<noteq> None \<and> down k1 \<noteq> 0 \<or> mid_ok k k1" "st = None \<Longrightarrow> 2 \<le> datalen k1 \<and> datalen k1 \<le> 9" "st = None \<Longrightarrow> body k1 = body k"
      using read_start_total [OF assms(1,2)] by metis
    show ?thesis
    proof (cases st)
      case (Some r)
      then show ?thesis using 1 e False
        by (auto simp: frame_pass_def pass_ok_def mid_ok_def announced_def bind_eq_None_conv mem_rd_def)
    next
      case None
      define c0 c1 where "c0 = kbuffer k1 ! 0" and "c1 = kbuffer k1 ! 1"
      have m: "mid_ok k k1" "body k1 = body k" using 1 None by simp_all
      have c: "mem_rd (kbuffer k1) 0 = Some c0" "mem_rd (kbuffer k1) 1 = Some c1"
        using kws_open_rest(2) [OF 1(2)] by (auto simp: mem_rd_def c0_def c1_def)
      have fp: "frame_pass E frag oc k =
          (if c0 AND 0xf = WSOC_CLOSE then
             close_pass E WS_RECV_CLOSE (c0 AND 0xf) (AtBuffer 2) (k1\<lparr>plen := uint (c1 AND 0x7f)\<rparr>)
           else if c0 AND 0xf \<in> {WSOC_CONTINUATION, WSOC_TEXT, WSOC_BINARY, WSOC_PING, WSOC_PONG} then
             read_data E frag (c0 AND 0xf) c0 c1 k1
           else close_pass E WS_PROTO_ERR WSOC_CLOSE NoData k1)"
        using e False 1(1) None c by (simp add: frame_pass_def Let_def)
      have an: "announced E k = (if c0 AND 0xf \<in> {WSOC_CONTINUATION, WSOC_TEXT, WSOC_BINARY, WSOC_PING, WSOC_PONG}
          then data_length c1 k1 else None)"
        using False 1(1) None c by (simp add: announced_def)
      have nc: "WSOC_CLOSE \<notin> {WSOC_CONTINUATION, WSOC_TEXT, WSOC_BINARY, WSOC_PING, WSOC_PONG}"
        by (simp add: WSOC_CLOSE_def WSOC_CONTINUATION_def WSOC_TEXT_def WSOC_BINARY_def WSOC_PING_def WSOC_PONG_def)
      have tl: "too_long (data_length c1 k1) k1 = too_long (data_length c1 k1) k"
        using m(2) by (simp add: too_long_def split: option.split)
      have rd: "if too_long (data_length c1 k1) k then read_data E frag (c0 AND 0xf) c0 c1 k1 = None
         else \<exists>p. read_data E frag (c0 AND 0xf) c0 c1 k1 = Some p \<and> pass_ok k p"
        using read_data_total [of k1 E c1 frag "c0 AND 0xf" c0] 1(5) [OF None] m(1) assms(3) pass_ok_trans [of k1 _ k]
        unfolding tl by (fastforce simp: mid_ok_def pool_ok_def split: if_splits)
      consider "c0 AND 0xf \<in> {WSOC_CONTINUATION, WSOC_TEXT, WSOC_BINARY, WSOC_PING, WSOC_PONG}"
        | "c0 AND 0xf = WSOC_CLOSE" | "c0 AND 0xf \<notin> {WSOC_CONTINUATION, WSOC_TEXT, WSOC_BINARY, WSOC_PING, WSOC_PONG}"
          "c0 AND 0xf \<noteq> WSOC_CLOSE" by blast
      then show ?thesis
      proof cases
        case 1
        then have e1: "frame_pass E frag oc k = read_data E frag (c0 AND 0xf) c0 c1 k1" using nc fp by auto
        have e2: "announced E k = data_length c1 k1" using 1 an by simp
        show ?thesis unfolding e1 e2 by (rule rd)
      next
        case 2
        then have "announced E k = None" using an nc by simp
        then show ?thesis
          using 2 fp close_pass_ok [of "k1\<lparr>plen := uint (c1 AND 0x7f)\<rparr>" k "AtBuffer 2" E WS_RECV_CLOSE WSOC_CLOSE] m(1)
          by (simp add: mid_ok_def)
      next
        case 3
        then have "announced E k = None" using an by simp
        moreover have "frame_pass E frag oc k = close_pass E WS_PROTO_ERR WSOC_CLOSE NoData k1" using 3 fp by simp
        ultimately show ?thesis using close_pass_ok [of k1 k NoData] m(1) by (simp add: mid_ok_def)
      qed
    qed
  qed
qed

text \<open>A peer that, in one of the frames of the message, announces a length that overflows the sum.\<close>

inductive overlong :: "kws_env \<Rightarrow> bool \<Rightarrow> byte \<Rightarrow> kws \<Rightarrow> bool" where
  now: "too_long (announced E k) k \<Longrightarrow> overlong E frag oc k"
| later: "frame_pass E frag oc k = Some (Inr (frag', oc'), k') \<Longrightarrow> overlong E frag' oc' k' \<Longrightarrow> overlong E frag oc k"

inductive_simps overlong_iff: "overlong E frag oc k"

lemma read_loop_total:
  assumes "kws_open k" "body_ok k" "pool_ok E k"
  shows "if overlong E frag oc k then read_loop E frag oc k = None else
    \<exists>res k'. read_loop E frag oc k = Some (res, k') \<and> kws_open k' \<and> (down k' = 0 \<longrightarrow> body_ok k') \<and>
     payload_size_max k' = payload_size_max k \<and> (snd (snd res) = AtBody \<longrightarrow> body_ok k' \<and> fst res = int (body k'))"
  using assms
proof (induction E frag oc k rule: read_loop.induct)
  case (1 E frag oc k)
  note fp = frame_pass_total [OF "1.prems", of frag oc]
  show ?case
  proof (cases "too_long (announced E k) k")
    case True
    then have "frame_pass E frag oc k = None" using fp by simp
    then have "read_loop E frag oc k = None" by (subst read_loop.simps) simp
    then show ?thesis using overlong.now [OF True] by simp
  next
    case False
    then obtain e k1 where p: "frame_pass E frag oc k = Some (e, k1)" "pass_ok k (e, k1)" using fp by auto
    show ?thesis
    proof (cases e)
      case (Inl x)
      then have "read_loop E frag oc k = Some (x, k1)" using p(1) by (subst read_loop.simps) simp
      moreover have "\<not> overlong E frag oc k" using False p(1) Inl by (subst overlong_iff) simp
      ultimately show ?thesis using p(2) Inl by (cases x) (auto simp: pass_ok_def)
    next
      case (Inr y)
      obtain f o' where y: "y = (f, o')" by fastforce
      have e: "read_loop E frag oc k = read_loop E f o' k1"
        using p(1) Inr y by (subst read_loop.simps) simp
      have ov: "overlong E frag oc k = overlong E f o' k1"
        using False p(1) Inr y by (subst overlong_iff) simp
      have o: "kws_open k1" "body_ok k1" "pool_ok E k1" and m: "payload_size_max k1 = payload_size_max k"
        using p(2) Inr "1.prems"(3) by (auto simp: pass_ok_def pool_ok_def)
      show ?thesis unfolding e ov m [symmetric] by (rule "1.IH" [OF p(1) refl Inr y [symmetric] o])
    qed
  qed
qed

end
