(* ===== verification/Ks_Kws_Wire.thy ===== *)
theory Ks_Kws_Wire
  imports Ks_Kws_Safe
begin

text \<open>
  \<open>kws.c\<close>: the wire format of RFC 6455 and what the reader makes of it. \<open>feeds\<close> says which bytes are still to
  come, in whatever segments; one lemma per function of the reader says which of them it takes and where it
  puts them.
\<close>

section \<open>A stream of bytes in segments\<close>

definition feeds :: "kws \<Rightarrow> mem \<Rightarrow> bool" where
  "feeds k bs = (\<exists>ss. kin k = map Segment ss \<and> [] \<notin> set ss \<and> concat ss = bs \<and>
     unprocessed_buffer_len k = 0 \<and> kx k = 0)"

lemma sock_recv_segments:
  assumes "[] \<notin> set ss" "concat ss \<noteq> []" "0 < n"
  obtains m ss' where "sock_recv n (map Segment ss) = (Got (take m (concat ss)), map Segment ss')"
    "0 < m" "m \<le> n" "m \<le> length (concat ss)" "[] \<notin> set ss'" "concat ss' = drop m (concat ss)"
proof -
  obtain s rs where s: "ss = s # rs" "s \<noteq> []" using assms(1,2) by (cases ss) auto
  show thesis
  proof (cases "length s \<le> n")
    case True
    then show thesis using s assms(1) by (intro that [of "length s" rs]) auto
  next
    case False
    then show thesis using s assms by (intro that [of n "drop n s # rs"]) auto
  qed
qed

lemma kws_raw_read_feeds:
  assumes "kws_raw_read n block k = Some (r, s, k')" "feeds k bs" "bs \<noteq> []" "0 < n" "n < 2 ^ 31"
    "block = 0 \<or> 20 \<le> block"
  obtains m where "r = int m" "0 < m" "m \<le> n" "m \<le> length bs" "feeds k' (drop m bs)"
    "s = take m bs @ (if m < n then [0] else [])"
proof -
  obtain ss where ss: "kin k = map Segment ss" "[] \<notin> set ss" "concat ss = bs"
     "unprocessed_buffer_len k = 0" "kx k = 0" using assms(2) by (auto simp: feeds_def)
  obtain m ss' where m: "sock_recv n (map Segment ss) = (Got (take m bs), map Segment ss')"
    "0 < m" "m \<le> n" "m \<le> length bs" "[] \<notin> set ss'" "concat ss' = drop m bs"
    using sock_recv_segments [OF ss(2) _ assms(4)] ss(3) assms(3) by metis
  have l: "recv_loop n block (k\<lparr>kx := 1\<rparr>) = (int m, take m bs, k\<lparr>kx := 1, kin := map Segment ss'\<rparr>)"
    using m ss by (subst recv_loop.simps) (simp add: min_def)
  have b: "\<not> (block \<noteq> 0 \<and> block div 10 \<le> 1)" using assms(6) by auto
  have "kws_raw_read n block k = Some (int m, take m bs @ (if m < n then [0] else []), k\<lparr>kx := 0, kin := map Segment ss'\<rparr>)"
    using ss l b m(2) assms(5) by (simp add: kws_raw_read_def io_len_small)
  then have "r = int m" "s = take m bs @ (if m < n then [0] else [])" "k' = k\<lparr>kx := 0, kin := map Segment ss'\<rparr>"
    using assms(1) by simp_all
  moreover have "feeds k' (drop m bs)" using m ss calculation(3) by (auto simp: feeds_def)
  ultimately show thesis using m that by blast
qed

lemma feeds_set_blk [simp]: "feeds (set_blk w m k) bs = feeds k bs"
  by (cases w) (simp_all add: feeds_def)

lemma blk_set_blk [simp]: "blk w (set_blk w m k) = m"
  by (cases w) simp_all

lemma blk_set_blk_other: "w' \<noteq> w \<Longrightarrow> blk w' (set_blk w m k) = blk w' k"
  by (cases w; cases w') simp_all

text \<open>A read into a block: the bytes at the offset, nothing before it and nothing in the other block.\<close>

lemma take_blit: "off + length s \<le> length m \<Longrightarrow> take (off + length s) (blit off s m) = take off m @ s"
  by (simp add: blit_def)

lemma take_blit_le: "n \<le> off \<Longrightarrow> off \<le> length m \<Longrightarrow> take n (blit off s m) = take n m"
  by (simp add: blit_def)

lemma take_blit_prefix:
  "off + length (s @ t) \<le> length m \<Longrightarrow> take (off + length s) (blit off (s @ t) m) = take off m @ s"
  by (simp add: blit_def)

lemma kws_string_read_feeds:
  assumes "kws_string_read w off n block k = Some (r, k')" "feeds k bs" "bs \<noteq> []" "2 \<le> n" "n \<le> 2 ^ 31"
    "off + n \<le> length (blk w k)" "block = 0 \<or> 20 \<le> block"
  obtains m where "r = int m" "0 < m" "m < n" "m \<le> length bs" "feeds k' (drop m bs)"
    "take (off + m) (blk w k') = take off (blk w k) @ take m bs" "\<And>w'. w' \<noteq> w \<Longrightarrow> blk w' k' = blk w' k"
proof -
  define b1 where "b1 = blit (off + n - 1) [0] (blk w k)"
  have s1: "kws_store w (off + n - 1) [0] k = Some (set_blk w b1 k)"
    using assms(4,6) by (simp add: kws_store_def mem_cpy_def b1_def blit_def)
  from assms(1,4) s1 obtain s k2 where 2: "kws_raw_read (n - 1) block (set_blk w b1 k) = Some (r, s, k2)"
    "kws_store w off s k2 = Some k'"
    by (auto simp: kws_string_read_def bind_eq_Some_conv)
  have "feeds (set_blk w b1 k) bs" using assms(2) by simp
  moreover have n1: "n - 1 < 2 ^ 31" "0 < n - 1" using assms(4,5) by linarith+
  ultimately obtain m where m: "r = int m" "0 < m" "m \<le> n - 1" "m \<le> length bs" "feeds k2 (drop m bs)"
    "s = take m bs @ (if m < n - 1 then [0] else [])"
    using kws_raw_read_feeds [OF 2(1) _ assms(3) n1(2,1) assms(7)] by metis
  have u0: "unprocessed_buffer_len (set_blk w b1 k) = 0" using assms(2) by (cases w) (auto simp: feeds_def)
  have bk: "kbuffer k2 = kbuffer (set_blk w b1 k) \<and> bbuffer k2 = bbuffer (set_blk w b1 k)"
    using 2(1) u0 recv_loop_keeps by (auto simp: kws_raw_read_def Let_def split: prod.splits if_splits)
  then have b2: "blk w k2 = b1" by (cases w) simp_all
  have b3: "blk w' k2 = blk w' k" if "w' \<noteq> w" for w'
    using bk that by (cases w; cases w') simp_all
  have l: "off + length s \<le> length b1" "length b1 = length (blk w k)"
    using m assms(4,6) by (auto simp: b1_def)
  have k': "k' = set_blk w (blit off s b1) k2"
    using 2(2) b2 l by (simp add: kws_store_def mem_cpy_def blit_def)
  have lm: "length (take m bs) = m" using m(4) by simp
  have "take (off + m) (blk w k') = take off b1 @ take m bs"
    using take_blit_prefix [of off "take m bs" "if m < n - 1 then [0] else []" b1] l(1) m(6) lm by (simp add: k')
  also have "take off b1 = take off (blk w k)"
    using assms(4,6) by (simp add: b1_def take_blit_le)
  finally show thesis
    using that [of m] m b3 assms(4) by (simp add: k' blk_set_blk_other)
qed


lemma raw_read_blocking_feeds:
  "raw_read_blocking_loop w off m rt got 0 k = Some (n, k') \<Longrightarrow> feeds k bs \<Longrightarrow> m - got \<le> length bs \<Longrightarrow> got \<le> m \<Longrightarrow>
   m < 2 ^ 31 \<Longrightarrow> off + m \<le> length (blk w k) \<Longrightarrow> 0 < rt \<Longrightarrow>
   n = m \<and> feeds k' (drop (m - got) bs) \<and>
   take (off + m) (blk w k') = take (off + got) (blk w k) @ take (m - got) bs \<and>
   (\<forall>w'. w' \<noteq> w \<longrightarrow> blk w' k' = blk w' k)"
proof (induction "m - got" arbitrary: got k bs rule: less_induct)
  case less
  show ?case
  proof (cases "got < m")
    case False
    then have "raw_read_blocking_loop w off m rt got 0 k = Some (got, k)"
      by (subst raw_read_blocking_loop.simps) simp
    with False less.prems show ?thesis by simp
  next
    case True
    obtain r s k1 k2 where r: "kws_raw_read (m - got) WS_BLOCK k = Some (r, s, k1)" "kws_store w (off + got) s k1 = Some k2"
      using less.prems(1,7) True by (subst (asm) raw_read_blocking_loop.simps) (auto simp: bind_eq_Some_conv)
    have nb: "bs \<noteq> []" "0 < m - got" "m - got < 2 ^ 31" using True less.prems(3,5) by auto
    obtain j where j: "r = int j" "0 < j" "j \<le> m - got" "j \<le> length bs" "feeds k1 (drop j bs)"
      "s = take j bs @ (if j < m - got then [0] else [])"
      by (rule kws_raw_read_feeds [OF r(1) less.prems(2) nb]) (auto simp: WS_BLOCK_def)
    have u0: "unprocessed_buffer_len k = 0" using less.prems(2) by (auto simp: feeds_def)
    have bk: "kbuffer k1 = kbuffer k \<and> bbuffer k1 = bbuffer k"
      using r(1) u0 recv_loop_keeps by (auto simp: kws_raw_read_def Let_def split: prod.splits if_splits)
    then have b1: "blk w' k1 = blk w' k" for w' by (cases w') simp_all
    have ls: "length s \<le> m - got" using j by auto
    then have l: "off + got + length s \<le> length (blk w k)" using less.prems(4,6) True by linarith
    have k2: "k2 = set_blk w (blit (off + got) s (blk w k)) k1"
      using r(2) l by (simp add: kws_store_def mem_cpy_def blit_def b1)
    have lb: "length (blk w k2) = length (blk w k)" using l by (simp add: k2)
    have lj: "length (take j bs) = j" using j(4) by simp
    have t2: "take (off + (got + j)) (blk w k2) = take (off + got) (blk w k) @ take j bs"
      using take_blit_prefix [of "off + got" "take j bs" "if j < m - got then [0] else []" "blk w k"] l j(6) lj
      by (simp add: k2 add.assoc)
    have e: "raw_read_blocking_loop w off m rt (got + j) 0 k2 = Some (n, k')"
      using less.prems(1,7) True r j(1,2) by (subst (asm) raw_read_blocking_loop.simps) simp
    have f2: "feeds k2 (drop j bs)" using j(5) by (simp add: k2)
    have "n = m \<and> feeds k' (drop (m - (got + j)) (drop j bs)) \<and>
       take (off + m) (blk w k') = take (off + (got + j)) (blk w k2) @ take (m - (got + j)) (drop j bs) \<and>
       (\<forall>w'. w' \<noteq> w \<longrightarrow> blk w' k' = blk w' k2)"
      by (rule less.hyps [OF _ e f2]) (use True j less.prems lb in auto)
    moreover have "m - (got + j) + j = m - got" using j(3) by simp
    moreover have "take j bs @ take (m - (got + j)) (drop j bs) = take (m - got) bs"
    proof -
      have "j + (m - (got + j)) = m - got" using j(3) by simp
      then show ?thesis using take_add [of j "m - (got + j)" bs] by simp
    qed
    ultimately show ?thesis using t2 by (simp add: k2 blk_set_blk_other b1)
  qed
qed

lemma kws_string_read_blocking_feeds:
  assumes "kws_string_read_blocking w off n 10 k = Some (r, k')" "feeds k bs" "n - 1 \<le> length bs" "2 \<le> n"
    "n \<le> 2 ^ 31" "off + n \<le> length (blk w k)"
  shows "r = int (n - 1) \<and> feeds k' (drop (n - 1) bs) \<and>
    take (off + (n - 1)) (blk w k') = take off (blk w k) @ take (n - 1) bs \<and>
    (\<forall>w'. w' \<noteq> w \<longrightarrow> blk w' k' = blk w' k)"
proof -
  define b1 where "b1 = blit (off + n - 1) [0] (blk w k)"
  have s1: "kws_store w (off + n - 1) [0] k = Some (set_blk w b1 k)"
    using assms(4,6) by (simp add: kws_store_def mem_cpy_def b1_def blit_def)
  obtain g where g: "raw_read_blocking_loop w off (n - 1) 10 0 0 (set_blk w b1 k) = Some (g, k')" "r = int g"
    using assms(1,4) s1 by (auto simp: kws_string_read_blocking_def kws_raw_read_blocking_def)
  have l: "length b1 = length (blk w k)" "take off b1 = take off (blk w k)"
    using assms(4,6) by (simp_all add: b1_def take_blit_le)
  have "g = n - 1 \<and> feeds k' (drop (n - 1 - 0) bs) \<and>
    take (off + (n - 1)) (blk w k') = take (off + 0) (blk w (set_blk w b1 k)) @ take (n - 1 - 0) bs \<and>
    (\<forall>w'. w' \<noteq> w \<longrightarrow> blk w' k' = blk w' (set_blk w b1 k))"
    by (rule raw_read_blocking_feeds [OF g(1)]) (use assms l in auto)
  then show ?thesis using g(2) l by (simp add: blk_set_blk_other)
qed


lemma body_loop_feeds:
  "body_loop need k = Some (ok, k') \<Longrightarrow> feeds k bs \<Longrightarrow> 0 \<le> need \<Longrightarrow> need \<le> int (length bs) \<Longrightarrow> 0 \<le> rplen k \<Longrightarrow>
   need < 2 ^ 31 \<Longrightarrow> int (body k) + rplen k + need < int (length (bbuffer k)) \<Longrightarrow> rest_ok k \<Longrightarrow>
   ok \<and> feeds k' (drop (nat need) bs) \<and> kbuffer k' = kbuffer k \<and>
   take (body k + nat (rplen k) + nat need) (bbuffer k') = take (body k + nat (rplen k)) (bbuffer k) @ take (nat need) bs"
proof (induction need k arbitrary: bs rule: body_loop.induct)
  case (1 need k)
  show ?case
  proof (cases "0 < need")
    case False
    then have "body_loop need k = Some (True, k)" by (simp add: body_loop.simps)
    with False "1.prems" show ?thesis by simp
  next
    case True
    let ?off = "body k + nat (rplen k)"
    have l: "?off + (nat need + 1) \<le> length (blk BBUFFER k)" "0 < nat need + 1" "nat need + 1 \<le> 2 ^ 31"
        "2 \<le> nat need + 1" "bs \<noteq> []"
      using "1.prems" True by auto
    obtain r k1 where r: "kws_string_read BBUFFER ?off (nat need + 1) WS_BLOCK k = Some (r, k1)"
      "r < int (nat need + 1)" "kept k1 = kept k" "rest_ok k1"
      using kws_string_read_total [OF "1.prems"(8) l(1,2,3)] by metis
    obtain j where j: "r = int j" "0 < j" "j < nat need + 1" "j \<le> length bs" "feeds k1 (drop j bs)"
      "take (?off + j) (blk BBUFFER k1) = take ?off (blk BBUFFER k) @ take j bs"
      "\<And>w'. w' \<noteq> BBUFFER \<Longrightarrow> blk w' k1 = blk w' k"
      by (rule kws_string_read_feeds [OF r(1) "1.prems"(2) l(5,4,3,1)]) (auto simp: WS_BLOCK_def)
    note k1 = keptD [OF r(3)]
    define k2 where "k2 = k1\<lparr>datalen := datalen k1 + r, rplen := rplen k1 + r\<rparr>"
    have e: "body_loop (need - r) k2 = Some (ok, k')"
      using "1.prems"(1) r(1) True j(1,2) by (subst (asm) body_loop.simps) (simp add: k2_def)
    have f2: "feeds k2 (drop j bs)" using j(5) by (simp add: k2_def feeds_def)
    have "ok \<and> feeds k' (drop (nat (need - r)) (drop j bs)) \<and> kbuffer k' = kbuffer k2 \<and>
       take (body k2 + nat (rplen k2) + nat (need - r)) (bbuffer k') =
       take (body k2 + nat (rplen k2)) (bbuffer k2) @ take (nat (need - r)) (drop j bs)"
    proof (rule "1.IH" [OF True r(1) refl, folded k2_def, OF _ e f2])
      show "rest_ok k2" using r(4) by (simp add: k2_def rest_ok_def)
    qed (use k1 j "1.prems" in \<open>auto simp: k2_def\<close>)
    moreover have "body k2 + nat (rplen k2) = ?off + j" using k1 j(1) "1.prems"(5) by (simp add: k2_def nat_add_distrib)
    moreover have "kbuffer k2 = kbuffer k" using j(7) [of BUFFER] by (simp add: k2_def)
    moreover have q: "nat (need - r) + j = nat need" "j + nat (need - r) = nat need" using j by auto
    moreover have "bbuffer k2 = bbuffer k1" by (simp add: k2_def)
    moreover have "take j bs @ take (nat (need - r)) (drop j bs) = take (nat need) bs"
      using take_add [of j "nat (need - r)" bs] q by simp
    ultimately show ?thesis using j(6) by (simp add: add.assoc)
  qed
qed

section \<open>The wire format\<close>

text \<open>A frame as RFC 6455 defines it; \<open>key\<close> is the masking key, if the frame is masked.\<close>

definition len_field :: "nat \<Rightarrow> nat" where
  "len_field n = (if n < 126 then n else if n < 0x10000 then 126 else 127)"

definition len_bytes :: "nat \<Rightarrow> mem" where
  "len_bytes n = (if n < 126 then [] else if n < 0x10000 then be_bytes 2 n else be_bytes 8 n)"

definition ws_frame :: "bool \<Rightarrow> byte \<Rightarrow> mem option \<Rightarrow> mem \<Rightarrow> mem" where
  "ws_frame fin oc key d =
     ((if fin then oc OR 0x80 else oc) #
      (if key = None then word_of_nat (len_field (length d)) else word_of_nat (len_field (length d)) OR 0x80) #
      len_bytes (length d)) @
     (case key of None \<Rightarrow> d | Some m \<Rightarrow> m @ mask_bytes m d)"

lemma mask_twice: "mask_bytes key (mask_bytes key d) = d"
  by (rule nth_equalityI) (simp_all add: mask_bytes_def xor.assoc)

lemma len_field_bits:
  assumes "n < 128"
  shows "uint ((word_of_nat n :: byte) AND 0x7f) = int n" "\<not> bit (word_of_nat n :: byte) 7"
    "uint ((word_of_nat n OR 0x80 :: byte) AND 0x7f) = int n" "bit (word_of_nat n OR 0x80 :: byte) 7"
proof -
  let ?w = "word_of_nat n :: byte"
  have m: "v AND 0x7f = take_bit 7 v" for v :: byte by (simp add: take_bit_eq_mask mask_eq_exp_minus_1)
  have u: "uint ?w = int n" using assms by (simp add: unsigned_of_nat take_bit_nat_eq_self)
  show 1: "uint (?w AND 0x7f) = int n"
    using assms by (simp only: m unsigned_take_bit_eq u) (simp add: take_bit_int_eq_self)
  have b: "bit (0x80 :: byte) j \<longleftrightarrow> j = 7" if "j < 8" for j
  proof -
    have "j \<in> {0, 1, 2, 3, 4, 5, 6, 7}" using that by auto
    then show ?thesis by auto
  qed
  have "(?w OR 0x80) AND 0x7f = ?w AND 0x7f"
    unfolding m by (rule bit_eqI) (auto simp: bit_simps b)
  then show "uint ((?w OR 0x80) AND 0x7f) = int n" using 1 by simp
  have "\<not> bit n 7" using assms by (simp add: bit_iff_odd)
  then show "\<not> bit ?w 7" by (simp add: bit_simps)
  show "bit (?w OR 0x80) 7" by (simp add: bit_simps b)
qed

lemma be_val_bytes: "v < 2 ^ (8 * n) \<Longrightarrow> n \<le> 8 \<Longrightarrow> be_val (be_bytes n v) = int v"
proof -
  assume v: "v < 2 ^ (8 * n)" "n \<le> 8"
  have "(2 :: nat) ^ (8 * n) \<le> 2 ^ 64" using v(2) by (intro power_increasing) auto
  then have "v < 2 ^ 64" using v(1) by linarith
  then have "uint (word_of_nat v :: u64) = int v" by (simp add: unsigned_of_nat take_bit_nat_eq_self)
  moreover have "int v < 2 ^ (8 * n)" using v(1) by (metis of_nat_less_iff of_nat_numeral of_nat_power)
  ultimately show ?thesis by (simp add: be_val_def be_bytes_def le_val_bytes take_bit_int_eq_self)
qed


lemma ws_frame_length: "length (ws_frame fin oc key d) = 2 + length (len_bytes (length d)) +
    (case key of None \<Rightarrow> 0 | Some m \<Rightarrow> length m) + length d"
  by (simp add: ws_frame_def split: option.split)

lemma len_bytes_length: "length (len_bytes n) = (if n < 126 then 0 else if n < 0x10000 then 2 else 8)"
  by (simp add: len_bytes_def)

section \<open>Reading the header\<close>

text \<open>The first \<open>j\<close> bytes of the stream are in the buffer, the others still to come.\<close>

definition got :: "mem \<Rightarrow> nat \<Rightarrow> kws \<Rightarrow> bool" where
  "got B j k = (feeds k (drop j B) \<and> take j (kbuffer k) = take j B \<and> datalen k = int j)"

lemma got_nth: "got B j k \<Longrightarrow> i < j \<Longrightarrow> j \<le> length B \<Longrightarrow> kbuffer k ! i = B ! i"
  unfolding got_def by (metis nth_take)

lemma got_sub:
  assumes "got B j k" "off + n \<le> j" "j \<le> length B" "j \<le> length (kbuffer k)"
  shows "mem_sub (kbuffer k) off n = Some (take n (drop off B))"
proof -
  have "take n (drop off (take j (kbuffer k))) = take n (drop off (take j B))" using assms(1) by (simp add: got_def)
  then have "take n (drop off (kbuffer k)) = take n (drop off B)"
    using assms(2) by (simp add: drop_take min_absorb1)
  then show ?thesis using assms(2,4) by (simp add: mem_sub_def)
qed

lemma feeds_datalen [simp]: "feeds (k\<lparr>datalen := n\<rparr>) bs = feeds k bs"
  by (simp add: feeds_def)

lemma read_start_feeds:
  assumes "read_start E k = Some (st, k')" "feeds k (F @ rest)" "kws_open k" "kblock k = 0 \<or> 20 \<le> kblock k"
    "9 \<le> length F \<or> rest = []" "2 \<le> length F"
  shows "st = None \<and> (\<exists>j. got (F @ rest) j k' \<and> 2 \<le> j \<and> j \<le> 9 \<and> j \<le> length F)"
proof -
  let ?B = "F @ rest"
  have o: "15 \<le> length (kbuffer k)" "rest_ok k" using assms(3) by (simp_all add: kws_open_def)
  obtain n k1 where 1: "kws_string_read BUFFER 0 10 (kblock k) k = Some (n, k1)"
    using assms(1) by (auto simp: read_start_def bind_eq_Some_conv)
  have B: "?B \<noteq> []" using assms(6) by auto
  obtain m where m: "n = int m" "0 < m" "m < 10" "m \<le> length ?B" "feeds k1 (drop m ?B)"
    "take (0 + m) (blk BUFFER k1) = take 0 (blk BUFFER k) @ take m ?B"
    by (rule kws_string_read_feeds [OF 1 assms(2) B]) (use o assms(4) in auto)
  have lk: "length (kbuffer k1) = length (kbuffer k)" "rest_ok k1"
    using kws_string_read_total [of k 0 10 BUFFER "kblock k"] 1 o by (auto dest: keptD)
  show ?thesis
  proof (cases "2 \<le> m")
    case True
    then have "st = None" "k' = k1\<lparr>datalen := n\<rparr>" using assms(1) 1 m(1) by (simp_all add: read_start_def)
    moreover have "m \<le> length F" using assms(5) m(3,4) by auto
    ultimately show ?thesis using m True by (intro conjI exI [of _ m]) (simp_all add: got_def)
  next
    case False
    then have m1: "m = 1" using m(2) by simp
    obtain b k2 where 2: "kws_string_read BUFFER 1 8 WS_BLOCK (k1\<lparr>datalen := 1\<rparr>) = Some (b, k2)"
      using assms(1) 1 m1 m(1) by (auto simp: read_start_def bind_eq_Some_conv)
    have f1: "feeds (k1\<lparr>datalen := 1\<rparr>) (drop 1 ?B)" "drop 1 ?B \<noteq> []" using m(5) m1 assms(6) by auto
    obtain i where i: "b = int i" "0 < i" "i < 8" "i \<le> length (drop 1 ?B)" "feeds k2 (drop i (drop 1 ?B))"
      "take (1 + i) (blk BUFFER k2) = take 1 (blk BUFFER (k1\<lparr>datalen := 1\<rparr>)) @ take i (drop 1 ?B)"
      by (rule kws_string_read_feeds [OF 2 f1]) (use o lk in \<open>auto simp: WS_BLOCK_def\<close>)
    have "st = None" "k' = k2\<lparr>datalen := int (1 + i)\<rparr>"
      using assms(1) 1 2 m1 m(1) i(1,2) by (simp_all add: read_start_def)
    moreover have "take 1 ?B @ take i (drop 1 ?B) = take (1 + i) ?B" using take_add [of 1 i ?B] by simp
    moreover have "1 + i \<le> length F" using assms(5,6) i(3,4) by auto
    ultimately show ?thesis
      using m(6) m1 i(2-6) by (intro conjI exI [of _ "1 + i"]) (simp_all add: got_def)
  qed
qed

lemma fill_header_feeds:
  assumes "fill_header (int need) k = Some (ok, k')" "got B j k" "kws_open k" "need \<le> length B" "need \<le> 14" "j \<le> 14"
  shows "ok \<and> got B (max j need) k'"
proof (cases "j < need")
  case False
  have "datalen k = int j" using assms(2) by (simp add: got_def)
  then have "fill_header (int need) k = Some (True, k)" using False by (simp add: fill_header_def)
  then show ?thesis using assms(1,2) False by (simp add: max_def)
next
  case True
  have d: "datalen k = int j" using assms(2) by (simp add: got_def)
  let ?n = "nat (int need - int j + 1)"
  have n: "?n - 1 = need - j" "2 \<le> ?n" "?n \<le> 2 ^ 31" "j + ?n \<le> 15" using True assms(5) by auto
  obtain r k1 where r: "kws_string_read_blocking BUFFER j ?n 10 k = Some (r, k1)"
    using assms(1) True d by (cases "kws_string_read_blocking BUFFER j ?n 10 k") (auto simp: fill_header_def)
  have e: "Some (ok, k') = (if r < 0 then Some (False, k1) else Some (int need \<le> datalen k1 + r, k1\<lparr>datalen := datalen k1 + r\<rparr>))"
    using assms(1) True d r by (simp add: fill_header_def)
  have o: "15 \<le> length (kbuffer k)" "rest_ok k" using assms(3) by (simp_all add: kws_open_def)
  have "r = int (?n - 1) \<and> feeds k1 (drop (?n - 1) (drop j B)) \<and>
    take (j + (?n - 1)) (blk BUFFER k1) = take j (blk BUFFER k) @ take (?n - 1) (drop j B) \<and>
    (\<forall>w'. w' \<noteq> BUFFER \<longrightarrow> blk w' k1 = blk w' k)"
    by (rule kws_string_read_blocking_feeds [OF r]) (use assms(2,4) n o True in \<open>auto simp: got_def\<close>)
  moreover have "datalen k1 = int j"
  proof -
    have "j + ?n \<le> length (blk BUFFER k)" "0 < ?n" using n o(1) by auto
    from kws_string_read_blocking_total [OF o(2) this n(3), of 10] show ?thesis
      using r d keptD [of k1 k] by auto
  qed
  moreover have "take j B @ take (need - j) (drop j B) = take need B"
    using take_add [of j "need - j" B] True by simp
  ultimately show ?thesis
    using e True assms(2) unfolding n(1) by (simp add: got_def max_def)
qed

lemma feeds_upd [simp]:
  "feeds (k\<lparr>plen := a\<rparr>) bs = feeds k bs" "feeds (k\<lparr>payload := b\<rparr>) bs = feeds k bs"
  "feeds (k\<lparr>rplen := a\<rparr>) bs = feeds k bs" "feeds (k\<lparr>bbuflen := b\<rparr>) bs = feeds k bs"
  "feeds (k\<lparr>bbuffer := m\<rparr>) bs = feeds k bs" "feeds (k\<lparr>body := b\<rparr>) bs = feeds k bs"
  "feeds (k\<lparr>packetlen := a\<rparr>) bs = feeds k bs"
  by (simp_all add: feeds_def)

lemma got_upd [simp]:
  "got B j (k\<lparr>plen := a\<rparr>) = got B j k" "got B j (k\<lparr>payload := b\<rparr>) = got B j k"
  by (simp_all add: got_def)

lemma fill_header_mid:
  assumes "fill_header need k = Some (ok, k')" "kws_open k" "body_ok k" "got B j k" "j \<le> 14" "need \<le> 14"
  shows "mid_ok k k' \<and> payload k' = payload k \<and> plen k' = plen k \<and> packetlen k' = packetlen k \<and> body k' = body k"
proof -
  have d: "0 \<le> datalen k" "datalen k \<le> 14" using assms(4,5) by (simp_all add: got_def)
  from fill_header_total [OF assms(2,3) d assms(6)] show ?thesis using assms(1) by auto
qed

lemma read_length_feeds:
  assumes "read_length (int need) k = Some (ok, hdr, k')" "got B j k" "kws_open k" "body_ok k" "need \<le> j" "2 \<le> need"
    "j \<le> 9" "need + length (len_bytes n) \<le> 14" "need + length (len_bytes n) \<le> length B" "j \<le> length B"
    "uint (B ! 1 AND 0x7f) = int (len_field n)" "take (length (len_bytes n)) (drop 2 B) = len_bytes n" "n < 2 ^ 63"
  shows "ok \<and> hdr = int (need + length (len_bytes n)) \<and> plen k' = int n \<and> payload k' = 2 + length (len_bytes n) \<and>
     got B (max j (need + length (len_bytes n))) k'"
proof -
  have o: "15 \<le> length (kbuffer k)" using assms(3) by (simp add: kws_open_def)
  have c1: "mem_rd (kbuffer k) 1 = Some (B ! 1)"
    using got_nth [OF assms(2), of 1] assms(5,6,10) o by (simp add: mem_rd_def)
  define k1 where "k1 = k\<lparr>plen := int (len_field n), payload := 2\<rparr>"
  have k1: "kws_open k1" "body_ok k1" "got B j k1" "plen k1 = int (len_field n)" using assms(2-4) by (simp_all add: k1_def)
  have long: "ok1 \<and> got B (max j (need + m)) k2 \<and> mem_sub (kbuffer k2) 2 m = Some (len_bytes n)"
    if "fill_header (int (need + m)) k1 = Some (ok1, k2)" "m = length (len_bytes n)" for m ok1 k2
  proof -
    have m: "need + m \<le> length B" "need + m \<le> 14" "j \<le> 14" using assms(7-9) that(2) by auto
    have g: "ok1 \<and> got B (max j (need + m)) k2" by (rule fill_header_feeds [OF that(1) k1(3,1) m])
    have "kws_open k2" using fill_header_mid [OF that(1) k1(1-3) m(3)] m(2) by (simp add: mid_ok_def)
    then have "mem_sub (kbuffer k2) 2 m = Some (take m (drop 2 B))"
      using g m assms(6,10) kws_open_rest(2) [of k2] by (intro got_sub [of B "max j (need + m)"]) auto
    then show ?thesis using g that(2) assms(12) by simp
  qed
  consider "n < 126" | "126 \<le> n" "n < 0x10000" | "0x10000 \<le> n" by linarith
  then show ?thesis
  proof cases
    case 1
    then have "len_field n = n" "len_bytes n = []" by (simp_all add: len_field_def len_bytes_def)
    moreover have "read_length (int need) k = Some (True, int need, k1)"
      using c1 1 assms(11) unfolding read_length_def k1_def by (simp add: calculation Let_def)
    ultimately show ?thesis using assms(1,5) k1(3) by (simp add: k1_def max_def)
  next
    case 2
    then have f: "len_field n = 126" "length (len_bytes n) = 2" "len_bytes n = be_bytes 2 n"
      by (simp_all add: len_field_def len_bytes_def)
    obtain ok1 k2 where h: "fill_header (int (need + 2)) k1 = Some (ok1, k2)"
      using assms(1,11) c1 f(1) by (auto simp: read_length_def bind_eq_Some_conv k1_def add.commute)
    from long [OF h] f(2) have g: "ok1" "got B (max j (need + 2)) k2" "mem_sub (kbuffer k2) 2 2 = Some (len_bytes n)"
      by simp_all
    have "read_length (int need) k = Some (True, int (need + 2), k2\<lparr>payload := 4, plen := be_val (len_bytes n)\<rparr>)"
      using c1 h g f(1) assms(11) unfolding read_length_def k1_def by (simp add: Let_def add.commute)
    moreover have "be_val (len_bytes n) = int n" using be_val_bytes [of n 2] 2 f(3) by simp
    ultimately show ?thesis using assms(1) g f(2) by simp
  next
    case 3
    then have f: "len_field n = 127" "length (len_bytes n) = 8" "len_bytes n = be_bytes 8 n"
      by (simp_all add: len_field_def len_bytes_def)
    obtain ok1 k2 where h: "fill_header (int (need + 8)) k1 = Some (ok1, k2)"
      using assms(1,11) c1 f(1) by (auto simp: read_length_def bind_eq_Some_conv k1_def add.commute)
    from long [OF h] f(2) have g: "ok1" "got B (max j (need + 8)) k2" "mem_sub (kbuffer k2) 2 8 = Some (len_bytes n)"
      by simp_all
    have "read_length (int need) k =
        Some (True, int (need + 8), k2\<lparr>payload := 10, plen := sint (word_of_int (be_val (len_bytes n)) :: u64)\<rparr>)"
      using c1 h g f(1) assms(11) unfolding read_length_def k1_def by (simp add: Let_def add.commute)
    moreover have "be_val (len_bytes n) = int n" using be_val_bytes [of n 8] assms(13) f(3) by simp
    moreover have "sint (word_of_int (int n) :: u64) = int n"
    proof -
      have "int n < 2 ^ 63" using assms(13) by simp
      then show ?thesis by (simp add: signed_of_nat signed_take_bit_int_eq_self)
    qed
    ultimately show ?thesis using assms(1) g f(2) by simp
  qed
qed


section \<open>Reading the payload\<close>

lemma grow_body_feeds:
  assumes "grow_body E k = Some (ok, k')" "body_ok k" "pool_ok E k" "kws_open k" "0 \<le> plen k"
    "int (body k) + plen k < payload_size_max k"
  shows "ok \<and> feeds k' bs = feeds k bs \<and> rplen k' = rplen k"
proof -
  have b: "int (body k) + plen k < 2 ^ 63" using assms(4,6) by (auto simp: kws_open_def)
  show ?thesis
    using assms(1,6) grow_body_small [OF assms(4,2,5) b, of E] assms(5) by (auto split: if_splits)
qed

text \<open>The body receives the rest of the frame: the part that came with the header and the part still to come.\<close>

lemma fill_body_feeds:
  assumes "fill_body E need k = Some (ok, k')" "kws_open k" "body_ok k" "pool_ok E k" "got (F @ rest) j k"
    "h \<le> j" "j \<le> length F" "j \<le> 14" "payload k = h" "plen k = int (length F - h)" "need = int (length F - j)"
    "int (body k) + plen k < payload_size_max k"
  shows "ok \<and> feeds k' rest \<and> kbuffer k' = kbuffer k \<and> body k' = body k \<and> packetlen k' = packetlen k \<and>
    take (body k + (length F - h)) (bbuffer k') = take (body k) (bbuffer k) @ drop h F"
proof -
  have m: "payload_size_max k < 2 ^ 31" using assms(2) by (simp add: kws_open_def)
  obtain ok1 k2 where g: "grow_body E k = Some (ok1, k2)" "kws_open k2"
    "down k2 = down k" "datalen k2 = datalen k" "kbuffer k2 = kbuffer k" "plen k2 = plen k" "payload k2 = payload k"
    "packetlen k2 = packetlen k"
    "ok1 \<Longrightarrow> body_ok k2 \<and> body k2 = body k \<and> int (body k) + plen k < int (bbuflen k2) \<and>
       take (body k) (bbuffer k2) = take (body k) (bbuffer k)"
  proof (rule grow_body_total [of k E])
    show "int (body k) + plen k < 2 ^ 63" using assms(12) m by simp
  qed (use assms in auto)
  have gf: "ok1" "feeds k2 bs = feeds k bs" for bs
    using grow_body_feeds [OF g(1) assms(3,4,2)] assms(10,12) by auto
  note g' = g(9) [OF gf(1)]
  define k3 where "k3 = k2\<lparr>rplen := plen k2 - need\<rparr>"
  have r3: "rplen k3 = int (j - h)" using assms(6,7,10,11) g(6) by (simp add: k3_def of_nat_diff)
  have r3n: "nat (rplen k3) = j - h" by (simp only: r3 nat_int)
  have o3: "kws_open k3" "body_ok k3" "15 \<le> length (kbuffer k3)" "length (bbuffer k3) = bbuflen k3"
    using g g' kws_open_rest(2) [OF g(2)] by (simp_all add: k3_def body_ok_def)
  have "got (F @ rest) j k3" using assms(5) gf(2) g(4,5) by (simp add: got_def k3_def)
  from got_sub [OF this, of h "j - h"] have s: "mem_sub (kbuffer k3) (payload k3) (nat (rplen k3)) = Some (take (j - h) (drop h F))"
    unfolding r3n using o3(3) assms(6-9) g(7) by (simp add: k3_def)
  define s where "s = take (j - h) (drop h F)"
  have ls: "length s = j - h" using assms(6,7) by (simp add: s_def)
  have b3: "int (body k3) + plen k < int (bbuflen k3)" "body k3 = body k" using g' by (simp_all add: k3_def)
  have st: "body k3 + length s \<le> length (blk BBUFFER k3)" using b3 o3(4) ls assms(6,7,10) by auto
  obtain k4 where k4: "kws_store BBUFFER (body k3) s k3 = Some k4" "kept k4 = kept k3" "rest_ok k4 = rest_ok k3"
      "k4 = set_blk BBUFFER (blit (body k3) s (blk BBUFFER k3)) k3"
    by (rule kws_store_total [OF st])
  note m4 = keptD [OF k4(2)]
  have a: "body k3 + nat (plen k3) \<le> bbuflen k3" using b3 assms(10) g(6) by (simp add: k3_def)
  have bl: "body_loop need k4 = Some (ok, k')"
    using assms(1) g(1) gf(1) s k4(1) a unfolding fill_body_def s_def k3_def by (simp add: Let_def)
  have "feeds k4 (drop j F @ rest)" using assms(5,7) gf(2) k4(4) by (simp add: got_def k3_def)
  have q: "rplen k4 + need = plen k" "0 \<le> need" "need \<le> plen k" "0 \<le> rplen k4" "need \<le> int (length (drop j F @ rest))"
    using m4 r3 assms(6,7,10,11) by (simp_all add: of_nat_diff)
  have lim: "need < 2 ^ 31" "int (body k4) + rplen k4 + need < int (bbuflen k4)"
    using q b3 m4 assms(12) m by linarith+
  have o4: "kws_open k4" "body_ok k4" "rest_ok k4" "length (bbuffer k4) = bbuflen k4"
    using kept_open [OF k4(2)] kept_body [OF k4(2)] k4(3) o3 kws_open_rest(1) [OF o3(1)] m4 by simp_all
  from \<open>feeds k4 _\<close> bl have "ok \<and> feeds k' (drop (nat need) (drop j F @ rest)) \<and> kbuffer k' = kbuffer k4 \<and>
     take (body k4 + nat (rplen k4) + nat need) (bbuffer k') =
     take (body k4 + nat (rplen k4)) (bbuffer k4) @ take (nat need) (drop j F @ rest)"
    using q lim o4 by (intro body_loop_feeds [OF bl]) auto
  moreover have "nat (rplen k4) = j - h" "nat need = length F - j" "body k4 = body k"
    using m4 r3n assms(11) b3(2) by simp_all
  moreover have "take (body k + (j - h)) (bbuffer k4) = take (body k) (bbuffer k) @ s"
    using take_blit [of "body k3" s "bbuffer k3"] st ls b3(2) g' k4(4) by (simp add: k3_def)
  moreover have "kbuffer k4 = kbuffer k" using k4(4) g(5) by (simp add: k3_def)
  moreover have "s @ drop j F = drop h F"
    using append_take_drop_id [of "j - h" "drop h F"] assms(6) by (simp add: s_def)
  moreover have "body k + (j - h) + (length F - j) = body k + (length F - h)" using assms(6,7) by simp
  moreover have "body k' = body k4 \<and> packetlen k' = packetlen k4"
    using body_loop_total [OF o4(1,2) q(2,4) lim(2)] bl by auto
  moreover have "packetlen k4 = packetlen k" using m4 g(8) by (simp add: k3_def)
  ultimately show ?thesis by simp
qed


lemma finish_payload_feeds:
  assumes "finish_payload frag msk oc maskp k = Some (e, k')" "feeds k rest" "body_ok k" "rplen k = int n" "plen k = int n"
    "body k + n < bbuflen k" "take (body k + n) (bbuffer k) = pre @ X" "length pre = body k"
    "msk \<Longrightarrow> mem_sub (kbuffer k) maskp 4 = Some key"
  shows "e = (if frag then Inr (True, oc) else Inl (packetlen k', oc, AtBody)) \<and> feeds k' rest \<and>
    body k' = body k + n \<and> packetlen k' = packetlen k + int n \<and>
    take (body k') (bbuffer k') = pre @ (if msk then mask_bytes key X else X)"
proof -
  have lb: "length (bbuffer k) = bbuflen k" using assms(3) by (simp add: body_ok_def)
  have lX: "length X = n" using arg_cong [OF assms(7), of length] assms(6,8) lb by simp
  have X: "take n (drop (body k) (bbuffer k)) = X"
    using arg_cong [OF assms(7), of "drop (body k)"] assms(8) by (simp add: drop_take)
  have pre: "take (body k) (bbuffer k) = pre"
    using arg_cong [OF assms(7), of "take (body k)"] assms(8) by (simp add: min_def)
  define Y where "Y = (if msk then mask_bytes key X else X)"
  define k1 where "k1 = (if msk then k\<lparr>bbuffer := blit (body k) (mask_bytes key X) (bbuffer k)\<rparr> else k)"
  have u: "(if msk then unmask_body maskp k else Some k) = Some k1"
    using assms(5,6,9) X lb lX by (simp add: k1_def unmask_body_def mem_sub_def kws_store_def mem_cpy_def blit_def)
  have lY: "length Y = n" using lX by (simp add: Y_def)
  have k1: "body k1 = body k" "rplen k1 = int n" "packetlen k1 = packetlen k" "feeds k1 rest"
      "length (bbuffer k1) = bbuflen k" "take (body k + n) (bbuffer k1) = pre @ Y"
    using assms(2,4,6,7) lX lb lY take_blit [of "body k" "mask_bytes key X" "bbuffer k"] pre
    by (auto simp: k1_def Y_def)
  define k2 where "k2 = (if oc = WSOC_TEXT then k1\<lparr>bbuffer := blit (body k + n) [0] (bbuffer k1)\<rparr> else k1)"
  have t: "(if oc = WSOC_TEXT then kws_store BBUFFER (body k1 + nat (rplen k1)) [0] k1 else Some k1) = Some k2"
    using k1 assms(6) by (simp add: k2_def kws_store_def mem_cpy_def blit_def)
  have k2: "body k2 = body k" "rplen k2 = int n" "packetlen k2 = packetlen k" "feeds k2 rest"
      "take (body k + n) (bbuffer k2) = pre @ Y"
    using k1 assms(6) by (auto simp: k2_def take_blit_le)
  have "finish_payload frag msk oc maskp k = Some (if frag then Inr (True, oc) else Inl (packetlen k2 + rplen k2, oc, AtBody),
      k2\<lparr>packetlen := packetlen k2 + rplen k2, body := body k2 + nat (rplen k2)\<rparr>)"
    using u t unfolding finish_payload_def by (simp add: Let_def)
  then show ?thesis using assms(1) k2 by (simp add: Y_def [symmetric])
qed

lemma read_payload_feeds:
  assumes "read_payload E frag msk oc (int h) k = Some (e, k')" "kws_open k" "body_ok k" "pool_ok E k" "got (F @ rest) j k"
    "h \<le> j" "j \<le> length F" "j \<le> 14" "payload k + (if msk then 4 else 0) = h" "plen k = int (length F - h)"
    "int (body k) + plen k < payload_size_max k"
  shows "e = (if frag then Inr (True, oc) else Inl (packetlen k', oc, AtBody)) \<and> feeds k' rest \<and>
    body k' = body k + (length F - h) \<and>
    take (body k') (bbuffer k') = take (body k) (bbuffer k) @
      (if msk then mask_bytes (take 4 (drop (payload k) F)) (drop h F) else drop h F)"
proof -
  define k1 where "k1 = (if msk then k\<lparr>payload := payload k + 4\<rparr> else k)"
  define need where "need = plen k - (datalen k - int h)"
  have k1: "kws_open k1" "body_ok k1" "pool_ok E k1" "plen k1 = plen k" "got (F @ rest) j k1"
    "payload k1 = h" "payload_size_max k1 = payload_size_max k" "body k1 = body k" "bbuffer k1 = bbuffer k"
    "kbuffer k1 = kbuffer k" "packetlen k1 = packetlen k"
    using assms by (auto simp: k1_def pool_ok_def)
  have nd: "need = int (length F - j)" using assms(5-7,10) by (simp add: need_def got_def of_nat_diff)
  obtain ok k2 where f: "fill_body E need k1 = Some (ok, k2)" "kws_open k2" "payload_size_max k2 = payload_size_max k1"
    "down k2 = down k1" "plen k2 = plen k1"
    "ok \<Longrightarrow> body_ok k2 \<and> rplen k2 = plen k1 \<and> int (body k2) + plen k1 < int (bbuflen k2)"
  proof (rule fill_body_total [OF k1(1-3), of need])
    show "0 \<le> need" "need \<le> plen k1" using nd k1(4) assms(6,7,10) by auto
    show "int (body k1) + plen k1 < 2 ^ 63" using assms(2,11) k1(4,8) by (auto simp: kws_open_def)
    show "int (payload k1) + (plen k1 - need) \<le> 14"
      using nd k1(4,6) assms(6,7,8,10) by (simp add: of_nat_diff)
  qed blast
  have ff: "ok \<and> feeds k2 rest \<and> kbuffer k2 = kbuffer k1 \<and> body k2 = body k1 \<and> packetlen k2 = packetlen k1 \<and>
    take (body k1 + (length F - h)) (bbuffer k2) = take (body k1) (bbuffer k1) @ drop h F"
    by (rule fill_body_feeds [OF f(1) k1(1-3,5) assms(6-8) k1(6) _ nd]) (use k1(4,7,8) assms(10,11) in simp_all)
  have g: "body_ok k2" "rplen k2 = int (length F - h)" "body k2 + (length F - h) < bbuflen k2"
    using f(6) ff k1(4) assms(10) by auto
  have fin: "finish_payload frag msk oc (payload k) k2 = Some (e, k')"
    using assms(1) f(1) ff nd unfolding read_payload_def k1_def [symmetric] need_def [symmetric] Let_def by simp
  have key: "mem_sub (kbuffer k2) (payload k) 4 = Some (take 4 (drop (payload k) F))" if msk
  proof -
    have "j \<le> length (kbuffer k)" using assms(8) kws_open_rest(2) [OF assms(2)] by simp
    from got_sub [OF assms(5) _ _ this, of "payload k" 4] show ?thesis
      using that assms(6,7,9) ff k1(10) by simp
  qed
  have b: "body k < length (bbuffer k)" using assms(3) by (simp add: body_ok_def)
  have "e = (if frag then Inr (True, oc) else Inl (packetlen k', oc, AtBody)) \<and> feeds k' rest \<and>
    body k' = body k2 + (length F - h) \<and> packetlen k' = packetlen k2 + int (length F - h) \<and>
    take (body k') (bbuffer k') = take (body k) (bbuffer k) @
      (if msk then mask_bytes (take 4 (drop (payload k) F)) (drop h F) else drop h F)"
    by (rule finish_payload_feeds [OF fin]) (use ff g key f(5) k1 assms(10) b in auto)
  moreover have bk: "body k2 = body k" using ff k1(8) by simp
  ultimately show ?thesis unfolding bk by blast
qed


section \<open>Reading one frame\<close>

text \<open>The header is read without touching the body.\<close>

lemma kws_raw_read_body: "kws_raw_read n block k = Some (r, s, k') \<Longrightarrow> bbuffer k' = bbuffer k"
  using recv_loop_keeps by (fastforce simp: kws_raw_read_def Let_def bind_eq_Some_conv split: prod.splits if_splits)

lemma kws_store_body: "kws_store BUFFER off s k = Some k' \<Longrightarrow> bbuffer k' = bbuffer k"
  by (auto simp: kws_store_def)

lemma kws_string_read_body: "kws_string_read BUFFER off n block k = Some (r, k') \<Longrightarrow> bbuffer k' = bbuffer k"
  by (auto simp: kws_string_read_def bind_eq_Some_conv split: if_splits dest!: kws_store_body kws_raw_read_body)

lemma raw_read_blocking_body:
  "raw_read_blocking_loop w off m rt g z k = Some (n, k') \<Longrightarrow> w = BUFFER \<Longrightarrow> bbuffer k' = bbuffer k"
proof (induction w off m rt g z k arbitrary: n k' rule: raw_read_blocking_loop.induct)
  case (1 w off m rt g z k)
  show ?case
  proof (cases "g < m \<and> z < rt")
    case False
    then have "raw_read_blocking_loop w off m rt g z k = Some (g, k)"
      by (subst raw_read_blocking_loop.simps) auto
    with "1.prems" show ?thesis by simp
  next
    case True
    obtain r s k1 k2 where r: "kws_raw_read (m - g) WS_BLOCK k = Some (r, s, k1)" "kws_store w (off + g) s k1 = Some k2"
      using "1.prems"(1) True by (subst (asm) raw_read_blocking_loop.simps) (auto simp: bind_eq_Some_conv)
    have b: "bbuffer k2 = bbuffer k" using r "1.prems"(2) kws_raw_read_body kws_store_body by metis
    have e: "raw_read_blocking_loop w off m rt g z k =
       (if r = 0 then raw_read_blocking_loop w off m rt g (z + 1) k2
        else if r < 0 then Some (g, k2) else raw_read_blocking_loop w off m rt (g + nat r) 0 k2)"
      using True r by (subst raw_read_blocking_loop.simps) simp
    consider "r = 0" | "r < 0" | "0 < r" by linarith
    then show ?thesis
    proof cases
      case 1
      then have "raw_read_blocking_loop w off m rt g (z + 1) k2 = Some (n, k')" using "1.prems"(1) e by simp
      from "1.IH"(1) [OF True r(1) refl refl r(2) 1 this "1.prems"(2)] b show ?thesis by simp
    next
      case 2
      then show ?thesis using "1.prems" e b by simp
    next
      case 3
      then have "raw_read_blocking_loop w off m rt (g + nat r) 0 k2 = Some (n, k')" using "1.prems"(1) e by simp
      from "1.IH"(2) [OF True r(1) refl refl r(2) _ _ this "1.prems"(2)] 3 b show ?thesis by simp
    qed
  qed
qed

lemma fill_header_body: "fill_header need k = Some (ok, k') \<Longrightarrow> bbuffer k' = bbuffer k"
  by (auto simp: fill_header_def kws_string_read_blocking_def kws_raw_read_blocking_def bind_eq_Some_conv
      split: if_splits dest!: kws_store_body raw_read_blocking_body)

lemma read_length_body: "read_length need k = Some (ok, hdr, k') \<Longrightarrow> bbuffer k' = bbuffer k"
  by (auto simp: read_length_def bind_eq_Some_conv Let_def split: if_splits dest!: fill_header_body)

lemma kws_raw_read_kept: "kws_raw_read n block k = Some (r, s, k') \<Longrightarrow> body k' = body k"
  using recv_loop_keeps by (fastforce simp: kws_raw_read_def kept_def Let_def bind_eq_Some_conv split: prod.splits if_splits)

lemma kws_store_kept: "kws_store w off s k = Some k' \<Longrightarrow> body k' = body k"
  by (cases w) (auto simp: kws_store_def)

lemma kws_string_read_kept: "kws_string_read w off n block k = Some (r, k') \<Longrightarrow> body k' = body k"
  by (auto simp: kws_string_read_def bind_eq_Some_conv split: if_splits dest!: kws_store_kept kws_raw_read_kept)

lemma read_start_body: "read_start E k = Some (None, k') \<Longrightarrow> bbuffer k' = bbuffer k \<and> body k' = body k"
proof -
  have b: "kws_string_read BUFFER off n block k = Some (r, k') \<Longrightarrow> bbuffer k' = bbuffer k \<and> body k' = body k"
    for off n block k r k'
    using kws_string_read_kept kws_string_read_body by blast
  show "read_start E k = Some (None, k') \<Longrightarrow> ?thesis"
    by (auto simp: read_start_def bind_eq_Some_conv Let_def split: if_splits dest!: b)
qed

definition data_oc :: "byte set" where
  "data_oc = {WSOC_CONTINUATION, WSOC_TEXT, WSOC_BINARY, WSOC_PING, WSOC_PONG}"

lemma data_oc_bits:
  assumes "oc \<in> data_oc"
  shows "(if fin then oc OR 0x80 else oc) AND 0xf = oc" "bit (if fin then oc OR 0x80 else oc) 7 = fin" "oc \<noteq> WSOC_CLOSE"
  using assms by (auto simp: data_oc_def WSOC_CONTINUATION_def WSOC_TEXT_def WSOC_BINARY_def WSOC_PING_def
      WSOC_PONG_def WSOC_CLOSE_def)

text \<open>How the code carries \<open>frag\<close> from frame to frame.\<close>

definition frag_next :: "bool \<Rightarrow> bool \<Rightarrow> byte \<Rightarrow> bool" where
  "frag_next frag fin oc = (if \<not> fin \<and> oc \<noteq> WSOC_CONTINUATION then True
     else if fin \<and> oc = WSOC_CONTINUATION then False else frag)"

definition key_len :: "mem option \<Rightarrow> nat" where
  "key_len key = (if key = None then 0 else 4)"

lemma ws_frame_parts:
  fixes fin :: bool and oc :: byte and key :: "mem option" and d :: mem
  assumes "key = None \<or> (\<exists>m. key = Some m \<and> length m = 4)"
  defines "F \<equiv> ws_frame fin oc key d" and "h \<equiv> 2 + length (len_bytes (length d)) + key_len key"
  shows "length F = h + length d" "F ! 0 = (if fin then oc OR 0x80 else oc)"
    "uint (F ! 1 AND 0x7f) = int (len_field (length d))" "bit (F ! 1) 7 = (key \<noteq> None)"
    "take (length (len_bytes (length d))) (drop 2 F) = len_bytes (length d)"
    "(if key \<noteq> None then mask_bytes (take 4 (drop (2 + length (len_bytes (length d))) F)) (drop h F) else drop h F) = d"
    "h \<le> 14"
proof -
  have l: "len_field (length d) < 128" by (simp add: len_field_def)
  show "length F = h + length d" using assms(1) by (auto simp: F_def h_def ws_frame_length key_len_def)
  show "F ! 0 = (if fin then oc OR 0x80 else oc)" by (simp add: F_def ws_frame_def)
  show "uint (F ! 1 AND 0x7f) = int (len_field (length d))" "bit (F ! 1) 7 = (key \<noteq> None)"
    using len_field_bits [OF l] by (simp_all add: F_def ws_frame_def)
  show "take (length (len_bytes (length d))) (drop 2 F) = len_bytes (length d)" by (simp add: F_def ws_frame_def)
  show "(if key \<noteq> None then mask_bytes (take 4 (drop (2 + length (len_bytes (length d))) F)) (drop h F) else drop h F) = d"
    using assms(1) by (auto simp: F_def h_def ws_frame_def key_len_def mask_twice)
  show "h \<le> 14" by (simp add: h_def len_bytes_length key_len_def)
qed

lemma frame_pass_feeds:
  assumes "kws_open k" "body_ok k" "pool_ok E k" "down k = 0"
    and "feeds k (ws_frame fin oc key d @ rest)" "oc \<in> data_oc" "key = None \<or> (\<exists>m. key = Some m \<and> length m = 4)"
    and "9 \<le> length (ws_frame fin oc key d) \<or> rest = []"
    and "int (body k) + int (length d) < payload_size_max k"
  shows "\<exists>k'. frame_pass E frag oc0 k =
      Some (if frag_next frag fin oc then Inr (True, oc) else Inl (int (body k + length d), oc, AtBody), k') \<and>
    kws_open k' \<and> body_ok k' \<and> down k' = 0 \<and> payload_size_max k' = payload_size_max k \<and> feeds k' rest \<and>
    body k' = body k + length d \<and> take (body k') (bbuffer k') = take (body k) (bbuffer k) @ d"
proof -
  define F where "F = ws_frame fin oc key d"
  define h where "h = 2 + length (len_bytes (length d)) + key_len key"
  define need where "need = 2 + key_len key"
  have F: "length F = h + length d" "F ! 0 = (if fin then oc OR 0x80 else oc)"
    "uint (F ! 1 AND 0x7f) = int (len_field (length d))" "bit (F ! 1) 7 = (key \<noteq> None)"
    "take (length (len_bytes (length d))) (drop 2 F) = len_bytes (length d)"
    "(if key \<noteq> None then mask_bytes (take 4 (drop (2 + length (len_bytes (length d))) F)) (drop h F) else drop h F) = d"
    "h \<le> 14"
    unfolding F_def h_def by (rule ws_frame_parts [OF assms(7)])+
  have m: "length d < 2 ^ 63"
  proof -
    have "payload_size_max k < 2147483648" using assms(1) by (simp add: kws_open_def)
    then have "int (length d) < 2147483648" using assms(9) by linarith
    then show ?thesis by simp
  qed
  have e0: "establish_logical_layer E k = Some (0, k)" "handshake k"
    using assms(1) by (simp_all add: establish_logical_layer_def kws_open_def)
  obtain st k1 where 1: "read_start E k = Some (st, k1)" "kws_open k1" "payload_size_max k1 = payload_size_max k"
    "st \<noteq> None \<and> down k1 \<noteq> 0 \<or> mid_ok k k1"
    using read_start_total [OF assms(1,2)] by metis
  have "st = None \<and> (\<exists>j. got (F @ rest) j k1 \<and> 2 \<le> j \<and> j \<le> 9 \<and> j \<le> length F)"
    by (rule read_start_feeds [OF 1(1) _ assms(1)]) (use assms(1,5,8) F(1) in \<open>simp_all add: F_def [symmetric] h_def kws_open_def\<close>)
  then obtain j where j: "st = None" "got (F @ rest) j k1" "2 \<le> j" "j \<le> 9" "j \<le> length F" by blast
  have m1: "mid_ok k k1" using 1(4) j(1) by simp
  have lk: "15 \<le> length (kbuffer k1)" by (rule kws_open_rest(2) [OF 1(2)])
  have c: "mem_rd (kbuffer k1) 0 = Some (F ! 0)" "mem_rd (kbuffer k1) 1 = Some (F ! 1)"
    using got_nth [OF j(2), of 0] got_nth [OF j(2), of 1] j(3,5) lk by (auto simp: mem_rd_def nth_append)
  define msk where "msk = (key \<noteq> None)"
  have fp: "frame_pass E frag oc0 k = read_data E frag oc (F ! 0) (F ! 1) k1"
    using e0 assms(4,6) 1(1) j(1) c data_oc_bits(1) [OF assms(6), of fin] data_oc_bits(3) [OF assms(6)] F(2)
    unfolding frame_pass_def data_oc_def by (simp add: Let_def)
  obtain ok2 k2 where h2: "(if msk then fill_header 6 k1 else Some (True, k1)) = Some (ok2, k2)"
    "got (F @ rest) (max j need) k2" "ok2" "mid_ok k1 k2" "body k2 = body k1"
  proof (cases msk)
    case False
    then show thesis using that [of True k1] j m1 1(2) by (simp add: need_def msk_def key_len_def max_def mid_ok_def)
  next
    case True
    then have n6: "need = 6" "6 \<le> length (F @ rest)" using F(1) by (auto simp: need_def msk_def key_len_def h_def)
    have b1: "body_ok k1" using m1 by (simp add: mid_ok_def)
    obtain ok k2 where f: "fill_header (int 6) k1 = Some (ok, k2)"
      by (rule fill_header_total [OF 1(2) b1, of "int 6"]) (use j in \<open>auto simp: got_def\<close>)
    show thesis
      using that [of ok k2] f True n6 fill_header_feeds [OF f j(2) 1(2) n6(2)] fill_header_mid [OF f 1(2) b1 j(2)] j(4)
      by simp
  qed
  have o2: "kws_open k2" "body_ok k2" "pool_ok E k2" "payload_size_max k2 = payload_size_max k"
    using h2(4) m1 assms(3) by (auto simp: mid_ok_def pool_ok_def)
  define j2 where "j2 = max j need"
  have nd: "need \<le> j2" "2 \<le> need" "need \<le> 6" "j2 \<le> 9" "j2 \<le> length F" "need + length (len_bytes (length d)) = h"
    using j F(1) by (auto simp: j2_def need_def key_len_def h_def)
  have g2: "got (F @ rest) j2 k2" using h2(2) by (simp add: j2_def)
  obtain ok3 hdr k3 where h3: "read_length (int need) k2 = Some (ok3, hdr, k3)" "mid_ok k2 k3" "body k3 = body k2"
    by (rule read_length_total [OF o2(1,2), of "int need"]) (use nd g2 in \<open>auto simp: got_def\<close>)
  have f3: "ok3 \<and> hdr = int (need + length (len_bytes (length d))) \<and> plen k3 = int (length d) \<and>
      payload k3 = 2 + length (len_bytes (length d)) \<and> got (F @ rest) (max j2 (need + length (len_bytes (length d)))) k3"
    by (rule read_length_feeds [OF h3(1) g2 o2(1,2) nd(1,2,4)])
      (use nd F m in \<open>auto simp: nth_append\<close>)
  define j3 where "j3 = max j2 h"
  have g3: "got (F @ rest) j3 k3" "hdr = int h" "h \<le> j3" "j3 \<le> length F" "j3 \<le> 14"
    using f3 nd F(1,7) by (auto simp: j3_def)
  have rd: "read_data E frag oc (F ! 0) (F ! 1) k1 = read_payload E (frag_next frag fin oc) msk oc (int h) k3"
  proof -
    have b: "bit (F ! 0) 7 = fin" "bit (F ! 1) 7 = msk" using F(2,4) data_oc_bits(2) [OF assms(6)] by (simp_all add: msk_def)
    have n: "(if msk then 6 else 2) = int need" by (simp add: need_def msk_def key_len_def)
    show ?thesis
      using h2(1,3) h3(1) f3 g3(2) unfolding read_data_def Let_def b n frag_next_def [symmetric] by simp
  qed
  have o3: "kws_open k3" "body_ok k3" "pool_ok E k3" "payload_size_max k3 = payload_size_max k" "body k3 = body k"
      "bbuffer k3 = bbuffer k"
  proof -
    have "bbuffer k2 = bbuffer k1" using h2(1) fill_header_body by (cases msk) auto
    then show "bbuffer k3 = bbuffer k"
      using read_length_body [OF h3(1)] read_start_body [of E k k1] 1(1) j(1) by simp
    show "body k3 = body k" using h3(3) h2(5) read_start_body [of E k k1] 1(1) j(1) by simp
  qed (use h3(2) o2 in \<open>auto simp: mid_ok_def pool_ok_def\<close>)
  have "down k3 = down k" "plen k3 = int (length d)" using h3(2) h2(4) m1 f3 by (simp_all add: mid_ok_def)
  moreover have "\<exists>p. read_payload E (frag_next frag fin oc) msk oc (int h) k3 = Some p \<and> pass_ok k3 p"
  proof (rule read_payload_total [OF o3(1-3)])
    show "int (body k3) + plen k3 < 2 ^ 63"
      using assms(9) o3(5) calculation(2) kws_open_def [of k] assms(1) by simp
  qed (use g3 f3 in \<open>auto simp: got_def h_def key_len_def msk_def\<close>)
  ultimately obtain p where p: "frame_pass E frag oc0 k = Some p" "pass_ok k p"
    using fp rd pass_ok_trans [of k3 _ k] o3(4) by auto
  obtain e k' where p': "p = (e, k')" by fastforce
  have a: "e = (if frag_next frag fin oc then Inr (True, oc) else Inl (packetlen k', oc, AtBody)) \<and> feeds k' rest \<and>
    body k' = body k3 + (length F - h) \<and>
    take (body k') (bbuffer k') = take (body k3) (bbuffer k3) @
      (if msk then mask_bytes (take 4 (drop (payload k3) F)) (drop h F) else drop h F)"
    by (rule read_payload_feeds [OF _ o3(1-3) g3(1,3-5)])
      (use p(1) p' fp rd f3 F(1) o3 assms(9) in \<open>auto simp: h_def key_len_def msk_def\<close>)
  have b: "(if msk then mask_bytes (take 4 (drop (payload k3) F)) (drop h F) else drop h F) = d"
  proof -
    have "payload k3 = 2 + length (len_bytes (length d))" using f3 by blast
    then show ?thesis using F(6) unfolding msk_def by (simp only:)
  qed
  have c: "length F - h = length d" using F(1) by simp
  have r: "e = (if frag_next frag fin oc then Inr (True, oc) else Inl (packetlen k', oc, AtBody))"
      "feeds k' rest" "body k' = body k + length d" "take (body k') (bbuffer k') = take (body k) (bbuffer k) @ d"
    using a [unfolded b c o3(5,6)] by blast+
  have "kws_open k'" "payload_size_max k' = payload_size_max k" "body_ok k' \<and> down k' = 0"
    using p(2) r(1) assms(4) unfolding p' pass_ok_def by (auto split: if_splits)
  moreover have "packetlen k' = int (body k')" using calculation(3) by (simp add: body_ok_def)
  ultimately show ?thesis using p(1) p' r by auto
qed


section \<open>Reading a message\<close>

text \<open>The frames of a message sent in fragments: only the first has the opcode, only the last the FIN bit.\<close>

fun msg_frames :: "byte \<Rightarrow> (mem option \<times> mem) list \<Rightarrow> mem list" where
  "msg_frames oc [] = []"
| "msg_frames oc [(key, d)] = [ws_frame True oc key d]"
| "msg_frames oc ((key, d) # p # ps) = ws_frame False oc key d # msg_frames WSOC_CONTINUATION (p # ps)"

lemma length_msg_frames [simp]: "length (msg_frames oc ps) = length ps"
  by (induction oc ps rule: msg_frames.induct) simp_all

definition keys_ok :: "(mem option \<times> mem) list \<Rightarrow> bool" where
  "keys_ok ps = (\<forall>(key, d)\<in>set ps. key = None \<or> (\<exists>m. key = Some m \<and> length m = 4))"

text \<open>
  The first read asks for nine bytes, so it must not reach into what follows a frame: a frame of fewer
  bytes may only be the last thing in the stream.
\<close>

definition long_enough :: "mem list \<Rightarrow> mem \<Rightarrow> bool" where
  "long_enough fs rest = ((\<forall>f\<in>set (butlast fs). 9 \<le> length f) \<and> (9 \<le> length (last fs) \<or> rest = []))"

lemma read_loop_message:
  assumes "kws_open k" "body_ok k" "pool_ok E k" "down k = 0"
    and "feeds k (concat (msg_frames oc ps) @ rest)" "keys_ok ps" "long_enough (msg_frames oc ps) rest" "ps \<noteq> []"
    and "frag = False \<and> oc \<in> {WSOC_TEXT, WSOC_BINARY} \<or> frag = True \<and> oc = WSOC_CONTINUATION"
    and "int (body k) + int (length (concat (map snd ps))) < payload_size_max k"
  shows "\<exists>k'. read_loop E frag oc0 k = Some ((int (body k + length (concat (map snd ps))),
       if length ps = 1 then oc else WSOC_CONTINUATION, AtBody), k') \<and>
     kws_open k' \<and> body_ok k' \<and> down k' = 0 \<and> feeds k' rest \<and>
     body k' = body k + length (concat (map snd ps)) \<and>
     take (body k') (bbuffer k') = take (body k) (bbuffer k) @ concat (map snd ps)"
  using assms
proof (induction oc ps arbitrary: k frag oc0 rule: msg_frames.induct)
  case (2 oc key d)
  have oc: "oc \<in> data_oc" "\<not> frag_next frag True oc"
    using "2.prems"(9) by (auto simp: data_oc_def frag_next_def WSOC_TEXT_def WSOC_BINARY_def WSOC_CONTINUATION_def)
  have "\<exists>k'. frame_pass E frag oc0 k =
      Some (if frag_next frag True oc then Inr (True, oc) else Inl (int (body k + length d), oc, AtBody), k') \<and>
    kws_open k' \<and> body_ok k' \<and> down k' = 0 \<and> payload_size_max k' = payload_size_max k \<and> feeds k' rest \<and>
    body k' = body k + length d \<and> take (body k') (bbuffer k') = take (body k) (bbuffer k) @ d"
    by (rule frame_pass_feeds [OF "2.prems"(1-4) _ oc(1)])
      (use "2.prems" in \<open>auto simp: keys_ok_def long_enough_def\<close>)
  then obtain k' where k': "frame_pass E frag oc0 k = Some (Inl (int (body k + length d), oc, AtBody), k')"
     "kws_open k'" "body_ok k'" "down k' = 0" "feeds k' rest" "body k' = body k + length d"
     "take (body k') (bbuffer k') = take (body k) (bbuffer k) @ d"
    using oc(2) by auto
  then have "read_loop E frag oc0 k = Some ((int (body k + length d), oc, AtBody), k')"
    by (subst read_loop.simps) simp
  with k' show ?case by simp
next
  case (3 oc key d p ps)
  have oc: "oc \<in> data_oc" "frag_next frag False oc"
    using "3.prems"(9) by (auto simp: data_oc_def frag_next_def WSOC_TEXT_def WSOC_BINARY_def WSOC_CONTINUATION_def)
  let ?rest = "concat (msg_frames WSOC_CONTINUATION (p # ps)) @ rest"
  have nn: "msg_frames WSOC_CONTINUATION (p # ps) \<noteq> []"
    using length_msg_frames [of WSOC_CONTINUATION "p # ps"] by (metis length_0_conv list.distinct(1))
  have le: "9 \<le> length (ws_frame False oc key d)" "long_enough (msg_frames WSOC_CONTINUATION (p # ps)) rest"
    using "3.prems"(7) nn by (auto simp: long_enough_def)
  have "\<exists>k'. frame_pass E frag oc0 k =
      Some (if frag_next frag False oc then Inr (True, oc) else Inl (int (body k + length d), oc, AtBody), k') \<and>
    kws_open k' \<and> body_ok k' \<and> down k' = 0 \<and> payload_size_max k' = payload_size_max k \<and> feeds k' ?rest \<and>
    body k' = body k + length d \<and> take (body k') (bbuffer k') = take (body k) (bbuffer k) @ d"
    by (rule frame_pass_feeds [OF "3.prems"(1-4) _ oc(1)])
      (use "3.prems" le in \<open>auto simp: keys_ok_def\<close>)
  then obtain k1 where k1: "frame_pass E frag oc0 k = Some (Inr (True, oc), k1)"
     "kws_open k1" "body_ok k1" "down k1 = 0" "payload_size_max k1 = payload_size_max k" "feeds k1 ?rest"
     "body k1 = body k + length d" "take (body k1) (bbuffer k1) = take (body k) (bbuffer k) @ d"
    using oc(2) by auto
  have e: "read_loop E frag oc0 k = read_loop E True oc k1"
    using k1(1) by (subst read_loop.simps) simp
  have "\<exists>k'. read_loop E True oc k1 = Some ((int (body k1 + length (concat (map snd (p # ps)))),
       if length (p # ps) = 1 then WSOC_CONTINUATION else WSOC_CONTINUATION, AtBody), k') \<and>
     kws_open k' \<and> body_ok k' \<and> down k' = 0 \<and> feeds k' rest \<and>
     body k' = body k1 + length (concat (map snd (p # ps))) \<and>
     take (body k') (bbuffer k') = take (body k1) (bbuffer k1) @ concat (map snd (p # ps))"
    by (rule "3.IH") (use k1 "3.prems"(3,6,10) le in \<open>auto simp: pool_ok_def keys_ok_def\<close>)
  then show ?case unfolding e using k1(7,8) by (auto simp: add.assoc)
qed simp

end
