(* ===== verification/Ks_Kws_Props.thy ===== *)
theory Ks_Kws_Props
  imports Ks_Kws_Wire
begin

text \<open>
  \<open>kws.c\<close>: what \<open>kws_write_frame\<close> puts on the wire, and the properties of the WebSocket connection that
  span reading and writing.
\<close>

section \<open>The writer\<close>

text \<open>The write buffer has the recorded size, the pool provides what is needed, the socket takes everything.\<close>

definition can_write :: "kws_env \<Rightarrow> nat \<Rightarrow> kws \<Rightarrow> bool" where
  "can_write E n k = (down k = 0 \<and> ksend k = [] \<and> (\<forall>m\<le>n + 15. kpool E m) \<and> n + 15 < 2 ^ 31 \<and>
     (case write_buffer k of None \<Rightarrow> write_buffer_len k = 0 | Some m \<Rightarrow> length m = write_buffer_len k))"

lemma frame_header_eq:
  "frame_header oc n = (oc OR 0x80) # word_of_nat (len_field n) # len_bytes n"
  by (simp add: frame_header_def len_field_def len_bytes_def)

lemma grow_write_buffer_room:
  assumes "can_write E n k" "0 < m" "m \<le> n + 15"
  shows "\<exists>bp w. grow_write_buffer E m k = Some (k\<lparr>write_buffer_len := w, write_buffer := Some bp\<rparr>) \<and> m \<le> length bp"
proof (cases "write_buffer_len k < m")
  case True
  define bp where "bp = mem_realloc (kjunk E) (case write_buffer k of None \<Rightarrow> [] | Some m \<Rightarrow> m) m"
  have "kpool E m" using assms by (simp add: can_write_def)
  with True have "grow_write_buffer E m k = Some (k\<lparr>write_buffer_len := m, write_buffer := Some bp\<rparr>)"
    by (simp add: grow_write_buffer_def bp_def)
  moreover have "m \<le> length bp" by (simp add: bp_def)
  ultimately show ?thesis by blast
next
  case False
  then obtain bp where "write_buffer k = Some bp" "length bp = write_buffer_len k"
    using assms by (auto simp: can_write_def split: option.splits)
  with False have "grow_write_buffer E m k = Some (k\<lparr>write_buffer_len := write_buffer_len k, write_buffer := Some bp\<rparr>)"
    by (simp add: grow_write_buffer_def)
  with False \<open>length bp = write_buffer_len k\<close> show ?thesis by (metis not_less)
qed

lemma kws_raw_write_all:
  "ksend k = [] \<Longrightarrow> length d < 2 ^ 31 \<Longrightarrow> kws_raw_write d k = Some (int (length d), k\<lparr>kout := kout k @ d\<rparr>)"
  by (simp add: kws_raw_write_def send_loop.simps [of d 0] io_len_small)

lemma kws_write_frame_wire:
  assumes "can_write E (length d) k"
  shows "\<exists>key k'. kws_write_frame E oc d k = Some (int (length d), k') \<and>
     kout k' = kout k @ ws_frame True oc key d \<and> (key = None \<or> (\<exists>m. key = Some m \<and> length m = 4)) \<and>
     (key = None \<longleftrightarrow> kws_has k KWS_FLAG_DONTMASK)"
proof -
  define hdr where "hdr = frame_header oc (length d)"
  have hl: "length hdr \<le> 10" "2 \<le> length hdr" by (simp_all add: hdr_def frame_header_eq len_bytes_length)
  have b: "length d + 15 < 2147483648" using assms by (simp add: can_write_def)
  define msk where "msk = (\<not> kws_has k KWS_FLAG_DONTMASK)"
  define m where "m = length hdr + length d + 1 + (if msk then 4 else 0)"
  obtain bp w where g: "grow_write_buffer E m k = Some (k\<lparr>write_buffer_len := w, write_buffer := Some bp\<rparr>)" "m \<le> length bp"
  proof -
    have "0 < m" "m \<le> length d + 15" using hl by (auto simp: m_def)
    from grow_write_buffer_room [OF assms this] show thesis using that by blast
  qed
  define k1 where "k1 = k\<lparr>write_buffer_len := w, write_buffer := Some bp\<rparr>"
  obtain key k2 where n: "gen_nonce E 4 k1 = (key, k2)" by fastforce
  then have key: "length key = 4" "ksend k2 = ksend k" "kout k2 = kout k" by (auto simp: gen_nonce_def k1_def)
  define F where "F = ws_frame True oc (if msk then Some key else None) d"
  have c1: "mem_cpy bp 0 hdr = Some (hdr @ drop (length hdr) bp)" using g(2) by (simp add: mem_cpy_def m_def)
  have "\<exists>k'. kws_write_frame E oc d k = Some (int (length d), k') \<and> kout k' = kout k @ F"
  proof (cases msk)
    case False
    define bp2 where "bp2 = hdr @ d @ drop (length hdr + length d) bp"
    have c2: "mem_cpy (hdr @ drop (length hdr) bp) (length hdr) d = Some bp2"
      using g(2) by (simp add: mem_cpy_def m_def bp2_def add.commute)
    have t: "take (length hdr + length d) bp2 = F"
      using False by (simp add: bp2_def F_def ws_frame_def hdr_def frame_header_eq)
    have lf: "length F = length hdr + length d" using False by (simp add: F_def ws_frame_def hdr_def frame_header_eq)
    have wr: "kws_raw_write F (k1\<lparr>write_buffer := Some bp2\<rparr>) =
        Some (int (length F), k1\<lparr>write_buffer := Some bp2, kout := kout k @ F\<rparr>)"
      using kws_raw_write_all [of "k1\<lparr>write_buffer := Some bp2\<rparr>" F] assms lf hl b by (simp add: k1_def can_write_def)
    have "kws_write_frame E oc d k = Some (int (length d), k1\<lparr>write_buffer := Some bp2, kout := kout k @ F\<rparr>)"
      unfolding kws_write_frame_def
      using assms False g(1) c1 c2 t wr hl lf
      by (simp add: can_write_def hdr_def [symmetric] msk_def m_def k1_def Let_def)
    then show ?thesis by simp
  next
    case True
    define bp2 where "bp2 = (hdr @ drop (length hdr) bp)[1 := (hdr ! 1) OR 0x80]"
    define bp3 where "bp3 = take (length hdr) bp2 @ key @ drop (length hdr + 4) bp2"
    define bp4 where "bp4 = take (length hdr) bp2 @ key @ mask_bytes key d @ drop (length hdr + 4 + length d) bp2"
    have l2: "length bp2 = length bp" using g(2) by (simp add: bp2_def m_def)
    have i1: "(hdr @ drop (length hdr) bp) ! 1 = hdr ! 1" using hl by (simp add: nth_append)
    have c2: "mem_wr (hdr @ drop (length hdr) bp) 1 (hdr ! 1 OR 0x80) = Some bp2"
      using hl by (simp add: mem_wr_def bp2_def)
    have c3: "mem_cpy bp2 (length hdr) key = Some bp3"
      using g(2) True l2 key(1) by (simp add: mem_cpy_def bp3_def m_def)
    have c4: "mem_cpy bp3 (length hdr + 4) (mask_bytes key d) = Some bp4"
      using g(2) True l2 key(1) by (simp add: mem_cpy_def bp3_def bp4_def m_def add.commute add.left_commute)
    have h2: "take (length hdr) bp2 = (oc OR 0x80) # (word_of_nat (len_field (length d)) OR 0x80) # len_bytes (length d)"
      by (simp add: bp2_def take_update_swap hdr_def frame_header_eq)
    have lf: "length F = length hdr + 4 + length d" and bp4: "bp4 = F @ drop (length hdr + 4 + length d) bp2"
      using True key(1) h2 by (simp_all add: bp4_def F_def ws_frame_def hdr_def frame_header_eq)
    then have t: "take (length hdr + 4 + length d) bp4 = F" by simp
    have wr: "kws_raw_write F (k2\<lparr>write_buffer := Some bp4\<rparr>) =
        Some (int (length F), k2\<lparr>write_buffer := Some bp4, kout := kout k @ F\<rparr>)"
      using kws_raw_write_all [of "k2\<lparr>write_buffer := Some bp4\<rparr>" F] assms lf hl key b by (simp add: can_write_def)
    have "kws_write_frame E oc d k = Some (int (length d), k2\<lparr>write_buffer := Some bp4, kout := kout k @ F\<rparr>)"
      unfolding kws_write_frame_def
      using assms True g(1) c1 i1 c2 c3 c4 t wr hl lf n
      by (simp add: can_write_def hdr_def [symmetric] msk_def m_def k1_def Let_def)
    then show ?thesis by simp
  qed
  then obtain k' where k': "kws_write_frame E oc d k = Some (int (length d), k')" "kout k' = kout k @ F" by blast
  show ?thesis
    by (rule exI [of _ "if msk then Some key else None"], rule exI [of _ k'])
      (use k' key(1) in \<open>simp add: F_def msk_def\<close>)
qed

section \<open>Properties\<close>

text \<open>A connection on which messages can be read.\<close>

definition can_read :: "kws_env \<Rightarrow> kws \<Rightarrow> bool" where
  "can_read E k = (kws_open k \<and> down k = 0 \<and> length (bbuffer k) = bbuflen k \<and> 0 < bbuflen k \<and> bbuflen k < 2 ^ 31 \<and>
     (\<forall>n. int n \<le> payload_size_max k \<longrightarrow> kpool E n))"

text \<open>A connection with small buffers, for the examples.\<close>

definition demo_env :: kws_env where
  "demo_env = \<lparr>ksha1 = (\<lambda>_. replicate 20 7), krand = (\<lambda>i. word_of_nat (37 * i + 11)), kjunk = (\<lambda>_. 0), kpool = (\<lambda>_. True)\<rparr>"

definition demo_kws :: kws where
  "demo_kws = \<lparr>ksock = True, ktype = KWS_SERVER, kbuffer = replicate 24 0, bbuffer = replicate 8 0, body = 0,
     kuri = None, buflen = 24, bbuflen = 8, datalen = 0, payload = 0, plen = 0, rplen = 0, packetlen = 0,
     handshake = True, down = 0, kblock = 0, sanity = 5000, logical_established = True, kflags = 0, kx = 0,
     write_buffer = None, write_buffer_len = 0, req_uri = [], req_host = None, req_proto = None, req_headers = [],
     unprocessed_buffer_len = 0, unprocessed_position = 0, payload_size_max = 100, kin = [], ksend = [], kout = [],
     kclosed = False, kdrawn = 0\<rparr>"

lemma demo_can_read: "can_read demo_env (demo_kws\<lparr>kin := es\<rparr>)"
  by (simp add: can_read_def kws_open_def rest_ok_def demo_env_def demo_kws_def)

lemma demo_feeds: "feeds (demo_kws\<lparr>kin := map (\<lambda>b. Segment [b]) bs\<rparr>) bs"
  unfolding feeds_def by (rule exI [of _ "map (\<lambda>b. [b]) bs"]) (auto simp: demo_kws_def)

text \<open>A frame up to its payload, with any length announced.\<close>

definition ws_header :: "bool \<Rightarrow> byte \<Rightarrow> mem option \<Rightarrow> nat \<Rightarrow> mem" where
  "ws_header fin oc key n =
     ((if fin then oc OR 0x80 else oc) #
      (if key = None then word_of_nat (len_field n) else word_of_nat (len_field n) OR 0x80) # len_bytes n) @
     (case key of None \<Rightarrow> [] | Some m \<Rightarrow> m)"

lemma announced_feeds:
  assumes "kws_open k" "body_ok k" "down k = 0" "feeds k (ws_header fin oc key n @ rest)" "oc \<in> data_oc"
    and "key = None \<or> (\<exists>m. key = Some m \<and> length m = 4)" "0x10000 \<le> n" "n < 2 ^ 63"
  shows "announced E k = Some (int n)"
proof -
  define F where "F = ws_header fin oc key n"
  define need where "need = 2 + key_len key"
  have lf: "len_field n = 127" "length (len_bytes n) = 8" using assms(7) by (simp_all add: len_field_def len_bytes_def)
  have F: "length F = need + 8" "F ! 0 = (if fin then oc OR 0x80 else oc)" "uint (F ! 1 AND 0x7f) = int (len_field n)"
    "bit (F ! 1) 7 = (key \<noteq> None)" "take (length (len_bytes n)) (drop 2 F) = len_bytes n"
    using assms(6) len_field_bits [of "len_field n"] lf
    by (auto simp: F_def ws_header_def need_def key_len_def)
  obtain st k1 where 1: "read_start E k = Some (st, k1)" "kws_open k1" "st \<noteq> None \<and> down k1 \<noteq> 0 \<or> mid_ok k k1"
    using read_start_total [OF assms(1,2)] by metis
  have "st = None \<and> (\<exists>j. got (F @ rest) j k1 \<and> 2 \<le> j \<and> j \<le> 9 \<and> j \<le> length F)"
    by (rule read_start_feeds [OF 1(1) _ assms(1)]) (use assms(1,4) F(1) in \<open>simp_all add: F_def [symmetric] need_def kws_open_def\<close>)
  then obtain j where j: "st = None" "got (F @ rest) j k1" "2 \<le> j" "j \<le> 9" "j \<le> length F" by blast
  have o1: "body_ok k1" using 1(3) j(1) by (simp add: mid_ok_def)
  have lk: "15 \<le> length (kbuffer k1)" by (rule kws_open_rest(2) [OF 1(2)])
  have c: "mem_rd (kbuffer k1) 0 = Some (F ! 0)" "mem_rd (kbuffer k1) 1 = Some (F ! 1)"
    using got_nth [OF j(2), of 0] got_nth [OF j(2), of 1] j(3,5) lk by (auto simp: mem_rd_def nth_append)
  define msk where "msk = (key \<noteq> None)"
  have an: "announced E k = data_length (F ! 1) k1"
    using assms(3,5) 1(1) j(1) c data_oc_bits(1) [OF assms(5), of fin] F(2) by (simp add: announced_def data_oc_def)
  obtain k2 where h2: "(if msk then fill_header 6 k1 else Some (True, k1)) = Some (True, k2)"
    "got (F @ rest) (max j need) k2" "kws_open k2" "body_ok k2"
  proof (cases msk)
    case False
    then show thesis using that [of k1] j 1(2) o1 by (simp add: need_def msk_def key_len_def max_def)
  next
    case True
    then have n6: "need = 6" "6 \<le> length (F @ rest)" using F(1) by (auto simp: need_def msk_def key_len_def)
    obtain ok k2 where f: "fill_header (int 6) k1 = Some (ok, k2)"
      by (rule fill_header_total [OF 1(2) o1, of "int 6"]) (use j in \<open>auto simp: got_def\<close>)
    show thesis
      using that [of k2] f True n6 fill_header_feeds [OF f j(2) 1(2) n6(2)] fill_header_mid [OF f 1(2) o1 j(2)] j(4)
      by (simp add: mid_ok_def)
  qed
  have nd: "need \<le> max j need" "2 \<le> need" "need \<le> 6" "max j need \<le> 9" "max j need \<le> length (F @ rest)"
    using j F(1) by (auto simp: need_def key_len_def)
  obtain ok3 hdr k3 where h3: "read_length (int need) k2 = Some (ok3, hdr, k3)"
    by (rule read_length_total [OF h2(3,4), of "int need"]) (use nd h2(2) in \<open>auto simp: got_def\<close>)
  have "ok3 \<and> plen k3 = int n"
    using read_length_feeds [OF h3 h2(2-4) nd(1,2,4) _ _ nd(5), of n] F lf assms(8) nd(2,3) by (auto simp: nth_append)
  moreover have n: "(if msk then 6 else 2) = int need" by (simp add: need_def msk_def key_len_def)
  moreover have b: "bit (F ! 1) 7 = msk" using F(4) by (simp add: msk_def)
  ultimately show ?thesis using h2(1) h3 unfolding an data_length_def b n by simp
qed

text \<open>
  C6: Memory safety against any peer, and its exception. On an open connection with a size limit below \<open>2^31\<close>, a
  body buffer of the recorded size and a pool that provides blocks up to the limit, whatever the socket
  delivers, in whatever portions and with whatever errors: \<open>kws_read_frame\<close> returns without a fault,
  the connection is closed or open again, and the message lies inside the body buffer; unless one of the
  frames of the message announces a length that, with the bytes of the message read before it, is \<open>2^63\<close> or
  more (\<open>overlong\<close>), and then it always faults.\<close>

theorem kws_read_frame_safe:
  assumes "kws_open k" and "length (bbuffer k) = bbuflen k" "0 < bbuflen k" "bbuflen k < 2 ^ 31"
    and "\<forall>n. int n \<le> payload_size_max k \<longrightarrow> kpool E n"
  shows "if overlong E False WSOC_INVALID (k\<lparr>body := 0, packetlen := 0\<rparr>) then kws_read_frame E k = None
    else \<exists>r oc dr k'. kws_read_frame E k = Some ((r, oc, dr), k') \<and> kws_open k' \<and>
     (down k' = 0 \<longrightarrow> length (bbuffer k') = bbuflen k' \<and> bbuflen k' < 2 ^ 31) \<and>
     (dr = AtBody \<longrightarrow> 0 \<le> r \<and> r < int (length (bbuffer k')))"
proof -
  have "int (bbuflen k) < 2 ^ 31" using assms(4) by simp
  then have "kws_open (k\<lparr>body := 0, packetlen := 0\<rparr>)" "body_ok (k\<lparr>body := 0, packetlen := 0\<rparr>)"
      "pool_ok E (k\<lparr>body := 0, packetlen := 0\<rparr>)"
    using assms by (simp_all add: body_ok_def pool_ok_def)
  from read_loop_total [OF this, of False WSOC_INVALID] show ?thesis
    by (auto simp: kws_read_frame_def body_ok_def)
qed

theorem kws_read_frame_safe_witness:
  "\<not> overlong demo_env False WSOC_INVALID (demo_kws\<lparr>kin := [Segment [0x81, 0xFF, 1], Broken]\<rparr>) \<and>
   (\<exists>r oc dr k'. kws_read_frame demo_env (demo_kws\<lparr>kin := [Segment [0x81, 0xFF, 1], Broken]\<rparr>) = Some ((r, oc, dr), k') \<and> kws_open k' \<and>
     (down k' = 0 \<longrightarrow> length (bbuffer k') = bbuflen k' \<and> bbuflen k' < 2 ^ 31) \<and>
     (dr = AtBody \<longrightarrow> 0 \<le> r \<and> r < int (length (bbuffer k'))))"
proof -
  let ?k = "demo_kws\<lparr>kin := [Segment [0x81, 0xFF, 1], Broken]\<rparr>"
  have s: "?k\<lparr>body := 0, packetlen := 0\<rparr> = ?k" by (simp add: demo_kws_def)
  have "announced demo_env ?k = None" by code_simp
  moreover have "map_option fst (frame_pass demo_env False WSOC_INVALID ?k) = Some (Inl (0, WSOC_CLOSE, NoData))" by code_simp
  ultimately have "\<not> overlong demo_env False WSOC_INVALID ?k" by (subst overlong_iff) auto
  then show ?thesis
    using kws_read_frame_safe [of ?k demo_env] demo_can_read [of "[Segment [0x81, 0xFF, 1], Broken]"]
    unfolding s can_read_def by (simp add: demo_kws_def)
qed

text \<open>
  The exception of the memory safety happens. A peer that sends a text or binary fragment and then a
  CONTINUATION frame, masked or not, that announces less than \<open>2^63\<close> bytes but \<open>2^63\<close> and more together with
  the fragment: neither the size limit nor the size of the body buffer is checked, and the call ends in the
  assertion (or a write past the buffer), whatever the limit is and before any payload of the second frame comes.\<close>

lemma kws_continuation_overflow:
  assumes "can_read E k" "feeds k (ws_frame False oc key d @ ws_header fin WSOC_CONTINUATION key' n @ rest)"
    and "oc \<in> {WSOC_TEXT, WSOC_BINARY}" "keys_ok [(key, d), (key', [])]" "9 \<le> length (ws_frame False oc key d)"
    and "int (length d) < payload_size_max k" "n < 2 ^ 63" "2 ^ 63 \<le> length d + n"
  shows "kws_read_frame E k = None"
proof -
  let ?k = "k\<lparr>body := 0, packetlen := 0\<rparr>"
  have "int (bbuflen k) < 2 ^ 31" using assms(1) by (simp add: can_read_def)
  then have o: "kws_open ?k" "body_ok ?k" "pool_ok E ?k" "down ?k = 0"
    using assms(1) by (simp_all add: can_read_def body_ok_def pool_ok_def)
  have f: "feeds ?k (ws_frame False oc key d @ ws_header fin WSOC_CONTINUATION key' n @ rest)"
    using assms(2) by (simp add: feeds_def)
  have oc: "oc \<in> data_oc" "frag_next False False oc" "WSOC_CONTINUATION \<in> data_oc"
    using assms(3) by (auto simp: data_oc_def frag_next_def WSOC_TEXT_def WSOC_BINARY_def WSOC_CONTINUATION_def)
  have "int (length d) < 2 ^ 31" using o(1) assms(6) by (simp add: kws_open_def)
  then have n: "0x10000 \<le> n" using assms(8) by simp
  obtain k1 where k1: "frame_pass E False WSOC_INVALID ?k = Some (Inr (True, oc), k1)" "kws_open k1" "body_ok k1" "down k1 = 0"
    "feeds k1 (ws_header fin WSOC_CONTINUATION key' n @ rest)" "body k1 = length d"
    using frame_pass_feeds [where ?oc0.0 = WSOC_INVALID and frag = False, OF o f oc(1)] assms(4-6) oc(2) by (auto simp: keys_ok_def)
  have "announced E k1 = Some (int n)"
    by (rule announced_feeds [OF k1(2-5) oc(3) _ n assms(7)]) (use assms(4) in \<open>simp add: keys_ok_def\<close>)
  moreover have "2 ^ 63 \<le> int (body k1) + int n" using assms(8) k1(6) by simp
  ultimately have "overlong E False WSOC_INVALID ?k"
    using overlong.later [OF k1(1) overlong.now] by simp
  then show ?thesis
    using read_loop_total [OF o(1-3), of False WSOC_INVALID] by (simp add: kws_read_frame_def)
qed

lemma kws_continuation_overflow_demo:
  "kws_read_frame demo_env (demo_kws\<lparr>kin := map (\<lambda>b. Segment [b])
     (ws_frame False WSOC_TEXT None [104, 101, 108, 108, 111, 32, 119] @ [0x80, 127, 0x7f, 0xff, 0xff, 0xff, 0xff, 0xff, 0xff, 0xff])\<rparr>) = None"
proof -
  let ?d = "[104, 101, 108, 108, 111, 32, 119] :: mem"
  have h: "ws_header True WSOC_CONTINUATION None 9223372036854775807 @ [] = [0x80, 127, 0x7f, 0xff, 0xff, 0xff, 0xff, 0xff, 0xff, 0xff]"
    by (simp add: ws_header_def len_field_def len_bytes_def be_bytes_def le_bytes_def WSOC_CONTINUATION_def upt_rec)
  have f: "feeds (demo_kws\<lparr>kin := map (\<lambda>b. Segment [b]) (ws_frame False WSOC_TEXT None ?d @
      [0x80, 127, 0x7f, 0xff, 0xff, 0xff, 0xff, 0xff, 0xff, 0xff])\<rparr>)
      (ws_frame False WSOC_TEXT None ?d @ ws_header True WSOC_CONTINUATION None 9223372036854775807 @ [])"
    unfolding h by (rule demo_feeds)
  show ?thesis
    by (rule kws_continuation_overflow [OF demo_can_read f]) (simp_all add: keys_ok_def ws_frame_length demo_kws_def)
qed

text \<open>
  C7: Reassembly. A message sent as any number of fragments, each masked or not, and delivered by the socket in
  any segments, is returned by one \<open>kws_read_frame\<close>: the length, the payloads one after the other at the start
  of the body buffer, and what follows the message is left for the next call. The opcode returned is that of
  the message for one frame and CONTINUATION for a fragmented one. The first read asks for nine bytes, so
  this needs frames of at least nine bytes, but for the last one when nothing follows it.\<close>

theorem kws_read_message:
  assumes "can_read E k" "feeds k (concat (msg_frames oc ps) @ rest)" "keys_ok ps"
    and "long_enough (msg_frames oc ps) rest" "ps \<noteq> []" "oc \<in> {WSOC_TEXT, WSOC_BINARY}"
    and "int (length (concat (map snd ps))) < payload_size_max k"
  shows "\<exists>k'. kws_read_frame E k = Some ((int (length (concat (map snd ps))),
       if length ps = 1 then oc else WSOC_CONTINUATION, AtBody), k') \<and>
     kws_open k' \<and> down k' = 0 \<and> feeds k' rest \<and>
     take (length (concat (map snd ps))) (bbuffer k') = concat (map snd ps)"
proof -
  let ?k = "k\<lparr>body := 0, packetlen := 0\<rparr>"
  have "int (bbuflen k) < 2 ^ 31" using assms(1) by (simp add: can_read_def)
  then have o: "kws_open ?k" "body_ok ?k" "pool_ok E ?k" "down ?k = 0"
    using assms(1) by (simp_all add: can_read_def body_ok_def pool_ok_def)
  have "feeds ?k (concat (msg_frames oc ps) @ rest)" using assms(2) by (simp add: feeds_def)
  then have "\<exists>k'. read_loop E False WSOC_INVALID ?k = Some ((int (body ?k + length (concat (map snd ps))),
       if length ps = 1 then oc else WSOC_CONTINUATION, AtBody), k') \<and>
     kws_open k' \<and> body_ok k' \<and> down k' = 0 \<and> feeds k' rest \<and>
     body k' = body ?k + length (concat (map snd ps)) \<and>
     take (body k') (bbuffer k') = take (body ?k) (bbuffer ?k) @ concat (map snd ps)"
    by (rule read_loop_message [OF o]) (use assms in auto)
  then show ?thesis unfolding kws_read_frame_def by (elim exE conjE) (rule exI, auto)
qed

theorem kws_read_message_witness:
  "\<exists>k'. kws_read_frame demo_env (demo_kws\<lparr>kin := map (\<lambda>b. Segment [b])
       (concat (msg_frames WSOC_TEXT [(None, [104, 101, 108, 108, 111, 32, 119]), (Some [1, 2, 3, 4], [111, 114])]))\<rparr>) =
     Some ((9, WSOC_CONTINUATION, AtBody), k') \<and> take 9 (bbuffer k') = [104, 101, 108, 108, 111, 32, 119, 111, 114]"
proof -
  let ?ps = "[(None, [104, 101, 108, 108, 111, 32, 119]), (Some [1, 2, 3, 4], [111, 114])] :: (mem option \<times> mem) list"
  let ?k = "demo_kws\<lparr>kin := map (\<lambda>b. Segment [b]) (concat (msg_frames WSOC_TEXT ?ps))\<rparr>"
  have f: "feeds ?k (concat (msg_frames WSOC_TEXT ?ps) @ [])" 
    using demo_feeds [of "concat (msg_frames WSOC_TEXT ?ps)"] by (simp only: append_Nil2)
  have "long_enough (msg_frames WSOC_TEXT ?ps) []" by (simp add: long_enough_def ws_frame_length)
  moreover have "keys_ok ?ps" "?ps \<noteq> []" "int (length (concat (map snd ?ps))) < payload_size_max ?k"
    by (simp_all add: keys_ok_def demo_kws_def)
  ultimately obtain k' where k': "kws_read_frame demo_env ?k = Some ((int (length (concat (map snd ?ps))),
       if length ?ps = 1 then WSOC_TEXT else WSOC_CONTINUATION, AtBody), k')"
     "take (length (concat (map snd ?ps))) (bbuffer k') = concat (map snd ?ps)"
    using kws_read_message [OF demo_can_read f] by blast
  have L: "length (concat (map snd ?ps)) = 9" by simp
  show ?thesis by (rule exI [of _ k']) (use k' [unfolded L] in simp)
qed

text \<open>
  C8: Round trip. What \<open>kws_write_frame\<close> sends for a text or binary message, masked or not, is read back by
  \<open>kws_read_frame\<close> at the other end, whatever the segments it arrives in: the length, the opcode and the
  bytes of the message, and nothing is left over.\<close>

theorem kws_frame_trip:
  assumes "can_write W (length d) s" "oc \<in> {WSOC_TEXT, WSOC_BINARY}"
  shows "\<exists>s' frame. kws_write_frame W oc d s = Some (int (length d), s') \<and> kout s' = kout s @ frame \<and>
    (\<forall>R k. can_read R k \<and> feeds k frame \<and> int (length d) < payload_size_max k \<longrightarrow>
      (\<exists>k'. kws_read_frame R k = Some ((int (length d), oc, AtBody), k') \<and> take (length d) (bbuffer k') = d \<and>
        feeds k' [] \<and> down k' = 0))"
proof -
  obtain key s' where w: "kws_write_frame W oc d s = Some (int (length d), s')" "kout s' = kout s @ ws_frame True oc key d"
    "key = None \<or> (\<exists>m. key = Some m \<and> length m = 4)"
    using kws_write_frame_wire [OF assms(1), of oc] by blast
  have "\<exists>k'. kws_read_frame R k = Some ((int (length d), oc, AtBody), k') \<and> take (length d) (bbuffer k') = d \<and>
        feeds k' [] \<and> down k' = 0"
    if "can_read R k" "feeds k (ws_frame True oc key d)" "int (length d) < payload_size_max k" for R k
    using kws_read_message [of R k oc "[(key, d)]" "[]"] that assms(2) w(3)
    by (auto simp: keys_ok_def long_enough_def)
  with w show ?thesis by blast
qed


theorem kws_frame_trip_witness:
  "\<exists>s' frame k'. kws_write_frame demo_env WSOC_TEXT [104, 105] demo_kws = Some (2, s') \<and> kout s' = frame \<and>
     kws_read_frame demo_env (demo_kws\<lparr>kin := map (\<lambda>b. Segment [b]) frame\<rparr>) = Some ((2, WSOC_TEXT, AtBody), k') \<and>
     take 2 (bbuffer k') = [104, 105]"
proof -
  let ?d = "[104, 105] :: mem"
  have w: "can_write demo_env (length ?d) demo_kws"
    by (simp add: can_write_def demo_env_def demo_kws_def)
  obtain s' frame where s: "kws_write_frame demo_env WSOC_TEXT ?d demo_kws = Some (int (length ?d), s')"
    "kout s' = kout demo_kws @ frame"
    "\<forall>R k. can_read R k \<and> feeds k frame \<and> int (length ?d) < payload_size_max k \<longrightarrow>
      (\<exists>k'. kws_read_frame R k = Some ((int (length ?d), WSOC_TEXT, AtBody), k') \<and> take (length ?d) (bbuffer k') = ?d \<and>
        feeds k' [] \<and> down k' = 0)"
    using kws_frame_trip [OF w, of WSOC_TEXT] by blast
  let ?k = "demo_kws\<lparr>kin := map (\<lambda>b. Segment [b]) frame\<rparr>"
  have "int (length ?d) < payload_size_max ?k" by (simp add: demo_kws_def)
  then obtain k' where k': "kws_read_frame demo_env ?k = Some ((int (length ?d), WSOC_TEXT, AtBody), k')"
      "take (length ?d) (bbuffer k') = ?d"
    using s(3) demo_can_read demo_feeds by blast
  have "kout demo_kws = []" by (simp add: demo_kws_def)
  with s(1,2) k' show ?thesis
    by - (rule exI [of _ s'], rule exI [of _ frame], rule exI [of _ k'], simp add: numeral_2_eq_2)
qed

lemma short_first_read:
  assumes "kin k = Segment B # es" "unprocessed_buffer_len k = 0" "kx k = 0" "B \<noteq> []" "10 \<le> length (kbuffer k)"
    and "kblock k = 0 \<or> 20 \<le> kblock k"
  shows "\<exists>kb es'. kws_string_read BUFFER 0 10 (kblock k) k = Some (int (min 9 (length B)), k\<lparr>kbuffer := kb, kin := es', kx := 0\<rparr>) \<and>
     take (min 9 (length B)) kb = take 9 B \<and> length kb = length (kbuffer k)"
proof -
  define s where "s = take 9 B @ (if length B < 9 then [0] else [])"
  define es' where "es' = (if length B \<le> 9 then es else Segment (drop 9 B) # es)"
  define k1 where "k1 = k\<lparr>kbuffer := blit 9 [0] (kbuffer k)\<rparr>"
  have st: "kws_store BUFFER (0 + 10 - 1) [0] k = Some k1"
    using assms(5) by (simp add: kws_store_def mem_cpy_def k1_def blit_def)
  have rl: "recv_loop 9 (kblock k) (k1\<lparr>kx := 1\<rparr>) = (int (min 9 (length B)), take 9 B, k1\<lparr>kx := 1, kin := es'\<rparr>)"
    using assms(1) by (subst recv_loop.simps) (simp add: k1_def es'_def min_def)
  have bl: "\<not> (kblock k \<noteq> 0 \<and> kblock k div 10 \<le> 1)" using assms(6) by auto
  have p: "0 < length B" using assms(4) by simp
  have rr: "kws_raw_read 9 (kblock k) k1 = Some (int (min 9 (length B)), s, k1\<lparr>kin := es', kx := 0\<rparr>)"
    using assms(2,3) rl bl p by (simp add: kws_raw_read_def io_len_small k1_def s_def min_def)
  have ls: "length s \<le> 9" by (simp add: s_def)
  have b9: "length (blit 9 [0] (kbuffer k)) = length (kbuffer k)" using assms(5) by simp
  have "kws_string_read BUFFER 0 10 (kblock k) k =
      Some (int (min 9 (length B)), k\<lparr>kbuffer := blit 0 s (blit 9 [0] (kbuffer k)), kin := es', kx := 0\<rparr>)"
    using st rr ls b9 assms(5) by (simp add: kws_string_read_def kws_store_def mem_cpy_def blit_def k1_def)
  moreover have "take (min 9 (length B)) (blit 0 s (blit 9 [0] (kbuffer k))) = take 9 B"
    by (simp add: blit_def s_def min_def)
  moreover have "length (blit 0 s (blit 9 [0] (kbuffer k))) = length (kbuffer k)"
    using ls b9 assms(5) by simp
  ultimately show ?thesis by blast
qed

text \<open>
  C40: A frame of fewer than nine bytes with more data behind it in the same segment closes the connection: the
  first read of \<open>kws_read_frame\<close> asks for nine bytes, finds more than the frame, and takes the negative
  number of missing bytes for a protocol error.\<close>

theorem kws_short_frame_closes:
  assumes "kws_open k" "down k = 0" "unprocessed_buffer_len k = 0" "kx k = 0"
    and "kin k = Segment (ws_frame True oc None d @ g) # es" "oc \<in> {WSOC_TEXT, WSOC_BINARY}" "length d < 7" "g \<noteq> []"
  shows "\<exists>k'. kws_read_frame E k = Some ((0, WSOC_CLOSE, NoData), k') \<and> down k' \<noteq> 0"
proof -
  define B where "B = ws_frame True oc None d @ g"
  define k0 where "k0 = k\<lparr>body := 0, packetlen := 0\<rparr>"
  define n where "n = min 9 (length B)"
  have o: "kws_open k0" "kin k0 = Segment B # es" "unprocessed_buffer_len k0 = 0" "kx k0 = 0" "kblock k0 = kblock k"
    "down k0 = 0" "handshake k0" "logical_established k0" "sanity k0 \<noteq> 0" "15 \<le> length (kbuffer k0)"
    using assms(1-5) by (simp_all add: k0_def B_def kws_open_def rest_ok_def)
  have F: "B ! 0 = oc OR 0x80" "B ! 1 = word_of_nat (length d)" "length B = 2 + length d + length g" "B \<noteq> []"
    using assms(7) by (simp_all add: B_def ws_frame_def len_field_def len_bytes_def)
  have nn: "length d + 2 < n" using F(3) assms(7,8) by (cases g) (auto simp: n_def)
  obtain kb es' where r: "kws_string_read BUFFER 0 10 (kblock k0) k0 = Some (int n, k0\<lparr>kbuffer := kb, kin := es', kx := 0\<rparr>)"
      "take n kb = take 9 B" "length kb = length (kbuffer k0)"
    using short_first_read [OF o(2-4) F(4)] o(1,10) by (force simp: n_def kws_open_def)
  define k1 where "k1 = k0\<lparr>kbuffer := kb, kin := es', kx := 0, datalen := int n\<rparr>"
  have rs: "read_start E k0 = Some (None, k1)" using r(1) nn by (simp add: read_start_def k1_def)
  have kb: "kb ! i = B ! i" if "i < n" for i
    using that r(2) by (metis n_def min_less_iff_conj nth_take)
  have c: "mem_rd (kbuffer k1) 0 = Some (oc OR 0x80)" "mem_rd (kbuffer k1) 1 = Some (word_of_nat (length d))"
  proof -
    have "1 < length kb" using o(10) r(3) by linarith
    then show "mem_rd (kbuffer k1) 0 = Some (oc OR 0x80)" "mem_rd (kbuffer k1) 1 = Some (word_of_nat (length d))"
      using kb [of 0] kb [of 1] nn F by (auto simp: mem_rd_def k1_def)
  qed
  have oc: "oc \<in> data_oc" using assms(6) by (auto simp: data_oc_def WSOC_TEXT_def WSOC_BINARY_def)
  have ob: "(oc OR 0x80) AND 0xf = oc" "bit (oc OR 0x80) 7"
    using data_oc_bits(1) [OF oc, of True] data_oc_bits(2) [OF oc, of True] by simp_all
  have lb: "uint ((word_of_nat (length d) :: byte) AND 0x7f) = int (length d)" "\<not> bit (word_of_nat (length d) :: byte) 7"
    using len_field_bits [of "length d"] assms(7) by simp_all
  define k2 where "k2 = k1\<lparr>plen := int (length d), payload := 2\<rparr>"
  have rl: "read_length 2 k1 = Some (True, 2, k2)"
    using c(2) lb(1) assms(7) by (simp add: read_length_def k2_def)
  have dl: "down k2 = 0" "datalen k2 = int n" "plen k2 = int (length d)" using o(6) by (simp_all add: k2_def k1_def)
  obtain k3 where k3: "kws_close E WS_NONE k2 = Some (0, k3)" "down k3 \<noteq> 0"
    using kws_close_total [of E WS_NONE k2] dl(1) by (metis WS_NONE_def minus_zero)
  have "read_payload E False False oc 2 k2 = Some (Inl (0, WSOC_CLOSE, NoData), k3)"
    using nn dl k3(1) by (simp add: read_payload_def close_pass_def)
  then have "read_data E False oc (oc OR 0x80) (word_of_nat (length d)) k1 = Some (Inl (0, WSOC_CLOSE, NoData), k3)"
    using rl ob(2) lb(2) assms(6) by (auto simp: read_data_def WSOC_TEXT_def WSOC_BINARY_def WSOC_CONTINUATION_def)
  then have "frame_pass E False WSOC_INVALID k0 = Some (Inl (0, WSOC_CLOSE, NoData), k3)"
    using o(6-9) rs c ob(1) oc data_oc_bits(3) [OF oc] by (simp add: frame_pass_def establish_logical_layer_def data_oc_def Let_def)
  then show ?thesis
    using k3(2) by (simp add: kws_read_frame_def k0_def [symmetric] read_loop.simps)
qed

theorem kws_short_frame_closes_witness:
  "\<exists>k'. kws_read_frame demo_env (demo_kws\<lparr>kin := [Segment (ws_frame True WSOC_TEXT None [104, 105] @
       ws_frame True WSOC_TEXT None [104, 111])]\<rparr>) = Some ((0, WSOC_CLOSE, NoData), k') \<and> down k' \<noteq> 0"
  by (rule kws_short_frame_closes [where oc = WSOC_TEXT and d = "[104, 105]" and es = "[]" and
        g = "ws_frame True WSOC_TEXT None [104, 111]"])
     (use demo_can_read in \<open>auto simp: can_read_def demo_kws_def ws_frame_def\<close>)

end
