(* ===== verification/Ks_Rwl.thy ===== *)
theory Ks_Rwl
  imports Ks_Types Ks_Steps "HOL-Library.Multiset"
begin

text \<open>
  \<open>ks_mutex.c\<close>, the read/write lock \<open>ks_rwl\<close> (POSIX build, without the recording of \<open>KS_DEBUG_MUTEX\<close>): a
  lock for writing that the owner may take again, made from a \<open>pthread_rwlock_t\<close>, which does not allow
  that, and two unprotected fields.

  Threads are their ids, 0 is no thread. The operations for writing are cut at the points where other
  threads may run: the test of \<open>write_locker\<close>, the call of pthreads, the store of \<open>write_locker\<close>.
\<close>

section \<open>The lock of pthreads\<close>

record pthread_rwlock =
  rw_writer :: "nat option"
  rw_readers :: "nat multiset"

definition rwlock_init :: pthread_rwlock where
  "rwlock_init = \<lparr>rw_writer = None, rw_readers = {#}\<rparr>"

text \<open>
  A call that returns gives its error code, and \<^const>\<open>None\<close> stands for a call that has to wait. A thread
  that holds the lock for writing and asks for it again gets EDEADLK.
\<close>

definition EDEADLK :: int where "EDEADLK = 35"
definition EBUSY :: int where "EBUSY = 16"

definition pthread_rwlock_rdlock :: "nat \<Rightarrow> pthread_rwlock \<Rightarrow> (int \<times> pthread_rwlock) option" where
  "pthread_rwlock_rdlock t l =
     (case rw_writer l of
        None \<Rightarrow> Some (0, l\<lparr>rw_readers := add_mset t (rw_readers l)\<rparr>)
      | Some u \<Rightarrow> if u = t then Some (EDEADLK, l) else None)"

definition pthread_rwlock_wrlock :: "nat \<Rightarrow> pthread_rwlock \<Rightarrow> (int \<times> pthread_rwlock) option" where
  "pthread_rwlock_wrlock t l =
     (if rw_writer l = Some t then Some (EDEADLK, l)
      else if rw_writer l = None \<and> rw_readers l = {#} then Some (0, l\<lparr>rw_writer := Some t\<rparr>) else None)"

definition pthread_rwlock_tryrdlock :: "nat \<Rightarrow> pthread_rwlock \<Rightarrow> int \<times> pthread_rwlock" where
  "pthread_rwlock_tryrdlock t l =
     (if rw_writer l = None then (0, l\<lparr>rw_readers := add_mset t (rw_readers l)\<rparr>) else (EBUSY, l))"

definition pthread_rwlock_trywrlock :: "nat \<Rightarrow> pthread_rwlock \<Rightarrow> int \<times> pthread_rwlock" where
  "pthread_rwlock_trywrlock t l =
     (if rw_writer l = None \<and> rw_readers l = {#} then (0, l\<lparr>rw_writer := Some t\<rparr>) else (EBUSY, l))"

text \<open>Unlocking releases the lock for writing when the lock is held so, whoever calls.\<close>

definition pthread_rwlock_unlock :: "nat \<Rightarrow> pthread_rwlock \<Rightarrow> pthread_rwlock" where
  "pthread_rwlock_unlock t l =
     (if rw_writer l \<noteq> None then l\<lparr>rw_writer := None\<rparr>
      else l\<lparr>rw_readers := rw_readers l - {#t#}\<rparr>)"

section \<open>The lock of the library\<close>

record ks_rwl =
  rwlock :: pthread_rwlock
  write_locker :: nat
  wlc :: u32

definition ks_rwl_create :: ks_rwl where
  "ks_rwl_create = \<lparr>rwlock = rwlock_init, write_locker = 0, wlc = 0\<rparr>"

definition ks_rwl_read_lock :: "nat \<Rightarrow> ks_rwl \<Rightarrow> (ks_status \<times> ks_rwl) option" where
  "ks_rwl_read_lock t w =
     map_option (\<lambda>(_, l). (KS_STATUS_SUCCESS, w\<lparr>rwlock := l\<rparr>)) (pthread_rwlock_rdlock t (rwlock w))"

definition ks_rwl_try_read_lock :: "nat \<Rightarrow> ks_rwl \<Rightarrow> ks_status \<times> ks_rwl" where
  "ks_rwl_try_read_lock t w =
     (let (r, l) = pthread_rwlock_tryrdlock t (rwlock w)
      in (if r \<noteq> 0 then KS_STATUS_FAIL else KS_STATUS_SUCCESS, w\<lparr>rwlock := l\<rparr>))"

definition ks_rwl_read_unlock :: "nat \<Rightarrow> ks_rwl \<Rightarrow> ks_status \<times> ks_rwl" where
  "ks_rwl_read_unlock t w = (KS_STATUS_SUCCESS, w\<lparr>rwlock := pthread_rwlock_unlock t (rwlock w)\<rparr>)"

text \<open>
  \<open>ks_rwl_write_lock\<close>: the test and the count of the owner (\<^const>\<open>None\<close> when the thread goes on to
  pthreads), the call, and the store.
\<close>

definition write_lock_again :: "nat \<Rightarrow> ks_rwl \<Rightarrow> (ks_status \<times> ks_rwl) option" where
  "write_lock_again t w =
     (if write_locker w = t then Some (KS_STATUS_SUCCESS, w\<lparr>wlc := wlc w + 1\<rparr>) else None)"

definition write_lock_wait :: "nat \<Rightarrow> ks_rwl \<Rightarrow> ks_rwl option" where
  "write_lock_wait t w = map_option (\<lambda>(_, l). w\<lparr>rwlock := l\<rparr>) (pthread_rwlock_wrlock t (rwlock w))"

definition write_lock_store :: "nat \<Rightarrow> ks_rwl \<Rightarrow> ks_status \<times> ks_rwl" where
  "write_lock_store t w = (KS_STATUS_SUCCESS, w\<lparr>write_locker := t\<rparr>)"

definition ks_rwl_write_lock :: "nat \<Rightarrow> ks_rwl \<Rightarrow> (ks_status \<times> ks_rwl) option" where
  "ks_rwl_write_lock t w =
     (case write_lock_again t w of Some r \<Rightarrow> Some r
      | None \<Rightarrow> map_option (write_lock_store t) (write_lock_wait t w))"

text \<open>\<open>ks_rwl_try_write_lock\<close>: \<^const>\<open>None\<close> when the lock was obtained and the store remains.\<close>

definition write_lock_try :: "nat \<Rightarrow> ks_rwl \<Rightarrow> ks_status option \<times> ks_rwl" where
  "write_lock_try t w =
     (let (r, l) = pthread_rwlock_trywrlock t (rwlock w)
      in (if r \<noteq> 0 then Some KS_STATUS_FAIL else None, w\<lparr>rwlock := l\<rparr>))"

definition ks_rwl_try_write_lock :: "nat \<Rightarrow> ks_rwl \<Rightarrow> ks_status \<times> ks_rwl" where
  "ks_rwl_try_write_lock t w =
     (case write_lock_again t w of Some r \<Rightarrow> r
      | None \<Rightarrow> (case write_lock_try t w of (Some r, w') \<Rightarrow> (r, w') | (None, w') \<Rightarrow> write_lock_store t w'))"

text \<open>\<open>ks_rwl_write_unlock\<close>: the count of the owner, or the reset of \<open>write_locker\<close> and the call.\<close>

definition write_unlock_again :: "nat \<Rightarrow> ks_rwl \<Rightarrow> (ks_status \<times> ks_rwl) option" where
  "write_unlock_again t w =
     (if write_locker w = t \<and> 0 < wlc w then Some (KS_STATUS_SUCCESS, w\<lparr>wlc := wlc w - 1\<rparr>) else None)"

definition write_unlock_clear :: "ks_rwl \<Rightarrow> ks_rwl" where
  "write_unlock_clear w = w\<lparr>write_locker := 0\<rparr>"

definition write_unlock_release :: "nat \<Rightarrow> ks_rwl \<Rightarrow> ks_status \<times> ks_rwl" where
  "write_unlock_release t w = (KS_STATUS_SUCCESS, w\<lparr>rwlock := pthread_rwlock_unlock t (rwlock w)\<rparr>)"

definition ks_rwl_write_unlock :: "nat \<Rightarrow> ks_rwl \<Rightarrow> ks_status \<times> ks_rwl" where
  "ks_rwl_write_unlock t w =
     (case write_unlock_again t w of Some r \<Rightarrow> r | None \<Rightarrow> write_unlock_release t (write_unlock_clear w))"

section \<open>Threads\<close>

text \<open>
  Where a thread is: outside of the operations, waiting for the lock (after the test), between the lock
  and the store, between the reset and the release. \<open>wheld\<close> and \<open>rheld\<close> record how often a thread holds
  the lock for writing and for reading.
\<close>

datatype rwl_pc = Out | Want | Store | Release

record rwl_sys =
  rw :: ks_rwl
  rpc :: "nat \<Rightarrow> rwl_pc"
  wheld :: "nat \<Rightarrow> nat"
  rheld :: "nat \<Rightarrow> nat"

definition rwl_sys_init :: rwl_sys where
  "rwl_sys_init = \<lparr>rw = ks_rwl_create, rpc = (\<lambda>_. Out), wheld = (\<lambda>_. 0), rheld = (\<lambda>_. 0)\<rparr>"

text \<open>
  The rules of use are guards: a thread has an id other than 0, does not mix the two kinds of lock,
  unlocks only what it holds, and takes the lock at most \<open>2^32\<close> times. Whether it waits, goes on or
  returns is what the operations say.
\<close>

inductive rwl_step :: "rwl_sys \<Rightarrow> rwl_sys \<Rightarrow> bool" where
  read_lock: "t \<noteq> 0 \<Longrightarrow> rpc s t = Out \<Longrightarrow> wheld s t = 0 \<Longrightarrow> ks_rwl_read_lock t (rw s) = Some (r, w') \<Longrightarrow>
     rwl_step s (s\<lparr>rw := w', rheld := (rheld s)(t := rheld s t + 1)\<rparr>)"
| try_read_lock: "t \<noteq> 0 \<Longrightarrow> rpc s t = Out \<Longrightarrow> wheld s t = 0 \<Longrightarrow> ks_rwl_try_read_lock t (rw s) = (r, w') \<Longrightarrow>
     rwl_step s (s\<lparr>rw := w', rheld := (rheld s)(t := rheld s t + (if r = KS_STATUS_SUCCESS then 1 else 0))\<rparr>)"
| read_unlock: "t \<noteq> 0 \<Longrightarrow> rpc s t = Out \<Longrightarrow> 0 < rheld s t \<Longrightarrow> ks_rwl_read_unlock t (rw s) = (r, w') \<Longrightarrow>
     rwl_step s (s\<lparr>rw := w', rheld := (rheld s)(t := rheld s t - 1)\<rparr>)"
| lock_again: "t \<noteq> 0 \<Longrightarrow> rpc s t = Out \<Longrightarrow> rheld s t = 0 \<Longrightarrow> wheld s t < 2 ^ 32 \<Longrightarrow>
     write_lock_again t (rw s) = Some (r, w') \<Longrightarrow>
     rwl_step s (s\<lparr>rw := w', wheld := (wheld s)(t := wheld s t + 1)\<rparr>)"
| lock_test: "t \<noteq> 0 \<Longrightarrow> rpc s t = Out \<Longrightarrow> rheld s t = 0 \<Longrightarrow> wheld s t < 2 ^ 32 \<Longrightarrow>
     write_lock_again t (rw s) = None \<Longrightarrow> rwl_step s (s\<lparr>rpc := (rpc s)(t := Want)\<rparr>)"
| lock_wait: "rpc s t = Want \<Longrightarrow> write_lock_wait t (rw s) = Some w' \<Longrightarrow>
     rwl_step s (s\<lparr>rw := w', rpc := (rpc s)(t := Store)\<rparr>)"
| lock_try: "rpc s t = Want \<Longrightarrow> write_lock_try t (rw s) = (r, w') \<Longrightarrow>
     rwl_step s (s\<lparr>rw := w', rpc := (rpc s)(t := if r = None then Store else Out)\<rparr>)"
| lock_store: "rpc s t = Store \<Longrightarrow> write_lock_store t (rw s) = (r, w') \<Longrightarrow>
     rwl_step s (s\<lparr>rw := w', rpc := (rpc s)(t := Out), wheld := (wheld s)(t := wheld s t + 1)\<rparr>)"
| unlock_again: "t \<noteq> 0 \<Longrightarrow> rpc s t = Out \<Longrightarrow> 0 < wheld s t \<Longrightarrow> write_unlock_again t (rw s) = Some (r, w') \<Longrightarrow>
     rwl_step s (s\<lparr>rw := w', wheld := (wheld s)(t := wheld s t - 1)\<rparr>)"
| unlock_clear: "t \<noteq> 0 \<Longrightarrow> rpc s t = Out \<Longrightarrow> 0 < wheld s t \<Longrightarrow> write_unlock_again t (rw s) = None \<Longrightarrow>
     rwl_step s (s\<lparr>rw := write_unlock_clear (rw s), rpc := (rpc s)(t := Release), wheld := (wheld s)(t := wheld s t - 1)\<rparr>)"
| unlock_release: "rpc s t = Release \<Longrightarrow> write_unlock_release t (rw s) = (r, w') \<Longrightarrow>
     rwl_step s (s\<lparr>rw := w', rpc := (rpc s)(t := Out)\<rparr>)"

section \<open>The invariant\<close>

text \<open>
  A thread owns the lock of pthreads for writing while it holds the library's lock and between the
  stores and the calls; then nobody reads.
\<close>

definition owns :: "(nat \<Rightarrow> nat) \<Rightarrow> (nat \<Rightarrow> rwl_pc) \<Rightarrow> nat \<Rightarrow> bool" where
  "owns wh pc t = (0 < wh t \<or> pc t \<in> {Store, Release})"

definition pt_ok :: "pthread_rwlock \<Rightarrow> (nat \<Rightarrow> bool) \<Rightarrow> (nat \<Rightarrow> nat) \<Rightarrow> bool" where
  "pt_ok l own rh = ((\<forall>t. own t = (rw_writer l = Some t)) \<and> (\<forall>t. count (rw_readers l) t = rh t) \<and>
     (rw_writer l \<noteq> None \<longrightarrow> rw_readers l = {#}))"

text \<open>\<open>write_locker\<close> and \<open>wlc\<close> say who holds the lock how often.\<close>

definition own_ok :: "nat \<Rightarrow> u32 \<Rightarrow> (nat \<Rightarrow> nat) \<Rightarrow> bool" where
  "own_ok wl c wh = ((\<forall>t. wh t = (if t \<noteq> 0 \<and> t = wl then unat c + 1 else 0)) \<and> (wl = 0 \<longrightarrow> c = 0))"

definition pc_ok :: "(nat \<Rightarrow> rwl_pc) \<Rightarrow> (nat \<Rightarrow> nat) \<Rightarrow> (nat \<Rightarrow> nat) \<Rightarrow> bool" where
  "pc_ok pc wh rh = (\<forall>t. pc t \<noteq> Out \<longrightarrow> wh t = 0 \<and> rh t = 0 \<and> t \<noteq> 0)"

definition rwl_inv :: "rwl_sys \<Rightarrow> bool" where
  "rwl_inv s = (pt_ok (rwlock (rw s)) (owns (wheld s) (rpc s)) (rheld s) \<and>
     own_ok (write_locker (rw s)) (wlc (rw s)) (wheld s) \<and> pc_ok (rpc s) (wheld s) (rheld s))"

lemma rwl_inv_init: "rwl_inv rwl_sys_init"
  by (simp add: rwl_inv_def rwl_sys_init_def owns_def pt_ok_def own_ok_def pc_ok_def ks_rwl_create_def rwlock_init_def) auto

lemmas pthread_ops = pthread_rwlock_rdlock_def pthread_rwlock_tryrdlock_def pthread_rwlock_unlock_def
  pthread_rwlock_wrlock_def pthread_rwlock_trywrlock_def

text \<open>The calls of pthreads, seen by who owns and who reads.\<close>

lemma pt_rdlock:
  "pt_ok l own rh \<Longrightarrow> \<not> own t \<Longrightarrow> pthread_rwlock_rdlock t l = Some (r, l') \<Longrightarrow> pt_ok l' own (rh(t := rh t + 1))"
  by (auto simp: pthread_ops pt_ok_def split: option.splits if_splits)

lemma pt_tryrdlock:
  "pt_ok l own rh \<Longrightarrow> pthread_rwlock_tryrdlock t l = (r, l') \<Longrightarrow> pt_ok l' own (rh(t := rh t + (if r = 0 then 1 else 0)))"
  by (auto simp: pthread_ops pt_ok_def EBUSY_def split: if_splits)

lemma pt_owner: "pt_ok l own rh \<Longrightarrow> own t \<Longrightarrow> rw_writer l = Some t"
  unfolding pt_ok_def by blast

lemma pt_reader_writer:
  assumes "pt_ok l own rh" "0 < rh t"
  shows "rw_writer l = None"
proof (rule ccontr)
  assume "rw_writer l \<noteq> None"
  then have "rw_readers l = {#}" using assms(1) unfolding pt_ok_def by blast
  moreover have "count (rw_readers l) t = rh t" using assms(1) unfolding pt_ok_def by blast
  ultimately show False using assms(2) by simp
qed

lemma pt_rdunlock:
  assumes "pt_ok l own rh" "0 < rh t"
  shows "pt_ok (pthread_rwlock_unlock t l) own (rh(t := rh t - 1))"
proof -
  have n: "rw_writer l = None" by (rule pt_reader_writer [OF assms])
  then have "pthread_rwlock_unlock t l = l\<lparr>rw_readers := rw_readers l - {#t#}\<rparr>" by (simp add: pthread_rwlock_unlock_def)
  with n assms(1) show ?thesis by (simp add: pt_ok_def)
qed

lemma pt_wrlock:
  assumes "pt_ok l own rh" "\<not> own t" "pthread_rwlock_wrlock t l = Some (r, l')" "\<And>u. own' u = (own u \<or> u = t)"
  shows "pt_ok l' own' rh"
proof -
  have "rw_writer l = None \<and> rw_readers l = {#} \<and> l' = l\<lparr>rw_writer := Some t\<rparr>"
    using assms(1-3) by (auto simp: pthread_ops pt_ok_def split: if_splits)
  then show ?thesis using assms(1,4) by (auto simp: pt_ok_def)
qed

lemma pt_trywrlock:
  assumes "pt_ok l own rh" "\<not> own t" "pthread_rwlock_trywrlock t l = (r, l')"
    "\<And>u. own' u = (own u \<or> u = t \<and> r = 0)"
  shows "pt_ok l' own' rh"
proof (cases "rw_writer l = None \<and> rw_readers l = {#}")
  case True
  then have "pthread_rwlock_wrlock t l = Some (r, l')" "r = 0" using assms(3) by (auto simp: pthread_ops)
  with pt_wrlock [OF assms(1,2)] assms(4) show ?thesis by blast
next
  case False
  then have "l' = l" "r \<noteq> 0" using assms(3) by (auto simp: pthread_ops EBUSY_def)
  with assms(1,4) show ?thesis by (simp add: pt_ok_def)
qed

lemma pt_wrunlock:
  assumes "pt_ok l own rh" "own t" "\<And>u. own' u = (own u \<and> u \<noteq> t)"
  shows "pt_ok (pthread_rwlock_unlock t l) own' rh"
proof -
  have "rw_writer l = Some t" using assms(1,2) by (auto simp: pt_ok_def)
  then show ?thesis using assms(1,3) by (auto simp: pthread_ops pt_ok_def)
qed


text \<open>The lock of the library, seen by who holds it how often.\<close>

lemma own_again:
  assumes "own_ok wl c wh" "wl = t" "t \<noteq> 0" "wh t < 2 ^ 32"
  shows "own_ok wl (c + 1) (wh(t := wh t + 1))"
proof -
  have "wh t = unat c + 1" using assms(1-3) by (simp add: own_ok_def)
  then have "unat c + 1 < 2 ^ 32" using assms(4) by linarith
  then have "unat (c + 1) = unat c + 1" by (simp add: unat_word_ariths)
  then show ?thesis using assms(1-3) by (auto simp: own_ok_def)
qed

lemma own_store:
  "own_ok wl c wh \<Longrightarrow> wl = 0 \<Longrightarrow> t \<noteq> 0 \<Longrightarrow> own_ok t c (wh(t := wh t + 1))"
  by (auto simp: own_ok_def)

lemma own_less:
  assumes "own_ok wl c wh" "wl = t" "t \<noteq> 0" "0 < c"
  shows "own_ok wl (c - 1) (wh(t := wh t - 1))"
proof -
  have "0 < unat c" using assms(4) by (simp add: unat_gt_0 word_gt_0)
  then have "unat (c - 1) = unat c - 1" using assms(4) by (simp add: unat_minus_one word_gt_0)
  then show ?thesis using assms \<open>0 < unat c\<close> by (auto simp: own_ok_def)
qed

lemma own_clear:
  "own_ok wl c wh \<Longrightarrow> 0 < wh t \<Longrightarrow> \<not> (wl = t \<and> 0 < c) \<Longrightarrow> own_ok 0 c (wh(t := wh t - 1)) \<and> wh t = 1"
  by (auto simp: own_ok_def word_gt_0 split: if_splits)

lemma own_holder: "own_ok wl c wh \<Longrightarrow> 0 < wh t \<Longrightarrow> wl = t \<and> t \<noteq> 0"
  by (auto simp: own_ok_def split: if_splits)

lemma read_lock_inv:
  assumes "t \<noteq> 0" "rpc s t = Out" "wheld s t = 0" "ks_rwl_read_lock t (rw s) = Some (r, w')" "rwl_inv s"
  shows "rwl_inv (s\<lparr>rw := w', rheld := (rheld s)(t := rheld s t + 1)\<rparr>)"
proof -
  obtain r' l' where l: "pthread_rwlock_rdlock t (rwlock (rw s)) = Some (r', l')" "w' = (rw s)\<lparr>rwlock := l'\<rparr>"
    using assms(4) by (auto simp: ks_rwl_read_lock_def)
  have "pt_ok l' (owns (wheld s) (rpc s)) ((rheld s)(t := rheld s t + 1))"
    by (rule pt_rdlock [OF _ _ l(1)]) (use assms in \<open>simp_all add: rwl_inv_def owns_def\<close>)
  with assms l(2) show ?thesis by (auto simp: rwl_inv_def pc_ok_def)
qed

lemma try_read_lock_inv:
  assumes "t \<noteq> 0" "rpc s t = Out" "wheld s t = 0" "ks_rwl_try_read_lock t (rw s) = (r, w')" "rwl_inv s"
  shows "rwl_inv (s\<lparr>rw := w', rheld := (rheld s)(t := rheld s t + (if r = KS_STATUS_SUCCESS then 1 else 0))\<rparr>)"
proof -
  obtain r' l' where l: "pthread_rwlock_tryrdlock t (rwlock (rw s)) = (r', l')" by fastforce
  then have r: "w' = (rw s)\<lparr>rwlock := l'\<rparr>" "(r = KS_STATUS_SUCCESS) = (r' = 0)"
    using assms(4) by (auto simp: ks_rwl_try_read_lock_def split: if_splits)
  have "pt_ok l' (owns (wheld s) (rpc s)) ((rheld s)(t := rheld s t + (if r' = 0 then 1 else 0)))"
    by (rule pt_tryrdlock [OF _ l]) (use assms in \<open>simp add: rwl_inv_def\<close>)
  with assms r show ?thesis by (auto simp: rwl_inv_def pc_ok_def)
qed

lemma read_unlock_inv:
  assumes "t \<noteq> 0" "rpc s t = Out" "0 < rheld s t" "ks_rwl_read_unlock t (rw s) = (r, w')" "rwl_inv s"
  shows "rwl_inv (s\<lparr>rw := w', rheld := (rheld s)(t := rheld s t - 1)\<rparr>)"
proof -
  have "pt_ok (pthread_rwlock_unlock t (rwlock (rw s))) (owns (wheld s) (rpc s)) ((rheld s)(t := rheld s t - 1))"
    by (rule pt_rdunlock) (use assms in \<open>simp_all add: rwl_inv_def\<close>)
  with assms show ?thesis by (auto simp: rwl_inv_def pc_ok_def ks_rwl_read_unlock_def)
qed

lemma lock_again_inv:
  assumes "t \<noteq> 0" "rpc s t = Out" "rheld s t = 0" "wheld s t < 2 ^ 32" "write_lock_again t (rw s) = Some (r, w')" "rwl_inv s"
  shows "rwl_inv (s\<lparr>rw := w', wheld := (wheld s)(t := wheld s t + 1)\<rparr>)"
proof -
  have w: "write_locker (rw s) = t" "w' = (rw s)\<lparr>wlc := wlc (rw s) + 1\<rparr>"
    using assms(5) by (auto simp: write_lock_again_def split: if_splits)
  have "own_ok (write_locker (rw s)) (wlc (rw s) + 1) ((wheld s)(t := wheld s t + 1))"
    by (rule own_again) (use assms w in \<open>simp_all add: rwl_inv_def\<close>)
  moreover have "owns ((wheld s)(t := wheld s t + 1)) (rpc s) = owns (wheld s) (rpc s)"
  proof
    fix u
    have "0 < wheld s t" using assms w by (simp add: rwl_inv_def own_ok_def)
    then show "owns ((wheld s)(t := wheld s t + 1)) (rpc s) u = owns (wheld s) (rpc s) u" by (simp add: owns_def)
  qed
  ultimately show ?thesis using assms w by (simp add: rwl_inv_def pc_ok_def)
qed

lemma lock_test_inv:
  assumes "t \<noteq> 0" "rpc s t = Out" "rheld s t = 0" "wheld s t < 2 ^ 32" "write_lock_again t (rw s) = None" "rwl_inv s"
  shows "rwl_inv (s\<lparr>rpc := (rpc s)(t := Want)\<rparr>)"
proof -
  have "owns (wheld s) ((rpc s)(t := Want)) = owns (wheld s) (rpc s)"
    using assms by (auto simp: owns_def fun_eq_iff)
  moreover have "wheld s t = 0"
    using assms own_holder [of "write_locker (rw s)" "wlc (rw s)" "wheld s" t]
    by (auto simp: rwl_inv_def write_lock_again_def split: if_splits)
  ultimately show ?thesis using assms by (auto simp: rwl_inv_def pc_ok_def)
qed

lemma lock_wait_inv:
  assumes "rpc s t = Want" "write_lock_wait t (rw s) = Some w'" "rwl_inv s"
  shows "rwl_inv (s\<lparr>rw := w', rpc := (rpc s)(t := Store)\<rparr>)"
proof -
  obtain r' l' where l: "pthread_rwlock_wrlock t (rwlock (rw s)) = Some (r', l')" "w' = (rw s)\<lparr>rwlock := l'\<rparr>"
    using assms(2) by (auto simp: write_lock_wait_def)
  have "wheld s t = 0" using assms by (simp add: rwl_inv_def pc_ok_def)
  then have "pt_ok l' (owns (wheld s) ((rpc s)(t := Store))) (rheld s)"
    by (intro pt_wrlock [OF _ _ l(1)]) (use assms in \<open>auto simp: rwl_inv_def owns_def\<close>)
  with assms l(2) show ?thesis by (auto simp: rwl_inv_def pc_ok_def)
qed

lemma lock_try_inv:
  assumes "rpc s t = Want" "write_lock_try t (rw s) = (r, w')" "rwl_inv s"
  shows "rwl_inv (s\<lparr>rw := w', rpc := (rpc s)(t := if r = None then Store else Out)\<rparr>)"
proof -
  obtain r' l' where l: "pthread_rwlock_trywrlock t (rwlock (rw s)) = (r', l')" by fastforce
  then have r: "w' = (rw s)\<lparr>rwlock := l'\<rparr>" "(r = None) = (r' = 0)"
    using assms(2) by (auto simp: write_lock_try_def split: if_splits)
  have "wheld s t = 0" using assms by (simp add: rwl_inv_def pc_ok_def)
  then have "pt_ok l' (owns (wheld s) ((rpc s)(t := if r = None then Store else Out))) (rheld s)"
    by (intro pt_trywrlock [OF _ _ l]) (use assms r(2) in \<open>auto simp: rwl_inv_def owns_def\<close>)
  with assms r(1) show ?thesis by (auto simp: rwl_inv_def pc_ok_def)
qed

lemma lock_store_inv:
  assumes "rpc s t = Store" "write_lock_store t (rw s) = (r, w')" "rwl_inv s"
  shows "rwl_inv (s\<lparr>rw := w', rpc := (rpc s)(t := Out), wheld := (wheld s)(t := wheld s t + 1)\<rparr>)"
proof -
  have p: "wheld s t = 0" "rheld s t = 0" "t \<noteq> 0" using assms by (simp_all add: rwl_inv_def pc_ok_def)
  have o: "owns ((wheld s)(t := wheld s t + 1)) ((rpc s)(t := Out)) = owns (wheld s) (rpc s)"
    using assms(1) by (auto simp: owns_def fun_eq_iff)
  have "write_locker (rw s) = 0"
  proof (rule ccontr)
    assume n: "write_locker (rw s) \<noteq> 0"
    then have "0 < wheld s (write_locker (rw s))" using assms(3) by (simp add: rwl_inv_def own_ok_def)
    then have "rw_writer (rwlock (rw s)) = Some (write_locker (rw s))" "rw_writer (rwlock (rw s)) = Some t"
      using assms(1,3) by (auto simp: rwl_inv_def pt_ok_def owns_def)
    with p(1) \<open>0 < wheld s (write_locker (rw s))\<close> show False by simp
  qed
  then have "own_ok t (wlc (rw s)) ((wheld s)(t := wheld s t + 1))"
    using assms(3) p(3) own_store by (simp add: rwl_inv_def)
  with assms o p show ?thesis by (auto simp: rwl_inv_def pc_ok_def write_lock_store_def)
qed

lemma unlock_again_inv:
  assumes "t \<noteq> 0" "rpc s t = Out" "0 < wheld s t" "write_unlock_again t (rw s) = Some (r, w')" "rwl_inv s"
  shows "rwl_inv (s\<lparr>rw := w', wheld := (wheld s)(t := wheld s t - 1)\<rparr>)"
proof -
  have w: "write_locker (rw s) = t" "0 < wlc (rw s)" "w' = (rw s)\<lparr>wlc := wlc (rw s) - 1\<rparr>"
    using assms(4) by (auto simp: write_unlock_again_def split: if_splits)
  have o: "own_ok (write_locker (rw s)) (wlc (rw s) - 1) ((wheld s)(t := wheld s t - 1))"
    by (rule own_less) (use assms w in \<open>simp_all add: rwl_inv_def\<close>)
  have "wheld s t = unat (wlc (rw s)) + 1" using assms w(1) by (simp add: rwl_inv_def own_ok_def)
  moreover have "0 < unat (wlc (rw s))" using w(2) by (simp add: unat_gt_0 word_gt_0)
  ultimately have "owns ((wheld s)(t := wheld s t - 1)) (rpc s) = owns (wheld s) (rpc s)"
    by (auto simp: owns_def fun_eq_iff)
  with o assms w show ?thesis by (auto simp: rwl_inv_def pc_ok_def)
qed

lemma unlock_clear_inv:
  assumes "t \<noteq> 0" "rpc s t = Out" "0 < wheld s t" "write_unlock_again t (rw s) = None" "rwl_inv s"
  shows "rwl_inv (s\<lparr>rw := write_unlock_clear (rw s), rpc := (rpc s)(t := Release), wheld := (wheld s)(t := wheld s t - 1)\<rparr>)"
proof -
  have n: "\<not> (write_locker (rw s) = t \<and> 0 < wlc (rw s))"
    using assms(4) by (auto simp: write_unlock_again_def split: if_splits)
  have "own_ok 0 (wlc (rw s)) ((wheld s)(t := wheld s t - 1)) \<and> wheld s t = 1"
    by (rule own_clear [OF _ _ n]) (use assms in \<open>simp_all add: rwl_inv_def\<close>)
  moreover from this have "owns ((wheld s)(t := wheld s t - 1)) ((rpc s)(t := Release)) = owns (wheld s) (rpc s)"
    by (auto simp: owns_def fun_eq_iff)
  moreover have "rheld s t = 0"
  proof (rule ccontr)
    assume "rheld s t \<noteq> 0"
    then have "rw_writer (rwlock (rw s)) = None"
      using pt_reader_writer [of "rwlock (rw s)" _ "rheld s" t] assms(5) by (auto simp: rwl_inv_def)
    moreover have "rw_writer (rwlock (rw s)) = Some t"
      by (rule pt_owner [of _ "owns (wheld s) (rpc s)" "rheld s"]) (use assms(3,5) in \<open>simp_all add: rwl_inv_def owns_def\<close>)
    ultimately show False by simp
  qed
  ultimately show ?thesis using assms by (auto simp: rwl_inv_def pc_ok_def write_unlock_clear_def)
qed

lemma unlock_release_inv:
  assumes "rpc s t = Release" "write_unlock_release t (rw s) = (r, w')" "rwl_inv s"
  shows "rwl_inv (s\<lparr>rw := w', rpc := (rpc s)(t := Out)\<rparr>)"
proof -
  have "wheld s t = 0" using assms by (simp add: rwl_inv_def pc_ok_def)
  then have "pt_ok (pthread_rwlock_unlock t (rwlock (rw s))) (owns (wheld s) ((rpc s)(t := Out))) (rheld s)"
    by (intro pt_wrunlock [where own = "owns (wheld s) (rpc s)"]) (use assms in \<open>auto simp: rwl_inv_def owns_def\<close>)
  with assms show ?thesis by (auto simp: rwl_inv_def pc_ok_def write_unlock_release_def)
qed

lemma rwl_step_inv: "rwl_step s s' \<Longrightarrow> rwl_inv s \<Longrightarrow> rwl_inv s'"
  by (induction rule: rwl_step.induct)
    ((rule read_lock_inv try_read_lock_inv read_unlock_inv lock_again_inv lock_test_inv lock_wait_inv lock_try_inv lock_store_inv unlock_again_inv unlock_clear_inv unlock_release_inv; assumption))+

interpretation rwl: step_system rwl_sys_init rwl_step rwl_inv
  by unfold_locales (auto intro: rwl_inv_init rwl_step_inv)

lemma rwl_inv_exclusive:
  assumes "rwl_inv s" "owns (wheld s) (rpc s) t"
  shows "rheld s u = 0" "u \<noteq> t \<Longrightarrow> \<not> owns (wheld s) (rpc s) u"
proof -
  have p: "pt_ok (rwlock (rw s)) (owns (wheld s) (rpc s)) (rheld s)" using assms(1) by (simp add: rwl_inv_def)
  have w: "rw_writer (rwlock (rw s)) = Some t" by (rule pt_owner [OF p assms(2)])
  show "rheld s u = 0" using pt_reader_writer [OF p, of u] w by force
  show "u \<noteq> t \<Longrightarrow> \<not> owns (wheld s) (rpc s) u" using pt_owner [OF p, of u] w by auto
qed

section \<open>Properties\<close>

text \<open>
  C13: Mutual exclusion for any number of threads and any interleaving of the parts of the operations: while a
  thread holds the lock for writing, however often it took it, no other thread holds it in any way,
  \<open>write_locker\<close> names the thread, and \<open>wlc\<close> is the number of locks beyond the first, so that as many
  unlocks as locks give it free.\<close>

theorem ks_rwl_exclusive:
  assumes "rwl_step\<^sup>*\<^sup>* rwl_sys_init s" and "0 < wheld s t"
  shows "(\<forall>u. rheld s u = 0) \<and> (\<forall>u. u \<noteq> t \<longrightarrow> wheld s u = 0) \<and> write_locker (rw s) = t \<and>
     wheld s t = unat (wlc (rw s)) + 1"
proof -
  have i: "rwl_inv s" by (rule rwl.run_inv [OF assms(1)])
  have o: "owns (wheld s) (rpc s) t" using assms(2) by (simp add: owns_def)
  have k: "own_ok (write_locker (rw s)) (wlc (rw s)) (wheld s)" using i by (simp add: rwl_inv_def)
  show ?thesis
    using rwl_inv_exclusive [OF i o] own_holder [OF k assms(2)] k
    by (auto simp: owns_def own_ok_def)
qed

text \<open>Two locks by thread 1 while thread 2 waits.\<close>

definition demo_rwl :: rwl_sys where
  "demo_rwl = \<lparr>rw = \<lparr>rwlock = \<lparr>rw_writer = Some 1, rw_readers = {#}\<rparr>, write_locker = 1, wlc = 1\<rparr>,
     rpc = (\<lambda>_. Out)(2 := Want), wheld = (\<lambda>_. 0)(1 := Suc 1), rheld = (\<lambda>_. 0)\<rparr>"

lemmas write_ops = write_lock_again_def write_lock_wait_def write_lock_try_def write_lock_store_def
  write_unlock_again_def write_unlock_clear_def write_unlock_release_def pthread_ops

lemma demo_rwl_reached: "rwl_step\<^sup>*\<^sup>* rwl_sys_init demo_rwl"
proof -
  let ?w0 = "ks_rwl_create"
  let ?w1 = "?w0\<lparr>rwlock := \<lparr>rw_writer = Some 1, rw_readers = {#}\<rparr>\<rparr>"
  let ?w2 = "?w1\<lparr>write_locker := 1\<rparr>"
  let ?w3 = "?w2\<lparr>wlc := 1\<rparr>"
  let ?s1 = "rwl_sys_init\<lparr>rpc := (\<lambda>_. Out)(1 := Want)\<rparr>"
  let ?s2 = "rwl_sys_init\<lparr>rw := ?w1, rpc := (\<lambda>_. Out)(1 := Store)\<rparr>"
  let ?s3 = "rwl_sys_init\<lparr>rw := ?w2, wheld := (\<lambda>_. 0)(1 := 1)\<rparr>"
  let ?s4 = "rwl_sys_init\<lparr>rw := ?w3, wheld := (\<lambda>_. 0)(1 := Suc 1)\<rparr>"
  have "rwl_step rwl_sys_init ?s1"
    using lock_test [of 1 rwl_sys_init] by (simp add: rwl_sys_init_def write_ops ks_rwl_create_def)
  moreover have "rwl_step ?s1 ?s2"
    using lock_wait [of ?s1 1 ?w1] by (simp add: rwl_sys_init_def write_ops ks_rwl_create_def rwlock_init_def)
  moreover have "rwl_step ?s2 ?s3"
    using lock_store [of ?s2 1 KS_STATUS_SUCCESS ?w2] by (simp add: rwl_sys_init_def write_ops fun_upd_idem)
  moreover have "rwl_step ?s3 ?s4"
    using lock_again [of 1 ?s3 KS_STATUS_SUCCESS ?w3] by (simp add: rwl_sys_init_def write_ops ks_rwl_create_def)
  moreover have "rwl_step ?s4 demo_rwl"
    using lock_test [of 2 ?s4] by (simp add: rwl_sys_init_def write_ops demo_rwl_def ks_rwl_create_def)
  ultimately show ?thesis by (meson converse_rtranclp_into_rtranclp rtranclp.rtrancl_refl)
qed

theorem ks_rwl_exclusive_witness:
  "(\<forall>u. rheld demo_rwl u = 0) \<and> (\<forall>u. u = 1 \<or> wheld demo_rwl u = 0) \<and> write_locker (rw demo_rwl) = 1 \<and>
     wheld demo_rwl 1 = unat (wlc (rw demo_rwl)) + 1"
proof -
  have "0 < wheld demo_rwl 1" by (simp add: demo_rwl_def)
  from ks_rwl_exclusive [OF demo_rwl_reached this] show ?thesis by metis
qed

text \<open>
  No needless waiting: a thread that wants to write is kept waiting by pthreads exactly as long as some
  other thread holds the lock or is in the middle of taking or giving it.\<close>

lemma ks_rwl_waits_for_holder:
  assumes "rwl_step\<^sup>*\<^sup>* rwl_sys_init s" and "rpc s t = Want"
  shows "(write_lock_wait t (rw s) = None) = (\<exists>u. u \<noteq> t \<and> (0 < wheld s u \<or> 0 < rheld s u \<or> rpc s u \<in> {Store, Release}))"
proof -
  have i: "rwl_inv s" by (rule rwl.run_inv [OF assms(1)])
  then have p: "pt_ok (rwlock (rw s)) (owns (wheld s) (rpc s)) (rheld s)" and c: "wheld s t = 0" "rheld s t = 0"
    using assms(2) by (simp_all add: rwl_inv_def pc_ok_def)
  have own: "rw_writer (rwlock (rw s)) = Some u \<longleftrightarrow> owns (wheld s) (rpc s) u" for u
    using p unfolding pt_ok_def by blast
  have cnt: "count (rw_readers (rwlock (rw s))) u = rheld s u" for u using p unfolding pt_ok_def by blast
  have rd: "rw_readers (rwlock (rw s)) = {#} \<longleftrightarrow> (\<forall>u. rheld s u = 0)"
    unfolding cnt [symmetric] by (metis count_empty multi_count_eq)
  have nt: "rw_writer (rwlock (rw s)) \<noteq> Some t" using own c assms(2) by (simp add: owns_def)
  have "write_lock_wait t (rw s) = None \<longleftrightarrow> \<not> (rw_writer (rwlock (rw s)) = None \<and> (\<forall>u. rheld s u = 0))"
    using nt rd by (simp add: write_lock_wait_def pthread_rwlock_wrlock_def)
  also have "\<dots> \<longleftrightarrow> (\<exists>u. owns (wheld s) (rpc s) u \<or> 0 < rheld s u)"
    using own by (cases "rw_writer (rwlock (rw s))") auto
  also have "\<dots> \<longleftrightarrow> (\<exists>u. u \<noteq> t \<and> (0 < wheld s u \<or> 0 < rheld s u \<or> rpc s u \<in> {Store, Release}))"
    using c assms(2) unfolding owns_def by (metis insertE less_irrefl rwl_pc.distinct(7,9) singletonD)
  finally show ?thesis .
qed

text \<open>
  Mixing the two kinds of lock: the result of \<open>pthread_rwlock_rdlock\<close> is ignored, so the owner is told that
  it has a lock for reading, and the matching unlock gives away the lock for writing, while
  \<open>write_locker\<close> still lets the owner in; another thread can then hold the lock as well.
\<close>

lemma ks_rwl_read_in_write:
  assumes "rw_writer (rwlock w) = Some t" "rw_readers (rwlock w) = {#}" "write_locker w = t" "u \<noteq> t"
  shows "\<exists>w1 w2 w3. ks_rwl_read_lock t w = Some (KS_STATUS_SUCCESS, w1) \<and>
    ks_rwl_read_unlock t w1 = (KS_STATUS_SUCCESS, w2) \<and> ks_rwl_write_lock u w2 = Some (KS_STATUS_SUCCESS, w3) \<and>
    ks_rwl_read_lock t w1 \<noteq> None \<and> rw_writer (rwlock w2) = None \<and> write_locker w2 = t"
  using assms by (simp add: ks_rwl_read_lock_def ks_rwl_read_unlock_def ks_rwl_write_lock_def write_ops)

end
