(* ===== verification/Ks_Thread_Pool.thy ===== *)
theory Ks_Thread_Pool
  imports Ks_Types Ks_Steps "HOL-Library.Multiset"
begin

text \<open>
  \<open>ks_thread_pool.c\<close>. The functions of the file are cut into the sections that hold \<open>tp->mutex\<close> and the
  points between them, and a run of the pool is a sequence of such parts, each done by one thread.

  The queue of jobs is the list of its contents (theory \<open>Ks_Q_Conc\<close> shows that a shared \<open>ks_q\<close> is one),
  the two hash tables of threads are lists of keys. Time is the choice of when a pop times out;
  \<open>idle_sec\<close>, which counts such pops, is a number without a bound.
\<close>

section \<open>State\<close>

record ks_thread_pool =
  tp_min :: u32
  tp_max :: u32
  tp_idle_sec :: u32
  thread_count :: u32
  busy_thread_count :: u32
  running_thread_count :: u32
  dying_thread_count :: u32
  tp_running :: bool

definition TP_MAX_QLEN :: nat where "TP_MAX_QLEN = 1024"

text \<open>What \<open>ks_q_pop_timeout\<close> returned.\<close>

datatype 'j pop_result = Job 'j | Timeout | Break | Failure

text \<open>
  Where a thread is. Threads outside of the pool: \<open>Ext\<close>, and \<open>Added\<close> before \<open>check_queue\<close> with its
  argument. Workers: created (\<open>New\<close>), at the head of the loop with \<open>idle_sec\<close> (\<open>Top\<close>), in the pop
  (\<open>Popping\<close>), after it (\<open>Popped\<close>), after \<open>check_queue\<close> (\<open>After\<close>), in a job, at the end with \<open>die\<close>
  (\<open>Leaving\<close>), returned (\<open>Gone\<close>). In \<open>check_queue\<close>: \<open>Cleaning\<close>, \<open>Creating\<close> and, between the creation of
  a thread and \<open>ks_hash_insert\<close>, \<open>Inserting\<close> with the new thread; each with where the caller goes on.
\<close>

datatype 'j caller = From_Ext bool | From_Worker nat "'j pop_result"

datatype 'j tp_pc =
  Nobody | Ext | Added bool
| New | Top nat | Popping nat | Popped nat "'j pop_result" | After nat "'j pop_result" | Running 'j | Leaving bool | Gone
| Cleaning "'j caller" | Creating int "'j caller" | Inserting nat int "'j caller"

record 'j tp_sys =
  tp :: ks_thread_pool
  tq :: "'j list"
  tpc :: "nat \<Rightarrow> 'j tp_pc"
  thread_hash :: "nat list"
  thread_die_hash :: "nat list"
  mutex_by :: "nat option"
  state_by :: "nat option"
  hash_locked :: bool
  destroyed :: bool
  tadded :: "'j list"
  tdone :: "'j list"

section \<open>The parts of the functions\<close>

text \<open>
  \<open>check_queue\<close>, how many threads it starts: \<open>need\<close> is an \<open>int\<close>, the sum with the length of the queue is
  a \<open>size_t\<close>.
\<close>

definition queue_need :: "bool \<Rightarrow> nat \<Rightarrow> ks_thread_pool \<Rightarrow> int" where
  "queue_need adding backlog p =
     (let need = (if thread_count p < tp_min p then sint (tp_min p - thread_count p) else 0) in
      if adding \<and> need = 0 \<and>
         unat (running_thread_count p - dying_thread_count p) \<le> unat (busy_thread_count p) + backlog \<and>
         thread_count p - dying_thread_count p + 1 \<le> tp_max p
      then 1 else need)"

definition add_threads :: "int \<Rightarrow> ks_thread_pool \<Rightarrow> ks_thread_pool" where
  "add_threads n p = p\<lparr>thread_count := thread_count p + word_of_int n\<rparr>"

text \<open>\<open>worker_thread\<close>: start, the decision to end when idle, the count around a job, the end.\<close>

definition worker_start :: "ks_thread_pool \<Rightarrow> ks_thread_pool" where
  "worker_start p = p\<lparr>running_thread_count := running_thread_count p + 1\<rparr>"

definition idle_expired :: "nat \<Rightarrow> ks_thread_pool \<Rightarrow> bool" where
  "idle_expired idle p = (unat (tp_idle_sec p) \<le> idle div 10)"

definition may_die :: "ks_thread_pool \<Rightarrow> bool" where
  "may_die p = (0 < running_thread_count p - dying_thread_count p - busy_thread_count p \<and>
     tp_min p < running_thread_count p)"

definition worker_dies :: "ks_thread_pool \<Rightarrow> ks_thread_pool" where
  "worker_dies p = p\<lparr>dying_thread_count := dying_thread_count p + 1\<rparr>"

definition worker_busy :: "ks_thread_pool \<Rightarrow> ks_thread_pool" where
  "worker_busy p = p\<lparr>busy_thread_count := busy_thread_count p + 1\<rparr>"

definition worker_free :: "ks_thread_pool \<Rightarrow> ks_thread_pool" where
  "worker_free p = p\<lparr>busy_thread_count := busy_thread_count p - 1\<rparr>"

definition worker_exit :: "bool \<Rightarrow> ks_thread_pool \<Rightarrow> ks_thread_pool" where
  "worker_exit die p = p\<lparr>running_thread_count := running_thread_count p - 1, thread_count := thread_count p - 1,
     dying_thread_count := (if die then dying_thread_count p - 1 else dying_thread_count p)\<rparr>"

text \<open>Where a caller of \<open>check_queue\<close> goes on, and what it passed for \<open>adding\<close>.\<close>

fun resume :: "'j caller \<Rightarrow> 'j tp_pc" where
  "resume (From_Ext adding) = Ext"
| "resume (From_Worker idle r) = After idle r"

fun adding_of :: "'j caller \<Rightarrow> bool" where
  "adding_of (From_Ext adding) = adding"
| "adding_of (From_Worker idle r) = False"

text \<open>A thread about to call \<open>check_queue\<close>.\<close>

fun calls_check :: "'j tp_pc \<Rightarrow> 'j caller option" where
  "calls_check (Added adding) = Some (From_Ext adding)"
| "calls_check (Popped idle r) = (if r = Break then None else Some (From_Worker idle r))"
| "calls_check pc = None"

section \<open>Steps\<close>

datatype 'j tp_act =
  Add nat 'j | Enter nat | Clean nat | Create nat nat | Insert nat | Create_fails nat | Created nat
| Start nat | Test nat | Pop nat | Pop_other nat "'j pop_result" | Broken nat | Idle nat | Take nat | Finish nat
| Exit nat | Down | Lock_hash | Join_all

definition goto :: "nat \<Rightarrow> 'j tp_pc \<Rightarrow> 'j tp_sys \<Rightarrow> 'j tp_sys" where
  "goto t pc s = s\<lparr>tpc := (tpc s)(t := pc)\<rparr>"

abbreviation guarded :: "bool \<Rightarrow> 's \<Rightarrow> 's option" where
  "guarded g s \<equiv> (if g then Some s else None)"

text \<open>The thread that does an action.\<close>

fun act_thread :: "'j tp_act \<Rightarrow> nat" where
  "act_thread (Add t j) = t" | "act_thread (Enter t) = t" | "act_thread (Clean t) = t"
| "act_thread (Create t v) = max t v" | "act_thread (Insert t) = t" | "act_thread (Create_fails t) = t" | "act_thread (Created t) = t"
| "act_thread (Start t) = t" | "act_thread (Test t) = t" | "act_thread (Pop t) = t"
| "act_thread (Pop_other t r) = t" | "act_thread (Broken t) = t" | "act_thread (Idle t) = t"
| "act_thread (Take t) = t" | "act_thread (Finish t) = t" | "act_thread (Exit t) = t"
| "act_thread _ = 0"

text \<open>
  One action, \<^const>\<open>None\<close> when it cannot happen in this state. \<open>mutex_by\<close> is the thread inside \<open>cleanup_threads\<close>,
  the only section that can wait while it holds \<open>tp->mutex\<close>: for the lock of \<open>thread_hash\<close>, which
  \<open>ks_thread_pool_destroy\<close> holds while it joins. \<open>state_by\<close> is the thread that holds \<open>tp->state_mutex\<close>
  between the creation of a worker and its insertion into \<open>thread_hash\<close>.
\<close>

text \<open>\<open>ks_thread_pool_add_job\<close>: the push, which waits while the queue is full.\<close>

definition add_job :: "nat \<Rightarrow> 'j \<Rightarrow> 'j tp_sys \<Rightarrow> 'j tp_sys option" where
  "add_job t j s =
     guarded (tpc s t = Ext \<and> length (tq s) < TP_MAX_QLEN)
       (goto t (Added True) (s\<lparr>tq := tq s @ [j], tadded := tadded s @ [j]\<rparr>))"

text \<open>\<open>check_queue\<close>: the lock and the test of the state; the section with \<open>cleanup_threads\<close>; one turn of the
  loop that creates threads, in two parts because the new thread runs before it is in the table, or a failed
  one; the end of the loop.\<close>

definition check_queue_enter :: "nat \<Rightarrow> 'j tp_sys \<Rightarrow> 'j tp_sys option" where
  "check_queue_enter t s =
     (case calls_check (tpc s t) of None \<Rightarrow> None
      | Some c \<Rightarrow> guarded (mutex_by s = None)
          (if tp_running (tp s) then goto t (Cleaning c) (s\<lparr>mutex_by := Some t\<rparr>) else goto t (resume c) s))"

definition check_queue_clean :: "nat \<Rightarrow> 'j tp_sys \<Rightarrow> 'j tp_sys option" where
  "check_queue_clean t s =
     (case tpc s t of
        Cleaning c \<Rightarrow> guarded (mutex_by s = Some t \<and> (thread_die_hash s = [] \<or> \<not> hash_locked s))
          (let need = queue_need (adding_of c) (length (tq s)) (tp s) in
           goto t (Creating need c)
             (s\<lparr>tp := add_threads need (tp s), mutex_by := None,
                thread_hash := filter (\<lambda>w. w \<notin> set (thread_die_hash s)) (thread_hash s), thread_die_hash := []\<rparr>))
      | _ \<Rightarrow> None)"

definition check_queue_create :: "nat \<Rightarrow> nat \<Rightarrow> 'j tp_sys \<Rightarrow> 'j tp_sys option" where
  "check_queue_create t v s =
     (case tpc s t of
        Creating need c \<Rightarrow> guarded (0 < need \<and> tp_running (tp s) \<and> state_by s = None \<and> tpc s v = Nobody)
          (goto v New (goto t (Inserting v (need - 1) c) (s\<lparr>state_by := Some t\<rparr>)))
      | _ \<Rightarrow> None)"

definition check_queue_insert :: "nat \<Rightarrow> 'j tp_sys \<Rightarrow> 'j tp_sys option" where
  "check_queue_insert t s =
     (case tpc s t of
        Inserting v need c \<Rightarrow> guarded (\<not> hash_locked s)
          (goto t (Creating need c) (s\<lparr>thread_hash := v # thread_hash s, state_by := None\<rparr>))
      | _ \<Rightarrow> None)"

definition check_queue_create_fails :: "nat \<Rightarrow> 'j tp_sys \<Rightarrow> 'j tp_sys option" where
  "check_queue_create_fails t s =
     (case tpc s t of
        Creating need c \<Rightarrow> guarded (0 < need \<and> tp_running (tp s) \<and> state_by s = None \<and> mutex_by s = None)
          (goto t (Creating (need - 1) c) (s\<lparr>tp := add_threads (-1) (tp s)\<rparr>))
      | _ \<Rightarrow> None)"

definition check_queue_leave :: "nat \<Rightarrow> 'j tp_sys \<Rightarrow> 'j tp_sys option" where
  "check_queue_leave t s =
     (case tpc s t of
        Creating need c \<Rightarrow>
          (if need \<le> 0 then Some (goto t (resume c) s)
           else guarded (\<not> tp_running (tp s) \<and> state_by s = None \<and> mutex_by s = None)
             (goto t (resume c) (s\<lparr>tp := add_threads (- need) (tp s)\<rparr>)))
      | _ \<Rightarrow> None)"

text \<open>\<open>worker_thread\<close>: its start, the test of the state at the head of the loop, what the pop returned (the state
  may have changed since the test, and a timeout counts even if a job has come meanwhile), the reaction to
  it, the job, the end.\<close>

definition worker_begin :: "nat \<Rightarrow> 'j tp_sys \<Rightarrow> 'j tp_sys option" where
  "worker_begin w s =
     guarded (tpc s w = New \<and> mutex_by s = None) (goto w (Top 0) (s\<lparr>tp := worker_start (tp s)\<rparr>))"

definition worker_test :: "nat \<Rightarrow> 'j tp_sys \<Rightarrow> 'j tp_sys option" where
  "worker_test w s =
     (case tpc s w of
        Top idle \<Rightarrow> Some (goto w (if tp_running (tp s) then Popping idle else Leaving False) s)
      | _ \<Rightarrow> None)"

definition worker_pop :: "nat \<Rightarrow> 'j tp_sys \<Rightarrow> 'j tp_sys option" where
  "worker_pop w s =
     (case (tpc s w, tq s) of
        (Popping idle, j # js) \<Rightarrow> Some (goto w (Popped idle (Job j)) (s\<lparr>tq := js\<rparr>))
      | _ \<Rightarrow> None)"

definition worker_pop_other :: "nat \<Rightarrow> 'j pop_result \<Rightarrow> 'j tp_sys \<Rightarrow> 'j tp_sys option" where
  "worker_pop_other w r s =
     (case (tpc s w, r) of
        (Popping idle, Job j) \<Rightarrow> None
      | (Popping idle, _) \<Rightarrow> Some (goto w (Popped idle r) s)
      | _ \<Rightarrow> None)"

definition worker_broken :: "nat \<Rightarrow> 'j tp_sys \<Rightarrow> 'j tp_sys option" where
  "worker_broken w s =
     (case tpc s w of
        Popped idle Break \<Rightarrow> Some (goto w (if tp_running (tp s) then Top idle else Leaving False) s)
      | _ \<Rightarrow> None)"

definition worker_idle :: "nat \<Rightarrow> 'j tp_sys \<Rightarrow> 'j tp_sys option" where
  "worker_idle w s =
     (case tpc s w of
        After idle Timeout \<Rightarrow>
          (if idle_expired (idle + 1) (tp s) then
             (if mutex_by s \<noteq> None then None
              else if may_die (tp s) then Some (goto w (Leaving True) (s\<lparr>tp := worker_dies (tp s)\<rparr>))
              else Some (goto w (Top (idle + 1)) s))
           else Some (goto w (Top (idle + 1)) s))
      | After idle Failure \<Rightarrow> Some (goto w (Leaving False) s)
      | _ \<Rightarrow> None)"

definition worker_take :: "nat \<Rightarrow> 'j tp_sys \<Rightarrow> 'j tp_sys option" where
  "worker_take w s =
     (case tpc s w of
        After idle (Job j) \<Rightarrow> guarded (mutex_by s = None) (goto w (Running j) (s\<lparr>tp := worker_busy (tp s)\<rparr>))
      | _ \<Rightarrow> None)"

definition worker_finish :: "nat \<Rightarrow> 'j tp_sys \<Rightarrow> 'j tp_sys option" where
  "worker_finish w s =
     (case tpc s w of
        Running j \<Rightarrow> guarded (mutex_by s = None)
          (goto w (Top 0) (s\<lparr>tp := worker_free (tp s), tdone := tdone s @ [j]\<rparr>))
      | _ \<Rightarrow> None)"

definition worker_leave :: "nat \<Rightarrow> 'j tp_sys \<Rightarrow> 'j tp_sys option" where
  "worker_leave w s =
     (case tpc s w of
        Leaving die \<Rightarrow> guarded (mutex_by s = None)
          (goto w Gone (s\<lparr>tp := worker_exit die (tp s), thread_die_hash := w # thread_die_hash s\<rparr>))
      | _ \<Rightarrow> None)"

text \<open>\<open>ks_thread_pool_destroy\<close>: the state, the lock of the table, the joins of all threads.\<close>

definition destroy_down :: "'j tp_sys \<Rightarrow> 'j tp_sys option" where
  "destroy_down s =
     guarded (tp_running (tp s) \<and> state_by s = None) (s\<lparr>tp := (tp s)\<lparr>tp_running := False\<rparr>\<rparr>)"

definition destroy_lock :: "'j tp_sys \<Rightarrow> 'j tp_sys option" where
  "destroy_lock s =
     guarded (\<not> tp_running (tp s) \<and> \<not> hash_locked s \<and> \<not> destroyed s) (s\<lparr>hash_locked := True\<rparr>)"

definition destroy_join :: "'j tp_sys \<Rightarrow> 'j tp_sys option" where
  "destroy_join s =
     guarded (hash_locked s \<and> (\<forall>w\<in>set (thread_hash s). tpc s w = Gone))
       (s\<lparr>hash_locked := False, thread_hash := [], destroyed := True\<rparr>)"

fun tp_do :: "'j tp_act \<Rightarrow> 'j tp_sys \<Rightarrow> 'j tp_sys option" where
  "tp_do (Add t j) s = add_job t j s"
| "tp_do (Enter t) s = check_queue_enter t s"
| "tp_do (Clean t) s = check_queue_clean t s"
| "tp_do (Create t v) s = check_queue_create t v s"
| "tp_do (Insert t) s = check_queue_insert t s"
| "tp_do (Create_fails t) s = check_queue_create_fails t s"
| "tp_do (Created t) s = check_queue_leave t s"
| "tp_do (Start w) s = worker_begin w s"
| "tp_do (Test w) s = worker_test w s"
| "tp_do (Pop w) s = worker_pop w s"
| "tp_do (Pop_other w r) s = worker_pop_other w r s"
| "tp_do (Broken w) s = worker_broken w s"
| "tp_do (Idle w) s = worker_idle w s"
| "tp_do (Take w) s = worker_take w s"
| "tp_do (Finish w) s = worker_finish w s"
| "tp_do (Exit w) s = worker_leave w s"
| "tp_do Down s = destroy_down s"
| "tp_do Lock_hash s = destroy_lock s"
| "tp_do Join_all s = destroy_join s"

lemmas tp_parts =
  add_job_def check_queue_enter_def check_queue_clean_def check_queue_create_def check_queue_insert_def
  check_queue_create_fails_def check_queue_leave_def worker_begin_def worker_test_def worker_pop_def worker_pop_other_def worker_broken_def worker_idle_def
  worker_take_def worker_finish_def worker_leave_def destroy_down_def destroy_lock_def destroy_join_def

declare tp_parts [simp]

fun tp_run :: "'j tp_act list \<Rightarrow> 'j tp_sys \<Rightarrow> 'j tp_sys option" where
  "tp_run [] s = Some s"
| "tp_run (a # as) s = (case tp_do a s of None \<Rightarrow> None | Some s' \<Rightarrow> tp_run as s')"

text \<open>\<open>ks_thread_pool_create\<close>: thread 0 is the caller, before its \<open>check_queue\<close>, and one of the
  threads below \<open>exts\<close> that may add jobs.\<close>

definition ks_thread_pool_create :: "nat \<Rightarrow> u32 \<Rightarrow> u32 \<Rightarrow> u32 \<Rightarrow> 'j tp_sys" where
  "ks_thread_pool_create exts mn mx idle =
     \<lparr>tp = \<lparr>tp_min = mn, tp_max = mx, tp_idle_sec = idle, thread_count = 0, busy_thread_count = 0,
        running_thread_count = 0, dying_thread_count = 0, tp_running = True\<rparr>,
      tq = [], tpc = (\<lambda>t. if t < exts then Ext else Nobody)(0 := Added False), thread_hash = [], thread_die_hash = [], mutex_by = None, state_by = None,
      hash_locked = False, destroyed = False, tadded = [], tdone = []\<rparr>"

definition ks_thread_pool_backlog :: "'j tp_sys \<Rightarrow> nat" where
  "ks_thread_pool_backlog s = length (tq s)"


section \<open>Counting threads\<close>

text \<open>The sum of a value over the threads, all of which are below \<open>n\<close>.\<close>

definition tot :: "nat \<Rightarrow> ('p \<Rightarrow> 'a::comm_monoid_add) \<Rightarrow> (nat \<Rightarrow> 'p) \<Rightarrow> 'a" where
  "tot n f pc = (\<Sum>t<n. f (pc t))"

lemma tot_upd: "t < n \<Longrightarrow> tot n f (pc(t := x)) + f (pc t) = tot n f pc + f x"
proof -
  assume t: "t < n"
  have r: "sum g {..<n} = g t + sum g ({..<n} - {t})" for g :: "nat \<Rightarrow> 'a" using t by (simp add: sum.remove)
  have "(\<Sum>u\<in>{..<n} - {t}. f ((pc(t := x)) u)) = (\<Sum>u\<in>{..<n} - {t}. f (pc u))" by (rule sum.cong) auto
  then show ?thesis
    using r [of "\<lambda>u. f ((pc(t := x)) u)"] r [of "\<lambda>u. f (pc u)"] unfolding tot_def by (simp only: fun_upd_same ac_simps)
qed

lemma tot_nonneg: "(\<And>p. 0 \<le> f p) \<Longrightarrow> 0 \<le> tot n f (pc :: nat \<Rightarrow> 'p)" for f :: "'p \<Rightarrow> int"
  by (simp add: tot_def sum_nonneg)

lemma tot_mono: "(\<And>p. f p \<le> g p) \<Longrightarrow> tot n f pc \<le> tot n g pc" for f g :: "'p \<Rightarrow> int"
  by (simp add: tot_def sum_mono)

lemma tot_le: "(\<And>p. f p \<le> 1) \<Longrightarrow> tot n f pc \<le> int n" for f :: "'p \<Rightarrow> int"
  using sum_bounded_above [of "{..<n}" "\<lambda>t. f (pc t)" 1] by (simp add: tot_def)

fun of_worker :: "'j caller \<Rightarrow> int" where
  "of_worker (From_Ext adding) = 0"
| "of_worker (From_Worker idle r) = 1"

text \<open>What a thread contributes to \<open>thread_count\<close>, \<open>running_thread_count\<close>, \<open>busy_\<close> and \<open>dying_thread_count\<close>.\<close>

fun n_live :: "'j tp_pc \<Rightarrow> int" where
  "n_live Nobody = 0" | "n_live Ext = 0" | "n_live (Added a) = 0" | "n_live Gone = 0"
| "n_live (Cleaning c) = of_worker c"
| "n_live (Creating need c) = max 0 need + of_worker c" | "n_live (Inserting v need c) = max 0 need + of_worker c"
| "n_live pc = 1"

fun n_running :: "'j tp_pc \<Rightarrow> int" where
  "n_running (Top i) = 1" | "n_running (Popping i) = 1" | "n_running (Popped i r) = 1" | "n_running (After i r) = 1"
| "n_running (Running j) = 1" | "n_running (Leaving d) = 1"
| "n_running (Cleaning c) = of_worker c" | "n_running (Creating need c) = of_worker c"
| "n_running (Inserting v need c) = of_worker c"
| "n_running pc = 0"

fun n_busy :: "'j tp_pc \<Rightarrow> int" where
  "n_busy (Running j) = 1"
| "n_busy pc = 0"

fun n_dying :: "'j tp_pc \<Rightarrow> int" where
  "n_dying (Leaving d) = (if d then 1 else 0)"
| "n_dying pc = 0"

text \<open>The jobs in the hands of workers.\<close>

fun jobs_of_result :: "'j pop_result \<Rightarrow> 'j multiset" where
  "jobs_of_result (Job j) = {#j#}"
| "jobs_of_result r = {#}"

fun jobs_of_caller :: "'j caller \<Rightarrow> 'j multiset" where
  "jobs_of_caller (From_Ext a) = {#}"
| "jobs_of_caller (From_Worker i r) = jobs_of_result r"

fun n_jobs :: "'j tp_pc \<Rightarrow> 'j multiset" where
  "n_jobs (Popped i r) = jobs_of_result r" | "n_jobs (After i r) = jobs_of_result r"
| "n_jobs (Running j) = {#j#}"
| "n_jobs (Cleaning c) = jobs_of_caller c" | "n_jobs (Creating need c) = jobs_of_caller c"
| "n_jobs (Inserting v need c) = jobs_of_caller c"
| "n_jobs pc = {#}"

lemma of_worker_range [simp]: "0 \<le> of_worker c" "of_worker c \<le> 1"
  by (cases c; simp)+

lemma n_live_nonneg [simp]: "0 \<le> n_live p" by (cases p) simp_all
lemma n_running_nonneg [simp]: "0 \<le> n_running p" by (cases p) simp_all
lemma n_busy_nonneg [simp]: "0 \<le> n_busy p" by (cases p) simp_all
lemma n_dying_nonneg [simp]: "0 \<le> n_dying p" by (cases p) simp_all
lemma n_running_le [simp]: "n_running p \<le> 1" by (cases p) simp_all
lemma n_running_live [simp]: "n_running p \<le> n_live p" by (cases p) simp_all
lemma n_busy_dying [simp]: "n_busy p + n_dying p \<le> n_running p" by (cases p) simp_all


section \<open>The invariant\<close>

text \<open>
  The four counters are exact, the threads that are not about to end are at most the larger of the two
  limits, and every job that was added is queued, in the hands of a worker, or done.
\<close>

definition counts_ok :: "nat \<Rightarrow> 'j tp_sys \<Rightarrow> bool" where
  "counts_ok n s =
     (thread_count (tp s) = word_of_int (tot n n_live (tpc s)) \<and>
      running_thread_count (tp s) = word_of_int (tot n n_running (tpc s)) \<and>
      busy_thread_count (tp s) = word_of_int (tot n n_busy (tpc s)) \<and>
      dying_thread_count (tp s) = word_of_int (tot n n_dying (tpc s)))"

definition limit_ok :: "nat \<Rightarrow> 'j tp_sys \<Rightarrow> bool" where
  "limit_ok n s = (tot n n_live (tpc s) - tot n n_dying (tpc s) \<le> max (uint (tp_min (tp s))) (uint (tp_max (tp s))))"

definition jobs_ok :: "nat \<Rightarrow> 'j tp_sys \<Rightarrow> bool" where
  "jobs_ok n s = (mset (tadded s) = mset (tdone s) + tot n n_jobs (tpc s) + mset (tq s))"

definition tp_inv :: "nat \<Rightarrow> u32 \<Rightarrow> u32 \<Rightarrow> 'j tp_sys \<Rightarrow> bool" where
  "tp_inv n mn mx s = (counts_ok n s \<and> limit_ok n s \<and> jobs_ok n s \<and> tp_min (tp s) = mn \<and> tp_max (tp s) = mx)"

definition tp_step :: "nat \<Rightarrow> 'j tp_sys \<Rightarrow> 'j tp_sys \<Rightarrow> bool" where
  "tp_step n s s' = (\<exists>a. act_thread a < n \<and> tp_do a s = Some s')"

lemma tot_upd_int: "t < n \<Longrightarrow> tot n f (pc(t := x)) = tot n f pc - f (pc t) + f x" for f :: "'p \<Rightarrow> int"
  using tot_upd [of t n f pc x] by simp

text \<open>A step in which one thread moves keeps the invariant if the counters follow.\<close>

definition moves :: "'j tp_pc \<Rightarrow> 'j tp_pc \<Rightarrow> ks_thread_pool \<Rightarrow> ks_thread_pool \<Rightarrow> bool" where
  "moves x y p p' =
     (thread_count p' = thread_count p + word_of_int (n_live y - n_live x) \<and>
      running_thread_count p' = running_thread_count p + word_of_int (n_running y - n_running x) \<and>
      busy_thread_count p' = busy_thread_count p + word_of_int (n_busy y - n_busy x) \<and>
      dying_thread_count p' = dying_thread_count p + word_of_int (n_dying y - n_dying x) \<and>
      tp_min p' = tp_min p \<and> tp_max p' = tp_max p)"

lemma counts_move:
  assumes "counts_ok n s" "t < n" "tpc s' = (tpc s)(t := y)" "moves (tpc s t) y (tp s) (tp s')"
  shows "counts_ok n s'"
proof -
  have w: "word_of_int (a - b + c) = word_of_int a + (word_of_int (c - b) :: u32)" for a b c
    by (simp add: algebra_simps)
  show ?thesis using assms by (simp add: counts_ok_def moves_def tot_upd_int w)
qed

lemma jobs_move:
  assumes "jobs_ok n s" "t < n" "tpc s' = (tpc s)(t := y)"
    and "mset (tadded s') + mset (tdone s) + n_jobs (tpc s t) + mset (tq s) =
      mset (tadded s) + mset (tdone s') + n_jobs y + mset (tq s')"
  shows "jobs_ok n s'"
proof -
  have "tot n n_jobs (tpc s') + n_jobs (tpc s t) = tot n n_jobs (tpc s) + n_jobs y"
    using tot_upd [OF assms(2)] assms(3) by simp
  with assms(1,4) have "mset (tadded s') + (mset (tdone s) + n_jobs (tpc s t) + mset (tq s)) =
     mset (tdone s') + tot n n_jobs (tpc s') + mset (tq s') + (mset (tdone s) + n_jobs (tpc s t) + mset (tq s))"
    by (simp add: jobs_ok_def ac_simps)
  then show ?thesis unfolding jobs_ok_def by (rule add_right_imp_eq)
qed

lemma limit_move:
  assumes "limit_ok n s" "t < n" "tpc s' = (tpc s)(t := y)" "moves (tpc s t) y (tp s) (tp s')"
    and "n_live y - n_dying y \<le> n_live (tpc s t) - n_dying (tpc s t)"
  shows "limit_ok n s'"
  using assms by (simp add: limit_ok_def tot_upd_int moves_def)

lemma inv_move:
  assumes "tp_inv n mn mx s" "t < n" "tpc s' = (tpc s)(t := y)" "moves (tpc s t) y (tp s) (tp s')"
    and "mset (tadded s') + mset (tdone s) + n_jobs (tpc s t) + mset (tq s) =
      mset (tadded s) + mset (tdone s') + n_jobs y + mset (tq s')"
    and "n_live y - n_dying y \<le> n_live (tpc s t) - n_dying (tpc s t)"
  shows "tp_inv n mn mx s'"
  using assms counts_move [OF _ assms(2-4)] limit_move [OF _ assms(2-4,6)] jobs_move [OF _ assms(2,3,5)]
  by (simp add: tp_inv_def moves_def)

end
