(* ===== verification/Ks_Thread_Pool_Props.thy ===== *)
theory Ks_Thread_Pool_Props
  imports Ks_Thread_Pool
begin

text \<open>
  \<open>ks_thread_pool.c\<close>: every action keeps the invariant of the pool, and what follows for any run.
\<close>

lemma goto_sel [simp]:
  "tp (goto t x s) = tp s" "tq (goto t x s) = tq s" "tpc (goto t x s) = (tpc s)(t := x)"
  "thread_hash (goto t x s) = thread_hash s" "thread_die_hash (goto t x s) = thread_die_hash s"
  "mutex_by (goto t x s) = mutex_by s" "state_by (goto t x s) = state_by s" "hash_locked (goto t x s) = hash_locked s" "destroyed (goto t x s) = destroyed s"
  "tadded (goto t x s) = tadded s" "tdone (goto t x s) = tdone s"
  by (simp_all add: goto_def)

lemma resume_counts [simp]:
  "n_live (resume c) = of_worker c" "n_running (resume c) = of_worker c" "n_busy (resume c) = 0" "n_dying (resume c) = 0"
  "n_jobs (resume c) = jobs_of_caller c"
  by (cases c; simp)+

lemma calls_check_counts:
  "calls_check pc = Some c \<Longrightarrow> n_live pc = of_worker c \<and> n_running pc = of_worker c \<and> n_busy pc = 0 \<and> n_dying pc = 0 \<and>
     n_jobs pc = jobs_of_caller c"
  by (cases pc) (auto split: if_splits)

text \<open>One lemma per action.\<close>

lemma add_inv:
  assumes "tp_inv n mn mx s" "t < n" "tp_do (Add t j) s = Some s'"
  shows "tp_inv n mn mx s'"
  by (rule inv_move [OF assms(1,2), where y = "Added True"])
    (use assms(3) in \<open>auto simp: moves_def split: if_splits\<close>)

lemma enter_inv:
  assumes "tp_inv n mn mx s" "t < n" "tp_do (Enter t) s = Some s'"
  shows "tp_inv n mn mx s'"
proof -
  obtain c where c: "calls_check (tpc s t) = Some c" using assms(3) by (auto split: option.splits)
  note k = calls_check_counts [OF c]
  show ?thesis
  proof (cases "tp_running (tp s)")
    case True
    show ?thesis
      by (rule inv_move [OF assms(1,2), where y = "Cleaning c"])
        (use assms(3) c k True in \<open>auto simp: moves_def split: if_splits\<close>)
  next
    case False
    show ?thesis
      by (rule inv_move [OF assms(1,2), where y = "resume c"])
        (use assms(3) c k False in \<open>auto simp: moves_def split: if_splits\<close>)
  qed
qed

lemma create_inv:
  assumes "tp_inv n mn mx s" "t < n" "v < n" "tp_do (Create t v) s = Some s'"
  shows "tp_inv n mn mx s'"
proof -
  obtain need c where c: "tpc s t = Creating need c" "0 < need" "tpc s v = Nobody"
    "s' = goto v New (goto t (Inserting v (need - 1) c) (s\<lparr>state_by := Some t\<rparr>))"
    using assms(4) by (auto split: tp_pc.splits if_splits)
  have tv: "t \<noteq> v" using c by auto
  have "tot n n_live (tpc s') = tot n n_live (tpc s)" "tot n n_running (tpc s') = tot n n_running (tpc s)"
    "tot n n_busy (tpc s') = tot n n_busy (tpc s)" "tot n n_dying (tpc s') = tot n n_dying (tpc s)"
    using assms(2,3) c tv by (simp_all add: tot_upd_int)
  moreover have "tot n n_jobs (tpc s') = tot n n_jobs (tpc s)"
    using tot_upd [OF assms(3), of n_jobs "(tpc s)(t := Inserting v (need - 1) c)" New]
      tot_upd [OF assms(2), of n_jobs "tpc s" "Inserting v (need - 1) c"] c tv by simp
  moreover have "tp s' = tp s" "tadded s' = tadded s" "tdone s' = tdone s" "tq s' = tq s" using c by simp_all
  ultimately show ?thesis using assms(1) by (auto simp: tp_inv_def counts_ok_def limit_ok_def jobs_ok_def)
qed

lemma insert_inv:
  assumes "tp_inv n mn mx s" "t < n" "tp_do (Insert t) s = Some s'"
  shows "tp_inv n mn mx s'"
proof -
  obtain v need c where c: "tpc s t = Inserting v need c"
    "s' = goto t (Creating need c) (s\<lparr>thread_hash := v # thread_hash s, state_by := None\<rparr>)"
    using assms(3) by (auto split: tp_pc.splits if_splits)
  show ?thesis
    by (rule inv_move [OF assms(1,2), where y = "Creating need c"]) (use c in \<open>auto simp: moves_def\<close>)
qed

lemma create_fails_inv:
  assumes "tp_inv n mn mx s" "t < n" "tp_do (Create_fails t) s = Some s'"
  shows "tp_inv n mn mx s'"
proof -
  obtain need c where c: "tpc s t = Creating need c" "0 < need"
    "s' = goto t (Creating (need - 1) c) (s\<lparr>tp := add_threads (-1) (tp s)\<rparr>)"
    using assms(3) by (auto split: tp_pc.splits if_splits)
  show ?thesis
    by (rule inv_move [OF assms(1,2), where y = "Creating (need - 1) c"])
      (use c in \<open>auto simp: moves_def add_threads_def\<close>)
qed

lemma created_inv:
  assumes "tp_inv n mn mx s" "t < n" "tp_do (Created t) s = Some s'"
  shows "tp_inv n mn mx s'"
proof -
  obtain need c where c: "tpc s t = Creating need c"
    "s' = goto t (resume c) (if need \<le> 0 then s else s\<lparr>tp := add_threads (- need) (tp s)\<rparr>)"
    using assms(3) by (auto split: tp_pc.splits if_splits)
  show ?thesis
    by (rule inv_move [OF assms(1,2), where y = "resume c"])
      (use c in \<open>auto simp: moves_def add_threads_def\<close>)
qed

lemma start_inv:
  assumes "tp_inv n mn mx s" "t < n" "tp_do (Start t) s = Some s'"
  shows "tp_inv n mn mx s'"
  by (rule inv_move [OF assms(1,2), where y = "Top 0"])
    (use assms(3) in \<open>auto simp: moves_def worker_start_def split: if_splits\<close>)

lemma test_inv:
  assumes "tp_inv n mn mx s" "t < n" "tp_do (Test t) s = Some s'"
  shows "tp_inv n mn mx s'"
proof -
  obtain idle where c: "tpc s t = Top idle" "s' = goto t (if tp_running (tp s) then Popping idle else Leaving False) s"
    using assms(3) by (auto split: tp_pc.splits)
  show ?thesis
    by (rule inv_move [OF assms(1,2), where y = "if tp_running (tp s) then Popping idle else Leaving False"])
      (use c in \<open>auto simp: moves_def\<close>)
qed

lemma pop_inv:
  assumes "tp_inv n mn mx s" "t < n" "tp_do (Pop t) s = Some s'"
  shows "tp_inv n mn mx s'"
proof -
  obtain idle j js where c: "tpc s t = Popping idle" "tq s = j # js" "s' = goto t (Popped idle (Job j)) (s\<lparr>tq := js\<rparr>)"
    using assms(3) by (auto split: tp_pc.splits list.splits if_splits)
  show ?thesis
    by (rule inv_move [OF assms(1,2), where y = "Popped idle (Job j)"]) (use c in \<open>auto simp: moves_def\<close>)
qed

lemma pop_other_inv:
  assumes "tp_inv n mn mx s" "t < n" "tp_do (Pop_other t r) s = Some s'"
  shows "tp_inv n mn mx s'"
proof -
  obtain idle where c: "tpc s t = Popping idle" "jobs_of_result r = {#}" "s' = goto t (Popped idle r) s"
    using assms(3) by (cases r) (auto split: tp_pc.splits if_splits)
  show ?thesis
    by (rule inv_move [OF assms(1,2), where y = "Popped idle r"]) (use c in \<open>auto simp: moves_def\<close>)
qed

lemma broken_inv:
  assumes "tp_inv n mn mx s" "t < n" "tp_do (Broken t) s = Some s'"
  shows "tp_inv n mn mx s'"
proof -
  obtain idle where c: "tpc s t = Popped idle Break" "s' = goto t (if tp_running (tp s) then Top idle else Leaving False) s"
    using assms(3) by (auto split: tp_pc.splits pop_result.splits)
  show ?thesis
    by (rule inv_move [OF assms(1,2), where y = "if tp_running (tp s) then Top idle else Leaving False"])
      (use c in \<open>auto simp: moves_def\<close>)
qed

lemma idle_inv:
  assumes "tp_inv n mn mx s" "t < n" "tp_do (Idle t) s = Some s'"
  shows "tp_inv n mn mx s'"
proof -
  obtain idle r where c: "tpc s t = After idle r" "jobs_of_result r = {#}"
    "s' = goto t (Leaving True) (s\<lparr>tp := worker_dies (tp s)\<rparr>) \<or> (\<exists>y \<in> {Top (idle + 1), Leaving False}. s' = goto t y s)"
    using assms(3) by (auto split: tp_pc.splits pop_result.splits if_splits)
  then consider "s' = goto t (Leaving True) (s\<lparr>tp := worker_dies (tp s)\<rparr>)" | y where "y \<in> {Top (idle + 1), Leaving False}" "s' = goto t y s"
    by blast
  then show ?thesis
  proof cases
    case 1
    show ?thesis
      by (rule inv_move [OF assms(1,2), where y = "Leaving True"]) (use c 1 in \<open>auto simp: moves_def worker_dies_def\<close>)
  next
    case 2
    show ?thesis
      by (rule inv_move [OF assms(1,2), where y = y]) (use c 2 in \<open>auto simp: moves_def\<close>)
  qed
qed

lemma take_inv:
  assumes "tp_inv n mn mx s" "t < n" "tp_do (Take t) s = Some s'"
  shows "tp_inv n mn mx s'"
proof -
  obtain idle j where c: "tpc s t = After idle (Job j)" "s' = goto t (Running j) (s\<lparr>tp := worker_busy (tp s)\<rparr>)"
    using assms(3) by (auto split: tp_pc.splits pop_result.splits if_splits)
  show ?thesis
    by (rule inv_move [OF assms(1,2), where y = "Running j"]) (use c in \<open>auto simp: moves_def worker_busy_def\<close>)
qed

lemma finish_inv:
  assumes "tp_inv n mn mx s" "t < n" "tp_do (Finish t) s = Some s'"
  shows "tp_inv n mn mx s'"
proof -
  obtain j where c: "tpc s t = Running j" "s' = goto t (Top 0) (s\<lparr>tp := worker_free (tp s), tdone := tdone s @ [j]\<rparr>)"
    using assms(3) by (auto split: tp_pc.splits if_splits)
  show ?thesis
    by (rule inv_move [OF assms(1,2), where y = "Top 0"]) (use c in \<open>auto simp: moves_def worker_free_def\<close>)
qed

lemma exit_inv:
  assumes "tp_inv n mn mx s" "t < n" "tp_do (Exit t) s = Some s'"
  shows "tp_inv n mn mx s'"
proof -
  obtain die where c: "tpc s t = Leaving die"
    "s' = goto t Gone (s\<lparr>tp := worker_exit die (tp s), thread_die_hash := t # thread_die_hash s\<rparr>)"
    using assms(3) by (auto split: tp_pc.splits if_splits)
  show ?thesis
    by (rule inv_move [OF assms(1,2), where y = Gone]) (use c in \<open>auto simp: moves_def worker_exit_def\<close>)
qed

lemma destroy_inv:
  assumes "tp_inv n mn mx s" "tp_do a s = Some s'" "a \<in> {Down, Lock_hash, Join_all}"
  shows "tp_inv n mn mx s'"
  using assms by (auto simp: tp_inv_def counts_ok_def limit_ok_def jobs_ok_def split: if_splits)


lemma sint_small: "uint (w :: u32) < 2 ^ 31 \<Longrightarrow> sint w = uint w"
  using signed_take_bit_int_eq_self [of 31 "uint w"] order_trans [of "- (2 ^ 31)" 0 "uint w"] by (simp add: sint_uint)

lemma queue_need_ok:
  assumes "thread_count p = word_of_int T" "dying_thread_count p = word_of_int D" "0 \<le> D" "D \<le> T" "T < 2 ^ 31"
    and "uint (tp_min p) < 2 ^ 31" "T - D \<le> max (uint (tp_min p)) (uint (tp_max p))"
  shows "0 \<le> queue_need a b p" "T + queue_need a b p - D \<le> max (uint (tp_min p)) (uint (tp_max p))"
proof -
  have u: "uint (thread_count p) = T" "uint (dying_thread_count p) = D"
    using assms(1-5) by (simp_all add: uint_word_of_int)
  define need where "need = (if thread_count p < tp_min p then sint (tp_min p - thread_count p) else 0)"
  have n: "need = max 0 (uint (tp_min p) - T)"
  proof (cases "T < uint (tp_min p)")
    case True
    then have "uint (tp_min p - thread_count p) = uint (tp_min p) - T"
      using u(1) by (simp add: uint_sub_if' )
    then have "sint (tp_min p - thread_count p) = uint (tp_min p) - T"
      using assms(3,4,6) by (subst sint_small) auto
    with True u(1) show ?thesis by (simp add: need_def word_less_def)
  next
    case False
    with u(1) show ?thesis by (simp add: need_def word_less_def)
  qed
  have q: "queue_need a b p = need \<or> queue_need a b p = 1 \<and> need = 0 \<and> thread_count p - dying_thread_count p + 1 \<le> tp_max p"
    by (auto simp: queue_need_def need_def [symmetric] Let_def)
  have m: "T - D + 1 \<le> uint (tp_max p)" if "thread_count p - dying_thread_count p + 1 \<le> tp_max p"
  proof -
    have "uint (thread_count p - dying_thread_count p) = T - D" using u assms(4) by (simp add: uint_sub_if')
    moreover have "T - D + 1 < 2 ^ 32" using assms(3,5) by simp
    ultimately have "uint (thread_count p - dying_thread_count p + 1) = T - D + 1"
      by (simp add: uint_plus_if')
    with that show ?thesis by (simp add: word_le_def)
  qed
  show "0 \<le> queue_need a b p" using q n by auto
  show "T + queue_need a b p - D \<le> max (uint (tp_min p)) (uint (tp_max p))"
    using q n m assms(3,7) by auto
qed

lemma tot_bounds:
  "0 \<le> tot n n_dying pc" "tot n n_dying pc \<le> tot n n_live pc" "tot n n_dying pc \<le> int n"
proof -
  have a: "n_dying p \<le> n_live p" "n_dying p \<le> 1" for p :: "'a tp_pc"
    using n_busy_dying [of p] n_busy_nonneg [of p] n_running_live [of p] n_running_le [of p] by linarith+
  show "0 \<le> tot n n_dying pc" by (rule tot_nonneg) simp
  show "tot n n_dying pc \<le> tot n n_live pc" by (rule tot_mono) (rule a)
  show "tot n n_dying pc \<le> int n" by (rule tot_le) (rule a)
qed

lemma clean_inv:
  assumes "tp_inv n mn mx s" "t < n" "tp_do (Clean t) s = Some s'"
    and "int n < 2 ^ 30" "uint mn < 2 ^ 30" "uint mx < 2 ^ 30"
  shows "tp_inv n mn mx s'"
proof -
  let ?T = "tot n n_live (tpc s)" and ?D = "tot n n_dying (tpc s)"
  obtain c need where c: "tpc s t = Cleaning c" "need = queue_need (adding_of c) (length (tq s)) (tp s)"
    "tp s' = add_threads need (tp s)" "tpc s' = (tpc s)(t := Creating need c)"
    "tadded s' = tadded s" "tdone s' = tdone s" "tq s' = tq s"
    using assms(3) by (auto simp: Let_def split: tp_pc.splits if_splits)
  have i: "thread_count (tp s) = word_of_int ?T" "dying_thread_count (tp s) = word_of_int ?D"
    "tp_min (tp s) = mn" "tp_max (tp s) = mx" "?T - ?D \<le> max (uint mn) (uint mx)"
    using assms(1) by (auto simp: tp_inv_def counts_ok_def limit_ok_def)
  have b: "?T < 2 ^ 31" using i(5) assms(4-6) tot_bounds [of n "tpc s"] by auto
  have q: "0 \<le> need" "?T + need - ?D \<le> max (uint (tp_min (tp s))) (uint (tp_max (tp s)))"
    unfolding c(2) by (rule queue_need_ok [OF i(1,2) tot_bounds(1,2) b]; use i assms(5) in simp)+
  have m: "moves (tpc s t) (Creating need c) (tp s) (tp s')"
    using c q(1) by (simp add: moves_def add_threads_def)
  have "counts_ok n s'" by (rule counts_move [OF _ assms(2) c(4) m]) (use assms(1) in \<open>simp add: tp_inv_def\<close>)
  moreover have "jobs_ok n s'" by (rule jobs_move [OF _ assms(2) c(4)]) (use assms(1) c in \<open>simp_all add: tp_inv_def\<close>)
  moreover have "limit_ok n s'"
    using q assms(2) c by (simp add: limit_ok_def tot_upd_int add_threads_def)
  ultimately show ?thesis using i c(3) by (simp add: tp_inv_def add_threads_def)
qed

lemma tp_step_inv:
  assumes "tp_step n s s'" "tp_inv n mn mx s" "int n < 2 ^ 30" "uint mn < 2 ^ 30" "uint mx < 2 ^ 30"
  shows "tp_inv n mn mx s'"
proof -
  obtain a where a: "act_thread a < n" "tp_do a s = Some s'" using assms(1) by (auto simp: tp_step_def)
  note lems = add_inv enter_inv insert_inv create_fails_inv created_inv start_inv test_inv pop_inv pop_other_inv
    broken_inv idle_inv take_inv finish_inv exit_inv
  show ?thesis
  proof (cases a)
    case (Clean t)
    with a clean_inv [OF assms(2) _ _ assms(3-5), of t] show ?thesis by simp
  next
    case (Create t v)
    with a create_inv [OF assms(2), of t v] show ?thesis by simp
  next
    case Down
    with a destroy_inv [OF assms(2), of a] show ?thesis by simp
  next
    case Lock_hash
    with a destroy_inv [OF assms(2), of a] show ?thesis by simp
  next
    case Join_all
    with a destroy_inv [OF assms(2), of a] show ?thesis by simp
  qed (insert a, simp_all only: act_thread.simps, (erule (1) lems [OF assms(2)])+)
qed

lemma tot_zero: "(\<And>t. t < n \<Longrightarrow> f (pc t) = 0) \<Longrightarrow> tot n f pc = 0"
  by (simp add: tot_def)

lemma create_pool_inv: "tp_inv n mn mx (ks_thread_pool_create exts mn mx idle :: 'j tp_sys)"
proof -
  let ?s = "ks_thread_pool_create exts mn mx idle :: 'j tp_sys"
  have "tot n n_live (tpc ?s) = 0" "tot n n_running (tpc ?s) = 0" "tot n n_busy (tpc ?s) = 0" "tot n n_dying (tpc ?s) = 0"
    "tot n n_jobs (tpc ?s) = {#}"
    by (rule tot_zero, simp add: ks_thread_pool_create_def)+
  then show ?thesis
    by (simp add: tp_inv_def counts_ok_def limit_ok_def jobs_ok_def) (simp add: ks_thread_pool_create_def le_max_iff_disj)
qed


definition pool_small :: "nat \<Rightarrow> u32 \<Rightarrow> u32 \<Rightarrow> bool" where
  "pool_small n mn mx = (int n < 2 ^ 30 \<and> uint mn < 2 ^ 30 \<and> uint mx < 2 ^ 30)"

interpretation pool: step_system "ks_thread_pool_create exts mn mx idle" "tp_step n"
  "\<lambda>s. pool_small n mn mx \<longrightarrow> tp_inv n mn mx s" for exts mn mx idle n
  by unfold_locales (auto simp: pool_small_def intro: create_pool_inv tp_step_inv)

section \<open>Properties\<close>

text \<open>
  C12: However the threads are scheduled, \<open>thread_count\<close> is the number of workers and of threads about to be
  created, \<open>running_thread_count\<close>, \<open>busy_thread_count\<close> and \<open>dying_thread_count\<close> are the numbers of workers
  that have started, that run a job and that decided to end, and there are never more workers (those that
  decided to end aside) than the larger of \<open>min\<close> and \<open>max\<close>.\<close>

theorem ks_thread_pool_counts:
  assumes "(tp_step n)\<^sup>*\<^sup>* (ks_thread_pool_create exts mn mx idle) s" and "pool_small n mn mx"
  shows "uint (thread_count (tp s)) = tot n n_live (tpc s) \<and> uint (running_thread_count (tp s)) = tot n n_running (tpc s) \<and>
    uint (busy_thread_count (tp s)) = tot n n_busy (tpc s) \<and> uint (dying_thread_count (tp s)) = tot n n_dying (tpc s) \<and>
    tot n n_live (tpc s) - tot n n_dying (tpc s) \<le> max (uint mn) (uint mx)"
proof -
  have i: "tp_inv n mn mx s" using pool.run_inv [OF assms(1)] assms(2) by blast
  then have l: "tot n n_live (tpc s) - tot n n_dying (tpc s) \<le> max (uint mn) (uint mx)"
    by (auto simp: tp_inv_def limit_ok_def)
  have b: "n_busy p \<le> 1" "n_busy p + n_dying p \<le> 1" for p :: "'a tp_pc"
    using n_busy_dying [of p] n_dying_nonneg [of p] n_running_le [of p] by linarith+
  have r: "0 \<le> tot n n_running (tpc s)" "tot n n_running (tpc s) \<le> int n" "0 \<le> tot n n_busy (tpc s)" "tot n n_busy (tpc s) \<le> int n"
    by (rule tot_nonneg tot_le; simp add: b)+
  have "uint (word_of_int v :: u32) = v" if "0 \<le> v" "v < 2 ^ 31" for v
    using that by (simp add: uint_word_of_int)
  moreover have "tot n n_live (tpc s) < 2 ^ 31" "int n < 2 ^ 31"
    using l tot_bounds [of n "tpc s"] assms(2) by (auto simp: pool_small_def)
  ultimately show ?thesis
    using i l r tot_bounds [of n "tpc s"] by (auto simp: tp_inv_def counts_ok_def)
qed

text \<open>
  C11: No job is lost and none is run twice: at every moment the jobs that were added are those that were run,
  those in the hands of a worker and those in the queue.\<close>

theorem ks_thread_pool_jobs:
  assumes "(tp_step n)\<^sup>*\<^sup>* (ks_thread_pool_create exts mn mx idle) s" and "pool_small n mn mx"
  shows "mset (tadded s) = mset (tdone s) + tot n n_jobs (tpc s) + mset (tq s)"
  using pool.run_inv [OF assms(1)] assms(2) by (simp add: tp_inv_def jobs_ok_def)

lemma tp_run_steps:
  "tp_run as s = Some s' \<Longrightarrow> list_all (\<lambda>a. act_thread a < n) as \<Longrightarrow> (tp_step n)\<^sup>*\<^sup>* s s'"
proof (induction as arbitrary: s)
  case (Cons a as)
  then obtain s1 where "tp_do a s = Some s1" "tp_run as s1 = Some s'" by (auto split: option.splits)
  moreover from this have "tp_step n s s1" using Cons.prems(2) by (auto simp: tp_step_def)
  ultimately show ?case using Cons by (simp add: converse_rtranclp_into_rtranclp)
qed simp

text \<open>
  A run: one worker at least and two at most. Worker 1 is created with the pool, worker 2 with the job;
  worker 1 does the job, finds nothing more and ends; worker 2 finds nothing and enters \<open>check_queue\<close>
  while another thread destroys the pool.
\<close>

definition demo_run :: "nat tp_act list" where
  "demo_run =
     [Enter 0, Clean 0, Create 0 1, Insert 0, Created 0, Add 0 7, Enter 0, Clean 0, Create 0 2, Insert 0, Created 0,
      Start 1, Start 2, Test 1, Pop 1, Enter 1, Clean 1, Created 1, Take 1, Finish 1,
      Test 1, Pop_other 1 Timeout, Enter 1, Clean 1, Created 1, Idle 1, Exit 1,
      Test 2, Pop_other 2 Timeout, Enter 2, Down, Lock_hash]"

definition demo_tp :: "nat tp_sys" where
  "demo_tp = the (tp_run demo_run (ks_thread_pool_create 1 1 2 0))"

lemma demo_tp_run:
  "case tp_run demo_run (ks_thread_pool_create 1 1 2 0) of None \<Rightarrow> False
   | Some s \<Rightarrow> tpc s 2 = Cleaning (From_Worker 0 Timeout) \<and> mutex_by s = Some 2 \<and> thread_die_hash s = [1] \<and> hash_locked s \<and>
       thread_hash s = [2, 1] \<and> \<not> destroyed s \<and> tdone s = [7]"
  by code_simp


lemma demo_tp_state:
  "tp_run demo_run (ks_thread_pool_create 1 1 2 0) = Some demo_tp"
  "tpc demo_tp 2 = Cleaning (From_Worker 0 Timeout)" "mutex_by demo_tp = Some 2" "thread_die_hash demo_tp = [1]"
  "hash_locked demo_tp" "thread_hash demo_tp = [2, 1]" "\<not> destroyed demo_tp" "tdone demo_tp = [7]"
  using demo_tp_run by (auto simp: demo_tp_def split: option.splits)

lemma demo_tp_reached: "(tp_step 3)\<^sup>*\<^sup>* (ks_thread_pool_create 1 1 2 0) demo_tp"
  by (rule tp_run_steps [OF demo_tp_state(1)]) (simp add: demo_run_def)

theorem ks_thread_pool_counts_witness:
  "uint (thread_count (tp demo_tp)) = tot 3 n_live (tpc demo_tp) \<and> uint (running_thread_count (tp demo_tp)) = tot 3 n_running (tpc demo_tp) \<and>
    uint (busy_thread_count (tp demo_tp)) = tot 3 n_busy (tpc demo_tp) \<and> uint (dying_thread_count (tp demo_tp)) = tot 3 n_dying (tpc demo_tp) \<and>
    tot 3 n_live (tpc demo_tp) - tot 3 n_dying (tpc demo_tp) \<le> max (uint (1 :: u32)) (uint (2 :: u32))"
  by (rule ks_thread_pool_counts [OF demo_tp_reached]) (simp add: pool_small_def)

theorem ks_thread_pool_jobs_witness:
  "mset (tadded demo_tp) = mset (tdone demo_tp) + tot 3 n_jobs (tpc demo_tp) + mset (tq demo_tp) \<and> tdone demo_tp = [7]"
  using ks_thread_pool_jobs [OF demo_tp_reached] demo_tp_state(8) by (simp add: pool_small_def)

text \<open>
  A worker can end before it is inserted into \<open>thread_hash\<close>: with \<open>min\<close> 0 and no idle time worker 3 is created
  by thread 0, does its job and ends, and the next call of \<open>check_queue\<close> joins it and destroys its thread
  object; only then does thread 0 insert it. The table then holds a thread that exists no more, for
  \<open>ks_thread_pool_destroy\<close> to join.
\<close>

definition late_run :: "nat tp_act list" where
  "late_run =
     [Enter 0, Clean 0, Created 0, Add 0 7, Enter 0, Clean 0, Create 0 3, Start 3, Test 3, Pop 3, Enter 3, Clean 3, Created 3,
      Take 3, Finish 3, Test 3, Pop_other 3 Timeout, Enter 3, Clean 3, Created 3, Idle 3, Exit 3,
      Add 2 8, Enter 2, Clean 2, Insert 0]"

lemma inserted_after_end:
  "case tp_run late_run (ks_thread_pool_create 3 0 1 0) of None \<Rightarrow> False
   | Some s \<Rightarrow> tpc s 3 = Gone \<and> thread_die_hash s = [] \<and> thread_hash s = [3] \<and> tdone s = [7]"
  by code_simp

text \<open>
  The worker holds \<open>tp->mutex\<close> and waits for the lock of \<open>thread_hash\<close>, whose holder waits for the worker
  to end.
\<close>

definition pool_stuck :: "nat \<Rightarrow> 'j tp_sys \<Rightarrow> bool" where
  "pool_stuck w s = ((case tpc s w of Cleaning c \<Rightarrow> True | _ \<Rightarrow> False) \<and> mutex_by s = Some w \<and> thread_die_hash s \<noteq> [] \<and>
     hash_locked s \<and> w \<in> set (thread_hash s) \<and> \<not> destroyed s)"

lemma pool_stuck_do: "tp_do a s = Some s' \<Longrightarrow> pool_stuck w s \<Longrightarrow> pool_stuck w s'"
  by (cases a) (auto simp: pool_stuck_def Let_def split: tp_pc.splits option.splits if_splits list.splits pop_result.splits)

text \<open>
  C37: Destroying a pool can wait for ever. When a worker is inside \<open>cleanup_threads\<close>, with a finished worker
  to collect, at the moment \<open>ks_thread_pool_destroy\<close> takes the lock of \<open>thread_hash\<close>, no further step
  of any thread ends the wait; the run above reaches such a state. (\<open>state_mutex\<close> protects the creation
  of threads against this, but not the clean-up.)\<close>

theorem ks_thread_pool_destroy_deadlock:
  assumes "pool_stuck w s" "(tp_step n)\<^sup>*\<^sup>* s s'"
  shows "pool_stuck w s' \<and> \<not> destroyed s'"
proof -
  have "pool_stuck w s'"
    using assms(2,1) by (induction rule: rtranclp_induct) (auto simp: tp_step_def dest: pool_stuck_do)
  then show ?thesis by (simp add: pool_stuck_def)
qed

theorem ks_thread_pool_destroy_deadlock_witness:
  "(tp_step 3)\<^sup>*\<^sup>* (ks_thread_pool_create 1 1 2 0) demo_tp \<and>
   {s'. (tp_step 3)\<^sup>*\<^sup>* demo_tp s'} \<subseteq> {s'. pool_stuck 2 s' \<and> \<not> destroyed s'}"
proof -
  have "pool_stuck 2 demo_tp" using demo_tp_state by (simp add: pool_stuck_def)
  with ks_thread_pool_destroy_deadlock [of 2 demo_tp 3] demo_tp_reached show ?thesis by blast
qed

end
