(* ===== verification/Ks_Sb.thy ===== *)
theory Ks_Sb
  imports Ks_Pool_Props
begin

text \<open>
  \<open>ks_sb.c\<close>, the string builder, over the pool of theory \<open>Ks_Pool\<close>: its text is a block of the pool, enlarged
  with \<open>ks_pool_resize\<close>. \<open>ks_sb_printf\<close> and \<open>ks_sb_json\<close> need the formatting and JSON libraries; the
  release of the builder is left to the pool.
\<close>

section \<open>Operations\<close>

definition KS_PRINT_BUF_SIZE :: nat where "KS_PRINT_BUF_SIZE = 350"

text \<open>\<open>data\<close> is an address of the pool, \<^const>\<open>None\<close> for NULL.\<close>

record ks_sb =
  sb_pool_owner :: bool
  sb_data :: "nat option"
  sb_size :: nat
  sb_used :: nat

text \<open>
  Where \<open>realloc\<close> puts a block is an argument: the pool and the old address give the new one. The
  structure itself is a block of 32 bytes; \<open>9\<close> stands for the address of \<open>ks_sb_cleanup\<close>.
\<close>

definition ks_sb_create ::
  "nat option \<Rightarrow> nat option \<Rightarrow> bool \<Rightarrow> ks_pool \<Rightarrow> nat \<Rightarrow> (ks_status \<times> nat \<times> ks_sb \<times> ks_pool) option" where
  "ks_sb_create at1 at2 pool_owner p preallocated =
     do { let preallocated = (if preallocated = 0 then KS_PRINT_BUF_SIZE * 2 else preallocated);
          (sb, p) \<leftarrow> ks_pool_alloc at1 p 32;
          (d, p) \<leftarrow> ks_pool_alloc at2 p preallocated;
          (_, p) \<leftarrow> ks_pool_set_cleanup p sb 0 9;
          Some (KS_STATUS_SUCCESS, sb,
                \<lparr>sb_pool_owner = pool_owner, sb_data = Some d, sb_size = preallocated, sb_used = 1\<rparr>, p) }"

definition ks_sb_length :: "ks_sb \<Rightarrow> nat" where
  "ks_sb_length sb = size_sub (sb_used sb) 1"

text \<open>\<open>ks_sb_cstr\<close>: the pointer, and the string it points to.\<close>

definition ks_sb_cstr :: "ks_sb \<Rightarrow> nat option" where
  "ks_sb_cstr sb = sb_data sb"

definition pool_str :: "ks_pool \<Rightarrow> nat \<Rightarrow> mem option" where
  "pool_str p a = do { x \<leftarrow> pheap p a; c_str (take (psize x) (pdata x)) }"

definition ks_sb_accommodate ::
  "(ks_pool \<Rightarrow> nat \<Rightarrow> nat option) \<Rightarrow> (nat \<Rightarrow> byte) \<Rightarrow> nat option \<Rightarrow> ks_sb \<Rightarrow> ks_pool \<Rightarrow> nat \<Rightarrow>
   (ks_status \<times> ks_sb \<times> ks_pool) option" where
  "ks_sb_accommodate re junk at sb p len =
     (if len = 0 \<or> size_add (sb_used sb) len \<le> sb_size sb then Some (KS_STATUS_SUCCESS, sb, p)
      else do { let needed = size_sub (size_add (sb_used sb) len) (sb_size sb);
                let needed = (if needed < KS_PRINT_BUF_SIZE then KS_PRINT_BUF_SIZE else needed);
                let sb = sb\<lparr>sb_size := size_add (sb_size sb) needed\<rparr>;
                (d, p) \<leftarrow> (case sb_data sb of
                   None \<Rightarrow> ks_pool_alloc at p (sb_size sb)
                 | Some a \<Rightarrow> ks_pool_resize (re p a) junk p a (sb_size sb));
                Some (KS_STATUS_SUCCESS, sb\<lparr>sb_data := Some d\<rparr>, p) })"

text \<open>\<open>memcpy\<close> of \<open>len + 1\<close> bytes: the byte behind the piece is read and copied too.\<close>

definition ks_sb_append_ex ::
  "(ks_pool \<Rightarrow> nat \<Rightarrow> nat option) \<Rightarrow> (nat \<Rightarrow> byte) \<Rightarrow> nat option \<Rightarrow> ks_sb \<Rightarrow> ks_pool \<Rightarrow> mem option \<Rightarrow> nat \<Rightarrow>
   (ks_status \<times> ks_sb \<times> ks_pool) option" where
  "ks_sb_append_ex re junk at sb p str len =
     (case str of None \<Rightarrow> Some (KS_STATUS_SUCCESS, sb, p)
      | Some s \<Rightarrow>
          if len = 0 then Some (KS_STATUS_SUCCESS, sb, p)
          else do { (r, sb, p) \<leftarrow> ks_sb_accommodate re junk at sb p len;
                    if r \<noteq> KS_STATUS_SUCCESS then Some (KS_STATUS_FAIL, sb, p)
                    else do { a \<leftarrow> sb_data sb;
                              bs \<leftarrow> mem_sub s 0 (size_add len 1);
                              p \<leftarrow> pool_store p a (size_sub (sb_used sb) 1) bs;
                              Some (KS_STATUS_SUCCESS, sb\<lparr>sb_used := size_add (sb_used sb) len\<rparr>, p) } })"

definition ks_sb_append ::
  "(ks_pool \<Rightarrow> nat \<Rightarrow> nat option) \<Rightarrow> (nat \<Rightarrow> byte) \<Rightarrow> nat option \<Rightarrow> ks_sb \<Rightarrow> ks_pool \<Rightarrow> mem option \<Rightarrow>
   (ks_status \<times> ks_sb \<times> ks_pool) option" where
  "ks_sb_append re junk at sb p str =
     (case str of None \<Rightarrow> Some (KS_STATUS_SUCCESS, sb, p)
      | Some s \<Rightarrow> do { t \<leftarrow> c_str s; ks_sb_append_ex re junk at sb p str (length t) })"

section \<open>What a builder holds\<close>

text \<open>
  The builder at a block of its own that has the recorded size and begins with the text and a NUL.
\<close>

definition sb_holds :: "ks_pool \<Rightarrow> ks_sb \<Rightarrow> nat \<Rightarrow> mem \<Rightarrow> bool" where
  "sb_holds p sb a t =
     (pool_inv p \<and> sb_data sb = Some a \<and> 0 \<notin> set t \<and> sb_used sb = length t + 1 \<and>
      (\<exists>x. pheap p a = Some x \<and> prefs x = 1 \<and> psize x = sb_size sb \<and> length t < psize x \<and>
           take (length t + 1) (pdata x) = t @ [0]))"

text \<open>What \<open>realloc\<close> promises: the block stays or goes to a free address.\<close>

definition realloc_ok :: "(ks_pool \<Rightarrow> nat \<Rightarrow> nat option) \<Rightarrow> bool" where
  "realloc_ok re = (\<forall>p a. \<exists>b. re p a = Some b \<and> (b = a \<or> pheap p b = None))"

text \<open>The other blocks: unchanged, apart from the addresses of the builder's own block.\<close>

lemma store_inv:
  assumes "pool_inv p" "pheap p a = Some x" "off + length bs \<le> psize x"
  shows "\<exists>q y. pool_store p a off bs = Some q \<and> pool_inv q \<and> pheap q = (pheap p)(a \<mapsto> y) \<and> psize y = psize x \<and>
    prefs y = prefs x \<and> alloc_c q = alloc_c p \<and> take (off + length bs) (pdata y) = take off (pdata x) @ bs"
proof -
  have b: "block_ok x" using assms(1,2) by (auto simp: pool_inv_def)
  then have l: "length (pdata x) = psize x + 2" by (simp add: block_ok_def)
  define y where "y = x\<lparr>pdata := take off (pdata x) @ bs @ drop (off + length bs) (pdata x)\<rparr>"
  have s: "pool_store p a off bs = Some (put_prefix a y p)"
    using pool_store_ok [OF assms(2,3)] l by (simp add: y_def)
  have "block_ok y"
    using b l assms(3) by (auto simp: block_ok_def y_def CHECK_PREFIX_def nth_append)
  moreover have "\<forall>b z. pheap p b = Some z \<longrightarrow> block_ok z" using assms(1) by (auto simp: pool_inv_def)
  ultimately have "pool_inv (put_prefix a y p)"
    by (intro pool_inv_same [OF assms(1)]) (use assms(2) in auto)
  moreover have "take (off + length bs) (pdata y) = take off (pdata x) @ bs"
    using assms(3) l by (simp add: y_def)
  ultimately show ?thesis using s by (auto simp: y_def)
qed


lemma accommodate_ok:
  assumes "sb_holds p sb a t" "realloc_ok re" "sb_size sb + len + 350 + 98 < SIZE_MOD"
  shows "\<exists>sb' p' a'. ks_sb_accommodate re junk at sb p len = Some (KS_STATUS_SUCCESS, sb', p') \<and> sb_holds p' sb' a' t \<and>
    length t + 1 + len \<le> sb_size sb' \<and> sb_size sb' \<le> sb_size sb + len + 350 \<and>
    (a' = a \<or> pheap p a' = None) \<and> (\<forall>b. b \<noteq> a \<longrightarrow> b \<noteq> a' \<longrightarrow> pheap p' b = pheap p b)"
proof -
  obtain x where x: "pool_inv p" "sb_data sb = Some a" "0 \<notin> set t" "sb_used sb = length t + 1" "pheap p a = Some x"
    "prefs x = 1" "psize x = sb_size sb" "length t < psize x" "take (length t + 1) (pdata x) = t @ [0]"
    using assms(1) by (auto simp: sb_holds_def)
  have ad: "size_add (sb_used sb) len = length t + 1 + len" using x assms(3) by (simp add: size_simps)
  show ?thesis
  proof (cases "length t + 1 + len \<le> sb_size sb")
    case True
    then have "ks_sb_accommodate re junk at sb p len = Some (KS_STATUS_SUCCESS, sb, p)"
      using ad by (simp add: ks_sb_accommodate_def)
    then show ?thesis using True assms(1) by auto
  next
    case False
    define need where "need = max 350 (length t + 1 + len - sb_size sb)"
    define n where "n = sb_size sb + need"
    have need: "350 \<le> need" "need \<le> len + 350" "length t + 1 + len \<le> n" using x(7,8) False by (auto simp: need_def n_def)
    have n: "0 < n" "n + 98 < SIZE_MOD" "n \<noteq> psize x" "sb_size sb < n" using need assms(3) x(7) by (auto simp: n_def)
    obtain b where b: "re p a = Some b" "b = a \<or> pheap p b = None" using assms(2) by (auto simp: realloc_ok_def)
    obtain p' y where r: "ks_pool_resize (Some b) junk p a n = Some (b, p')" "pool_inv p'"
      "pheap p' = (pheap p)(a := None, b \<mapsto> y)" "psize y = n" "prefs y = 1"
      "take (min n (psize x)) (pdata y) = take (min n (psize x)) (pdata x)"
      using ks_pool_resize_ok [OF x(1,5,6) b(2) n(1-3), of junk] by blast
    have sz: "size_sub (length t + 1 + len) (sb_size sb) = length t + 1 + len - sb_size sb" using False by (simp add: size_simps)
    have nd: "(if length t + 1 + len - sb_size sb < KS_PRINT_BUF_SIZE then KS_PRINT_BUF_SIZE else length t + 1 + len - sb_size sb) = need"
      by (simp add: need_def KS_PRINT_BUF_SIZE_def)
    have ns: "size_add (sb_size sb) need = n" using n(2) by (simp add: n_def size_simps)
    have "len \<noteq> 0" using False x(7,8) by auto
    then have "ks_sb_accommodate re junk at sb p len = Some (KS_STATUS_SUCCESS, sb\<lparr>sb_size := n, sb_data := Some b\<rparr>, p')"
      unfolding ks_sb_accommodate_def ad Let_def sz nd ns using False x(2) b(1) r(1) by simp
    moreover have "take (length t + 1) (pdata y) = t @ [0]"
    proof -
      have "take (length t + 1) (take (min n (psize x)) (pdata y)) = take (length t + 1) (take (min n (psize x)) (pdata x))"
        using r(6) by simp
      moreover have "min (length t + 1) (min n (psize x)) = length t + 1" using x(7,8) n(4) by simp
      ultimately show ?thesis using x(9) by (simp only: take_take)
    qed
    then have "sb_holds p' (sb\<lparr>sb_size := n, sb_data := Some b\<rparr>) b t"
      using r x n by (auto simp: sb_holds_def)
    moreover have "\<forall>c. c \<noteq> a \<longrightarrow> c \<noteq> b \<longrightarrow> pheap p' c = pheap p c" using r(3) by auto
    moreover have "n \<le> sb_size sb + len + 350" using need(2) by (simp add: n_def)
    ultimately show ?thesis using need(3) b(2) by force
  qed
qed

lemma append_ex_ok:
  assumes "sb_holds p sb a t" "realloc_ok re" "sb_size sb + length u + 350 + 98 < SIZE_MOD" "0 \<notin> set u"
    and "take (length u) s = u" "length u < length s" "s ! length u = 0"
  shows "\<exists>sb' p' a'. ks_sb_append_ex re junk at sb p (Some s) (length u) = Some (KS_STATUS_SUCCESS, sb', p') \<and>
    sb_holds p' sb' a' (t @ u) \<and> sb_size sb' \<le> sb_size sb + length u + 350 \<and>
    (a' = a \<or> pheap p a' = None) \<and> (\<forall>b. b \<noteq> a \<longrightarrow> b \<noteq> a' \<longrightarrow> pheap p' b = pheap p b)"
proof (cases "u = []")
  case True
  with assms(1) show ?thesis by (auto simp: ks_sb_append_ex_def)
next
  case False
  obtain sb1 p1 a1 where 1: "ks_sb_accommodate re junk at sb p (length u) = Some (KS_STATUS_SUCCESS, sb1, p1)"
    "sb_holds p1 sb1 a1 t" "length t + 1 + length u \<le> sb_size sb1" "sb_size sb1 \<le> sb_size sb + length u + 350"
    "a1 = a \<or> pheap p a1 = None" "\<forall>b. b \<noteq> a \<longrightarrow> b \<noteq> a1 \<longrightarrow> pheap p1 b = pheap p b"
    using accommodate_ok [OF assms(1-3)] by blast
  obtain x where x: "pool_inv p1" "sb_data sb1 = Some a1" "0 \<notin> set t" "sb_used sb1 = length t + 1" "pheap p1 a1 = Some x"
    "prefs x = 1" "psize x = sb_size sb1" "length t < psize x" "take (length t + 1) (pdata x) = t @ [0]"
    using 1(2) by (auto simp: sb_holds_def)
  have su: "mem_sub s 0 (length u + 1) = Some (u @ [0])"
    using assms(5-7) by (simp add: mem_sub_def take_Suc_conv_app_nth)
  obtain q y where q: "pool_store p1 a1 (length t) (u @ [0]) = Some q" "pool_inv q" "pheap q = (pheap p1)(a1 \<mapsto> y)" "psize y = psize x"
    "prefs y = prefs x" "take (length t + length (u @ [0])) (pdata y) = take (length t) (pdata x) @ u @ [0]"
    using store_inv [OF x(1,5), of "length t" "u @ [0]"] 1(3) x(7) by auto
  have "take (length t) (take (length t + 1) (pdata x)) = t" using x(9) by simp
  then have tt: "take (length t) (pdata x) = t" by (simp add: min_def)
  have sm: "size_add (length u) 1 = length u + 1" "size_sub (length t + 1) 1 = length t" "size_add (length t + 1) (length u) = length t + 1 + length u"
    using assms(3) 1(3,4) by (simp_all add: size_simps)
  have "ks_sb_append_ex re junk at sb p (Some s) (length u) = Some (KS_STATUS_SUCCESS, sb1\<lparr>sb_used := length t + 1 + length u\<rparr>, q)"
    using False 1(1) x(2,4) su q(1) sm by (simp add: ks_sb_append_ex_def)
  moreover have "sb_holds q (sb1\<lparr>sb_used := length t + 1 + length u\<rparr>) a1 (t @ u)"
    using q x 1(3) assms(4) tt by (auto simp: sb_holds_def add.assoc)
  moreover have "\<forall>b. b \<noteq> a \<longrightarrow> b \<noteq> a1 \<longrightarrow> pheap q b = pheap p b" using q(3) 1(6) by auto
  ultimately show ?thesis using 1(4,5) by force
qed

text \<open>A sequence of appends.\<close>

fun sb_appends ::
  "(ks_pool \<Rightarrow> nat \<Rightarrow> nat option) \<Rightarrow> (nat \<Rightarrow> byte) \<Rightarrow> ks_sb \<Rightarrow> ks_pool \<Rightarrow> mem list \<Rightarrow> (ks_sb \<times> ks_pool) option" where
  "sb_appends re junk sb p [] = Some (sb, p)"
| "sb_appends re junk sb p (s # ss) =
     do { (r, sb, p) \<leftarrow> ks_sb_append re junk None sb p (Some s);
          if r = KS_STATUS_SUCCESS then sb_appends re junk sb p ss else None }"

lemma appends_ok:
  assumes "list_all2 (\<lambda>s u. c_str s = Some u) ss us" "sb_holds p sb a t" "realloc_ok re"
    and "sb_size sb + length (concat us) + 350 * length us + 98 < SIZE_MOD"
  shows "\<exists>sb' p' a'. sb_appends re junk sb p ss = Some (sb', p') \<and> sb_holds p' sb' a' (t @ concat us) \<and>
    (a' = a \<or> pheap p a' = None) \<and> (\<forall>b. b \<noteq> a \<longrightarrow> pheap p b \<noteq> None \<longrightarrow> pheap p' b = pheap p b)"
  using assms
proof (induction ss us arbitrary: p sb a t rule: list_all2_induct)
  case Nil
  then show ?case by auto
next
  case (Cons s ss u us)
  obtain r where r: "0 \<notin> set u" "s = u @ 0 # r" using c_str_no_nul [OF Cons.hyps(1)] by blast
  have sz: "sb_size sb + length u + 350 + 98 < SIZE_MOD" using Cons.prems(3) by simp
  obtain sb1 p1 a1 where 1: "ks_sb_append_ex re junk None sb p (Some s) (length u) = Some (KS_STATUS_SUCCESS, sb1, p1)"
    "sb_holds p1 sb1 a1 (t @ u)" "sb_size sb1 \<le> sb_size sb + length u + 350" "a1 = a \<or> pheap p a1 = None"
    "\<forall>b. b \<noteq> a \<longrightarrow> b \<noteq> a1 \<longrightarrow> pheap p1 b = pheap p b"
    using append_ex_ok [OF Cons.prems(1,2) sz r(1), of s junk None] r(2) by auto
  have ap: "ks_sb_append re junk None sb p (Some s) = Some (KS_STATUS_SUCCESS, sb1, p1)"
    using Cons.hyps(1) 1(1) by (simp add: ks_sb_append_def)
  obtain sb2 p2 a2 where 2: "sb_appends re junk sb1 p1 ss = Some (sb2, p2)" "sb_holds p2 sb2 a2 ((t @ u) @ concat us)"
    "a2 = a1 \<or> pheap p1 a2 = None" "\<forall>b. b \<noteq> a1 \<longrightarrow> pheap p1 b \<noteq> None \<longrightarrow> pheap p2 b = pheap p1 b"
    using Cons.IH [OF 1(2) Cons.prems(2)] 1(3) Cons.prems(3) by fastforce
  have "a2 = a \<or> pheap p a2 = None"
    using 2(3) 1(4,5) by metis
  moreover have "\<forall>b. b \<noteq> a \<longrightarrow> pheap p b \<noteq> None \<longrightarrow> pheap p2 b = pheap p b"
    using 2(4) 1(4,5) by metis
  ultimately show ?case using ap 2(1,2) by auto
qed

lemma sb_holds_str: "sb_holds p sb a t \<Longrightarrow> pool_str p a = Some t \<and> ks_sb_length sb = length t \<and> ks_sb_cstr sb = Some a"
proof -
  assume "sb_holds p sb a t"
  then obtain x where x: "sb_data sb = Some a" "0 \<notin> set t" "sb_used sb = length t + 1" "pheap p a = Some x"
    "length t < psize x" "take (length t + 1) (pdata x) = t @ [0]"
    by (auto simp: sb_holds_def)
  have "take (psize x) (pdata x) = take (length t + 1) (pdata x) @ drop (length t + 1) (take (psize x) (pdata x))"
    using append_take_drop_id [of "length t + 1" "take (psize x) (pdata x)"] x(5) by (simp add: min_def)
  then have e: "take (psize x) (pdata x) = t @ 0 # drop (length t + 1) (take (psize x) (pdata x))" using x(6) by simp
  have "c_str (take (psize x) (pdata x)) = Some t" by (subst e) (rule c_str_append [OF x(2)])
  then show ?thesis using x by (simp add: pool_str_def ks_sb_length_def ks_sb_cstr_def size_simps)
qed


lemma sb_create_ok:
  assumes "pool_inv p" "pheap p a1 = None" "pheap p a2 = None" "a1 \<noteq> a2" "n + 98 < SIZE_MOD" "0 < n" "alloc_c p + 2 < SIZE_MOD"
  shows "\<exists>sb p'. ks_sb_create (Some a1) (Some a2) own p n = Some (KS_STATUS_SUCCESS, a1, sb, p') \<and> sb_holds p' sb a2 [] \<and>
    sb_size sb = n \<and> (\<forall>b. b \<noteq> a1 \<longrightarrow> b \<noteq> a2 \<longrightarrow> pheap p' b = pheap p b) \<and> pheap p' a1 \<noteq> None"
proof -
  have s32: "(0::nat) < 32" "32 + 98 < SIZE_MOD" "alloc_c p + 1 < SIZE_MOD" using assms(7) by (simp_all add: SIZE_MOD_def)
  obtain p1 where 1: "ks_pool_alloc (Some a1) p 32 = Some (a1, p1)" "pool_inv p1"
    "pheap p1 = (pheap p)(a1 \<mapsto> pool_block 32 (replicate 32 0 @ [KS_POOL_FENCE_MAGIC0, KS_POOL_FENCE_MAGIC1]))" "alloc_c p1 = alloc_c p + 1"
    using ks_pool_alloc_ok [OF assms(1,2) s32] by blast
  have f2: "pheap p1 a2 = None" "alloc_c p1 + 1 < SIZE_MOD" using 1(3,4) assms(3,4,7) by auto
  obtain p2 where 2: "ks_pool_alloc (Some a2) p1 n = Some (a2, p2)" "pool_inv p2"
    "pheap p2 = (pheap p1)(a2 \<mapsto> pool_block n (replicate n 0 @ [KS_POOL_FENCE_MAGIC0, KS_POOL_FENCE_MAGIC1]))"
    using ks_pool_alloc_ok [OF 1(2) f2(1) assms(6,5) f2(2)] by blast
  have x1: "pheap p2 a1 = Some (pool_block 32 (replicate 32 0 @ [KS_POOL_FENCE_MAGIC0, KS_POOL_FENCE_MAGIC1]))"
    using 1(3) 2(3) assms(4) by simp
  define y where "y = (pool_block 32 (replicate 32 0 @ [KS_POOL_FENCE_MAGIC0, KS_POOL_FENCE_MAGIC1]))\<lparr>cleanup_arg := 0, cleanup_callback := Some 9\<rparr>"
  have c: "ks_pool_set_cleanup p2 a1 0 9 = Some (KS_STATUS_SUCCESS, put_prefix a1 y p2)"
    using get_prefix_ok [OF 2(2) x1] by (simp add: ks_pool_set_cleanup_def y_def)
  have "block_ok (pool_block 32 (replicate 32 0 @ [KS_POOL_FENCE_MAGIC0, KS_POOL_FENCE_MAGIC1]))"
    using 2(2) x1 by (auto simp: pool_inv_def)
  then have "block_ok y" by (simp add: block_ok_def y_def CHECK_PREFIX_def)
  moreover have "\<forall>b z. pheap p2 b = Some z \<longrightarrow> block_ok z" using 2(2) by (auto simp: pool_inv_def)
  ultimately have inv: "pool_inv (put_prefix a1 y p2)" by (intro pool_inv_same [OF 2(2)]) (use x1 in auto)
  define sb where "sb = \<lparr>sb_pool_owner = own, sb_data = Some a2, sb_size = n, sb_used = 1\<rparr>"
  have "ks_sb_create (Some a1) (Some a2) own p n = Some (KS_STATUS_SUCCESS, a1, sb, put_prefix a1 y p2)"
    using 1(1) 2(1) c assms(6) by (simp add: ks_sb_create_def sb_def)
  moreover have "sb_holds (put_prefix a1 y p2) sb a2 []"
    using inv 2(3) assms(4,6) by (auto simp: sb_holds_def sb_def pool_block_def)
  moreover have "\<forall>b. b \<noteq> a1 \<longrightarrow> b \<noteq> a2 \<longrightarrow> pheap (put_prefix a1 y p2) b = pheap p b" using 1(3) 2(3) by simp
  ultimately show ?thesis by (auto simp: sb_def)
qed

section \<open>Properties\<close>

text \<open>
  C34: A string builder made in a pool and given any strings holds, through all its reallocations, their
  concatenation: as a C string at the address \<open>ks_sb_cstr\<close> returns, with the length \<open>ks_sb_length\<close> returns,
  while every other block of the pool keeps its contents.\<close>

theorem ks_sb_concat:
  assumes "pool_inv p" "pheap p a1 = None" "pheap p a2 = None" "a1 \<noteq> a2" "0 < n" "alloc_c p + 2 < SIZE_MOD"
    and "list_all2 (\<lambda>s u. c_str s = Some u) ss us" "realloc_ok re"
    and "n + length (concat us) + 350 * length us + 98 < SIZE_MOD"
  shows "\<exists>sb p1 sb' p' a. ks_sb_create (Some a1) (Some a2) own p n = Some (KS_STATUS_SUCCESS, a1, sb, p1) \<and>
    sb_appends re junk sb p1 ss = Some (sb', p') \<and> ks_sb_cstr sb' = Some a \<and> pool_str p' a = Some (concat us) \<and>
    ks_sb_length sb' = length (concat us) \<and> pool_inv p' \<and>
    (\<forall>b. pheap p b \<noteq> None \<longrightarrow> pheap p' b = pheap p b)"
proof -
  have sz: "n + 98 < SIZE_MOD" using assms(9) by simp
  obtain sb p1 where 1: "ks_sb_create (Some a1) (Some a2) own p n = Some (KS_STATUS_SUCCESS, a1, sb, p1)"
    "sb_holds p1 sb a2 []" "sb_size sb = n" "\<forall>b. b \<noteq> a1 \<longrightarrow> b \<noteq> a2 \<longrightarrow> pheap p1 b = pheap p b"
    using sb_create_ok [OF assms(1-4) sz assms(5,6), of own] by blast
  obtain sb' p' a' where 2: "sb_appends re junk sb p1 ss = Some (sb', p')" "sb_holds p' sb' a' ([] @ concat us)"
    "\<forall>b. b \<noteq> a2 \<longrightarrow> pheap p1 b \<noteq> None \<longrightarrow> pheap p' b = pheap p1 b"
    using appends_ok [OF assms(7) 1(2) assms(8)] 1(3) assms(9) by blast
  have "\<forall>b. pheap p b \<noteq> None \<longrightarrow> pheap p' b = pheap p b" using 1(4) 2(3) assms(2,3) by metis
  moreover have "pool_inv p'" using 2(2) by (simp add: sb_holds_def)
  ultimately show ?thesis using 1(1) 2(1) sb_holds_str [OF 2(2)] by auto
qed

theorem ks_sb_concat_witness:
  "\<exists>sb p1 sb' p' a. ks_sb_create (Some 200) (Some 300) False demo_pool 4 = Some (KS_STATUS_SUCCESS, 200, sb, p1) \<and>
    sb_appends (\<lambda>_ a. Some a) (\<lambda>_. 7) sb p1 [[104, 101, 108, 0], [108, 111, 0, 9]] = Some (sb', p') \<and>
    ks_sb_cstr sb' = Some a \<and> pool_str p' a = Some [104, 101, 108, 108, 111] \<and> ks_sb_length sb' = 5"
proof -
  let ?us = "[[104, 101, 108], [108, 111]] :: mem list"
  have "\<exists>sb p1 sb' p' a. ks_sb_create (Some 200) (Some 300) False demo_pool 4 = Some (KS_STATUS_SUCCESS, 200, sb, p1) \<and>
    sb_appends (\<lambda>_ a. Some a) (\<lambda>_. 7) sb p1 [[104, 101, 108, 0], [108, 111, 0, 9]] = Some (sb', p') \<and> ks_sb_cstr sb' = Some a \<and>
    pool_str p' a = Some (concat ?us) \<and> ks_sb_length sb' = length (concat ?us) \<and> pool_inv p' \<and>
    (\<forall>b. pheap demo_pool b \<noteq> None \<longrightarrow> pheap p' b = pheap demo_pool b)"
    by (rule ks_sb_concat) (use demo_pool_ok in \<open>simp_all add: realloc_ok_def SIZE_MOD_def\<close>)
  then show ?thesis by auto
qed

text \<open>
  A piece of a longer string leaves the builder without its NUL: the byte behind the piece was copied in
  its place, and a block that ends there has no NUL at all.
\<close>

lemma ks_sb_append_ex_no_nul:
  assumes "sb_holds p sb a t" "pheap p a = Some x" "psize x = length t + 3" "c \<noteq> 0" "d \<noteq> 0" "e \<noteq> 0"
    "length t + 450 < SIZE_MOD"
  shows "\<exists>sb' p'. ks_sb_append_ex re junk at sb p (Some [c, d, e]) 2 = Some (KS_STATUS_SUCCESS, sb', p') \<and>
     ks_sb_length sb' = length t + 2 \<and> pool_str p' a = None"
proof -
  obtain x' where x': "pool_inv p" "sb_data sb = Some a" "0 \<notin> set t" "sb_used sb = length t + 1" "pheap p a = Some x'"
    "psize x' = sb_size sb" "take (length t + 1) (pdata x') = t @ [0]"
    using assms(1) by (auto simp: sb_holds_def)
  then have [simp]: "x' = x" using assms(2) by simp
  have ac: "ks_sb_accommodate re junk at sb p 2 = Some (KS_STATUS_SUCCESS, sb, p)"
    using x' assms(3,7) by (simp add: ks_sb_accommodate_def size_simps)
  obtain q y where q: "pool_store p a (length t) [c, d, e] = Some q" "pheap q = (pheap p)(a \<mapsto> y)" "psize y = psize x"
    "take (length t + length [c, d, e]) (pdata y) = take (length t) (pdata x) @ [c, d, e]"
    using store_inv [OF x'(1) assms(2), of "length t" "[c, d, e]"] assms(3) by auto
  have "take (length t) (take (length t + 1) (pdata x)) = t" using x'(7) by simp
  then have "take (length t) (pdata x) = t" by (simp add: min_def)
  then have "take (psize y) (pdata y) = t @ [c, d, e]" using q(3,4) assms(3) by (simp add: eval_nat_numeral)
  moreover have "c_str m = None" if "0 \<notin> set m" for m using that by (induction m) auto
  ultimately have "pool_str q a = None" using q(2) x'(3) assms(4-6) by (simp add: pool_str_def)
  moreover have "ks_sb_append_ex re junk at sb p (Some [c, d, e]) 2 = Some (KS_STATUS_SUCCESS, sb\<lparr>sb_used := length t + 3\<rparr>, q)"
    using ac x'(2,4) q(1) assms(7) by (simp add: ks_sb_append_ex_def mem_sub_def size_simps)
  ultimately show ?thesis by (simp add: ks_sb_length_def size_simps)
qed

end
