(* ===== verification/Ks_Json_Check.thy ===== *)
theory Ks_Json_Check
  imports Complex_Main Ks_Acl
begin

text \<open>
  \<open>ks_json_check.c\<close> and the type tests of \<open>ks_json.c\<close> it uses. A JSON item is the structure of cJSON with its
  children in a list; NULL is \<^const>\<open>None\<close>. C strings are the bytes before the NUL. The parser of UUIDs is an
  argument; the check of decimal strings, which calls \<open>atof\<close>, is left out.
\<close>

section \<open>Items\<close>

datatype ks_json = Json (jtype: nat) (jname: "mem option") (jvaluestring: "mem option") (jvalueint: int)
  (jvaluedouble: rat) (jchildren: "ks_json list")

definition KS_JSON_TYPE_INVALID :: nat where "KS_JSON_TYPE_INVALID = 0"
definition KS_JSON_TYPE_NULL :: nat where "KS_JSON_TYPE_NULL = 4"
definition KS_JSON_TYPE_NUMBER :: nat where "KS_JSON_TYPE_NUMBER = 8"
definition KS_JSON_TYPE_STRING :: nat where "KS_JSON_TYPE_STRING = 16"
definition KS_JSON_TYPE_ARRAY :: nat where "KS_JSON_TYPE_ARRAY = 32"
definition KS_JSON_TYPE_OBJECT :: nat where "KS_JSON_TYPE_OBJECT = 64"

definition ks_json_type_get :: "ks_json option \<Rightarrow> nat" where
  "ks_json_type_get item = (case item of None \<Rightarrow> KS_JSON_TYPE_INVALID | Some i \<Rightarrow> jtype i)"

definition ks_json_type_is :: "ks_json option \<Rightarrow> nat \<Rightarrow> bool" where
  "ks_json_type_is item t = (ks_json_type_get item = t)"

definition ks_json_type_is_array :: "ks_json option \<Rightarrow> bool" where
  "ks_json_type_is_array item = ks_json_type_is item KS_JSON_TYPE_ARRAY"

definition ks_json_type_is_string :: "ks_json option \<Rightarrow> bool" where
  "ks_json_type_is_string item = ks_json_type_is item KS_JSON_TYPE_STRING"

definition ks_json_type_is_number :: "ks_json option \<Rightarrow> bool" where
  "ks_json_type_is_number item = ks_json_type_is item KS_JSON_TYPE_NUMBER"

definition ks_json_type_is_null :: "ks_json option \<Rightarrow> bool" where
  "ks_json_type_is_null item = ks_json_type_is item KS_JSON_TYPE_NULL"

definition ks_json_type_is_object :: "ks_json option \<Rightarrow> bool" where
  "ks_json_type_is_object item = ks_json_type_is item KS_JSON_TYPE_OBJECT"

definition ks_json_enum_child :: "ks_json option \<Rightarrow> ks_json list" where
  "ks_json_enum_child item = (case item of None \<Rightarrow> [] | Some i \<Rightarrow> jchildren i)"

text \<open>Fields of an item that passed a type test; a string item always has its \<open>valuestring\<close>.\<close>

definition zstr :: "mem option \<Rightarrow> bool" where
  "zstr s = (case s of None \<Rightarrow> True | Some t \<Rightarrow> t = [])"

definition str_of :: "ks_json option \<Rightarrow> mem" where
  "str_of item = (case item of None \<Rightarrow> [] | Some i \<Rightarrow> (case jvaluestring i of None \<Rightarrow> [] | Some s \<Rightarrow> s))"

definition int_of :: "ks_json option \<Rightarrow> int" where
  "int_of item = (case item of None \<Rightarrow> 0 | Some i \<Rightarrow> jvalueint i)"

definition double_of :: "ks_json option \<Rightarrow> rat" where
  "double_of item = (case item of None \<Rightarrow> 0 | Some i \<Rightarrow> jvaluedouble i)"

section \<open>Numbers\<close>

definition ks_is_number :: "mem \<Rightarrow> bool" where
  "ks_is_number str =
     (let s = (case str of [] \<Rightarrow> [] | c # r \<Rightarrow> if c = 45 \<or> c = 43 then r else str)
      in list_all (\<lambda>c. c = 46 \<or> 47 < c \<and> c < 58) s)"

definition ks_json_check_string_is_not_negative :: "ks_json option \<Rightarrow> bool" where
  "ks_json_check_string_is_not_negative item =
     (ks_json_type_is_string item \<and> ks_is_number (str_of item) \<and> 0 \<le> atoi (str_of item))"

definition ks_json_check_string_is_positive :: "ks_json option \<Rightarrow> bool" where
  "ks_json_check_string_is_positive item =
     (ks_json_type_is_string item \<and> ks_is_number (str_of item) \<and> 0 < atoi (str_of item))"

definition ks_json_check_string_is_positive_or_neg_one :: "ks_json option \<Rightarrow> bool" where
  "ks_json_check_string_is_positive_or_neg_one item =
     (ks_json_type_is_string item \<and> ks_is_number (str_of item) \<and> (0 < atoi (str_of item) \<or> atoi (str_of item) = -1))"

definition ks_json_check_number_is_not_negative :: "ks_json option \<Rightarrow> bool" where
  "ks_json_check_number_is_not_negative item = (ks_json_type_is_number item \<and> 0 \<le> int_of item)"

definition ks_json_check_number_is_positive :: "ks_json option \<Rightarrow> bool" where
  "ks_json_check_number_is_positive item = (ks_json_type_is_number item \<and> 0 < int_of item)"

definition ks_json_check_number_is_positive_or_neg_one :: "ks_json option \<Rightarrow> bool" where
  "ks_json_check_number_is_positive_or_neg_one item = (ks_json_type_is_number item \<and> (0 < int_of item \<or> int_of item = -1))"

definition ks_json_check_number_is_decimal_between_zero_and_one :: "ks_json option \<Rightarrow> bool" where
  "ks_json_check_number_is_decimal_between_zero_and_one item =
     (ks_json_type_is_number item \<and> 0 < double_of item \<and> int_of item \<le> 1)"

definition ks_json_check_number_is_8_bit_unsigned :: "ks_json option \<Rightarrow> bool" where
  "ks_json_check_number_is_8_bit_unsigned item = (ks_json_type_is_number item \<and> 0 \<le> int_of item \<and> int_of item \<le> 255)"

definition ks_json_check_number_is_16_bit_unsigned :: "ks_json option \<Rightarrow> bool" where
  "ks_json_check_number_is_16_bit_unsigned item = (ks_json_type_is_number item \<and> 0 \<le> int_of item \<and> int_of item \<le> 65535)"

definition ks_json_check_number_is_ip_port :: "ks_json option \<Rightarrow> bool" where
  "ks_json_check_number_is_ip_port item = (ks_json_type_is_number item \<and> 1 \<le> int_of item \<and> int_of item \<le> 65535)"

section \<open>Strings\<close>

definition ks_json_check_string_is_any_or_empty :: "ks_json option \<Rightarrow> bool" where
  "ks_json_check_string_is_any_or_empty item = ks_json_type_is_string item"

definition ks_json_check_string_is_any :: "ks_json option \<Rightarrow> bool" where
  "ks_json_check_string_is_any item = (ks_json_type_is_string item \<and> str_of item \<noteq> [])"

definition ks_json_check_string_is_any_nullable :: "ks_json option \<Rightarrow> bool" where
  "ks_json_check_string_is_any_nullable item = (ks_json_type_is_null item \<or> ks_json_type_is_string item)"

definition ks_json_check_string_starts_with_insensitive :: "ks_json option \<Rightarrow> mem option \<Rightarrow> bool" where
  "ks_json_check_string_starts_with_insensitive item mt =
     (if \<not> ks_json_type_is_string item \<or> str_of item = [] \<or> zstr mt then False
      else case mt of None \<Rightarrow> False
      | Some m \<Rightarrow> length m \<le> length (str_of item) \<and>
          map tolower_byte (take (length m) (str_of item)) = map tolower_byte m)"

definition ks_json_check_string_starts_with :: "ks_json option \<Rightarrow> mem option \<Rightarrow> bool" where
  "ks_json_check_string_starts_with item mt =
     (if \<not> ks_json_type_is_string item \<or> str_of item = [] \<or> zstr mt then False
      else case mt of None \<Rightarrow> False
      | Some m \<Rightarrow> length m \<le> length (str_of item) \<and> take (length m) (str_of item) = m)"

definition ks_json_check_string_ends_with :: "ks_json option \<Rightarrow> mem option \<Rightarrow> bool" where
  "ks_json_check_string_ends_with item mt =
     (if \<not> ks_json_type_is_string item \<or> str_of item = [] \<or> zstr mt then False
      else case mt of None \<Rightarrow> False
      | Some m \<Rightarrow> length m \<le> length (str_of item) \<and> drop (length (str_of item) - length m) (str_of item) = m)"

definition is_dtmf_digit :: "byte \<Rightarrow> bool" where
  "is_dtmf_digit d = (d \<in> {48, 49, 50, 51, 52, 53, 54, 55, 56, 57, 65, 97, 66, 98, 67, 99, 68, 100, 42, 35})"

definition ks_json_check_string_is_dtmf_digit :: "ks_json option \<Rightarrow> bool" where
  "ks_json_check_string_is_dtmf_digit item =
     (ks_json_type_is_string item \<and> str_of item \<noteq> [] \<and> length (str_of item) = 1 \<and> is_dtmf_digit (str_of item ! 0))"

definition ks_json_check_string_is_dtmf_digits :: "ks_json option \<Rightarrow> bool" where
  "ks_json_check_string_is_dtmf_digits item =
     (if \<not> ks_json_type_is_string item \<or> str_of item = [] then False else list_all is_dtmf_digit (str_of item))"

definition ks_json_check_string_is_uuid :: "(mem \<Rightarrow> bool) \<Rightarrow> ks_json option \<Rightarrow> bool" where
  "ks_json_check_string_is_uuid uuid_parse item =
     (if \<not> ks_json_type_is_string item \<or> str_of item = [] \<or> length (str_of item) \<noteq> 36 then False
      else uuid_parse (str_of item))"

definition ks_json_check_string_is_e164 :: "ks_json option \<Rightarrow> bool" where
  "ks_json_check_string_is_e164 item =
     (ks_json_type_is_string item \<and> str_of item \<noteq> [] \<and> 4 < length (str_of item) \<and> length (str_of item) < 20 \<and>
      str_of item ! 0 = 43 \<and> ks_is_number (str_of item) \<and> 46 \<notin> set (drop 1 (str_of item)))"

definition c_text :: "string \<Rightarrow> mem option" where
  "c_text s = Some (map of_char s)"

definition ks_json_check_string_is_https :: "ks_json option \<Rightarrow> bool" where
  "ks_json_check_string_is_https item = ks_json_check_string_starts_with_insensitive item (c_text ''https://'')"

definition ks_json_check_string_is_http :: "ks_json option \<Rightarrow> bool" where
  "ks_json_check_string_is_http item = ks_json_check_string_starts_with_insensitive item (c_text ''http://'')"

definition ks_json_check_string_is_http_or_https :: "ks_json option \<Rightarrow> bool" where
  "ks_json_check_string_is_http_or_https item = (ks_json_check_string_is_http item \<or> ks_json_check_string_is_https item)"

definition ks_json_check_string_is_ws_uri :: "ks_json option \<Rightarrow> bool" where
  "ks_json_check_string_is_ws_uri item = ks_json_check_string_starts_with_insensitive item (c_text ''ws://'')"

definition ks_json_check_string_is_wss_uri :: "ks_json option \<Rightarrow> bool" where
  "ks_json_check_string_is_wss_uri item = ks_json_check_string_starts_with_insensitive item (c_text ''wss://'')"

definition ks_json_check_string_is_ws_or_wss_uri :: "ks_json option \<Rightarrow> bool" where
  "ks_json_check_string_is_ws_or_wss_uri item = (ks_json_check_string_is_ws_uri item \<or> ks_json_check_string_is_wss_uri item)"

section \<open>Lists of words\<close>

text \<open>
  \<open>string_matches\<close>: \<open>begin == rule\<close> compares with the rule of this call, which after the first call is the
  text behind the last hit.
\<close>

function string_matches :: "mem \<Rightarrow> mem \<Rightarrow> bool" where
  "string_matches value rule =
     (if rule \<noteq> [] \<and> value \<noteq> [] \<and> 44 \<notin> set value then
        (case strstr_at rule value 0 of None \<Rightarrow> False
         | Some b \<Rightarrow>
             let e = b + length value in
             if (b = 0 \<or> rule ! (b - 1) = 44) \<and> (e = length rule \<or> rule ! e = 44) then True
             else string_matches value (drop e rule))
      else False)"
  by pat_completeness auto
termination by (relation "measure (\<lambda>(_, r). length r)") auto

declare string_matches.simps [simp del]

definition ks_json_check_string_matches :: "ks_json option \<Rightarrow> mem \<Rightarrow> bool" where
  "ks_json_check_string_matches item rule =
     (if \<not> ks_json_type_is_string item \<or> str_of item = [] then False else string_matches (str_of item) rule)"

section \<open>Objects and arrays\<close>

definition ks_json_check_object :: "ks_json option \<Rightarrow> mem option \<Rightarrow> bool" where
  "ks_json_check_object json item_names =
     (if \<not> ks_json_type_is_object json then False
      else if zstr item_names then True
      else list_all (\<lambda>i. \<not> zstr (jname i) \<and> string_matches (the (jname i)) (the item_names)) (ks_json_enum_child json))"

text \<open>The check function gives its result and the message; the first failure ends the loop.\<close>

fun array_items_loop :: "(ks_json \<Rightarrow> bool \<times> mem option) \<Rightarrow> mem option \<Rightarrow> ks_json list \<Rightarrow> bool \<times> mem option" where
  "array_items_loop check msg [] = (True, msg)"
| "array_items_loop check msg (i # is) =
     (let (ok, msg') = check i; msg = (if msg' = None then msg else msg')
      in if ok then array_items_loop check msg is else (False, msg))"

definition ks_json_check_array_items ::
  "ks_json option \<Rightarrow> (ks_json \<Rightarrow> bool \<times> mem option) \<Rightarrow> mem option \<Rightarrow> bool \<times> mem option" where
  "ks_json_check_array_items json check msg =
     (if \<not> ks_json_type_is_array json then (False, msg) else array_items_loop check msg (ks_json_enum_child json))"

definition ks_json_check_string_array :: "ks_json option \<Rightarrow> (ks_json \<Rightarrow> bool) \<Rightarrow> bool" where
  "ks_json_check_string_array json check =
     (if \<not> ks_json_type_is_array json then False else list_all check (ks_json_enum_child json))"

definition ks_json_check_is_any :: "ks_json option \<Rightarrow> bool" where
  "ks_json_check_is_any item = True"

definition ks_json_check_is_array :: "ks_json option \<Rightarrow> bool" where
  "ks_json_check_is_array item = ks_json_type_is_array item"

section \<open>The entries of a rule\<close>

fun rule_entries :: "mem \<Rightarrow> mem list" where
  "rule_entries [] = [[]]"
| "rule_entries (c # cs) = (if c = 44 then [] # rule_entries cs else (c # hd (rule_entries cs)) # tl (rule_entries cs))"

lemma fields_not_Nil [simp]: "rule_entries s \<noteq> []"
  by (cases s) simp_all

lemma fields_append: "rule_entries (p @ s) = butlast (rule_entries p) @ (last (rule_entries p) @ hd (rule_entries s)) # tl (rule_entries s)"
proof (induction p)
  case (Cons c p)
  obtain g gs where "rule_entries p = g # gs" by (cases "rule_entries p") auto
  with Cons.IH show ?case by (cases gs) auto
qed simp

lemma fields_plain: "44 \<notin> set v \<Longrightarrow> rule_entries v = [v]"
  by (induction v) auto

lemma fields_around:
  "44 \<notin> set v \<Longrightarrow> rule_entries (p @ v @ s) = butlast (rule_entries p) @ (last (rule_entries p) @ v @ hd (rule_entries s)) # tl (rule_entries s)"
  by (simp add: fields_append fields_plain)

lemma hd_fields: "hd (rule_entries s) = [] \<longleftrightarrow> s = [] \<or> s ! 0 = 44"
  by (cases s) auto

lemma last_fields: "last (rule_entries p) = [] \<longleftrightarrow> p = [] \<or> p ! (length p - 1) = 44"
proof (cases p rule: rev_cases)
  case (snoc q c)
  have "rule_entries [c] = (if c = 44 then [[], []] else [[c]])" by simp
  then have "last (rule_entries (q @ [c])) = [] \<longleftrightarrow> c = 44" by (simp add: fields_append)
  with snoc show ?thesis by simp
qed simp

lemma field_inside: "f \<in> set (rule_entries p) \<Longrightarrow> \<exists>x y. p = x @ f @ y"
proof (induction p arbitrary: f)
  case (Cons c p)
  obtain g gs where g: "rule_entries p = g # gs" by (cases "rule_entries p") auto
  show ?case
  proof (cases "c = 44")
    case True
    with Cons.prems have "f = [] \<or> f \<in> set (rule_entries p)" by auto
    with Cons.IH show ?thesis by (metis append_Cons append_Nil)
  next
    case False
    with Cons.prems g have "f = c # g \<or> f \<in> set gs" by auto
    moreover have "\<exists>y. p = g @ y"
    proof -
      have "44 \<notin> set (takeWhile (\<lambda>c. c \<noteq> 44) p)" by (metis set_takeWhileD)
      then have "hd (rule_entries p) = takeWhile (\<lambda>c. c \<noteq> 44) p"
        by (induction p) auto
      then show ?thesis using g takeWhile_dropWhile_id [of "\<lambda>c. c \<noteq> 44" p] by (metis list.sel(1))
    qed
    ultimately show ?thesis using Cons.IH [of f] g by (metis append_Cons append_Nil list.set_intros(2))
  qed
qed simp


lemma strstr_at_None: "strstr_at s d i = None \<Longrightarrow> s = x @ d @ y \<Longrightarrow> length x < i"
proof (induction s d i rule: strstr_at.induct)
  case (1 s d i)
  show ?case
  proof (cases "length s < i + length d")
    case True
    with "1.prems"(2) show ?thesis by simp
  next
    case False
    then have n: "take (length d) (drop i s) \<noteq> d" "strstr_at s d (i + 1) = None"
      using "1.prems"(1) by (auto simp: strstr_at.simps [of s d i] split: if_splits)
    then have "length x < i + 1" using "1.IH" False "1.prems"(2) by blast
    moreover have "length x \<noteq> i" using n(1) "1.prems"(2) by auto
    ultimately show ?thesis by simp
  qed
qed

lemma strstr_at_Some:
  "strstr_at s d i = Some b \<Longrightarrow> i \<le> b \<and> (\<exists>y. s = take b s @ d @ y) \<and>
     (\<forall>x z. s = x @ d @ z \<longrightarrow> i \<le> length x \<longrightarrow> b \<le> length x)"
proof (induction s d i rule: strstr_at.induct)
  case (1 s d i)
  have nl: "\<not> length s < i + length d" using "1.prems" by (auto simp: strstr_at.simps [of s d i])
  show ?case
  proof (cases "take (length d) (drop i s) = d")
    case True
    then have "b = i" using "1.prems" nl by (simp add: strstr_at.simps [of s d i])
    moreover have "s = take i s @ d @ drop (i + length d) s"
    proof -
      have "drop i s = d @ drop (length d) (drop i s)" using True by (metis append_take_drop_id)
      then show ?thesis using append_take_drop_id [of i s] by (simp add: add.commute)
    qed
    ultimately show ?thesis by auto
  next
    case False
    then have "strstr_at s d (i + 1) = Some b" using "1.prems" nl by (simp add: strstr_at.simps [of s d i])
    from "1.IH" [OF nl False this] have ih: "i + 1 \<le> b" "\<exists>y. s = take b s @ d @ y"
      "\<forall>x z. s = x @ d @ z \<longrightarrow> i + 1 \<le> length x \<longrightarrow> b \<le> length x" by blast+
    have "b \<le> length x" if "s = x @ d @ z" "i \<le> length x" for x z
    proof -
      have "length x \<noteq> i" using that(1) False by auto
      then show ?thesis using ih(3) that by auto
    qed
    with ih show ?thesis by auto
  qed
qed

text \<open>One call: where the first hit is, and what the rule's entries are around it.\<close>

lemma matches_hit:
  assumes "rl \<noteq> []" "vl \<noteq> []" "44 \<notin> set vl" "strstr_at rl vl 0 = Some b"
  obtains s where "rl = take b rl @ vl @ s" "\<And>x z. rl = x @ vl @ z \<Longrightarrow> b \<le> length x"
    "drop (b + length vl) rl = s" "b + length vl \<le> length rl"
    "(b = 0 \<or> rl ! (b - 1) = 44) = (last (rule_entries (take b rl)) = [])"
    "(b + length vl = length rl \<or> rl ! (b + length vl) = 44) = (hd (rule_entries s) = [])"
proof -
  obtain s where s: "rl = take b rl @ vl @ s" and l: "\<And>x z. rl = x @ vl @ z \<Longrightarrow> b \<le> length x"
    using strstr_at_Some [OF assms(4)] by auto
  have lb: "b \<le> length rl" using l [OF s] by simp
  then have d: "drop (b + length vl) rl = s" using s by (metis append_eq_conv_conj drop_drop length_take min.absorb2 add.commute)
  have le: "b + length vl \<le> length rl" using s lb by (metis append.assoc length_append length_take le_add1 min.absorb2)
  have "length (take b rl) = b" using lb by simp
  then have 1: "(b = 0 \<or> rl ! (b - 1) = 44) = (last (rule_entries (take b rl)) = [])"
    using lb by (cases "b = 0") (auto simp: last_fields)
  have "(s = []) = (b + length vl = length rl)" using d le by auto
  moreover have "s \<noteq> [] \<Longrightarrow> s ! 0 = rl ! (b + length vl)" using d le by (metis add.right_neutral nth_drop)
  ultimately have 2: "(b + length vl = length rl \<or> rl ! (b + length vl) = 44) = (hd (rule_entries s) = [])"
    by (auto simp: hd_fields)
  show thesis by (rule that [OF s l d le 1 2])
qed

lemma string_matches_complete:
  "vl \<noteq> [] \<Longrightarrow> 44 \<notin> set vl \<Longrightarrow> vl \<in> set (rule_entries rl) \<Longrightarrow> string_matches vl rl"
proof (induction vl rl rule: string_matches.induct)
  case (1 v rl)
  have ne: "rl \<noteq> []" using "1.prems" by auto
  obtain x y where "rl = x @ v @ y" using field_inside [OF "1.prems"(3)] by blast
  then obtain b where b: "strstr_at rl v 0 = Some b" using strstr_at_None [of rl v 0 x y] by (cases "strstr_at rl v 0") auto
  obtain s where s: "rl = take b rl @ v @ s" "\<And>x z. rl = x @ v @ z \<Longrightarrow> b \<le> length x" "drop (b + length v) rl = s"
    "b + length v \<le> length rl"
    "(b = 0 \<or> rl ! (b - 1) = 44) = (last (rule_entries (take b rl)) = [])"
    "(b + length v = length rl \<or> rl ! (b + length v) = 44) = (hd (rule_entries s) = [])"
    using matches_hit [OF ne "1.prems"(1,2) b] by metis
  show ?case
  proof (cases "last (rule_entries (take b rl)) = [] \<and> hd (rule_entries s) = []")
    case True
    then show ?thesis using ne "1.prems" b s(5,6) by (subst string_matches.simps) (simp add: Let_def)
  next
    case False
    then have n: "\<not> ((b = 0 \<or> rl ! (b - 1) = 44) \<and> (b + length v = length rl \<or> rl ! (b + length v) = 44))"
      unfolding s(5,6) .
    have e: "set (rule_entries rl) = set (butlast (rule_entries (take b rl))) \<union>
        {last (rule_entries (take b rl)) @ v @ hd (rule_entries s)} \<union> set (tl (rule_entries s))"
      by (subst s(1), subst fields_around [OF "1.prems"(2)]) auto
    have "v \<notin> set (butlast (rule_entries (take b rl)))"
    proof
      assume "v \<in> set (butlast (rule_entries (take b rl)))"
      then obtain x y where xy: "take b rl = x @ v @ y" using field_inside in_set_butlastD by metis
      then have "rl = x @ v @ (y @ drop b rl)" using append_take_drop_id [of b rl] by (metis append.assoc)
      then have "b \<le> length x" by (rule s(2))
      moreover have "length x + length v \<le> b" using xy by (metis add.assoc le_add1 length_append length_take min.boundedE order_trans min.cobounded2)
      ultimately show False using "1.prems"(1) by (cases v) auto
    qed
    moreover have "v \<noteq> last (rule_entries (take b rl)) @ v @ hd (rule_entries s)"
    proof
      assume "v = last (rule_entries (take b rl)) @ v @ hd (rule_entries s)"
      then have "length v = length (last (rule_entries (take b rl)) @ v @ hd (rule_entries s))" by simp
      then show False using False by simp
    qed
    ultimately have "v \<in> set (tl (rule_entries s))" using "1.prems"(3) e by auto
    then have "v \<in> set (rule_entries s)" by (cases "rule_entries s") auto
    then have "string_matches v (drop (b + length v) rl)"
      using "1.IH" [OF _ b refl n] "1.prems" ne s(3) by simp
    then show ?thesis using ne "1.prems" b by (subst string_matches.simps) (simp add: Let_def)
  qed
qed

lemma string_matches_sound:
  "string_matches vl rl \<Longrightarrow>
   vl \<noteq> [] \<and> (\<exists>e\<in>set (rule_entries rl). e = vl \<or> (\<exists>z. e = z @ vl @ vl))"
proof (induction vl rl rule: string_matches.induct)
  case (1 v rl)
  obtain b where c: "rl \<noteq> []" "v \<noteq> []" "44 \<notin> set v" "strstr_at rl v 0 = Some b"
    using "1.prems" by (subst (asm) string_matches.simps) (auto split: if_splits option.splits)
  obtain s where s: "rl = take b rl @ v @ s" "drop (b + length v) rl = s"
    "(b = 0 \<or> rl ! (b - 1) = 44) = (last (rule_entries (take b rl)) = [])"
    "(b + length v = length rl \<or> rl ! (b + length v) = 44) = (hd (rule_entries s) = [])"
    using matches_hit [OF c] by metis
  have e: "set (rule_entries rl) = set (butlast (rule_entries (take b rl))) \<union>
      {last (rule_entries (take b rl)) @ v @ hd (rule_entries s)} \<union> set (tl (rule_entries s))"
    by (subst s(1), subst fields_around [OF c(3)]) auto
  show ?case
  proof (cases "last (rule_entries (take b rl)) = [] \<and> hd (rule_entries s) = []")
    case True
    then show ?thesis using e c(2) by auto
  next
    case False
    then have n: "\<not> ((b = 0 \<or> rl ! (b - 1) = 44) \<and> (b + length v = length rl \<or> rl ! (b + length v) = 44))"
      unfolding s(3,4) .
    then have "string_matches v s"
      using "1.prems" c s(2) by (subst (asm) string_matches.simps) (auto simp: Let_def split: if_splits)
    then obtain f where f: "f \<in> set (rule_entries s)" "f = v \<or> (\<exists>z. f = z @ v @ v)"
      using "1.IH" [OF _ c(4) refl n] c(1-3) s(2) by auto
    have "f \<in> set (tl (rule_entries s)) \<or> f = hd (rule_entries s)" using f(1) by (cases "rule_entries s") auto
    then show ?thesis
    proof
      assume "f \<in> set (tl (rule_entries s))"
      then show ?thesis using f(2) e c(2) by blast
    next
      assume h: "f = hd (rule_entries s)"
      have "\<exists>z. last (rule_entries (take b rl)) @ v @ f = z @ v @ v"
        using f(2) by (metis append.assoc)
      then show ?thesis using h e c(2) by blast
    qed
  qed
qed

section \<open>Properties\<close>

text \<open>
  C35: The check of a name against a comma separated list, used for JSON objects and enumerations, accepts a
  non-empty name without commas exactly when it is an entry of the list, provided that no entry ends with the
  name twice in a row; such an entry can be taken for the name itself, and then the check accepts a
  name that is not listed (the name \<open>a\<close> for the list \<open>aa\<close>).\<close>

theorem ks_json_matches_entries:
  assumes "44 \<notin> set vl" "vl \<noteq> []" and "\<forall>e\<in>set (rule_entries rl). \<forall>z. e \<noteq> z @ vl @ vl"
  shows "string_matches vl rl = (vl \<in> set (rule_entries rl)) \<and> string_matches [97] [97, 97]"
proof -
  have "string_matches vl rl = (vl \<in> set (rule_entries rl))"
    using string_matches_complete [OF assms(2,1)] string_matches_sound [of vl rl] assms(3) by blast
  moreover have "string_matches [97] [97, 97]" by code_simp
  ultimately show ?thesis by simp
qed

theorem ks_json_matches_entries_witness:
  "string_matches [98] [97, 44, 98] = ([98] \<in> set (rule_entries [97, 44, 98])) \<and> string_matches [97] [97, 97]"
proof (rule ks_json_matches_entries)
  show "\<forall>e\<in>set (rule_entries [97, 44, 98]). \<forall>z. e \<noteq> z @ [98] @ [98]"
    by (auto simp: append_eq_Cons_conv Cons_eq_append_conv)
qed simp_all

text \<open>The check of decimals looks at the truncated value: 1.5 is accepted as a number between 0 and 1.\<close>

lemma ks_json_check_decimal_above_one:
  "ks_json_check_number_is_decimal_between_zero_and_one
     (Some (Json KS_JSON_TYPE_NUMBER None None 1 (3 / 2) []))"
  by (simp add: ks_json_check_number_is_decimal_between_zero_and_one_def ks_json_type_is_number_def ks_json_type_is_def
      ks_json_type_get_def double_of_def int_of_def)

end
