(* ===== verification/Ks_Kws_Http.thy ===== *)
theory Ks_Kws_Http
  imports Ks_Kws_Hs Ks_String_Props Ks_Acl
begin

text \<open>
  \<open>kws.c\<close>, the parser of HTTP requests: cleaning of the path, query strings, request line and headers.
  Pointers of a request into its copy of the header text are offsets of \<open>rbuf\<close>. Allocations succeed.
\<close>

section \<open>Requests\<close>

definition KWS_MAX_HEADERS :: nat where "KWS_MAX_HEADERS = 64"

text \<open>The members \<open>from\<close>, \<open>user\<close> and \<open>user_data\<close>, which the parser only sets to NULL, are left out.\<close>

record kws_request =
  rmethod :: "nat option"
  ruri :: "nat option"
  rqs :: "nat option"
  rhost :: "nat option"
  rport :: "16 word"
  user_agent :: "nat option"
  referer :: "nat option"
  rkeepalive :: bool
  content_type :: "nat option"
  authorization :: "nat option"
  content_length :: u64
  bytes_header :: nat
  bytes_read :: nat
  bytes_buffered :: nat
  headers_k :: "mem option list"
  headers_v :: "mem option list"
  total_headers :: nat
  rbuf :: "mem option"

text \<open>\<open>memset\<close> of the structure.\<close>

definition request_zero :: kws_request where
  "request_zero = \<lparr>rmethod = None, ruri = None, rqs = None, rhost = None, rport = 0, user_agent = None, referer = None,
     rkeepalive = False, content_type = None, authorization = None, content_length = 0, bytes_header = 0,
     bytes_read = 0, bytes_buffered = 0, headers_k = replicate KWS_MAX_HEADERS None,
     headers_v = replicate KWS_MAX_HEADERS None, total_headers = 0, rbuf = None\<rparr>"

text \<open>\<open>ks_separate_string\<close> of the text at an offset.\<close>

definition separate_at :: "mem \<Rightarrow> nat \<Rightarrow> byte \<Rightarrow> nat \<Rightarrow> (nat list \<times> mem) option" where
  "separate_at buf off d n =
     (if length buf < off then None
      else do { (offs, b) \<leftarrow> ks_separate_string (Some (drop off buf)) d n;
                b \<leftarrow> b;
                Some (map (\<lambda>i. off + i) offs, take off buf @ b) })"

section \<open>Paths\<close>

text \<open>
  \<open>clean_uri\<close>: the segments that are kept, as offsets (\<open>argv\<close> up to \<open>last\<close>), and the loop of \<open>sprintf\<close>,
  which writes each of them to the left of where it stands. The text that \<open>sprintf\<close> reads overlaps the one
  it writes, which C leaves undefined; \<open>sprintf_up\<close> is a \<open>sprintf\<close> that stores \<open>/\<close> and then copies one byte
  after the other in ascending order, each read from the buffer as it is then.
\<close>

fun copy_up :: "mem \<Rightarrow> nat \<Rightarrow> nat \<Rightarrow> nat \<Rightarrow> mem option" where
  "copy_up buf d a 0 = Some buf"
| "copy_up buf d a (Suc n) =
     do { c \<leftarrow> mem_rd buf a; buf \<leftarrow> mem_wr buf d c; copy_up buf (d + 1) (a + 1) n }"

definition sprintf_up :: "mem \<Rightarrow> nat \<Rightarrow> nat \<Rightarrow> nat \<Rightarrow> mem option" where
  "sprintf_up buf d a n = do { buf \<leftarrow> mem_wr buf d 47; copy_up buf (d + 1) a (n + 1) }"

fun uri_segments :: "mem \<Rightarrow> nat list \<Rightarrow> nat list \<Rightarrow> nat list option" where
  "uri_segments buf kept [] = Some kept"
| "uri_segments buf kept (a # as) =
     do { s \<leftarrow> str_at buf a;
          if s = [] \<or> s = [46] then uri_segments buf kept as
          else if s = [46, 46] then uri_segments buf (butlast kept) as
          else uri_segments buf (kept @ [a]) as }"

fun uri_write :: "mem \<Rightarrow> nat \<Rightarrow> nat list \<Rightarrow> mem option" where
  "uri_write buf uri_len [] = Some buf"
| "uri_write buf uri_len (a # as) =
     do { s \<leftarrow> str_at buf a;
          buf' \<leftarrow> sprintf_up buf uri_len a (length s);
          uri_write buf' (uri_len + length s + 1) as }"

definition clean_uri :: "mem \<Rightarrow> (ks_status \<times> mem) option" where
  "clean_uri uri =
     do { (argv, u) \<leftarrow> ks_separate_string (Some uri) 47 64;
          u \<leftarrow> u;
          if length argv = 64 then Some (KS_STATUS_FAIL, u)
          else do { kept \<leftarrow> uri_segments u [] (drop 1 argv);
                    u \<leftarrow> uri_write u 0 kept;
                    c \<leftarrow> mem_rd u 0;
                    if c = 0 then do { u \<leftarrow> mem_wr u 0 47; u \<leftarrow> mem_wr u 1 0; Some (KS_STATUS_SUCCESS, u) }
                    else Some (KS_STATUS_SUCCESS, u) } }"

section \<open>Query strings\<close>

text \<open>
  \<open>kws_parse_qs\<close>: the part up to the next \<open>&\<close> is decoded in place and stored when it has a \<open>=\<close>. The loop
  gives back where \<open>q\<close> points at the end and the buffer.
\<close>

definition qs_store :: "kws_request \<Rightarrow> mem \<Rightarrow> (kws_request \<times> mem) option" where
  "qs_store r b =
     do { s \<leftarrow> c_str b;
          if 61 \<in> set s then
            do { let name = takeWhile (\<lambda>c. c \<noteq> 61) s;
                 let v = drop (length name + 1) s;
                 b \<leftarrow> mem_wr b (length name) 0;
                 k \<leftarrow> mem_wr (headers_k r) (total_headers r) (Some name);
                 w \<leftarrow> mem_wr (headers_v r) (total_headers r) (Some v);
                 Some (r\<lparr>headers_k := k, headers_v := w, total_headers := total_headers r + 1\<rparr>, b) }
          else Some (r, b) }"

function qs_loop :: "kws_request \<Rightarrow> nat \<Rightarrow> mem \<Rightarrow> (kws_request \<times> nat option \<times> mem) option" where
  "qs_loop r q s =
     (if KWS_MAX_HEADERS \<le> total_headers r then Some (r, Some q, s @ [0])
      else do { let part = takeWhile (\<lambda>c. c \<noteq> 38) s;
                (_, b) \<leftarrow> ks_url_decode (map (\<lambda>c. if c = 43 then 32 else c) part @ [0]);
                (r, b) \<leftarrow> qs_store r b;
                if 38 \<in> set s then
                  do { (r, q', b') \<leftarrow> qs_loop r (q + length part + 1) (drop (length part + 1) s);
                       Some (r, q', b @ b') }
                else Some (r, None, b) })"
  by pat_completeness auto
termination by (relation "measure (\<lambda>(_, _, s). length s)") (auto intro!: diff_less simp: length_pos_if_in_set)

declare qs_loop.simps [simp del]

text \<open>
  With an argument the text is decoded in place. Without one a copy is, and \<open>q\<close> is freed at the end:
  nothing when it is NULL, a fault when it is not the start of the copy.
\<close>

definition kws_parse_qs :: "kws_request \<Rightarrow> mem option \<Rightarrow> (ks_status \<times> kws_request \<times> mem option) option" where
  "kws_parse_qs r qs =
     (case qs of
        Some b \<Rightarrow> do { s \<leftarrow> c_str b; (r, _, b') \<leftarrow> qs_loop r 0 s;
                       Some (KS_STATUS_SUCCESS, r, Some (b' @ drop (length s + 1) b)) }
      | None \<Rightarrow> do { b \<leftarrow> rbuf r; p \<leftarrow> rqs r; s \<leftarrow> str_at b p; (r, q, _) \<leftarrow> qs_loop r 0 s;
                     case q of None \<Rightarrow> Some (KS_STATUS_SUCCESS, r, None)
                     | Some n \<Rightarrow> if n = 0 then Some (KS_STATUS_SUCCESS, r, None) else None })"

section \<open>Headers\<close>

text \<open>The test of the first ten characters, with the value of \<open>i\<close> at its end.\<close>

fun sanity_loop :: "mem \<Rightarrow> nat \<Rightarrow> nat \<Rightarrow> int option" where
  "sanity_loop buf p 0 = Some (-1)"
| "sanity_loop buf p (Suc i) =
     do { c \<leftarrow> mem_rd buf p; if c = 32 then Some (int i) else sanity_loop buf (p + 1) i }"

text \<open>\<open>strncasecmp\<close> with the length of the second string.\<close>

definition starts_ci :: "mem \<Rightarrow> string \<Rightarrow> bool" where
  "starts_ci s t = (map tolower_byte (take (length t) s) = map tolower_byte (map of_char t))"

text \<open>What a header with a known name sets; \<open>value\<close> is an offset.\<close>

definition known_header :: "mem \<Rightarrow> nat \<Rightarrow> kws_request \<times> mem \<Rightarrow> (kws_request \<times> mem) option" where
  "known_header hk val rb =
     (let (r, buf) = rb in
      if starts_ci hk ''User-Agent'' then Some (r\<lparr>user_agent := Some val\<rparr>, buf)
      else if starts_ci hk ''Host'' then
        do { let r = r\<lparr>rhost := Some val\<rparr>;
             c \<leftarrow> strchr_at buf val 58;
             case c of None \<Rightarrow> Some (r, buf)
             | Some p \<Rightarrow>
                 do { buf \<leftarrow> mem_wr buf p 0;
                      t \<leftarrow> str_at buf (p + 1);
                      Some (if t \<noteq> [] then r\<lparr>rport := word_of_int (atoi t)\<rparr> else r, buf) } }
      else if starts_ci hk ''Content-Type'' then Some (r\<lparr>content_type := Some val\<rparr>, buf)
      else if starts_ci hk ''Content-Length'' then
        do { t \<leftarrow> str_at buf val; Some (r\<lparr>content_length := word_of_int (atoi t)\<rparr>, buf) }
      else if starts_ci hk ''Referer'' then Some (r\<lparr>referer := Some val\<rparr>, buf)
      else if starts_ci hk ''Authori'' then Some (r\<lparr>authorization := Some val\<rparr>, buf)
      else Some (r, buf))"

text \<open>The loop over the header lines; \<^const>\<open>False\<close> for the jump to \<open>err\<close>.\<close>

fun header_loop :: "nat \<Rightarrow> nat list \<Rightarrow> kws_request \<Rightarrow> mem \<Rightarrow> (bool \<times> kws_request \<times> mem) option" where
  "header_loop i [] r buf = Some (True, r\<lparr>total_headers := i\<rparr>, buf)"
| "header_loop i (h # hs) r buf =
     do { (argv, buf) \<leftarrow> separate_at buf h 58 2;
          if length argv \<noteq> 2 then Some (False, r, buf)
          else do { val \<leftarrow> skip_spaces buf (argv ! 1);
                    s \<leftarrow> str_at buf val;
                    buf \<leftarrow> (if s \<noteq> [] \<and> last s = 13 then mem_wr buf (val + length s - 1) 0 else Some buf);
                    hk \<leftarrow> str_at buf (argv ! 0);
                    hv \<leftarrow> str_at buf val;
                    ks \<leftarrow> mem_wr (headers_k r) i (Some hk);
                    vs \<leftarrow> mem_wr (headers_v r) i (Some hv);
                    (r, buf) \<leftarrow> known_header hk val (r\<lparr>headers_k := ks, headers_v := vs\<rparr>, buf);
                    header_loop (i + 1) hs r buf } }"

text \<open>
  The request line: method, path and query string, and the position behind it (\<^const>\<open>None\<close> for \<open>noheader\<close>).
  \<open>buf\<close> is the copy of the header text.
\<close>

definition request_line :: "kws_request \<Rightarrow> mem \<Rightarrow> ((nat option \<times> kws_request \<times> mem) option) option" where
  "request_line r buf =
     do { c \<leftarrow> strchr_at buf 0 32;
          case c of None \<Rightarrow> Some None
          | Some p \<Rightarrow>
     do { buf \<leftarrow> mem_wr buf p 0;
          c \<leftarrow> mem_rd buf (p + 1);
          if c \<noteq> 47 then Some None
          else
     do { let u = p + 1;
          c \<leftarrow> strchr_at buf u 32;
          case c of None \<Rightarrow> Some None
          | Some p \<Rightarrow>
     do { buf \<leftarrow> mem_wr buf p 0;
          let http = p + 1;
          c \<leftarrow> strchr_at buf u 63;
          buf \<leftarrow> (case c of None \<Rightarrow> Some buf | Some q \<Rightarrow> mem_wr buf q 0);
          let r = r\<lparr>ruri := Some u, rqs := map_option (\<lambda>q. q + 1) c\<rparr>;
          (st, b) \<leftarrow> clean_uri (drop u buf);
          let buf = take u buf @ b;
          if st \<noteq> KS_STATUS_SUCCESS then Some None
          else
     do { h \<leftarrow> str_at buf http;
          if take 8 h \<noteq> map of_char ''HTTP/1.1'' \<and> take 8 h \<noteq> map of_char ''HTTP/1.0'' then Some None
          else
     do { let r = r\<lparr>rkeepalive := (take 8 h = map of_char ''HTTP/1.1'')\<rparr>;
          c \<leftarrow> strchr_at buf http 10;
          case c of None \<Rightarrow> Some (Some (None, r, buf))
          | Some p \<Rightarrow> do { buf \<leftarrow> mem_wr buf p 0; Some (Some (Some (p + 1), r, buf)) } } } } } } }"

text \<open>The end of the header text in the buffer and where the body starts.\<close>

definition find_body :: "mem \<Rightarrow> (nat \<times> nat) option" where
  "find_body s =
     (case strstr_at s (CRLF @ CRLF) 0 of Some b \<Rightarrow> Some (b, b + 4)
      | None \<Rightarrow> map_option (\<lambda>b. (b, b + 2)) (strstr_at s [10, 10] 0))"

text \<open>The bytes behind the headers move to the start of the buffer.\<close>

definition keep_body :: "nat \<Rightarrow> nat \<Rightarrow> kws \<Rightarrow> kws option" where
  "keep_body bd dl k =
     (let dl' = (if bd \<le> dl then dl - bd else dl);
          k = (if bd \<le> dl then k\<lparr>datalen := int dl'\<rparr> else k) in
      if 0 < dl' then
        do { xs \<leftarrow> mem_sub (kbuffer k) bd (dl' + 1);
             b \<leftarrow> mem_cpy (kbuffer k) 0 xs;
             Some (k\<lparr>kbuffer := b, unprocessed_buffer_len := dl', unprocessed_position := 0\<rparr>) }
      else Some k)"

definition finish_request :: "kws_request \<Rightarrow> kws \<Rightarrow> (ks_status \<times> kws_request option \<times> kws) option" where
  "finish_request r k =
     (if rqs r = None then Some (KS_STATUS_SUCCESS, Some r, k)
      else do { (_, r, _) \<leftarrow> kws_parse_qs r None; Some (KS_STATUS_SUCCESS, Some r, k) })"

text \<open>
  \<open>kws_parse_header\<close>: an error releases the request, so the caller's pointer is NULL; the buffer of the
  connection keeps the NUL that was written at the end of the headers.
\<close>

definition kws_parse_header :: "kws \<Rightarrow> kws_request option \<Rightarrow> (ks_status \<times> kws_request option \<times> kws) option" where
  "kws_parse_header k req =
     (let dl = nat (datalen k mod 2 ^ 64) in
      if dl < 16 then Some (KS_STATUS_FAIL, req, k)
      else
     do { i \<leftarrow> sanity_loop (kbuffer k) 0 10;
          if i = 0 then Some (KS_STATUS_FAIL, req, k)
          else
     do { s \<leftarrow> c_str (kbuffer k);
          case find_body s of None \<Rightarrow> Some (KS_STATUS_FAIL, req, k)
          | Some (e, bd) \<Rightarrow>
     do { kb \<leftarrow> mem_wr (kbuffer k) e 0;
          let k = k\<lparr>kbuffer := kb\<rparr>;
          let buf = take e s @ [0];
          let r = request_zero\<lparr>rmethod := Some 0, bytes_buffered := dl, bytes_header := bd, bytes_read := bd\<rparr>;
          l \<leftarrow> request_line r buf;
          case l of None \<Rightarrow> Some (KS_STATUS_FAIL, None, k)
          | Some (None, r, buf) \<Rightarrow> finish_request (r\<lparr>rbuf := Some buf\<rparr>) k
          | Some (Some p, r, buf) \<Rightarrow>
     do { (hs, buf) \<leftarrow> separate_at buf p 10 64;
          if length hs < 1 then Some (KS_STATUS_FAIL, None, k)
          else
     do { (ok, r, buf) \<leftarrow> header_loop 0 hs r buf;
          if \<not> ok then Some (KS_STATUS_FAIL, None, k)
          else do { k \<leftarrow> keep_body bd dl k; finish_request (r\<lparr>rbuf := Some buf\<rparr>) k } } } } } })"

section \<open>Use and release\<close>

fun find_header :: "mem \<Rightarrow> (mem option \<times> mem option) list \<Rightarrow> mem option" where
  "find_header key [] = None"
| "find_header key ((k, v) # hs) = (if k = Some key then v else find_header key hs)"

definition kws_request_get_header :: "kws_request \<Rightarrow> mem \<Rightarrow> mem option" where
  "kws_request_get_header r key = find_header key (zip (headers_k r) (headers_v r))"

text \<open>The loop that releases the headers ends at the first missing one.\<close>

fun reset_headers :: "(mem option \<times> mem option) list \<Rightarrow> (mem option \<times> mem option) list" where
  "reset_headers [] = []"
| "reset_headers ((k, v) # hs) = (if k = None \<or> v = None then (k, v) # hs else (None, None) # reset_headers hs)"

definition kws_request_reset :: "kws_request \<Rightarrow> kws_request" where
  "kws_request_reset r =
     (let hs = reset_headers (zip (headers_k r) (headers_v r))
      in r\<lparr>rbuf := None, headers_k := map fst hs, headers_v := map snd hs, total_headers := 0\<rparr>)"

definition kws_request_free :: "kws_request option \<Rightarrow> kws_request option" where
  "kws_request_free r = None"

end
