(* ===== verification/Ks_Kws_Path.thy ===== *)
theory Ks_Kws_Path
  imports Ks_Kws_Http
begin

text \<open>
  The path and the query string of a request: \<open>clean_uri\<close> computes the normal form of the path, and
  \<open>kws_parse_qs\<close> recovers the pairs of an encoded query. The segments are rewritten to the left inside
  the buffer; the kept ones are a subsequence of the separated ones, so none is overwritten before it
  is read.
\<close>

section \<open>Paths\<close>

text \<open>The normal form of a path.\<close>

fun norm_step :: "mem list \<Rightarrow> mem \<Rightarrow> mem list" where
  "norm_step acc s = (if s = [] \<or> s = [46] then acc else if s = [46, 46] then butlast acc else acc @ [s])"

definition norm_segs :: "mem list \<Rightarrow> mem list" where
  "norm_segs ss = foldl norm_step [] ss"

definition uri_text :: "mem list \<Rightarrow> mem" where
  "uri_text ss = concat (map (\<lambda>s. 47 # s) ss)"

definition uri_of :: "mem list \<Rightarrow> mem" where
  "uri_of ss = (if ss = [] then [47] else uri_text ss)"

lemma foldl_norm_ok:
  "set acc \<inter> {[], [46], [46, 46]} = {} \<Longrightarrow> set (foldl norm_step acc ss) \<inter> {[], [46], [46, 46]} = {}"
proof (induction ss arbitrary: acc)
  case (Cons s ss)
  have "set (norm_step acc s) \<inter> {[], [46], [46, 46]} = {}"
    using Cons.prems by (auto dest: in_set_butlastD)
  then show ?case using Cons.IH by simp
qed simp

lemma joinb_uri_text: "ss \<noteq> [] \<Longrightarrow> joinb 47 ([] # ss) = uri_text ss"
proof (induction ss)
  case (Cons s ss)
  then show ?case by (cases ss) (auto simp: uri_text_def)
qed simp

text \<open>The kept segments with their offsets: a subsequence, so still apart from each other.\<close>

fun pair_step :: "(nat \<times> mem) list \<Rightarrow> nat \<times> mem \<Rightarrow> (nat \<times> mem) list" where
  "pair_step acc (a, s) = (if s = [] \<or> s = [46] then acc else if s = [46, 46] then butlast acc else acc @ [(a, s)])"

definition apart :: "nat \<times> mem \<Rightarrow> nat \<times> mem \<Rightarrow> bool" where
  "apart x y = (fst x + length (snd x) < fst y)"

lemma uri_segments_pairs:
  "\<forall>(a, s)\<in>set Q. str_at buf a = Some s \<Longrightarrow>
   uri_segments buf (map fst P) (map fst Q) = Some (map fst (foldl pair_step P Q))"
proof (induction Q arbitrary: P)
  case (Cons x Q)
  obtain a s where x: "x = (a, s)" by (cases x)
  show ?case using Cons.prems Cons.IH [of P] Cons.IH [of "butlast P"] Cons.IH [of "P @ [(a, s)]"]
    by (simp add: x map_butlast)
qed simp

lemma pair_segs: "map snd (foldl pair_step P Q) = foldl norm_step (map snd P) (map snd Q)"
proof (induction Q arbitrary: P)
  case (Cons x Q)
  obtain a s where x: "x = (a, s)" by (cases x)
  show ?case using Cons.IH by (simp add: x map_butlast)
qed simp

lemma pair_steps_kept:
  "sorted_wrt apart (P @ Q) \<Longrightarrow> sorted_wrt apart (foldl pair_step P Q) \<and> set (foldl pair_step P Q) \<subseteq> set P \<union> set Q"
proof (induction Q arbitrary: P)
  case (Cons x Q)
  have b: "sorted_wrt apart (butlast P @ Q)" if "sorted_wrt apart (P @ x # Q)"
    using that by (cases P rule: rev_cases) (auto simp: sorted_wrt_append)
  have n: "sorted_wrt apart (P @ Q)" if "sorted_wrt apart (P @ x # Q)"
    using that by (auto simp: sorted_wrt_append)
  show ?case using Cons.prems Cons.IH [of P] Cons.IH [of "butlast P"] Cons.IH [of "P @ [x]"] b n
    by (cases x) (auto dest: in_set_butlastD)
qed simp

lemma apart_trans: "apart x y \<Longrightarrow> apart y z \<Longrightarrow> apart x z"
  by (simp add: apart_def)

lemma field_offs_ge: "x \<in> set (zip (field_offs p fs) fs) \<Longrightarrow> p \<le> fst x"
  by (induction fs arbitrary: p) fastforce+

lemma field_offs_apart: "sorted_wrt apart (zip (field_offs p fs) fs)"
proof (induction fs arbitrary: p)
  case (Cons f fs)
  have "apart (p, f) x" if "x \<in> set (zip (field_offs (p + length f + 1) fs) fs)" for x
    using field_offs_ge [OF that] by (simp add: apart_def)
  then show ?case using Cons by simp
qed simp

lemma field_offs_end: "x \<in> set (zip (field_offs p fs) fs) \<Longrightarrow> fst x + length (snd x) \<le> p + length (joinb d fs)"
proof (induction fs arbitrary: p rule: induct_list012)
  case (3 f g fs)
  then show ?case using "3.IH"(2) [of "p + length f + 1"] by auto
qed auto

lemma length_joinb: "length (joinb d fs) = length (joinb e fs)"
  by (induction fs rule: induct_list012) auto

lemma length_joinb_stored: "fs \<noteq> [] \<Longrightarrow> length (joinb d (stored fs)) \<le> length (joinb d fs)"
proof (induction fs rule: induct_list012)
  case (3 f g fs)
  then show ?case by (cases "stored (g # fs)") auto
qed (simp_all add: stored_def)

text \<open>Writing the kept segments to the left.\<close>

lemma str_at_mem_cpy:
  assumes "mem_cpy buf l xs = Some b" "l + length xs \<le> a"
  shows "str_at b a = str_at buf a"
proof -
  have b: "b = take l buf @ xs @ drop (l + length xs) buf" "l + length xs \<le> length buf"
    using assms(1) by (auto simp: mem_cpy_def split: if_splits)
  have "drop a b = drop a buf" unfolding b(1) using assms(2) b(2) by simp
  moreover have "length b = length buf" using b by simp
  ultimately show ?thesis by (simp add: str_at_def)
qed

lemma copy_up_cpy:
  "d \<le> a \<Longrightarrow> a + n \<le> length buf \<Longrightarrow> copy_up buf d a n = mem_cpy buf d (take n (drop a buf))"
proof (induction n arbitrary: buf d a)
  case 0
  then show ?case by (simp add: mem_cpy_def)
next
  case (Suc n)
  let ?c = "buf ! a" and ?b = "buf[d := buf ! a]"
  have "copy_up buf d a (Suc n) = copy_up ?b (d + 1) (a + 1) n"
    using Suc.prems by (simp add: mem_rd_def mem_wr_def)
  also have "\<dots> = mem_cpy ?b (d + 1) (take n (drop (a + 1) ?b))" by (rule Suc.IH) (use Suc.prems in simp_all)
  also have "\<dots> = Some (take (d + 1) ?b @ take n (drop (a + 1) buf) @ drop (d + 1 + n) buf)"
    using Suc.prems by (simp add: mem_cpy_def)
  also have "take (d + 1) ?b = take d buf @ [?c]"
    using Suc.prems by (simp add: take_Suc_conv_app_nth)
  also have "Some ((take d buf @ [?c]) @ take n (drop (a + 1) buf) @ drop (d + 1 + n) buf) =
      mem_cpy buf d (take (Suc n) (drop a buf))"
    using Suc.prems Cons_nth_drop_Suc [of a buf, symmetric] by (simp add: mem_cpy_def)
  finally show ?case .
qed

lemma sprintf_up_cpy:
  assumes "d < a" "str_at buf a = Some s"
  shows "sprintf_up buf d a (length s) = mem_cpy buf d (47 # s @ [0])"
proof -
  have len: "a + length s < length buf" by (rule str_at_end [OF assms(2)])
  let ?b = "buf[d := 47]"
  obtain r where r: "drop a buf = s @ 0 # r" using assms(2) c_str_no_nul by (fastforce simp: str_at_def split: if_splits)
  have t: "take (length s + 1) (drop a ?b) = s @ [0]" using assms(1) r by simp
  have "sprintf_up buf d a (length s) = copy_up ?b (d + 1) a (length s + 1)"
    using assms(1) len by (simp add: sprintf_up_def mem_wr_def)
  also have "\<dots> = mem_cpy ?b (d + 1) (s @ [0])"
    using copy_up_cpy [of "d + 1" a "length s + 1" ?b] assms(1) len t by simp
  also have "\<dots> = mem_cpy buf d (47 # s @ [0])"
    using assms(1) len by (simp add: mem_cpy_def take_Suc_conv_app_nth)
  finally show ?thesis .
qed

lemma uri_write_pairs:
  "sorted_wrt apart P \<Longrightarrow> \<forall>(a, s)\<in>set P. l < a \<and> str_at buf a = Some s \<and> a + length s < e \<Longrightarrow> P \<noteq> [] \<Longrightarrow>
   \<exists>r. uri_write buf l (map fst P) = Some (take l buf @ uri_text (map snd P) @ 0 # r) \<and>
     length (take l buf @ uri_text (map snd P) @ 0 # r) = length buf \<and>
     drop e (take l buf @ uri_text (map snd P) @ 0 # r) = drop e buf"
proof (induction P arbitrary: l buf)
  case (Cons x P)
  obtain a s where x: "x = (a, s)" by (cases x)
  have a: "l < a" "str_at buf a = Some s" "a + length s < e" using Cons.prems(2) x by auto
  have len: "a + length s < length buf" by (rule str_at_end [OF a(2)])
  define b where "b = take l buf @ (47 # s @ [0]) @ drop (l + length (47 # s @ [0])) buf"
  have cpy: "mem_cpy buf l (47 # s @ [0]) = Some b" using len a(1) by (simp add: mem_cpy_def b_def)
  have lb: "length b = length buf" "drop e b = drop e buf"
  proof -
    obtain k where k: "e = l + length (47 # s @ [0]) + k" using a(1,3) le_Suc_ex [of "l + length s + 2" e] by auto
    let ?A = "take l buf @ 47 # s @ [0]" and ?X = "drop (l + length (47 # s @ [0])) buf"
    have "length ?A = l + length (47 # s @ [0])" "b = ?A @ ?X" using len a(1) by (simp_all add: b_def)
    moreover have "drop (length ?A + k) (?A @ ?X) = drop k ?X" by simp
    ultimately have "drop e b = drop k ?X" using k by metis
    then show "drop e b = drop e buf" unfolding k by (simp add: add.commute)
    show "length b = length buf" using len a(1) by (simp add: b_def)
  qed
  show ?case
  proof (cases "P = []")
    case True
    have b: "b = take l buf @ uri_text (map snd [x]) @ 0 # drop (l + length (47 # s @ [0])) buf"
      by (simp add: x uri_text_def b_def)
    have "uri_write buf l (map fst [x]) = Some b" using a cpy by (simp add: x sprintf_up_cpy)
    then show ?thesis using True lb unfolding b by blast
  next
    case False
    let ?l = "l + length s + 1"
    have t: "take ?l b = take l buf @ 47 # s" using len a(1) by (simp add: b_def)
    have q: "?l < a' \<and> str_at b a' = Some s' \<and> a' + length s' < e" if "(a', s') \<in> set P" for a' s'
    proof -
      have "a + length s < a'" using Cons.prems(1) that x by (force simp: apart_def)
      then show ?thesis using Cons.prems(2) that a(1) str_at_mem_cpy [OF cpy, of a'] by auto
    qed
    have so: "sorted_wrt apart P" "\<forall>(a', s')\<in>set P. ?l < a' \<and> str_at b a' = Some s' \<and> a' + length s' < e"
      using Cons.prems(1) q by auto
    obtain r where r: "uri_write b ?l (map fst P) = Some (take ?l b @ uri_text (map snd P) @ 0 # r)"
      "length (take ?l b @ uri_text (map snd P) @ 0 # r) = length b"
      "drop e (take ?l b @ uri_text (map snd P) @ 0 # r) = drop e b"
      using Cons.IH [OF so False] by blast
    have e: "take ?l b @ uri_text (map snd P) @ 0 # r = take l buf @ uri_text (map snd (x # P)) @ 0 # r"
      unfolding t by (simp add: x uri_text_def)
    have "uri_write buf l (map fst (x # P)) = uri_write b ?l (map fst P)" using a(1,2) cpy by (simp add: x sprintf_up_cpy)
    then show ?thesis using r e lb by metis
  qed
qed simp

lemma uri_text_no_nul: "\<forall>s\<in>set ss. 0 \<notin> set s \<Longrightarrow> 0 \<notin> set (uri_text ss)"
  by (auto simp: uri_text_def)

lemma norm_segs_subset: "set (foldl norm_step acc ss) \<subseteq> set acc \<union> set ss"
proof (induction ss arbitrary: acc)
  case (Cons s ss)
  have "set (norm_step acc s) \<subseteq> set acc \<union> {s}" by (auto dest: in_set_butlastD)
  then show ?case using Cons.IH [of "norm_step acc s"] by auto
qed simp

text \<open>The part of \<open>clean_uri\<close> behind the separation.\<close>

lemma clean_uri_join:
  assumes "ss = stored segs" "u = 0 # joinb 0 segs @ 0 # r" "map (str_at u) (field_offs 1 ss) = map Some ss"
    and "\<forall>s\<in>set segs. 0 \<notin> set s" "segs \<noteq> []"
  shows "\<exists>kept v. uri_segments u [] (field_offs 1 ss) = Some kept \<and> uri_write u 0 kept = Some v \<and> length v = length u \<and>
    drop (length (joinb 0 segs) + 2) v = r \<and>
    (if norm_segs ss = [] then v = u else c_str v = Some (uri_text (norm_segs ss)))"
proof -
  let ?Q = "zip (field_offs 1 ss) ss" and ?P = "foldl pair_step [] (zip (field_offs 1 ss) ss)"
  have l: "length (field_offs 1 ss) = length ss" using arg_cong [OF assms(3), of length] by simp
  have str: "\<forall>(a, s)\<in>set ?Q. str_at u a = Some s"
    using assms(3) l by (auto simp: set_zip list_eq_iff_nth_eq)
  have "map fst ?Q = field_offs 1 ss" "map snd ?Q = ss" using l by simp_all
  then have seg: "uri_segments u [] (field_offs 1 ss) = Some (map fst ?P)" and sn: "map snd ?P = norm_segs ss"
    using uri_segments_pairs [OF str, of "[]"] pair_segs [of "[]" ?Q] by (auto simp: norm_segs_def)
  have p: "sorted_wrt apart ?P" "set ?P \<subseteq> set ?Q" using pair_steps_kept [of "[]" ?Q] field_offs_apart by auto
  have "set (stored segs) \<subseteq> set segs" by (auto simp: stored_def dest: in_set_butlastD)
  then have nz: "0 \<notin> set (uri_text (norm_segs ss))"
    using assms(1,4) norm_segs_subset [of "[]" ss] by (intro uri_text_no_nul) (auto simp: norm_segs_def)
  show ?thesis
  proof (cases "?P = []")
    case True
    then show ?thesis using seg sn assms(2) by auto
  next
    case False
    let ?e = "length (joinb 0 segs) + 2"
    have "0 < a \<and> str_at u a = Some s \<and> a + length s < ?e" if "(a, s) \<in> set ?P" for a s
    proof -
      have i: "(a, s) \<in> set ?Q" using that p(2) by blast
      then have "str_at u a = Some s" using str by blast
      moreover have "0 < a" using field_offs_ge [OF i] by simp
      moreover have "a + length s < ?e"
        using field_offs_end [OF i, of 0] length_joinb_stored [OF assms(5), of 0] assms(1) by simp
      ultimately show ?thesis by blast
    qed
    then obtain r' where w: "uri_write u 0 (map fst ?P) = Some (uri_text (norm_segs ss) @ 0 # r')"
      "length (uri_text (norm_segs ss) @ 0 # r') = length u" "drop ?e (uri_text (norm_segs ss) @ 0 # r') = drop ?e u"
      using uri_write_pairs [OF p(1) _ False, of 0 u ?e] sn by auto
    have "drop ?e u = r" using assms(2) by simp
    have "norm_segs ss \<noteq> []" using False sn by (metis map_is_Nil_conv)
    then show ?thesis using seg w nz c_str_append [OF nz] \<open>drop ?e u = r\<close> by metis
  qed
qed

lemma trimmed_no_space: "SPACE \<notin> set s \<Longrightarrow> trimmed s"
  by (auto simp: trimmed_def dest: hd_in_set last_in_set)

lemma joinb_Cons: "gs \<noteq> [] \<Longrightarrow> joinb d (f # gs) = f @ d # joinb d gs"
  by (cases gs) simp_all

lemma joinb_split: "0 < n \<Longrightarrow> n < length fs \<Longrightarrow> joinb d fs = joinb d (take n fs @ [joinb d (drop n fs)])"
proof (induction n arbitrary: fs)
  case (Suc n)
  obtain f gs where f: "fs = f # gs" "n < length gs" using Suc.prems by (cases fs) auto
  then have g: "gs \<noteq> []" by auto
  show ?case
  proof (cases "n = 0")
    case False
    then have "joinb d gs = joinb d (take n gs @ [joinb d (drop n gs)])" by (intro Suc.IH f(2)) simp
    then show ?thesis using f(1) g by (simp add: joinb_Cons)
  qed (use f(1) g in \<open>simp add: joinb_Cons\<close>)
qed simp

lemma set_joinb: "set (joinb d fs) \<subseteq> insert d (\<Union>f\<in>set fs. set f)"
  by (induction d fs rule: joinb.induct) auto

definition uri_segs_ok :: "mem list \<Rightarrow> bool" where
  "uri_segs_ok segs = (segs \<noteq> [] \<and> (\<forall>s\<in>set segs. plain 47 s \<and> SPACE \<notin> set s))"

lemma clean_uri_short:
  assumes "uri_segs_ok segs" "length segs < 64"
  shows "\<exists>st u. clean_uri (uri_text segs @ 0 # r) = Some (st, u) \<and> length u = length (uri_text segs @ 0 # r) \<and>
    (if length (stored segs) < 63 then st = KS_STATUS_SUCCESS \<and> c_str u = Some (uri_of (norm_segs (stored segs))) \<and>
       drop (length (uri_text segs) + 1) u = r
     else st = KS_STATUS_FAIL)"
proof -
  have ok: "segs \<noteq> []" "\<forall>s\<in>set segs. plain 47 s \<and> trimmed s" "\<forall>s\<in>set segs. 0 \<notin> set s"
    using assms(1) trimmed_no_space by (auto simp: uri_segs_ok_def plain_def)
  have lst: "last segs \<in> set segs" "\<forall>f\<in>set (butlast ([] # segs)). plain 47 f \<and> trimmed f"
    using ok(1,2) by (auto simp: plain_def trimmed_def dest: in_set_butlastD)
  let ?u = "0 # joinb 0 segs @ 0 # r"
  have st: "stored ([] # segs) = [] # stored segs" "joinb 0 ([] # segs) = 0 # joinb 0 segs"
    using ok(1) by (cases segs; simp)+
  have fo: "field_offs 0 ([] # stored segs) = 0 # field_offs 1 (stored segs)" by simp
  have t: "joinb 47 ([] # segs) = uri_text segs" by (rule joinb_uri_text [OF ok(1)])
  have len: "length ?u = length (uri_text segs @ 0 # r)"
    using arg_cong [OF t, of length] length_joinb [of 47 "[] # segs" 0] st(2) by simp
  have own: "take 2 (joinb 47 ([] # segs)) \<noteq> [CARET, CARET]" unfolding t using ok(1) by (cases segs) (auto simp: uri_text_def)
  have sep: "ks_separate_string (Some (uri_text segs @ 0 # r)) 47 64 = Some (0 # field_offs 1 (stored segs), Some ?u)"
    "map (str_at ?u) (field_offs 1 (stored segs)) = map Some (stored segs)"
    using separate_fields [of 47 "[] # segs" 64 r] lst ok own assms(2) plain_unquoted [of 47 "last segs"] st fo t
    by (auto simp: ESCAPE_META_def)
  have lf: "length (field_offs 1 (stored segs)) = length (stored segs)" using arg_cong [OF sep(2), of length] by simp
  obtain kept v where kv: "uri_segments ?u [] (field_offs 1 (stored segs)) = Some kept" "uri_write ?u 0 kept = Some v"
    "length v = length ?u" "drop (length (joinb 0 segs) + 2) v = r"
    "if norm_segs (stored segs) = [] then v = ?u else c_str v = Some (uri_text (norm_segs (stored segs)))"
    using clean_uri_join [OF refl refl sep(2) ok(3,1)] by blast
  have e: "length (uri_text segs) + 1 = length (joinb 0 segs) + 2" using len by simp
  show ?thesis
  proof (cases "length (stored segs) < 63")
    case True
    show ?thesis
    proof (cases "norm_segs (stored segs) = []")
      case N: True
      have "c_str ((joinb 0 segs @ 0 # r)[0 := 0]) = Some []" by (cases "joinb 0 segs") simp_all
      with N show ?thesis using True sep(1) kv lf len e
        by (auto simp: clean_uri_def mem_rd_def mem_wr_def uri_of_def)
    next
      case N: False
      obtain w x where "v = uri_text (norm_segs (stored segs)) @ 0 # w" using c_str_no_nul kv(5) N by auto
      moreover have "uri_text (norm_segs (stored segs)) ! 0 = 47" "uri_text (norm_segs (stored segs)) \<noteq> []"
        using N by (cases "norm_segs (stored segs)"; simp add: uri_text_def)+
      ultimately have "mem_rd v 0 = Some 47" by (simp add: mem_rd_def nth_append)
      then show ?thesis using True N sep(1) kv lf len e by (simp add: clean_uri_def uri_of_def)
    qed
  next
    case False
    have "length (stored segs) \<le> length segs" by (simp add: stored_def)
    then have "length (stored segs) = 63" using False assms(2) by simp
    then show ?thesis using sep(1) lf len by (simp add: clean_uri_def)
  qed
qed

lemma clean_uri_deep:
  assumes "uri_segs_ok segs" "64 \<le> length segs"
  shows "\<exists>u. clean_uri (uri_text segs @ 0 # r) = Some (KS_STATUS_FAIL, u) \<and> length u = length (uri_text segs @ 0 # r)"
proof -
  let ?fs = "[] # segs" and ?gs = "take 63 ([] # segs) @ [joinb 47 (drop 63 ([] # segs))]"
  have ok: "segs \<noteq> []" "\<forall>s\<in>set ?fs. plain 47 s \<and> SPACE \<notin> set s"
    using assms(1) by (auto simp: uri_segs_ok_def plain_def)
  have t: "joinb 47 ?gs = uri_text segs" using joinb_split [of 63 ?fs 47] assms(2) joinb_uri_text [OF ok(1)] by simp
  have "2 \<le> length (drop 63 ?fs)" using assms(2) by simp
  then obtain f g hs where d: "drop 63 ?fs = f # g # hs" by (metis Suc_le_length_iff numeral_2_eq_2)
  have su: "set (drop 63 ?fs) \<subseteq> set ?fs" "set (take 63 ?fs) \<subseteq> set ?fs" by (rule set_drop_subset set_take_subset)+
  have chars: "c \<noteq> 0 \<and> c \<noteq> ESCAPE_META \<and> c \<noteq> QUOTE \<and> c \<noteq> SPACE" if "c \<in> set (joinb 47 (drop 63 ?fs))" for c
  proof -
    have "c \<in> insert 47 (\<Union>f\<in>set (drop 63 ?fs). set f)" using that set_joinb by blast
    then consider "c = 47" | f where "f \<in> set ?fs" "c \<in> set f" using su(1) by blast
    then show ?thesis using ok(2) by cases (auto simp: plain_def ESCAPE_META_def)
  qed
  have l: "last ?gs = joinb 47 (drop 63 ?fs)" "butlast ?gs = take 63 ?fs" "last ?gs \<noteq> []" using d by simp_all
  have sep: "ks_separate_string (Some (uri_text segs @ 0 # r)) 47 64 = Some (field_offs 0 ?gs, Some (joinb 0 ?gs @ 0 # r))"
    "map (str_at (joinb 0 ?gs @ 0 # r)) (field_offs 0 ?gs) = map Some ?gs"
  proof -
    have 1: "\<forall>f\<in>set (butlast ?gs). plain 47 f \<and> trimmed f" unfolding l(2) using su(2) ok(2) trimmed_no_space by blast
    have 2: "unquoted (last ?gs)" "trimmed (last ?gs)" unfolding l(1) using chars trimmed_no_space
      by (auto simp: unquoted_def)
    have 3: "length ?gs = 64" "stored ?gs = ?gs" using assms(2) l(3) by (simp_all add: stored_def)
    have 4: "take 2 (joinb 47 ?gs) \<noteq> [CARET, CARET]" unfolding t using ok(1) by (cases segs) (auto simp: uri_text_def)
    have d: "47 \<noteq> (0 :: byte)" "47 \<noteq> ESCAPE_META" "47 \<noteq> QUOTE" "47 \<noteq> SPACE" by (simp_all add: ESCAPE_META_def)
    note sf = separate_fields [OF d _ 1 2 disjI2 [OF 3(1)] 4, of r]
    show "ks_separate_string (Some (uri_text segs @ 0 # r)) 47 64 = Some (field_offs 0 ?gs, Some (joinb 0 ?gs @ 0 # r))"
      "map (str_at (joinb 0 ?gs @ 0 # r)) (field_offs 0 ?gs) = map Some ?gs"
      using sf unfolding t 3(2) by blast+
  qed
  have "length (field_offs 0 ?gs) = 64" using arg_cong [OF sep(2), of length] assms(2) by simp
  moreover have "length (joinb 0 ?gs) = length (uri_text segs)" using t length_joinb by metis
  ultimately show ?thesis using sep(1) by (simp add: clean_uri_def)
qed

lemma norm_stored: "segs \<noteq> [] \<Longrightarrow> norm_segs (stored segs) = norm_segs segs"
proof -
  assume "segs \<noteq> []"
  then have "segs = butlast segs @ [last segs]" by simp
  then have "norm_segs segs = norm_step (norm_segs (butlast segs)) (last segs)"
    unfolding norm_segs_def by (metis foldl_Cons foldl_Nil foldl_append)
  then show ?thesis by (simp add: stored_def)
qed

section \<open>Query strings\<close>

lemma takeWhile_upto [simp]: "c \<notin> set a \<Longrightarrow> takeWhile (\<lambda>x. x \<noteq> c) (a @ c # b) = a"
  by (induction a) auto

lemma takeWhile_whole [simp]: "c \<notin> set a \<Longrightarrow> takeWhile (\<lambda>x. x \<noteq> c) a = a"
  by (induction a) auto

definition qs_part :: "mem \<times> mem \<Rightarrow> mem" where
  "qs_part kv = url_text (fst kv) @ 61 # url_text (snd kv)"

definition qs_text :: "(mem \<times> mem) list \<Rightarrow> mem" where
  "qs_text ps = joinb 38 (map qs_part ps)"

definition pair_ok :: "mem \<times> mem \<Rightarrow> bool" where
  "pair_ok kv = (0 \<notin> set (fst kv) \<and> 0 \<notin> set (snd kv) \<and> 61 \<notin> set (fst kv) \<and>
     (\<forall>c\<in>set (fst kv) \<union> set (snd kv). unat c < 128))"

lemma qs_part_chars:
  assumes "pair_ok kv"
  shows "38 \<notin> set (qs_part kv)" "43 \<notin> set (qs_part kv)" "0 \<notin> set (qs_part kv)"
proof -
  have a: "\<forall>c\<in>set (fst kv). unat c < 128" "\<forall>c\<in>set (snd kv). unat c < 128" using assms by (auto simp: pair_ok_def)
  have u: "38 \<in> set urlunsafe" "43 \<in> set urlunsafe" "38 \<noteq> PERCENT" "43 \<noteq> PERCENT" by (simp_all add: urlunsafe_def)
  show "38 \<notin> set (qs_part kv)" "43 \<notin> set (qs_part kv)"
    using url_text_chars [OF a(1), of 38] url_text_chars [OF a(2), of 38] url_text_chars [OF a(1), of 43]
      url_text_chars [OF a(2), of 43] u by (auto simp: qs_part_def)
  show "0 \<notin> set (qs_part kv)" using url_text_no_nul a assms by (auto simp: qs_part_def pair_ok_def)
qed

lemma qs_part_decode:
  assumes "pair_ok (k, v)"
  shows "\<exists>e b. ks_url_decode (qs_part (k, v) @ [0]) = Some (e, b) \<and> c_str b = Some (k @ 61 # v) \<and>
    length b = length (qs_part (k, v)) + 1"
proof -
  let ?t = "qs_part (k, v) @ [0]" and ?n = "length (url_text k)"
  have ok: "0 \<notin> set k" "0 \<notin> set v" "\<forall>c\<in>set k. unat c < 128" "\<forall>c\<in>set v. unat c < 128" using assms by (auto simp: pair_ok_def)
  have z: "0 \<notin> set (61 # url_text v)" using url_text_no_nul [OF ok(2,4)] by simp
  obtain b1 where b1: "url_decode_loop 0 0 ?t = url_decode_loop ?n (length k) b1" "take (length k) b1 = k"
    "length b1 = length ?t" "drop ?n b1 = (61 # url_text v) @ [0]"
    using url_decode_loop_prefix [of 0 ?t k "61 # url_text v" "[]" 0] ok z by (auto simp: qs_part_def)
  have le: "length k \<le> ?n"
  proof (induction k)
    case (Cons c k)
    then show ?case by (cases "url_char c") (auto simp: url_char_def split: if_splits)
  qed simp
  have n: "?n < length b1" "b1 ! ?n = 61" using drop_eq_Cons [of ?n b1 61] b1(4) by auto
  have st: "str_at b1 ?n = Some (61 # url_text v)" using str_at_prefix [of ?n b1 "61 # url_text v" "[]"] b1(4) z by simp
  let ?b = "blit (length k) [61] b1"
  have "length k < length b1" using le n(1) by simp
  then have w: "mem_wr b1 (length k) 61 = Some ?b" by (rule mem_wr_blit)
  have 2: "url_decode_loop ?n (length k) b1 = url_decode_loop (?n + 1) (length k + 1) ?b"
    using n st w by (subst url_decode_loop.simps) simp
  have d: "drop (?n + 1) ?b = url_text v @ 0 # []"
  proof -
    have "drop (?n + 1) ?b = drop (?n + 1) b1" using le n(1) by (intro drop_blit_behind) auto
    then show ?thesis using arg_cong [OF b1(4), of "drop 1"] by simp
  qed
  obtain b2 where b2: "url_decode_loop (?n + 1) (length k + 1) ?b = Some (?n + 1 + length (url_text v), length k + 1 + length v, b2)"
    "take (length k + 1 + length v) b2 = take (length k + 1) ?b @ v" "length b2 = length ?b"
    using url_decode_loop_text [OF d _ ok(2,4), of "length k + 1"] le by auto
  have t: "take (length k + 1 + length v) b2 = k @ 61 # v"
    using b2(2) take_blit_step [of "length k" b1 61] \<open>length k < length b1\<close> b1(2) by simp
  have lv: "length v \<le> length (url_text v)"
  proof (induction v)
    case (Cons c v)
    then show ?case by (cases "url_char c") (auto simp: url_char_def split: if_splits)
  qed simp
  have l2: "length b2 = length ?t" using b2(3) b1(3) \<open>length k < length b1\<close> by simp
  then have q: "length k + 1 + length v < length b2" using le lv by (simp add: qs_part_def)
  have "ks_url_decode ?t = Some (?n + 1 + length (url_text v), b2[length k + 1 + length v := 0])"
    using b1(1) 2 b2(1) q by (simp add: ks_url_decode_def mem_wr_def)
  moreover have "b2[length k + 1 + length v := 0] = (k @ 61 # v) @ 0 # drop (Suc (length k + 1 + length v)) b2"
    using t q by (simp add: upd_conv_take_nth_drop)
  moreover have "0 \<notin> set (k @ 61 # v)" using ok by simp
  ultimately have "ks_url_decode ?t = Some (?n + 1 + length (url_text v), b2[length k + 1 + length v := 0])"
    "c_str (b2[length k + 1 + length v := 0]) = Some (k @ 61 # v)"
    using c_str_append [of "k @ 61 # v"] by (metis, metis)
  moreover have "length (b2[length k + 1 + length v := 0]) = length (qs_part (k, v)) + 1" using l2 by simp
  ultimately show ?thesis by blast
qed


text \<open>The request with more headers.\<close>

fun add_headers :: "kws_request \<Rightarrow> (mem \<times> mem) list \<Rightarrow> kws_request" where
  "add_headers r [] = r"
| "add_headers r ((k, v) # ps) =
     add_headers (r\<lparr>headers_k := (headers_k r)[total_headers r := Some k],
       headers_v := (headers_v r)[total_headers r := Some v], total_headers := total_headers r + 1\<rparr>) ps"

definition arrays_ok :: "kws_request \<Rightarrow> bool" where
  "arrays_ok r = (length (headers_k r) = KWS_MAX_HEADERS \<and> length (headers_v r) = KWS_MAX_HEADERS \<and>
     total_headers r \<le> KWS_MAX_HEADERS)"

lemma qs_loop_part:
  assumes "pair_ok (k, v)" "arrays_ok r" "total_headers r < KWS_MAX_HEADERS"
    and "s = qs_part (k, v) \<and> t = None \<or> (\<exists>u. s = qs_part (k, v) @ 38 # u \<and> t = Some u)"
  shows "\<exists>b. qs_loop r q s = (case t of None \<Rightarrow> Some (add_headers r [(k, v)], None, b)
    | Some u \<Rightarrow> do { (r, q', b') \<leftarrow> qs_loop (add_headers r [(k, v)]) (q + length (qs_part (k, v)) + 1) u; Some (r, q', b @ b') })"
proof -
  let ?p = "qs_part (k, v)"
  note ch = qs_part_chars [OF assms(1)]
  have tw: "takeWhile (\<lambda>c. c \<noteq> 38) s = ?p" "drop (length ?p + 1) s = (case t of None \<Rightarrow> [] | Some u \<Rightarrow> u)"
      "(38 \<in> set s) = (t \<noteq> None)"
    using assms(4) ch(1) by auto
  have pl: "map (\<lambda>c. if c = 43 then 32 else c) ?p = ?p" using ch(2) by (auto intro!: map_idI)
  obtain e b where d: "ks_url_decode (?p @ [0]) = Some (e, b)" "c_str b = Some (k @ 61 # v)" "length b = length ?p + 1"
    using qs_part_decode [OF assms(1)] by blast
  have k: "takeWhile (\<lambda>c. c \<noteq> 61) (k @ 61 # v) = k" using assms(1) by (simp add: pair_ok_def)
  have "length k < length b" using d(2) c_str_no_nul by fastforce
  then obtain b' where "mem_wr b (length k) 0 = Some b'" by (simp add: mem_wr_def)
  then have st: "qs_store r b = Some (add_headers r [(k, v)], b')"
    using d(2) k assms(2,3) by (simp add: qs_store_def Let_def mem_wr_def arrays_ok_def)
  have "qs_loop r q s = (case t of None \<Rightarrow> Some (add_headers r [(k, v)], None, b')
    | Some u \<Rightarrow> do { (r, q', b'') \<leftarrow> qs_loop (add_headers r [(k, v)]) (q + length ?p + 1) u; Some (r, q', b' @ b'') })"
    using assms(3) tw pl d(1) st by (subst qs_loop.simps) (auto simp: Let_def split: option.splits)
  then show ?thesis by blast
qed

lemma add_headers_one:
  "arrays_ok r \<Longrightarrow> total_headers r < KWS_MAX_HEADERS \<Longrightarrow>
   arrays_ok (add_headers r [(k, v)]) \<and> total_headers (add_headers r [(k, v)]) = total_headers r + 1"
  by (simp add: arrays_ok_def)

lemma add_headers_append: "add_headers r (ps @ qs) = add_headers (add_headers r ps) qs"
  by (induction r ps rule: add_headers.induct) auto

lemma qs_loop_pairs:
  "ps \<noteq> [] \<Longrightarrow> \<forall>kv\<in>set ps. pair_ok kv \<Longrightarrow> arrays_ok r \<Longrightarrow>
   \<exists>n b. qs_loop r q (qs_text ps) = Some (add_headers r (take (KWS_MAX_HEADERS - total_headers r) ps),
       (if length ps \<le> KWS_MAX_HEADERS - total_headers r then None else Some (q + n)), b) \<and>
     (total_headers r < KWS_MAX_HEADERS \<longrightarrow> 0 < n)"
proof (induction ps arbitrary: r q rule: induct_list012)
  case (2 kv)
  obtain k v where kv: "kv = (k, v)" by (cases kv)
  show ?case
  proof (cases "total_headers r < KWS_MAX_HEADERS")
    case True
    then show ?thesis using qs_loop_part [of k v r "qs_text [kv]" None q] "2.prems" kv by (auto simp: qs_text_def)
  next
    case False
    then show ?thesis by (subst qs_loop.simps) auto
  qed
next
  case (3 kv kw ps)
  obtain k v where kv: "kv = (k, v)" by (cases kv)
  show ?case
  proof (cases "total_headers r < KWS_MAX_HEADERS")
    case True
    let ?r = "add_headers r [(k, v)]" and ?q = "q + length (qs_part (k, v)) + 1"
    have a: "arrays_ok ?r" "total_headers ?r = total_headers r + 1" using add_headers_one "3.prems"(3) True by blast+
    obtain n b where nb: "qs_loop ?r ?q (qs_text (kw # ps)) = Some (add_headers ?r (take (KWS_MAX_HEADERS - total_headers ?r) (kw # ps)),
       (if length (kw # ps) \<le> KWS_MAX_HEADERS - total_headers ?r then None else Some (?q + n)), b)"
      using "3.IH"(2) [of ?r ?q] "3.prems"(2) a(1) by auto
    obtain b' where b': "qs_loop r q (qs_text (kv # kw # ps)) =
        do { (r, q', b'') \<leftarrow> qs_loop ?r ?q (qs_text (kw # ps)); Some (r, q', b' @ b'') }"
      using qs_loop_part [of k v r "qs_text (kv # kw # ps)" "Some (qs_text (kw # ps))" q] "3.prems" kv True
      by (auto simp: qs_text_def)
    obtain m where m: "KWS_MAX_HEADERS - total_headers r = Suc m" "KWS_MAX_HEADERS - total_headers ?r = m"
      using True a(2) by (metis Suc_diff_Suc add.commute diff_Suc_eq_diff_pred One_nat_def plus_1_eq_Suc diff_Suc_1)
    show ?thesis unfolding b' nb m
      by (intro exI [of _ "length (qs_part (k, v)) + 1 + n"] exI [of _ "b' @ b"]) (use True in \<open>simp add: kv m\<close>)
  next
    case False
    then show ?thesis by (subst qs_loop.simps) auto
  qed
qed simp

lemma add_headers_eq:
  "arrays_ok r \<Longrightarrow> total_headers r + length ps \<le> KWS_MAX_HEADERS \<Longrightarrow>
   add_headers r ps = r\<lparr>
     headers_k := take (total_headers r) (headers_k r) @ map (Some \<circ> fst) ps @ drop (total_headers r + length ps) (headers_k r),
     headers_v := take (total_headers r) (headers_v r) @ map (Some \<circ> snd) ps @ drop (total_headers r + length ps) (headers_v r),
     total_headers := total_headers r + length ps\<rparr>"
proof (induction r ps rule: add_headers.induct)
  case (2 r k v ps)
  let ?r = "add_headers r [(k, v)]" and ?t = "total_headers r"
  have a: "arrays_ok ?r" "total_headers ?r = ?t + 1" using add_headers_one [OF "2.prems"(1), of k v] "2.prems"(2) by auto
  have l: "?t < length (headers_k r)" "?t < length (headers_v r)" using "2.prems" by (auto simp: arrays_ok_def)
  have "take (?t + 1) ((headers_k r)[?t := Some k]) = take ?t (headers_k r) @ [Some k]"
    "take (?t + 1) ((headers_v r)[?t := Some v]) = take ?t (headers_v r) @ [Some v]"
    using l by (simp_all add: take_Suc_conv_app_nth)
  then show ?case using "2.IH" a "2.prems"(2) by simp
qed simp

lemma qs_text_no_nul: "\<forall>kv\<in>set ps. pair_ok kv \<Longrightarrow> 0 \<notin> set (qs_text ps)"
  using set_joinb [of 38 "map qs_part ps"] qs_part_chars(3) by (fastforce simp: qs_text_def)

section \<open>Properties of paths and query strings\<close>

text \<open>
  C10: A request path is cleaned to its normal form: empty segments and \<open>.\<close> vanish, \<open>..\<close> removes the segment before
  it and never climbs above the root, so no such segment is left; the text stays inside its buffer, what
  follows it is not touched, and a path of too many segments is refused. This holds for paths without
  quotes, backslashes and spaces.\<close>

theorem clean_uri_normal:
  assumes "uri_segs_ok segs"
  shows "(\<exists>st u. clean_uri (uri_text segs @ 0 # r) = Some (st, u) \<and> length u = length (uri_text segs @ 0 # r) \<and>
      (if length (stored segs) < 63 then st = KS_STATUS_SUCCESS \<and> c_str u = Some (uri_of (norm_segs segs)) \<and>
         drop (length (uri_text segs) + 1) u = r
       else st = KS_STATUS_FAIL)) \<and>
    set (norm_segs segs) \<inter> {[], [46], [46, 46]} = {}"
proof
  have ne: "segs \<noteq> []" using assms by (simp add: uri_segs_ok_def)
  show "set (norm_segs segs) \<inter> {[], [46], [46, 46]} = {}" unfolding norm_segs_def by (rule foldl_norm_ok) simp
  show "\<exists>st u. clean_uri (uri_text segs @ 0 # r) = Some (st, u) \<and> length u = length (uri_text segs @ 0 # r) \<and>
      (if length (stored segs) < 63 then st = KS_STATUS_SUCCESS \<and> c_str u = Some (uri_of (norm_segs segs)) \<and>
         drop (length (uri_text segs) + 1) u = r
       else st = KS_STATUS_FAIL)"
  proof (cases "length segs < 64")
    case True
    show ?thesis using clean_uri_short [OF assms True, of r] unfolding norm_stored [OF ne] .
  next
    case False
    then have "\<not> length (stored segs) < 63" by (auto simp: stored_def)
    then show ?thesis using clean_uri_deep [OF assms, of r] False by auto
  qed
qed

theorem clean_uri_normal_witness:
  "\<exists>u. clean_uri (map of_char ''/a/../b/./c'' @ [0, 33]) = Some (KS_STATUS_SUCCESS, u) \<and> c_str u = Some (map of_char ''/b/c'')"
  using clean_uri_normal [of "[[97], [46, 46], [98], [46], [99]]" "[33]"]
  by (auto simp: uri_segs_ok_def plain_def ESCAPE_META_def uri_text_def uri_of_def norm_segs_def stored_def)

text \<open>A quoted part of the path is one segment for the separation, so the segments inside of it survive.\<close>

lemma clean_uri_quoted:
  "\<exists>u. clean_uri (47 # 39 # map of_char ''../../etc'' @ [39, 0]) = Some (KS_STATUS_SUCCESS, u) \<and>
     c_str u = Some (map of_char ''/../../etc'')"
proof -
  have "map_option (\<lambda>(st, u). (st, c_str u)) (clean_uri (47 # 39 # map of_char ''../../etc'' @ [39, 0])) =
      Some (KS_STATUS_SUCCESS, Some (map of_char ''/../../etc''))" by code_simp
  then show ?thesis by auto
qed

text \<open>
  C33: Query strings are read back: the pairs of names and values that were URL encoded as \<open>ks_url_encode\<close> does
  it and joined by \<open>=\<close> and \<open>&\<close> are appended, decoded and in order, to the headers of the request. This holds
  for names without \<open>=\<close> (an encoded one is decoded before the separator is searched), for names and values of
  bytes from 1 to 127, and when the header arrays have room for all the pairs.\<close>

theorem kws_parse_qs_pairs:
  assumes "ps \<noteq> []" "\<forall>kv\<in>set ps. pair_ok kv" "arrays_ok r" "total_headers r + length ps \<le> KWS_MAX_HEADERS"
  shows "\<exists>b. kws_parse_qs r (Some (qs_text ps @ 0 # rest)) = Some (KS_STATUS_SUCCESS, r\<lparr>
     headers_k := take (total_headers r) (headers_k r) @ map (Some \<circ> fst) ps @ drop (total_headers r + length ps) (headers_k r),
     headers_v := take (total_headers r) (headers_v r) @ map (Some \<circ> snd) ps @ drop (total_headers r + length ps) (headers_v r),
     total_headers := total_headers r + length ps\<rparr>, Some (b @ rest))"
proof -
  have "length ps \<le> KWS_MAX_HEADERS - total_headers r" using assms(4) by simp
  then obtain x where "qs_loop r 0 (qs_text ps) = Some (add_headers r ps, None, x)"
    using qs_loop_pairs [OF assms(1-3), of 0] by auto
  then show ?thesis using c_str_append [OF qs_text_no_nul [OF assms(2)], of rest] add_headers_eq [OF assms(3,4)]
    by (simp add: kws_parse_qs_def)
qed

theorem kws_parse_qs_pairs_witness:
  "\<exists>b. kws_parse_qs request_zero (Some (qs_text [([97], [38, 61]), ([98], [32])] @ [0])) = Some (KS_STATUS_SUCCESS, request_zero\<lparr>
     headers_k := [Some [97], Some [98]] @ replicate 62 None,
     headers_v := [Some [38, 61], Some [32]] @ replicate 62 None, total_headers := Suc (Suc 0)\<rparr>, Some b)"
  using kws_parse_qs_pairs [of "[([97], [38, 61]), ([98], [32])]" request_zero "[]"]
  by (simp add: pair_ok_def arrays_ok_def request_zero_def KWS_MAX_HEADERS_def)

text \<open>
  When the query string of a request has more pairs than the header arrays have room for, the parser
  stops inside its copy of the string and releases that place, which is not the start of an allocated
  block: whoever sends such a request makes the program fault.\<close>

lemma kws_parse_qs_bad_free:
  assumes "\<forall>kv\<in>set ps. pair_ok kv" "arrays_ok r" "rbuf r = Some b" "rqs r = Some p" "str_at b p = Some (qs_text ps)"
    and "total_headers r < KWS_MAX_HEADERS" "KWS_MAX_HEADERS < total_headers r + length ps"
  shows "kws_parse_qs r None = None"
proof -
  have "ps \<noteq> []" "\<not> length ps \<le> KWS_MAX_HEADERS - total_headers r" using assms(6,7) by auto
  then obtain n x where "qs_loop r 0 (qs_text ps) = Some (add_headers r (take (KWS_MAX_HEADERS - total_headers r) ps), Some n, x)" "0 < n"
    using qs_loop_pairs [OF _ assms(1,2), of 0] assms(6) by auto
  then show ?thesis using assms(3-5) by (simp add: kws_parse_qs_def)
qed

end
