(* ===== verification/Ks_Kws_Http_Props.thy ===== *)
theory Ks_Kws_Http_Props
  imports Ks_Kws_Path Ks_Kws_Props
begin

text \<open>
  A whole request: for a well-formed one \<open>kws_parse_header\<close> finds the end of the headers, the method, the
  path, the query and the headers, and keeps the bytes behind them. The parser cuts one buffer into
  strings in place; each lemma says which part of the buffer it leaves as it was.
\<close>

section \<open>The parts of a request\<close>

lemma strstr_at_Cons: "strstr_at (c # s) d (Suc i) = map_option Suc (strstr_at s d i)"
proof (induction s d i rule: strstr_at.induct)
  case (1 s d i)
  then show ?case by (subst (1 2) strstr_at.simps) (auto simp: option.map_comp)
qed

lemma strstr_at_0: "d \<noteq> [] \<Longrightarrow> strstr_at (c # s) d 0 = (if take (length d) (c # s) = d then Some 0 else map_option Suc (strstr_at s d 0))"
proof -
  assume "d \<noteq> []"
  have "take (length d) (c # s) = d \<Longrightarrow> length d \<le> Suc (length s)" by (metis length_Cons length_take min.cobounded1)
  moreover have "strstr_at s d 0 = None" if "Suc (length s) < length d" using that by (subst strstr_at.simps) simp
  ultimately show ?thesis by (subst strstr_at.simps) (auto simp: strstr_at_Cons)
qed

lemma strstr_skip: "hd d \<notin> set a \<Longrightarrow> d \<noteq> [] \<Longrightarrow> strstr_at (a @ s) d 0 = map_option (\<lambda>i. i + length a) (strstr_at s d 0)"
proof (induction a)
  case (Cons c a)
  then show ?case by (cases d) (auto simp: strstr_at_0 option.map_comp comp_def)
qed (simp add: option.map_ident)

text \<open>Lines joined by CRLF.\<close>

fun join_lines :: "mem list \<Rightarrow> mem" where
  "join_lines [] = []"
| "join_lines [l] = l"
| "join_lines (l # k # ls) = l @ 13 # 10 # join_lines (k # ls)"

lemma strstr_lines:
  "ls \<noteq> [] \<Longrightarrow> \<forall>l\<in>set ls. l \<noteq> [] \<and> 13 \<notin> set l \<Longrightarrow>
   strstr_at (join_lines ls @ CRLF @ CRLF @ s) (CRLF @ CRLF) 0 = Some (length (join_lines ls))"
proof (induction ls rule: induct_list012)
  case (2 l)
  have "strstr_at (CRLF @ CRLF @ s) (CRLF @ CRLF) 0 = Some 0" by (simp add: CRLF_def strstr_at_0)
  then show ?case using "2.prems" strstr_skip [of "CRLF @ CRLF" l "CRLF @ CRLF @ s"] by (simp add: CRLF_def)
next
  case (3 l k ls)
  let ?t = "join_lines (k # ls) @ CRLF @ CRLF @ s"
  obtain c t where c: "?t = c # t" "c \<noteq> 13" using "3.prems"(2) by (cases k; cases ls) auto
  have "strstr_at (13 # 10 # ?t) (CRLF @ CRLF) 0 = map_option (\<lambda>i. i + 2) (strstr_at ?t (CRLF @ CRLF) 0)"
    unfolding c(1) using c(2) by (simp add: strstr_at_0 CRLF_def option.map_comp comp_def)
  then show ?case using "3.IH"(2) "3.prems" strstr_skip [of "CRLF @ CRLF" l "13 # 10 # ?t"] by (simp add: CRLF_def)
qed simp

lemma sanity_loop_space:
  "drop p buf = m @ 32 # r \<Longrightarrow> 32 \<notin> set m \<Longrightarrow> length m < n \<Longrightarrow> sanity_loop buf p n = Some (int (n - length m - 1))"
proof (induction m arbitrary: p n)
  case Nil
  then show ?case using drop_eq_Cons [of p buf 32 r] by (cases n) (auto simp: mem_rd_def)
next
  case (Cons c m)
  then show ?case using drop_eq_Cons [of p buf c "m @ 32 # r"] by (cases n) (auto simp: mem_rd_def)
qed

section \<open>Header lines\<close>

definition header_ok :: "mem \<times> mem \<Rightarrow> bool" where
  "header_ok kv = (fst kv \<noteq> [] \<and> plain 58 (fst kv) \<and> trimmed (fst kv) \<and> snd kv \<noteq> [] \<and> unquoted (snd kv) \<and> trimmed (snd kv) \<and>
     10 \<notin> set (fst kv) \<and> 13 \<notin> set (fst kv) \<and> 10 \<notin> set (snd kv) \<and> 13 \<notin> set (snd kv) \<and> take 2 (fst kv @ [58]) \<noteq> [CARET, CARET])"

definition header_line :: "mem \<times> mem \<Rightarrow> mem" where
  "header_line kv = fst kv @ 58 # 32 # snd kv"

lemma separate_header:
  assumes "plain 58 k" "trimmed k" "k \<noteq> []" "unquoted w" "trimmed w" "take 2 (k @ [58]) \<noteq> [CARET, CARET]"
  shows "ks_separate_string (Some (k @ 58 # 32 # w @ 0 # r)) 58 2 = Some ([0, length k + 2], Some (k @ 0 # 32 # w @ 0 # r))"
proof -
  let ?t = "(k @ 58 # 32 # w) @ 0 # r" and ?u = "k @ 0 # 32 # w @ 0 # r"
  have "take 2 (k @ 58 # 32 # w) \<noteq> [CARET, CARET]" using assms(3,6) by (cases k; cases "tl k") auto
  then have s: "ks_separate_string (Some ?t) 58 2 = map_option (map_prod id Some) (separate_string_char_delim ?t 0 58 2)"
    by (intro separate_char) auto
  have "sep_char_loop 58 2 START 0 False [] ?t = Some ([0, length k + 1], ?u)"
    using sep_char_fields [of 58 "[k, 32 # w]" "[]" 2 0 ?t r] assms(1,4)
    by (simp add: ESCAPE_META_def unquoted_def stored_def)
  moreover have "cleanup_separated_string ?u 0 58 = Some (0, ?u)"
    using cleanup_unquoted [of 0 ?u 0 k "32 # w @ 0 # r" 58] plain_unquoted [OF assms(1)] assms(2) by simp
  moreover have "cleanup_separated_string ?u (length k + 1) 58 = Some (length k + 2, ?u)"
    using cleanup_unquoted [of "length k + 1" ?u 1 w r 58] assms(4,5) by simp
  ultimately show ?thesis using s by (simp add: separate_string_char_delim_def)
qed


text \<open>What the known headers leave alone.\<close>

definition same_core :: "kws_request \<Rightarrow> kws_request \<Rightarrow> bool" where
  "same_core r q = (headers_k q = headers_k r \<and> headers_v q = headers_v r \<and> total_headers q = total_headers r \<and>
     rmethod q = rmethod r \<and> ruri q = ruri r \<and> rqs q = rqs r \<and> rkeepalive q = rkeepalive r \<and> rbuf q = rbuf r)"

lemma known_header_frame:
  assumes "str_at buf val = Some v"
  shows "\<exists>r' b. known_header hk val (r, buf) = Some (r', b) \<and> same_core r r' \<and> take val b = take val buf \<and>
    length b = length buf \<and> drop (val + length v) b = drop (val + length v) buf"
proof (cases "\<not> starts_ci hk ''User-Agent'' \<and> starts_ci hk ''Host'' \<and> 58 \<in> set v")
  case True
  obtain a c where v: "v = a @ 58 # c" "58 \<notin> set a" using True by (metis split_list_first)
  have l: "val + length v < length buf" by (rule str_at_end [OF assms])
  let ?p = "val + length a" and ?b = "buf[val + length a := 0]"
  have p: "strchr_at buf val 58 = Some (Some ?p)" using strchr_at_Some [of buf val a 58 c] assms v by simp
  have wr: "mem_wr buf ?p 0 = Some ?b" using l v by (simp add: mem_wr_def)
  obtain r where r: "drop val buf = v @ 0 # r" "0 \<notin> set v"
    using assms c_str_no_nul by (fastforce simp: str_at_def split: if_splits)
  have "drop (?p + 1) ?b = c @ 0 # r" using arg_cong [OF r(1), of "drop (length a + 1)"] v by (simp add: add.commute)
  then have "str_at ?b (?p + 1) = Some c" using r(2) v by (intro str_at_prefix) auto
  then show ?thesis using True p wr v(1) by (auto simp: known_header_def Let_def same_core_def)
next
  case False
  then show ?thesis using assms strchr_at_None [OF assms, of 58]
    by (auto simp: known_header_def Let_def same_core_def)
qed

text \<open>One turn of the loop over the lines.\<close>

lemma header_loop_turn:
  assumes "separate_at buf h 58 2 = Some ([a, c], b1)" "skip_spaces b1 c = Some val" "str_at b1 val = Some w"
    "(if w \<noteq> [] \<and> last w = 13 then mem_wr b1 (val + length w - 1) 0 else Some b1) = Some b2"
    "str_at b2 a = Some k" "str_at b2 val = Some v" "i < length (headers_k r)" "i < length (headers_v r)"
    "known_header k val (r\<lparr>headers_k := (headers_k r)[i := Some k], headers_v := (headers_v r)[i := Some v]\<rparr>, b2) = Some (r', b)"
  shows "header_loop i (h # hs) r buf = header_loop (i + 1) hs r' b"
  using assms by (simp add: mem_wr_Some [of i])

lemma header_loop_line:
  assumes kv: "header_ok (k, v)" and d: "drop h buf = header_line (k, v) @ cr @ 0 # rest" "cr = [] \<or> cr = [13]"
    and i: "i < length (headers_k r)" "i < length (headers_v r)"
  shows "\<exists>r' b. header_loop i (h # hs) r buf = header_loop (i + 1) hs r' b \<and> take h b = take h buf \<and> length b = length buf \<and>
    drop (h + length (header_line (k, v) @ cr) + 1) b = rest \<and>
    same_core (r\<lparr>headers_k := (headers_k r)[i := Some k], headers_v := (headers_v r)[i := Some v]\<rparr>) r'"
proof -
  have ok: "plain 58 k" "trimmed k" "k \<noteq> []" "v \<noteq> []" "13 \<notin> set v" "take 2 (k @ [58]) \<noteq> [CARET, CARET]"
    "unquoted v" "trimmed v" using kv by (auto simp: header_ok_def)
  let ?w = "v @ cr"
  have w: "unquoted ?w" using ok(7) d(2) by (elim disjE) (simp_all add: unquoted_def ESCAPE_META_def ball_Un)
  have tw: "trimmed ?w" using ok(4,8) d(2) by (elim disjE) (simp_all add: trimmed_def)
  have hl: "h < length buf" using d(1) ok(3) by (metis drop_eq_Nil header_line_def append_is_Nil_conv not_le fst_conv)
  let ?val = "h + length k + 2"
  define b1 where "b1 = take h buf @ k @ 0 # 32 # ?w @ 0 # rest"
  have sep: "separate_at buf h 58 2 = Some ([h, ?val], b1)"
    using separate_header [OF ok(1-3) w tw ok(6), of rest] d(1) hl by (simp add: separate_at_def header_line_def b1_def)
  have d1: "drop ?val b1 = ?w @ 0 # rest" using hl by (simp add: b1_def)
  have sk: "skip_spaces b1 ?val = Some ?val" using skip_spaces_trimmed [of ?val b1 0 ?w rest] d1 tw by simp
  have z: "0 \<notin> set ?w" using w by (auto simp: unquoted_def)
  have st1: "str_at b1 ?val = Some ?w" by (rule str_at_prefix [OF d1 z])
  define rr where "rr = (if cr = [] then rest else 0 # rest)"
  define b2 where "b2 = take h buf @ k @ 0 # 32 # v @ 0 # rr"
  have cut: "(if ?w \<noteq> [] \<and> last ?w = 13 then mem_wr b1 (?val + length ?w - 1) 0 else Some b1) = Some b2"
  proof (cases "cr = []")
    case True
    then have "last ?w \<noteq> 13" using ok(4,5) last_in_set by force
    then show ?thesis using True by (simp add: b1_def b2_def rr_def)
  next
    case False
    then have c: "cr = [13]" using d(2) by simp
    have "b1 = (take h buf @ k @ 0 # 32 # v) @ 13 # 0 # rest" "length (take h buf @ k @ 0 # 32 # v) = ?val + length ?w - 1"
      using c hl by (simp_all add: b1_def)
    then have "mem_wr b1 (?val + length ?w - 1) 0 = Some ((take h buf @ k @ 0 # 32 # v) @ 0 # 0 # rest)"
      using mem_wr_mid [of "take h buf @ k @ 0 # 32 # v" 13 "0 # rest" 0] by metis
    then show ?thesis using c by (simp add: b2_def rr_def)
  qed
  have d2: "drop h b2 = k @ 0 # 32 # v @ 0 # rr" "drop ?val b2 = v @ 0 # rr" using hl by (simp_all add: b2_def)
  have st2: "str_at b2 h = Some k" "str_at b2 ?val = Some v"
    using str_at_prefix [OF d2(1)] str_at_prefix [OF d2(2)] ok(1) z by (auto simp: plain_def)
  have len: "length b1 = length buf" "length b2 = length buf"
  proof -
    have e: "length buf = h + length (header_line (k, v) @ cr @ 0 # rest)"
      using arg_cong [OF d(1), of length] hl by simp
    then show "length b1 = length buf" using hl by (simp add: b1_def header_line_def)
    show "length b2 = length buf" using e hl d(2) by (auto simp: b2_def header_line_def rr_def)
  qed
  let ?r = "r\<lparr>headers_k := (headers_k r)[i := Some k], headers_v := (headers_v r)[i := Some v]\<rparr>"
  obtain r' b where kh: "known_header k ?val (?r, b2) = Some (r', b)" "same_core ?r r'" "take ?val b = take ?val b2"
    "length b = length b2" "drop (?val + length v) b = drop (?val + length v) b2"
    using known_header_frame [OF st2(2), of k ?r] by blast
  have "header_loop i (h # hs) r buf = header_loop (i + 1) hs r' b"
    by (rule header_loop_turn [OF sep sk st1 cut st2 i kh(1)])
  moreover have "take h b = take h buf"
    using arg_cong [OF kh(3), of "take h"] hl by (simp add: b2_def)
  moreover have "drop (h + length (header_line (k, v) @ cr) + 1) b = rest"
  proof -
    have "drop (?val + length v) b = 0 # rr" using kh(5) d2(2) by (metis append_eq_conv_conj drop_drop add.commute)
    then have "drop (length cr + 1) (drop (?val + length v) b) = rest" using d(2) by (auto simp: rr_def)
    then show ?thesis by (simp add: header_line_def ac_simps)
  qed
  ultimately show ?thesis using kh(2,4) len(2) by metis
qed

text \<open>The lines as \<open>ks_separate_string\<close> leaves them: all but the last still end with CR.\<close>

fun cr_lines :: "(mem \<times> mem) list \<Rightarrow> mem list" where
  "cr_lines [] = []"
| "cr_lines [h] = [header_line h]"
| "cr_lines (h # g # hs) = (header_line h @ [13]) # cr_lines (g # hs)"

lemma cr_lines_join: "joinb 10 (cr_lines hs) = join_lines (map header_line hs)"
proof (induction hs rule: cr_lines.induct)
  case (3 h g hs)
  then show ?case by (cases hs) auto
qed auto

lemma cr_lines_not_Nil [simp]: "cr_lines (g # hs) \<noteq> []"
  by (cases hs) auto

lemma header_loop_lines:
  "hs \<noteq> [] \<Longrightarrow> \<forall>kv\<in>set hs. header_ok kv \<Longrightarrow> drop p buf = joinb 0 (cr_lines hs) @ 0 # rest \<Longrightarrow>
   i + length hs \<le> length (headers_k r) \<Longrightarrow> i + length hs \<le> length (headers_v r) \<Longrightarrow>
   \<exists>r' b. header_loop i (field_offs p (cr_lines hs)) r buf = Some (True, r', b) \<and> take p b = take p buf \<and>
     length b = length buf \<and>
     same_core (r\<lparr>headers_k := take i (headers_k r) @ map (Some \<circ> fst) hs @ drop (i + length hs) (headers_k r),
       headers_v := take i (headers_v r) @ map (Some \<circ> snd) hs @ drop (i + length hs) (headers_v r),
       total_headers := i + length hs\<rparr>) r'"
proof (induction hs arbitrary: i p r buf rule: induct_list012)
  case (2 kv)
  obtain k v where kv: "kv = (k, v)" by (cases kv)
  obtain r' b where s: "header_loop i [p] r buf = header_loop (i + 1) [] r' b" "take p b = take p buf"
    "length b = length buf" "same_core (r\<lparr>headers_k := (headers_k r)[i := Some k], headers_v := (headers_v r)[i := Some v]\<rparr>) r'"
    using header_loop_line [of k v p buf "[]" rest i r "[]"] "2.prems" by (auto simp: kv)
  have u: "(headers_k r)[i := Some k] = take i (headers_k r) @ Some k # drop (Suc i) (headers_k r)"
    "(headers_v r)[i := Some v] = take i (headers_v r) @ Some v # drop (Suc i) (headers_v r)"
    using "2.prems"(4,5) by (simp_all add: upd_conv_take_nth_drop)
  show ?case using s by (auto simp: kv same_core_def u)
next
  case (3 kv kw hs)
  obtain k v where kv: "kv = (k, v)" by (cases kv)
  let ?l = "header_line (k, v) @ [13]" and ?ls = "cr_lines (kw # hs)" and ?n = "length (kw # hs)"
  have d: "drop p buf = header_line (k, v) @ [13] @ 0 # joinb 0 ?ls @ 0 # rest"
    using "3.prems"(3) by (simp add: kv joinb_Cons)
  obtain r1 b1 where s: "header_loop i (p # field_offs (p + length ?l + 1) ?ls) r buf = header_loop (i + 1) (field_offs (p + length ?l + 1) ?ls) r1 b1"
    "take p b1 = take p buf" "length b1 = length buf" "drop (p + length ?l + 1) b1 = joinb 0 ?ls @ 0 # rest"
    "same_core (r\<lparr>headers_k := (headers_k r)[i := Some k], headers_v := (headers_v r)[i := Some v]\<rparr>) r1"
    using header_loop_line [of k v p buf "[13]" "joinb 0 ?ls @ 0 # rest" i r "field_offs (p + length ?l + 1) ?ls"] d "3.prems"
    by (auto simp: kv)
  have hk: "headers_k r1 = (headers_k r)[i := Some k]" "headers_v r1 = (headers_v r)[i := Some v]"
    using s(5) by (simp_all add: same_core_def)
  have pre: "kw # hs \<noteq> []" "\<forall>kv\<in>set (kw # hs). header_ok kv" "i + 1 + ?n \<le> length (headers_k r1)"
    "i + 1 + ?n \<le> length (headers_v r1)" using "3.prems" hk by auto
  obtain r2 b2 where t: "header_loop (i + 1) (field_offs (p + length ?l + 1) ?ls) r1 b1 = Some (True, r2, b2)"
    "take (p + length ?l + 1) b2 = take (p + length ?l + 1) b1" "length b2 = length b1"
    "same_core (r1\<lparr>headers_k := take (i + 1) (headers_k r1) @ map (Some \<circ> fst) (kw # hs) @ drop (i + 1 + ?n) (headers_k r1),
       headers_v := take (i + 1) (headers_v r1) @ map (Some \<circ> snd) (kw # hs) @ drop (i + 1 + ?n) (headers_v r1),
       total_headers := i + 1 + ?n\<rparr>) r2"
    using "3.IH"(2) [OF pre(1,2) s(4) pre(3,4)] by blast
  have "take p b2 = take p buf"
    using arg_cong [OF t(2), of "take p"] s(2) by simp
  moreover have "take (i + 1) ((headers_k r)[i := Some k]) = take i (headers_k r) @ [Some k]"
    "take (i + 1) ((headers_v r)[i := Some v]) = take i (headers_v r) @ [Some v]"
    using "3.prems"(4,5) by (simp_all add: take_Suc_conv_app_nth)
  moreover have "drop (i + 1 + ?n) ((headers_k r)[i := Some k]) = drop (i + 1 + ?n) (headers_k r)"
    "drop (i + 1 + ?n) ((headers_v r)[i := Some v]) = drop (i + 1 + ?n) (headers_v r)" by simp_all
  ultimately show ?case using s(1,3,5) t(1,3,4) hk by (auto simp: kv same_core_def)
qed simp


section \<open>The request line\<close>

lemma length_norm: "length (uri_text (foldl norm_step acc ss)) \<le> length (uri_text acc) + length (uri_text ss)"
proof (induction ss arbitrary: acc)
  case (Cons s ss)
  have "length (uri_text (butlast acc)) \<le> length (uri_text acc)"
    by (cases acc rule: rev_cases) (simp_all add: uri_text_def)
  then have "length (uri_text (norm_step acc s)) \<le> length (uri_text acc) + length (uri_text [s])" by (simp add: uri_text_def)
  then show ?case using Cons.IH [of "norm_step acc s"] by (simp add: uri_text_def)
qed simp

lemma length_uri_of: "segs \<noteq> [] \<Longrightarrow> length (uri_of (norm_segs segs)) \<le> length (uri_text segs)"
proof -
  assume "segs \<noteq> []"
  then have "1 \<le> length (uri_text segs)" by (cases segs) (simp_all add: uri_text_def)
  then show ?thesis using length_norm [of "[]" segs] by (simp add: uri_of_def norm_segs_def uri_text_def)
qed

definition HTTP11 :: mem where "HTTP11 = map of_char ''HTTP/1.1''"

definition query_text :: "mem option \<Rightarrow> mem" where
  "query_text q = (case q of None \<Rightarrow> [] | Some t \<Rightarrow> 63 # t)"

definition line_text :: "mem \<Rightarrow> mem list \<Rightarrow> mem option \<Rightarrow> mem" where
  "line_text m segs q = m @ 32 # uri_text segs @ query_text q @ 32 # HTTP11"

definition line_ok :: "mem \<Rightarrow> mem list \<Rightarrow> mem option \<Rightarrow> bool" where
  "line_ok m segs q = (0 \<notin> set m \<and> 32 \<notin> set m \<and> uri_segs_ok segs \<and> (\<forall>s\<in>set segs. 63 \<notin> set s) \<and> length (stored segs) < 63 \<and>
     0 \<notin> set (query_text q) \<and> 32 \<notin> set (query_text q))"

lemma HTTP11_chars: "0 \<notin> set HTTP11" "10 \<notin> set HTTP11" "13 \<notin> set HTTP11" "length HTTP11 = 8" "take 8 (HTTP11 @ s) = HTTP11"
  by (simp_all add: HTTP11_def)

lemma mem_wr_at: "drop p b = x # y \<Longrightarrow> mem_wr b p c = Some (take p b @ c # y)"
  using drop_eq_Cons [of p b x y] by (auto simp: mem_wr_def upd_conv_take_nth_drop)

lemma take_prefix_append: "n \<le> length a \<Longrightarrow> take n (take n a @ b) = take n a"
  by simp

lemma drop_prefix_append: "n \<le> length a \<Longrightarrow> drop n (take n a @ b) = b"
  by simp

lemma request_line_turn:
  assumes "strchr_at b0 0 32 = Some (Some p0)" "mem_wr b0 p0 0 = Some b1" "mem_rd b1 (p0 + 1) = Some 47"
    "strchr_at b1 (p0 + 1) 32 = Some (Some p1)" "mem_wr b1 p1 0 = Some b2" "strchr_at b2 (p0 + 1) 63 = Some c"
    "(case c of None \<Rightarrow> Some b2 | Some n \<Rightarrow> mem_wr b2 n 0) = Some b3"
    "clean_uri (drop (p0 + 1) b3) = Some (KS_STATUS_SUCCESS, w)" "b4 = take (p0 + 1) b3 @ w"
    "str_at b4 (p1 + 1) = Some h" "take 8 h = HTTP11" "strchr_at b4 (p1 + 1) 10 = Some (Some p2)" "mem_wr b4 p2 0 = Some b5"
  shows "request_line r b0 = Some (Some (Some (p2 + 1),
    r\<lparr>ruri := Some (p0 + 1), rqs := map_option (\<lambda>n. n + 1) c, rkeepalive := True\<rparr>, b5))"
  using assms(1-6,8,10-13) assms(7) unfolding assms(9)
  by (simp add: request_line_def HTTP11_def Let_def)

text \<open>The cuts before the path is cleaned; \<open>h\<close> is the text from the version on.\<close>

lemma uri_chars: "line_ok m segs q \<Longrightarrow> 0 \<notin> set (uri_text segs) \<and> 32 \<notin> set (uri_text segs) \<and> 63 \<notin> set (uri_text segs)"
  by (auto simp: line_ok_def uri_segs_ok_def plain_def uri_text_def)

lemma uri_text_head: "line_ok m segs q \<Longrightarrow> \<exists>s. uri_text segs = 47 # s"
  by (cases segs) (auto simp: line_ok_def uri_segs_ok_def uri_text_def)

lemma cut_method:
  assumes "line_ok m segs q" "0 \<notin> set h"
  shows "strchr_at (m @ 32 # uri_text segs @ query_text q @ 32 # h @ [0]) 0 32 = Some (Some (length m))"
    "mem_rd (m @ 0 # uri_text segs @ query_text q @ 32 # h @ [0]) (length m + 1) = Some 47"
proof -
  have "str_at (m @ 32 # uri_text segs @ query_text q @ 32 # h @ [0]) 0 = Some (m @ 32 # uri_text segs @ query_text q @ 32 # h)"
    using assms uri_chars [OF assms(1)] by (intro str_at_prefix [where r = "[]"]) (auto simp: line_ok_def)
  from strchr_at_Some [OF this] show "strchr_at (m @ 32 # uri_text segs @ query_text q @ 32 # h @ [0]) 0 32 = Some (Some (length m))"
    using assms(1) by (simp add: line_ok_def)
  show "mem_rd (m @ 0 # uri_text segs @ query_text q @ 32 # h @ [0]) (length m + 1) = Some 47"
    using uri_text_head [OF assms(1)] by (auto simp: mem_rd_def nth_append)
qed

lemma cut_target:
  assumes "line_ok m segs q" "0 \<notin> set h"
  shows "strchr_at (m @ 0 # uri_text segs @ query_text q @ 32 # h @ [0]) (length m + 1) 32 =
      Some (Some (length m + 1 + length (uri_text segs @ query_text q)))"
    "mem_wr (m @ 0 # uri_text segs @ query_text q @ 32 # h @ [0]) (length m + 1 + length (uri_text segs @ query_text q)) 0 =
      Some (m @ 0 # uri_text segs @ query_text q @ 0 # h @ [0])"
proof -
  have "str_at (m @ 0 # uri_text segs @ query_text q @ 32 # h @ [0]) (length m + 1) = Some ((uri_text segs @ query_text q) @ 32 # h)"
    using assms uri_chars [OF assms(1)] by (intro str_at_prefix [where r = "[]"]) (auto simp: line_ok_def)
  from strchr_at_Some [OF this] show "strchr_at (m @ 0 # uri_text segs @ query_text q @ 32 # h @ [0]) (length m + 1) 32 =
      Some (Some (length m + 1 + length (uri_text segs @ query_text q)))"
    using assms(1) uri_chars [OF assms(1)] by (simp add: line_ok_def)
  show "mem_wr (m @ 0 # uri_text segs @ query_text q @ 32 # h @ [0]) (length m + 1 + length (uri_text segs @ query_text q)) 0 =
      Some (m @ 0 # uri_text segs @ query_text q @ 0 # h @ [0])"
    using mem_wr_mid [of "m @ 0 # uri_text segs @ query_text q" 32 "h @ [0]" 0] by simp
qed

lemma cut_query:
  assumes "line_ok m segs q"
  shows "strchr_at (m @ 0 # uri_text segs @ query_text q @ 0 # h) (length m + 1) 63 =
      Some (map_option (\<lambda>_. length m + 1 + length (uri_text segs)) q)"
    "(case map_option (\<lambda>_. length m + 1 + length (uri_text segs)) q of None \<Rightarrow> Some (m @ 0 # uri_text segs @ query_text q @ 0 # h)
      | Some n \<Rightarrow> mem_wr (m @ 0 # uri_text segs @ query_text q @ 0 # h) n 0) =
      Some (m @ 0 # uri_text segs @ 0 # (case q of None \<Rightarrow> [] | Some t \<Rightarrow> t @ [0]) @ h)"
proof -
  let ?b = "m @ 0 # uri_text segs @ query_text q @ 0 # h"
  have st: "str_at ?b (length m + 1) = Some (uri_text segs @ query_text q)"
    using assms uri_chars [OF assms] by (intro str_at_prefix [where r = h]) (auto simp: line_ok_def)
  show "strchr_at ?b (length m + 1) 63 = Some (map_option (\<lambda>_. length m + 1 + length (uri_text segs)) q)"
    using strchr_at_None [OF st, of 63] strchr_at_Some [of ?b "length m + 1" "uri_text segs" 63] st uri_chars [OF assms]
    by (cases q) (simp_all add: query_text_def)
  show "(case map_option (\<lambda>_. length m + 1 + length (uri_text segs)) q of None \<Rightarrow> Some ?b | Some n \<Rightarrow> mem_wr ?b n 0) =
      Some (m @ 0 # uri_text segs @ 0 # (case q of None \<Rightarrow> [] | Some t \<Rightarrow> t @ [0]) @ h)"
    using mem_wr_mid [of "m @ 0 # uri_text segs" 63 _ 0] by (auto simp: query_text_def split: option.splits)
qed

text \<open>The text behind the path, once the path is clean.\<close>

lemma version_text:
  assumes "drop (length (uri_text segs) + 1) w = (case q of None \<Rightarrow> [] | Some t \<Rightarrow> t @ [0]) @ h @ [0]" "0 \<notin> set h"
  shows "drop (length m + 1 + length (uri_text segs @ query_text q) + 1) (m @ 0 # w) = h @ [0]"
    "str_at (m @ 0 # w) (length m + 1 + length (uri_text segs @ query_text q) + 1) = Some h"
proof -
  have "drop (length m + 1 + length (uri_text segs @ query_text q) + 1) (m @ 0 # w) =
      drop (length (query_text q)) (drop (length (uri_text segs) + 1) w)" by (simp add: ac_simps)
  also have "\<dots> = h @ [0]" unfolding assms(1) by (cases q) (simp_all add: query_text_def)
  finally show d: "drop (length m + 1 + length (uri_text segs @ query_text q) + 1) (m @ 0 # w) = h @ [0]" .
  show "str_at (m @ 0 # w) (length m + 1 + length (uri_text segs @ query_text q) + 1) = Some h"
    by (rule str_at_prefix [OF d assms(2)])
qed

text \<open>The strings of the request line in the buffer at the end.\<close>

lemma line_strings:
  assumes ok: "line_ok m segs q" and w: "c_str w = Some (uri_of (norm_segs segs))"
      "drop (length (uri_text segs) + 1) w = (case q of None \<Rightarrow> [] | Some t \<Rightarrow> t @ [0]) @ h @ [0]"
    and b: "take n b = take n (m @ 0 # w)" "length m + 1 + length (uri_text segs @ query_text q) + 1 \<le> n"
  shows "str_at b 0 = Some m" "str_at b (length m + 1) = Some (uri_of (norm_segs segs))"
    "\<And>t. q = Some t \<Longrightarrow> str_at b (length m + 1 + length (uri_text segs) + 1) = Some t"
proof -
  have o: "0 \<notin> set m" "segs \<noteq> []" "0 \<notin> set (query_text q)" using ok by (auto simp: line_ok_def uri_segs_ok_def)
  show "str_at b 0 = Some m"
    by (rule str_at_take [OF _ b(1)]) (use o(1) b(2) in \<open>auto intro!: str_at_prefix\<close>)
  show "str_at b (length m + 1) = Some (uri_of (norm_segs segs))"
    by (rule str_at_take [OF _ b(1)]) (use w(1) length_uri_of [OF o(2)] b(2) in \<open>auto simp: str_at_def\<close>)
  show "str_at b (length m + 1 + length (uri_text segs) + 1) = Some t" if "q = Some t" for t
  proof (rule str_at_take [OF _ b(1)])
    have "drop (length m + 1 + length (uri_text segs) + 1) (m @ 0 # w) = t @ 0 # h @ [0]" using w(2) that by simp
    then show "str_at (m @ 0 # w) (length m + 1 + length (uri_text segs) + 1) = Some t"
      using o(3) that by (intro str_at_prefix) (auto simp: query_text_def)
    show "length m + 1 + length (uri_text segs) + 1 + length t < n" using that b(2) by (simp add: query_text_def)
  qed
qed

lemma request_line_ok:
  fixes m segs q hdrs
  defines "u \<equiv> length m + 1" and "p \<equiv> length (line_text m segs q) + 2"
  assumes ok: "line_ok m segs q" and hz: "0 \<notin> set hdrs"
  shows "\<exists>b. request_line r (line_text m segs q @ 13 # 10 # hdrs @ [0]) =
      Some (Some (Some p, r\<lparr>ruri := Some u, rqs := map_option (\<lambda>_. u + length (uri_text segs) + 1) q, rkeepalive := True\<rparr>, b)) \<and>
    drop p b = hdrs @ [0] \<and> str_at b 0 = Some m \<and> str_at b u = Some (uri_of (norm_segs segs)) \<and>
    u + length (uri_of (norm_segs segs)) < p \<and>
    (\<forall>t. q = Some t \<longrightarrow> str_at b (u + length (uri_text segs) + 1) = Some t)"
proof -
  let ?U = "uri_text segs" and ?H = "HTTP11 @ 13 # 10 # hdrs" and ?qt = "query_text q"
  let ?R = "(case q of None \<Rightarrow> [] | Some t \<Rightarrow> t @ [0]) @ ?H @ [0]" and ?n = "length m + 1 + length (uri_text segs @ query_text q) + 1"
  have o: "segs \<noteq> []" "uri_segs_ok segs" "length (stored segs) < 63" using ok by (auto simp: line_ok_def uri_segs_ok_def)
  have hz': "0 \<notin> set ?H" using hz HTTP11_chars by auto
  have "length segs < 64" using o(1,3) by (cases segs rule: rev_cases) (auto simp: stored_def split: if_splits)
  then obtain w where w: "clean_uri (?U @ 0 # ?R) = Some (KS_STATUS_SUCCESS, w)"
    "c_str w = Some (uri_of (norm_segs segs))" "drop (length ?U + 1) w = ?R"
    using clean_uri_short [OF o(2), of ?R] o(3) norm_stored [OF o(1)] by auto
  let ?b4 = "m @ 0 # w"
  note v = version_text [OF w(3) hz', of m]
  have c4: "strchr_at ?b4 ?n 10 = Some (Some (?n + 9))"
    using strchr_at_Some [of ?b4 ?n "HTTP11 @ [13]" 10 hdrs] v(2) HTTP11_chars by simp
  have d9: "drop (?n + 9) ?b4 = 10 # hdrs @ [0]"
  proof -
    have "drop (?n + 9) ?b4 = drop 9 (drop ?n ?b4)" by (simp only: drop_drop add.commute)
    then show ?thesis unfolding v(1) by (simp add: HTTP11_chars)
  qed
  let ?bz = "take (?n + 9) ?b4 @ 0 # hdrs @ [0]"
  have cl: "clean_uri (drop (length m + 1) (m @ 0 # ?U @ 0 # ?R)) = Some (KS_STATUS_SUCCESS, w)"
    and b4: "?b4 = take (length m + 1) (m @ 0 # ?U @ 0 # ?R) @ w" using w(1) by simp_all
  have t8: "take 8 ?H = HTTP11" by (simp add: HTTP11_def)
  note line = request_line_turn [OF cut_method(1) [OF ok hz'] mem_wr_mid cut_method(2) [OF ok hz'] cut_target [OF ok hz']
    cut_query [OF ok] cl b4 v(2) t8 c4 mem_wr_at [OF d9]]
  have p: "p = ?n + 9 + 1" by (simp add: p_def line_text_def HTTP11_chars)
  have l9: "?n + 9 < length ?b4" using drop_eq_Cons [OF d9] by simp
  have b9: "take (?n + 9) ?bz = take (?n + 9) ?b4" by (rule take_prefix_append) (use l9 in linarith)
  note s = line_strings [OF ok w(2,3) b9]
  have "drop p ?bz = hdrs @ [0]"
  proof -
    have "drop (?n + 9) ?bz = 0 # hdrs @ [0]" by (rule drop_prefix_append) (use l9 in linarith)
    moreover have "drop p ?bz = drop 1 (drop (?n + 9) ?bz)" unfolding p by (simp only: drop_drop) (simp add: add.commute)
    ultimately show ?thesis by simp
  qed
  moreover have "u + length (uri_of (norm_segs segs)) < p" using length_uri_of [OF o(1)] by (simp add: u_def p)
  moreover have "line_text m segs q @ 13 # 10 # hdrs @ [0] = m @ 32 # ?U @ ?qt @ 32 # ?H @ [0]" by (simp add: line_text_def)
  ultimately show ?thesis using line [of r] s p by (intro exI [of _ ?bz]) (auto simp: u_def option.map_comp comp_def)
qed

section \<open>Whole requests\<close>

definition request_query :: "(mem \<times> mem) list \<Rightarrow> mem option" where
  "request_query ps = (if ps = [] then None else Some (qs_text ps))"

definition request_text :: "mem \<Rightarrow> mem list \<Rightarrow> (mem \<times> mem) list \<Rightarrow> (mem \<times> mem) list \<Rightarrow> mem" where
  "request_text m segs ps hs = join_lines (line_text m segs (request_query ps) # map header_line hs)"

definition request_ok :: "mem \<Rightarrow> mem list \<Rightarrow> (mem \<times> mem) list \<Rightarrow> (mem \<times> mem) list \<Rightarrow> bool" where
  "request_ok m segs ps hs =
     (length m < 9 \<and> 0 \<notin> set m \<and> 32 \<notin> set m \<and> 13 \<notin> set m \<and> uri_segs_ok segs \<and> length (stored segs) < 63 \<and>
      (\<forall>s\<in>set segs. 63 \<notin> set s \<and> 13 \<notin> set s) \<and> (\<forall>kv\<in>set ps. pair_ok kv) \<and>
      hs \<noteq> [] \<and> (\<forall>kv\<in>set hs. header_ok kv) \<and> length hs + length ps \<le> KWS_MAX_HEADERS)"

lemma qs_text_chars:
  assumes "\<forall>kv\<in>set ps. pair_ok kv"
  shows "32 \<notin> set (qs_text ps)" "13 \<notin> set (qs_text ps)"
proof -
  have "c \<notin> set (qs_part kv)" if "kv \<in> set ps" "c = 32 \<or> c = 13" for kv c
  proof -
    have a: "\<forall>c\<in>set (fst kv). unat c < 128" "\<forall>c\<in>set (snd kv). unat c < 128" using assms that(1) by (auto simp: pair_ok_def)
    have u: "c \<in> set urlunsafe" "c \<noteq> PERCENT" "c \<noteq> 61" using that(2) by (auto simp: urlunsafe_def)
    show ?thesis using url_text_chars [OF a(1), of c] url_text_chars [OF a(2), of c] u by (auto simp: qs_part_def)
  qed
  then show "32 \<notin> set (qs_text ps)" "13 \<notin> set (qs_text ps)"
    using set_joinb [of 38 "map qs_part ps"] by (fastforce simp: qs_text_def)+
qed

lemma request_ok_line: "request_ok m segs ps hs \<Longrightarrow> line_ok m segs (request_query ps)"
  using qs_text_chars [of ps] qs_text_no_nul [of ps]
  by (auto simp: request_ok_def line_ok_def request_query_def query_text_def)

lemma request_ok_lines:
  assumes "request_ok m segs ps hs"
  shows "\<forall>l\<in>set (line_text m segs (request_query ps) # map header_line hs). l \<noteq> [] \<and> 13 \<notin> set l"
proof -
  have "13 \<notin> set (query_text (request_query ps))" "13 \<notin> set (uri_text segs)"
    using assms qs_text_chars(2) [of ps] by (auto simp: request_ok_def request_query_def query_text_def uri_text_def)
  then show ?thesis using assms HTTP11_chars(3)
    by (auto simp: request_ok_def line_text_def header_line_def header_ok_def)
qed

text \<open>The separation of the header lines.\<close>

lemma cr_lines_fields:
  assumes "\<forall>kv\<in>set hs. header_ok kv" "l \<in> set (cr_lines hs)"
  shows "plain 10 l \<and> trimmed l \<and> l \<noteq> []"
proof -
  obtain kv cr where l: "l = header_line kv @ cr" "kv \<in> set hs" "cr = [] \<or> cr = [13]"
    using assms(2) by (induction hs rule: cr_lines.induct) auto
  have k: "header_ok kv" using assms(1) l(2) by blast
  have "\<forall>c\<in>set (fst kv) \<union> set (snd kv). c \<noteq> 0 \<and> c \<noteq> ESCAPE_META \<and> c \<noteq> QUOTE \<and> c \<noteq> 10"
    using k by (auto simp: header_ok_def plain_def unquoted_def)
  then have "plain 10 l" using l(3) unfolding l(1)
    by (elim disjE) (simp_all add: plain_def header_line_def ESCAPE_META_def ball_Un)
  moreover have "trimmed l"
  proof -
    have "fst kv \<noteq> []" "hd (fst kv) \<noteq> SPACE" "snd kv \<noteq> []" "last (snd kv) \<noteq> SPACE"
      using k unfolding header_ok_def trimmed_def by blast+
    then show ?thesis using l(3) unfolding l(1) by (elim disjE) (simp_all add: trimmed_def header_line_def)
  qed
  moreover have "l \<noteq> []" using l(1) by (simp add: header_line_def)
  ultimately show ?thesis by blast
qed

lemma field_offs_shift: "map (\<lambda>i. p + i) (field_offs q fs) = field_offs (p + q) fs"
  by (induction fs arbitrary: q) (simp_all add: add.assoc)

lemma length_field_offs [simp]: "length (field_offs p fs) = length fs"
  by (induction fs arbitrary: p) simp_all

lemma length_cr_lines [simp]: "length (cr_lines hs) = length hs"
  by (induction hs rule: cr_lines.induct) simp_all

lemma separate_lines:
  assumes "hs \<noteq> []" "\<forall>kv\<in>set hs. header_ok kv" "length hs \<le> 64" "p \<le> length buf"
    and "drop p buf = join_lines (map header_line hs) @ 0 # rest"
  shows "separate_at buf p 10 64 = Some (field_offs p (cr_lines hs), take p buf @ joinb 0 (cr_lines hs) @ 0 # rest)"
proof -
  let ?fs = "cr_lines hs"
  have ne: "?fs \<noteq> []" using assms(1) by (cases hs) auto
  have f: "\<forall>l\<in>set ?fs. plain 10 l \<and> trimmed l \<and> l \<noteq> []" using cr_lines_fields [OF assms(2)] by blast
  then have l: "plain 10 (last ?fs)" "trimmed (last ?fs)" "last ?fs \<noteq> []" "\<forall>f\<in>set (butlast ?fs). plain 10 f \<and> trimmed f"
    using last_in_set [OF ne] by (auto dest: in_set_butlastD)
  have own: "take 2 (joinb 10 ?fs) \<noteq> [CARET, CARET]"
  proof -
    obtain kv gs where hs: "hs = kv # gs" using assms(1) by (cases hs) auto
    have "take 2 (fst kv @ [58]) \<noteq> [CARET, CARET]" "fst kv \<noteq> []" using assms(2) hs by (auto simp: header_ok_def)
    moreover have "\<exists>t. joinb 10 ?fs = fst kv @ 58 # t" unfolding hs by (cases gs) (auto simp: header_line_def joinb_Cons)
    ultimately show ?thesis by (cases "fst kv"; cases "tl (fst kv)") auto
  qed
  have d: "10 \<noteq> (0 :: byte)" "10 \<noteq> ESCAPE_META" "10 \<noteq> QUOTE" "10 \<noteq> SPACE" by (simp_all add: ESCAPE_META_def)
  have "ks_separate_string (Some (joinb 10 ?fs @ 0 # rest)) 10 64 = Some (field_offs 0 (stored ?fs), Some (joinb 0 ?fs @ 0 # rest))"
    using separate_fields(1) [OF d ne l(4) plain_unquoted [OF l(1)] l(2) _ own] l(1) assms(3) by simp
  then show ?thesis using assms(4,5) l(3)
    by (simp add: separate_at_def cr_lines_join stored_def field_offs_shift)
qed

text \<open>The header lines of a new request.\<close>

lemma header_part:
  assumes hs: "hs \<noteq> []" "\<forall>kv\<in>set hs. header_ok kv" "length hs \<le> 64" and b: "p \<le> length b1" "drop p b1 = join_lines (map header_line hs) @ [0]"
    and r: "headers_k r1 = replicate 64 None" "headers_v r1 = replicate 64 None"
  shows "\<exists>r2 b2 b3. separate_at b1 p 10 64 = Some (field_offs p (cr_lines hs), b2) \<and>
    header_loop 0 (field_offs p (cr_lines hs)) r1 b2 = Some (True, r2, b3) \<and> take p b3 = take p b1 \<and>
    same_core (r1\<lparr>headers_k := map (Some \<circ> fst) hs @ replicate (64 - length hs) None,
      headers_v := map (Some \<circ> snd) hs @ replicate (64 - length hs) None, total_headers := length hs\<rparr>) r2"
proof -
  let ?b2 = "take p b1 @ joinb 0 (cr_lines hs) @ 0 # []"
  have sep: "separate_at b1 p 10 64 = Some (field_offs p (cr_lines hs), ?b2)" by (rule separate_lines [OF hs b])
  have d2: "drop p ?b2 = joinb 0 (cr_lines hs) @ 0 # []" by (rule drop_prefix_append [OF b(1)])
  obtain r2 b3 where "header_loop 0 (field_offs p (cr_lines hs)) r1 ?b2 = Some (True, r2, b3)" "take p b3 = take p ?b2"
    "same_core (r1\<lparr>headers_k := map (Some \<circ> fst) hs @ replicate (64 - length hs) None,
      headers_v := map (Some \<circ> snd) hs @ replicate (64 - length hs) None, total_headers := length hs\<rparr>) r2"
    using header_loop_lines [OF hs(1,2) d2, of 0 r1] r hs(3) by auto
  then show ?thesis using sep take_prefix_append [OF b(1)] by metis
qed

lemma request_text_no_nul:
  assumes "request_ok m segs ps hs"
  shows "0 \<notin> set (request_text m segs ps hs)" "0 \<notin> set (join_lines (map header_line hs))"
proof -
  have "0 \<notin> set (header_line kv)" if "kv \<in> set hs" for kv
    using assms that by (fastforce simp: request_ok_def header_ok_def plain_def unquoted_def header_line_def)
  then show z: "0 \<notin> set (join_lines (map header_line hs))" by (induction hs rule: cr_lines.induct) auto
  have "0 \<notin> set (line_text m segs (request_query ps))"
    using request_ok_line [OF assms] uri_chars [OF request_ok_line [OF assms]] HTTP11_chars
    by (auto simp: line_ok_def line_text_def)
  then show "0 \<notin> set (request_text m segs ps hs)" using z by (cases hs) (auto simp: request_text_def)
qed

lemma length_request_text: "hs \<noteq> [] \<Longrightarrow> 12 \<le> length (request_text m segs ps hs)"
  by (cases hs; cases "tl hs") (auto simp: request_text_def line_text_def HTTP11_chars header_line_def)

lemma parse_header_turn:
  assumes "16 \<le> dl" "nat (datalen k mod 2 ^ 64) = dl" "sanity_loop (kbuffer k) 0 10 = Some i" "i \<noteq> 0"
    "c_str (kbuffer k) = Some s" "find_body s = Some (e, bd)" "mem_wr (kbuffer k) e 0 = Some kb"
    "request_line (request_zero\<lparr>rmethod := Some 0, bytes_buffered := dl, bytes_header := bd, bytes_read := bd\<rparr>) (take e s @ [0]) =
       Some (Some (Some p, r1, b1))"
    "separate_at b1 p 10 64 = Some (hh, b2)" "hh \<noteq> []" "header_loop 0 hh r1 b2 = Some (True, r2, b3)"
    "keep_body bd dl (k\<lparr>kbuffer := kb\<rparr>) = Some k2"
  shows "kws_parse_header k req = finish_request (r2\<lparr>rbuf := Some b3\<rparr>) k2"
  using assms by (simp add: kws_parse_header_def Let_def)

lemma keep_body_ok:
  assumes "kbuffer k = t @ pay @ 0 # junk" "dl = length t + length pay"
  shows "\<exists>k'. keep_body (length t) dl k = Some k' \<and> datalen k' = int (length pay) \<and>
    (pay \<noteq> [] \<longrightarrow> take (length pay) (kbuffer k') = pay \<and> unprocessed_buffer_len k' = length pay \<and> unprocessed_position k' = 0)"
proof (cases "pay = []")
  case True
  then show ?thesis using assms by (simp add: keep_body_def Let_def)
next
  case False
  have "mem_sub (kbuffer k) (length t) (length pay + 1) = Some (pay @ [0])"
    using assms(1) by (simp add: mem_sub_def)
  moreover have "mem_cpy (kbuffer k) 0 (pay @ [0]) = Some ((pay @ [0]) @ drop (length pay + 1) (kbuffer k))"
    using assms(1) by (simp add: mem_cpy_def)
  ultimately show ?thesis using False assms(2) by (simp add: keep_body_def Let_def)
qed

lemma finish_request_ok:
  assumes "\<forall>kv\<in>set ps. pair_ok kv" "arrays_ok r" "total_headers r + length ps \<le> KWS_MAX_HEADERS" "rbuf r = Some b"
    "ps = [] \<longrightarrow> rqs r = None" "ps \<noteq> [] \<longrightarrow> (\<exists>p. rqs r = Some p \<and> str_at b p = Some (qs_text ps))"
  shows "finish_request r k = Some (KS_STATUS_SUCCESS, Some (add_headers r ps), k)"
proof (cases "ps = []")
  case True
  then show ?thesis using assms(5) by (simp add: finish_request_def)
next
  case False
  then obtain p where p: "rqs r = Some p" "str_at b p = Some (qs_text ps)" using assms(6) by blast
  have "length ps \<le> KWS_MAX_HEADERS - total_headers r" using assms(3) by simp
  then obtain x where "qs_loop r 0 (qs_text ps) = Some (add_headers r ps, None, x)"
    using qs_loop_pairs [OF False assms(1,2), of 0] by auto
  then show ?thesis using p assms(4) by (simp add: finish_request_def kws_parse_qs_def)
qed

lemma zip_map_Some: "zip (map (Some \<circ> fst) ps) (map (Some \<circ> snd) ps) = map (\<lambda>(k, v). (Some k, Some v)) ps"
  by (induction ps) auto

lemma c_str_prefix: "0 \<notin> set a \<Longrightarrow> \<exists>b'. c_str (a @ b @ 0 # r) = Some (a @ b')"
proof (induction a)
  case Nil
  show ?case by (induction b) auto
qed auto

lemma kws_parse_header_ok:
  fixes m segs ps hs
  defines "t \<equiv> request_text m segs ps hs"
  assumes ok: "request_ok m segs ps hs" and kb: "kbuffer k = t @ CRLF @ CRLF @ pay @ 0 # junk"
    and dl: "datalen k = int (length t + 4 + length pay)" "length t + 4 + length pay < 2 ^ 63"
  shows "\<exists>r b k'. kws_parse_header k req = finish_request (r\<lparr>rbuf := Some b\<rparr>) k' \<and> rkeepalive r \<and> rmethod r = Some 0 \<and>
    str_at b 0 = Some m \<and> ruri r = Some (length m + 1) \<and> str_at b (length m + 1) = Some (uri_of (norm_segs segs)) \<and>
    headers_k r = map (Some \<circ> fst) hs @ replicate (64 - length hs) None \<and>
    headers_v r = map (Some \<circ> snd) hs @ replicate (64 - length hs) None \<and> total_headers r = length hs \<and>
    (ps = [] \<longrightarrow> rqs r = None) \<and> (ps \<noteq> [] \<longrightarrow> (\<exists>p. rqs r = Some p \<and> str_at b p = Some (qs_text ps))) \<and>
    datalen k' = int (length pay) \<and>
    (pay \<noteq> [] \<longrightarrow> take (length pay) (kbuffer k') = pay \<and> unprocessed_buffer_len k' = length pay \<and> unprocessed_position k' = 0)"
proof -
  let ?q = "request_query ps" and ?L = "line_text m segs (request_query ps)" and ?H = "join_lines (map header_line hs)"
  let ?dl = "length t + 4 + length pay" and ?p = "length (line_text m segs (request_query ps)) + 2" and ?u = "length m + 1"
  have hs: "hs \<noteq> []" "\<forall>kv\<in>set hs. header_ok kv" "length hs \<le> 64" using ok by (auto simp: request_ok_def KWS_MAX_HEADERS_def)
  have t: "t = ?L @ 13 # 10 # ?H" using hs(1) by (cases hs) (auto simp: t_def request_text_def)
  have nz: "0 \<notin> set t" "0 \<notin> set ?H" using request_text_no_nul [OF ok] by (auto simp: t_def)
  obtain s' where s: "c_str (kbuffer k) = Some (t @ CRLF @ CRLF @ s')"
    using c_str_prefix [of "t @ CRLF @ CRLF" pay junk] nz by (auto simp: kb CRLF_def)
  have fb: "find_body (t @ CRLF @ CRLF @ s') = Some (length t, length t + 4)"
    using strstr_lines [OF _ request_ok_lines [OF ok], of s'] by (simp add: find_body_def t_def request_text_def)
  have sane: "sanity_loop (kbuffer k) 0 10 = Some (int (10 - length m - 1))" "int (10 - length m - 1) \<noteq> 0"
    using sanity_loop_space [of 0 "kbuffer k" m] ok by (auto simp: kb t line_text_def request_ok_def)
  have d16: "16 \<le> ?dl" using length_request_text [OF hs(1), of m segs ps] by (simp add: t_def)
  have dlk: "nat (datalen k mod 2 ^ 64) = ?dl" using dl by (simp add: nat_mod_as_int [symmetric])
  let ?kb = "t @ 0 # 10 # 13 # 10 # pay @ 0 # junk"
  have wr: "mem_wr (kbuffer k) (length t) 0 = Some ?kb"
    using mem_wr_mid [of t 13 "10 # 13 # 10 # pay @ 0 # junk" 0] by (simp add: kb CRLF_def)
  let ?r0 = "request_zero\<lparr>rmethod := Some 0, bytes_buffered := ?dl, bytes_header := length t + 4, bytes_read := length t + 4\<rparr>"
  let ?r1 = "?r0\<lparr>ruri := Some ?u, rqs := map_option (\<lambda>_. ?u + length (uri_text segs) + 1) ?q, rkeepalive := True\<rparr>"
  have e: "take (length t) (t @ CRLF @ CRLF @ s') @ [0] = ?L @ 13 # 10 # ?H @ [0]" by (simp add: t)
  obtain b1 where b1: "request_line ?r0 (take (length t) (t @ CRLF @ CRLF @ s') @ [0]) = Some (Some (Some ?p, ?r1, b1))"
    "drop ?p b1 = ?H @ [0]" "str_at b1 0 = Some m" "str_at b1 ?u = Some (uri_of (norm_segs segs))"
    "?u + length (uri_of (norm_segs segs)) < ?p" "\<forall>q. ?q = Some q \<longrightarrow> str_at b1 (?u + length (uri_text segs) + 1) = Some q"
    unfolding e using request_line_ok [OF request_ok_line [OF ok] nz(2), of ?r0] by blast
  have pl: "?p \<le> length b1" using b1(2) by (metis append_is_Nil_conv drop_all list.distinct(1) nat_le_linear)
  have "headers_k ?r1 = replicate 64 None" "headers_v ?r1 = replicate 64 None" by (simp_all add: request_zero_def KWS_MAX_HEADERS_def)
  from header_part [OF hs pl b1(2) this] obtain r2 b2 b3 where lp: "separate_at b1 ?p 10 64 = Some (field_offs ?p (cr_lines hs), b2)"
    "header_loop 0 (field_offs ?p (cr_lines hs)) ?r1 b2 = Some (True, r2, b3)" "take ?p b3 = take ?p b1"
    "same_core (?r1\<lparr>headers_k := map (Some \<circ> fst) hs @ replicate (64 - length hs) None,
      headers_v := map (Some \<circ> snd) hs @ replicate (64 - length hs) None, total_headers := length hs\<rparr>) r2" by blast
  have kb': "kbuffer (k\<lparr>kbuffer := ?kb\<rparr>) = (t @ [0, 10, 13, 10]) @ pay @ 0 # junk"
    and l4: "length (t @ [0, 10, 13, 10]) = length t + 4" and dl': "?dl = length (t @ [0, 10, 13, 10]) + length pay" by simp_all
  obtain k' where k': "keep_body (length t + 4) ?dl (k\<lparr>kbuffer := ?kb\<rparr>) = Some k'" "datalen k' = int (length pay)"
    "pay \<noteq> [] \<longrightarrow> take (length pay) (kbuffer k') = pay \<and> unprocessed_buffer_len k' = length pay \<and> unprocessed_position k' = 0"
    using keep_body_ok [OF kb' dl', unfolded l4] by blast
  have ne: "field_offs ?p (cr_lines hs) \<noteq> []" using hs(1) by (cases hs; cases "tl hs") auto
  note turn = parse_header_turn [OF d16 dlk sane s fb wr b1(1) lp(1) ne lp(2) k'(1)]
  have st: "str_at b3 0 = Some m" "str_at b3 ?u = Some (uri_of (norm_segs segs))"
    by (rule str_at_take [OF b1(3) lp(3)], use b1(5) in simp, rule str_at_take [OF b1(4) lp(3) b1(5)])
  have qs: "\<exists>p. rqs r2 = Some p \<and> str_at b3 p = Some (qs_text ps)" if "ps \<noteq> []"
  proof -
    have q: "?q = Some (qs_text ps)" using that by (simp add: request_query_def)
    have "str_at b3 (?u + length (uri_text segs) + 1) = Some (qs_text ps)"
      by (rule str_at_take [OF _ lp(3)]) (use b1(6) q in \<open>auto simp: line_text_def query_text_def\<close>)
    then show ?thesis using lp(4) q by (simp add: same_core_def)
  qed
  have "rkeepalive r2" "rmethod r2 = Some 0" "ruri r2 = Some ?u" "total_headers r2 = length hs" "ps = [] \<longrightarrow> rqs r2 = None"
    "headers_k r2 = map (Some \<circ> fst) hs @ replicate (64 - length hs) None" "headers_v r2 = map (Some \<circ> snd) hs @ replicate (64 - length hs) None"
    using lp(4) by (simp_all add: same_core_def request_query_def)
  then show ?thesis using turn st qs k'(2,3) by blast
qed

section \<open>Properties\<close>

text \<open>
  C9: A well-formed request, with any path, query pairs and headers within the limits, is parsed into its
  parts: the method, the cleaned path, the headers followed by the decoded query pairs; and what arrived
  behind the headers is moved to the start of the buffer, to be read next.\<close>

theorem kws_parse_header_request:
  assumes "request_ok m segs ps hs" "kbuffer k = request_text m segs ps hs @ CRLF @ CRLF @ pay @ 0 # junk"
    and "datalen k = int (length (request_text m segs ps hs) + 4 + length pay)"
      "length (request_text m segs ps hs) + 4 + length pay < 2 ^ 63"
  shows "\<exists>r k' b u. kws_parse_header k req = Some (KS_STATUS_SUCCESS, Some r, k') \<and> rbuf r = Some b \<and> rkeepalive r \<and>
    rmethod r = Some 0 \<and> str_at b 0 = Some m \<and> ruri r = Some u \<and> str_at b u = Some (uri_of (norm_segs segs)) \<and>
    total_headers r = length hs + length ps \<and>
    take (length hs + length ps) (zip (headers_k r) (headers_v r)) = map (\<lambda>(k, v). (Some k, Some v)) (hs @ ps) \<and>
    datalen k' = int (length pay) \<and>
    (pay \<noteq> [] \<longrightarrow> take (length pay) (kbuffer k') = pay \<and> unprocessed_buffer_len k' = length pay \<and> unprocessed_position k' = 0)"
proof -
  from kws_parse_header_ok [OF assms, of req] obtain r b k' where
    h: "kws_parse_header k req = finish_request (r\<lparr>rbuf := Some b\<rparr>) k'" "rkeepalive r" "rmethod r = Some 0" "str_at b 0 = Some m"
      "ruri r = Some (length m + 1)" "str_at b (length m + 1) = Some (uri_of (norm_segs segs))"
    and a: "headers_k r = map (Some \<circ> fst) hs @ replicate (64 - length hs) None"
      "headers_v r = map (Some \<circ> snd) hs @ replicate (64 - length hs) None" "total_headers r = length hs"
    and q: "ps = [] \<longrightarrow> rqs r = None" "ps \<noteq> [] \<longrightarrow> (\<exists>p. rqs r = Some p \<and> str_at b p = Some (qs_text ps))"
    and k': "datalen k' = int (length pay)"
      "pay \<noteq> [] \<longrightarrow> take (length pay) (kbuffer k') = pay \<and> unprocessed_buffer_len k' = length pay \<and> unprocessed_position k' = 0"
    by blast
  have l: "length hs + length ps \<le> KWS_MAX_HEADERS" "\<forall>kv\<in>set ps. pair_ok kv" using assms(1) by (auto simp: request_ok_def)
  let ?r = "r\<lparr>rbuf := Some b\<rparr>"
  have ar: "arrays_ok ?r" using a l(1) by (simp add: arrays_ok_def KWS_MAX_HEADERS_def)
  have fin: "finish_request ?r k' = Some (KS_STATUS_SUCCESS, Some (add_headers ?r ps), k')"
    by (rule finish_request_ok [OF l(2) ar, where b = b]) (use a(3) l(1) q in simp_all)
  have ad: "add_headers ?r ps = ?r\<lparr>headers_k := map (Some \<circ> fst) (hs @ ps) @ replicate (64 - length hs - length ps) None,
      headers_v := map (Some \<circ> snd) (hs @ ps) @ replicate (64 - length hs - length ps) None, total_headers := length hs + length ps\<rparr>"
    using add_headers_eq [OF ar, of ps] a l(1) by (simp add: KWS_MAX_HEADERS_def)
  have "take (length hs + length ps) (zip (headers_k (add_headers ?r ps)) (headers_v (add_headers ?r ps))) = map (\<lambda>(k, v). (Some k, Some v)) (hs @ ps)"
    unfolding ad zip_map_Some [symmetric] by (simp add: zip_append)
  then show ?thesis using h fin k' by (auto simp: ad)
qed

theorem kws_parse_header_request_witness:
  "\<exists>r k' b u. kws_parse_header (demo_kws\<lparr>kbuffer := request_text (map of_char ''GET'') [[97], [46, 46], [98]] [([120], [49])]
        [(map of_char ''Host'', map of_char ''h:80'')] @ CRLF @ CRLF @ [90, 0], datalen := 41\<rparr>) None = Some (KS_STATUS_SUCCESS, Some r, k') \<and>
     rbuf r = Some b \<and> ruri r = Some u \<and> str_at b u = Some (map of_char ''/b'') \<and>
     take (Suc (Suc 0)) (zip (headers_k r) (headers_v r)) = [(Some (map of_char ''Host''), Some (map of_char ''h:80'')), (Some [120], Some [49])] \<and>
     take 1 (kbuffer k') = [90]"
proof -
  let ?m = "map of_char ''GET'' :: mem" and ?segs = "[[97], [46, 46], [98]] :: mem list" and ?ps = "[([120], [49])] :: (mem \<times> mem) list"
  let ?hs = "[(map of_char ''Host'', map of_char ''h:80'')] :: (mem \<times> mem) list"
  let ?k = "demo_kws\<lparr>kbuffer := request_text ?m ?segs ?ps ?hs @ CRLF @ CRLF @ [90, 0], datalen := 41\<rparr>"
  have ok: "request_ok ?m ?segs ?ps ?hs"
    by (simp add: request_ok_def uri_segs_ok_def plain_def unquoted_def trimmed_def pair_ok_def header_ok_def stored_def
        ESCAPE_META_def KWS_MAX_HEADERS_def)
  have l: "length (request_text ?m ?segs ?ps ?hs) = 36" by code_simp
  show ?thesis
    using kws_parse_header_request [OF ok, of ?k "[90]" "[]" None] unfolding l by (auto simp: uri_of_def uri_text_def norm_segs_def)
qed


end
