(* ===== verification/Ks_Config.thy ===== *)
theory Ks_Config
  imports Ks_String_Props
begin

text \<open>
  The configuration files of \<open>ks_config.c\<close>: opening, closing, the reader of name/value pairs and the
  CAS bits. A pair is returned as two pointers into the line buffer of the handle, in which the reader
  has overwritten separators with NUL; the model has the buffer as a block of 1024 bytes and the
  pointers as offsets, and \<^const>\<open>None\<close> is an access outside the block. The contents of the file are
  the bytes that \<open>fgets\<close> has not read yet.
\<close>

section \<open>The handle\<close>

record ks_config =
  cfile :: "mem option"
  cpath :: mem
  category :: mem
  csection :: mem
  cbuf :: mem
  lineno :: int
  catno :: int
  sectno :: int
  lockto :: int

definition config_zero :: ks_config where
  "config_zero = \<lparr>cfile = None, cpath = replicate 512 0, category = replicate 256 0, csection = replicate 256 0,
     cbuf = replicate 1024 0, lineno = 0, catno = 0, sectno = 0, lockto = 0\<rparr>"

text \<open>\<open>fgets\<close>: at most \<open>n\<close> bytes, up to and with a newline.\<close>

fun fgets_take :: "nat \<Rightarrow> mem \<Rightarrow> mem \<times> mem" where
  "fgets_take (Suc n) (c # s) =
     (if c = 10 then ([c], s) else (let (l, r) = fgets_take n s in (c # l, r)))"
| "fgets_take _ s = ([], s)"

lemma fgets_take_append: "fgets_take n s = (l, r) \<Longrightarrow> s = l @ r \<and> length l \<le> n"
  by (induction n s arbitrary: l r rule: fgets_take.induct) (auto split: if_splits prod.splits)

lemma fgets_take_shorter: "fgets_take n (c # s) = (l, r) \<Longrightarrow> 0 < n \<Longrightarrow> length r < length (c # s)"
  by (cases n) (auto split: if_splits prod.splits dest: fgets_take_append)

section \<open>The lines\<close>

text \<open>A value returned through \<open>char **\<close>: a place in the line buffer, or the literal empty string.\<close>

datatype config_ptr = In_buf nat | Empty_text

text \<open>How the handling of a line ends: \<open>continue\<close>, \<open>break\<close>, or a return with 1.\<close>

datatype line_end = Again | Stop | Found_pair

abbreviation blank :: "byte \<Rightarrow> bool" where
  "blank c \<equiv> c = 32 \<or> c = 9"

function skip_blank :: "mem \<Rightarrow> nat \<Rightarrow> nat option \<Rightarrow> (nat \<times> mem) option" where
  "skip_blank b p e =
     (if length b \<le> p then None
      else if blank (b ! p) \<and> e \<noteq> Some p then skip_blank (b[p := 0]) (p + 1) e
      else Some (p, b))"
  by pat_completeness auto
termination by (relation "measure (\<lambda>(b, p, _). length b - p)") auto

declare skip_blank.simps [simp del]

text \<open>The blanks before the separator are removed from the back; the pointer may run off the front.\<close>

function back_blank :: "mem \<Rightarrow> nat \<Rightarrow> nat \<Rightarrow> mem option" where
  "back_blank b p var =
     (if length b \<le> p then None
      else if blank (b ! p) \<and> p \<noteq> var then (if p = 0 then None else back_blank (b[p := 0]) (p - 1) var)
      else Some b)"
  by pat_completeness auto
termination by (relation "measure (\<lambda>(_, p, _). p)") auto

declare back_blank.simps [simp del]

text \<open>A line that begins with a bracket, closed at \<open>e\<close>: a section \<open>[+name]\<close> or a category.\<close>

definition bracket_line :: "ks_config \<Rightarrow> nat \<Rightarrow> (line_end \<times> ks_config \<times> config_ptr) option" where
  "bracket_line cfg e =
     do { b \<leftarrow> mem_wr (cbuf cfg) e 0;
          c \<leftarrow> mem_rd b 1;
          if c = 43 then
            do { w \<leftarrow> ks_copy_string (Some (csection cfg)) (Some (drop 2 b)) 256;
                 (_, s) \<leftarrow> w;
                 let cfg = cfg\<lparr>cbuf := b, csection := s, sectno := sectno cfg + 1\<rparr>;
                 if lockto cfg > - 1 \<and> sectno cfg \<noteq> lockto cfg then Some (Stop, cfg, In_buf 2)
                 else Some (Found_pair, cfg\<lparr>catno := 0, lineno := 0\<rparr>, Empty_text) }
          else
            do { w \<leftarrow> ks_copy_string (Some (category cfg)) (Some (drop 1 b)) 256;
                 (_, s) \<leftarrow> w;
                 Some (Again, cfg\<lparr>cbuf := b, category := s, catno := catno cfg + 1\<rparr>, In_buf 1) } }"

text \<open>
  The end of the text of a line: before a double semicolon (the pointer is left on the last character),
  or at the newline and the carriage return before it.
\<close>

definition cut_tail :: "mem \<Rightarrow> (nat option \<times> mem) option" where
  "cut_tail b =
     do { semi \<leftarrow> strchr_at b 0 59;
          two \<leftarrow> (case semi of None \<Rightarrow> Some False | Some e \<Rightarrow> map_option (\<lambda>c. c = b ! e) (mem_rd b (e + 1)));
          if two then
            do { e \<leftarrow> semi;
                 b \<leftarrow> mem_wr b e 0;
                 if e = 0 then None else Some (Some (e - 1), b) }
          else
            do { nl \<leftarrow> strchr_at b 0 10;
                 case nl of None \<Rightarrow> Some (None, b)
                 | Some e \<Rightarrow>
                     if e = 0 then None
                     else do { c \<leftarrow> mem_rd b (e - 1);
                               let e = (if c = 13 then e - 1 else e);
                               b \<leftarrow> mem_wr b e 0;
                               Some (Some e, b) } } }"

text \<open>The two sides of the separator at \<open>eq\<close>: the blanks around it are overwritten.\<close>

definition split_pair :: "mem \<Rightarrow> nat \<Rightarrow> nat \<Rightarrow> nat option \<Rightarrow> (nat \<times> mem) option" where
  "split_pair b var eq e =
     do { b \<leftarrow> mem_wr b eq 0;
          c \<leftarrow> mem_rd b (eq + 1);
          (v, b) \<leftarrow> (if c = 62 then map_option (\<lambda>b. (eq + 2, b)) (mem_wr b (eq + 1) 0) else Some (eq + 1, b));
          b \<leftarrow> (if eq = 0 then None else back_blank b (eq - 1) var);
          skip_blank b v e }"

definition pair_line :: "ks_config \<Rightarrow> (line_end \<times> ks_config \<times> config_ptr \<times> config_ptr option) option" where
  "pair_line cfg =
     do { (e, b) \<leftarrow> cut_tail (cbuf cfg);
          (var, b) \<leftarrow> skip_blank b 0 e;
          eq \<leftarrow> strchr_at b var 61;
          case eq of None \<Rightarrow> Some (Again, cfg\<lparr>cbuf := b\<rparr>, In_buf var, None)
          | Some q \<Rightarrow>
              do { (v, b) \<leftarrow> split_pair b var q e;
                   Some (Found_pair, cfg\<lparr>cbuf := b\<rparr>, In_buf var, Some (In_buf v)) } }"

definition END_MARK :: mem where
  "END_MARK = [95, 95, 69, 78, 68, 95, 95]"

text \<open>
  The body of the loop behind \<open>fgets\<close>. The arguments and the result carry the outputs \<open>var\<close> and
  \<open>val\<close> and the pending return value, which keep the values of earlier lines.
\<close>

definition config_line ::
  "ks_config \<Rightarrow> int \<Rightarrow> config_ptr option \<Rightarrow> (line_end \<times> int \<times> config_ptr \<times> config_ptr option \<times> ks_config) option" where
  "config_line cfg ret val =
     do { c \<leftarrow> mem_rd (cbuf cfg) 0;
          close \<leftarrow> (if c = 91 then strchr_at (cbuf cfg) 0 93 else Some None);
          case close of
            Some e \<Rightarrow>
              do { (k, cfg, p) \<leftarrow> bracket_line cfg e;
                   Some (k, (if k = Found_pair then 1 else ret), p,
                     (if k = Found_pair then Some Empty_text else val), cfg) }
          | None \<Rightarrow>
              if c = 35 \<or> c = 59 \<or> c = 10 \<or> c = 13 then Some (Again, ret, In_buf 0, val, cfg)
              else do { s \<leftarrow> str_at (cbuf cfg) 0;
                        if take 7 s = END_MARK then Some (Stop, ret, In_buf 0, val, cfg)
                        else do { (k, cfg, p, v) \<leftarrow> pair_line cfg;
                                  Some (k, (if k = Found_pair then 1 else - 1), p, v, cfg) } } }"

section \<open>Reading a pair\<close>

function next_loop ::
  "ks_config \<Rightarrow> mem \<Rightarrow> int \<Rightarrow> config_ptr option \<Rightarrow> config_ptr option \<Rightarrow>
   (int \<times> config_ptr option \<times> config_ptr option \<times> ks_config) option" where
  "next_loop cfg f ret var val =
     (case f of [] \<Rightarrow> Some (0, var, val, cfg\<lparr>lineno := lineno cfg + 1, cfile := Some []\<rparr>)
      | _ # _ \<Rightarrow>
          (case fgets_take 1023 f of (l, f') \<Rightarrow>
             do { b \<leftarrow> mem_cpy (cbuf cfg) 0 (l @ [0]);
                  r \<leftarrow> config_line (cfg\<lparr>lineno := lineno cfg + 1, cbuf := b, cfile := Some f'\<rparr>) ret val;
                  case r of (k, ret, var, val, cfg) \<Rightarrow>
                    if k = Again then next_loop cfg f' ret (Some var) val
                    else Some (ret, Some var, val, cfg) }))"
  by pat_completeness auto
termination by (relation "measure (\<lambda>(_, f, _). length f)") (auto dest!: sym [THEN fgets_take_shorter])

declare next_loop.simps [simp del]

definition ks_config_next_pair ::
  "ks_config option \<Rightarrow> (int \<times> config_ptr option \<times> config_ptr option \<times> ks_config option) option" where
  "ks_config_next_pair cfg =
     (case cfg of None \<Rightarrow> Some (0, None, None, None)
      | Some c \<Rightarrow>
          (case cfile c of None \<Rightarrow> Some (0, None, None, cfg)
           | Some f \<Rightarrow> map_option (\<lambda>(r, var, val, c). (r, var, val, Some c)) (next_loop c f 0 None None)))"

section \<open>What a line keeps\<close>

lemma bracket_line_file: "bracket_line cfg e = Some (k, cfg', p) \<Longrightarrow> cfile cfg' = cfile cfg"
  by (auto simp: bracket_line_def Let_def split: bind_splits if_splits)

lemma pair_line_file: "pair_line cfg = Some (k, cfg', p, v) \<Longrightarrow> cfile cfg' = cfile cfg"
  by (auto simp: pair_line_def split: bind_splits option.splits)

lemma config_line_file: "config_line cfg ret val = Some (k, r, p, v, cfg') \<Longrightarrow> cfile cfg' = cfile cfg"
  by (auto simp: config_line_def split: bind_splits option.splits if_splits dest: bracket_line_file pair_line_file)

lemma next_loop_shorter:
  "next_loop cfg f ret var val = Some (r, var', val', cfg') \<Longrightarrow>
   \<exists>f'. cfile cfg' = Some f' \<and> length f' \<le> length f \<and> (r \<noteq> 0 \<longrightarrow> length f' < length f)"
proof (induction cfg f ret var val rule: next_loop.induct)
  case (1 cfg f ret var val)
  show ?case
  proof (cases f)
    case Nil
    then show ?thesis using "1.prems" by (auto simp: next_loop.simps [of cfg])
  next
    case (Cons c s)
    obtain l f' where g: "fgets_take 1023 f = (l, f')" by fastforce
    then have less: "length f' < length f" using fgets_take_shorter [of 1023 c s l f'] Cons by simp
    from "1.prems" Cons g obtain b k ret' v w cfg1 where
      b: "mem_cpy (cbuf cfg) 0 (l @ [0]) = Some b" and
      ln: "config_line (cfg\<lparr>lineno := lineno cfg + 1, cbuf := b, cfile := Some f'\<rparr>) ret val = Some (k, ret', v, w, cfg1)" and
      rest: "(if k = Again then next_loop cfg1 f' ret' (Some v) w else Some (ret', Some v, w, cfg1)) =
        Some (r, var', val', cfg')"
      by (auto simp: next_loop.simps [of cfg] split: bind_splits)
    have "cfile cfg1 = Some f'" using config_line_file [OF ln] by simp
    then show ?thesis using "1.IH" [OF Cons g [symmetric]] b ln rest less by (cases "k = Again") fastforce+
  qed
qed

lemma next_pair_shorter:
  assumes "ks_config_next_pair (Some c) = Some (r, var, val, c')" "r \<noteq> 0"
  shows "\<exists>c1 f f'. c' = Some c1 \<and> cfile c = Some f \<and> cfile c1 = Some f' \<and> length f' < length f"
  using assms next_loop_shorter by (fastforce simp: ks_config_next_pair_def split: option.splits)

section \<open>Opening and closing\<close>

definition ks_config_close_file :: "ks_config \<Rightarrow> ks_config" where
  "ks_config_close_file cfg = config_zero"

text \<open>\<open>KS_CONFIG_DIR\<close> with the separator, and the name of the common file.\<close>

definition CONFIG_DIR :: mem where
  "CONFIG_DIR = [47, 101, 116, 99, 47, 111, 112, 101, 110, 107, 115, 47]"

definition COMMON_FILE :: mem where
  "COMMON_FILE = [111, 112, 101, 110, 107, 115, 46, 99, 111, 110, 102]"

text \<open>The search for the section named like the file, in the common file.\<close>

definition file_size :: "ks_config \<Rightarrow> nat" where
  "file_size c = (case cfile c of None \<Rightarrow> 0 | Some f \<Rightarrow> length f)"

function open_loop :: "ks_config \<Rightarrow> mem \<Rightarrow> (int \<times> ks_config) option" where
  "open_loop cfg name =
     (case ks_config_next_pair (Some cfg) of
        Some (r, _, _, Some c) \<Rightarrow>
          if r = 0 then Some (0, config_zero)
          else do { s \<leftarrow> c_str (csection c);
                    if sectno c \<noteq> - 1 \<and> s = name then Some (1, c\<lparr>lockto := sectno c\<rparr>)
                    else open_loop c name }
      | _ \<Rightarrow> None)"
  by pat_completeness auto
termination
  by (relation "measure (\<lambda>(c, _). file_size c)") (auto simp: file_size_def dest!: next_pair_shorter)

declare open_loop.simps [simp del]

text \<open>
  \<open>fopen\<close> is the argument \<open>fs\<close>, the contents of the file at a path. The path is written by
  \<open>ks_snprintf\<close> into 1024 bytes and kept in the 512 bytes of the handle.
\<close>

definition config_set_path :: "ks_config \<Rightarrow> mem \<Rightarrow> ks_config option" where
  "config_set_path cfg p =
     do { w \<leftarrow> ks_copy_string (Some (cpath cfg)) (Some (p @ [0])) 512;
          (_, m) \<leftarrow> w;
          Some (cfg\<lparr>cpath := m\<rparr>) }"

definition ks_config_open_file :: "(mem \<Rightarrow> mem option) \<Rightarrow> mem \<Rightarrow> (int \<times> ks_config) option" where
  "ks_config_open_file fs file_path =
     (let rooted = (file_path \<noteq> [] \<and> file_path ! 0 = 47);
          path = (if rooted then file_path else take 1023 (CONFIG_DIR @ file_path));
          cfg = config_zero\<lparr>lockto := - 1\<rparr>
      in case fs path of
           Some f \<Rightarrow> map_option (Pair 1) (config_set_path (cfg\<lparr>cfile := Some f\<rparr>) path)
         | None \<Rightarrow>
             if rooted then Some (0, cfg)
             else (case fs (CONFIG_DIR @ COMMON_FILE) of None \<Rightarrow> Some (0, cfg)
                   | Some f \<Rightarrow>
                       do { cfg \<leftarrow> config_set_path (cfg\<lparr>cfile := Some f\<rparr>) (CONFIG_DIR @ COMMON_FILE);
                            open_loop cfg file_path }))"

section \<open>CAS bits\<close>

text \<open>
  The four characters behind the first colon, each 0 or 1; \<open>sscanf\<close> finds fewer at the end of the
  string. The result is the return value and the bits.
\<close>

fun cas_loop :: "mem \<Rightarrow> byte \<Rightarrow> byte \<Rightarrow> int \<times> byte" where
  "cas_loop [] bit_v outbits = (0, outbits)"
| "cas_loop (c # cs) bit_v outbits =
     (if c = 49 then cas_loop cs (drop_bit 1 bit_v) (outbits OR bit_v)
      else if c \<noteq> 48 then (- 1, outbits)
      else cas_loop cs (drop_bit 1 bit_v) outbits)"

definition ks_config_get_cas_bits :: "mem \<Rightarrow> byte \<Rightarrow> int \<times> byte" where
  "ks_config_get_cas_bits strvalue outbits =
     (if 58 \<notin> set strvalue then (- 1, outbits)
      else let rest = drop 1 (dropWhile (\<lambda>c. c \<noteq> 58) strvalue)
           in if length rest < 4 then (- 1, 0) else cas_loop (take 4 rest) 8 0)"

end
