(* ===== verification/Ks_Config_Props.thy ===== *)
theory Ks_Config_Props
  imports Ks_Config
begin

text \<open>
  Correctness of the configuration reader. Every write of the reader is a NUL, so that the NUL of
  \<open>fgets\<close> bounds all its scans: the first half of the theory derives from this that a file is read to
  its end without a fault. The second half describes well-formed files and shows that reading gives
  the pairs they were written from.
\<close>

section \<open>Overwriting with NUL\<close>

definition zeroed :: "mem \<Rightarrow> mem \<Rightarrow> bool" where
  "zeroed b b' = (length b' = length b \<and> (\<forall>i<length b. b' ! i = b ! i \<or> b' ! i = 0))"

lemma zeroed_refl [simp]: "zeroed b b"
  by (simp add: zeroed_def)

lemma zeroed_trans [trans]: "zeroed a b \<Longrightarrow> zeroed b c \<Longrightarrow> zeroed a c"
  unfolding zeroed_def by metis

lemma zeroed_upd [simp]: "zeroed b (b[i := 0])"
  by (cases "i < length b") (auto simp: zeroed_def nth_list_update)

lemma zeroed_nul: "zeroed b b' \<Longrightarrow> z < length b \<Longrightarrow> b ! z = 0 \<Longrightarrow> z < length b' \<and> b' ! z = 0"
  by (auto simp: zeroed_def)

lemma str_at_nul:
  assumes "z < length b" "b ! z = 0" "p \<le> z"
  shows "\<exists>s. str_at b p = Some s \<and> p + length s \<le> z"
proof -
  have "\<exists>s. c_str m = Some s \<and> length s \<le> k" if "k < length m" "m ! k = 0" for m :: mem and k
    using that
  proof (induction m arbitrary: k)
    case (Cons c m)
    then show ?case by (cases k) fastforce+
  qed simp
  from this [of "z - p" "drop p b"] assms show ?thesis by (fastforce simp: str_at_def)
qed

lemma strchr_at_nul:
  assumes "z < length b" "b ! z = 0" "p \<le> z"
  shows "\<exists>r. strchr_at b p c = Some r \<and> (\<forall>q. r = Some q \<longrightarrow> p \<le> q \<and> q < z \<and> b ! q = c \<and> c \<noteq> 0)"
proof -
  obtain s where s: "str_at b p = Some s" "p + length s \<le> z" using str_at_nul [OF assms] by blast
  then obtain r where r: "drop p b = s @ 0 # r" "0 \<notin> set s"
    using c_str_no_nul by (fastforce simp: str_at_def split: if_splits)
  show ?thesis
  proof (cases "c \<in> set s")
    case True
    then obtain a t where a: "s = a @ c # t" "c \<notin> set a" using split_list_first by fast
    then have "b ! (p + length a) = c" using r s(2) assms(1) nth_drop [of p b "length a"] by (simp add: nth_append)
    then show ?thesis using strchr_at_Some [OF s(1) [unfolded a(1)] a(2)] s(2) a(1) r(2) by auto
  next
    case False
    then show ?thesis using s(1) by (simp add: strchr_at_def)
  qed
qed

lemma skip_blank_total:
  "z < length b \<Longrightarrow> b ! z = 0 \<Longrightarrow> p \<le> z \<Longrightarrow>
   \<exists>p' b'. skip_blank b p e = Some (p', b') \<and> zeroed b b' \<and> p \<le> p' \<and> p' \<le> z \<and>
     (\<forall>i. p \<le> i \<and> i < p' \<longrightarrow> b' ! i = 0) \<and> (p' = p \<longrightarrow> b' = b)"
proof (induction b p e rule: skip_blank.induct)
  case (1 b p e)
  show ?case
  proof (cases "blank (b ! p) \<and> e \<noteq> Some p")
    case True
    then have "p \<noteq> z" using "1.prems" by auto
    then obtain p' b' where r: "skip_blank (b[p := 0]) (p + 1) e = Some (p', b')" "zeroed (b[p := 0]) b'" "p + 1 \<le> p'" "p' \<le> z"
        "\<forall>i. p + 1 \<le> i \<and> i < p' \<longrightarrow> b' ! i = 0"
      using "1.IH" True "1.prems" by (fastforce simp: nth_list_update)
    have "b' ! p = 0" using zeroed_nul [OF r(2), of p] "1.prems" by simp
    then have "\<forall>i. p \<le> i \<and> i < p' \<longrightarrow> b' ! i = 0" using r(5) by (metis Suc_eq_plus1 Suc_leI le_neq_implies_less)
    moreover have "skip_blank b p e = Some (p', b')" using True r(1) "1.prems" by (simp add: skip_blank.simps [of b])
    ultimately show ?thesis using r zeroed_trans [OF zeroed_upd [of b p] r(2)] by auto
  next
    case False
    then show ?thesis using "1.prems" by (auto simp: skip_blank.simps [of b])
  qed
qed

lemma back_blank_total:
  "p < length b \<Longrightarrow> var \<le> p \<or> \<not> blank (b ! p) \<Longrightarrow> \<exists>b'. back_blank b p var = Some b' \<and> zeroed b b'"
proof (induction b p var rule: back_blank.induct)
  case (1 b p var)
  show ?case
  proof (cases "blank (b ! p) \<and> p \<noteq> var")
    case True
    then have "p \<noteq> 0" "var \<le> p - 1" using "1.prems" by auto
    then obtain b' where "back_blank (b[p := 0]) (p - 1) var = Some b'" "zeroed (b[p := 0]) b'"
      using "1.IH" True "1.prems" by fastforce
    then show ?thesis using True "1.prems" \<open>p \<noteq> 0\<close> zeroed_trans [OF zeroed_upd [of b p]]
      by (simp add: back_blank.simps [of b])
  next
    case False
    then show ?thesis using "1.prems" by (auto simp: back_blank.simps [of b])
  qed
qed

lemma cut_tail_total:
  assumes "z < length b" "b ! z = 0" "b ! 0 \<noteq> 59" "b ! 0 \<noteq> 10"
  shows "\<exists>e b'. cut_tail b = Some (e, b') \<and> zeroed b b'"
proof -
  obtain semi where semi: "strchr_at b 0 59 = Some semi" "\<forall>q. semi = Some q \<longrightarrow> q < z \<and> b ! q = 59"
    using strchr_at_nul [OF assms(1,2), of 0 59] by auto
  obtain nl where nl: "strchr_at b 0 10 = Some nl" "\<forall>q. nl = Some q \<longrightarrow> q < z \<and> b ! q = 10"
    using strchr_at_nul [OF assms(1,2), of 0 10] by auto
  have n0: "q \<noteq> 0" if "nl = Some q" for q using that nl(2) assms(4) by (metis )
  have s0: "q \<noteq> 0" if "semi = Some q" for q using that semi(2) assms(3) by metis
  show ?thesis
    using semi nl n0 s0 assms(1)
    by (auto simp: cut_tail_def mem_wr_def mem_rd_def Let_def split: option.splits)
qed

lemma split_pair_total:
  assumes "z < length b" "b ! z = 0" "var \<le> eq" "eq < z" "eq \<noteq> 0" "eq = var \<Longrightarrow> b ! (eq - 1) = 0" "b ! eq \<noteq> 0"
  shows "\<exists>v b'. split_pair b var eq e = Some (v, b') \<and> zeroed b b' \<and> v \<le> z"
proof -
  let ?b = "b[eq := 0]"
  let ?v = "if ?b ! (eq + 1) = 62 then eq + 2 else eq + 1"
  let ?b1 = "if ?b ! (eq + 1) = 62 then ?b[eq + 1 := 0] else ?b"
  have z1: "zeroed b ?b1" using zeroed_trans [OF zeroed_upd [of b eq] zeroed_upd [of ?b "eq + 1"]] by simp
  then have l: "z < length ?b1" "?b1 ! z = 0" using zeroed_nul [OF z1 assms(1,2)] by simp_all
  have v: "?v \<le> z"
  proof (cases "eq + 1 = z")
    case True
    then have "?b ! (eq + 1) = 0" using assms(1,2) by auto
    then show ?thesis using True by auto
  qed (use assms(4) in auto)
  have "eq - 1 < length ?b1" "var \<le> eq - 1 \<or> \<not> blank (?b1 ! (eq - 1))"
  proof -
    show "eq - 1 < length ?b1" using assms(1,4) by simp
    have "?b1 ! (eq - 1) = b ! (eq - 1)" using assms(1,4,5) by (simp add: nth_list_update)
    then show "var \<le> eq - 1 \<or> \<not> blank (?b1 ! (eq - 1))" using assms(3,5,6) by (cases "eq = var") auto
  qed
  then obtain b2 where b2: "back_blank ?b1 (eq - 1) var = Some b2" "zeroed ?b1 b2" using back_blank_total by blast
  obtain v' b3 where b3: "skip_blank b2 ?v e = Some (v', b3)" "zeroed b2 b3" "v' \<le> z"
    using skip_blank_total [of z b2 ?v e] zeroed_nul [OF b2(2) l] v by blast
  have "split_pair b var eq e = Some (v', b3)"
    using assms(1,4,5) b2(1) b3(1) by (auto simp: split_pair_def mem_wr_def mem_rd_def split: if_splits)
  then show ?thesis using b3(3) zeroed_trans [OF z1 zeroed_trans [OF b2(2) b3(2)]] by auto
qed

section \<open>One line\<close>

text \<open>The sizes of the blocks of a handle; the names end with a NUL.\<close>

definition config_ok :: "ks_config \<Rightarrow> bool" where
  "config_ok c = (length (cbuf c) = 1024 \<and> length (category c) = 256 \<and> length (csection c) = 256 \<and>
     c_str (category c) \<noteq> None \<and> c_str (csection c) \<noteq> None)"

lemma bracket_line_total:
  assumes ok: "config_ok cfg" and z: "z < 1024" "cbuf cfg ! z = 0" and e: "0 < e" "e < z"
  shows "\<exists>k cfg' p. bracket_line cfg e = Some (k, cfg', In_buf p) \<and> p \<le> 2 \<and> k \<noteq> Found_pair \<and> config_ok cfg' \<and> (\<exists>z<1024. p \<le> z \<and> cbuf cfg' ! z = 0) \<or>
    bracket_line cfg e = Some (Found_pair, cfg', Empty_text) \<and> config_ok cfg' \<and> (\<exists>z<1024. cbuf cfg' ! z = 0)"
proof -
  let ?b = "(cbuf cfg)[e := 0]"
  have len: "length (cbuf cfg) = 1024" using ok by (simp add: config_ok_def)
  have cp: "\<exists>n buf. ks_copy_string (Some dst) (Some (drop p ?b)) 256 = Some (Some (n, buf)) \<and> c_str buf \<noteq> None \<and> length buf = 256"
    if d: "length dst = 256" "p \<le> e" for dst :: mem and p
  proof -
    obtain s where "str_at ?b p = Some s" using str_at_nul [of e ?b p] d(2) e z len by auto
    then have "c_str (drop p ?b) = Some s" by (simp add: str_at_def split: if_splits)
    from ks_copy_string_copies [OF this, of 256 dst] d show ?thesis by auto
  qed
  have e2: "2 \<le> e" if "?b ! 1 = 43" using that e z len by (cases "e = 1") auto
  have wr: "mem_wr (cbuf cfg) e 0 = Some ?b" "mem_rd ?b 1 = Some (?b ! 1)" using e z len by (simp_all add: mem_wr_def mem_rd_def)
  have ze: "e < 1024 \<and> ?b ! e = 0" using e z len by simp
  show ?thesis
  proof (cases "?b ! 1 = 43")
    case True
    with cp [of "csection cfg" 2] e2 ok obtain n buf where
      "ks_copy_string (Some (csection cfg)) (Some (drop 2 ?b)) 256 = Some (Some (n, buf))" "c_str buf \<noteq> None" "length buf = 256"
      by (auto simp: config_ok_def)
    then show ?thesis using True e2 wr ze ok by (auto simp: bracket_line_def Let_def config_ok_def)
  next
    case False
    with cp [of "category cfg" 1] e ok obtain n buf where
      "ks_copy_string (Some (category cfg)) (Some (drop 1 ?b)) 256 = Some (Some (n, buf))" "c_str buf \<noteq> None" "length buf = 256"
      by (auto simp: config_ok_def)
    then show ?thesis using False e wr ze ok by (auto simp: bracket_line_def Let_def config_ok_def)
  qed
qed

lemma pair_line_total:
  assumes ok: "config_ok cfg" and z: "z < 1024" "cbuf cfg ! z = 0"
    and c: "cbuf cfg ! 0 \<notin> {59, 10, 61}"
  shows "\<exists>k cfg' p v. pair_line cfg = Some (k, cfg', In_buf p, v) \<and> config_ok cfg' \<and> p \<le> z \<and> cbuf cfg' ! z = 0 \<and>
    (k = Again \<and> v = None \<or> k = Found_pair \<and> (\<exists>w\<le>z. v = Some (In_buf w)))"
proof -
  have len: "length (cbuf cfg) = 1024" using ok by (simp add: config_ok_def)
  obtain e b1 where b1: "cut_tail (cbuf cfg) = Some (e, b1)" "zeroed (cbuf cfg) b1"
    using cut_tail_total [of z "cbuf cfg"] z len c by auto
  note n1 = zeroed_nul [OF b1(2), of z]
  obtain var b2 where b2: "skip_blank b1 0 e = Some (var, b2)" "zeroed b1 b2" "var \<le> z" "\<forall>i<var. b2 ! i = 0" "var = 0 \<longrightarrow> b2 = b1"
    using skip_blank_total [of z b1 0 e] n1 z len by auto
  note n2 = zeroed_nul [OF b2(2), of z]
  obtain eq where eq: "strchr_at b2 var 61 = Some eq" "\<forall>q. eq = Some q \<longrightarrow> var \<le> q \<and> q < z \<and> b2 ! q = 61"
    using strchr_at_nul [of z b2 var 61] n1 n2 z len b2(3) by auto
  have lens: "length b1 = 1024" "length b2 = 1024" using b1(2) b2(2) len by (auto simp: zeroed_def)
  have ok': "config_ok (cfg\<lparr>cbuf := b\<rparr>)" if "zeroed b2 b" for b using ok that lens by (auto simp: config_ok_def zeroed_def)
  show ?thesis
  proof (cases eq)
    case None
    then have "pair_line cfg = Some (Again, cfg\<lparr>cbuf := b2\<rparr>, In_buf var, None)" using b1 b2 eq by (simp add: pair_line_def)
    then show ?thesis using ok' [of b2] n1 n2 z len b2(3) by auto
  next
    case (Some q)
    have q0: "q \<noteq> 0"
    proof
      assume "q = 0"
      then have "b1 ! 0 = 61" using eq(2) Some b2(5) by auto
      moreover have "b1 ! 0 = cbuf cfg ! 0 \<or> b1 ! 0 = 0" using b1(2) len by (auto simp: zeroed_def)
      ultimately show False using c by auto
    qed
    obtain v b3 where b3: "split_pair b2 var q e = Some (v, b3)" "zeroed b2 b3" "v \<le> z"
      using split_pair_total [of z b2 var q e] n1 n2 z len eq(2) Some q0 b2(4) by auto
    then have "pair_line cfg = Some (Found_pair, cfg\<lparr>cbuf := b3\<rparr>, In_buf var, Some (In_buf v))"
      using b1 b2 eq Some by (simp add: pair_line_def)
    then show ?thesis using ok' [of b3] zeroed_nul [OF b3(2), of z] n1 n2 z len b2(3) b3 by auto
  qed
qed

definition ptr_ok :: "ks_config \<Rightarrow> config_ptr \<Rightarrow> bool" where
  "ptr_ok c p = (case p of Empty_text \<Rightarrow> True | In_buf i \<Rightarrow> str_at (cbuf c) i \<noteq> None)"

lemma ptr_ok_nul: "config_ok c \<Longrightarrow> z < 1024 \<Longrightarrow> cbuf c ! z = 0 \<Longrightarrow> i \<le> z \<Longrightarrow> ptr_ok c (In_buf i)"
  using str_at_nul [of z "cbuf c" i] by (auto simp: ptr_ok_def config_ok_def)

definition line_result_ok :: "line_end \<times> int \<times> config_ptr \<times> config_ptr option \<times> ks_config \<Rightarrow> bool" where
  "line_result_ok = (\<lambda>(k, r, p, v, cfg). config_ok cfg \<and> ptr_ok cfg p \<and>
     (if k = Found_pair then r = 1 \<and> (\<exists>w. v = Some w \<and> ptr_ok cfg w) else v = None))"

lemma config_line_total:
  assumes ok: "config_ok cfg" and z: "z < 1024" "cbuf cfg ! z = 0" and c: "cbuf cfg ! 0 \<noteq> 61"
  shows "\<exists>res. config_line cfg ret None = Some res \<and> line_result_ok res"
proof -
  let ?c = "cbuf cfg ! 0"
  have len: "length (cbuf cfg) = 1024" using ok by (simp add: config_ok_def)
  have rd: "mem_rd (cbuf cfg) 0 = Some ?c" using len by (simp add: mem_rd_def)
  obtain s where s: "str_at (cbuf cfg) 0 = Some s" using str_at_nul [of z "cbuf cfg" 0] z len by auto
  obtain cl where cl: "(if ?c = 91 then strchr_at (cbuf cfg) 0 93 else Some None) = Some cl"
      "\<forall>e. cl = Some e \<longrightarrow> 0 < e \<and> e < z"
  proof (cases "?c = 91")
    case True
    obtain r where r: "strchr_at (cbuf cfg) 0 93 = Some r" "\<forall>q. r = Some q \<longrightarrow> q < z \<and> cbuf cfg ! q = 93"
      using strchr_at_nul [of z "cbuf cfg" 0 93] z len by auto
    have "0 < e" if "r = Some e" for e
    proof (rule ccontr)
      assume "\<not> 0 < e"
      then have "cbuf cfg ! 0 = 93" using r(2) that by simp
      then show False using True by simp
    qed
    then have "\<forall>e. r = Some e \<longrightarrow> 0 < e \<and> e < z" using r(2) by blast
    then show ?thesis using True r(1) that by simp
  qed (use that in auto)
  have here: "ptr_ok cfg (In_buf 0)" using ptr_ok_nul [OF ok z] by simp
  show ?thesis
  proof (cases cl)
    case (Some e)
    then have "0 < e" "e < z" using cl(2) by auto
    from bracket_line_total [OF ok z this] show ?thesis
    proof (elim exE disjE conjE)
      fix k cfg' p z' assume "bracket_line cfg e = Some (k, cfg', In_buf p)" "k \<noteq> Found_pair" "config_ok cfg'" "z' < 1024"
        "p \<le> z'" "cbuf cfg' ! z' = 0"
      then show ?thesis using rd cl Some ptr_ok_nul [of cfg' z' p] by (simp add: config_line_def line_result_ok_def)
    next
      fix cfg' z' assume "bracket_line cfg e = Some (Found_pair, cfg', Empty_text)" "config_ok cfg'"
      then show ?thesis using rd cl Some by (simp add: config_line_def line_result_ok_def ptr_ok_def)
    qed
  next
    case None
    show ?thesis
    proof (cases "?c = 35 \<or> ?c = 59 \<or> ?c = 10 \<or> ?c = 13 \<or> take 7 s = END_MARK")
      case True
      then show ?thesis using rd cl None s ok here by (auto simp: config_line_def line_result_ok_def)
    next
      case False
      then obtain k cfg' p v where p: "pair_line cfg = Some (k, cfg', In_buf p, v)" "config_ok cfg'" "p \<le> z" "cbuf cfg' ! z = 0"
          "k = Again \<and> v = None \<or> k = Found_pair \<and> (\<exists>w\<le>z. v = Some (In_buf w))"
        using pair_line_total [OF ok z] c by auto
      then show ?thesis using rd cl None s False ptr_ok_nul [OF p(2) z(1) p(4)]
        by (auto simp: config_line_def line_result_ok_def)
    qed
  qed
qed

section \<open>Reading a whole file\<close>

text \<open>The portions in which \<open>fgets\<close> reads a file: its lines, cut at 1023 bytes.\<close>

function config_lines :: "mem \<Rightarrow> mem list" where
  "config_lines f = (case f of [] \<Rightarrow> [] | _ # _ \<Rightarrow> (case fgets_take 1023 f of (l, r) \<Rightarrow> l # config_lines r))"
  by pat_completeness auto
termination by (relation "measure length") (auto dest!: sym [THEN fgets_take_shorter])

declare config_lines.simps [simp del]

definition lines_ok :: "mem \<Rightarrow> bool" where
  "lines_ok f = (\<forall>l\<in>set (config_lines f). take 1 l \<noteq> [61])"

text \<open>The loop of a client: the current category, the name and the value of every pair.\<close>

definition config_str :: "ks_config \<Rightarrow> config_ptr option \<Rightarrow> mem option option" where
  "config_str c p =
     (case p of None \<Rightarrow> Some None | Some Empty_text \<Rightarrow> Some (Some [])
      | Some (In_buf i) \<Rightarrow> map_option Some (str_at (cbuf c) i))"

function config_pairs :: "ks_config \<Rightarrow> (mem \<times> mem option \<times> mem option) list option" where
  "config_pairs cfg =
     (case ks_config_next_pair (Some cfg) of
        Some (r, var, val, Some c) \<Rightarrow>
          if r = 0 then Some []
          else do { cat \<leftarrow> c_str (category c);
                    x \<leftarrow> config_str c var;
                    y \<leftarrow> config_str c val;
                    ps \<leftarrow> config_pairs c;
                    Some ((cat, x, y) # ps) }
      | _ \<Rightarrow> None)"
  by pat_completeness auto
termination
  by (relation "measure file_size") (auto simp: file_size_def dest!: next_pair_shorter)

declare config_pairs.simps [simp del]

lemma filled_line:
  assumes "config_ok cfg" "fgets_take 1023 f = (l, f')"
  shows "mem_cpy (cbuf cfg) 0 (l @ [0]) = Some (l @ 0 # drop (length l + 1) (cbuf cfg))" "length l < 1024"
    "config_ok (cfg\<lparr>lineno := n, cbuf := l @ 0 # drop (length l + 1) (cbuf cfg), cfile := g\<rparr>)"
  using assms fgets_take_append [OF assms(2)] by (auto simp: mem_cpy_def config_ok_def)

lemma next_loop_total:
  "config_ok cfg \<Longrightarrow> lines_ok f \<Longrightarrow> val = None \<Longrightarrow>
   \<exists>r var' val' cfg' f'. next_loop cfg f ret var val = Some (r, var', val', cfg') \<and> config_ok cfg' \<and>
     cfile cfg' = Some f' \<and> lines_ok f' \<and>
     (r \<noteq> 0 \<longrightarrow> (\<exists>p. var' = Some p \<and> ptr_ok cfg' p) \<and> (val' = None \<or> (\<exists>w. val' = Some w \<and> ptr_ok cfg' w)))"
proof (induction cfg f ret var val rule: next_loop.induct)
  case (1 cfg f ret var val)
  show ?case
  proof (cases f)
    case Nil
    then show ?thesis using "1.prems" by (auto simp: next_loop.simps [of cfg] config_ok_def lines_ok_def)
  next
    case (Cons c s)
    obtain l f' where g: "fgets_take 1023 f = (l, f')" by fastforce
    then have lf: "lines_ok f'" "take 1 l \<noteq> [61]"
      using "1.prems"(2) Cons by (auto simp: lines_ok_def config_lines.simps [of "c # s"])
    let ?b = "l @ 0 # drop (length l + 1) (cbuf cfg)"
    let ?cfg = "cfg\<lparr>lineno := lineno cfg + 1, cbuf := ?b, cfile := Some f'\<rparr>"
    note fl = filled_line [OF "1.prems"(1) g]
    have "?b ! 0 \<noteq> 61" using lf(2) by (cases l) auto
    then obtain k r p v cfg1 where ln: "config_line ?cfg ret None = Some (k, r, p, v, cfg1)" "line_result_ok (k, r, p, v, cfg1)"
      using config_line_total [OF fl(3) [where n = "lineno cfg + 1" and g = "Some f'"], of "length l" ret] fl(2) by fastforce
    have fil: "cfile cfg1 = Some f'" using config_line_file [OF ln(1)] by simp
    have step: "next_loop cfg f ret var val = (if k = Again then next_loop cfg1 f' r (Some p) v else Some (r, Some p, v, cfg1))"
      using Cons g fl(1) ln(1) "1.prems"(3) by (simp add: next_loop.simps [of cfg])
    show ?thesis
    proof (cases "k = Again")
      case True
      then have "config_ok cfg1" "v = None" using ln(2) by (auto simp: line_result_ok_def)
      then show ?thesis
        using "1.IH" [OF Cons g [symmetric] fl(1) _ refl refl refl refl True _ lf(1)] ln(1) "1.prems"(3)
        unfolding step by (simp add: True)
    next
      case False
      then show ?thesis unfolding step using ln(2) fil lf(1) by (auto simp: line_result_ok_def split: if_splits)
    qed
  qed
qed

lemma ptr_ok_str: "ptr_ok c p \<Longrightarrow> \<exists>s. config_str c (Some p) = Some s"
  by (auto simp: ptr_ok_def config_str_def split: config_ptr.splits)

lemma config_pairs_total:
  "config_ok cfg \<Longrightarrow> cfile cfg = Some f \<Longrightarrow> lines_ok f \<Longrightarrow>
   \<exists>ps. config_pairs cfg = Some ps \<and> length ps \<le> length f"
proof (induction "length f" arbitrary: cfg f rule: less_induct)
  case less
  obtain r var val c f' where n: "next_loop cfg f 0 None None = Some (r, var, val, c)" and c: "config_ok c" "cfile c = Some f'" "lines_ok f'"
      "r \<noteq> 0 \<longrightarrow> (\<exists>p. var = Some p \<and> ptr_ok c p) \<and> (val = None \<or> (\<exists>w. val = Some w \<and> ptr_ok c w))"
    using next_loop_total [OF less.prems(1,3) refl, of 0 None] by blast
  then have np: "ks_config_next_pair (Some cfg) = Some (r, var, val, Some c)"
    using less.prems(2) by (simp add: ks_config_next_pair_def)
  show ?case
  proof (cases "r = 0")
    case True
    then show ?thesis using np by (simp add: config_pairs.simps [of cfg])
  next
    case False
    have sh: "length f' < length f" using next_loop_shorter [OF n] c(2) False by auto
    obtain ps where ps: "config_pairs c = Some ps" "length ps \<le> length f'" using less.hyps [OF sh c(1,2,3)] by blast
    obtain x y where "config_str c var = Some x" "config_str c val = Some y"
      using c(4) False ptr_ok_str [of c] by (fastforce simp: config_str_def [of c None])
    moreover obtain cat where "c_str (category c) = Some cat" using c(1) by (auto simp: config_ok_def)
    ultimately show ?thesis using np False ps sh by (simp add: config_pairs.simps [of cfg])
  qed
qed

section \<open>Well-formed files\<close>

text \<open>
  A line of a file: a category, a line without content (empty, or a comment), or a pair with blanks
  around its parts, the separator \<open>=\<close> or \<open>=>\<close>, and behind the value nothing, a carriage return or a
  comment that begins with two semicolons.
\<close>

datatype config_item =
  Category_item mem
| Note_item mem
| Pair_item (item_lead: mem) (item_var: mem) (item_pad: mem) (item_arrow: bool) (item_pad2: mem) (item_val: mem) (item_tail: mem)

definition pair_body :: "mem \<Rightarrow> mem \<Rightarrow> mem \<Rightarrow> bool \<Rightarrow> mem \<Rightarrow> mem \<Rightarrow> mem" where
  "pair_body lead var pad arrow pad2 v = lead @ var @ pad @ 61 # (if arrow then [62] else []) @ pad2 @ v"

fun item_text :: "config_item \<Rightarrow> mem" where
  "item_text (Category_item n) = 91 # n @ [93]"
| "item_text (Note_item t) = t"
| "item_text (Pair_item lead var pad arrow pad2 v tail) = pair_body lead var pad arrow pad2 v @ tail"

definition pair_ok :: "mem \<Rightarrow> mem \<Rightarrow> mem \<Rightarrow> mem \<Rightarrow> mem \<Rightarrow> bool" where
  "pair_ok lead var pad pad2 v =
     (set lead \<union> set pad \<union> set pad2 \<subseteq> {32, 9} \<and> var \<noteq> [] \<and> v \<noteq> [] \<and> hd (lead @ var) \<notin> {91, 35, 13} \<and>
      \<not> blank (hd var) \<and> \<not> blank (last var) \<and> set var \<inter> {0, 10, 59, 61} = {} \<and>
      \<not> blank (hd v) \<and> hd v \<noteq> 62 \<and> set v \<inter> {0, 10, 13, 59} = {})"

definition tail_ok :: "mem \<Rightarrow> bool" where
  "tail_ok t = (t = [] \<or> t = [13] \<or> take 2 t = [59, 59] \<and> 0 \<notin> set t)"

fun item_ok :: "config_item \<Rightarrow> bool" where
  "item_ok (Category_item n) = (0 \<notin> set n \<and> 93 \<notin> set n \<and> take 1 n \<noteq> [43] \<and> length n \<le> 255)"
| "item_ok (Note_item t) = (t = [] \<or> hd t \<in> {35, 59, 13})"
| "item_ok (Pair_item lead var pad arrow pad2 v tail) =
     (pair_ok lead var pad pad2 v \<and> tail_ok tail \<and> take 7 (pair_body lead var pad arrow pad2 v) \<noteq> END_MARK)"

definition config_item_ok :: "config_item \<Rightarrow> bool" where
  "config_item_ok it = (item_ok it \<and> 10 \<notin> set (item_text it) \<and> length (item_text it) \<le> 1022)"

fun config_text :: "config_item list \<Rightarrow> mem" where
  "config_text [] = []"
| "config_text (it # its) = item_text it @ 10 # config_text its"

fun config_meaning :: "mem \<Rightarrow> config_item list \<Rightarrow> (mem \<times> mem option \<times> mem option) list" where
  "config_meaning cat [] = []"
| "config_meaning cat (Category_item n # its) = config_meaning n its"
| "config_meaning cat (Note_item t # its) = config_meaning cat its"
| "config_meaning cat (Pair_item lead var pad arrow pad2 v tail # its) = (cat, Some var, Some v) # config_meaning cat its"

lemma fgets_take_line: "10 \<notin> set t \<Longrightarrow> length t < n \<Longrightarrow> fgets_take n (t @ 10 # f) = (t @ [10], f)"
proof (induction t arbitrary: n)
  case Nil
  then show ?case by (cases n) auto
next
  case (Cons c t)
  then show ?case by (cases n) auto
qed

lemma skip_blank_run:
  "set pad \<subseteq> {32, 9} \<Longrightarrow> \<not> blank c \<Longrightarrow> length A + length pad \<le> m \<Longrightarrow> 
   skip_blank (A @ pad @ c # R) (length A) (Some m) = Some (length A + length pad, A @ replicate (length pad) 0 @ c # R)"
proof (induction pad arbitrary: A)
  case Nil
  then show ?case by (auto simp: skip_blank.simps [of "A @ c # R"])
next
  case (Cons d pad)
  have "skip_blank (A @ (d # pad) @ c # R) (length A) (Some m) = skip_blank ((A @ [0]) @ pad @ c # R) (length (A @ [0])) (Some m)"
    using Cons.prems by (subst skip_blank.simps) (auto simp: nth_append)
  also have "\<dots> = Some (length (A @ [0]) + length pad, (A @ [0]) @ replicate (length pad) 0 @ c # R)"
    using Cons.prems by (intro Cons.IH) auto
  finally show ?case by simp
qed

lemma back_blank_run:
  "set pad \<subseteq> {32, 9} \<Longrightarrow> \<not> blank c \<Longrightarrow> var \<le> length A \<Longrightarrow>
   back_blank (A @ c # pad @ R) (length A + length pad) var = Some (A @ c # replicate (length pad) 0 @ R)"
proof (induction pad arbitrary: R rule: rev_induct)
  case Nil
  then show ?case by (subst back_blank.simps) (auto simp: nth_append)
next
  case (snoc d pad)
  have "back_blank (A @ c # (pad @ [d]) @ R) (length A + length (pad @ [d])) var = back_blank (A @ c # pad @ 0 # R) (length A + length pad) var"
    using snoc.prems by (subst back_blank.simps) (auto simp: nth_append list_update_append)
  also have "\<dots> = Some (A @ c # replicate (length pad) 0 @ 0 # R)" using snoc.prems by (intro snoc.IH) auto
  finally show ?case by (simp add: replicate_append_same [symmetric] del: replicate_append_same)
qed

lemma cut_tail_pair:
  assumes ok: "set body \<inter> {0, 10, 59} = {}" "body \<noteq> []" "last body \<noteq> 13" "tail_ok tail" "10 \<notin> set tail"
  shows "\<exists>e r. cut_tail (body @ tail @ 10 # 0 # junk) = Some (Some e, body @ 0 # r) \<and> (e = length body \<or> e = length body - 1) \<and>
    length (body @ 0 # r) = length (body @ tail @ 10 # 0 # junk)"
proof -
  let ?b = "body @ tail @ 10 # 0 # junk" and ?n = "length body"
  have st: "str_at ?b 0 = Some (body @ tail @ [10])"
    using ok(1,4) by (intro str_at_prefix [where r = junk]) (auto simp: tail_ok_def)
  have n0: "?n \<noteq> 0" "?b ! (?n - 1) = last body" using ok(2) by (auto simp: nth_append last_conv_nth)
  consider "tail = []" | "tail = [13]" | t where "tail = 59 # 59 # t"
    using ok(4) by (cases tail; cases "tl tail") (auto simp: tail_ok_def)
  then show ?thesis
  proof cases
    case 1
    then have "strchr_at ?b 0 59 = Some None" "strchr_at ?b 0 10 = Some (Some ?n)"
      using strchr_at_None [OF st] strchr_at_Some [of ?b 0 body 10 "[]"] st ok(1) by auto
    then show ?thesis using 1 n0 ok(3) by (auto simp: cut_tail_def mem_rd_def mem_wr_def Let_def)
  next
    case 2
    then have "strchr_at ?b 0 59 = Some None" "strchr_at ?b 0 10 = Some (Some (?n + 1))"
      using strchr_at_None [OF st] strchr_at_Some [of ?b 0 "body @ [13]" 10 "[]"] st ok(1) by auto
    then show ?thesis using 2 by (auto simp: cut_tail_def mem_rd_def mem_wr_def Let_def nth_append)
  next
    case (3 t)
    then have "strchr_at ?b 0 59 = Some (Some ?n)"
      using strchr_at_Some [of ?b 0 body 59 "59 # t @ [10]"] st ok(1) by auto
    then show ?thesis using 3 n0(1) by (auto simp: cut_tail_def mem_rd_def mem_wr_def Let_def nth_append)
  qed
qed

lemma split_pair_body:
  fixes lead var pad pad2 v r arrow
  defines "arr \<equiv> if arrow then [62] else []"
  assumes ok: "pair_ok lead var pad pad2 v" and z: "length z = length lead" and e: "length z + length var + length pad + 1 + length arr + length pad2 \<le> e"
  shows "split_pair (z @ var @ pad @ 61 # arr @ pad2 @ v @ 0 # r) (length z) (length z + length var + length pad) (Some e) =
    Some (length z + length var + length pad + 1 + length arr + length pad2,
      z @ var @ replicate (length pad) 0 @ 0 # replicate (length arr) 0 @ replicate (length pad2) 0 @ v @ 0 # r)"
proof -
  obtain x c where vr: "var = x @ [c]" "\<not> blank c" using ok by (cases var rule: rev_cases) (auto simp: pair_ok_def)
  obtain d w where v: "v = d # w" "\<not> blank d" "d \<noteq> 62" using ok by (cases v) (auto simp: pair_ok_def)
  have sets: "set pad \<subseteq> {32, 9}" "set pad2 \<subseteq> {32, 9}" using ok by (auto simp: pair_ok_def)
  let ?q = "length z + length var + length pad"
  let ?b1 = "z @ var @ pad @ 0 # arr @ pad2 @ v @ 0 # r"
  let ?b2 = "z @ var @ pad @ 0 # replicate (length arr) 0 @ pad2 @ v @ 0 # r"
  let ?b3 = "z @ var @ replicate (length pad) 0 @ 0 # replicate (length arr) 0 @ pad2 @ v @ 0 # r"
  have w1: "mem_wr (z @ var @ pad @ 61 # arr @ pad2 @ v @ 0 # r) ?q 0 = Some ?b1"
    using mem_wr_mid [of "z @ var @ pad" 61 "arr @ pad2 @ v @ 0 # r" 0] by (simp add: add.assoc)
  have rd: "mem_rd ?b1 (?q + 1) = Some (hd (arr @ pad2 @ v))"
    using v by (auto simp: mem_rd_def nth_append hd_append hd_conv_nth)
  have w2: "(if hd (arr @ pad2 @ v) = 62 then map_option (\<lambda>b. (?q + 2, b)) (mem_wr ?b1 (?q + 1) 0) else Some (?q + 1, ?b1)) =
      Some (?q + 1 + length arr, ?b2)"
  proof (cases arrow)
    case True
    then show ?thesis using mem_wr_mid [of "z @ var @ pad @ [0]" 62 "pad2 @ v @ 0 # r" 0] by (simp add: arr_def add.assoc)
  next
    case False
    have "hd (pad2 @ v) \<noteq> 62" using sets(2) v by (cases pad2) auto
    then show ?thesis using False by (simp add: arr_def)
  qed
  have "?q - 1 = length (z @ x) + length pad" "?q \<noteq> 0" using vr by simp_all
  then have bk: "(if ?q = 0 then None else back_blank ?b2 (?q - 1) (length z)) = Some ?b3"
    using back_blank_run [OF sets(1) vr(2), of "length z" "z @ x" "0 # replicate (length arr) 0 @ pad2 @ v @ 0 # r"] vr(1)
    by (simp del: diff_Suc_eq_diff_pred)
  have sk: "skip_blank ?b3 (?q + 1 + length arr) (Some e) =
      Some (?q + 1 + length arr + length pad2,
        z @ var @ replicate (length pad) 0 @ 0 # replicate (length arr) 0 @ replicate (length pad2) 0 @ v @ 0 # r)"
    using skip_blank_run [OF sets(2) v(2), of "z @ var @ replicate (length pad) 0 @ 0 # replicate (length arr) 0" e "w @ 0 # r"] e v(1)
    by (simp add: ac_simps)
  show ?thesis unfolding split_pair_def w1 rd bind.bind_lunit w2 prod.case bk sk ..
qed

lemma pair_line_pair:
  assumes ok: "item_ok (Pair_item lead var pad arrow pad2 v tail)" "10 \<notin> set tail"
    and b: "cbuf cfg = pair_body lead var pad arrow pad2 v @ tail @ 10 # 0 # junk"
  shows "\<exists>b p q. pair_line cfg = Some (Found_pair, cfg\<lparr>cbuf := b\<rparr>, In_buf p, Some (In_buf q)) \<and> length b = length (cbuf cfg) \<and>
    str_at b p = Some var \<and> str_at b q = Some v"
proof -
  define arr :: mem where "arr = (if arrow then [62] else [])"
  have ok1: "pair_ok lead var pad pad2 v" using ok by simp
  let ?body = "pair_body lead var pad arrow pad2 v"
  have body: "?body = lead @ var @ pad @ 61 # arr @ pad2 @ v" by (simp add: pair_body_def arr_def)
  have set1: "set ?body \<inter> {0, 10, 59} = {}" using ok1 by (auto simp: body pair_ok_def arr_def)
  have ne: "v \<noteq> []" "last ?body = last v" "last v \<in> set v" using ok1 by (auto simp: body pair_ok_def)
  have "13 \<notin> set v" using ok1 by (simp add: pair_ok_def)
  with ne have l13: "last ?body \<noteq> 13" by metis
  obtain e r where ct: "cut_tail (cbuf cfg) = Some (Some e, ?body @ 0 # r)" "e = length ?body \<or> e = length ?body - 1"
      "length (?body @ 0 # r) = length (cbuf cfg)"
    using cut_tail_pair [OF set1 _ l13 _ ok(2), of junk] ok(1) b by (auto simp: body)
  have e: "length lead + length var + length pad + 1 + length arr + length pad2 \<le> e"
  proof -
    have "length ?body = length lead + length var + length pad + 1 + length arr + length pad2 + length v" by (simp add: body)
    then show ?thesis using ct(2) ne(1) by (cases v) auto
  qed
  obtain c x where vr: "var = c # x" "\<not> blank c" using ok1 by (cases var) (auto simp: pair_ok_def)
  let ?z = "replicate (length lead) 0 :: mem"
  let ?b1 = "?z @ var @ pad @ 61 # arr @ pad2 @ v @ 0 # r"
  have sk: "skip_blank (?body @ 0 # r) 0 (Some e) = Some (length lead, ?b1)"
    unfolding body using skip_blank_run [of lead c "[]" e "x @ pad @ 61 # arr @ pad2 @ v @ 0 # r"] ok1 vr e by (auto simp: pair_ok_def)
  have "str_at ?b1 (length lead) = Some ((var @ pad) @ 61 # arr @ pad2 @ v)"
    by (rule str_at_prefix [where r = r]) (use ok1 in \<open>auto simp: pair_ok_def arr_def\<close>)
  from strchr_at_Some [OF this] have eq: "strchr_at ?b1 (length lead) 61 = Some (Some (length lead + length var + length pad))"
    using ok1 by (fastforce simp: pair_ok_def add.assoc)
  let ?b2 = "?z @ var @ replicate (length pad) 0 @ 0 # replicate (length arr) 0 @ replicate (length pad2) 0 @ v @ 0 # r"
  let ?q = "length lead + length var + length pad + 1 + length arr + length pad2"
  have sp: "split_pair ?b1 (length lead) (length lead + length var + length pad) (Some e) = Some (?q, ?b2)"
    using split_pair_body [OF ok1, of ?z arrow e r] e by (simp add: arr_def)
  have "pair_line cfg = Some (Found_pair, cfg\<lparr>cbuf := ?b2\<rparr>, In_buf (length lead), Some (In_buf ?q))"
    using ct(1) sk eq sp by (simp add: pair_line_def)
  moreover have "length ?b2 = length (cbuf cfg)"
    using ct(3) by (simp add: body)
  moreover have "str_at ?b2 (length lead) = Some var"
  proof -
    have "replicate (length pad) 0 @ [0] = 0 # replicate (length pad) (0 :: byte)" by (simp add: replicate_append_same)
    then have "drop (length lead) ?b2 = var @ 0 # replicate (length pad) 0 @ replicate (length arr) 0 @ replicate (length pad2) 0 @ v @ 0 # r"
      by (metis (no_types, lifting) append_Cons append_Nil append_assoc append_eq_conv_conj length_replicate)
    then show ?thesis by (rule str_at_prefix) (use ok1 in \<open>auto simp: pair_ok_def\<close>)
  qed
  moreover have "str_at ?b2 ?q = Some v"
    by (rule str_at_prefix [where r = r]) (use ok1 in \<open>auto simp: pair_ok_def\<close>)
  ultimately show ?thesis by blast
qed

lemma config_line_category:
  assumes ok: "config_ok cfg" "item_ok (Category_item n)" and b: "cbuf cfg = 91 # n @ 93 # 10 # 0 # junk"
  shows "\<exists>p cfg'. config_line cfg ret val = Some (Again, ret, p, val, cfg') \<and> config_ok cfg' \<and> c_str (category cfg') = Some n"
proof -
  let ?b = "91 # n @ 0 # 10 # 0 # junk"
  have n: "0 \<notin> set n" "93 \<notin> set n" "take 1 n \<noteq> [43]" "length n \<le> 255" using ok(2) by simp_all
  have "str_at (cbuf cfg) 0 = Some ((91 # n) @ 93 # takeWhile (\<lambda>c. c \<noteq> 0) (10 # 0 # junk))"
    unfolding b by (rule str_at_prefix [where r = junk]) (use n in auto)
  from strchr_at_Some [OF this] have close: "strchr_at (cbuf cfg) 0 93 = Some (Some (length n + 1))" using n(2) by simp
  have wr: "mem_wr (cbuf cfg) (length n + 1) 0 = Some ?b" using mem_wr_mid [of "91 # n" 93 "10 # 0 # junk" 0] b by simp
  have rd: "mem_rd ?b 1 = Some (?b ! 1)" "?b ! 1 \<noteq> 43" using n(3) by (cases n; simp add: mem_rd_def)+
  have "c_str (drop 1 ?b) = Some n" using c_str_append [OF n(1)] by simp
  from ks_copy_string_copies [OF this, of 256 "category cfg"] n(4) ok(1) obtain k m where
    "ks_copy_string (Some (category cfg)) (Some (drop 1 ?b)) 256 = Some (Some (k, m))" "c_str m = Some n" "length m = 256"
    by (auto simp: config_ok_def)
  then have "bracket_line cfg (length n + 1) = Some (Again, cfg\<lparr>cbuf := ?b, category := m, catno := catno cfg + 1\<rparr>, In_buf 1)"
    using wr rd by (simp add: bracket_line_def)
  moreover have "mem_rd (cbuf cfg) 0 = Some 91" by (simp add: b mem_rd_def)
  ultimately show ?thesis using close ok(1) \<open>c_str m = Some n\<close> \<open>length m = 256\<close> b
    by (auto simp: config_line_def config_ok_def)
qed

lemma config_line_note:
  assumes "item_ok (Note_item t)" "cbuf cfg = t @ 10 # 0 # junk"
  shows "config_line cfg ret val = Some (Again, ret, In_buf 0, val, cfg)"
proof -
  have "mem_rd (cbuf cfg) 0 = Some (hd (t @ [10]))" using assms(2) by (cases t) (auto simp: mem_rd_def)
  moreover have "hd (t @ [10]) \<in> {35, 59, 13, 10}" using assms(1) by (cases t) auto
  ultimately show ?thesis by (auto simp: config_line_def)
qed

lemma config_line_pair:
  assumes ok: "config_ok cfg" "item_ok (Pair_item lead var pad arrow pad2 v tail)" "10 \<notin> set tail"
    and b: "cbuf cfg = (pair_body lead var pad arrow pad2 v @ tail) @ 10 # 0 # junk"
  shows "\<exists>p q cfg'. config_line cfg ret val = Some (Found_pair, 1, In_buf p, Some (In_buf q), cfg') \<and> config_ok cfg' \<and>
    category cfg' = category cfg \<and> str_at (cbuf cfg') p = Some var \<and> str_at (cbuf cfg') q = Some v"
proof -
  let ?body = "pair_body lead var pad arrow pad2 v"
  have ok1: "pair_ok lead var pad pad2 v" and tl: "tail_ok tail" and em: "take 7 ?body \<noteq> END_MARK" using ok(2) by simp_all
  obtain bf p q where pl: "pair_line cfg = Some (Found_pair, cfg\<lparr>cbuf := bf\<rparr>, In_buf p, Some (In_buf q))" "length bf = length (cbuf cfg)"
      "str_at bf p = Some var" "str_at bf q = Some v"
    using pair_line_pair [OF ok(2,3), of cfg junk] b by auto
  let ?c = "hd (lead @ var)"
  have ne: "lead @ var \<noteq> []" using ok1 by (simp add: pair_ok_def)
  then have rd: "mem_rd (cbuf cfg) 0 = Some ?c" using b by (auto simp: mem_rd_def pair_body_def nth_append hd_append hd_conv_nth)
  have "?c \<in> set lead \<or> ?c \<in> set var" using ne hd_in_set [OF ne] by auto
  then have cs: "?c \<noteq> 91" "?c \<noteq> 35" "?c \<noteq> 59" "?c \<noteq> 10" "?c \<noteq> 13" using ok1 by (auto simp: pair_ok_def)
  have st: "str_at (cbuf cfg) 0 = Some (?body @ tail @ [10])"
    by (rule str_at_prefix [where r = junk]) (use b ok1 tl in \<open>auto simp: pair_body_def pair_ok_def tail_ok_def\<close>)
  have "take 7 (?body @ tail @ [10]) \<noteq> END_MARK"
  proof (cases "7 \<le> length ?body")
    case True
    then show ?thesis using em by simp
  next
    case False
    have "61 \<in> set ?body" by (simp add: pair_body_def)
    then have "61 \<in> set (take 7 (?body @ tail @ [10]))" using False by simp
    moreover have "61 \<notin> set END_MARK" by (simp add: END_MARK_def)
    ultimately show ?thesis by metis
  qed
  then show ?thesis using rd cs st pl ok(1) by (auto simp: config_line_def config_ok_def)
qed

section \<open>Whole files\<close>

definition pairs_of :: "(int \<times> config_ptr option \<times> config_ptr option \<times> ks_config) option \<Rightarrow> (mem \<times> mem option \<times> mem option) list option" where
  "pairs_of res =
     (case res of None \<Rightarrow> None
      | Some (r, var, val, c) \<Rightarrow>
          if r = 0 then Some []
          else do { cat \<leftarrow> c_str (category c); x \<leftarrow> config_str c var; y \<leftarrow> config_str c val; ps \<leftarrow> config_pairs c;
                    Some ((cat, x, y) # ps) })"

lemma config_pairs_of: "cfile cfg = Some f \<Longrightarrow> config_pairs cfg = pairs_of (next_loop cfg f 0 None None)"
  by (simp add: config_pairs.simps [of cfg] ks_config_next_pair_def pairs_of_def split: option.splits prod.splits)

lemma next_loop_line:
  fixes cfg t f
  defines "cfg1 \<equiv> cfg\<lparr>lineno := lineno cfg + 1, cbuf := t @ 10 # 0 # drop (length t + 2) (cbuf cfg), cfile := Some f\<rparr>"
  assumes "config_ok cfg" "10 \<notin> set t" "length t \<le> 1022" "config_line cfg1 ret val = Some (k, ret', p, v, cfg')"
  shows "next_loop cfg (t @ 10 # f) ret var val = (if k = Again then next_loop cfg' f ret' (Some p) v else Some (ret', Some p, v, cfg'))"
proof -
  have "fgets_take 1023 (t @ 10 # f) = (t @ [10], f)" using assms by (intro fgets_take_line) auto
  moreover have "mem_cpy (cbuf cfg) 0 (t @ [10, 0]) = Some (t @ 10 # 0 # drop (length t + 2) (cbuf cfg))"
    using assms(2,4) by (simp add: mem_cpy_def config_ok_def)
  ultimately show ?thesis using assms(5) unfolding cfg1_def
    by (subst next_loop.simps) (cases t, simp_all)
qed

lemma filled_ok:
  "config_ok cfg \<Longrightarrow> length t \<le> 1022 \<Longrightarrow>
   config_ok (cfg\<lparr>lineno := n, cbuf := t @ 10 # 0 # drop (length t + 2) (cbuf cfg), cfile := g\<rparr>)"
  by (auto simp: config_ok_def)

lemma fgets_take_prefix:
  "10 \<notin> set x \<Longrightarrow> fgets_take (length x + n) (x @ g) = (case fgets_take n g of (l, r) \<Rightarrow> (x @ l, r))"
  by (induction x) (auto split: prod.splits)

text \<open>The rest of the file: nothing, or the end mark and any text.\<close>

lemma next_loop_rest:
  assumes "config_ok cfg" "f = [] \<or> take 7 f = END_MARK"
  shows "\<exists>v c. next_loop cfg f 0 var None = Some (0, v, None, c)"
proof (cases f)
  case (Cons c s)
  then obtain g where f: "f = END_MARK @ g" using assms(2) by (metis append_take_drop_id list.distinct(1))
  obtain l f' where g: "fgets_take 1023 f = (l, f')" by fastforce
  have l: "\<exists>l'. l = END_MARK @ l'"
  proof -
    have "fgets_take (length END_MARK + 1016) (END_MARK @ g) = (case fgets_take 1016 g of (l, r) \<Rightarrow> (END_MARK @ l, r))"
      by (rule fgets_take_prefix) (simp add: END_MARK_def)
    then have "fgets_take 1023 f = (case fgets_take 1016 g of (l, r) \<Rightarrow> (END_MARK @ l, r))" using f by (simp add: END_MARK_def)
    then show ?thesis using g by (auto split: prod.splits)
  qed
  then obtain l' where l': "l = END_MARK @ l'" by blast
  let ?b = "l @ 0 # drop (length l + 1) (cbuf cfg)"
  let ?cfg = "cfg\<lparr>lineno := lineno cfg + 1, cbuf := ?b, cfile := Some f'\<rparr>"
  note fl = filled_line [OF assms(1) g]
  obtain s' where s': "str_at ?b 0 = Some s'" using str_at_nul [of "length l" ?b 0] by auto
  have "take 7 s' = END_MARK"
    using s' unfolding l' by (auto simp: str_at_def END_MARK_def split: option.splits)
  then have "config_line ?cfg 0 None = Some (Stop, 0, In_buf 0, None, ?cfg)"
    using s' l' by (auto simp: config_line_def mem_rd_def END_MARK_def)
  then show ?thesis using Cons g fl(1) by (simp add: next_loop.simps [of cfg])
qed (simp add: next_loop.simps [of cfg])

lemma pairs_of_text:
  assumes "f = [] \<or> take 7 f = END_MARK"
  shows "config_ok cfg \<Longrightarrow> c_str (category cfg) = Some cat \<Longrightarrow> \<forall>it\<in>set its. config_item_ok it \<Longrightarrow>
    pairs_of (next_loop cfg (config_text its @ f) 0 var None) = Some (config_meaning cat its)"
proof (induction its arbitrary: cfg cat var)
  case Nil
  then show ?case using next_loop_rest [OF Nil.prems(1) assms, of var] by (auto simp: pairs_of_def)
next
  case (Cons it its)
  let ?t = "item_text it" and ?f = "config_text its @ f"
  let ?cfg = "cfg\<lparr>lineno := lineno cfg + 1, cbuf := ?t @ 10 # 0 # drop (length ?t + 2) (cbuf cfg), cfile := Some ?f\<rparr>"
  have it: "item_ok it" "10 \<notin> set ?t" "length ?t \<le> 1022" using Cons.prems(3) by (auto simp: config_item_ok_def)
  note step = next_loop_line [OF Cons.prems(1) it(2,3), of ?f 0 None _ _ _ _ _ var]
  have okc: "config_ok ?cfg" by (rule filled_ok [OF Cons.prems(1) it(3)])
  show ?case
  proof (cases it)
    case (Category_item n)
    then obtain p cfg' where "config_line ?cfg 0 None = Some (Again, 0, p, None, cfg')" "config_ok cfg'" "c_str (category cfg') = Some n"
      using config_line_category [OF okc, of n "drop (length ?t + 2) (cbuf cfg)" 0 None] it(1) by auto
    then show ?thesis using step Cons.IH [of cfg' n "Some p"] Cons.prems(3) Category_item by simp
  next
    case (Note_item t)
    then have "config_line ?cfg 0 None = Some (Again, 0, In_buf 0, None, ?cfg)"
      using it(1) by (intro config_line_note) auto
    then show ?thesis using step Cons.IH [OF okc, of cat "Some (In_buf 0)"] Cons.prems Note_item by simp
  next
    case (Pair_item lead v pad arrow pad2 w tail)
    then obtain p q cfg' where c: "config_line ?cfg 0 None = Some (Found_pair, 1, In_buf p, Some (In_buf q), cfg')" "config_ok cfg'"
        "category cfg' = category cfg" "str_at (cbuf cfg') p = Some v" "str_at (cbuf cfg') q = Some w"
      using config_line_pair [OF okc, of lead v pad arrow pad2 w tail "drop (length ?t + 2) (cbuf cfg)" 0 None] it(1,2) by auto
    then have "cfile cfg' = Some ?f" using config_line_file [OF c(1)] by simp
    then have "config_pairs cfg' = Some (config_meaning cat its)"
      using config_pairs_of Cons.IH [OF c(2), of cat None] c(3) Cons.prems by simp
    then show ?thesis using step c Cons.prems(2) Pair_item by (simp add: pairs_of_def config_str_def)
  qed
qed

section \<open>Opening a file\<close>

lemma config_set_path_ok:
  assumes "config_ok cfg" "length (cpath cfg) = 512" "0 \<notin> set p"
  shows "\<exists>m. config_set_path cfg p = Some (cfg\<lparr>cpath := m\<rparr>) \<and> config_ok (cfg\<lparr>cpath := m\<rparr>)"
  using ks_copy_string_copies [of "p @ [0]" p 512 "cpath cfg"] c_str_append [OF assms(3), of "[]"] assms
  by (auto simp: config_set_path_def config_ok_def)

lemma c_str_zeros [simp]: "0 < n \<Longrightarrow> c_str (replicate n 0) = Some []"
  by (cases n) auto

lemma zero_ok: "config_ok (config_zero\<lparr>lockto := n, cfile := g\<rparr>)"
  by (simp add: config_ok_def config_zero_def)

lemma zero_path: "length (cpath (config_zero\<lparr>lockto := n, cfile := g\<rparr>)) = 512"
  by (simp add: config_zero_def)

lemma open_loop_total:
  "config_ok cfg \<Longrightarrow> cfile cfg = Some f \<Longrightarrow> lines_ok f \<Longrightarrow>
   \<exists>r c. open_loop cfg name = Some (r, c) \<and> (r = 0 \<or> r = 1 \<and> config_ok c \<and> (\<exists>g. cfile c = Some g \<and> lines_ok g))"
proof (induction "length f" arbitrary: cfg f rule: less_induct)
  case less
  obtain r var val c f' where n: "next_loop cfg f 0 None None = Some (r, var, val, c)" and c: "config_ok c" "cfile c = Some f'" "lines_ok f'"
    using next_loop_total [OF less.prems(1,3) refl, of 0 None] by blast
  then have np: "ks_config_next_pair (Some cfg) = Some (r, var, val, Some c)"
    using less.prems(2) by (simp add: ks_config_next_pair_def)
  obtain s where s: "c_str (csection c) = Some s" using c(1) by (auto simp: config_ok_def)
  show ?case
  proof (cases "r = 0 \<or> sectno c \<noteq> - 1 \<and> s = name")
    case True
    then show ?thesis using np s c by (auto simp: open_loop.simps [of cfg] config_ok_def)
  next
    case False
    then have "length f' < length f" using next_loop_shorter [OF n] c(2) by auto
    moreover have "open_loop cfg name = open_loop c name" using np s False by (auto simp: open_loop.simps [of cfg])
    ultimately show ?thesis using less.hyps [of f' c] c by simp
  qed
qed

section \<open>Claims\<close>

text \<open>
  C22: A configuration file is read back as it was written. The file holds lines that are categories,
  empty lines, comments, and pairs \<open>name = value\<close> or \<open>name => value\<close> with any blanks before the
  name and around the separator, ended by a newline, by a carriage return and a newline, or by a
  comment \<open>;;\<close>; it may go on behind an end mark. Opening it by an absolute path succeeds, and calling
  \<open>ks_config_next_pair\<close> until it returns 0 gives every pair in order, with its category.
\<close>

theorem ks_config_file_pairs:
  assumes "fs (47 # p) = Some (config_text its @ rest)" "0 \<notin> set p" "\<forall>it\<in>set its. config_item_ok it"
    "rest = [] \<or> take 7 rest = END_MARK"
  shows "\<exists>cfg. ks_config_open_file fs (47 # p) = Some (1, cfg) \<and> config_pairs cfg = Some (config_meaning [] its)"
proof -
  let ?f = "config_text its @ rest"
  let ?c = "config_zero\<lparr>lockto := - 1, cfile := Some ?f\<rparr>"
  obtain m where m: "config_set_path ?c (47 # p) = Some (?c\<lparr>cpath := m\<rparr>)" "config_ok (?c\<lparr>cpath := m\<rparr>)"
    using config_set_path_ok [OF zero_ok zero_path, of "47 # p"] assms(2) by auto
  have "c_str (category (?c\<lparr>cpath := m\<rparr>)) = Some []" by (simp add: config_zero_def)
  then have "config_pairs (?c\<lparr>cpath := m\<rparr>) = Some (config_meaning [] its)"
    using pairs_of_text [OF assms(4) m(2) _ assms(3)] config_pairs_of by simp
  then show ?thesis using m(1) assms(1) by (simp add: ks_config_open_file_def)
qed

theorem ks_config_file_pairs_witness:
  "\<exists>cfg. ks_config_open_file
      (\<lambda>_. Some ([91, 110, 93, 10, 35, 120, 61, 121, 10, 9, 97, 32, 61, 62, 32, 98, 32, 99, 59, 59, 33, 10] @ END_MARK @ [97, 61, 98])) [47, 99] =
      Some (1, cfg) \<and> config_pairs cfg = Some [([110], Some [97], Some [98, 32, 99])]"
  using ks_config_file_pairs [of "\<lambda>_. Some ([91, 110, 93, 10, 35, 120, 61, 121, 10, 9, 97, 32, 61, 62, 32, 98, 32, 99, 59, 59, 33, 10] @ END_MARK @ [97, 61, 98])"
      "[99]" "[Category_item [110], Note_item [35, 120, 61, 121], Pair_item [9] [97] [32] True [32] [98, 32, 99] [59, 59, 33]]" "END_MARK @ [97, 61, 98]"]
  by (simp add: config_item_ok_def pair_body_def pair_ok_def tail_ok_def END_MARK_def)

text \<open>
  C21: Reading a configuration ends without a fault. For any file system in which no line, and no
  portion of 1023 bytes of a longer line, begins with \<open>=\<close>, opening by any name returns 0 or 1, also
  when the name is searched as a section of the common file; after a 1, the loop that calls
  \<open>ks_config_next_pair\<close> until it returns 0 ends, after at most as many pairs as there were bytes left,
  and every pointer it returns is a string inside the line buffer.
\<close>

theorem ks_config_terminates:
  assumes "\<forall>path f. fs path = Some f \<longrightarrow> lines_ok f" "0 \<notin> set name"
  shows "\<exists>r cfg. ks_config_open_file fs name = Some (r, cfg) \<and>
    (r = 0 \<or> r = 1 \<and> (\<exists>f ps. cfile cfg = Some f \<and> config_pairs cfg = Some ps \<and> length ps \<le> length f))"
proof -
  have fin: "\<exists>f ps. cfile cfg = Some f \<and> config_pairs cfg = Some ps \<and> length ps \<le> length f"
    if "config_ok cfg" "cfile cfg = Some g" "lines_ok g" for cfg g using config_pairs_total [OF that] that(2) by auto
  have set_path: "\<exists>m. config_set_path (config_zero\<lparr>lockto := - 1, cfile := Some f\<rparr>) p = Some (config_zero\<lparr>lockto := - 1, cfile := Some f, cpath := m\<rparr>) \<and>
      config_ok (config_zero\<lparr>lockto := - 1, cfile := Some f, cpath := m\<rparr>)" if "0 \<notin> set p" for p f
    using config_set_path_ok [OF zero_ok zero_path that] by auto
  define rooted where "rooted = (name \<noteq> [] \<and> name ! 0 = 47)"
  define path where "path = (if rooted then name else take 1023 (CONFIG_DIR @ name))"
  have path0: "0 \<notin> set path" using assms(2) in_set_takeD [of 0 1023 "CONFIG_DIR @ name"] by (auto simp: path_def CONFIG_DIR_def)
  show ?thesis
  proof (cases "fs path")
    case (Some f)
    obtain m where "config_set_path (config_zero\<lparr>lockto := - 1, cfile := Some f\<rparr>) path = Some (config_zero\<lparr>lockto := - 1, cfile := Some f, cpath := m\<rparr>)"
      "config_ok (config_zero\<lparr>lockto := - 1, cfile := Some f, cpath := m\<rparr>)" using set_path [OF path0] by blast
    then show ?thesis using Some assms(1) fin [of _ f] by (auto simp: ks_config_open_file_def Let_def path_def rooted_def)
  next
    case None
    show ?thesis
    proof (cases "rooted \<or> fs (CONFIG_DIR @ COMMON_FILE) = None")
      case True
      then show ?thesis using None by (auto simp: ks_config_open_file_def Let_def path_def rooted_def)
    next
      case False
      then obtain f where f: "fs (CONFIG_DIR @ COMMON_FILE) = Some f" by auto
      obtain m where m: "config_set_path (config_zero\<lparr>lockto := - 1, cfile := Some f\<rparr>) (CONFIG_DIR @ COMMON_FILE) =
          Some (config_zero\<lparr>lockto := - 1, cfile := Some f, cpath := m\<rparr>)" "config_ok (config_zero\<lparr>lockto := - 1, cfile := Some f, cpath := m\<rparr>)"
        using set_path [of "CONFIG_DIR @ COMMON_FILE" f] by (auto simp: CONFIG_DIR_def COMMON_FILE_def)
      obtain r c where rc: "open_loop (config_zero\<lparr>lockto := - 1, cfile := Some f, cpath := m\<rparr>) name = Some (r, c)"
          "r = 0 \<or> r = 1 \<and> config_ok c \<and> (\<exists>g. cfile c = Some g \<and> lines_ok g)"
        using open_loop_total [OF m(2), of f name] assms(1) f by auto
      then have "ks_config_open_file fs name = Some (r, c)"
        using None False f m(1) by (auto simp: ks_config_open_file_def Let_def path_def rooted_def)
      then show ?thesis using rc(2) fin [of c] by auto
    qed
  qed
qed

theorem ks_config_terminates_witness:
  "\<exists>r cfg. ks_config_open_file (\<lambda>path. if path = CONFIG_DIR @ COMMON_FILE then Some [91, 43, 97, 93, 10, 98, 61, 99, 10] else None) [97] = Some (r, cfg) \<and>
    (r = 0 \<or> r = 1 \<and> (\<exists>f ps. cfile cfg = Some f \<and> config_pairs cfg = Some ps \<and> length ps \<le> length f))"
proof (rule ks_config_terminates)
  have "lines_ok [91, 43, 97, 93, 10, 98, 61, 99, 10]" by code_simp
  then show "\<forall>path f. (if path = CONFIG_DIR @ COMMON_FILE then Some [91, 43, 97, 93, 10, 98, 61, 99, 10] else None) = Some f \<longrightarrow> lines_ok f"
    by auto
qed simp

text \<open>What the condition on the lines excludes: the reader looks at the byte before its buffer.\<close>

lemma ks_config_next_pair_before_buffer:
  "ks_config_next_pair (Some (config_zero\<lparr>cfile := Some [61, 120, 10]\<rparr>)) = None"
  by code_simp

text \<open>
  Behind a line without a separator the end mark does not end the file: the call returns \<open>-1\<close> with
  no value, and the next one goes on behind the mark.
\<close>

lemma ks_config_end_mark_after_bad_line:
  "config_pairs (config_zero\<lparr>cfile := Some ([120, 10] @ END_MARK @ [10, 97, 61, 98, 10])\<rparr>) =
   Some [([], Some (END_MARK @ [10]), None), ([], Some [97], Some [98])]"
  by code_simp

section \<open>CAS bits\<close>

lemma cas_loop_bits:
  "\<forall>b3 b2 b1 b0. cas_loop (map (\<lambda>b. if b then 49 else 48) [b3, b2, b1, b0]) 8 0 =
    (0, (if b3 then 8 else 0) OR (if b2 then 4 else 0) OR (if b1 then 2 else 0) OR (if b0 then 1 else 0))"
  by code_simp

lemma ks_config_cas_bits:
  assumes "58 \<notin> set pre"
  shows "ks_config_get_cas_bits (pre @ 58 # map (\<lambda>b. if b then 49 else 48) [b3, b2, b1, b0] @ rest) out =
    (0, (if b3 then 8 else 0) OR (if b2 then 4 else 0) OR (if b1 then 2 else 0) OR (if b0 then 1 else 0))"
proof -
  let ?m = "map (\<lambda>b. if b then 49 else 48 :: byte) [b3, b2, b1, b0]"
  have "dropWhile (\<lambda>c. c \<noteq> 58) (pre @ 58 # x) = 58 # x" for x using assms by (auto simp: dropWhile_append)
  then have "ks_config_get_cas_bits (pre @ 58 # ?m @ rest) out = cas_loop ?m 8 0"
    by (simp add: ks_config_get_cas_bits_def Let_def del: cas_loop.simps)
  then show ?thesis using cas_loop_bits by simp
qed

end
