(* ===== verification/Ks_Net.thy ===== *)
theory Ks_Net
  imports Ks_Prelude
begin

text \<open>
  Network order: the bytes a 16-bit or 32-bit field occupies after \<open>htons\<close> and \<open>htonl\<close>, the same on
  any machine.
\<close>

definition htons :: "u16 \<Rightarrow> mem" where
  "htons w = [ucast (drop_bit 8 w), ucast w]"

definition htonl :: "u32 \<Rightarrow> mem" where
  "htonl w = [ucast (drop_bit 24 w), ucast (drop_bit 16 w), ucast (drop_bit 8 w), ucast w]"

fun ntohs :: "mem \<Rightarrow> u16" where
  "ntohs [hi, lo] = push_bit 8 (ucast hi) OR ucast lo"
| "ntohs _ = 0"

lemma length_htons [simp]: "length (htons w) = 2"
  by (simp add: htons_def)

lemma ntohs_htons [simp]: "ntohs (htons w) = w"
proof -
  have "bit (push_bit 8 (ucast (ucast (drop_bit 8 w) :: byte)) OR ucast (ucast w :: byte) :: u16) n = bit w n" if "n < 16" for n
    using that by (auto simp: bit_or_iff bit_push_bit_iff bit_ucast_iff bit_drop_bit_eq)
  then show ?thesis by (simp add: htons_def) (rule bit_word_eqI, simp)
qed

lemma htons_inj [simp]: "htons v = htons w \<longleftrightarrow> v = w"
  by (metis ntohs_htons)

end
