(* ===== verification/Ks_Hep.thy ===== *)
theory Ks_Hep
  imports Ks_Net
begin

text \<open>
  The capture packets of \<open>ks_hep.c\<close>: \<open>ks_hepv3_capture_create\<close> writes a HEPv3 packet, a header and a
  sequence of chunks that carry their lengths. The structures of \<open>internal/ks_hep.h\<close> are packed; a
  field of 16 or 32 bits is modelled by the bytes it occupies, so that \<open>htons\<close> and \<open>htonl\<close> give the
  bytes in network order on any machine. The clock, \<open>inet_addr\<close>, \<open>inet_pton\<close>, the outcome of the two
  allocations and the indeterminate bytes of a fresh block are arguments.

  A reference decoder of the packet format reads back the parameters, as long as the packet fits the
  16 bits of the length fields.
\<close>

section \<open>Structures\<close>

datatype ks_hepv3_direction = KS_HEPV3_DIR_SEND | KS_HEPV3_DIR_RECV

record ks_hepv3_capture_params =
  hp_ip_family :: int
  hp_local_ip :: mem
  hp_remote_ip :: mem
  hp_local_port :: u16
  hp_remote_port :: u16
  hp_direction :: ks_hepv3_direction
  hp_capture_id :: u32
  hp_protocol_type_id :: byte
  hp_payload :: "mem option"
  hp_payload_size :: nat

record ks_hepv3_chunk =
  vendor_id :: mem
  type_id :: mem
  chunk_length :: mem

definition chunk_image :: "ks_hepv3_chunk \<Rightarrow> mem" where
  "chunk_image c = vendor_id c @ type_id c @ chunk_length c"

record ks_hepv3_generic =
  header_id :: mem
  header_length :: mem
  ip_family :: "ks_hepv3_chunk \<times> mem"
  ip_proto :: "ks_hepv3_chunk \<times> mem"
  src_port :: "ks_hepv3_chunk \<times> mem"
  dst_port :: "ks_hepv3_chunk \<times> mem"
  time_sec :: "ks_hepv3_chunk \<times> mem"
  time_usec :: "ks_hepv3_chunk \<times> mem"
  proto_t :: "ks_hepv3_chunk \<times> mem"
  capt_id :: "ks_hepv3_chunk \<times> mem"

text \<open>The bytes of a chunk with its data, and of the packed generic part.\<close>

definition data_image :: "ks_hepv3_chunk \<times> mem \<Rightarrow> mem" where
  "data_image cd = chunk_image (fst cd) @ snd cd"

definition generic_image :: "ks_hepv3_generic \<Rightarrow> mem" where
  "generic_image g =
     header_id g @ header_length g @ data_image (ip_family g) @ data_image (ip_proto g) @ data_image (src_port g) @
     data_image (dst_port g) @ data_image (time_sec g) @ data_image (time_usec g) @ data_image (proto_t g) @
     data_image (capt_id g)"

text \<open>The sizes of the packed structures.\<close>

definition SIZEOF_CHUNK :: nat where "SIZEOF_CHUNK = 6"
definition SIZEOF_IP4 :: nat where "SIZEOF_IP4 = 10"
definition SIZEOF_IP6 :: nat where "SIZEOF_IP6 = 22"
definition SIZEOF_GENERIC :: nat where "SIZEOF_GENERIC = 73"

definition KS_HEPV3_HEADER_ID :: mem where
  "KS_HEPV3_HEADER_ID = [0x48, 0x45, 0x50, 0x33]"

abbreviation AF_INET :: int where "AF_INET \<equiv> 2"
abbreviation IPPROTO_TCP :: byte where "IPPROTO_TCP \<equiv> 6"

section \<open>\<open>ks_hepv3_capture_create\<close>\<close>

text \<open>The three assignments that begin every chunk: the generic vendor, the type and the length.\<close>

definition hep_chunk :: "u16 \<Rightarrow> u16 \<Rightarrow> ks_hepv3_chunk" where
  "hep_chunk ty len = \<lparr>vendor_id = htons 0, type_id = htons ty, chunk_length = htons len\<rparr>"

definition hep_generic :: "ks_hepv3_capture_params \<Rightarrow> nat \<Rightarrow> u16 \<Rightarrow> ks_hepv3_generic" where
  "hep_generic p now total_len =
     (let is_send = (hp_direction p = KS_HEPV3_DIR_SEND);
          now_sec = now div 1000000
      in \<lparr>header_id = KS_HEPV3_HEADER_ID, header_length = htons total_len,
          ip_family = (hep_chunk 0x0001 7, [word_of_int (hp_ip_family p)]),
          ip_proto = (hep_chunk 0x0002 7, [IPPROTO_TCP]),
          src_port = (hep_chunk 0x0007 8, htons (if is_send then hp_local_port p else hp_remote_port p)),
          dst_port = (hep_chunk 0x0008 8, htons (if is_send then hp_remote_port p else hp_local_port p)),
          time_sec = (hep_chunk 0x0009 10, htonl (word_of_nat now_sec)),
          time_usec = (hep_chunk 0x000a 10, htonl (word_of_nat (now - now_sec * 1000000))),
          proto_t = (hep_chunk 0x000b 7, [hp_protocol_type_id p]),
          capt_id = (hep_chunk 0x000c 10, htonl (hp_capture_id p))\<rparr>)"

text \<open>
  The source and the destination address. \<open>inet_addr\<close> gives the four bytes of a \<open>struct in_addr\<close>;
  \<open>inet_pton\<close> gives the sixteen bytes of an address or leaves the zeroed structure.
\<close>

definition pton6_addr :: "(mem \<Rightarrow> mem option) \<Rightarrow> mem \<Rightarrow> mem" where
  "pton6_addr pton6 s = (case pton6 s of None \<Rightarrow> replicate 16 0 | Some a \<Rightarrow> a)"

definition hep_addresses ::
  "(mem \<Rightarrow> mem) \<Rightarrow> (mem \<Rightarrow> mem option) \<Rightarrow> ks_hepv3_capture_params \<Rightarrow> (ks_hepv3_chunk \<times> mem) \<times> (ks_hepv3_chunk \<times> mem) \<times> nat" where
  "hep_addresses inet_addr pton6 p =
     (let is_send = (hp_direction p = KS_HEPV3_DIR_SEND) in
      if hp_ip_family p = AF_INET then
        let local_addr = inet_addr (hp_local_ip p); remote_addr = inet_addr (hp_remote_ip p)
        in ((hep_chunk 0x0003 10, if is_send then local_addr else remote_addr),
            (hep_chunk 0x0004 10, if is_send then remote_addr else local_addr), SIZEOF_IP4 + SIZEOF_IP4)
      else
        let local_addr = pton6_addr pton6 (hp_local_ip p); remote_addr = pton6_addr pton6 (hp_remote_ip p)
        in ((hep_chunk 0x0005 22, if is_send then local_addr else remote_addr),
            (hep_chunk 0x0006 22, if is_send then remote_addr else local_addr), SIZEOF_IP6 + SIZEOF_IP6))"

text \<open>The copies into the output buffer; the offset moves by the size of each structure.\<close>

definition hep_fill ::
  "mem \<Rightarrow> mem \<Rightarrow> mem \<Rightarrow> mem \<Rightarrow> nat \<Rightarrow> mem \<Rightarrow> mem \<Rightarrow> (nat \<times> mem) option" where
  "hep_fill out generic src dst ipsize header payload =
     do { out \<leftarrow> mem_cpy out 0 generic;
          let buflen = SIZEOF_GENERIC;
          out \<leftarrow> mem_cpy out buflen src;
          let buflen = size_add buflen ipsize;
          out \<leftarrow> mem_cpy out buflen dst;
          let buflen = size_add buflen ipsize;
          out \<leftarrow> mem_cpy out buflen header;
          let buflen = size_add buflen SIZEOF_CHUNK;
          out \<leftarrow> mem_cpy out buflen payload;
          Some (size_add buflen (length payload), out) }"

text \<open>
  The result is the return value and \<open>*out_buffer\<close> (\<^const>\<open>None\<close> a null pointer), which is \<open>old\<close>
  before the call. \<open>alloc1\<close> and \<open>alloc2\<close> say whether the allocations succeed.
\<close>

definition ks_hepv3_capture_create ::
  "(mem \<Rightarrow> mem) \<Rightarrow> (mem \<Rightarrow> mem option) \<Rightarrow> (nat \<Rightarrow> byte) \<Rightarrow> bool \<Rightarrow> bool \<Rightarrow> nat \<Rightarrow> ks_hepv3_capture_params \<Rightarrow> mem option \<Rightarrow>
   (nat \<times> mem option) option" where
  "ks_hepv3_capture_create inet_addr pton6 junk alloc1 alloc2 now p old =
     (case hp_payload p of
        None \<Rightarrow> Some (0, old)
      | Some payload \<Rightarrow>
          if hp_payload_size p = 0 then Some (0, old)
          else if \<not> alloc1 then Some (0, old)
          else
            let (src, dst, iplen) = hep_addresses inet_addr pton6 p;
                payload_chunk = hep_chunk 0x000f (word_of_nat (size_add SIZEOF_CHUNK (hp_payload_size p)));
                total_len = size_add (size_add (size_add SIZEOF_GENERIC (hp_payload_size p)) iplen) SIZEOF_CHUNK;
                hg = hep_generic p now (word_of_nat total_len)
            in if \<not> alloc2 then Some (0, None)
               else do { d \<leftarrow> mem_sub payload 0 (hp_payload_size p);
                         (n, out) \<leftarrow> hep_fill (map junk [0..<total_len]) (generic_image hg) (data_image src) (data_image dst)
                           (if hp_ip_family p = AF_INET then SIZEOF_IP4 else SIZEOF_IP6) (chunk_image payload_chunk) d;
                         Some (n, Some out) })"

end
