(* ===== verification/Ks_Hep_Props.thy ===== *)
theory Ks_Hep_Props
  imports Ks_Hep
begin

text \<open>
  Correctness of the capture packets: numbers in network order, the chunks as a reference decoder
  reads them, the copies into the output buffer, and the claim on the whole packet.
\<close>

section \<open>A reference decoder\<close>

text \<open>Numbers in network order.\<close>

fun be :: "nat \<Rightarrow> nat \<Rightarrow> mem" where
  "be 0 v = []"
| "be (Suc n) v = be n (v div 256) @ [word_of_nat (v mod 256)]"

definition be_nat :: "mem \<Rightarrow> nat" where
  "be_nat bs = foldl (\<lambda>v b. v * 256 + unat b) 0 bs"

function hep_chunks :: "mem \<Rightarrow> (nat \<times> nat \<times> mem) list option" where
  "hep_chunks b =
     (if b = [] then Some []
      else let n = be_nat (take 2 (drop 4 b)) in
        if n < 6 \<or> length b < n then None
        else map_option ((#) (be_nat (take 2 b), be_nat (take 2 (drop 2 b)), take (n - 6) (drop 6 b))) (hep_chunks (drop n b)))"
  by pat_completeness auto
termination by (relation "measure length") auto

declare hep_chunks.simps [simp del]

definition hep_decode :: "mem \<Rightarrow> (nat \<times> nat \<times> mem) list option" where
  "hep_decode b =
     (if take 4 b \<noteq> KS_HEPV3_HEADER_ID \<or> be_nat (take 2 (drop 4 b)) \<noteq> length b then None else hep_chunks (drop 6 b))"

text \<open>What a packet says: the chunks of the parameters, with vendor, type and data.\<close>

definition ends :: "ks_hepv3_capture_params \<Rightarrow> 'a \<Rightarrow> 'a \<Rightarrow> 'a \<times> 'a" where
  "ends p local remote = (if hp_direction p = KS_HEPV3_DIR_SEND then (local, remote) else (remote, local))"

definition hep_addrs :: "(mem \<Rightarrow> mem) \<Rightarrow> (mem \<Rightarrow> mem option) \<Rightarrow> ks_hepv3_capture_params \<Rightarrow> mem \<times> mem" where
  "hep_addrs inet_addr pton6 p =
     (let f = (if hp_ip_family p = AF_INET then inet_addr else pton6_addr pton6) in ends p (f (hp_local_ip p)) (f (hp_remote_ip p)))"

definition hep_meaning ::
  "(mem \<Rightarrow> mem) \<Rightarrow> (mem \<Rightarrow> mem option) \<Rightarrow> nat \<Rightarrow> ks_hepv3_capture_params \<Rightarrow> mem \<Rightarrow> (nat \<times> nat \<times> mem) list" where
  "hep_meaning inet_addr pton6 now p payload =
     (let (sp, dp) = ends p (hp_local_port p) (hp_remote_port p);
          (sa, da) = hep_addrs inet_addr pton6 p;
          v4 = (hp_ip_family p = AF_INET)
      in [(0, 1, be 1 (nat (hp_ip_family p))), (0, 2, be 1 6), (0, 7, be 2 (unat sp)), (0, 8, be 2 (unat dp)),
          (0, 9, be 4 (now div 1000000)), (0, 10, be 4 (now mod 1000000)), (0, 11, [hp_protocol_type_id p]),
          (0, 12, be 4 (unat (hp_capture_id p))),
          (0, if v4 then 3 else 5, sa), (0, if v4 then 4 else 6, da), (0, 15, payload)])"

section \<open>Network order\<close>

lemma byte_of_mod [simp]: "word_of_nat (n mod 256) = (word_of_nat n :: byte)"
proof -
  have "unat (word_of_nat (n mod 256) :: byte) = unat (word_of_nat n :: byte)" by (simp add: unat_of_nat)
  then show ?thesis by (simp only: unsigned_word_eqI)
qed

lemma byte_of_shift: "ucast (drop_bit k w) = (word_of_nat (unat w div 2 ^ k) :: byte)" for w :: "'a::len word"
proof -
  have "ucast (drop_bit k w) = (word_of_nat (unat (drop_bit k w)) :: byte)" by simp
  then show ?thesis using drop_bit_eq_div [of k "unat w"] by (simp only: unat_drop_bit_eq)
qed

lemma be2: "be 2 v = [word_of_nat (v div 256), word_of_nat v]"
proof -
  have "be (Suc (Suc 0)) v = [word_of_nat (v div 256), word_of_nat v]" by simp
  then show ?thesis by (simp only: numeral_2_eq_2)
qed

lemma htons_be: "htons w = be 2 (unat w)"
  using byte_of_shift [of 8 w] byte_of_shift [of 0 w] by (simp add: htons_def be2)

lemma be4: "be 4 v = [word_of_nat (v div 2 ^ 24), word_of_nat (v div 2 ^ 16), word_of_nat (v div 2 ^ 8), word_of_nat v]"
proof -
  have "be (Suc (Suc (Suc (Suc 0)))) v = [word_of_nat (v div 2 ^ 24), word_of_nat (v div 2 ^ 16), word_of_nat (v div 2 ^ 8), word_of_nat v]"
    by (simp add: div_mult2_eq [symmetric])
  moreover have "Suc (Suc (Suc (Suc 0))) = 4" by simp
  ultimately show ?thesis by metis
qed

lemma htonl_be: "htonl w = be 4 (unat w)"
  using byte_of_shift [of 24 w] byte_of_shift [of 16 w] byte_of_shift [of 8 w] byte_of_shift [of 0 w]
  by (simp add: htonl_def be4)

lemma length_be [simp]: "length (be n v) = n"
  by (induction n arbitrary: v) auto

lemma be_nat_be: "v < 256 ^ n \<Longrightarrow> be_nat (be n v) = v"
proof (induction n arbitrary: v)
  case (Suc n)
  then have "v div 256 < 256 ^ n" by (simp add: less_mult_imp_div_less mult.commute)
  then show ?case using Suc.IH [of "v div 256"] by (simp add: be_nat_def unat_of_nat del: byte_of_mod)
qed (simp add: be_nat_def)

lemma be_mod: "be n (v mod 256 ^ n) = be n v"
proof (induction n arbitrary: v)
  case (Suc n)
  have "v mod 256 ^ Suc n div 256 = v div 256 mod 256 ^ n" by (simp add: mod_mult2_eq)
  moreover have "(word_of_nat (v mod 256 ^ Suc n) :: byte) = word_of_nat v"
    using byte_of_mod [of "v mod 256 ^ Suc n"] byte_of_mod [of v] by (simp add: mod_mult2_eq)
  ultimately show ?case using Suc.IH [of "v div 256"] by simp
qed simp

section \<open>Chunks\<close>

lemma be_nat_2: "be_nat (be 2 (unat w)) = unat w" for w :: u16
  using unsigned_less [of w, where ?'a = nat] by (intro be_nat_be) simp

lemma data_image_be: "data_image (hep_chunk ty len, d) = be 2 0 @ be 2 (unat ty) @ be 2 (unat len) @ d"
  using htons_be [of 0] by (simp add: data_image_def chunk_image_def hep_chunk_def htons_be)

lemma length_data_image: "length (data_image (hep_chunk ty len, d)) = 6 + length d"
  by (simp add: data_image_be)

lemma hep_chunks_chunk:
  assumes "unat len = 6 + length d"
  shows "hep_chunks (data_image (hep_chunk ty len, d) @ rest) = map_option ((#) (0, unat ty, d)) (hep_chunks rest)"
proof -
  define b where "b = data_image (hep_chunk ty len, d) @ rest"
  have b: "b = be 2 0 @ be 2 (unat ty) @ be 2 (unat len) @ d @ rest" by (simp add: b_def data_image_be)
  have "be_nat (be 2 0) = 0" by (rule be_nat_be) simp
  then have "be_nat (take 2 b) = 0" "be_nat (take 2 (drop 2 b)) = unat ty" "be_nat (take 2 (drop 4 b)) = 6 + length d"
    using assms be_nat_2 [of ty] be_nat_2 [of len] by (simp_all add: b)
  moreover have "drop 6 b = d @ rest" "drop (6 + length d) b = rest" "length b = 6 + length d + length rest" by (simp_all add: b)
  moreover from this have "b \<noteq> []" by auto
  ultimately have "hep_chunks b = map_option ((#) (0, unat ty, d)) (hep_chunks rest)" by (simp add: hep_chunks.simps [of b])
  then show ?thesis by (simp add: b_def)
qed

section \<open>Filling the buffer\<close>

lemma mem_cpy_next:
  "n = length pre \<Longrightarrow> length xs \<le> length r \<Longrightarrow> mem_cpy (pre @ r) n xs = Some ((pre @ xs) @ drop (length xs) r)"
  by (simp add: mem_cpy_def)

lemma hep_fill_ok:
  assumes "length out = SIZEOF_GENERIC + ip + ip + SIZEOF_CHUNK + length payload" "length out < SIZE_MOD"
    and "length generic = SIZEOF_GENERIC" "length src = ip" "length dst = ip" "length hd_c = SIZEOF_CHUNK"
  shows "hep_fill out generic src dst ip hd_c payload = Some (length out, generic @ src @ dst @ hd_c @ payload)"
proof -
  let ?o = "\<lambda>n. drop n out"
  have 1: "mem_cpy out 0 generic = Some (generic @ ?o SIZEOF_GENERIC)"
    using mem_cpy_next [of 0 "[]" generic out] assms by simp
  have 2: "mem_cpy (generic @ ?o SIZEOF_GENERIC) SIZEOF_GENERIC src = Some ((generic @ src) @ ?o (SIZEOF_GENERIC + ip))"
    using assms by (subst mem_cpy_next) (auto simp: add.commute)
  have 3: "mem_cpy ((generic @ src) @ ?o (SIZEOF_GENERIC + ip)) (SIZEOF_GENERIC + ip) dst =
      Some ((generic @ src @ dst) @ ?o (SIZEOF_GENERIC + ip + ip))"
    using assms by (subst mem_cpy_next) (auto simp: ac_simps)
  have 4: "mem_cpy ((generic @ src @ dst) @ ?o (SIZEOF_GENERIC + ip + ip)) (SIZEOF_GENERIC + ip + ip) hd_c =
      Some ((generic @ src @ dst @ hd_c) @ ?o (SIZEOF_GENERIC + ip + ip + SIZEOF_CHUNK))"
    using assms by (subst mem_cpy_next) (auto simp: ac_simps)
  have 5: "mem_cpy ((generic @ src @ dst @ hd_c) @ ?o (SIZEOF_GENERIC + ip + ip + SIZEOF_CHUNK)) (SIZEOF_GENERIC + ip + ip + SIZEOF_CHUNK) payload =
      Some (generic @ src @ dst @ hd_c @ payload)"
    using assms by (subst mem_cpy_next) (auto simp: ac_simps)
  have s: "size_add SIZEOF_GENERIC ip = SIZEOF_GENERIC + ip" "size_add (SIZEOF_GENERIC + ip) ip = SIZEOF_GENERIC + ip + ip"
    "size_add (SIZEOF_GENERIC + ip + ip) SIZEOF_CHUNK = SIZEOF_GENERIC + ip + ip + SIZEOF_CHUNK"
    "size_add (SIZEOF_GENERIC + ip + ip + SIZEOF_CHUNK) (length payload) = length out"
    using assms(1,2) by (simp_all add: size_simps)
  show ?thesis unfolding hep_fill_def Let_def 1 2 3 4 5 s bind.bind_lunit ..
qed

lemma length_generic_image: "length (generic_image (hep_generic p now t)) = SIZEOF_GENERIC"
  by (simp add: generic_image_def hep_generic_def Let_def length_data_image htons_be htonl_be KS_HEPV3_HEADER_ID_def SIZEOF_GENERIC_def)

section \<open>The packet\<close>

text \<open>The two functions of the system library fill their structures.\<close>

definition addr_fns :: "(mem \<Rightarrow> mem) \<Rightarrow> (mem \<Rightarrow> mem option) \<Rightarrow> bool" where
  "addr_fns inet_addr pton6 = ((\<forall>s. length (inet_addr s) = 4) \<and> (\<forall>s a. pton6 s = Some a \<longrightarrow> length a = 16))"

definition hep_size :: "ks_hepv3_capture_params \<Rightarrow> nat" where
  "hep_size p = SIZEOF_GENERIC + 2 * (if hp_ip_family p = AF_INET then SIZEOF_IP4 else SIZEOF_IP6) + SIZEOF_CHUNK + hp_payload_size p"

lemma capture_bytes:
  assumes fns: "addr_fns inet_addr pton6" and p: "hp_payload p = Some d" "0 < hp_payload_size p" "hp_payload_size p \<le> length d"
    and sz: "hep_size p < SIZE_MOD"
  shows "\<exists>src dst. hep_addresses inet_addr pton6 p = (src, dst, 2 * (if hp_ip_family p = AF_INET then SIZEOF_IP4 else SIZEOF_IP6)) \<and>
    ks_hepv3_capture_create inet_addr pton6 junk True True now p old =
      Some (hep_size p, Some (generic_image (hep_generic p now (word_of_nat (hep_size p))) @ data_image src @ data_image dst @
        data_image (hep_chunk 0x000f (word_of_nat (SIZEOF_CHUNK + hp_payload_size p)), take (hp_payload_size p) d)))"
proof -
  let ?ip = "if hp_ip_family p = AF_INET then SIZEOF_IP4 else SIZEOF_IP6"
  obtain src dst n where a: "hep_addresses inet_addr pton6 p = (src, dst, n)" by (cases "hep_addresses inet_addr pton6 p") auto
  have l: "length (data_image src) = ?ip" "length (data_image dst) = ?ip" "n = 2 * ?ip"
    using a fns by (auto simp: hep_addresses_def Let_def length_data_image SIZEOF_IP4_def SIZEOF_IP6_def addr_fns_def pton6_addr_def split: if_splits option.splits)
  let ?c = "hep_chunk 0x000f (word_of_nat (SIZEOF_CHUNK + hp_payload_size p))" and ?d = "take (hp_payload_size p) d"
  have tot: "size_add (size_add (size_add SIZEOF_GENERIC (hp_payload_size p)) n) SIZEOF_CHUNK = hep_size p"
    "size_add SIZEOF_CHUNK (hp_payload_size p) = SIZEOF_CHUNK + hp_payload_size p"
    using sz l(3) by (simp_all add: size_simps hep_size_def)
  have "hep_fill (map junk [0..<hep_size p]) (generic_image (hep_generic p now (word_of_nat (hep_size p)))) (data_image src) (data_image dst) ?ip (chunk_image ?c) ?d =
      Some (length (map junk [0..<hep_size p]), generic_image (hep_generic p now (word_of_nat (hep_size p))) @ data_image src @ data_image dst @ chunk_image ?c @ ?d)"
    using l sz p(3) length_data_image [of 15 "word_of_nat (SIZEOF_CHUNK + hp_payload_size p)" "[]"]
    by (intro hep_fill_ok) (auto simp: hep_size_def length_generic_image data_image_def SIZEOF_CHUNK_def)
  then have "ks_hepv3_capture_create inet_addr pton6 junk True True now p old =
      Some (hep_size p, Some (generic_image (hep_generic p now (word_of_nat (hep_size p))) @ data_image src @ data_image dst @ data_image (?c, ?d)))"
    using p a tot by (simp add: ks_hepv3_capture_create_def Let_def mem_sub_def data_image_def)
  then show ?thesis using a l(3) by blast
qed

lemma be_of_word: "be 4 (unat (word_of_nat n :: u32)) = be 4 n"
  using be_mod [of 4 n] by (simp add: unat_of_nat)

lemma be_1: "be 1 n = [word_of_nat n]"
  using be.simps(2) [of 0 n] by simp

lemma generic_chunks:
  "hep_chunks (drop 6 (generic_image (hep_generic p now t)) @ rest) =
   map_option (\<lambda>cs. [(0, 1, [word_of_int (hp_ip_family p)]), (0, 2, [IPPROTO_TCP]),
      (0, 7, be 2 (unat (fst (ends p (hp_local_port p) (hp_remote_port p))))),
      (0, 8, be 2 (unat (snd (ends p (hp_local_port p) (hp_remote_port p))))),
      (0, 9, be 4 (now div 1000000)), (0, 10, be 4 (now mod 1000000)),
      (0, 11, [hp_protocol_type_id p]), (0, 12, be 4 (unat (hp_capture_id p)))] @ cs) (hep_chunks rest)"
proof -
  have split: "drop 6 (generic_image (hep_generic p now t)) @ rest =
      data_image (ip_family (hep_generic p now t)) @ data_image (ip_proto (hep_generic p now t)) @
      data_image (src_port (hep_generic p now t)) @ data_image (dst_port (hep_generic p now t)) @
      data_image (time_sec (hep_generic p now t)) @ data_image (time_usec (hep_generic p now t)) @
      data_image (proto_t (hep_generic p now t)) @ data_image (capt_id (hep_generic p now t)) @ rest"
    by (simp add: generic_image_def hep_generic_def Let_def KS_HEPV3_HEADER_ID_def htons_def)
  have "now - now div 1000000 * 1000000 = now mod 1000000" by (simp add: minus_div_mult_eq_mod)
  then show ?thesis unfolding split
    by (simp add: hep_generic_def Let_def hep_chunks_chunk option.map_comp comp_def ends_def htons_be htonl_be be_of_word)
qed

lemma generic_head:
  "take 4 (generic_image (hep_generic p now t) @ rest) = KS_HEPV3_HEADER_ID"
  "be_nat (take 2 (drop 4 (generic_image (hep_generic p now t) @ rest))) = unat t"
  using be_nat_2 [of t] by (simp_all add: generic_image_def hep_generic_def Let_def KS_HEPV3_HEADER_ID_def htons_be)

lemma addresses_eq:
  assumes "addr_fns inet_addr pton6"
  shows "hep_addresses inet_addr pton6 p =
      (let v4 = hp_ip_family p = AF_INET; l = (if v4 then 10 else 22) in
       ((hep_chunk (if v4 then 3 else 5) l, fst (hep_addrs inet_addr pton6 p)), (hep_chunk (if v4 then 4 else 6) l, snd (hep_addrs inet_addr pton6 p)),
        2 * (if v4 then SIZEOF_IP4 else SIZEOF_IP6)))"
    "length (fst (hep_addrs inet_addr pton6 p)) = (if hp_ip_family p = AF_INET then 4 else 16)"
    "length (snd (hep_addrs inet_addr pton6 p)) = (if hp_ip_family p = AF_INET then 4 else 16)"
  using assms by (auto simp: hep_addresses_def hep_addrs_def ends_def Let_def addr_fns_def pton6_addr_def split: option.splits)

lemma packet_decoded:
  fixes p d
  defines "v4 \<equiv> hp_ip_family p = AF_INET"
  assumes "length d = hp_payload_size p" "length sa = (if v4 then 4 else 16)" "length da = (if v4 then 4 else 16)" "0 \<le> hp_ip_family p"
    and out: "out = generic_image (hep_generic p now (word_of_nat (hep_size p))) @
      data_image (hep_chunk (if v4 then 3 else 5) (if v4 then 10 else 22), sa) @
      data_image (hep_chunk (if v4 then 4 else 6) (if v4 then 10 else 22), da) @
      data_image (hep_chunk 0x000f (word_of_nat (SIZEOF_CHUNK + hp_payload_size p)), d)"
    and sa: "hep_addrs inet_addr pton6 p = (sa, da)"
  shows "length out = hep_size p"
    "hep_decode out = (if hep_size p < 2 ^ 16 then Some (hep_meaning inet_addr pton6 now p d) else None)"
proof -
  show len: "length out = hep_size p"
    using assms(2-4) by (simp add: out v4_def length_generic_image length_data_image hep_size_def SIZEOF_IP4_def SIZEOF_IP6_def SIZEOF_CHUNK_def)
  have t: "unat (word_of_nat n :: u16) = n mod 2 ^ 16" for n by (simp add: unat_of_nat)
  note hd_facts = generic_head [of p now "word_of_nat (hep_size p)"]
  show "hep_decode out = (if hep_size p < 2 ^ 16 then Some (hep_meaning inet_addr pton6 now p d) else None)"
  proof (cases "hep_size p < 2 ^ 16")
    case False
    then have "be_nat (take 2 (drop 4 out)) \<noteq> length out"
    proof -
      have "hep_size p mod 2 ^ 16 < 2 ^ 16" by simp
      then have "hep_size p mod 2 ^ 16 \<noteq> hep_size p" using False by linarith
      then show ?thesis unfolding len unfolding out hd_facts(2) t .
    qed
    then show ?thesis using False by (simp add: hep_decode_def)
  next
    case True
    then have small: "unat (word_of_nat (SIZEOF_CHUNK + hp_payload_size p) :: u16) = 6 + length d"
      unfolding t using assms(2) by (simp add: hep_size_def SIZEOF_CHUNK_def)
    have pl: "hep_chunks (data_image (hep_chunk 0x000f (word_of_nat (SIZEOF_CHUNK + hp_payload_size p)), d)) = Some [(0, 15, d)]"
      using hep_chunks_chunk [OF small, of 15 "[]"] by (simp add: hep_chunks.simps [of "[]"])
    have "be_nat (take 2 (drop 4 out)) = length out" unfolding len unfolding out hd_facts(2) t using True by simp
    moreover have "take 4 out = KS_HEPV3_HEADER_ID" unfolding out by (rule hd_facts(1))
    ultimately have "hep_decode out = hep_chunks (drop 6 out)" by (simp add: hep_decode_def)
    also have "drop 6 out = drop 6 (generic_image (hep_generic p now (word_of_nat (hep_size p)))) @
      data_image (hep_chunk (if v4 then 3 else 5) (if v4 then 10 else 22), sa) @
      data_image (hep_chunk (if v4 then 4 else 6) (if v4 then 10 else 22), da) @
      data_image (hep_chunk 0x000f (word_of_nat (SIZEOF_CHUNK + hp_payload_size p)), d)"
      by (simp add: out length_generic_image SIZEOF_GENERIC_def)
    also have "hep_chunks \<dots> = Some (hep_meaning inet_addr pton6 now p d)"
      using assms(2-5) pl sa
      by (auto simp: generic_chunks hep_chunks_chunk hep_meaning_def Let_def be_1 v4_def split: prod.splits)
    finally show ?thesis using True by simp
  qed
qed

text \<open>
  C23: The packet written for any parameters is the one they mean. For a payload of at least one byte
  and any total size below 2^64, \<open>ks_hepv3_capture_create\<close> stays inside the block it allocates and
  returns its size. When the size fits 16 bits, a decoder of the format reads back the parameters: the
  family, the ports and addresses in the order given by the direction, the time in seconds and
  microseconds, the identifiers and the payload. From 65536 bytes on, the length in the header is
  cut to 16 bits and the decoder rejects the packet.
\<close>

theorem ks_hepv3_capture_decoded:
  assumes "addr_fns inet_addr pton6" "hp_payload p = Some d" "0 < hp_payload_size p" "hp_payload_size p \<le> length d"
    "hep_size p < SIZE_MOD" "0 \<le> hp_ip_family p"
  shows "\<exists>out. ks_hepv3_capture_create inet_addr pton6 junk True True now p old = Some (hep_size p, Some out) \<and>
    length out = hep_size p \<and>
    hep_decode out =
      (if hep_size p < 2 ^ 16 then Some (hep_meaning inet_addr pton6 now p (take (hp_payload_size p) d)) else None)"
proof -
  obtain sa da where a: "hep_addrs inet_addr pton6 p = (sa, da)" by fastforce
  define d' where "d' = take (hp_payload_size p) d"
  have d': "length d' = hp_payload_size p" using assms(4) by (simp add: d'_def)
  note ad = addresses_eq [OF assms(1), of p]
  from capture_bytes [OF assms(1-5), of junk now old] obtain out where
    c: "ks_hepv3_capture_create inet_addr pton6 junk True True now p old = Some (hep_size p, Some out)" and
    out: "out = generic_image (hep_generic p now (word_of_nat (hep_size p))) @
      data_image (hep_chunk (if hp_ip_family p = AF_INET then 3 else 5) (if hp_ip_family p = AF_INET then 10 else 22), sa) @
      data_image (hep_chunk (if hp_ip_family p = AF_INET then 4 else 6) (if hp_ip_family p = AF_INET then 10 else 22), da) @
      data_image (hep_chunk 0x000f (word_of_nat (SIZEOF_CHUNK + hp_payload_size p)), d')"
    using ad(1) a by (auto simp: d'_def Let_def)
  show ?thesis
    using packet_decoded [OF d' _ _ assms(6) out a] ad(2,3) a c by (auto simp: d'_def)
qed

theorem ks_hepv3_capture_decoded_witness:
  "\<exists>out. ks_hepv3_capture_create (\<lambda>_. [127, 0, 0, 1]) (\<lambda>_. None) (\<lambda>_. 0) True True 3000005
      \<lparr>hp_ip_family = 2, hp_local_ip = [], hp_remote_ip = [], hp_local_port = 5060, hp_remote_port = 80,
       hp_direction = KS_HEPV3_DIR_RECV, hp_capture_id = 200, hp_protocol_type_id = 1, hp_payload = Some [65, 66], hp_payload_size = 2\<rparr> None =
      Some (101, Some out) \<and>
    hep_decode out = Some [(0, 1, [2]), (0, 2, [6]), (0, 7, [0, 80]), (0, 8, [19, 196]), (0, 9, [0, 0, 0, 3]), (0, 10, [0, 0, 0, 5]),
      (0, 11, [1]), (0, 12, [0, 0, 0, 200]), (0, 3, [127, 0, 0, 1]), (0, 4, [127, 0, 0, 1]), (0, 15, [65, 66])]"
proof -
  let ?p = "\<lparr>hp_ip_family = 2, hp_local_ip = [], hp_remote_ip = [], hp_local_port = 5060, hp_remote_port = 80,
       hp_direction = KS_HEPV3_DIR_RECV, hp_capture_id = 200, hp_protocol_type_id = 1, hp_payload = Some [65, 66], hp_payload_size = 2\<rparr>"
  have size_p: "hep_size ?p = 101" by (simp add: hep_size_def SIZEOF_GENERIC_def SIZEOF_IP4_def SIZEOF_CHUNK_def)
  have "hep_meaning (\<lambda>_. [127, 0, 0, 1]) (\<lambda>_. None) 3000005 ?p [65, 66] =
     [(0, 1, [2]), (0, 2, [6]), (0, 7, [0, 80]), (0, 8, [19, 196]), (0, 9, [0, 0, 0, 3]), (0, 10, [0, 0, 0, 5]),
      (0, 11, [1]), (0, 12, [0, 0, 0, 200]), (0, 3, [127, 0, 0, 1]), (0, 4, [127, 0, 0, 1]), (0, 15, [65, 66])]"
    by (simp add: hep_meaning_def hep_addrs_def ends_def be_1 be2 be4)
  moreover have "take (hp_payload_size ?p) [65, 66] = [65, 66 :: byte]" "(101 :: nat) < 2 ^ 16" "(101 :: nat) < SIZE_MOD"
    by (simp_all add: SIZE_MOD_def)
  moreover have "addr_fns (\<lambda>_. [127, 0, 0, 1]) (\<lambda>_. None)" by (simp add: addr_fns_def)
  moreover have "hp_payload ?p = Some [65, 66]" "0 < hp_payload_size ?p" "hp_payload_size ?p \<le> length [65, 66 :: byte]" "0 \<le> hp_ip_family ?p"
    by simp_all
  ultimately show ?thesis
    using ks_hepv3_capture_decoded [of "\<lambda>_. [127, 0, 0, 1]" "\<lambda>_. None" ?p "[65, 66]" "\<lambda>_. 0" 3000005 None, unfolded size_p]
    by (metis (no_types, lifting))
qed

end
