(* ===== verification/Ks_Thread.thy ===== *)
theory Ks_Thread
  imports Ks_Types Ks_Steps
begin

text \<open>
  The threads of \<open>ks_thread.c\<close>: creation, the function that a new thread runs, joining, stopping,
  destruction and the two counters. Any number of thread objects live side by side; each has the
  thread that created it (its owner) and the thread of the operating system that was created for it,
  and the two run concurrently. A step is a section in which the code touches the object: what
  happens under \<open>thread->mutex\<close>, or a single access without it. The creator holds the mutex from before
  \<open>pthread_create\<close> until after it, so the new thread can already run while the creator is inside.

  An access to an object that was freed is a fault (\<^const>\<open>None\<close>). The attributes and the creation of the
  thread of the operating system can fail in every way; their outcomes are arguments. Tags, file
  names and logging are left out; names and priorities of the running thread do not touch the object.
\<close>

section \<open>The object\<close>

definition KS_THREAD_FLAG_DETACHED :: u32 where
  "KS_THREAD_FLAG_DETACHED = 1"

record ks_thread =
  th_id :: nat
  attribute :: "(bool \<times> nat) option"
  private_data :: nat
  stack_size :: nat
  th_flags :: u32
  stop_requested :: bool
  priority :: nat
  return_data :: "nat option"
  own_pool :: bool
  th_mutex :: bool
  in_use :: bool

text \<open>
  \<open>attribute\<close> is the detach state and the stack size in the attributes while they are initialised, \<open>th_mutex\<close> whether the mutex is locked, and
  \<open>own_pool\<close> whether \<open>pool_to_destroy\<close> is set.
\<close>

definition is_detached :: "ks_thread \<Rightarrow> bool" where
  "is_detached t = (th_flags t AND KS_THREAD_FLAG_DETACHED \<noteq> 0)"

text \<open>What the system calls of a creation return: \<open>True\<close> is success.\<close>

datatype create_result = Created | Not_permitted | Not_created

record os_calls =
  os_attr_init :: bool
  os_detach :: bool
  os_stack :: bool
  os_priority :: bool
  os_attr_destroy :: bool
  os_attr_init2 :: bool
  os_create :: create_result
  os_attr_destroy2 :: bool
  os_attr_init3 :: bool
  os_create2 :: bool

section \<open>Starting the thread of the operating system\<close>

text \<open>
  The second part of \<open>__init_os_thread\<close>, with the mutex locked. On success it is still locked: the
  section ends at the successful \<open>pthread_create\<close>.
\<close>

definition init_os_create :: "os_calls \<Rightarrow> ks_thread \<Rightarrow> ks_status \<times> ks_thread" where
  "init_os_create os t =
     (let t = t\<lparr>th_mutex := True, in_use := True\<rparr> in
      case os_create os of
        Created \<Rightarrow> (KS_STATUS_SUCCESS, t)
      | Not_created \<Rightarrow> (KS_STATUS_FAIL, t\<lparr>in_use := False, th_mutex := False, attribute := None\<rparr>)
      | Not_permitted \<Rightarrow>
          let t = t\<lparr>in_use := False\<rparr> in
          if \<not> os_attr_destroy2 os then (KS_STATUS_FAIL, t\<lparr>th_mutex := False\<rparr>)
          else if \<not> os_attr_init3 os then (KS_STATUS_FAIL, t\<lparr>attribute := None, th_mutex := False\<rparr>)
          else let t = t\<lparr>attribute := Some (False, 0), in_use := True\<rparr> in
            if os_create2 os then (KS_STATUS_SUCCESS, t)
            else (KS_STATUS_FAIL, t\<lparr>in_use := False, th_mutex := False, attribute := None\<rparr>))"

definition init_os_thread :: "os_calls \<Rightarrow> ks_thread \<Rightarrow> ks_status \<times> ks_thread" where
  "init_os_thread os t =
     (if \<not> os_attr_init os then (KS_STATUS_FAIL, t)
      else if is_detached t \<and> \<not> os_detach os then (KS_STATUS_FAIL, t\<lparr>attribute := None\<rparr>)
      else if stack_size t \<noteq> 0 \<and> \<not> os_stack os then (KS_STATUS_FAIL, t\<lparr>attribute := None\<rparr>)
      else let t = t\<lparr>attribute := Some (is_detached t, stack_size t)\<rparr> in
        if priority t \<noteq> 0 \<and> \<not> os_priority os then
          (if \<not> os_attr_destroy os then (KS_STATUS_FAIL, t)
           else if \<not> os_attr_init2 os then (KS_STATUS_FAIL, t\<lparr>attribute := None\<rparr>)
           else init_os_create os (t\<lparr>attribute := Some (False, 0)\<rparr>))
        else init_os_create os t)"

section \<open>The system\<close>

text \<open>
  Where the new thread is: before its first access, in the user's function, behind it with the value
  to return, behind the section in which it stored the value or gave up \<open>in_use\<close>, behind the test
  of \<open>__ks_thread_destroy_ex\<close>, at its end.
\<close>

datatype launch_pc = L_none | L_start | L_user | L_ret nat | L_end nat | L_free nat | L_done nat

text \<open>Where the owner is: inside creation with the mutex, outside, inside destruction, without the object.\<close>

datatype owner_pc = O_none | O_create | O_owner | O_free | O_gone

text \<open>\<open>detached\<close> is what the creator asked for; it stays known when the object is gone.\<close>

record slot =
  obj :: "ks_thread option"
  detached :: bool
  owner :: owner_pc
  launch :: launch_pc

record th_sys =
  slots :: "nat \<Rightarrow> slot"
  g_attached :: u32
  g_detached :: u32

definition th_init :: th_sys where
  "th_init = \<lparr>slots = (\<lambda>_. \<lparr>obj = None, detached = False, owner = O_none, launch = L_none\<rparr>), g_attached = 0, g_detached = 0\<rparr>"

definition set_slot :: "nat \<Rightarrow> slot \<Rightarrow> th_sys \<Rightarrow> th_sys" where
  "set_slot a x s = s\<lparr>slots := (slots s)(a := x)\<rparr>"

definition count_up :: "bool \<Rightarrow> th_sys \<Rightarrow> th_sys" where
  "count_up det s = (if det then s\<lparr>g_detached := g_detached s + 1\<rparr> else s\<lparr>g_attached := g_attached s + 1\<rparr>)"

definition count_down :: "bool \<Rightarrow> th_sys \<Rightarrow> th_sys" where
  "count_down det s = (if det then s\<lparr>g_detached := g_detached s - 1\<rparr> else s\<lparr>g_attached := g_attached s - 1\<rparr>)"

section \<open>Creation\<close>

definition new_thread :: "u32 \<Rightarrow> nat \<Rightarrow> nat \<Rightarrow> nat \<Rightarrow> ks_thread" where
  "new_thread flags data stack prio =
     \<lparr>th_id = 0, attribute = None, private_data = data, stack_size = stack, th_flags = flags, stop_requested = False,
      priority = prio, return_data = None, own_pool = (flags AND KS_THREAD_FLAG_DETACHED \<noteq> 0), th_mutex = False, in_use = False\<rparr>"

text \<open>
  The second half of \<open>__ks_thread_destroy_ex\<close>: the attributes and the mutex are destroyed, the counter
  goes down and the memory is freed, with the pool of a detached thread.
\<close>

definition destroy_free :: "nat \<Rightarrow> th_sys \<Rightarrow> th_sys option" where
  "destroy_free a s =
     (case obj (slots s a) of None \<Rightarrow> None
      | Some t \<Rightarrow> Some (count_down (is_detached t) (set_slot a ((slots s a)\<lparr>obj := None\<rparr>) s)))"

text \<open>
  Creation at a fresh address, up to a successful \<open>pthread_create\<close>; when it fails, the object is
  destroyed by the internal call, whose test of \<open>in_use\<close> fails.
\<close>

definition create_thread :: "os_calls \<Rightarrow> u32 \<Rightarrow> nat \<Rightarrow> nat \<Rightarrow> nat \<Rightarrow> nat \<Rightarrow> th_sys \<Rightarrow> (ks_status \<times> th_sys) option" where
  "create_thread os flags data stack prio a s =
     (let t = new_thread flags data stack prio;
          s = count_up (is_detached t) s;
          (r, t) = init_os_thread os t
      in if r = KS_STATUS_SUCCESS then Some (r, set_slot a \<lparr>obj = Some t, detached = is_detached t, owner = O_create, launch = L_start\<rparr> s)
         else if in_use t then Some (r, set_slot a \<lparr>obj = Some t, detached = is_detached t, owner = O_gone, launch = L_none\<rparr> s)
         else map_option (Pair r) (destroy_free a (set_slot a \<lparr>obj = Some t, detached = is_detached t, owner = O_gone, launch = L_none\<rparr> s)))"

text \<open>The unlock at the end of \<open>__init_os_thread\<close>.\<close>

definition create_end :: "nat \<Rightarrow> th_sys \<Rightarrow> th_sys option" where
  "create_end a s =
     (case obj (slots s a) of None \<Rightarrow> None
      | Some t \<Rightarrow> Some (set_slot a ((slots s a)\<lparr>obj := Some (t\<lparr>th_mutex := False\<rparr>), owner := O_owner\<rparr>) s))"

section \<open>The new thread\<close>

text \<open>An access of the new thread that moves it on.\<close>

definition launch_to :: "nat \<Rightarrow> launch_pc \<Rightarrow> (ks_thread \<Rightarrow> ks_thread) \<Rightarrow> th_sys \<Rightarrow> th_sys option" where
  "launch_to a pc f s =
     (case obj (slots s a) of None \<Rightarrow> None
      | Some t \<Rightarrow> Some (set_slot a ((slots s a)\<lparr>obj := Some (f t), launch := pc\<rparr>) s))"

text \<open>The sections of \<open>thread_launch\<close>; \<open>v\<close> is what the user's function returns.\<close>

definition launch_begin :: "nat \<Rightarrow> nat \<Rightarrow> th_sys \<Rightarrow> th_sys option" where
  "launch_begin a self_id s = launch_to a L_user (\<lambda>t. t\<lparr>th_id := self_id\<rparr>) s"

definition launch_return :: "nat \<Rightarrow> nat \<Rightarrow> th_sys \<Rightarrow> th_sys option" where
  "launch_return a v s = launch_to a (L_ret v) id s"

definition launch_store :: "nat \<Rightarrow> nat \<Rightarrow> th_sys \<Rightarrow> th_sys option" where
  "launch_store a v s =
     launch_to a (L_end v) (\<lambda>t. if is_detached t then t\<lparr>in_use := False\<rparr> else t\<lparr>return_data := Some v\<rparr>) s"

text \<open>
  The section under the mutex: a detached thread is in the first half of \<open>__ks_thread_destroy_ex\<close>, an
  attached one gives up \<open>in_use\<close> and ends.
\<close>

definition launch_locked :: "nat \<Rightarrow> nat \<Rightarrow> th_sys \<Rightarrow> th_sys option" where
  "launch_locked a v s =
     (case obj (slots s a) of None \<Rightarrow> None
      | Some t \<Rightarrow>
          if is_detached t then launch_to a (if in_use t then L_done v else L_free v) id s
          else launch_to a (L_done v) (\<lambda>t. t\<lparr>in_use := False\<rparr>) s)"

definition launch_free :: "nat \<Rightarrow> nat \<Rightarrow> th_sys \<Rightarrow> th_sys option" where
  "launch_free a v s = map_option (\<lambda>s. set_slot a ((slots s a)\<lparr>launch := L_done v\<rparr>) s) (destroy_free a s)"

section \<open>The owner\<close>

definition ks_thread_request_stop :: "nat \<Rightarrow> th_sys \<Rightarrow> th_sys option" where
  "ks_thread_request_stop a s =
     (case obj (slots s a) of None \<Rightarrow> None
      | Some t \<Rightarrow> Some (set_slot a ((slots s a)\<lparr>obj := Some (t\<lparr>stop_requested := True\<rparr>)\<rparr>) s))"

definition ks_thread_stop_requested :: "nat \<Rightarrow> th_sys \<Rightarrow> bool option" where
  "ks_thread_stop_requested a s = map_option stop_requested (obj (slots s a))"

text \<open>
  \<open>pthread_join\<close> blocks while the thread runs: the inner \<^const>\<open>None\<close>. A call from the thread itself
  returns at once.
\<close>

definition ks_thread_join :: "nat \<Rightarrow> nat \<Rightarrow> th_sys \<Rightarrow> ks_status option option" where
  "ks_thread_join self_id a s =
     (case obj (slots s a) of None \<Rightarrow> None
      | Some t \<Rightarrow>
          if self_id = th_id t then Some (Some KS_STATUS_SUCCESS)
          else Some (case launch (slots s a) of L_done _ \<Rightarrow> Some KS_STATUS_SUCCESS | _ \<Rightarrow> None))"

definition ks_thread_get_return_data :: "nat \<Rightarrow> nat \<Rightarrow> th_sys \<Rightarrow> nat option option option" where
  "ks_thread_get_return_data self_id a s =
     (case ks_thread_join self_id a s of None \<Rightarrow> None
      | Some None \<Rightarrow> Some None
      | Some (Some r) \<Rightarrow>
          if r \<noteq> KS_STATUS_SUCCESS then Some (Some None)
          else map_option (\<lambda>t. Some (return_data t)) (obj (slots s a)))"

text \<open>
  The first half of \<open>ks_thread_destroy\<close> by the owner: a detached thread and a thread in use are
  refused; otherwise the owner goes on to \<^const>\<open>destroy_free\<close>.
\<close>

definition destroy_test :: "nat \<Rightarrow> th_sys \<Rightarrow> (ks_status \<times> th_sys) option" where
  "destroy_test a s =
     (case obj (slots s a) of None \<Rightarrow> None
      | Some t \<Rightarrow>
          if is_detached t \<or> in_use t then Some (KS_STATUS_FAIL, s)
          else Some (KS_STATUS_SUCCESS, set_slot a ((slots s a)\<lparr>owner := O_free\<rparr>) s))"

definition destroy_end :: "nat \<Rightarrow> th_sys \<Rightarrow> th_sys option" where
  "destroy_end a s = map_option (\<lambda>s. set_slot a ((slots s a)\<lparr>owner := O_gone\<rparr>) s) (destroy_free a s)"

definition ks_thread_stats :: "th_sys \<Rightarrow> u32 \<times> u32" where
  "ks_thread_stats s = (g_attached s, g_detached s)"

section \<open>Steps\<close>

text \<open>
  The actions, when they can happen, and what they do. The owner of an attached thread uses it until
  its destruction succeeds; the pointer to a detached thread is not used by the owner. A section
  under the mutex waits while the mutex is locked.
\<close>

datatype th_act =
  Create os_calls u32 nat nat nat
| Create_end | Begin nat | Return nat | Store | Locked | Free
| Stop | Poll | Join nat | Data nat | Destroy_test | Destroy_end

definition unlocked :: "slot \<Rightarrow> bool" where
  "unlocked x = (case obj x of None \<Rightarrow> True | Some t \<Rightarrow> \<not> th_mutex t)"

fun th_enabled :: "th_act \<Rightarrow> slot \<Rightarrow> bool" where
  "th_enabled (Create os flags data stack prio) x = (owner x = O_none)"
| "th_enabled Create_end x = (owner x = O_create)"
| "th_enabled (Begin i) x = (launch x = L_start)"
| "th_enabled (Return v) x = (launch x = L_user)"
| "th_enabled Store x = (case launch x of L_ret _ \<Rightarrow> True | _ \<Rightarrow> False)"
| "th_enabled Locked x = ((case launch x of L_end _ \<Rightarrow> True | _ \<Rightarrow> False) \<and> unlocked x)"
| "th_enabled Free x = (case launch x of L_free _ \<Rightarrow> True | _ \<Rightarrow> False)"
| "th_enabled Stop x = (owner x = O_owner \<and> \<not> detached x)"
| "th_enabled Poll x = (launch x = L_user)"
| "th_enabled (Join i) x = (owner x = O_owner \<and> \<not> detached x)"
| "th_enabled (Data i) x = (owner x = O_owner \<and> \<not> detached x)"
| "th_enabled Destroy_test x = (owner x = O_owner \<and> \<not> detached x \<and> unlocked x)"
| "th_enabled Destroy_end x = (owner x = O_free)"

definition launch_val :: "slot \<Rightarrow> nat" where
  "launch_val x = (case launch x of L_ret v \<Rightarrow> v | L_end v \<Rightarrow> v | L_free v \<Rightarrow> v | L_done v \<Rightarrow> v | _ \<Rightarrow> 0)"

fun th_do :: "th_act \<Rightarrow> nat \<Rightarrow> th_sys \<Rightarrow> th_sys option" where
  "th_do (Create os flags data stack prio) a s = map_option snd (create_thread os flags data stack prio a s)"
| "th_do Create_end a s = create_end a s"
| "th_do (Begin i) a s = launch_begin a i s"
| "th_do (Return v) a s = launch_return a v s"
| "th_do Store a s = launch_store a (launch_val (slots s a)) s"
| "th_do Locked a s = launch_locked a (launch_val (slots s a)) s"
| "th_do Free a s = launch_free a (launch_val (slots s a)) s"
| "th_do Stop a s = ks_thread_request_stop a s"
| "th_do Poll a s = map_option (\<lambda>_. s) (ks_thread_stop_requested a s)"
| "th_do (Join i) a s = map_option (\<lambda>_. s) (ks_thread_join i a s)"
| "th_do (Data i) a s = map_option (\<lambda>_. s) (ks_thread_get_return_data i a s)"
| "th_do Destroy_test a s = map_option snd (destroy_test a s)"
| "th_do Destroy_end a s = destroy_end a s"

inductive th_step :: "th_sys \<Rightarrow> th_sys \<Rightarrow> bool" where
  act: "th_enabled act (slots s a) \<Longrightarrow> th_do act a s = Some s' \<Longrightarrow> th_step s s'"

end
