(* ===== verification/Ks_Thread_Props.thy ===== *)
theory Ks_Thread_Props
  imports Ks_Thread
begin

text \<open>
  The life of thread objects. The invariant ties the two program counters of an object to its fields:
  the mutex is locked while the creator is inside creation, a thread that is in use has not yet given
  its result, and an object is only freed when neither thread will touch it again.
\<close>

section \<open>The invariant\<close>

definition live_ok :: "slot \<Rightarrow> ks_thread \<Rightarrow> bool" where
  "live_ok x t =
     (is_detached t = detached x \<and>
      (case launch x of
         L_none \<Rightarrow> False
       | L_start \<Rightarrow> in_use t
       | L_user \<Rightarrow> in_use t
       | L_ret v \<Rightarrow> in_use t
       | L_end v \<Rightarrow> (if detached x then \<not> in_use t else in_use t \<and> return_data t = Some v)
       | L_free v \<Rightarrow> detached x \<and> \<not> in_use t
       | L_done v \<Rightarrow> \<not> detached x \<and> \<not> in_use t \<and> return_data t = Some v))"

definition launch_done :: "slot \<Rightarrow> bool" where
  "launch_done x = (case launch x of L_done _ \<Rightarrow> True | _ \<Rightarrow> False)"

definition launch_frees :: "slot \<Rightarrow> bool" where
  "launch_frees x = (case launch x of L_free _ \<Rightarrow> True | _ \<Rightarrow> False)"

definition slot_ok :: "slot \<Rightarrow> bool" where
  "slot_ok x =
     (case owner x of
        O_none \<Rightarrow> obj x = None \<and> launch x = L_none
      | O_create \<Rightarrow> (\<exists>t. obj x = Some t \<and> live_ok x t \<and> th_mutex t \<and> \<not> launch_done x \<and> \<not> launch_frees x)
      | O_owner \<Rightarrow>
          (if detached x \<and> launch_done x then obj x = None
           else \<exists>t. obj x = Some t \<and> live_ok x t \<and> \<not> th_mutex t)
      | O_free \<Rightarrow> (\<exists>t. obj x = Some t \<and> live_ok x t \<and> launch_done x)
      | O_gone \<Rightarrow> obj x = None \<and> (launch x = L_none \<or> launch_done x))"

definition lives :: "bool \<Rightarrow> th_sys \<Rightarrow> nat set" where
  "lives d s = {a. \<exists>t. obj (slots s a) = Some t \<and> is_detached t = d}"

definition th_inv :: "th_sys \<Rightarrow> bool" where
  "th_inv s =
     ((\<forall>a. slot_ok (slots s a)) \<and> (\<forall>d. finite (lives d s)) \<and>
      g_attached s = of_nat (card (lives False s)) \<and> g_detached s = of_nat (card (lives True s)))"

lemma th_init_inv: "th_inv th_init"
  by (simp add: th_inv_def th_init_def slot_ok_def lives_def)

section \<open>Changes of one object\<close>

lemma set_slot_sel [simp]:
  "slots (set_slot a x s) = (slots s)(a := x)" "g_attached (set_slot a x s) = g_attached s" "g_detached (set_slot a x s) = g_detached s"
  by (simp_all add: set_slot_def)

lemma count_sel [simp]:
  "slots (count_up d s) = slots s" "slots (count_down d s) = slots s"
  "g_attached (count_up d s) = g_attached s + (if d then 0 else 1)" "g_detached (count_up d s) = g_detached s + (if d then 1 else 0)"
  "g_attached (count_down d s) = g_attached s - (if d then 0 else 1)" "g_detached (count_down d s) = g_detached s - (if d then 1 else 0)"
  by (simp_all add: count_up_def count_down_def)

lemma inv_same:
  assumes "th_inv s" "slot_ok x" "map_option is_detached (obj x) = map_option is_detached (obj (slots s a))"
  shows "th_inv (set_slot a x s)"
proof -
  have "lives d (set_slot a x s) = lives d s" for d
    using assms(3) by (auto simp: lives_def split: if_splits) (metis map_option_eq_Some)+
  then show ?thesis using assms(1,2) by (auto simp: th_inv_def)
qed

lemma inv_new:
  assumes "th_inv s" "slot_ok x" "obj (slots s a) = None" "obj x = Some t"
  shows "th_inv (set_slot a x (count_up (is_detached t) s))"
proof -
  have l: "lives d (set_slot a x (count_up e s)) = (if d = is_detached t then insert a (lives d s) else lives d s)" for d e
    using assms(3,4) by (auto simp: lives_def)
  have "a \<notin> lives d s" for d using assms(3) by (simp add: lives_def)
  then show ?thesis using assms(1,2) by (auto simp: th_inv_def l)
qed

lemma inv_free:
  assumes "th_inv s" "slot_ok x" "obj (slots s a) = Some t" "obj x = None"
  shows "th_inv (set_slot a x (count_down (is_detached t) s))"
proof -
  have l: "lives d (set_slot a x (count_down e s)) = (if d = is_detached t then lives d s - {a} else lives d s)" for d e
    using assms(3,4) by (auto simp: lives_def)
  have a: "a \<in> lives (is_detached t) s" using assms(3) by (simp add: lives_def)
  have f: "finite (lives d s)" for d using assms(1) by (simp add: th_inv_def)
  have "card (lives (is_detached t) s) = Suc (card (lives (is_detached t) s - {a}))" using card.remove [OF f a] .
  then show ?thesis using assms(1,2) by (cases "is_detached t") (auto simp: th_inv_def l)
qed

section \<open>The actions\<close>

lemma init_os_create_ok:
  "init_os_create os t = (r, t') \<Longrightarrow> is_detached t' = is_detached t \<and> (r = KS_STATUS_SUCCESS \<longrightarrow> in_use t' \<and> th_mutex t') \<and>
    (r \<noteq> KS_STATUS_SUCCESS \<longrightarrow> \<not> in_use t')"
  by (auto simp: init_os_create_def is_detached_def Let_def split: create_result.splits if_splits)

lemma init_os_thread_ok:
  "init_os_thread os t = (r, t') \<Longrightarrow> \<not> in_use t \<Longrightarrow> is_detached t' = is_detached t \<and>
    (r = KS_STATUS_SUCCESS \<longrightarrow> in_use t' \<and> th_mutex t') \<and> (r \<noteq> KS_STATUS_SUCCESS \<longrightarrow> \<not> in_use t')"
  by (auto simp: init_os_thread_def is_detached_def Let_def split: if_splits dest!: init_os_create_ok)

lemma create_thread_inv:
  assumes "th_inv s" "owner (slots s a) = O_none"
  shows "\<exists>r s'. create_thread os flags data stack prio a s = Some (r, s') \<and> th_inv s'"
proof -
  let ?t = "new_thread flags data stack prio"
  have n: "obj (slots s a) = None" "launch (slots s a) = L_none"
    using assms by (auto simp: th_inv_def slot_ok_def dest: spec [of _ a])
  obtain r t where rt: "init_os_thread os ?t = (r, t)" by fastforce
  have t: "is_detached t = is_detached ?t" "r = KS_STATUS_SUCCESS \<Longrightarrow> in_use t \<and> th_mutex t" "r \<noteq> KS_STATUS_SUCCESS \<Longrightarrow> \<not> in_use t"
    using init_os_thread_ok [OF rt] by (auto simp: new_thread_def)
  show ?thesis
  proof (cases "r = KS_STATUS_SUCCESS")
    case True
    then have "slot_ok \<lparr>obj = Some t, detached = is_detached t, owner = O_create, launch = L_start\<rparr>"
      using t(2) by (simp add: slot_ok_def live_ok_def launch_done_def launch_frees_def)
    from inv_new [OF assms(1) this n(1), of t] show ?thesis using True rt t(1) by (simp add: create_thread_def Let_def)
  next
    case False
    let ?x = "\<lparr>obj = None, detached = is_detached t, owner = O_gone, launch = L_none\<rparr>"
    have "create_thread os flags data stack prio a s = Some (r, set_slot a ?x s)"
      using False rt t(1,3) by (auto simp: create_thread_def Let_def destroy_free_def count_up_def count_down_def set_slot_def)
    moreover have "th_inv (set_slot a ?x s)" using n by (intro inv_same [OF assms(1)]) (auto simp: slot_ok_def)
    ultimately show ?thesis by blast
  qed
qed

lemmas slot_defs = slot_ok_def live_ok_def launch_done_def launch_frees_def

lemma create_end_inv:
  assumes "th_inv s" "owner (slots s a) = O_create"
  shows "\<exists>s'. create_end a s = Some s' \<and> th_inv s'"
proof -
  have ok: "slot_ok (slots s a)" using assms(1) by (simp add: th_inv_def)
  then obtain t where t: "obj (slots s a) = Some t" using assms(2) by (auto simp: slot_ok_def)
  have "th_inv (set_slot a ((slots s a)\<lparr>obj := Some (t\<lparr>th_mutex := False\<rparr>), owner := O_owner\<rparr>) s)"
    using ok assms(2) t by (intro inv_same [OF assms(1)]) (auto simp: slot_defs is_detached_def split: launch_pc.splits if_splits)
  then show ?thesis using t by (simp add: create_end_def)
qed

lemma launch_to_inv:
  assumes "th_inv s" "obj (slots s a) = Some t" "is_detached (f t) = is_detached t" "slot_ok ((slots s a)\<lparr>obj := Some (f t), launch := pc\<rparr>)"
  shows "\<exists>s'. launch_to a pc f s = Some s' \<and> th_inv s'"
  using inv_same [OF assms(1,4), of a] assms(2,3) by (simp add: launch_to_def)

lemma detached_upd [simp]:
  "is_detached (t\<lparr>th_id := i\<rparr>) = is_detached t" "is_detached (t\<lparr>in_use := b\<rparr>) = is_detached t"
  "is_detached (t\<lparr>return_data := v\<rparr>) = is_detached t" "is_detached (t\<lparr>stop_requested := b\<rparr>) = is_detached t"
  by (simp_all add: is_detached_def)

text \<open>While the new thread has accesses to come, the object is live.\<close>

lemma launch_live:
  assumes "th_inv s" "launch (slots s a) \<noteq> L_none" "\<not> launch_done (slots s a)"
  shows "\<exists>t. obj (slots s a) = Some t \<and> live_ok (slots s a) t \<and> (th_mutex t \<longleftrightarrow> owner (slots s a) = O_create) \<and>
    owner (slots s a) \<in> {O_create, O_owner}"
proof -
  have "slot_ok (slots s a)" using assms(1) by (simp add: th_inv_def)
  then show ?thesis using assms(2,3) by (cases "owner (slots s a)") (auto simp: slot_ok_def)
qed

lemma launch_access:
  assumes "th_inv s" "launch (slots s a) \<noteq> L_none" "\<not> launch_done (slots s a)" "\<not> launch_frees (slots s a)"
    and f: "\<And>t. is_detached (f t) = is_detached t" "\<And>t. th_mutex (f t) = th_mutex t"
    and pc: "\<And>t. live_ok (slots s a) t \<Longrightarrow> live_ok ((slots s a)\<lparr>launch := pc\<rparr>) (f t)"
      "\<not> launch_done ((slots s a)\<lparr>launch := pc\<rparr>)" "\<not> launch_frees ((slots s a)\<lparr>launch := pc\<rparr>)"
  shows "\<exists>s'. launch_to a pc f s = Some s' \<and> th_inv s'"
proof -
  obtain t where t: "obj (slots s a) = Some t" "live_ok (slots s a) t" "th_mutex t \<longleftrightarrow> owner (slots s a) = O_create"
      "owner (slots s a) \<in> {O_create, O_owner}"
    using launch_live [OF assms(1-3)] by blast
  have "slot_ok ((slots s a)\<lparr>obj := Some (f t), launch := pc\<rparr>)"
    using pc(1) [OF t(2)] pc(2,3) t(3,4) f by (cases pc) (auto simp: slot_defs)
  then show ?thesis using launch_to_inv [of s a t f pc] assms(1) t(1) f(1) by blast
qed

lemma launch_begin_inv:
  "th_inv s \<Longrightarrow> launch (slots s a) = L_start \<Longrightarrow> \<exists>s'. launch_begin a i s = Some s' \<and> th_inv s'"
  unfolding launch_begin_def by (rule launch_access) (simp_all add: slot_defs)

lemma launch_return_inv:
  "th_inv s \<Longrightarrow> launch (slots s a) = L_user \<Longrightarrow> \<exists>s'. launch_return a v s = Some s' \<and> th_inv s'"
  unfolding launch_return_def by (rule launch_access) (simp_all add: slot_defs)

lemma launch_store_inv:
  "th_inv s \<Longrightarrow> launch (slots s a) = L_ret v \<Longrightarrow> \<exists>s'. launch_store a v s = Some s' \<and> th_inv s'"
  unfolding launch_store_def by (rule launch_access) (auto simp: slot_defs)

lemma launch_locked_inv:
  assumes "th_inv s" "launch (slots s a) = L_end v" "unlocked (slots s a)"
  shows "\<exists>s'. launch_locked a v s = Some s' \<and> th_inv s'"
proof -
  obtain t where t: "obj (slots s a) = Some t" "live_ok (slots s a) t" "th_mutex t \<longleftrightarrow> owner (slots s a) = O_create" "owner (slots s a) \<in> {O_create, O_owner}"
    using launch_live [OF assms(1), of a] assms(2) by (auto simp: launch_done_def)
  then have o: "owner (slots s a) = O_owner" "\<not> th_mutex t" using assms(3) by (auto simp: unlocked_def)
  show ?thesis
  proof (cases "is_detached t")
    case True
    then show ?thesis using t o assms launch_to_inv [OF assms(1) t(1), of id "L_free v"]
      by (auto simp: launch_locked_def slot_defs)
  next
    case False
    then show ?thesis using t o assms launch_to_inv [OF assms(1) t(1), of "\<lambda>t. t\<lparr>in_use := False\<rparr>" "L_done v"]
      by (auto simp: launch_locked_def slot_defs)
  qed
qed

lemma free_slot:
  assumes "obj (slots s a) = Some t"
  shows "map_option (\<lambda>s. set_slot a (f (slots s a)) s) (destroy_free a s) =
    Some (set_slot a (f ((slots s a)\<lparr>obj := None\<rparr>)) (count_down (is_detached t) s))"
  using assms by (simp add: destroy_free_def set_slot_def count_down_def)

lemma launch_free_inv:
  assumes "th_inv s" "launch (slots s a) = L_free v"
  shows "\<exists>s'. launch_free a v s = Some s' \<and> th_inv s'"
proof -
  obtain t where t: "obj (slots s a) = Some t" "live_ok (slots s a) t" "th_mutex t \<longleftrightarrow> owner (slots s a) = O_create" "owner (slots s a) \<in> {O_create, O_owner}"
    using launch_live [OF assms(1), of a] assms(2) by (auto simp: launch_done_def)
  moreover have "slot_ok (slots s a)" using assms(1) by (simp add: th_inv_def)
  ultimately have "slot_ok ((slots s a)\<lparr>obj := None, launch := L_done v\<rparr>)" using assms(2) by (auto simp: slot_defs)
  from inv_free [OF assms(1) this t(1)] have "th_inv (set_slot a ((slots s a)\<lparr>obj := None, launch := L_done v\<rparr>) (count_down (is_detached t) s))"
    by simp
  then show ?thesis unfolding launch_free_def free_slot [OF t(1), of "\<lambda>x. x\<lparr>launch := L_done v\<rparr>"] by blast
qed

section \<open>The owner\<close>

lemma owner_live:
  assumes "th_inv s" "owner (slots s a) = O_owner" "\<not> detached (slots s a)"
  shows "\<exists>t. obj (slots s a) = Some t \<and> live_ok (slots s a) t \<and> \<not> th_mutex t"
proof -
  have "slot_ok (slots s a)" using assms(1) by (simp add: th_inv_def)
  then show ?thesis using assms(2,3) by (auto simp: slot_ok_def)
qed

lemma request_stop_inv:
  assumes "th_inv s" "owner (slots s a) = O_owner" "\<not> detached (slots s a)"
  shows "\<exists>s'. ks_thread_request_stop a s = Some s' \<and> th_inv s'"
proof -
  obtain t where t: "obj (slots s a) = Some t" "live_ok (slots s a) t" "\<not> th_mutex t" using owner_live [OF assms] by blast
  then have "slot_ok ((slots s a)\<lparr>obj := Some (t\<lparr>stop_requested := True\<rparr>)\<rparr>)"
    using assms by (auto simp: slot_ok_def live_ok_def launch_done_def split: launch_pc.splits)
  from inv_same [OF assms(1) this, of a] show ?thesis using t(1) by (simp add: ks_thread_request_stop_def)
qed

lemma destroy_test_inv:
  assumes "th_inv s" "owner (slots s a) = O_owner" "\<not> detached (slots s a)"
  shows "\<exists>r s'. destroy_test a s = Some (r, s') \<and> th_inv s' \<and> (r = KS_STATUS_SUCCESS \<longleftrightarrow> launch_done (slots s a))"
proof -
  obtain t where t: "obj (slots s a) = Some t" "live_ok (slots s a) t" "\<not> th_mutex t" using owner_live [OF assms] by blast
  then have d: "\<not> is_detached t" "in_use t \<longleftrightarrow> \<not> launch_done (slots s a)"
    using assms(3) by (auto simp: live_ok_def launch_done_def split: launch_pc.splits if_splits)
  have "slot_ok ((slots s a)\<lparr>owner := O_free\<rparr>)" if "launch_done (slots s a)"
    using t that by (auto simp: slot_defs split: launch_pc.splits)
  from inv_same [OF assms(1) this, of a] show ?thesis using t(1) d assms(1) by (auto simp: destroy_test_def)
qed

lemma destroy_end_inv:
  assumes "th_inv s" "owner (slots s a) = O_free"
  shows "\<exists>s'. destroy_end a s = Some s' \<and> th_inv s'"
proof -
  have ok: "slot_ok (slots s a)" using assms(1) by (simp add: th_inv_def)
  then obtain t where t: "obj (slots s a) = Some t" using assms(2) by (auto simp: slot_ok_def)
  have "slot_ok ((slots s a)\<lparr>obj := None, owner := O_gone\<rparr>)" using ok assms(2) by (auto simp: slot_ok_def launch_done_def)
  from inv_free [OF assms(1) this t] have "th_inv (set_slot a ((slots s a)\<lparr>obj := None, owner := O_gone\<rparr>) (count_down (is_detached t) s))"
    by simp
  then show ?thesis unfolding destroy_end_def free_slot [OF t, of "\<lambda>x. x\<lparr>owner := O_gone\<rparr>"] by blast
qed

section \<open>All steps\<close>

lemma th_do_inv:
  assumes "th_inv s" "th_enabled act (slots s a)"
  shows "\<exists>s'. th_do act a s = Some s' \<and> th_inv s'"
proof (cases act)
  case (Create os flags data stack prio)
  then show ?thesis using create_thread_inv [OF assms(1), of a os flags data stack prio] assms(2) by auto
next
  case Create_end
  then show ?thesis using create_end_inv [OF assms(1)] assms(2) by simp
next
  case (Begin i)
  then show ?thesis using launch_begin_inv [OF assms(1)] assms(2) by simp
next
  case (Return v)
  then show ?thesis using launch_return_inv [OF assms(1)] assms(2) by simp
next
  case Store
  then obtain v where "launch (slots s a) = L_ret v" using assms(2) by (auto split: launch_pc.splits)
  then show ?thesis using launch_store_inv [OF assms(1), of a v] Store by (simp add: launch_val_def)
next
  case Locked
  then obtain v where "launch (slots s a) = L_end v" "unlocked (slots s a)" using assms(2) by (auto split: launch_pc.splits)
  then show ?thesis using launch_locked_inv [OF assms(1), of a v] Locked by (simp add: launch_val_def)
next
  case Free
  then obtain v where "launch (slots s a) = L_free v" using assms(2) by (auto split: launch_pc.splits)
  then show ?thesis using launch_free_inv [OF assms(1), of a v] Free by (simp add: launch_val_def)
next
  case Stop
  then show ?thesis using request_stop_inv [OF assms(1)] assms(2) by simp
next
  case Poll
  then have "\<exists>t. obj (slots s a) = Some t" using launch_live [OF assms(1), of a] assms(2) by (auto simp: launch_done_def)
  then show ?thesis using Poll assms(1) by (auto simp: ks_thread_stop_requested_def)
next
  case (Join i)
  then show ?thesis using owner_live [OF assms(1), of a] assms by (auto simp: ks_thread_join_def)
next
  case (Data i)
  then show ?thesis using owner_live [OF assms(1), of a] assms
    by (auto simp: ks_thread_get_return_data_def ks_thread_join_def split: launch_pc.splits)
next
  case Destroy_test
  then show ?thesis using destroy_test_inv [OF assms(1), of a] assms(2) by auto
next
  case Destroy_end
  then show ?thesis using destroy_end_inv [OF assms(1)] assms(2) by simp
qed

lemma th_step_inv: "th_step s s' \<Longrightarrow> th_inv s \<Longrightarrow> th_inv s'"
  by (elim th_step.cases) (use th_do_inv in fastforce)

interpretation threads: step_system th_init th_step th_inv
  by unfold_locales (auto intro: th_init_inv th_step_inv)

section \<open>Failed creation\<close>

text \<open>
  When the thread of the operating system cannot be created, \<open>__init_os_thread\<close> has destroyed the
  attributes, and \<open>__ks_thread_destroy_ex\<close> destroys them again.
\<close>

lemma failed_create_attributes:
  assumes "os_attr_init os" "os_detach os" "os_stack os" "os_priority os" "os_create os = Not_created"
  shows "\<exists>t'. init_os_thread os t = (KS_STATUS_FAIL, t') \<and> attribute t' = None"
  using assms by (simp add: init_os_thread_def init_os_create_def Let_def)

text \<open>
  The fallback after a priority that cannot be set starts from fresh attributes: the thread of the
  operating system is joinable although the object is detached, and nobody joins it.
\<close>

lemma fallback_not_detached:
  assumes "os_attr_init os" "os_detach os" "os_stack os" "\<not> os_priority os" "priority t \<noteq> 0" "os_attr_destroy os" "os_attr_init2 os"
    "os_create os = Created"
  shows "\<exists>t'. init_os_thread os t = (KS_STATUS_SUCCESS, t') \<and> attribute t' = Some (False, 0) \<and> is_detached t' = is_detached t"
  using assms by (simp add: init_os_thread_def init_os_create_def Let_def is_detached_def)

section \<open>A run\<close>

definition demo_os :: os_calls where
  "demo_os = \<lparr>os_attr_init = True, os_detach = True, os_stack = True, os_priority = True, os_attr_destroy = True,
     os_attr_init2 = True, os_create = Created, os_attr_destroy2 = True, os_attr_init3 = True, os_create2 = True\<rparr>"

text \<open>An attached thread at 1 that runs to its end, and a detached one at 2 that ends while its creator is inside.\<close>

definition demo_acts :: "(th_act \<times> nat) list" where
  "demo_acts = [(Create demo_os 0 0 0 0, 1), (Create demo_os 1 0 0 0, 2), (Begin 7, 2), (Return 4, 2), (Store, 2), (Begin 8, 1), (Create_end, 1),
     (Return 5, 1), (Store, 1), (Locked, 1)]"

fun th_run :: "(th_act \<times> nat) list \<Rightarrow> th_sys \<Rightarrow> th_sys option" where
  "th_run [] s = Some s"
| "th_run ((act, a) # acts) s =
     (if th_enabled act (slots s a) then (case th_do act a s of None \<Rightarrow> None | Some s' \<Rightarrow> th_run acts s') else None)"

lemma th_run_steps: "th_run acts s = Some s' \<Longrightarrow> th_step\<^sup>*\<^sup>* s s'"
  by (induction acts s rule: th_run.induct)
    (auto split: if_splits option.splits intro: converse_rtranclp_into_rtranclp th_step.act)

definition demo_threads :: th_sys where
  "demo_threads = the (th_run demo_acts th_init)"

lemma demo_threads_state:
  "th_run demo_acts th_init \<noteq> None" "owner (slots demo_threads 1) = O_owner" "\<not> detached (slots demo_threads 1)"
  "launch (slots demo_threads 1) = L_done 5" "th_enabled Create_end (slots demo_threads 2)"
  by code_simp+

lemma demo_threads_reached: "th_step\<^sup>*\<^sup>* th_init demo_threads"
  using demo_threads_state(1) th_run_steps [of demo_acts th_init demo_threads] by (auto simp: demo_threads_def)

section \<open>Claims\<close>

text \<open>
  C15: Threads are created, run, stopped, joined and destroyed without touching a freed object. In every
  state that any interleaving reaches, from any number of creations with any outcome of the system
  calls, every action that can happen succeeds on a live object: in particular the creator's unlock
  of the mutex of a detached thread that has already ended, the end of an attached thread, and the
  one release of each object. The owner of an attached thread uses it until its destruction succeeds,
  and does not use a detached one.
\<close>

theorem ks_thread_safe:
  assumes "th_step\<^sup>*\<^sup>* th_init s" "th_enabled act (slots s a)"
  shows "\<exists>s'. th_do act a s = Some s'"
  using th_do_inv [OF threads.run_inv [OF assms(1)] assms(2)] by blast

theorem ks_thread_safe_witness: "\<exists>s'. th_do Create_end 2 demo_threads = Some s'"
  by (rule ks_thread_safe [OF demo_threads_reached demo_threads_state(5)])

text \<open>
  C16: In every reachable state the two counters of \<open>ks_thread_stats\<close> are the numbers of attached and
  of detached thread objects; and for every attached thread that its owner has, once it has ended
  \<open>ks_thread_get_return_data\<close> gives back what the user's function returned, and \<open>ks_thread_destroy\<close>
  passes its test, which it does not pass before.
\<close>

theorem ks_thread_results:
  assumes "th_step\<^sup>*\<^sup>* th_init s"
  shows "ks_thread_stats s = (of_nat (card (lives False s)), of_nat (card (lives True s))) \<and>
    finite (lives False s) \<and> finite (lives True s) \<and>
    (\<forall>a. owner (slots s a) = O_owner \<and> \<not> detached (slots s a) \<longrightarrow>
      (launch (slots s a) \<notin> range L_done \<or> ks_thread_get_return_data i a s = Some (Some (Some (launch_val (slots s a))))) \<and>
      (\<exists>r s'. destroy_test a s = Some (r, s') \<and> (r = KS_STATUS_SUCCESS \<longleftrightarrow> launch (slots s a) \<in> range L_done)))"
proof -
  have inv: "th_inv s" by (rule threads.run_inv [OF assms])
  have "(launch (slots s a) \<notin> range L_done \<or> ks_thread_get_return_data i a s = Some (Some (Some (launch_val (slots s a))))) \<and>
      (\<exists>r s'. destroy_test a s = Some (r, s') \<and> (r = KS_STATUS_SUCCESS \<longleftrightarrow> launch (slots s a) \<in> range L_done))"
    if o: "owner (slots s a) = O_owner" "\<not> detached (slots s a)" for a
  proof -
    have d: "launch_done (slots s a) \<longleftrightarrow> launch (slots s a) \<in> range L_done"
      by (auto simp: launch_done_def split: launch_pc.splits)
    obtain t where t: "obj (slots s a) = Some t" "live_ok (slots s a) t" using owner_live [OF inv o] by blast
    have "ks_thread_get_return_data i a s = Some (Some (Some (launch_val (slots s a))))" if "launch (slots s a) \<in> range L_done"
      using that t by (auto simp: ks_thread_get_return_data_def ks_thread_join_def live_ok_def launch_val_def)
    then show ?thesis using destroy_test_inv [OF inv o] d by auto
  qed
  then show ?thesis using inv by (auto simp: th_inv_def ks_thread_stats_def)
qed

theorem ks_thread_results_witness:
  "fst (ks_thread_stats demo_threads) = of_nat (card (lives False demo_threads)) \<and> 1 \<in> lives False demo_threads \<and>
   ks_thread_get_return_data 3 1 demo_threads = Some (Some (Some 5)) \<and> (\<exists>s'. destroy_test 1 demo_threads = Some (KS_STATUS_SUCCESS, s'))"
proof -
  have "map_option is_detached (obj (slots demo_threads 1)) = Some False" by code_simp
  then have "1 \<in> lives False demo_threads" by (auto simp: lives_def)
  then show ?thesis
    using ks_thread_results [OF demo_threads_reached, of 3] demo_threads_state(2,3,4) by (auto simp: launch_val_def)
qed

end
