(* ===== verification/Ks_Addr.thy ===== *)
theory Ks_Addr
  imports Ks_Net Ks_Types
begin

text \<open>
  The socket addresses of \<open>ks_socket.c\<close>, and the two loops that retry an interrupted transfer. An
  address is a \<open>ks_sockaddr_t\<close>: its union of \<open>struct sockaddr_in\<close> and \<open>struct sockaddr_in6\<close> is a block
  of 28 bytes in the layout of Linux on a little-endian machine (family at 0, port at 2, the IPv4
  address at 4, the IPv6 address at 8). \<open>inet_addr\<close>, \<open>inet_pton\<close> and \<open>inet_ntop\<close> are arguments.
\<close>

section \<open>The structure\<close>

definition AF_INET :: int where "AF_INET = 2"
definition AF_INET6 :: int where "AF_INET6 = 10"

record ks_sockaddr =
  sa_family :: int
  sa_v :: mem
  sa_port :: u16
  sa_host :: mem

definition sockaddr_zero :: ks_sockaddr where
  "sockaddr_zero = \<lparr>sa_family = 0, sa_v = replicate 28 0, sa_port = 0, sa_host = replicate 48 0\<rparr>"

definition SIZEOF_V4 :: nat where "SIZEOF_V4 = 16"
definition SIZEOF_V6 :: nat where "SIZEOF_V6 = 28"

text \<open>Where the address is in the union, and its length.\<close>

definition addr_off :: "int \<Rightarrow> nat" where
  "addr_off fam = (if fam = AF_INET then 4 else 8)"

definition addr_len :: "int \<Rightarrow> nat" where
  "addr_len fam = (if fam = AF_INET then 4 else 16)"

definition family_ok :: "ks_sockaddr \<Rightarrow> bool" where
  "family_ok a = (sa_family a = AF_INET \<or> sa_family a = AF_INET6)"

definition port_bytes :: "ks_sockaddr \<Rightarrow> mem" where
  "port_bytes a = take 2 (drop 2 (sa_v a))"

definition addr_bytes :: "ks_sockaddr \<Rightarrow> mem" where
  "addr_bytes a = take (addr_len (sa_family a)) (drop (addr_off (sa_family a)) (sa_v a))"

section \<open>Reading an address\<close>

text \<open>\<open>inet_ntop\<close> writes the text if it fits the 48 bytes, and nothing otherwise.\<close>

definition ks_addr_get_host :: "(int \<Rightarrow> mem \<Rightarrow> mem) \<Rightarrow> ks_sockaddr \<Rightarrow> ks_sockaddr option" where
  "ks_addr_get_host ntop a =
     (if \<not> family_ok a then None
      else let s = ntop (sa_family a) (addr_bytes a)
           in Some (if length s < 48 then a\<lparr>sa_host := blit 0 (s @ [0]) (sa_host a)\<rparr> else a))"

definition ks_addr_get_port :: "ks_sockaddr \<Rightarrow> (u16 \<times> ks_sockaddr) option" where
  "ks_addr_get_port a =
     (if \<not> family_ok a then None
      else let p = ntohs (port_bytes a) in Some (p, a\<lparr>sa_port := p\<rparr>))"

definition ks_addr_raw_data :: "ks_sockaddr \<Rightarrow> (mem \<times> nat) option" where
  "ks_addr_raw_data a = (if \<not> family_ok a then None else Some (addr_bytes a, addr_len (sa_family a)))"

text \<open>The IPv6 address is compared in four words of 32 bits.\<close>

fun addr6_words :: "nat \<Rightarrow> mem \<Rightarrow> mem \<Rightarrow> bool" where
  "addr6_words 0 v w = True"
| "addr6_words (Suc n) v w = (take 4 v = take 4 w \<and> addr6_words n (drop 4 v) (drop 4 w))"

definition ks_addr_cmp :: "ks_sockaddr option \<Rightarrow> ks_sockaddr option \<Rightarrow> bool" where
  "ks_addr_cmp sa1 sa2 =
     (case (sa1, sa2) of
        (Some a, Some b) \<Rightarrow>
          if sa_family a \<noteq> sa_family b then False
          else if sa_family a = AF_INET then addr_bytes a = addr_bytes b \<and> port_bytes a = port_bytes b
          else if sa_family a = AF_INET6 then
            port_bytes a = port_bytes b \<and> addr6_words 4 (drop 8 (sa_v a)) (drop 8 (sa_v b))
          else False
      | _ \<Rightarrow> False)"

section \<open>Setting an address\<close>

text \<open>The texts and numbers kept beside the union are brought up to date at the end.\<close>

definition addr_refresh :: "(int \<Rightarrow> mem \<Rightarrow> mem) \<Rightarrow> ks_sockaddr \<Rightarrow> (ks_status \<times> ks_sockaddr) option" where
  "addr_refresh ntop a =
     do { a \<leftarrow> ks_addr_get_host ntop a;
          (_, a) \<leftarrow> ks_addr_get_port a;
          Some (KS_STATUS_SUCCESS, a) }"

definition ks_addr_copy :: "(int \<Rightarrow> mem \<Rightarrow> mem) \<Rightarrow> ks_sockaddr \<Rightarrow> ks_sockaddr \<Rightarrow> (ks_status \<times> ks_sockaddr) option" where
  "ks_addr_copy ntop addr src =
     (if \<not> family_ok src then None
      else let n = (if sa_family src = AF_INET then SIZEOF_V4 else SIZEOF_V6);
               addr = addr\<lparr>sa_family := sa_family src\<rparr>
           in do { v \<leftarrow> mem_sub (sa_v src) 0 n;
                   w \<leftarrow> mem_cpy (sa_v addr) 0 v;
                   addr_refresh ntop (addr\<lparr>sa_v := w\<rparr>) })"

text \<open>The stores of the family, the port and the address, in the union of a zeroed structure.\<close>

definition sockaddr_image :: "int \<Rightarrow> u16 \<Rightarrow> mem \<Rightarrow> ks_sockaddr option" where
  "sockaddr_image fam port data =
     do { v \<leftarrow> mem_cpy (sa_v sockaddr_zero) 0 [word_of_int fam, 0];
          v \<leftarrow> mem_cpy v 2 (htons port);
          v \<leftarrow> mem_cpy v (addr_off fam) data;
          Some (sockaddr_zero\<lparr>sa_family := fam, sa_v := v\<rparr>) }"

definition addr_family :: "int \<Rightarrow> int" where
  "addr_family fam = (if fam \<noteq> AF_INET \<and> fam \<noteq> AF_INET6 then AF_INET else fam)"

definition ks_addr_set ::
  "(mem \<Rightarrow> mem) \<Rightarrow> (mem \<Rightarrow> mem option) \<Rightarrow> (int \<Rightarrow> mem \<Rightarrow> mem) \<Rightarrow> mem option \<Rightarrow> u16 \<Rightarrow> int \<Rightarrow> (ks_status \<times> ks_sockaddr) option" where
  "ks_addr_set inet_addr pton6 ntop host port fam =
     (let fam = addr_family fam;
          fam = (case host of Some h \<Rightarrow> if 58 \<in> set h then AF_INET6 else fam | None \<Rightarrow> fam);
          data = (case host of
                    None \<Rightarrow> replicate (addr_len fam) 0
                  | Some h \<Rightarrow>
                      if fam = AF_INET then inet_addr h
                      else (case pton6 h of None \<Rightarrow> replicate 16 0 | Some d \<Rightarrow> d))
      in sockaddr_image fam port data \<bind> addr_refresh ntop)"

definition ks_addr_set_raw :: "(int \<Rightarrow> mem \<Rightarrow> mem) \<Rightarrow> mem \<Rightarrow> u16 \<Rightarrow> int \<Rightarrow> (ks_status \<times> ks_sockaddr) option" where
  "ks_addr_set_raw ntop data port fam =
     (let fam = addr_family fam in
      do { d \<leftarrow> mem_sub data 0 (addr_len fam);
           a \<leftarrow> sockaddr_image fam port d;
           addr_refresh ntop a })"

section \<open>Transfers\<close>

text \<open>What one \<open>send\<close> or \<open>recv\<close> returns: a count, or an error.\<close>

datatype io_result = Moved nat | Interrupted | Would_block | Io_error

text \<open>
  \<open>ks_socket_send\<close> and \<open>ks_socket_recv\<close> over the results of the successive calls; while all of them
  are interrupted the function has not returned, \<^const>\<open>None\<close>.
\<close>

fun socket_io :: "io_result list \<Rightarrow> nat \<Rightarrow> (ks_status \<times> nat) option" where
  "socket_io [] datalen = None"
| "socket_io (r # rs) datalen =
     (case r of
        Interrupted \<Rightarrow> socket_io rs datalen
      | Moved n \<Rightarrow> if 0 < n then Some (KS_STATUS_SUCCESS, n) else Some (KS_STATUS_DISCONNECTED, datalen)
      | Would_block \<Rightarrow> Some (KS_STATUS_BREAK, datalen)
      | Io_error \<Rightarrow> Some (KS_STATUS_FAIL, datalen))"

section \<open>Addresses keep what they are set to\<close>

definition addr_is :: "ks_sockaddr \<Rightarrow> int \<Rightarrow> u16 \<Rightarrow> mem \<Rightarrow> bool" where
  "addr_is a fam port data =
     (family_ok a \<and> sa_family a = fam \<and> length (sa_v a) = 28 \<and> length (sa_host a) = 48 \<and>
      port_bytes a = htons port \<and> addr_bytes a = data)"

lemma addr6_words_eq: "length v = 4 * n \<Longrightarrow> length w = 4 * n \<Longrightarrow> addr6_words n v w \<longleftrightarrow> v = w"
proof (induction n arbitrary: v w)
  case (Suc n)
  have "v = w \<longleftrightarrow> take 4 v = take 4 w \<and> drop 4 v = drop 4 w" by (metis append_take_drop_id)
  then show ?case using Suc.IH [of "drop 4 v" "drop 4 w"] Suc.prems by simp
qed simp

lemma addr6_words_take: "addr6_words n v w \<longleftrightarrow> addr6_words n (take (4 * n) v) (take (4 * n) w)"
proof (induction n arbitrary: v w)
  case (Suc n)
  have "take (4 * n) (drop 4 v) = drop 4 (take (4 + 4 * n) v)" for v :: mem by (simp add: drop_take)
  then show ?case using Suc.IH [of "drop 4 v" "drop 4 w"] by (simp add: min_def)
qed simp

lemma cmp_addr_is:
  assumes "addr_is a fam port data" "addr_is b fam' port' data'"
  shows "ks_addr_cmp (Some a) (Some b) \<longleftrightarrow> fam = fam' \<and> port = port' \<and> data = data'"
proof -
  have w: "addr6_words 4 (drop 8 (sa_v a)) (drop 8 (sa_v b)) \<longleftrightarrow> take 16 (drop 8 (sa_v a)) = take 16 (drop 8 (sa_v b))"
    using assms addr6_words_take [of 4 "drop 8 (sa_v a)" "drop 8 (sa_v b)"]
      addr6_words_eq [of "take 16 (drop 8 (sa_v a))" 4 "take 16 (drop 8 (sa_v b))"] by (simp add: addr_is_def)
  have "AF_INET6 \<noteq> AF_INET" by (simp add: AF_INET_def AF_INET6_def)
  then show ?thesis using assms w
    by (auto simp: ks_addr_cmp_def addr_is_def family_ok_def addr_bytes_def addr_len_def addr_off_def)
qed

lemma addr_refresh_is:
  assumes "addr_is a fam port data"
  shows "\<exists>b. addr_refresh ntop a = Some (KS_STATUS_SUCCESS, b) \<and> addr_is b fam port data \<and> sa_port b = port"
  using assms by (auto simp: addr_refresh_def ks_addr_get_host_def ks_addr_get_port_def addr_is_def family_ok_def
      addr_bytes_def port_bytes_def Let_def)

lemma sockaddr_image_is:
  assumes "fam = AF_INET \<or> fam = AF_INET6" "length data = addr_len fam"
  shows "\<exists>a. sockaddr_image fam port data = Some a \<and> addr_is a fam port data"
  using assms by (auto simp: sockaddr_image_def sockaddr_zero_def mem_cpy_def addr_is_def family_ok_def addr_bytes_def
      port_bytes_def addr_len_def addr_off_def AF_INET_def AF_INET6_def)

lemma addr_family_cases: "addr_family fam = AF_INET \<or> addr_family fam = AF_INET6"
  by (auto simp: addr_family_def)

lemma set_raw_is:
  assumes "addr_len (addr_family fam) \<le> length data"
  shows "\<exists>a. ks_addr_set_raw ntop data port fam = Some (KS_STATUS_SUCCESS, a) \<and>
    addr_is a (addr_family fam) port (take (addr_len (addr_family fam)) data) \<and> sa_port a = port"
proof -
  let ?d = "take (addr_len (addr_family fam)) data"
  obtain a where a: "sockaddr_image (addr_family fam) port ?d = Some a" "addr_is a (addr_family fam) port ?d"
    using sockaddr_image_is [OF addr_family_cases, of ?d fam port] assms by auto
  then show ?thesis using addr_refresh_is [OF a(2), of ntop] assms by (simp add: ks_addr_set_raw_def Let_def mem_sub_def)
qed

lemma copy_is:
  assumes "addr_is b fam port data" "length (sa_v c) = 28" "length (sa_host c) = 48"
  shows "\<exists>d. ks_addr_copy ntop c b = Some (KS_STATUS_SUCCESS, d) \<and> addr_is d fam port data"
proof -
  let ?n = "if sa_family b = AF_INET then SIZEOF_V4 else SIZEOF_V6"
  let ?c = "c\<lparr>sa_family := sa_family b, sa_v := take ?n (sa_v b) @ drop ?n (sa_v c)\<rparr>"
  have l: "length (sa_v b) = 28" "family_ok b" using assms(1) by (simp_all add: addr_is_def)
  have "addr_is ?c fam port data"
    using assms by (auto simp: addr_is_def family_ok_def addr_bytes_def port_bytes_def addr_len_def addr_off_def SIZEOF_V4_def SIZEOF_V6_def
        drop_take min_def)
  moreover have "ks_addr_copy ntop c b = addr_refresh ntop ?c"
    using l assms(2) by (auto simp: ks_addr_copy_def Let_def mem_sub_def mem_cpy_def SIZEOF_V4_def SIZEOF_V6_def)
  ultimately show ?thesis using addr_refresh_is [of ?c fam port data ntop] by auto
qed

text \<open>A text that \<open>inet_pton\<close> rejects is reported as a success: the address is the zero address.\<close>

lemma ks_addr_set_bad_host:
  assumes "58 \<in> set h" "pton6 h = None"
  shows "\<exists>a. ks_addr_set inet_addr pton6 ntop (Some h) port fam = Some (KS_STATUS_SUCCESS, a) \<and> addr_is a AF_INET6 port (replicate 16 0)"
proof -
  have f: "AF_INET6 \<noteq> AF_INET" by (simp add: AF_INET_def AF_INET6_def)
  obtain a where a: "sockaddr_image AF_INET6 port (replicate 16 0) = Some a" "addr_is a AF_INET6 port (replicate 16 0)"
    using sockaddr_image_is [of AF_INET6 "replicate 16 0" port] f by (auto simp: addr_len_def)
  then show ?thesis using addr_refresh_is [OF a(2), of ntop] assms f by (auto simp: ks_addr_set_def Let_def)
qed

section \<open>Claims\<close>

text \<open>
  C29: A socket address keeps what it was set to, and comparison is equality of what was set. An
  address made from raw bytes and a port, of either family (any other family number counts as IPv4),
  gives back these bytes and this port; two addresses compare as equal exactly when family, port and
  address bytes agree; and a copy over any other address agrees with its source, although only the
  part of the union that belongs to the family is copied.
\<close>

theorem ks_addr_identity:
  assumes "addr_len (addr_family fam) = length data" "addr_len (addr_family fam') = length data'"
    "length (sa_v c) = 28" "length (sa_host c) = 48"
  shows "\<exists>a b d. ks_addr_set_raw ntop data port fam = Some (KS_STATUS_SUCCESS, a) \<and>
    ks_addr_set_raw ntop data' port' fam' = Some (KS_STATUS_SUCCESS, b) \<and>
    ks_addr_raw_data a = Some (data, length data) \<and> sa_port a = port \<and>
    (ks_addr_cmp (Some a) (Some b) \<longleftrightarrow> addr_family fam = addr_family fam' \<and> port = port' \<and> data = data') \<and>
    ks_addr_copy ntop c a = Some (KS_STATUS_SUCCESS, d) \<and> ks_addr_cmp (Some d) (Some a) \<and>
    ks_addr_raw_data d = Some (data, length data)"
proof -
  obtain a where a: "ks_addr_set_raw ntop data port fam = Some (KS_STATUS_SUCCESS, a)" "addr_is a (addr_family fam) port data" "sa_port a = port"
    using set_raw_is [of fam data ntop port] assms(1) by auto
  obtain b where b: "ks_addr_set_raw ntop data' port' fam' = Some (KS_STATUS_SUCCESS, b)" "addr_is b (addr_family fam') port' data'"
    using set_raw_is [of fam' data' ntop port'] assms(2) by auto
  obtain d where d: "ks_addr_copy ntop c a = Some (KS_STATUS_SUCCESS, d)" "addr_is d (addr_family fam) port data"
    using copy_is [OF a(2) assms(3,4)] by blast
  have raw: "ks_addr_raw_data x = Some (data, length data)" if "addr_is x (addr_family fam) port data" for x
    using that assms(1) by (auto simp: ks_addr_raw_data_def addr_is_def)
  show ?thesis using a b d raw cmp_addr_is [OF a(2) b(2)] cmp_addr_is [OF d(2) a(2)] by blast
qed

theorem ks_addr_identity_witness:
  "\<exists>a b d. ks_addr_set_raw (\<lambda>_ _. []) [127, 0, 0, 1] 80 0 = Some (KS_STATUS_SUCCESS, a) \<and>
    ks_addr_set_raw (\<lambda>_ _. []) [127, 0, 0, 2] 80 2 = Some (KS_STATUS_SUCCESS, b) \<and>
    ks_addr_raw_data a = Some ([127, 0, 0, 1], 4) \<and> \<not> ks_addr_cmp (Some a) (Some b) \<and>
    ks_addr_copy (\<lambda>_ _. []) sockaddr_zero a = Some (KS_STATUS_SUCCESS, d) \<and> ks_addr_cmp (Some d) (Some a)"
  using ks_addr_identity [of 0 "[127, 0, 0, 1]" 2 "[127, 0, 0, 2]" sockaddr_zero "\<lambda>_ _. []" 80 80]
  by (fastforce simp: addr_family_def addr_len_def AF_INET_def AF_INET6_def sockaddr_zero_def)

end
