(* ===== verification/Ks_Cond.thy ===== *)
theory Ks_Cond
  imports Ks_Types Ks_Steps
begin

text \<open>
  The mutexes and conditions of \<open>ks_mutex.c\<close> (POSIX build, without the records of \<open>KS_DEBUG_MUTEX\<close>). The
  mutex and the condition of pthreads are written out with their documented behaviour: a mutex has an
  owner and a count, a condition the threads that sleep on it. A call that has to wait is \<^const>\<open>None\<close>;
  waiting on a condition is two parts, falling asleep with the release of the mutex, and taking the
  mutex again. Threads are numbers.
\<close>

section \<open>The mutex of pthreads\<close>

record pthread_mutex =
  mx_recursive :: bool
  mx_owner :: "nat option"
  mx_count :: nat

definition MUTEX_MAX :: nat where "MUTEX_MAX = 2 ^ 32 - 1"
definition EPERM :: int where "EPERM = 1"
definition EAGAIN :: int where "EAGAIN = 11"
definition EBUSY :: int where "EBUSY = 16"

definition pthread_mutex_lock :: "nat \<Rightarrow> pthread_mutex \<Rightarrow> (int \<times> pthread_mutex) option" where
  "pthread_mutex_lock t m =
     (case mx_owner m of
        None \<Rightarrow> Some (0, m\<lparr>mx_owner := Some t, mx_count := 1\<rparr>)
      | Some u \<Rightarrow>
          if u = t \<and> mx_recursive m then
            Some (if MUTEX_MAX \<le> mx_count m then (EAGAIN, m) else (0, m\<lparr>mx_count := mx_count m + 1\<rparr>))
          else None)"

definition pthread_mutex_trylock :: "nat \<Rightarrow> pthread_mutex \<Rightarrow> int \<times> pthread_mutex" where
  "pthread_mutex_trylock t m = (case pthread_mutex_lock t m of None \<Rightarrow> (EBUSY, m) | Some r \<Rightarrow> r)"

text \<open>A recursive mutex refuses a thread that is not its owner; the default one does not look.\<close>

definition pthread_mutex_unlock :: "nat \<Rightarrow> pthread_mutex \<Rightarrow> int \<times> pthread_mutex" where
  "pthread_mutex_unlock t m =
     (if mx_recursive m \<and> mx_owner m \<noteq> Some t then (EPERM, m)
      else if mx_recursive m \<and> 1 < mx_count m then (0, m\<lparr>mx_count := mx_count m - 1\<rparr>)
      else (0, m\<lparr>mx_owner := None, mx_count := 0\<rparr>))"

section \<open>\<open>ks_mutex\<close>\<close>

definition KS_MUTEX_FLAG_NON_RECURSIVE :: u32 where "KS_MUTEX_FLAG_NON_RECURSIVE = 1"
definition KS_MUTEX_FLAG_RAW_ALLOC :: u32 where "KS_MUTEX_FLAG_RAW_ALLOC = 2"

record ks_mutex =
  pmutex :: pthread_mutex
  mx_flags :: u32
  mx_malloc :: bool

text \<open>
  Creation, with the outcomes of the allocation and of the initialisation. A block that does not come
  from a pool is cleared without a test of the allocation.
\<close>

definition ks_mutex_create :: "u32 \<Rightarrow> bool \<Rightarrow> bool \<Rightarrow> bool \<Rightarrow> (ks_status \<times> ks_mutex option) option" where
  "ks_mutex_create flags pool alloc init =
     (if pool \<and> flags AND KS_MUTEX_FLAG_RAW_ALLOC \<noteq> 0 then None
      else if \<not> alloc then (if pool then Some (KS_STATUS_FAIL, None) else None)
      else if \<not> init then Some (KS_STATUS_FAIL, None)
      else Some (KS_STATUS_SUCCESS,
        Some \<lparr>pmutex = \<lparr>mx_recursive = (flags AND KS_MUTEX_FLAG_NON_RECURSIVE = 0), mx_owner = None, mx_count = 0\<rparr>,
              mx_flags = flags, mx_malloc = \<not> pool\<rparr>))"

text \<open>How destruction gives the block back.\<close>

datatype mutex_release = Raw_free | Ks_free | Pool_free

definition ks_mutex_destroy :: "ks_mutex option \<Rightarrow> ks_status \<times> mutex_release option" where
  "ks_mutex_destroy m =
     (case m of None \<Rightarrow> (KS_STATUS_FAIL, None)
      | Some m \<Rightarrow>
          (KS_STATUS_SUCCESS,
           Some (if mx_malloc m then (if mx_flags m AND KS_MUTEX_FLAG_RAW_ALLOC \<noteq> 0 then Raw_free else Ks_free) else Pool_free)))"

definition status_of :: "int \<Rightarrow> ks_status" where
  "status_of r = (if r \<noteq> 0 then KS_STATUS_FAIL else KS_STATUS_SUCCESS)"

definition ks_mutex_lock :: "nat \<Rightarrow> ks_mutex \<Rightarrow> (ks_status \<times> ks_mutex) option" where
  "ks_mutex_lock t m = map_option (\<lambda>(r, p). (status_of r, m\<lparr>pmutex := p\<rparr>)) (pthread_mutex_lock t (pmutex m))"

definition ks_mutex_trylock :: "nat \<Rightarrow> ks_mutex \<Rightarrow> ks_status \<times> ks_mutex" where
  "ks_mutex_trylock t m = (let (r, p) = pthread_mutex_trylock t (pmutex m) in (status_of r, m\<lparr>pmutex := p\<rparr>))"

definition ks_mutex_unlock :: "nat \<Rightarrow> ks_mutex \<Rightarrow> ks_status \<times> ks_mutex" where
  "ks_mutex_unlock t m = (let (r, p) = pthread_mutex_unlock t (pmutex m) in (status_of r, m\<lparr>pmutex := p\<rparr>))"

section \<open>\<open>ks_cond\<close>\<close>

record ks_cond =
  cmutex :: ks_mutex
  waiters :: "nat list"
  static_mutex :: bool

text \<open>
  Creation with a mutex of the caller or with one of its own; \<open>alloc\<close>, \<open>alloc2\<close>, \<open>init\<close> and \<open>cinit\<close> are the
  outcomes of the allocations and initialisations.
\<close>

definition ks_cond_create_ex :: "ks_mutex option \<Rightarrow> bool \<Rightarrow> bool \<Rightarrow> bool \<Rightarrow> bool \<Rightarrow> (ks_status \<times> ks_cond option) option" where
  "ks_cond_create_ex m alloc alloc2 init cinit =
     (if \<not> alloc then Some (KS_STATUS_FAIL, None)
      else do { (r, mx) \<leftarrow> (case m of Some x \<Rightarrow> Some (KS_STATUS_SUCCESS, Some x) | None \<Rightarrow> ks_mutex_create 0 True alloc2 init);
                case mx of None \<Rightarrow> Some (KS_STATUS_FAIL, None)
                | Some x \<Rightarrow>
                    if \<not> cinit then Some (KS_STATUS_FAIL, None)
                    else Some (KS_STATUS_SUCCESS, Some \<lparr>cmutex = x, waiters = [], static_mutex = (m \<noteq> None)\<rparr>) })"

definition ks_cond_lock :: "nat \<Rightarrow> ks_cond \<Rightarrow> (ks_status \<times> ks_cond) option" where
  "ks_cond_lock t c = map_option (\<lambda>(r, m). (r, c\<lparr>cmutex := m\<rparr>)) (ks_mutex_lock t (cmutex c))"

definition ks_cond_trylock :: "nat \<Rightarrow> ks_cond \<Rightarrow> ks_status \<times> ks_cond" where
  "ks_cond_trylock t c = (let (r, m) = ks_mutex_trylock t (cmutex c) in (r, c\<lparr>cmutex := m\<rparr>))"

definition ks_cond_unlock :: "nat \<Rightarrow> ks_cond \<Rightarrow> ks_status \<times> ks_cond" where
  "ks_cond_unlock t c = (let (r, m) = ks_mutex_unlock t (cmutex c) in (r, c\<lparr>cmutex := m\<rparr>))"

text \<open>\<open>pthread_cond_signal\<close> wakes one sleeping thread, any one: \<open>w\<close> when it sleeps.\<close>

definition pthread_cond_signal :: "nat \<Rightarrow> nat list \<Rightarrow> nat list" where
  "pthread_cond_signal w ws = (if w \<in> set ws then remove1 w ws else tl ws)"

definition ks_cond_signal :: "nat \<Rightarrow> nat \<Rightarrow> ks_cond \<Rightarrow> (ks_status \<times> ks_cond) option" where
  "ks_cond_signal t w c =
     do { (_, c) \<leftarrow> ks_cond_lock t c;
          let c = c\<lparr>waiters := pthread_cond_signal w (waiters c)\<rparr>;
          Some (KS_STATUS_SUCCESS, snd (ks_cond_unlock t c)) }"

definition ks_cond_broadcast :: "nat \<Rightarrow> ks_cond \<Rightarrow> (ks_status \<times> ks_cond) option" where
  "ks_cond_broadcast t c =
     do { (_, c) \<leftarrow> ks_cond_lock t c;
          let c = c\<lparr>waiters := []\<rparr>;
          Some (KS_STATUS_SUCCESS, snd (ks_cond_unlock t c)) }"

definition ks_cond_try_signal :: "nat \<Rightarrow> nat \<Rightarrow> ks_cond \<Rightarrow> ks_status \<times> ks_cond" where
  "ks_cond_try_signal t w c =
     (let (r, c) = ks_cond_trylock t c in
      if r \<noteq> KS_STATUS_SUCCESS then (KS_STATUS_FAIL, c)
      else (KS_STATUS_SUCCESS, snd (ks_cond_unlock t (c\<lparr>waiters := pthread_cond_signal w (waiters c)\<rparr>))))"

definition ks_cond_try_broadcast :: "nat \<Rightarrow> ks_cond \<Rightarrow> ks_status \<times> ks_cond" where
  "ks_cond_try_broadcast t c =
     (let (r, c) = ks_cond_trylock t c in
      if r \<noteq> KS_STATUS_SUCCESS then (KS_STATUS_FAIL, c)
      else (KS_STATUS_SUCCESS, snd (ks_cond_unlock t (c\<lparr>waiters := []\<rparr>))))"

text \<open>
  \<open>ks_cond_wait\<close> and \<open>ks_cond_timedwait\<close>: falling asleep gives up one level of the mutex; the thread
  goes on when it is no longer among the sleeping ones and gets the mutex.
\<close>

definition cond_sleep :: "nat \<Rightarrow> ks_cond \<Rightarrow> ks_cond" where
  "cond_sleep t c = snd (ks_cond_unlock t (c\<lparr>waiters := waiters c @ [t]\<rparr>))"

definition cond_resume :: "nat \<Rightarrow> bool \<Rightarrow> ks_cond \<Rightarrow> (ks_status \<times> ks_cond) option" where
  "cond_resume t timed_out c =
     (if t \<in> set (waiters c) then None
      else map_option (\<lambda>(_, c). (if timed_out then KS_STATUS_TIMEOUT else KS_STATUS_SUCCESS, c)) (ks_cond_lock t c))"

section \<open>Threads that share a condition\<close>

datatype cond_pc = Run | Sleep bool | Timed_out

record cond_sys =
  sc :: ks_cond
  scpc :: "nat \<Rightarrow> cond_pc"
  held :: "nat \<Rightarrow> nat"

definition cond_init :: "bool \<Rightarrow> cond_sys" where
  "cond_init rec =
     \<lparr>sc = \<lparr>cmutex = \<lparr>pmutex = \<lparr>mx_recursive = rec, mx_owner = None, mx_count = 0\<rparr>, mx_flags = (if rec then 0 else 1), mx_malloc = False\<rparr>,
        waiters = [], static_mutex = True\<rparr>, scpc = (\<lambda>_. Run), held = (\<lambda>_. 0)\<rparr>"

text \<open>
  The actions of a thread. \<open>held\<close> counts its locks that are not yet unlocked. A thread unlocks what it
  has locked, sleeps with exactly one lock, and does not signal with the largest possible count. A
  sleeping thread may wake up without a signal, and with a time limit when the time is over.
\<close>

datatype cond_act =
  Lock | Trylock | Unlock | Wait bool | Wake | Expire | Resume | Signal nat | Broadcast | Try_signal nat | Try_broadcast

fun cond_enabled :: "cond_act \<Rightarrow> nat \<Rightarrow> cond_sys \<Rightarrow> bool" where
  "cond_enabled Lock t s = (scpc s t = Run)"
| "cond_enabled Trylock t s = (scpc s t = Run)"
| "cond_enabled Unlock t s = (scpc s t = Run \<and> 0 < held s t)"
| "cond_enabled (Wait timed) t s = (scpc s t = Run \<and> held s t = 1)"
| "cond_enabled Wake t s = (\<exists>timed. scpc s t = Sleep timed)"
| "cond_enabled Expire t s = (scpc s t = Sleep True)"
| "cond_enabled Resume t s = (scpc s t \<noteq> Run)"
| "cond_enabled (Signal w) t s = (scpc s t = Run \<and> held s t < MUTEX_MAX)"
| "cond_enabled Broadcast t s = (scpc s t = Run \<and> held s t < MUTEX_MAX)"
| "cond_enabled (Try_signal w) t s = (scpc s t = Run)"
| "cond_enabled Try_broadcast t s = (scpc s t = Run)"

definition took :: "nat \<Rightarrow> cond_sys \<Rightarrow> ks_status \<times> ks_cond \<Rightarrow> cond_sys" where
  "took t s rc = s\<lparr>sc := snd rc, held := (held s)(t := held s t + (if fst rc = KS_STATUS_SUCCESS then 1 else 0))\<rparr>"

fun cond_do :: "cond_act \<Rightarrow> nat \<Rightarrow> cond_sys \<Rightarrow> cond_sys option" where
  "cond_do Lock t s = map_option (took t s) (ks_cond_lock t (sc s))"
| "cond_do Trylock t s = Some (took t s (ks_cond_trylock t (sc s)))"
| "cond_do Unlock t s = Some (s\<lparr>sc := snd (ks_cond_unlock t (sc s)), held := (held s)(t := held s t - 1)\<rparr>)"
| "cond_do (Wait timed) t s =
     Some (s\<lparr>sc := cond_sleep t (sc s), scpc := (scpc s)(t := Sleep timed), held := (held s)(t := held s t - 1)\<rparr>)"
| "cond_do Wake t s = Some (s\<lparr>sc := (sc s)\<lparr>waiters := removeAll t (waiters (sc s))\<rparr>\<rparr>)"
| "cond_do Expire t s =
     Some (s\<lparr>sc := (sc s)\<lparr>waiters := removeAll t (waiters (sc s))\<rparr>, scpc := (scpc s)(t := Timed_out)\<rparr>)"
| "cond_do Resume t s =
     map_option (\<lambda>(_, c). s\<lparr>sc := c, scpc := (scpc s)(t := Run), held := (held s)(t := held s t + 1)\<rparr>)
       (cond_resume t (scpc s t = Timed_out) (sc s))"
| "cond_do (Signal w) t s = map_option (\<lambda>(_, c). s\<lparr>sc := c\<rparr>) (ks_cond_signal t w (sc s))"
| "cond_do Broadcast t s = map_option (\<lambda>(_, c). s\<lparr>sc := c\<rparr>) (ks_cond_broadcast t (sc s))"
| "cond_do (Try_signal w) t s = Some (s\<lparr>sc := snd (ks_cond_try_signal t w (sc s))\<rparr>)"
| "cond_do Try_broadcast t s = Some (s\<lparr>sc := snd (ks_cond_try_broadcast t (sc s))\<rparr>)"

inductive cond_step :: "cond_sys \<Rightarrow> cond_sys \<Rightarrow> bool" where
  act: "cond_enabled a t s \<Longrightarrow> cond_do a t s = Some s' \<Longrightarrow> cond_step s s'"

end
