(* ===== verification/Ks_Cond_Props.thy ===== *)
theory Ks_Cond_Props
  imports Ks_Cond
begin

text \<open>
  Mutual exclusion and wake-ups. The invariant ties the owner and the count of the mutex to the locks
  the threads hold, and the sleeping threads to their program counters. A signal needs the mutex, so
  it cannot fall between a test that a thread makes under the mutex and its falling asleep.
\<close>

section \<open>The mutex\<close>

definition mx_ok :: "bool \<Rightarrow> pthread_mutex \<Rightarrow> (nat \<Rightarrow> nat) \<Rightarrow> bool" where
  "mx_ok rec m h =
     (mx_recursive m = rec \<and> mx_count m \<le> MUTEX_MAX \<and>
      (case mx_owner m of
         None \<Rightarrow> mx_count m = 0 \<and> (\<forall>t. h t = 0)
       | Some t \<Rightarrow> mx_count m = h t \<and> 0 < h t \<and> (\<forall>u. u \<noteq> t \<longrightarrow> h u = 0) \<and> (rec \<or> h t = 1)))"

lemma MUTEX_MAX_pos [simp]: "0 < MUTEX_MAX" "Suc 0 \<le> MUTEX_MAX"
  by (simp_all add: MUTEX_MAX_def)

lemma lock_ok:
  assumes "mx_ok rec m h" "pthread_mutex_lock t m = Some (r, m')"
  shows "mx_ok rec m' (h(t := h t + (if r = 0 then 1 else 0)))" "r \<noteq> 0 \<Longrightarrow> m' = m" "h t < MUTEX_MAX \<Longrightarrow> r = 0"
  using assms by (auto simp: pthread_mutex_lock_def mx_ok_def EAGAIN_def split: option.splits if_splits)

lemma unlock_ok:
  assumes "mx_ok rec m h" "0 < h t"
  shows "\<exists>m'. pthread_mutex_unlock t m = (0, m') \<and> mx_ok rec m' (h(t := h t - 1))"
proof -
  have "mx_owner m = Some t"
  proof (cases "mx_owner m")
    case (Some u)
    then show ?thesis using assms by (cases "u = t") (auto simp: mx_ok_def)
  qed (use assms in \<open>simp add: mx_ok_def\<close>)
  then show ?thesis using assms by (auto simp: pthread_mutex_unlock_def mx_ok_def)
qed

lemma lock_waits:
  assumes "mx_ok rec m h" "0 < h t" "u \<noteq> t"
  shows "pthread_mutex_lock u m = None"
  using assms by (auto simp: pthread_mutex_lock_def mx_ok_def split: option.splits)

section \<open>The condition\<close>

abbreviation pm :: "ks_cond \<Rightarrow> pthread_mutex" where
  "pm c \<equiv> pmutex (cmutex c)"

lemma status_of_simps [simp]: "status_of r = KS_STATUS_SUCCESS \<longleftrightarrow> r = 0"
  by (simp add: status_of_def)

lemma cond_lock_ok:
  assumes "mx_ok rec (pm c) h" "ks_cond_lock t c = Some (r, c')"
  shows "waiters c' = waiters c" "mx_ok rec (pm c') (h(t := h t + (if r = KS_STATUS_SUCCESS then 1 else 0)))"
    "h t < MUTEX_MAX \<Longrightarrow> r = KS_STATUS_SUCCESS"
proof -
  obtain q m where q: "pthread_mutex_lock t (pm c) = Some (q, m)" "r = status_of q" "c' = c\<lparr>cmutex := (cmutex c)\<lparr>pmutex := m\<rparr>\<rparr>"
    using assms(2) by (auto simp: ks_cond_lock_def ks_mutex_lock_def)
  then show "waiters c' = waiters c" "mx_ok rec (pm c') (h(t := h t + (if r = KS_STATUS_SUCCESS then 1 else 0)))"
    "h t < MUTEX_MAX \<Longrightarrow> r = KS_STATUS_SUCCESS"
    using lock_ok [OF assms(1) q(1)] by simp_all
qed

lemma cond_unlock_ok:
  assumes "mx_ok rec (pm c) h" "0 < h t"
  shows "waiters (snd (ks_cond_unlock t c)) = waiters c" "mx_ok rec (pm (snd (ks_cond_unlock t c))) (h(t := h t - 1))"
  using unlock_ok [OF assms] by (auto simp: ks_cond_unlock_def ks_mutex_unlock_def)

lemma cond_trylock_ok:
  assumes "mx_ok rec (pm c) h" "ks_cond_trylock t c = (r, c')"
  shows "waiters c' = waiters c" "mx_ok rec (pm c') (h(t := h t + (if r = KS_STATUS_SUCCESS then 1 else 0)))"
  using assms lock_ok [OF assms(1), of t]
  by (auto simp: ks_cond_trylock_def ks_mutex_trylock_def pthread_mutex_trylock_def EBUSY_def Let_def
      split: option.splits prod.splits)

text \<open>A section that takes the mutex, changes the sleeping threads and gives the mutex up.\<close>

lemma locked_section:
  assumes "mx_ok rec (pm c) (h(t := h t + 1))"
  shows "waiters (snd (ks_cond_unlock t (c\<lparr>waiters := ws\<rparr>))) = ws" "mx_ok rec (pm (snd (ks_cond_unlock t (c\<lparr>waiters := ws\<rparr>)))) h"
  using cond_unlock_ok [of rec "c\<lparr>waiters := ws\<rparr>" "h(t := h t + 1)" t] assms by simp_all

lemma signal_ok:
  assumes "mx_ok rec (pm c) h" "h t < MUTEX_MAX" "ks_cond_signal t w c = Some (r, c')"
  shows "r = KS_STATUS_SUCCESS" "waiters c' = pthread_cond_signal w (waiters c)" "mx_ok rec (pm c') h"
proof -
  from assms(3) obtain q d where d: "ks_cond_lock t c = Some (q, d)" by (auto simp: ks_cond_signal_def split: bind_splits)
  note l = cond_lock_ok [OF assms(1) d]
  have "mx_ok rec (pm d) (h(t := h t + 1))" using l(2) l(3) [OF assms(2)] by simp
  from locked_section [OF this] show "r = KS_STATUS_SUCCESS" "waiters c' = pthread_cond_signal w (waiters c)" "mx_ok rec (pm c') h"
    using assms(3) d l(1) by (auto simp: ks_cond_signal_def Let_def)
qed

lemma broadcast_ok:
  assumes "mx_ok rec (pm c) h" "h t < MUTEX_MAX" "ks_cond_broadcast t c = Some (r, c')"
  shows "r = KS_STATUS_SUCCESS" "waiters c' = []" "mx_ok rec (pm c') h"
proof -
  from assms(3) obtain q d where d: "ks_cond_lock t c = Some (q, d)" by (auto simp: ks_cond_broadcast_def split: bind_splits)
  note l = cond_lock_ok [OF assms(1) d]
  have "mx_ok rec (pm d) (h(t := h t + 1))" using l(2) l(3) [OF assms(2)] by simp
  from locked_section [OF this] show "r = KS_STATUS_SUCCESS" "waiters c' = []" "mx_ok rec (pm c') h"
    using assms(3) d by (auto simp: ks_cond_broadcast_def Let_def)
qed

lemma try_ok:
  assumes "mx_ok rec (pm c) h"
  shows "mx_ok rec (pm (snd (ks_cond_try_signal t w c))) h" "set (waiters (snd (ks_cond_try_signal t w c))) \<subseteq> set (waiters c)"
    "distinct (waiters c) \<Longrightarrow> distinct (waiters (snd (ks_cond_try_signal t w c)))"
    "mx_ok rec (pm (snd (ks_cond_try_broadcast t c))) h" "set (waiters (snd (ks_cond_try_broadcast t c))) \<subseteq> set (waiters c)"
    "distinct (waiters c) \<Longrightarrow> distinct (waiters (snd (ks_cond_try_broadcast t c)))"
proof -
  obtain r d where d: "ks_cond_trylock t c = (r, d)" by fastforce
  note l = cond_trylock_ok [OF assms d]
  have s: "set (pthread_cond_signal w ws) \<subseteq> set ws" "distinct ws \<Longrightarrow> distinct (pthread_cond_signal w ws)" for ws
    using set_remove1_subset [of w ws] by (cases ws; auto simp: pthread_cond_signal_def)+
  show "mx_ok rec (pm (snd (ks_cond_try_signal t w c))) h" "set (waiters (snd (ks_cond_try_signal t w c))) \<subseteq> set (waiters c)"
    "distinct (waiters c) \<Longrightarrow> distinct (waiters (snd (ks_cond_try_signal t w c)))"
    "mx_ok rec (pm (snd (ks_cond_try_broadcast t c))) h" "set (waiters (snd (ks_cond_try_broadcast t c))) \<subseteq> set (waiters c)"
    "distinct (waiters c) \<Longrightarrow> distinct (waiters (snd (ks_cond_try_broadcast t c)))"
    using l d locked_section [of rec d h t] s
    by (auto simp: ks_cond_try_signal_def ks_cond_try_broadcast_def Let_def split: if_splits)
qed

section \<open>All steps\<close>

definition cond_inv :: "bool \<Rightarrow> cond_sys \<Rightarrow> bool" where
  "cond_inv rec s =
     (mx_ok rec (pm (sc s)) (held s) \<and> distinct (waiters (sc s)) \<and> (\<forall>t\<in>set (waiters (sc s)). \<exists>b. scpc s t = Sleep b) \<and>
      (\<forall>t. scpc s t \<noteq> Run \<longrightarrow> held s t = 0))"

lemma cond_init_inv: "cond_inv rec (cond_init rec)"
  by (simp add: cond_inv_def cond_init_def mx_ok_def)

lemma inv_mutex:
  assumes "cond_inv rec s" "mx_ok rec (pm c) h" "set (waiters c) \<subseteq> set (waiters (sc s))" "distinct (waiters c)"
    "\<And>u. scpc s u \<noteq> Run \<Longrightarrow> h u = 0"
  shows "cond_inv rec (s\<lparr>sc := c, held := h\<rparr>)" "h = held s \<Longrightarrow> cond_inv rec (s\<lparr>sc := c\<rparr>)"
  using assms by (auto simp: cond_inv_def)

lemma took_inv:
  assumes "cond_inv rec s" "scpc s t = Run" "waiters c = waiters (sc s)"
    "mx_ok rec (pm c) ((held s)(t := held s t + (if r = KS_STATUS_SUCCESS then 1 else 0)))"
  shows "cond_inv rec (took t s (r, c))"
  using inv_mutex(1) [OF assms(1,4)] assms by (auto simp: took_def cond_inv_def)

lemma sleep_inv:
  assumes "cond_inv rec s" "scpc s t = Run" "held s t = 1"
  shows "cond_inv rec (s\<lparr>sc := cond_sleep t (sc s), scpc := (scpc s)(t := Sleep timed), held := (held s)(t := held s t - 1)\<rparr>)"
proof -
  have "t \<notin> set (waiters (sc s))" using assms(1,2) by (auto simp: cond_inv_def)
  then show ?thesis
    using assms cond_unlock_ok [of rec "(sc s)\<lparr>waiters := waiters (sc s) @ [t]\<rparr>" "held s" t]
    by (auto simp: cond_inv_def cond_sleep_def)
qed

lemma resume_inv:
  assumes "cond_inv rec s" "scpc s t \<noteq> Run" "cond_resume t b (sc s) = Some (r, c)"
  shows "cond_inv rec (s\<lparr>sc := c, scpc := (scpc s)(t := Run), held := (held s)(t := held s t + 1)\<rparr>)"
proof -
  have h: "held s t = 0" "t \<notin> set (waiters (sc s))" using assms by (auto simp: cond_inv_def cond_resume_def split: if_splits)
  obtain q where q: "ks_cond_lock t (sc s) = Some (q, c)" using assms(3) h(2) by (auto simp: cond_resume_def)
  have ok: "mx_ok rec (pm (sc s)) (held s)" using assms(1) by (simp add: cond_inv_def)
  from cond_lock_ok [OF ok q] h show ?thesis using assms(1) by (auto simp: cond_inv_def)
qed

lemma remove_waiter_inv:
  assumes "cond_inv rec s"
  shows "cond_inv rec (s\<lparr>sc := (sc s)\<lparr>waiters := removeAll t (waiters (sc s))\<rparr>\<rparr>)"
    "scpc s t \<noteq> Run \<Longrightarrow> cond_inv rec (s\<lparr>sc := (sc s)\<lparr>waiters := removeAll t (waiters (sc s))\<rparr>, scpc := (scpc s)(t := Timed_out)\<rparr>)"
  using assms by (auto simp: cond_inv_def distinct_removeAll)

lemma set_signal: "set (pthread_cond_signal w ws) \<subseteq> set ws" "distinct ws \<Longrightarrow> distinct (pthread_cond_signal w ws)"
  using set_remove1_subset [of w ws] by (cases ws; auto simp: pthread_cond_signal_def)+

lemma cond_step_inv: "cond_step s s' \<Longrightarrow> cond_inv rec s \<Longrightarrow> cond_inv rec s'"
proof (induction rule: cond_step.induct)
  case (act a t s s')
  have ok: "mx_ok rec (pm (sc s)) (held s)" and d: "distinct (waiters (sc s))"
    and pc: "\<And>u. scpc s u \<noteq> Run \<Longrightarrow> held s u = 0" using act.prems by (auto simp: cond_inv_def)
  show ?case
  proof (cases a)
    case Lock
    then obtain r c where l: "ks_cond_lock t (sc s) = Some (r, c)" "s' = took t s (r, c)" using act.hyps(2) by auto
    then show ?thesis using took_inv [OF act.prems] cond_lock_ok [OF ok l(1)] act.hyps(1) Lock by simp
  next
    case Trylock
    obtain r c where "ks_cond_trylock t (sc s) = (r, c)" by fastforce
    then show ?thesis using took_inv [OF act.prems] cond_trylock_ok [OF ok] act.hyps Trylock by auto
  next
    case Unlock
    then have "0 < held s t" "scpc s t = Run" "s' = s\<lparr>sc := snd (ks_cond_unlock t (sc s)), held := (held s)(t := held s t - 1)\<rparr>"
      using act.hyps by auto
    moreover from this have "((held s)(t := held s t - 1)) u = 0" if "scpc s u \<noteq> Run" for u
      using pc [OF that] that by (cases "u = t") simp_all
    ultimately show ?thesis
      using inv_mutex(1) [OF act.prems, of "snd (ks_cond_unlock t (sc s))" "(held s)(t := held s t - 1)"] cond_unlock_ok [OF ok] d
      by simp
  next
    case (Wait timed)
    then show ?thesis using sleep_inv [OF act.prems, of t timed] act.hyps by auto
  next
    case Wake
    then show ?thesis using remove_waiter_inv(1) [OF act.prems, of t] act.hyps by auto
  next
    case Expire
    then show ?thesis using remove_waiter_inv(2) [OF act.prems, of t] act.hyps by auto
  next
    case Resume
    then show ?thesis using resume_inv [OF act.prems, of t] act.hyps by auto
  next
    case (Signal w)
    then obtain r c where c: "ks_cond_signal t w (sc s) = Some (r, c)" "s' = s\<lparr>sc := c\<rparr>" "held s t < MUTEX_MAX" using act.hyps by auto
    then show ?thesis using inv_mutex(2) [OF act.prems, of c "held s"] signal_ok [OF ok c(3,1)] set_signal d pc by auto
  next
    case Broadcast
    then obtain r c where c: "ks_cond_broadcast t (sc s) = Some (r, c)" "s' = s\<lparr>sc := c\<rparr>" "held s t < MUTEX_MAX" using act.hyps by auto
    then show ?thesis using inv_mutex(2) [OF act.prems, of c "held s"] broadcast_ok [OF ok c(3,1)] pc by auto
  next
    case (Try_signal w)
    then show ?thesis using inv_mutex(2) [OF act.prems] try_ok(1-3) [OF ok, of t w] act.hyps(2) d pc by auto
  next
    case Try_broadcast
    then show ?thesis using inv_mutex(2) [OF act.prems] try_ok(4-6) [OF ok, of t] act.hyps(2) d pc by auto
  qed
qed

interpretation conds: step_system "cond_init rec" cond_step "cond_inv rec"
  by unfold_locales (auto intro: cond_init_inv cond_step_inv)

section \<open>Waiting with two locks\<close>

text \<open>
  A thread that holds a recursive mutex twice keeps it while it sleeps: nobody else can signal.
\<close>

lemma wait_holding_twice:
  assumes "mx_recursive (pm c)" "mx_owner (pm c) = Some t" "mx_count (pm c) = 2" "u \<noteq> t"
  shows "ks_cond_signal u w (cond_sleep t c) = None"
  using assms by (simp add: ks_cond_signal_def cond_sleep_def ks_cond_unlock_def ks_mutex_unlock_def pthread_mutex_unlock_def
      ks_cond_lock_def ks_mutex_lock_def pthread_mutex_lock_def)

section \<open>Claims\<close>

text \<open>
  C14: Mutexes exclude, and no wake-up is lost. In every state that threads reach by locking, unlocking,
  waiting with and without a time limit, waking up for any reason, signalling and broadcasting, a
  thread \<open>t\<close> that holds the mutex is the only holder, the owner on record, with the count of its locks;
  until it gives the mutex up, a signal or broadcast of another thread waits, or fails when it only
  tries. When \<open>t\<close> falls asleep it is among the sleeping threads before any other thread can signal, a
  broadcast that gets through then wakes all of them, and a signal wakes exactly one.
\<close>

theorem ks_cond_no_lost_wakeup:
  assumes "cond_step\<^sup>*\<^sup>* (cond_init rec) s" "0 < held s t" "u \<noteq> t"
  shows "held s u = 0 \<and> mx_owner (pm (sc s)) = Some t \<and> mx_count (pm (sc s)) = held s t \<and>
    ks_cond_signal u w (sc s) = None \<and> ks_cond_broadcast u (sc s) = None \<and>
    fst (ks_cond_try_signal u w (sc s)) = KS_STATUS_FAIL \<and> waiters (snd (ks_cond_try_signal u w (sc s))) = waiters (sc s) \<and>
    (held s t \<noteq> 1 \<or> (let c = cond_sleep t (sc s) in t \<in> set (waiters c) \<and>
       (\<exists>d. ks_cond_broadcast u c = Some (KS_STATUS_SUCCESS, d) \<and> waiters d = []) \<and>
       (\<exists>d. ks_cond_signal u t c = Some (KS_STATUS_SUCCESS, d) \<and> waiters d = remove1 t (waiters c))))"
proof -
  have inv: "cond_inv rec s" by (rule conds.run_inv [OF assms(1)])
  then have ok: "mx_ok rec (pm (sc s)) (held s)" by (simp add: cond_inv_def)
  have own: "mx_owner (pm (sc s)) = Some t" "mx_count (pm (sc s)) = held s t" "held s u = 0"
  proof -
    have "\<exists>v. mx_owner (pm (sc s)) = Some v" using ok assms(2) by (cases "mx_owner (pm (sc s))") (auto simp: mx_ok_def)
    then obtain v where v: "mx_owner (pm (sc s)) = Some v" by blast
    then have "v = t" using ok assms(2) by (cases "v = t") (auto simp: mx_ok_def)
    then show "mx_owner (pm (sc s)) = Some t" "mx_count (pm (sc s)) = held s t" "held s u = 0" using ok v assms(3) by (auto simp: mx_ok_def)
  qed
  note w = lock_waits [OF ok assms(2,3)]
  have blocked: "ks_cond_signal u w (sc s) = None" "ks_cond_broadcast u (sc s) = None"
    "fst (ks_cond_try_signal u w (sc s)) = KS_STATUS_FAIL" "waiters (snd (ks_cond_try_signal u w (sc s))) = waiters (sc s)"
    using w by (simp_all add: ks_cond_signal_def ks_cond_broadcast_def ks_cond_lock_def ks_mutex_lock_def ks_cond_try_signal_def
        ks_cond_trylock_def ks_mutex_trylock_def pthread_mutex_trylock_def status_of_def EBUSY_def Let_def)
  have sleeps: "let c = cond_sleep t (sc s) in t \<in> set (waiters c) \<and>
       (\<exists>d. ks_cond_broadcast u c = Some (KS_STATUS_SUCCESS, d) \<and> waiters d = []) \<and>
       (\<exists>d. ks_cond_signal u t c = Some (KS_STATUS_SUCCESS, d) \<and> waiters d = remove1 t (waiters c))" if "held s t = 1"
  proof -
    let ?c = "cond_sleep t (sc s)" and ?h = "(held s)(t := 0)"
    have c: "waiters ?c = waiters (sc s) @ [t]" "mx_ok rec (pm ?c) ?h"
      using cond_unlock_ok [of rec "(sc s)\<lparr>waiters := waiters (sc s) @ [t]\<rparr>" "held s" t] ok that by (simp_all add: cond_sleep_def)
    have "\<forall>v. ?h v = 0" using ok own(1) by (auto simp: mx_ok_def)
    then have "mx_owner (pm ?c) = None" using c(2) by (cases "mx_owner (pm ?c)") (auto simp: mx_ok_def)
    then have "\<exists>d. ks_cond_lock u ?c = Some (KS_STATUS_SUCCESS, d)"
      by (simp add: ks_cond_lock_def ks_mutex_lock_def pthread_mutex_lock_def status_of_def)
    then obtain d1 d2 where d: "ks_cond_broadcast u ?c = Some (KS_STATUS_SUCCESS, d1)" "ks_cond_signal u t ?c = Some (KS_STATUS_SUCCESS, d2)"
      by (auto simp: ks_cond_broadcast_def ks_cond_signal_def Let_def)
    have "?h u < MUTEX_MAX" using own(3) assms(3) by simp
    note b = broadcast_ok(2) [OF c(2) this d(1)] and sg = signal_ok(2) [OF c(2) this d(2)]
    show ?thesis using c(1) d b sg by (auto simp: Let_def pthread_cond_signal_def)
  qed
  show ?thesis using own blocked sleeps by blast
qed

definition demo_cond :: cond_sys where
  "demo_cond = the (cond_do Lock 1 (cond_init True))"

lemma demo_cond_reached: "cond_step\<^sup>*\<^sup>* (cond_init True) demo_cond" "held demo_cond 1 = 1"
proof -
  have "cond_do Lock 1 (cond_init True) = Some demo_cond"
    by (simp add: demo_cond_def cond_init_def ks_cond_lock_def ks_mutex_lock_def pthread_mutex_lock_def)
  moreover have "cond_enabled Lock 1 (cond_init True)" by (simp add: cond_init_def)
  ultimately show "cond_step\<^sup>*\<^sup>* (cond_init True) demo_cond" by (blast intro: cond_step.act)
  show "held demo_cond 1 = 1" by code_simp
qed

theorem ks_cond_no_lost_wakeup_witness:
  "ks_cond_broadcast 2 (sc demo_cond) = None \<and>
    (\<exists>d. ks_cond_broadcast 2 (cond_sleep 1 (sc demo_cond)) = Some (KS_STATUS_SUCCESS, d) \<and> waiters d = [])"
  using ks_cond_no_lost_wakeup [OF demo_cond_reached(1), of 1 2] demo_cond_reached(2) by (simp add: Let_def)

end
