(* ===== verification/Spec2Isabelle.thy ===== *)
theory Spec2Isabelle
  imports Ks_Prelude Ks_Types Ks_Buffer Ks_Q Ks_Q_Conc Ks_Hash_Props Ks_Pool_Props Ks_Pool_Clear Ks_Base64_Props Ks_String_Props Ks_Acl_Props Ks_Utf8_Props Ks_Kws_Props Ks_Rwl Ks_Thread_Pool_Props Ks_Sb Ks_Json_Check Ks_Kws_Http_Props Ks_Config_Props Ks_Hep_Props Ks_Thread_Props Ks_Addr Ks_Cond_Props
begin

text \<open>
  \<^bold>\<open>libks: a verification development.\<close>

  libks is the C foundation library of SignalWire: memory pools, containers, strings, locks and threads,
  and on top of them a WebSocket and HTTP layer, access lists, configuration files and capture packets.
  The theories of this directory translate the components of \<open>src/src\<close> (POSIX build, 64-bit machine)
  into executable definitions and prove what makes each of them correct.

  \<^bold>\<open>Conventions.\<close> A block of memory is its list of bytes, a pointer into it an offset; structures on
  the heap that point to each other are addresses with maps for their fields. A definition returns an
  \<open>option\<close> where the code could access memory outside its object, pass a null pointer to the C
  library or fail an assertion: \<^const>\<open>None\<close> is that fault, so an equation \<open>f x = Some y\<close> includes memory safety.
  Errors the code reports are values (\<open>ks_status\<close>, a return code). \<open>size_t\<close> is \<open>nat\<close> with the
  wrap-around of \<^const>\<open>size_add\<close> and \<^const>\<open>size_sub\<close> written out; hashes, masks, flags and counters
  that wrap are words, and signed sums that can overflow are reduced to their width; plain \<open>char\<close> is
  signed. Every loop is a function with a proved measure, or \<open>partial_function (option)\<close> where it follows
  links that callbacks change (the passes of \<open>ks_pool_clear\<close>), so there is no fuel: that a call returns is
  part of each theorem about it. (The walk over the nodes of a queue at its teardown is bounded by the number
  of nodes it ever made; \<open>ks_q_teardown_ok\<close> shows that this is enough.)

  What the sources only call is an argument of the definitions that use it: \<open>inet_pton\<close>, \<open>inet_addr\<close>,
  the result of an undefined shift, the contents of fresh or enlarged memory (\<open>junk\<close>), the outcomes of
  allocations, the place where \<open>realloc\<close> puts a block, the clean-up callbacks that \<open>ks_pool_clear\<close> runs, the events of a socket (how much a \<open>recv\<close> or
  \<open>send\<close> moves, errors), random bytes and digests of the handshake, \<open>uuid_parse\<close>, the clock, the
  contents of files. Hypotheses about them are named definitions (\<open>addr_fns\<close>, \<open>releases_newer\<close>, the
  environment of the connection) and each theorem that has one comes with an instance.

  \<^bold>\<open>Foundations.\<close>
  \<^item> \<open>Ks_Prelude\<close>: machine types, \<open>size_t\<close> arithmetic (collection \<open>size_simps\<close>), reads, writes and
    copies of blocks (collection \<open>mem_simps\<close>), list facts. \<open>Ks_Ctype\<close>: character tables and the string
    functions of the C library. \<open>Ks_Types\<close>: \<open>ks_status_t\<close> and its names (\<open>ks_types.h\<close>, \<open>ks.c\<close>).
  \<^item> \<open>Ks_Chain\<close>: singly and doubly linked lists in a store of nodes, used by the queue and the pool.
  \<^item> \<open>Ks_Fifo\<close>: the locale \<open>fifo\<close>, a first-in first-out channel with an invariant and an abstraction to
    a list, interpreted by the byte buffer and the queue. \<open>Ks_Steps\<close>: the locale \<open>step_system\<close>, an
    initial state with steps that keep an invariant, interpreted by the shared queue, the read/write
    lock, conditions, the thread objects and the thread pool. The locales \<open>ks_map\<close> (\<open>Ks_Hash_Map\<close>) and \<open>refcount_heap\<close>
    (\<open>Ks_Pool_Props\<close>) are the contracts of the hash table and of the memory pool.

  \<^bold>\<open>Memory and containers.\<close>
  \<^item> \<open>Ks_Pool\<close>, \<open>Ks_Pool_Inv\<close>, \<open>Ks_Pool_Props\<close>, \<open>Ks_Pool_Clear\<close> (\<open>ks_pool.c\<close>): blocks with prefix, fence and reference
    count in a doubly linked list; allocation, resizing, references, release, clearing with its
    clean-up stages, string duplication. Any admissible sequence of operations refines a reference
    counted heap; clearing, with callbacks that release parts of their objects, frees every block once and
    runs no callback on a released one; \<open>ks_pstrcat\<close> concatenates.
  \<^item> \<open>Ks_Buffer\<close> (\<open>ks_buffer.c\<close>): refinement of the fifo, and the overflow of a write beyond \<open>max_len\<close>.
  \<^item> \<open>Ks_Q\<close>, \<open>Ks_Q_Conc\<close> (\<open>ks_q.c\<close>): refinement of the fifo for one thread; for any number of threads,
    with the calls that give the mutex up in two atomic parts and arbitrary wake-ups, order, limit and counters as
    invariants of a step relation.
  \<^item> \<open>Ks_Hash_Fn\<close>, \<open>Ks_Hash\<close>, \<open>Ks_Hash_Inv\<close>, \<open>Ks_Hash_Map\<close>, \<open>Ks_Hash_Props\<close> (\<open>ks_hash.c\<close>): the hash
    functions and the agreement of their three ways to read a key; the table refines a map through
    insertions, removals and expansions; iteration; a lost insertion when another thread expands.
  \<^item> \<open>Ks_Sb\<close> (\<open>ks_sb.c\<close>): the string builder over the memory pool, a refinement of concatenation.

  \<^bold>\<open>Text and encodings.\<close>
  \<^item> \<open>Ks_String\<close>, \<open>Ks_String_Props\<close> (\<open>ks_string.c\<close>): search up to case, bounded copies, tokenizers that
    work in place, URL coding. \<open>Ks_Base64\<close>, \<open>Ks_Utf8\<close> with their \<open>_Props\<close>: round trips and the
    agreement with RFC 4648.
  \<^item> \<open>Ks_Acl\<close>, \<open>Ks_Acl_Props\<close> (\<open>ks_acl.c\<close>): CIDR texts and masks; matching is agreement of prefixes and
    the most specific network decides. \<open>Ks_Json_Check\<close> (\<open>ks_json_check.c\<close>): the checks of JSON items.
  \<^item> \<open>Ks_Config\<close>, \<open>Ks_Config_Props\<close> (\<open>ks_config.c\<close>): reading ends without a fault, and gives back the
    pairs of a well-formed file.
  \<^item> \<open>Ks_Net\<close> (network order) and \<open>Ks_Addr\<close> (\<open>ks_socket.c\<close>): socket addresses over the bytes of their
    union, identity of what is set, read, copied and compared.
  \<^item> \<open>Ks_Hep\<close>, \<open>Ks_Hep_Props\<close> (\<open>ks_hep.c\<close>): capture packets against a reference decoder.

  \<^bold>\<open>Threads.\<close> \<open>Ks_Rwl\<close> (\<open>ks_mutex.c\<close>): the read/write lock with its recursive write side excludes
  writers; \<open>Ks_Cond\<close>, \<open>Ks_Cond_Props\<close> (\<open>ks_mutex.c\<close>): mutexes and conditions, one holder with an exact count and
  no lost wake-up; \<open>Ks_Thread\<close>, \<open>Ks_Thread_Props\<close> (\<open>ks_thread.c\<close>): no thread object is used after it was freed,
  exact counters, results through join; \<open>Ks_Thread_Pool\<close>, \<open>Ks_Thread_Pool_Props\<close> (\<open>ks_thread_pool.c\<close>): counters, jobs, and the
  deadlock of destruction.

  \<^bold>\<open>WebSocket and HTTP\<close> (\<open>kws.c\<close>). \<open>Ks_Kws\<close>: the connection, reading and writing the socket.
  \<open>Ks_Kws_Hs\<close>: the opening handshakes. \<open>Ks_Kws_Frame\<close>: frames and closing. \<open>Ks_Kws_Safe\<close>: the only
  input that makes \<open>kws_read_frame\<close> fault is a frame whose announced length overflows the signed sum with
  the bytes of the message read before it, and it always does. \<open>Ks_Kws_Wire\<close>, \<open>Ks_Kws_Props\<close>: messages in fragments and segments,
  what one end writes the other reads. \<open>Ks_Kws_Http\<close>, \<open>Ks_Kws_Path\<close>, \<open>Ks_Kws_Http_Props\<close>: the HTTP
  request parser, normal forms of paths, query strings.

  \<^bold>\<open>Bounds.\<close> Sizes are bounded only as the C types bound them; the theorems state the bound they need
  (a count below \<open>2 ^ 32\<close>, a length below \<open>2 ^ 64\<close>, a line of at most 1023 bytes). The parameters of a
  model are not restricted further.

  \<^bold>\<open>Undefined behaviour\<close> that the code relies on is modelled as the compilers and libraries do it, and
  named: the signed sum above wraps, the shift by 32 of an IPv4 mask is an argument, and the overlapping
  \<open>sprintf\<close> of \<open>clean_uri\<close> copies byte after byte in ascending order (\<open>sprintf_up\<close>). What a caller does
  with a key or a value that the hash table freed is its own matter: freeing is an event there.

  \<^bold>\<open>Not modelled.\<close> TLS (\<open>ks_tls.c\<close>, \<open>ks_ssl.c\<close> and the TLS branches of \<open>kws.c\<close>) and the rest of the socket
  layer (\<open>ks_socket.c\<close>: options, connecting, listening, polling, routes) are calls of OpenSSL and of the operating system, which the models take as
  arguments; logging, time, environment, shared objects and metrics are output or single system calls;
  \<open>ks_printf.c\<close> (floating point formatting taken from SQLite), cJSON and simclist are third-party
  code; the Windows branches and the records of \<open>KS_DEBUG_MUTEX\<close> and \<open>KS_DEBUG_POOL\<close> are left out.
\<close>

end
